(* ===== verification/Oc_Prelude.thy ===== *)
theory Oc_Prelude
  imports "HOL-Library.Word" "HOL-Library.Monad_Syntax"
begin

unbundle bit_operations_syntax

text \<open>
  Shared vocabulary of the development: the machine integer types of the code, buffers as lists
  with checked accesses (\<open>None\<close> is an access outside the buffer), for-loops as folds over an index
  range with an invariant rule, and the generic facts on words and lists that the components use.
\<close>

section \<open>Machine types\<close>

type_synonym byte = "8 word"
type_synonym u16 = "16 word"
type_synonym u32 = "32 word"
type_synonym u64 = "64 word"

named_theorems buf_simps \<open>evaluation of checked buffer accesses\<close>

section \<open>Checked buffer accesses\<close>

text \<open>Reading or writing an element outside the buffer is the value \<open>None\<close>.\<close>

definition rd :: "'a list \<Rightarrow> nat \<Rightarrow> 'a option" where
  "rd xs i = (if i < length xs then Some (xs ! i) else None)"

definition wr :: "'a list \<Rightarrow> nat \<Rightarrow> 'a \<Rightarrow> 'a list option" where
  "wr xs i v = (if i < length xs then Some (xs[i := v]) else None)"

lemma rd_Some [simp]: "i < length xs \<Longrightarrow> rd xs i = Some (xs ! i)"
  by (simp add: rd_def)

lemma rd_eq_Some_iff: "rd xs i = Some v \<longleftrightarrow> i < length xs \<and> xs ! i = v"
  by (auto simp: rd_def)

lemma wr_Some [simp]: "i < length xs \<Longrightarrow> wr xs i v = Some (xs[i := v])"
  by (simp add: wr_def)

section \<open>Windows of a list\<close>

definition window :: "'a list \<Rightarrow> nat \<Rightarrow> nat \<Rightarrow> 'a list" where
  "window xs off n = take n (drop off xs)"

definition overwrite :: "'a list \<Rightarrow> nat \<Rightarrow> 'a list \<Rightarrow> 'a list" where
  "overwrite xs off ys = take off xs @ ys @ drop (off + length ys) xs"

lemma length_window [simp]: "off + n \<le> length xs \<Longrightarrow> length (window xs off n) = n"
  by (simp add: window_def)

lemma nth_window [simp]: "i < n \<Longrightarrow> off + n \<le> length xs \<Longrightarrow> window xs off n ! i = xs ! (off + i)"
  by (simp add: window_def)

lemma window_0_length [simp]: "window xs 0 (length xs) = xs"
  by (simp add: window_def)

lemma length_overwrite [simp]: "off + length ys \<le> length xs \<Longrightarrow> length (overwrite xs off ys) = length xs"
  by (simp add: overwrite_def)

lemma nth_overwrite:
  assumes "off + length ys \<le> length xs" "i < length xs"
  shows "overwrite xs off ys ! i =
    (if off \<le> i \<and> i < off + length ys then ys ! (i - off) else xs ! i)"
  using assms by (auto simp: overwrite_def nth_append min_def not_less)

lemma window_overwrite_same [simp]:
  "off + length ys \<le> length xs \<Longrightarrow> n = length ys \<Longrightarrow> window (overwrite xs off ys) off n = ys"
  by (simp add: window_def overwrite_def)

lemma overwrite_Nil [simp]: "overwrite xs off [] = xs"
  by (simp add: overwrite_def)

lemma drop_window: "drop a xs = window xs a b @ drop (a + b) xs"
  using append_take_drop_id[of b "drop a xs"] by (simp add: window_def add.commute)

section \<open>Bytewise exclusive or\<close>

definition xor_block :: "byte list \<Rightarrow> byte list \<Rightarrow> byte list" where
  "xor_block xs ys = map2 (XOR) xs ys"

lemma length_xor_block [simp]: "length (xor_block xs ys) = min (length xs) (length ys)"
  by (simp add: xor_block_def)

lemma nth_xor_block [simp]: "i < length xs \<Longrightarrow> i < length ys \<Longrightarrow> xor_block xs ys ! i = xs ! i XOR ys ! i"
  by (simp add: xor_block_def)

lemma xor_block_self: "length xs \<le> length ys \<Longrightarrow> xor_block (xor_block xs ys) ys = xs"
  by (intro nth_equalityI) (simp_all add: xor.assoc)

lemma xor_block_append:
  "length xs = length ys \<Longrightarrow> xor_block (xs @ xs') (ys @ ys') = xor_block xs ys @ xor_block xs' ys'"
  by (simp add: xor_block_def)

section \<open>Overflow-checked arithmetic\<close>

text \<open>\<open>BaseOverflow...UN\<close> of \<^verbatim>\<open>BaseOverflowLib.h\<close>: whether the result on \<open>UINTN\<close> overflows, and the
  truncated result.\<close>

definition BaseOverflowAddUN :: "u64 \<Rightarrow> u64 \<Rightarrow> bool \<times> u64" where
  "BaseOverflowAddUN a b = (2 ^ 64 \<le> unat a + unat b, a + b)"

definition BaseOverflowMulUN :: "u64 \<Rightarrow> u64 \<Rightarrow> bool \<times> u64" where
  "BaseOverflowMulUN a b = (2 ^ 64 \<le> unat a * unat b, a * b)"

definition BaseOverflowMulAddUN :: "u64 \<Rightarrow> u64 \<Rightarrow> u64 \<Rightarrow> bool \<times> u64" where
  "BaseOverflowMulAddUN a b c = (2 ^ 64 \<le> unat a * unat b + unat c, a * b + c)"

section \<open>For-loops\<close>

text \<open>
  \<^verbatim>\<open>for (i = a; i < b; ++i) body\<close> without an early exit is \<open>fold body [a..<b]\<close>; its invariant
  is indexed by the loop counter.
\<close>

lemma fold_upt_inv:
  assumes "a \<le> b" and "P a s"
    and "\<And>i s. a \<le> i \<Longrightarrow> i < b \<Longrightarrow> P i s \<Longrightarrow> P (Suc i) (f i s)"
  shows "P b (fold f [a..<b] s)"
  using assms
proof (induction b rule: dec_induct)
  case (step n)
  then show ?case by simp
qed simp

section \<open>Loops with an exit in the body\<close>

text \<open>
  \<^verbatim>\<open>while (TRUE) body\<close>: one pass of the body either continues with a new state or leaves the loop
  with a result. A loop that never leaves has the value \<open>None\<close>; \<open>iterate_total\<close> is the rule for
  total correctness (invariant and measure).
\<close>

datatype ('s, 'r) ctl = Continue 's | Break 'r

partial_function (option) iterate :: "('s \<Rightarrow> ('s, 'r) ctl) \<Rightarrow> 's \<Rightarrow> 'r option" where
  "iterate body s = (case body s of Continue s' \<Rightarrow> iterate body s' | Break r \<Rightarrow> Some r)"

declare iterate.simps [code]

lemma iterate_Continue: "body s = Continue s' \<Longrightarrow> iterate body s = iterate body s'"
  by (subst iterate.simps) simp

lemma iterate_Break: "body s = Break r \<Longrightarrow> iterate body s = Some r"
  by (subst iterate.simps) simp

lemma iterate_total:
  fixes m :: "'s \<Rightarrow> nat"
  assumes "I s"
    and "\<And>s s'. I s \<Longrightarrow> body s = Continue s' \<Longrightarrow> I s' \<and> m s' < m s"
    and "\<And>s r. I s \<Longrightarrow> body s = Break r \<Longrightarrow> Q r"
  shows "\<exists>r. iterate body s = Some r \<and> Q r"
  using assms(1)
proof (induction "m s" arbitrary: s rule: less_induct)
  case less
  show ?case
  proof (cases "body s")
    case (Continue s')
    then show ?thesis using less assms(2)[OF less.prems] by (simp add: iterate_Continue)
  next
    case (Break r)
    then show ?thesis using assms(3)[OF less.prems] by (simp add: iterate_Break)
  qed
qed

lemma iterate_never:
  fixes body :: "'s \<Rightarrow> ('s, 'r) ctl"
  assumes "\<And>s. I s \<Longrightarrow> \<exists>s'. body s = Continue s' \<and> I s'" and "I s"
  shows "iterate body s = None"
proof -
  have "b = body \<longrightarrow> \<not> I t" if "iterate b t = Some r" for b t r
    using that
  proof (rule iterate.raw_induct[rotated])
    fix iter :: "('s \<Rightarrow> ('s, 'r) ctl) \<Rightarrow> 's \<Rightarrow> 'r option" and b s r
    assume "\<And>b s r. iter b s = Some r \<Longrightarrow> b = body \<longrightarrow> \<not> I s"
      and "(case b s of Continue s' \<Rightarrow> iter b s' | Break r \<Rightarrow> Some r) = Some r"
    then show "b = body \<longrightarrow> \<not> I s" using assms(1) by (fastforce split: ctl.splits)
  qed
  then show ?thesis using assms(2) by (cases "iterate body s") blast+
qed

section \<open>Loops with checked accesses\<close>

text \<open>A for-loop whose body may leave its buffers.\<close>

primrec fold_checked :: "('a \<Rightarrow> 's \<Rightarrow> 's option) \<Rightarrow> 'a list \<Rightarrow> 's \<Rightarrow> 's option" where
  "fold_checked f [] s = Some s"
| "fold_checked f (x # xs) s = Option.bind (f x s) (fold_checked f xs)"

lemma fold_checked_append: "fold_checked f (xs @ ys) s = Option.bind (fold_checked f xs s) (fold_checked f ys)"
proof (induction xs arbitrary: s)
  case (Cons x xs)
  then show ?case by (cases "f x s") simp_all
qed simp

lemma fold_checked_Nil: "fold_checked f [] = Some"
  by (rule ext) simp

lemma fold_checked_index:
  "n \<le> length xs \<Longrightarrow> fold_checked (\<lambda>i s. do { x \<leftarrow> rd xs i; f x s }) [0..<n] s = fold_checked f (take n xs) s"
proof (induction n)
  case (Suc n)
  then have IH: "fold_checked (\<lambda>i s. do { x \<leftarrow> rd xs i; f x s }) [0..<n] s = fold_checked f (take n xs) s" by simp
  show ?case using Suc.prems by (cases "fold_checked f (take n xs) s") (simp_all add: take_Suc_conv_app_nth fold_checked_append IH fold_checked_Nil)
qed simp

lemma fold_checked_fold:
  assumes "\<And>x s. x \<in> set xs \<Longrightarrow> I s \<Longrightarrow> f x s = Some (g x s) \<and> I (g x s)" "I s"
  shows "fold_checked f xs s = Some (fold g xs s)"
  using assms by (induction xs arbitrary: s) auto

text \<open>\<open>CopyMem\<close> and \<open>ZeroMem\<close> into a buffer.\<close>

definition rd_block :: "'a list \<Rightarrow> nat \<Rightarrow> nat \<Rightarrow> 'a list option" where
  "rd_block xs off n = (if off + n \<le> length xs then Some (window xs off n) else None)"

definition wr_block :: "'a list \<Rightarrow> nat \<Rightarrow> 'a list \<Rightarrow> 'a list option" where
  "wr_block xs off ys = (if off + length ys \<le> length xs then Some (overwrite xs off ys) else None)"

lemma rd_block_Some [simp]: "off + n \<le> length xs \<Longrightarrow> rd_block xs off n = Some (window xs off n)"
  by (simp add: rd_block_def)

lemma wr_block_Some [simp]: "off + length ys \<le> length xs \<Longrightarrow> wr_block xs off ys = Some (overwrite xs off ys)"
  by (simp add: wr_block_def)

text \<open>A loop with an exit whose body may leave its buffers: the result \<open>Some None\<close>.\<close>

definition checked :: "('s \<Rightarrow> ('s, 'r) ctl option) \<Rightarrow> 's \<Rightarrow> ('s, 'r option) ctl" where
  "checked body s = (case body s of None \<Rightarrow> Break None | Some (Continue t) \<Rightarrow> Continue t | Some (Break r) \<Rightarrow> Break (Some r))"

lemma iterate_checked_total:
  fixes m :: "'s \<Rightarrow> nat"
  assumes "I s"
    and "\<And>s. I s \<Longrightarrow> (\<exists>s'. body s = Some (Continue s') \<and> I s' \<and> m s' < m s) \<or> (\<exists>r. body s = Some (Break r) \<and> Q r)"
  shows "\<exists>r. iterate (checked body) s = Some (Some r) \<and> Q r"
proof -
  have "\<exists>r. iterate (checked body) s = Some r \<and> (case r of None \<Rightarrow> False | Some r \<Rightarrow> Q r)"
  proof (rule iterate_total[where I = I and m = m])
    show "I s' \<and> m s' < m s" if "I s" "checked body s = Continue s'" for s s' using assms(2)[OF that(1)] that(2) by (auto simp: checked_def)
    show "case r of None \<Rightarrow> False | Some r \<Rightarrow> Q r" if "I s" "checked body s = Break r" for s r using assms(2)[OF that(1)] that(2) by (auto simp: checked_def)
  qed (rule assms(1))
  then show ?thesis by (auto split: option.splits)
qed

section \<open>Words\<close>

lemma unat_less_2pow [simp]: "unat (x :: 'a::len word) < 2 ^ LENGTH('a)"
  by (rule unsigned_less)

lemma unat_Suc_word: "(i :: 'a::len word) < n \<Longrightarrow> unat (i + 1) = Suc (unat i)"
  by (auto simp: unat_word_ariths word_less_nat_alt)
    (metis Suc_le_eq le_less_trans mod_less unsigned_less)

lemma unat_plus_no_wrap:
  "unat (a :: 'a::len word) + unat b < 2 ^ LENGTH('a) \<Longrightarrow> unat (a + b) = unat a + unat b"
  by (simp add: unat_word_ariths)

lemma unat_minus_no_wrap:
  "(b :: 'a::len word) \<le> a \<Longrightarrow> unat (a - b) = unat a - unat b"
  by (simp add: unat_sub)

lemma unat_ucast: "unat (ucast (x :: 'a::len word) :: 'b::len word) = unat x mod 2 ^ LENGTH('b)"
  by (simp add: unsigned_ucast_eq take_bit_eq_mod)

lemma unat_drop_bit: "unat (drop_bit n (x :: 'a::len word)) = unat x div 2 ^ n"
  by (simp only: unat_drop_bit_eq drop_bit_eq_div[of n "unat x"])

lemma unat_push_bit: "unat (push_bit n (x :: 'a::len word)) = (unat x * 2 ^ n) mod 2 ^ LENGTH('a)"
  by (simp only: unsigned_push_bit_eq push_bit_eq_mult[of n "unat x"] take_bit_eq_mod)

lemma ucast_xor: "ucast ((x :: 'a::len word) XOR y) = (ucast x XOR ucast y :: 'b::len word)"
  by (rule bit_word_eqI) (auto simp: bit_simps)

lemma unat_half_less: "(x :: 'a::len word) \<noteq> 0 \<Longrightarrow> unat (drop_bit (Suc 0) x) < unat x"
  by (simp add: unat_drop_bit unat_gt_0)

end
