(* ===== verification/Oc_DataPatcher.thy ===== *)
theory Oc_DataPatcher
  imports Oc_Prelude
begin

unbundle bit_operations_syntax

text \<open>
  Model of \<^verbatim>\<open>Library/OcMiscLib/DataPatcher.c\<close>: the masked pattern search and the
  find-and-replace engine behind the ACPI, kernel and kext patches. Sizes and offsets are 32-bit
  words as in the code; \<open>None\<close> is an access outside a buffer or a loop that never returns.
  The reference semantics is the list of greedy non-overlapping occurrences of the pattern.
\<close>

section \<open>The code\<close>

text \<open>
  The inner for-loop: the index at which the comparison stops (\<open>PatternSize\<close> on a match). The
  masked and the unmasked copy of the loop differ only in the compared byte.
\<close>

partial_function (option) InternalFindPattern_compare ::
  "byte list \<Rightarrow> byte list option \<Rightarrow> u32 \<Rightarrow> byte list \<Rightarrow> u32 \<Rightarrow> u32 \<Rightarrow> u32 option" where
  "InternalFindPattern_compare Pattern PatternMask PatternSize Data CurrentOffset Index =
     (if Index < PatternSize then
        (case rd Data (unat (CurrentOffset + Index)) of None \<Rightarrow> None | Some d \<Rightarrow>
         (case rd Pattern (unat Index) of None \<Rightarrow> None | Some p \<Rightarrow>
          (case PatternMask of
             None \<Rightarrow>
               if d \<noteq> p then Some Index
               else InternalFindPattern_compare Pattern PatternMask PatternSize Data CurrentOffset (Index + 1)
           | Some Mask \<Rightarrow>
               (case rd Mask (unat Index) of None \<Rightarrow> None | Some m \<Rightarrow>
                if d AND m \<noteq> p then Some Index
                else InternalFindPattern_compare Pattern PatternMask PatternSize Data CurrentOffset (Index + 1)))))
      else Some Index)"

text \<open>The outer while-loop: \<open>Some None\<close> when no offset matches.\<close>

partial_function (option) InternalFindPattern_while ::
  "byte list \<Rightarrow> byte list option \<Rightarrow> u32 \<Rightarrow> byte list \<Rightarrow> u32 \<Rightarrow> u32 \<Rightarrow> u32 option option" where
  "InternalFindPattern_while Pattern PatternMask PatternSize Data LastOffset CurrentOffset =
     (if CurrentOffset \<le> LastOffset then
        (case InternalFindPattern_compare Pattern PatternMask PatternSize Data CurrentOffset 0 of
           None \<Rightarrow> None
         | Some Index \<Rightarrow>
             if Index = PatternSize then Some (Some CurrentOffset)
             else InternalFindPattern_while Pattern PatternMask PatternSize Data LastOffset (CurrentOffset + 1))
      else Some None)"

text \<open>The result is the returned BOOLEAN and the updated \<open>*DataOff\<close>.\<close>

definition InternalFindPattern ::
  "byte list \<Rightarrow> byte list option \<Rightarrow> u32 \<Rightarrow> byte list \<Rightarrow> u32 \<Rightarrow> u32 \<Rightarrow> (bool \<times> u32) option" where
  "InternalFindPattern Pattern PatternMask PatternSize Data DataSize DataOff =
     (if PatternSize = 0 then Some (False, DataOff)
      else
        (let CurrentOffset = DataOff; LastOffset = DataSize - PatternSize in
         (case InternalFindPattern_while Pattern PatternMask PatternSize Data LastOffset CurrentOffset of
            None \<Rightarrow> None
          | Some None \<Rightarrow> Some (False, DataOff)
          | Some (Some Off) \<Rightarrow> Some (True, Off))))"

definition FindPattern ::
  "byte list \<Rightarrow> byte list option \<Rightarrow> u32 \<Rightarrow> byte list \<Rightarrow> u32 \<Rightarrow> u32 \<Rightarrow> (bool \<times> u32) option" where
  "FindPattern Pattern PatternMask PatternSize Data DataSize DataOff =
     (if DataSize < PatternSize then Some (False, DataOff)
      else InternalFindPattern Pattern PatternMask PatternSize Data DataSize DataOff)"

text \<open>The replacement at \<open>DataOff\<close>: a block copy, or the masked byte loop.\<close>

definition ApplyPatch_replace ::
  "byte list \<Rightarrow> byte list option \<Rightarrow> u32 \<Rightarrow> byte list \<Rightarrow> u32 \<Rightarrow> byte list option" where
  "ApplyPatch_replace Replace ReplaceMask PatternSize Data DataOff =
     (case ReplaceMask of
        None \<Rightarrow>
          if unat PatternSize \<le> length Replace \<and> unat DataOff + unat PatternSize \<le> length Data
          then Some (overwrite Data (unat DataOff) (take (unat PatternSize) Replace))
          else None
      | Some Mask \<Rightarrow>
          fold (\<lambda>Index st. case st of None \<Rightarrow> None | Some D \<Rightarrow>
              (case rd D (unat DataOff + Index) of None \<Rightarrow> None | Some d \<Rightarrow>
               (case rd Mask Index of None \<Rightarrow> None | Some m \<Rightarrow>
                (case rd Replace Index of None \<Rightarrow> None | Some r \<Rightarrow>
                 wr D (unat DataOff + Index) ((d AND NOT m) OR (r AND m))))))
            [0..<unat PatternSize] (Some Data))"

text \<open>The \<^verbatim>\<open>while (TRUE)\<close> of \<open>ApplyPatch\<close>: the replace count and the patched data.\<close>

partial_function (option) ApplyPatch_loop ::
  "byte list \<Rightarrow> byte list option \<Rightarrow> u32 \<Rightarrow> byte list \<Rightarrow> byte list option \<Rightarrow> u32
    \<Rightarrow> byte list \<Rightarrow> u32 \<Rightarrow> u32 \<Rightarrow> u32 \<Rightarrow> u32 \<Rightarrow> (u32 \<times> byte list) option" where
  "ApplyPatch_loop Pattern PatternMask PatternSize Replace ReplaceMask DataSize Data Count Skip ReplaceCount DataOff =
     (case InternalFindPattern Pattern PatternMask PatternSize Data DataSize DataOff of
        None \<Rightarrow> None
      | Some (Found, Off) \<Rightarrow>
          if \<not> Found then Some (ReplaceCount, Data)
          else if Skip > 0 then
            ApplyPatch_loop Pattern PatternMask PatternSize Replace ReplaceMask DataSize Data
              Count (Skip - 1) ReplaceCount (Off + PatternSize)
          else
            (case ApplyPatch_replace Replace ReplaceMask PatternSize Data Off of
               None \<Rightarrow> None
             | Some Data' \<Rightarrow>
                 if Count > 0 then
                   (if Count - 1 = 0 then Some (ReplaceCount + 1, Data')
                    else ApplyPatch_loop Pattern PatternMask PatternSize Replace ReplaceMask DataSize Data'
                           (Count - 1) Skip (ReplaceCount + 1) (Off + PatternSize))
                 else
                   ApplyPatch_loop Pattern PatternMask PatternSize Replace ReplaceMask DataSize Data'
                     Count Skip (ReplaceCount + 1) (Off + PatternSize)))"

definition ApplyPatch ::
  "byte list \<Rightarrow> byte list option \<Rightarrow> u32 \<Rightarrow> byte list \<Rightarrow> byte list option \<Rightarrow> byte list \<Rightarrow> u32
    \<Rightarrow> u32 \<Rightarrow> u32 \<Rightarrow> (u32 \<times> byte list) option" where
  "ApplyPatch Pattern PatternMask PatternSize Replace ReplaceMask Data DataSize Count Skip =
     (if DataSize < PatternSize then Some (0, Data)
      else ApplyPatch_loop Pattern PatternMask PatternSize Replace ReplaceMask DataSize Data Count Skip 0 0)"

section \<open>Reference semantics\<close>

text \<open>
  \<open>pattern_at\<close>: the (masked) pattern matches at an offset. \<open>occurrences\<close>: the offsets found by
  scanning left to right and continuing behind each match. \<open>selected\<close>: the occurrences that the
  skip and the count leave (a count of zero is no limit). \<open>replaced\<close>: the data with the
  replacement written at one offset.
\<close>

definition byte_matches :: "byte list \<Rightarrow> byte list option \<Rightarrow> byte list \<Rightarrow> nat \<Rightarrow> nat \<Rightarrow> bool" where
  "byte_matches pat pmask data off i \<longleftrightarrow>
     (case pmask of None \<Rightarrow> data ! (off + i) | Some m \<Rightarrow> data ! (off + i) AND m ! i) = pat ! i"

definition pattern_at :: "byte list \<Rightarrow> byte list option \<Rightarrow> byte list \<Rightarrow> nat \<Rightarrow> bool" where
  "pattern_at pat pmask data off \<longleftrightarrow>
     off + length pat \<le> length data \<and> (\<forall>i\<in>set [0..<length pat]. byte_matches pat pmask data off i)"

lemma pattern_at_iff:
  "pattern_at pat pmask data off \<longleftrightarrow>
     off + length pat \<le> length data \<and> (\<forall>i<length pat. byte_matches pat pmask data off i)"
  by (auto simp: pattern_at_def)

function occurrences :: "byte list \<Rightarrow> byte list option \<Rightarrow> byte list \<Rightarrow> nat \<Rightarrow> nat list" where
  "occurrences pat pmask data off =
     (if pat \<noteq> [] \<and> off + length pat \<le> length data then
        (if pattern_at pat pmask data off
         then off # occurrences pat pmask data (off + length pat)
         else occurrences pat pmask data (Suc off))
      else [])"
  by pat_completeness auto
termination
  by (relation "measure (\<lambda>(pat, pmask, data, off). length data - off)")
    (auto simp: diff_less_mono2 neq_Nil_conv)

declare occurrences.simps [simp del]

definition replaced :: "byte list \<Rightarrow> byte list option \<Rightarrow> byte list \<Rightarrow> nat \<Rightarrow> byte list" where
  "replaced rep rmask data off =
     overwrite data off (map (\<lambda>i. case rmask of None \<Rightarrow> rep ! i
         | Some m \<Rightarrow> (data ! (off + i) AND NOT (m ! i)) OR (rep ! i AND m ! i)) [0..<length rep])"

definition selected :: "nat \<Rightarrow> nat \<Rightarrow> nat list \<Rightarrow> nat list" where
  "selected count skip occ = (if count = 0 then id else take count) (drop skip occ)"

text \<open>The declared sizes are the sizes of the buffers.\<close>

definition mask_ok :: "byte list option \<Rightarrow> u32 \<Rightarrow> bool" where
  "mask_ok pmask n \<longleftrightarrow> (case pmask of None \<Rightarrow> True | Some m \<Rightarrow> length m = unat n)"

definition search_ok :: "byte list \<Rightarrow> byte list option \<Rightarrow> u32 \<Rightarrow> byte list \<Rightarrow> u32 \<Rightarrow> bool" where
  "search_ok pat pmask psize data dsize \<longleftrightarrow>
     length pat = unat psize \<and> mask_ok pmask psize \<and> length data = unat dsize"

section \<open>The search\<close>

lemma compare_spec:
  assumes ok: "search_ok pat pmask psize data dsize"
    and fit: "unat cur + unat psize \<le> unat dsize" and idx: "unat idx \<le> unat psize"
  shows "\<exists>k. InternalFindPattern_compare pat pmask psize data cur idx = Some k \<and>
     (k = psize \<longleftrightarrow> (\<forall>i. unat idx \<le> i \<and> i < unat psize \<longrightarrow> byte_matches pat pmask data (unat cur) i))"
  using idx
proof (induction "unat psize - unat idx" arbitrary: idx)
  case 0
  then have "idx = psize" by (simp add: word_unat_eq_iff)
  then show ?case by (subst InternalFindPattern_compare.simps) auto
next
  case (Suc n)
  then have lt: "idx < psize" by (simp add: word_less_nat_alt)
  have s: "unat (idx + 1) = Suc (unat idx)" using lt by (rule unat_Suc_word)
  have off: "unat (cur + idx) = unat cur + unat idx"
  proof (rule unat_plus_no_wrap)
    have "unat cur + unat idx < unat dsize" using fit lt by (simp add: word_less_nat_alt)
    then show "unat cur + unat idx < 2 ^ LENGTH(32)" using unsigned_less less_trans by blast
  qed
  have split: "(\<forall>i. unat idx \<le> i \<and> i < unat psize \<longrightarrow> byte_matches pat pmask data (unat cur) i) \<longleftrightarrow>
      byte_matches pat pmask data (unat cur) (unat idx) \<and>
      (\<forall>i. Suc (unat idx) \<le> i \<and> i < unat psize \<longrightarrow> byte_matches pat pmask data (unat cur) i)"
    using lt by (auto simp: word_less_nat_alt Suc_le_eq) (metis le_neq_implies_less)
  have IH: "\<exists>k. InternalFindPattern_compare pat pmask psize data cur (idx + 1) = Some k \<and>
     (k = psize \<longleftrightarrow> (\<forall>i. Suc (unat idx) \<le> i \<and> i < unat psize \<longrightarrow> byte_matches pat pmask data (unat cur) i))"
    using Suc.hyps(1)[of "idx + 1"] Suc.hyps(2) lt by (simp add: s word_less_nat_alt Suc_le_eq)
  have len: "unat cur + unat idx < length data" "unat idx < length pat"
    using ok fit lt by (auto simp: search_ok_def word_less_nat_alt)
  have unf: "InternalFindPattern_compare pat pmask psize data cur idx =
      (if byte_matches pat pmask data (unat cur) (unat idx)
       then InternalFindPattern_compare pat pmask psize data cur (idx + 1) else Some idx)"
    by (subst InternalFindPattern_compare.simps, use ok len lt in \<open>cases pmask\<close>)
      (simp_all add: off byte_matches_def search_ok_def mask_ok_def word_less_nat_alt)
  have "idx \<noteq> psize" using lt by simp
  with IH show ?case unfolding unf split by simp
qed

lemma while_spec:
  assumes ok: "search_ok pat pmask psize data dsize" and pos: "psize \<noteq> 0" "psize \<le> dsize"
  shows "\<exists>r. InternalFindPattern_while pat pmask psize data (dsize - psize) cur = Some r \<and>
     (case r of
        None \<Rightarrow> \<forall>j\<ge>unat cur. \<not> pattern_at pat pmask data j
      | Some f \<Rightarrow> unat cur \<le> unat f \<and> pattern_at pat pmask data (unat f) \<and>
                  (\<forall>j. unat cur \<le> j \<and> j < unat f \<longrightarrow> \<not> pattern_at pat pmask data j))"
proof (induction "unat dsize + 1 - unat cur" arbitrary: cur rule: less_induct)
  case less
  have last: "unat (dsize - psize) = unat dsize - unat psize"
    using pos by (simp add: unat_minus_no_wrap)
  have lens: "length data = unat dsize" "length pat = unat psize"
    using ok by (auto simp: search_ok_def)
  have p0: "0 < unat psize" using pos by (simp add: unat_gt_0)
  have ple: "unat psize \<le> unat dsize" using pos by (simp add: word_le_nat_alt)
  show ?case
  proof (cases "cur \<le> dsize - psize")
    case False
    then have "unat dsize < unat cur + unat psize"
      using last ple by (simp add: word_le_nat_alt)
    then have "\<forall>j\<ge>unat cur. \<not> pattern_at pat pmask data j"
      using lens by (auto simp: pattern_at_def)
    then show ?thesis using False by (subst InternalFindPattern_while.simps) auto
  next
    case True
    then have fit: "unat cur + unat psize \<le> unat dsize"
      using last ple by (simp add: word_le_nat_alt)
    obtain k where k: "InternalFindPattern_compare pat pmask psize data cur 0 = Some k"
      and keq: "k = psize \<longleftrightarrow> pattern_at pat pmask data (unat cur)"
      using compare_spec[OF ok fit, of 0] fit lens by (auto simp: pattern_at_iff)
    show ?thesis
    proof (cases "k = psize")
      case True
      then show ?thesis using \<open>cur \<le> dsize - psize\<close> k keq
        by (subst InternalFindPattern_while.simps) auto
    next
      case False
      have cd: "unat cur < unat dsize" using fit p0 by linarith
      then have s: "unat (cur + 1) = Suc (unat cur)"
        by (intro unat_Suc_word[of _ dsize]) (simp add: word_less_nat_alt)
      have "unat dsize + 1 - unat (cur + 1) < unat dsize + 1 - unat cur"
        using cd by (simp add: s)
      from less(1)[OF this] obtain r where
        r: "InternalFindPattern_while pat pmask psize data (dsize - psize) (cur + 1) = Some r" and
        P: "case r of
          None \<Rightarrow> \<forall>j\<ge>unat (cur + 1). \<not> pattern_at pat pmask data j
        | Some f \<Rightarrow> unat (cur + 1) \<le> unat f \<and> pattern_at pat pmask data (unat f) \<and>
                  (\<forall>j. unat (cur + 1) \<le> j \<and> j < unat f \<longrightarrow> \<not> pattern_at pat pmask data j)"
        by blast
      have "\<not> pattern_at pat pmask data (unat cur)" using False keq by simp
      then have "case r of
          None \<Rightarrow> \<forall>j\<ge>unat cur. \<not> pattern_at pat pmask data j
        | Some f \<Rightarrow> unat cur \<le> unat f \<and> pattern_at pat pmask data (unat f) \<and>
                  (\<forall>j. unat cur \<le> j \<and> j < unat f \<longrightarrow> \<not> pattern_at pat pmask data j)"
        using P unfolding s by (auto simp: Suc_le_eq split: option.splits) (metis le_neq_implies_less)+
      then show ?thesis using True k False r
        by (subst InternalFindPattern_while.simps) auto
    qed
  qed
qed

lemma InternalFindPattern_spec:
  assumes "search_ok pat pmask psize data dsize" "psize \<le> dsize"
  shows "\<exists>found off'. InternalFindPattern pat pmask psize data dsize off = Some (found, off') \<and>
     (if found then pat \<noteq> [] \<and> unat off \<le> unat off' \<and> pattern_at pat pmask data (unat off') \<and>
        (\<forall>j. unat off \<le> j \<and> j < unat off' \<longrightarrow> \<not> pattern_at pat pmask data j)
      else off' = off \<and> (pat \<noteq> [] \<longrightarrow> (\<forall>j\<ge>unat off. \<not> pattern_at pat pmask data j)))"
proof (cases "psize = 0")
  case True
  then show ?thesis using assms by (auto simp: InternalFindPattern_def search_ok_def)
next
  case False
  then have "pat \<noteq> []" using assms by (auto simp: search_ok_def unat_eq_0)
  moreover obtain r where
    "InternalFindPattern_while pat pmask psize data (dsize - psize) off = Some r"
    "case r of
        None \<Rightarrow> \<forall>j\<ge>unat off. \<not> pattern_at pat pmask data j
      | Some f \<Rightarrow> unat off \<le> unat f \<and> pattern_at pat pmask data (unat f) \<and>
                  (\<forall>j. unat off \<le> j \<and> j < unat f \<longrightarrow> \<not> pattern_at pat pmask data j)"
    using while_spec[OF assms(1) False assms(2)] by blast
  ultimately show ?thesis
    using False
    by (cases r; intro exI[of _ "r \<noteq> None"] exI[of _ "case r of None \<Rightarrow> off | Some f \<Rightarrow> f"])
      (simp_all add: InternalFindPattern_def)
qed

section \<open>Occurrences\<close>

lemma occurrences_none:
  "\<forall>j\<ge>off. \<not> pattern_at pat pmask data j \<Longrightarrow> occurrences pat pmask data off = []"
  by (induction pat pmask data off rule: occurrences.induct)
    (subst occurrences.simps, auto)

lemma occurrences_first:
  assumes "pat \<noteq> []" "off \<le> f" "pattern_at pat pmask data f"
    "\<forall>j. off \<le> j \<and> j < f \<longrightarrow> \<not> pattern_at pat pmask data j"
  shows "occurrences pat pmask data off = f # occurrences pat pmask data (f + length pat)"
  using assms
proof (induction "f - off" arbitrary: off)
  case 0
  then show ?case by (subst occurrences.simps) (auto simp: pattern_at_def)
next
  case (Suc n)
  then have "off < f" by simp
  then have "\<not> pattern_at pat pmask data off" and "off + length pat \<le> length data"
    using Suc.prems by (auto simp: pattern_at_def)
  moreover have "occurrences pat pmask data (Suc off) = f # occurrences pat pmask data (f + length pat)"
    using Suc by (intro Suc.hyps) auto
  ultimately show ?case using Suc.prems by (subst occurrences.simps) auto
qed

lemma pattern_at_cong:
  "drop off data = drop off data' \<Longrightarrow> length data = length data' \<Longrightarrow> off \<le> j \<Longrightarrow>
   pattern_at pat pmask data j = pattern_at pat pmask data' j"
proof -
  assume d: "drop off data = drop off data'" and l: "length data = length data'" and "off \<le> j"
  have "data ! (j + i) = data' ! (j + i)" if "j + i < length data" for i
    using d l that \<open>off \<le> j\<close> nth_drop[of off data "j + i - off"] nth_drop[of off data' "j + i - off"]
    by simp
  then have "byte_matches pat pmask data j i = byte_matches pat pmask data' j i"
    if "j + i < length data" for i
    using that by (cases pmask) (simp_all add: byte_matches_def)
  then show ?thesis using l by (auto simp: pattern_at_def)
qed

lemma occurrences_cong:
  "drop off data = drop off data' \<Longrightarrow> length data = length data' \<Longrightarrow>
   occurrences pat pmask data off = occurrences pat pmask data' off"
proof (induction pat pmask data off rule: occurrences.induct)
  case (1 pat pmask data off)
  have d: "drop (off + n) data = drop (off + n) data'" for n
    using "1.prems"(1) by (metis drop_drop add.commute)
  have "pattern_at pat pmask data off = pattern_at pat pmask data' off"
    using "1.prems" by (intro pattern_at_cong) auto
  then show ?case
    using 1 d[of "length pat"] d[of 1]
    by (subst (1 2) occurrences.simps) auto
qed

lemma selected_Nil [simp]: "selected c s [] = []"
  by (simp add: selected_def)

lemma selected_skip: "0 < s \<Longrightarrow> selected c s (x # xs) = selected c (s - 1) xs"
  by (cases s) (auto simp: selected_def)

lemma selected_take_last: "selected (Suc 0) 0 (x # xs) = [x]"
  by (simp add: selected_def)

lemma selected_take: "1 < c \<Longrightarrow> selected c 0 (x # xs) = x # selected (c - 1) 0 xs"
  by (cases c) (auto simp: selected_def)

lemma selected_all: "selected 0 0 (x # xs) = x # selected 0 0 xs"
  by (simp add: selected_def)

lemmas selected_simps = selected_skip selected_take_last selected_take selected_all

section \<open>The replacement\<close>

lemma length_replaced:
  "off + length rep \<le> length data \<Longrightarrow> length (replaced rep rmask data off) = length data"
  by (simp add: replaced_def)

lemma drop_replaced:
  "off + length rep \<le> length data \<Longrightarrow>
   drop (off + length rep) (replaced rep rmask data off) = drop (off + length rep) data"
  by (simp add: replaced_def overwrite_def)

lemma masked_loop:
  assumes "n \<le> length rep" "length m = length rep" "o' + length rep \<le> length data"
  shows "fold (\<lambda>Index st. case st of None \<Rightarrow> None | Some D \<Rightarrow>
              (case rd D (o' + Index) of None \<Rightarrow> None | Some d \<Rightarrow>
               (case rd m Index of None \<Rightarrow> None | Some mb \<Rightarrow>
                (case rd rep Index of None \<Rightarrow> None | Some r \<Rightarrow>
                 wr D (o' + Index) ((d AND NOT mb) OR (r AND mb))))))
            [0..<n] (Some data) =
    Some (overwrite data o' (map (\<lambda>i. (data ! (o' + i) AND NOT (m ! i)) OR (rep ! i AND m ! i)) [0..<n]))"
  (is "fold ?f _ _ = Some (?S n)")
  using assms(1)
proof (induction n)
  case 0
  then show ?case by (simp add: overwrite_def)
next
  case (Suc n)
  then have IH: "fold ?f [0..<n] (Some data) = Some (?S n)" by simp
  have len: "length (?S n) = length data" using Suc.prems assms by simp
  have nth: "?S n ! (o' + n) = data ! (o' + n)"
    using Suc.prems assms by (subst nth_overwrite) auto
  have "(?S n)[o' + n := (data ! (o' + n) AND NOT (m ! n)) OR (rep ! n AND m ! n)] = ?S (Suc n)"
    using Suc.prems assms by (intro nth_equalityI) (auto simp: nth_list_update nth_overwrite nth_append)
  then show ?case using IH Suc.prems assms nth len by simp
qed

lemma ApplyPatch_replace_spec:
  assumes "length rep = unat psize" "mask_ok rmask psize" "unat off + unat psize \<le> length data"
  shows "ApplyPatch_replace rep rmask psize data off = Some (replaced rep rmask data (unat off))"
proof (cases rmask)
  case None
  then show ?thesis
    using assms by (simp add: ApplyPatch_replace_def replaced_def map_nth flip: assms(1))
next
  case (Some m)
  then show ?thesis
    using assms masked_loop[of "unat psize" rep m "unat off" data]
    by (simp add: ApplyPatch_replace_def replaced_def mask_ok_def)
qed

section \<open>The patch loop\<close>

lemma unat_minus_1: "0 < (x :: 'a::len word) \<Longrightarrow> unat (x - 1) = unat x - 1"
  by (simp add: unat_minus_one word_gt_0)

lemma ApplyPatch_loop_spec:
  assumes "search_ok pat pmask psize data dsize" "psize \<le> dsize"
    "length rep = unat psize" "mask_ok rmask psize"
  shows "ApplyPatch_loop pat pmask psize rep rmask dsize data count skip rc off =
    (let sel = selected (unat count) (unat skip) (if pat = [] then [] else occurrences pat pmask data (unat off))
     in Some (rc + of_nat (length sel), foldl (replaced rep rmask) data sel))"
  using assms(1)
proof (induction "unat dsize + 1 - unat off" arbitrary: data count skip rc off rule: less_induct)
  case less
  note ok = less(2)
  have lens: "length data = unat dsize" "length pat = unat psize"
    using ok by (auto simp: search_ok_def)
  obtain found f where F: "InternalFindPattern pat pmask psize data dsize off = Some (found, f)" and
    P: "if found then pat \<noteq> [] \<and> unat off \<le> unat f \<and> pattern_at pat pmask data (unat f) \<and>
        (\<forall>j. unat off \<le> j \<and> j < unat f \<longrightarrow> \<not> pattern_at pat pmask data j)
      else f = off \<and> (pat \<noteq> [] \<longrightarrow> (\<forall>j\<ge>unat off. \<not> pattern_at pat pmask data j))"
    using InternalFindPattern_spec[OF ok assms(2)] by blast
  show ?case
  proof (cases found)
    case False
    then have "pat = [] \<or> occurrences pat pmask data (unat off) = []"
      using P by (auto intro: occurrences_none)
    then show ?thesis using F False
      by (subst ApplyPatch_loop.simps) auto
  next
    case True
    then have pat: "pat \<noteq> []" and fge: "unat off \<le> unat f" and
      at: "pattern_at pat pmask data (unat f)" using P by auto
    have occ: "occurrences pat pmask data (unat off) =
        unat f # occurrences pat pmask data (unat f + unat psize)"
      using occurrences_first[OF pat fge at] True P lens by simp
    have fit: "unat f + unat psize \<le> unat dsize" using at lens by (simp add: pattern_at_def)
    then have fp: "unat (f + psize) = unat f + unat psize"
      by (intro unat_plus_no_wrap) (meson le_less_trans unsigned_less)
    have p0: "0 < unat psize" using pat lens by (metis length_greater_0_conv)
    have dec: "unat dsize + 1 - unat (f + psize) < unat dsize + 1 - unat off"
      unfolding fp using fit fge p0 by linarith
    let ?d = "replaced rep rmask data (unat f)"
    have rep: "ApplyPatch_replace rep rmask psize data f = Some ?d"
      using fit lens assms by (intro ApplyPatch_replace_spec) auto
    have ld: "length ?d = length data" using fit lens assms by (simp add: length_replaced)
    have ok': "search_ok pat pmask psize ?d dsize" using ok ld by (simp add: search_ok_def)
    have occ': "occurrences pat pmask ?d (unat f + unat psize) =
        occurrences pat pmask data (unat f + unat psize)"
      using fit lens assms drop_replaced[of "unat f" rep data rmask] ld
      by (intro occurrences_cong) auto
    note IH = less(1)[OF dec ok] and IH' = less(1)[OF dec ok']
    consider "0 < skip" | "skip = 0" "count = 0" | "skip = 0" "count = 1"
      | "skip = 0" "count \<noteq> 0" "count \<noteq> 1"
      by (metis word_neq_0_conv)
    then show ?thesis
    proof cases
      case 1
      then show ?thesis using F True pat IH[of count "skip - 1" rc]
        by (subst ApplyPatch_loop.simps)
          (auto simp: occ fp unat_minus_1 selected_skip word_less_nat_alt Let_def)
    next
      case 2
      then show ?thesis using F True pat rep IH'[of count skip "rc + 1"]
        by (subst ApplyPatch_loop.simps) (auto simp: occ occ' fp selected_all Let_def)
    next
      case 3
      then show ?thesis using F True pat rep
        by (subst ApplyPatch_loop.simps) (auto simp: occ selected_take_last Let_def)
    next
      case 4
      then have "1 < unat count" "0 < count"
        by (auto simp: word_gt_0 unat_gt_0 intro!: ccontr[of "1 < unat count"])
          (metis One_nat_def Suc_lessI unat_1 unat_eq_0 unat_gt_0 word_unat_eq_iff)
      moreover have "count - 1 \<noteq> 0" using 4 by simp
      ultimately show ?thesis using 4 F True pat rep IH'[of "count - 1" skip "rc + 1"]
        by (subst ApplyPatch_loop.simps)
          (auto simp: occ occ' fp selected_take unat_minus_1 Let_def)
    qed
  qed
qed

section \<open>Properties\<close>

text \<open>
  C5: \<open>ApplyPatch\<close> returns, never accesses a byte outside its buffers, and is exactly the reference
  patch: the greedy non-overlapping occurrences of the pattern in the original data are found, the
  first \<open>Skip\<close> are left alone, of the rest at most \<open>Count\<close> (all, if it is zero) are overwritten with the
  masked replacement, and their number is returned.
\<close>

theorem ApplyPatch_reference:
  assumes "search_ok Pattern PatternMask PatternSize Data DataSize" "Pattern \<noteq> []"
    and "length Replace = unat PatternSize" "mask_ok ReplaceMask PatternSize"
  shows "ApplyPatch Pattern PatternMask PatternSize Replace ReplaceMask Data DataSize Count Skip =
    (let sel = selected (unat Count) (unat Skip) (occurrences Pattern PatternMask Data 0)
     in Some (of_nat (length sel), foldl (replaced Replace ReplaceMask) Data sel))"
proof (cases "DataSize < PatternSize")
  case True
  then have "occurrences Pattern PatternMask Data 0 = []"
    using assms by (subst occurrences.simps) (auto simp: search_ok_def word_less_nat_alt)
  then show ?thesis using True by (simp add: ApplyPatch_def)
next
  case False
  then show ?thesis
    using assms ApplyPatch_loop_spec[OF assms(1) _ assms(3,4), of Count Skip 0 0]
    by (simp add: ApplyPatch_def leI)
qed

theorem ApplyPatch_reference_witness:
  "ApplyPatch [1, 2] None 2 [9, 8] None [1, 2, 1, 2, 1, 2] 6 1 1 = Some (1, [1, 2, 9, 8, 1, 2])"
proof -
  have "search_ok [1, 2] None 2 [1, 2, 1, 2, 1, 2] 6" "mask_ok None 2"
    by (simp_all add: search_ok_def mask_ok_def)
  from ApplyPatch_reference[OF this(1) _ _ this(2), of "[9, 8]" 1 1] show ?thesis
    by (simp add: occurrences.simps pattern_at_def byte_matches_def selected_def replaced_def
        overwrite_def upt_rec)
qed

text \<open>
  C18: \<open>FindPattern\<close> returns without leaving its buffers. If it reports a match, the new offset is the
  least offset at or after the old one at which the masked pattern occurs; if it does not, no such
  offset exists (or the pattern is empty) and the offset is unchanged.
\<close>

theorem FindPattern_first_match:
  assumes "search_ok Pattern PatternMask PatternSize Data DataSize"
  shows "\<exists>found off'. FindPattern Pattern PatternMask PatternSize Data DataSize DataOff = Some (found, off') \<and>
     (if found then Pattern \<noteq> [] \<and> unat DataOff \<le> unat off' \<and> pattern_at Pattern PatternMask Data (unat off') \<and>
        (\<forall>j. unat DataOff \<le> j \<and> j < unat off' \<longrightarrow> \<not> pattern_at Pattern PatternMask Data j)
      else off' = DataOff \<and> (Pattern \<noteq> [] \<longrightarrow> (\<forall>j\<ge>unat DataOff. \<not> pattern_at Pattern PatternMask Data j)))"
proof (cases "DataSize < PatternSize")
  case True
  then have "\<not> pattern_at Pattern PatternMask Data j" for j
    using assms by (simp add: pattern_at_def search_ok_def word_less_nat_alt)
  then show ?thesis using True by (intro exI[of _ False] exI[of _ DataOff]) (simp add: FindPattern_def)
next
  case False
  then show ?thesis
    using InternalFindPattern_spec[OF assms leI[OF False], of DataOff] by (simp add: FindPattern_def)
qed

theorem FindPattern_first_match_witness:
  "\<exists>off'. FindPattern [0x20] (Some [0xF0]) 1 [0x10, 0x25, 0x2A] 3 0 = Some (True, off') \<and> unat off' = 1"
proof -
  have ok: "search_ok [0x20] (Some [0xF0]) 1 [0x10, 0x25, 0x2A] 3"
    by (simp add: search_ok_def mask_ok_def)
  obtain found off' where r: "FindPattern [0x20] (Some [0xF0]) 1 [0x10, 0x25, 0x2A] 3 0 = Some (found, off')"
    and P: "if found then unat off' \<ge> 0 \<and> pattern_at [0x20] (Some [0xF0]) [0x10, 0x25, 0x2A] (unat off') \<and>
        (\<forall>j. 0 \<le> j \<and> j < unat off' \<longrightarrow> \<not> pattern_at [0x20] (Some [0xF0]) [0x10, 0x25, 0x2A] j)
      else (\<forall>j\<ge>0. \<not> pattern_at [0x20] (Some [0xF0]) [0x10, 0x25, 0x2A] j)"
    using FindPattern_first_match[OF ok, of 0] by auto
  have p1: "pattern_at [0x20] (Some [0xF0]) [0x10, 0x25, 0x2A] 1"
    and p0: "\<not> pattern_at [0x20] (Some [0xF0]) [0x10, 0x25, 0x2A] 0"
    by (simp_all add: pattern_at_def byte_matches_def)
  have found using P p1 by (auto split: if_splits)
  then have at: "pattern_at [0x20] (Some [0xF0]) [0x10, 0x25, 0x2A] (unat off')"
    and "\<not> 1 < unat off'" using P p1 by auto
  moreover have "unat off' \<noteq> 0" using at p0 by metis
  ultimately have "unat off' = 1" by linarith
  with r \<open>found\<close> show ?thesis by auto
qed

end
