(* ===== verification/Oc_BigNumVal.thy ===== *)
theory Oc_BigNumVal
  imports Oc_Prelude
begin

text \<open>
  Values of little-endian word arrays, the abstraction under which the big number routines are
  specified: \<open>bn_val\<close> reads a list of \<open>w\<close>-bit words as a natural number, least significant word
  first. Also bit lengths of natural numbers. Everything holds for any word width, so the 32-bit and
  the 64-bit builds of the library share one development.
\<close>

section \<open>The value of a word array\<close>

fun bn_val :: "'a::len word list \<Rightarrow> nat" where
  "bn_val [] = 0"
| "bn_val (x # xs) = unat x + 2 ^ LENGTH('a) * bn_val xs"

lemma bn_val_append:
  "bn_val (xs @ ys) = bn_val (xs :: 'a::len word list) + 2 ^ (LENGTH('a) * length xs) * bn_val ys"
  by (induction xs) (simp_all add: algebra_simps power_add)

lemma bn_val_less: "bn_val (xs :: 'a::len word list) < 2 ^ (LENGTH('a) * length xs)"
proof (induction xs)
  case (Cons x xs)
  have "unat x + 2 ^ LENGTH('a) * bn_val xs < 2 ^ LENGTH('a) * Suc (bn_val xs)"
    using unsigned_less[of x] by simp
  also have "\<dots> \<le> 2 ^ LENGTH('a) * 2 ^ (LENGTH('a) * length xs)"
    using Cons by (intro mult_le_mono2) simp
  finally show ?case by (simp add: power_add)
qed simp

lemma bn_val_replicate_0 [simp]: "bn_val (replicate n 0) = 0"
  by (induction n) simp_all

lemma bn_val_take_Suc:
  "i < length xs \<Longrightarrow>
   bn_val (take (Suc i) (xs :: 'a::len word list)) = bn_val (take i xs) + 2 ^ (LENGTH('a) * i) * unat (xs ! i)"
  by (simp add: take_Suc_conv_app_nth bn_val_append)

lemma bn_val_take_drop:
  "n \<le> length xs \<Longrightarrow>
   bn_val (xs :: 'a::len word list) = bn_val (take n xs) + 2 ^ (LENGTH('a) * n) * bn_val (drop n xs)"
  by (metis append_take_drop_id bn_val_append length_take min.absorb2)

lemma bn_val_take_less: "bn_val (take n (xs :: 'a::len word list)) < 2 ^ (LENGTH('a) * n)"
proof -
  have "bn_val (take n xs) < 2 ^ (LENGTH('a) * length (take n xs))" by (rule bn_val_less)
  also have "\<dots> \<le> 2 ^ (LENGTH('a) * n)" by (rule power_increasing) (simp_all add: min_def)
  finally show ?thesis .
qed

lemma bn_val_take_le: "bn_val (take n (xs :: 'a::len word list)) \<le> bn_val xs"
  by (cases "n \<le> length xs") (simp_all add: bn_val_take_drop[of n xs])

lemma bn_val_take_mod:
  "bn_val (take n (xs :: 'a::len word list)) = bn_val xs mod 2 ^ (LENGTH('a) * n)"
proof (cases "n \<le> length xs")
  case True
  then show ?thesis by (simp add: bn_val_take_drop[OF True] bn_val_take_less)
next
  case False
  then have "bn_val xs < 2 ^ (LENGTH('a) * n)"
    by (metis bn_val_take_less nat_le_linear take_all)
  then show ?thesis using False by simp
qed

lemma bn_val_drop_div:
  "bn_val (drop n (xs :: 'a::len word list)) = bn_val xs div 2 ^ (LENGTH('a) * n)"
proof (cases "n \<le> length xs")
  case True
  then show ?thesis by (simp add: bn_val_take_drop[OF True] bn_val_take_less)
next
  case False
  then have "bn_val xs < 2 ^ (LENGTH('a) * n)"
    by (metis bn_val_take_less nat_le_linear take_all)
  then show ?thesis using False by simp
qed

lemma bn_val_eq_0_iff: "bn_val (xs :: 'a::len word list) = 0 \<longleftrightarrow> (\<forall>x \<in> set xs. x = 0)"
  by (induction xs) (auto simp: unat_eq_0)

lemma bn_val_small_take:
  "bn_val (xs :: 'a::len word list) < 2 ^ (LENGTH('a) * n) \<Longrightarrow> bn_val (take n xs) = bn_val xs"
  by (simp add: bn_val_take_mod)

lemma bn_val_inject:
  "length xs = length ys \<Longrightarrow> bn_val xs = bn_val ys \<Longrightarrow> xs = (ys :: 'a::len word list)"
proof (induction xs ys rule: list_induct2)
  case (Cons x xs y ys)
  have "unat x = bn_val (x # xs) mod 2 ^ LENGTH('a)" "unat y = bn_val (y # ys) mod 2 ^ LENGTH('a)"
    by simp_all
  then have x: "unat x = unat y" using Cons.prems by metis
  then have "bn_val xs = bn_val ys" using Cons.prems by simp
  with x Cons.IH show ?case by (simp add: word_unat_eq_iff)
qed simp

lemma bn_val_ge_nth:
  "i < length xs \<Longrightarrow> 2 ^ (LENGTH('a) * i) * unat (xs ! i) \<le> bn_val (xs :: 'a::len word list)"
  using bn_val_take_Suc[of i xs] bn_val_take_le[of "Suc i" xs] by linarith

lemma bn_val_overwrite:
  assumes "off + length ys \<le> length (xs :: 'a::len word list)"
  shows "bn_val (overwrite xs off ys) =
    bn_val (take off xs) + 2 ^ (LENGTH('a) * off) * (bn_val ys +
      2 ^ (LENGTH('a) * length ys) * bn_val (drop (off + length ys) xs))"
  using assms by (simp add: overwrite_def bn_val_append algebra_simps)

section \<open>Bit lengths\<close>

text \<open>\<open>bit_len n\<close> is the number of significant bits of \<open>n\<close>, zero for zero.\<close>

fun bit_len :: "nat \<Rightarrow> nat" where
  "bit_len n = (if n = 0 then 0 else Suc (bit_len (n div 2)))"

declare bit_len.simps [simp del]

lemma bit_len_0 [simp]: "bit_len 0 = 0"
  by (simp add: bit_len.simps)

lemma bit_len_upper: "n < 2 ^ bit_len n"
proof (induction n rule: bit_len.induct)
  case (1 n)
  then show ?case by (subst bit_len.simps) auto
qed

lemma bit_len_lower: "0 < n \<Longrightarrow> 2 ^ (bit_len n - 1) \<le> n"
proof (induction n rule: bit_len.induct)
  case (1 n)
  show ?case
  proof (cases "n div 2 = 0")
    case True
    then show ?thesis using 1 by (subst bit_len.simps) simp
  next
    case False
    then have "0 < bit_len (n div 2)" by (subst bit_len.simps) simp
    then have "(2 :: nat) ^ bit_len (n div 2) = 2 * 2 ^ (bit_len (n div 2) - 1)"
      by (metis Suc_pred' power_Suc)
    moreover have "2 ^ (bit_len (n div 2) - 1) \<le> n div 2" using 1 False by simp
    ultimately have "2 ^ bit_len (n div 2) \<le> n" by linarith
    then show ?thesis using 1 by (subst bit_len.simps) simp
  qed
qed

lemma bit_len_pos_iff [simp]: "0 < bit_len n \<longleftrightarrow> 0 < n"
  by (subst bit_len.simps) simp

lemma bit_len_eqI:
  assumes "n < 2 ^ r" "0 < r \<Longrightarrow> 2 ^ (r - 1) \<le> n"
  shows "bit_len n = r"
proof -
  have "r \<le> bit_len n" if "0 < r"
  proof -
    have "(2::nat) ^ (r - 1) < 2 ^ bit_len n" using assms(2)[OF that] bit_len_upper le_less_trans by blast
    then have "r - 1 < bit_len n" by simp
    then show ?thesis by simp
  qed
  moreover have "bit_len n \<le> r"
  proof (cases "n = 0")
    case False
    then have "(2::nat) ^ (bit_len n - 1) < 2 ^ r" using assms(1) bit_len_lower le_less_trans by blast
    then have "bit_len n - 1 < r" by simp
    then show ?thesis by simp
  qed simp
  ultimately show ?thesis by (cases "r = 0") auto
qed

lemma bit_len_le_iff: "bit_len n \<le> r \<longleftrightarrow> n < 2 ^ r"
proof
  assume "bit_len n \<le> r"
  then have "(2::nat) ^ bit_len n \<le> 2 ^ r" by simp
  then show "n < 2 ^ r" using bit_len_upper less_le_trans by blast
next
  assume "n < 2 ^ r"
  show "bit_len n \<le> r"
  proof (cases "n = 0")
    case False
    then have "(2::nat) ^ (bit_len n - 1) < 2 ^ r" using \<open>n < 2 ^ r\<close> bit_len_lower le_less_trans by blast
    then show ?thesis by simp
  qed simp
qed

lemma bit_len_mult_pow2: "0 < n \<Longrightarrow> bit_len (n * 2 ^ k) = bit_len n + k"
proof (rule bit_len_eqI)
  assume "0 < n"
  show "n * 2 ^ k < 2 ^ (bit_len n + k)" by (simp add: bit_len_upper power_add)
  have "2 ^ (bit_len n + k - 1) = 2 ^ (bit_len n - 1) * (2 :: nat) ^ k"
    using bit_len_pos_iff[THEN iffD2, OF \<open>0 < n\<close>] by (simp del: bit_len_pos_iff flip: power_add)
  then show "2 ^ (bit_len n + k - 1) \<le> n * 2 ^ k" using bit_len_lower[OF \<open>0 < n\<close>] by simp
qed

lemma bit_len_mono: "m \<le> n \<Longrightarrow> bit_len m \<le> bit_len n"
  using bit_len_upper[of n] by (subst bit_len_le_iff) linarith

lemma bit_len_pow2 [simp]: "bit_len (2 ^ k) = Suc k"
  by (rule bit_len_eqI) simp_all

lemma bit_len_less_imp_less: "bit_len m < bit_len n \<Longrightarrow> m < n"
  by (meson bit_len_mono leD leI)

lemma bit_len_eq_imp_less_double: "0 < n \<Longrightarrow> bit_len m = bit_len n \<Longrightarrow> m < 2 * n"
proof -
  assume "0 < n" "bit_len m = bit_len n"
  then have "m < 2 ^ bit_len n" using bit_len_upper by metis
  also have "2 ^ bit_len n = 2 * (2 :: nat) ^ (bit_len n - 1)"
    using \<open>0 < n\<close> by (metis Suc_pred' bit_len_pos_iff power_Suc)
  also have "\<dots> \<le> 2 * n" using bit_len_lower[OF \<open>0 < n\<close>] by simp
  finally show ?thesis .
qed

end
