(* ===== verification/Oc_BigNum.thy ===== *)
theory Oc_BigNum
  imports Oc_BigNumVal
begin

unbundle bit_operations_syntax

text \<open>
  Model of \<^verbatim>\<open>Library/OcCryptoLib/BigNumPrimitives.c\<close> (word multiplication, subtraction, comparison,
  significant bits, shifts, parsing) and of the two \<^verbatim>\<open>BigNumWordMul64\<close> variants under
  \<^verbatim>\<open>Cpu32\<close> and \<^verbatim>\<open>Cpu64\<close>. A number is the list of its words, least significant first;
  \<open>OC_BN_WORD\<close> is \<open>'a word\<close> with \<open>'a\<close> of 32 or 64 bits. Word counts and bit counts are natural numbers:
  the code bounds them by \<open>OC_BN_MAX_LEN\<close>, far below the limits of its 16- and 32-bit counters.
  The reduction \<^verbatim>\<open>BigNumMod\<close> has its own theory.
\<close>

section \<open>The code\<close>

definition OC_BN_WORD_NUM_BITS :: "'a::len itself \<Rightarrow> nat" where
  "OC_BN_WORD_NUM_BITS t = LENGTH('a)"

definition OC_BN_WORD_SIZE :: "'a::len itself \<Rightarrow> nat" where
  "OC_BN_WORD_SIZE t = LENGTH('a) div 8"

subsection \<open>Word products\<close>

text \<open>\<open>Cpu64\<close>: one 128-bit product. All word products return the pair (high word, low word).\<close>

definition BigNumWordMul64_Cpu64 :: "u64 \<Rightarrow> u64 \<Rightarrow> u64 \<times> u64" where
  "BigNumWordMul64_Cpu64 A B =
     (let Result = (ucast A :: 128 word) * ucast B
      in (ucast (drop_bit 64 Result), ucast Result))"

text \<open>\<open>Cpu32\<close>: four half-word products.\<close>

definition BigNumWordMul64_Cpu32 :: "u64 \<Rightarrow> u64 \<Rightarrow> u64 \<times> u64" where
  "BigNumWordMul64_Cpu32 A B =
     (let SubWordShift = 32;
          SubWordMask = push_bit SubWordShift 1 - 1;
          ALo = A AND SubWordMask; AHi = drop_bit SubWordShift A;
          BLo = B AND SubWordMask; BHi = drop_bit SubWordShift B;
          P0 = ALo * BLo; P1 = ALo * BHi; P2 = AHi * BLo; P3 = AHi * BHi;
          Cy = drop_bit SubWordShift (drop_bit SubWordShift P0 + (P1 AND SubWordMask) + (P2 AND SubWordMask))
                 AND SubWordMask
      in (P3 + drop_bit SubWordShift P1 + drop_bit SubWordShift P2 + Cy,
          P0 + push_bit SubWordShift P1 + push_bit SubWordShift P2))"

text \<open>\<open>BigNumWordMul\<close> over the \<open>BigNumWordMul64\<close> that the build links in.\<close>

definition BigNumWordMul ::
  "('a::len word \<Rightarrow> 'a word \<Rightarrow> 'a word \<times> 'a word) \<Rightarrow> 'a word \<Rightarrow> 'a word \<Rightarrow> 'a word \<times> 'a word" where
  "BigNumWordMul WordMul64 A B =
     (if OC_BN_WORD_SIZE TYPE('a) = 4 then
        (let Result64 = (ucast A :: u64) * ucast B
         in (ucast (drop_bit (OC_BN_WORD_NUM_BITS TYPE('a)) Result64), ucast Result64))
      else WordMul64 A B)"

subsection \<open>Subtraction and comparison\<close>

definition BigNumSub_step ::
  "'a::len word list \<Rightarrow> 'a word list \<Rightarrow> nat \<Rightarrow> byte \<times> 'a word list \<Rightarrow> byte \<times> 'a word list" where
  "BigNumSub_step A B Index st =
     (case st of (Borrow, Result) \<Rightarrow>
        (let Tmp1 = A ! Index;
             Tmp2 = B ! Index + ucast Borrow;
             TmpResult = Tmp1 - Tmp2
         in (if Tmp2 < ucast Borrow \<or> Tmp1 < TmpResult then 1 else 0, Result[Index := TmpResult])))"

definition BigNumSub ::
  "'a::len word list \<Rightarrow> nat \<Rightarrow> 'a word list \<Rightarrow> 'a word list \<Rightarrow> 'a word list" where
  "BigNumSub Result NumWords A B = snd (fold (BigNumSub_step A B) [0..<NumWords] (0, Result))"

text \<open>The same loop when \<open>Result\<close> and \<open>A\<close> are one buffer: the minuend is read from the buffer being
  written.\<close>

definition BigNumSub_inplace :: "'a::len word list \<Rightarrow> nat \<Rightarrow> 'a word list \<Rightarrow> 'a word list" where
  "BigNumSub_inplace Result NumWords B =
     snd (fold (\<lambda>Index st. BigNumSub_step (snd st) B Index st) [0..<NumWords] (0, Result))"

fun BigNumCmp :: "'a::len word list \<Rightarrow> nat \<Rightarrow> 'a word list \<Rightarrow> int" where
  "BigNumCmp A 0 B = 0"
| "BigNumCmp A (Suc Index) B =
     (if A ! Index > B ! Index then 1
      else if A ! Index < B ! Index then -1
      else BigNumCmp A Index B)"

subsection \<open>Significant bits and words\<close>

function BigNumSignificantBitsWord_while :: "'a::len word \<Rightarrow> nat \<Rightarrow> 'a word \<Rightarrow> nat" where
  "BigNumSignificantBitsWord_while Word NumBits Mask =
     (if Mask \<noteq> 0 \<and> Word AND Mask = 0
      then BigNumSignificantBitsWord_while Word (NumBits - 1) (drop_bit 1 Mask)
      else NumBits)"
  by pat_completeness auto
termination
  by (relation "measure (\<lambda>(Word, NumBits, Mask). unat Mask)") (auto simp: unat_half_less)

declare BigNumSignificantBitsWord_while.simps [simp del]

definition BigNumSignificantBitsWord :: "'a::len word \<Rightarrow> nat" where
  "BigNumSignificantBitsWord Word =
     BigNumSignificantBitsWord_while Word (OC_BN_WORD_NUM_BITS TYPE('a))
       (push_bit (OC_BN_WORD_NUM_BITS TYPE('a) - 1) 1)"

fun BigNumMostSignificantWord :: "'a::len word list \<Rightarrow> nat \<Rightarrow> nat" where
  "BigNumMostSignificantWord A 0 = 0"
| "BigNumMostSignificantWord A (Suc Index) =
     (if A ! Index \<noteq> 0 then Index else BigNumMostSignificantWord A Index)"

definition BigNumSignificantBits :: "'a::len word list \<Rightarrow> nat \<Rightarrow> nat" where
  "BigNumSignificantBits A NumWords =
     (let Index = BigNumMostSignificantWord A NumWords
      in Index * OC_BN_WORD_NUM_BITS TYPE('a) + BigNumSignificantBitsWord (A ! Index))"

definition BigNumOrWord :: "'a::len word list \<Rightarrow> nat \<Rightarrow> 'a word \<Rightarrow> nat \<Rightarrow> 'a word list" where
  "BigNumOrWord A NumWords Value Exponent =
     (let WordIndex = Exponent div OC_BN_WORD_NUM_BITS TYPE('a) in
      if WordIndex < NumWords then
        (let NumBits = Exponent mod OC_BN_WORD_NUM_BITS TYPE('a)
         in A[WordIndex := A ! WordIndex OR push_bit NumBits Value])
      else A)"

subsection \<open>Shifts\<close>

text \<open>
  The left shifts write into a buffer \<open>Result\<close> that may be longer than \<open>NumWordsResult\<close>; \<open>None\<close> is a
  read behind \<open>A\<close> or a write behind the buffer.
\<close>

definition BigNumLeftShiftWords ::
  "'a::len word list \<Rightarrow> nat \<Rightarrow> 'a word list \<Rightarrow> nat \<Rightarrow> nat \<Rightarrow> 'a word list option" where
  "BigNumLeftShiftWords Result NumWordsResult A NumWordsA Exponent =
     do {
       C \<leftarrow> rd_block A 0 (NumWordsResult - Exponent);
       R1 \<leftarrow> wr_block Result Exponent C;
       R2 \<leftarrow> wr_block R1 0 (replicate Exponent 0);
       if NumWordsResult - Exponent > NumWordsA
       then wr_block R2 (NumWordsA + Exponent) (replicate (NumWordsResult - Exponent - NumWordsA) 0)
       else Some R2
     }"

definition BigNumLeftShiftWordsAndBits ::
  "'a::len word list \<Rightarrow> nat \<Rightarrow> 'a word list \<Rightarrow> nat \<Rightarrow> nat \<Rightarrow> nat \<Rightarrow> 'a word list option" where
  "BigNumLeftShiftWordsAndBits Result NumWordsResult A NumWordsA NumWords NumBits =
     (let WB = OC_BN_WORD_NUM_BITS TYPE('a)
      in do {
        R1 \<leftarrow> fold_checked (\<lambda>Index R. do {
                A1 \<leftarrow> rd A Index;
                A0 \<leftarrow> rd A (Index - 1);
                wr R (Index + NumWords) (push_bit NumBits A1 OR drop_bit (WB - NumBits) A0)
              }) (rev [1..<NumWordsA]) Result;
        A0 \<leftarrow> rd A 0;
        R2 \<leftarrow> wr R1 NumWords (push_bit NumBits A0);
        A1 \<leftarrow> rd A (NumWordsA - 1);
        R3 \<leftarrow> wr R2 (NumWordsA + NumWords) (drop_bit (WB - NumBits) A1);
        wr_block R3 0 (replicate NumWords 0)
      })"

definition BigNumLeftShift ::
  "'a::len word list \<Rightarrow> nat \<Rightarrow> 'a word list \<Rightarrow> nat \<Rightarrow> nat \<Rightarrow> 'a word list option" where
  "BigNumLeftShift Result NumWordsResult A NumWordsA Exponent =
     (let NumWords = Exponent div OC_BN_WORD_NUM_BITS TYPE('a);
          NumBits = Exponent mod OC_BN_WORD_NUM_BITS TYPE('a)
      in if NumBits \<noteq> 0
         then BigNumLeftShiftWordsAndBits Result NumWordsResult A NumWordsA NumWords NumBits
         else BigNumLeftShiftWords Result NumWordsResult A NumWordsA NumWords)"

text \<open>
  The right shifts are only called with \<open>Result\<close> and \<open>A\<close> the same buffer and the same word count;
  they are modelled on that one buffer, each read taken from its current contents.
\<close>

definition BigNumRightShiftWords :: "'a::len word list \<Rightarrow> nat \<Rightarrow> nat \<Rightarrow> 'a word list" where
  "BigNumRightShiftWords A NumWords Exponent =
     (let R1 = overwrite A 0 (window A Exponent (NumWords - Exponent))
      in overwrite R1 (NumWords - Exponent) (replicate Exponent 0))"

definition BigNumRightShiftBitsSmall :: "'a::len word list \<Rightarrow> nat \<Rightarrow> nat \<Rightarrow> 'a word list" where
  "BigNumRightShiftBitsSmall A NumWords Exponent =
     (let WB = OC_BN_WORD_NUM_BITS TYPE('a);
          A1 = fold (\<lambda>Index R. R[Index :=
                 drop_bit Exponent (R ! Index) OR push_bit (WB - Exponent) (R ! (Index + 1))])
               [0..<NumWords - 1] A;
          Index = NumWords - 1
      in A1[Index := drop_bit Exponent (A1 ! Index)])"

definition BigNumRightShiftWordsAndBits :: "'a::len word list \<Rightarrow> nat \<Rightarrow> nat \<Rightarrow> nat \<Rightarrow> 'a word list" where
  "BigNumRightShiftWordsAndBits A NumWordsA NumWords NumBits =
     (let WB = OC_BN_WORD_NUM_BITS TYPE('a);
          R1 = fold (\<lambda>Index R. R[Index - NumWords :=
                 drop_bit NumBits (R ! Index) OR push_bit (WB - NumBits) (R ! (Index + 1))])
               [NumWords..<NumWordsA - 1] A;
          Index = max NumWords (NumWordsA - 1);
          R2 = R1[Index - NumWords := drop_bit NumBits (R1 ! (NumWordsA - 1))]
      in overwrite R2 (Index - NumWords + 1) (replicate (NumWordsA - (Index - NumWords + 1)) 0))"

definition BigNumRightShift :: "'a::len word list \<Rightarrow> nat \<Rightarrow> nat \<Rightarrow> 'a word list" where
  "BigNumRightShift A NumWordsA Exponent =
     (let NumWords = Exponent div OC_BN_WORD_NUM_BITS TYPE('a);
          NumBits = Exponent mod OC_BN_WORD_NUM_BITS TYPE('a)
      in if NumBits \<noteq> 0 then BigNumRightShiftWordsAndBits A NumWordsA NumWords NumBits
         else BigNumRightShiftWords A NumWordsA NumWords)"

subsection \<open>Byte order\<close>

text \<open>\<open>word_of_be\<close> is the C expression that ORs the shifted bytes of one big-endian word.\<close>

definition word_of_be :: "byte list \<Rightarrow> 'a::len word" where
  "word_of_be bs = foldl (\<lambda>w b. push_bit 8 w OR ucast b) 0 bs"

definition BigNumParseBuffer :: "'a::len word list \<Rightarrow> nat \<Rightarrow> byte list \<Rightarrow> nat \<Rightarrow> 'a word list" where
  "BigNumParseBuffer Result NumWords Buffer BufferSize =
     fold (\<lambda>k R. R[k := word_of_be (window Buffer (BufferSize - (k + 1) * OC_BN_WORD_SIZE TYPE('a))
                                       (OC_BN_WORD_SIZE TYPE('a)))])
       [0..<BufferSize div OC_BN_WORD_SIZE TYPE('a)] Result"

text \<open>The bytes of a word in memory order of a little-endian machine, and the byte swap.\<close>

definition le_bytes :: "'a::len word \<Rightarrow> byte list" where
  "le_bytes x = map (\<lambda>i. ucast (drop_bit (8 * i) x)) [0..<OC_BN_WORD_SIZE TYPE('a)]"

definition BigNumSwapWord :: "'a::len word \<Rightarrow> 'a word" where
  "BigNumSwapWord Word = word_of_be (le_bytes Word)"

section \<open>Word products\<close>

lemma WordMul_Cpu64:
  "BigNumWordMul64_Cpu64 a b = (hi, lo) \<Longrightarrow> unat hi * 2 ^ 64 + unat lo = unat a * unat b"
proof -
  assume eq: "BigNumWordMul64_Cpu64 a b = (hi, lo)"
  let ?R = "(ucast a :: 128 word) * ucast b"
  have lt: "unat a * unat b < 2 ^ 64 * 2 ^ 64"
    using unsigned_less[of a] unsigned_less[of b] by (intro mult_strict_mono) auto
  then have R: "unat ?R = unat a * unat b"
    by (simp add: unat_word_ariths unat_ucast mod_mult_eq)
  have "unat ?R div 2 ^ 64 < 2 ^ 64" unfolding R using lt by (rule less_mult_imp_div_less)
  then have hi: "unat hi = unat ?R div 2 ^ 64"
    using eq
    by (auto simp: BigNumWordMul64_Cpu64_def Let_def unat_ucast unat_drop_bit)
  have lo: "unat lo = unat ?R mod 2 ^ 64"
    using eq by (auto simp: BigNumWordMul64_Cpu64_def Let_def unat_ucast)
  show ?thesis unfolding hi lo R by simp
qed

lemma WordMul_32:
  "BigNumWordMul f (a :: u32) b = (hi, lo) \<Longrightarrow> unat hi * 2 ^ 32 + unat lo = unat a * unat b"
proof -
  assume eq: "BigNumWordMul f a b = (hi, lo)"
  let ?R = "(ucast a :: 64 word) * ucast b"
  have lt: "unat a * unat b < 2 ^ 32 * 2 ^ 32"
    using unsigned_less[of a] unsigned_less[of b] by (intro mult_strict_mono) auto
  then have R: "unat ?R = unat a * unat b"
    by (simp add: unat_word_ariths unat_ucast mod_mult_eq)
  have "unat ?R div 2 ^ 32 < 2 ^ 32" unfolding R using lt by (rule less_mult_imp_div_less)
  then have hi: "unat hi = unat ?R div 2 ^ 32"
    using eq
    by (auto simp: BigNumWordMul_def OC_BN_WORD_SIZE_def OC_BN_WORD_NUM_BITS_def Let_def unat_ucast
        unat_drop_bit)
  have lo: "unat lo = unat ?R mod 2 ^ 32"
    using eq by (auto simp: BigNumWordMul_def OC_BN_WORD_SIZE_def Let_def unat_ucast)
  show ?thesis unfolding hi lo R by simp
qed

text \<open>Schoolbook multiplication of half words, over the natural numbers.\<close>

lemma half_word_product:
  fixes al ah bl bh :: nat and h :: nat
  assumes h: "0 < h"
  defines "p0 \<equiv> al * bl" and "p1 \<equiv> al * bh" and "p2 \<equiv> ah * bl" and "p3 \<equiv> ah * bh"
  defines "cy \<equiv> (p0 div h + p1 mod h + p2 mod h) div h"
  shows "(p3 + p1 div h + p2 div h + cy) * (h * h) + (p0 + p1 * h + p2 * h) mod (h * h) =
    (al + ah * h) * (bl + bh * h)"
proof -
  let ?s = "p0 div h + p1 mod h + p2 mod h"
  have d: "x * h = x div h * (h * h) + x mod h * h" for x :: nat
    by (metis add_mult_distrib div_mult_mod_eq mult.assoc)
  have "p0 = p0 div h * h + p0 mod h" by simp
  then have "p0 + p1 * h + p2 * h = p0 mod h + h * ?s + (p1 div h + p2 div h) * (h * h)"
    using d[of p1] d[of p2] by (simp only: algebra_simps)
  moreover have "p0 mod h + h * ?s = (p0 mod h + h * (?s mod h)) + cy * (h * h)"
    using d[of ?s] unfolding cy_def by (simp only: algebra_simps)
  moreover have "p0 mod h + h * (?s mod h) < h * h"
  proof -
    have "p0 mod h < h" "?s mod h \<le> h - 1" using h by (simp_all add: less_Suc_eq_le[symmetric])
    then have "p0 mod h + h * (?s mod h) < h + h * (h - 1)"
      by (intro add_less_le_mono mult_le_mono2)
    then show ?thesis using h by (simp add: algebra_simps)
  qed
  ultimately have t: "p0 + p1 * h + p2 * h = (p0 mod h + h * (?s mod h)) + (p1 div h + p2 div h + cy) * (h * h)"
    and lt: "p0 mod h + h * (?s mod h) < h * h"
    by (simp_all only: add_mult_distrib)
  then have m: "(p0 + p1 * h + p2 * h) mod (h * h) = p0 mod h + h * (?s mod h)"
    by (simp only: mod_mult_self1 mod_less)
  have prod: "(al + ah * h) * (bl + bh * h) = (p0 + p1 * h + p2 * h) + p3 * (h * h)"
    by (simp add: p0_def p1_def p2_def p3_def algebra_simps)
  show ?thesis unfolding prod m using t unfolding add_mult_distrib by linarith
qed

lemma unat_and_mask: "unat (x AND mask n :: 'a::len word) = unat x mod 2 ^ n"
  by (simp flip: take_bit_eq_mask add: unsigned_take_bit_eq take_bit_eq_mod[of n "unat x"])

lemma WordMul_Cpu32:
  "BigNumWordMul64_Cpu32 a b = (hi, lo) \<Longrightarrow> unat hi * 2 ^ 64 + unat lo = unat a * unat b"
proof -
  assume eq: "BigNumWordMul64_Cpu32 a b = (hi, lo)"
  have L: "LENGTH(64) = 64" by simp
  let ?h = "2 ^ 32 :: nat"
  let ?al = "unat a mod ?h" and ?ah = "unat a div ?h" and ?bl = "unat b mod ?h" and ?bh = "unat b div ?h"
  have msk: "push_bit 32 1 - 1 = (mask 32 :: u64)" by (simp add: mask_numeral)
  have lt: "?al < ?h" "?ah < ?h" "?bl < ?h" "?bh < ?h"
    using unat_less_2pow[of a] unat_less_2pow[of b] by (auto simp: less_mult_imp_div_less)
  have pp: "x * y \<le> (?h - 1) * (?h - 1)" if "x < ?h" "y < ?h" for x y :: nat
    using that by (intro mult_le_mono) auto
  have p: "x * y < 2 ^ 64" if "x < ?h" "y < ?h" for x y :: nat
    using pp[OF that] by simp
  define P0 where "P0 = (a AND mask 32) * (b AND mask 32)"
  define P1 where "P1 = (a AND mask 32) * drop_bit 32 b"
  define P2 where "P2 = drop_bit 32 a * (b AND mask 32)"
  define P3 where "P3 = drop_bit 32 a * drop_bit 32 b"
  have u: "unat P0 = ?al * ?bl" "unat P1 = ?al * ?bh" "unat P2 = ?ah * ?bl" "unat P3 = ?ah * ?bh"
    unfolding P0_def P1_def P2_def P3_def
    using p[OF lt(1,3)] p[OF lt(1,4)] p[OF lt(2,3)] p[OF lt(2,4)]
    by (simp_all add: unat_word_ariths unat_and_mask unat_drop_bit)
  let ?cs = "?al * ?bl div ?h + ?al * ?bh mod ?h + ?ah * ?bl mod ?h"
  have b0: "?al * ?bl div ?h < ?h" using p[OF lt(1,3)] by (intro less_mult_imp_div_less) simp
  have "?al * ?bh mod ?h < ?h" "?ah * ?bl mod ?h < ?h" by (rule mod_less_divisor, simp)+
  then have cslt: "?cs < 3 * ?h" using b0 by linarith
  define Cy where "Cy = drop_bit 32 (drop_bit 32 P0 + (P1 AND mask 32) + (P2 AND mask 32)) AND mask 32"
  have cy: "unat Cy = ?cs div ?h"
  proof -
    have s1: "unat (drop_bit 32 P0 + (P1 AND mask 32) + (P2 AND mask 32)) = ?cs"
      using cslt by (simp add: unat_word_ariths unat_and_mask unat_drop_bit u)
    have "?cs div ?h < ?h" using cslt by (intro less_mult_imp_div_less) simp
    then show ?thesis unfolding Cy_def by (simp only: unat_and_mask unat_drop_bit s1 mod_less)
  qed
  have hi: "hi = P3 + drop_bit 32 P1 + drop_bit 32 P2 + Cy"
    and lo: "lo = P0 + push_bit 32 P1 + push_bit 32 P2"
    using eq unfolding BigNumWordMul64_Cpu32_def Let_def msk P0_def P1_def P2_def P3_def Cy_def by auto
  have main: "(?ah * ?bh + ?al * ?bh div ?h + ?ah * ?bl div ?h + ?cs div ?h) * (?h * ?h) +
      (?al * ?bl + ?al * ?bh * ?h + ?ah * ?bl * ?h) mod (?h * ?h) = unat a * unat b"
    using half_word_product[where h = ?h and al = ?al and ah = ?ah and bl = ?bl and bh = ?bh]
    unfolding mod_div_mult_eq by simp
  have "unat lo = (?al * ?bl + ?al * ?bh * ?h + ?ah * ?bl * ?h) mod 2 ^ 64"
  proof -
    have "unat lo = (unat P0 + unat P1 * ?h + unat P2 * ?h) mod 2 ^ LENGTH(64)"
      unfolding lo by (simp only: unat_word_ariths(1) unat_push_bit mod_add_left_eq mod_add_right_eq)
    then show ?thesis by (simp only: u L)
  qed
  moreover have "unat hi = ?ah * ?bh + ?al * ?bh div ?h + ?ah * ?bl div ?h + ?cs div ?h"
  proof -
    have "(?ah * ?bh + ?al * ?bh div ?h + ?ah * ?bl div ?h + ?cs div ?h) * (?h * ?h) \<le> unat a * unat b"
      using main by linarith
    also have "\<dots> < 2 ^ 64 * 2 ^ 64"
      using unsigned_less[of a] unsigned_less[of b] by (intro mult_strict_mono) auto
    finally have "?ah * ?bh + ?al * ?bh div ?h + ?ah * ?bl div ?h + ?cs div ?h < 2 ^ 64" by simp
    moreover have "unat hi = (unat P3 + unat P1 div ?h + unat P2 div ?h + unat Cy) mod 2 ^ LENGTH(64)"
      unfolding hi by (simp only: unat_word_ariths(1) unat_drop_bit mod_add_left_eq)
    ultimately show ?thesis by (simp only: u cy mod_less L)
  qed
  ultimately show ?thesis using main by simp
qed

section \<open>Subtraction\<close>

lemma borrow_word:
  fixes a b :: "'a::len word"
  assumes c: "c \<le> 1"
  defines "t2 \<equiv> b + of_nat c"
  defines "c' \<equiv> (if t2 < of_nat c \<or> a < a - t2 then 1 else 0 :: nat)"
  shows "unat (a - t2) + unat b + c = unat a + 2 ^ LENGTH('a) * c'"
proof (cases "unat b + c < 2 ^ LENGTH('a)")
  case True
  have c1: "unat (of_nat c :: 'a word) = c" using c by (cases c) auto
  then have t2: "unat t2 = unat b + c" using True by (simp add: t2_def unat_word_ariths)
  then have n: "\<not> t2 < of_nat c" using c1 by (simp add: word_less_nat_alt)
  show ?thesis
  proof (cases "unat t2 \<le> unat a")
    case True
    then have "unat (a - t2) = unat a - unat t2" by (simp add: unat_sub word_le_nat_alt)
    moreover have "\<not> a < a - t2" using calculation by (simp add: word_less_nat_alt)
    ultimately show ?thesis using n True t2 by (simp add: c'_def)
  next
    case False
    then have d: "unat (a - t2) = unat a + 2 ^ LENGTH('a) - unat t2"
      by (simp add: unat_sub_if' word_size)
    moreover have "unat a < unat (a - t2)" unfolding d using unat_less_2pow[of t2] by linarith
    then have "a < a - t2" by (simp add: word_less_nat_alt)
    ultimately show ?thesis using t2 unat_less_2pow[of t2] by (simp add: c'_def)
  qed
next
  case False
  have "unat b < 2 ^ LENGTH('a)" by simp
  with False c have c1: "c = 1" and bm: "unat b = 2 ^ LENGTH('a) - 1" by linarith+
  then have "unat t2 = 0" by (simp add: t2_def unat_word_ariths)
  then have "t2 = 0" by (simp add: unat_eq_0)
  then show ?thesis using c1 bm by (simp add: c'_def word_less_nat_alt)
qed

lemma BigNumSub_fold:
  assumes "n \<le> length A" "n \<le> length B" "n \<le> length R"
  shows "\<exists>c \<le> 1. \<exists>R'. fold (BigNumSub_step A B) [0..<n] (0, R) = (of_nat c, R') \<and>
     length R' = length R \<and> drop n R' = drop n R \<and>
     bn_val (take n R') + bn_val (take n B) = bn_val (take n (A :: 'a::len word list)) + c * 2 ^ (LENGTH('a) * n)"
  using assms
proof (induction n)
  case 0
  show ?case by (intro exI[of _ 0]) simp
next
  case (Suc n)
  then obtain c R' where c: "c \<le> 1" and F: "fold (BigNumSub_step A B) [0..<n] (0, R) = (of_nat c, R')"
    and l: "length R' = length R" and d: "drop n R' = drop n R"
    and v: "bn_val (take n R') + bn_val (take n B) = bn_val (take n A) + c * 2 ^ (LENGTH('a) * n)"
    by auto
  let ?t2 = "B ! n + of_nat c" and ?w = "LENGTH('a)"
  let ?r = "A ! n - ?t2"
  define c' where "c' = (if ?t2 < of_nat c \<or> A ! n < ?r then 1 else 0 :: nat)"
  have u: "ucast (of_nat c :: byte) = (of_nat c :: 'a word)" using c by (cases c) auto
  have step: "fold (BigNumSub_step A B) [0..<Suc n] (0, R) = (of_nat c', R'[n := ?r])"
    using F u by (auto simp: BigNumSub_step_def Let_def c'_def)
  have w: "unat ?r + unat (B ! n) + c = unat (A ! n) + 2 ^ ?w * c'"
    unfolding c'_def using c by (rule borrow_word)
  have n: "n < length R'" "n < length A" "n < length B" using Suc.prems l by auto
  have "bn_val (take (Suc n) (R'[n := ?r])) + bn_val (take (Suc n) B) =
      bn_val (take n R') + bn_val (take n B) + 2 ^ (?w * n) * (unat ?r + unat (B ! n))"
    using n by (simp add: bn_val_take_Suc algebra_simps)
  also have "\<dots> = bn_val (take n A) + 2 ^ (?w * n) * (unat ?r + unat (B ! n) + c)"
    unfolding v by (simp add: algebra_simps)
  also have "\<dots> = bn_val (take (Suc n) A) + c' * 2 ^ (?w * Suc n)"
    unfolding w using n by (simp add: bn_val_take_Suc algebra_simps power_add)
  finally have v': "bn_val (take (Suc n) (R'[n := ?r])) + bn_val (take (Suc n) B) =
      bn_val (take (Suc n) A) + c' * 2 ^ (?w * Suc n)" .
  have "drop (Suc n) (R'[n := ?r]) = drop (Suc n) R"
    using arg_cong[OF d, of "drop 1"] by (simp only: drop_drop drop_update_cancel) simp
  then show ?case using v' step l by (intro exI[of _ c']) (auto simp: c'_def)
qed

lemma length_BigNumSub [simp]:
  "length (BigNumSub R n A B) = length R"
proof -
  have "length (snd (fold (BigNumSub_step A B) xs st)) = length (snd st)" for xs st
    by (induction xs arbitrary: st) (auto simp: BigNumSub_step_def Let_def split: prod.splits)
  then show ?thesis by (simp add: BigNumSub_def)
qed

lemma BigNumSub_val:
  fixes A B R :: "'a::len word list"
  assumes "n \<le> length A" "n \<le> length B" "n \<le> length R"
  shows "int (bn_val (take n (BigNumSub R n A B))) =
      (int (bn_val (take n A)) - int (bn_val (take n B))) mod 2 ^ (LENGTH('a) * n)"
    and "drop n (BigNumSub R n A B) = drop n R"
proof -
  obtain c R' where F: "fold (BigNumSub_step A B) [0..<n] (0, R) = (of_nat c, R')"
    and d: "drop n R' = drop n R"
    and v: "bn_val (take n R') + bn_val (take n B) = bn_val (take n A) + c * 2 ^ (LENGTH('a) * n)"
    using BigNumSub_fold[OF assms] by auto
  show "drop n (BigNumSub R n A B) = drop n R" using F d by (simp add: BigNumSub_def)
  have "int (bn_val (take n R')) =
      (int (bn_val (take n A)) - int (bn_val (take n B))) + int c * 2 ^ (LENGTH('a) * n)"
    using arg_cong[OF v, of int] by simp
  moreover have "int (bn_val (take n R')) < 2 ^ (LENGTH('a) * n)"
    using of_nat_less_iff[where 'a = int, THEN iffD2, OF bn_val_take_less[of n R']] by simp
  ultimately have "int (bn_val (take n R')) =
      (int (bn_val (take n A)) - int (bn_val (take n B))) mod 2 ^ (LENGTH('a) * n)"
    by (metis mod_mult_self1 mod_pos_pos_trivial of_nat_0_le_iff)
  then show "int (bn_val (take n (BigNumSub R n A B))) =
      (int (bn_val (take n A)) - int (bn_val (take n B))) mod 2 ^ (LENGTH('a) * n)"
    using F by (simp add: BigNumSub_def)
qed

lemma BigNumSub_val_ge:
  fixes A B R :: "'a::len word list"
  assumes "n \<le> length A" "n \<le> length B" "n \<le> length R" "bn_val (take n B) \<le> bn_val (take n A)"
  shows "bn_val (take n (BigNumSub R n A B)) = bn_val (take n A) - bn_val (take n B)"
proof -
  have "int (bn_val (take n A)) < 2 ^ (LENGTH('a) * n)" by (simp add: bn_val_take_less)
  then have "int (bn_val (take n A)) - int (bn_val (take n B)) < 2 ^ (LENGTH('a) * n)" by linarith
  then show ?thesis using BigNumSub_val(1)[OF assms(1-3)] assms(4) by (simp add: of_nat_diff)
qed

text \<open>Result and minuend in one buffer: every word is read before it is written.\<close>

lemma BigNumSub_inplace_eq:
  assumes "n \<le> length A"
  shows "BigNumSub_inplace A n B = BigNumSub A n A B"
proof -
  have "fold (\<lambda>Index st. BigNumSub_step (snd st) B Index st) [0..<k] (0, A) =
      fold (BigNumSub_step A B) [0..<k] (0, A) \<and>
      (\<forall>i. k \<le> i \<longrightarrow> snd (fold (BigNumSub_step A B) [0..<k] (0, A)) ! i = A ! i)" if "k \<le> n" for k
    using that
  proof (induction k)
    case (Suc k)
    then show ?case
      by (auto simp: BigNumSub_step_def Let_def split: prod.splits)
  qed simp
  then show ?thesis by (simp add: BigNumSub_inplace_def BigNumSub_def)
qed

section \<open>Comparison and significant bits\<close>

lemma digit_less: "x < p \<Longrightarrow> a < b \<Longrightarrow> x + p * a < y + p * (b :: nat)"
proof -
  assume "x < p" "a < b"
  then have "x + p * a < p + p * a" by simp
  also have "p + p * a = p * Suc a" by simp
  also have "\<dots> \<le> p * b" using \<open>a < b\<close> by (intro mult_le_mono2) simp
  finally show ?thesis by simp
qed

lemma BigNumCmp_val:
  "n \<le> length A \<Longrightarrow> n \<le> length B \<Longrightarrow>
   BigNumCmp A n B = sgn (int (bn_val (take n (A :: 'a::len word list))) - int (bn_val (take n B)))"
proof (induction n)
  case (Suc n)
  let ?a = "bn_val (take n A)" and ?b = "bn_val (take n B)" and ?p = "2 ^ (LENGTH('a) * n)"
  have v: "bn_val (take (Suc n) A) = ?a + ?p * unat (A ! n)" "bn_val (take (Suc n) B) = ?b + ?p * unat (B ! n)"
    using Suc.prems by (simp_all add: bn_val_take_Suc)
  consider "A ! n > B ! n" | "A ! n < B ! n" | "A ! n = B ! n" by fastforce
  then show ?case
  proof cases
    case 1
    then have "?b + ?p * unat (B ! n) < ?a + ?p * unat (A ! n)"
      by (intro digit_less bn_val_take_less) (simp add: word_less_nat_alt)
    then have "0 < int (?a + ?p * unat (A ! n)) - int (?b + ?p * unat (B ! n))" by linarith
    then show ?thesis unfolding v using 1 by (simp only: BigNumCmp.simps if_True sgn_pos)
  next
    case 2
    then have "?a + ?p * unat (A ! n) < ?b + ?p * unat (B ! n)"
      by (intro digit_less bn_val_take_less) (simp add: word_less_nat_alt)
    then have "int (?a + ?p * unat (A ! n)) - int (?b + ?p * unat (B ! n)) < 0" by linarith
    then show ?thesis unfolding v using 2 by (simp only: BigNumCmp.simps if_True sgn_neg) auto
  next
    case 3
    then show ?thesis unfolding v using Suc by simp
  qed
qed simp

lemma BigNumCmp_ge_0: "n \<le> length A \<Longrightarrow> n \<le> length B \<Longrightarrow>
   0 \<le> BigNumCmp A n B \<longleftrightarrow> bn_val (take n (B :: 'a::len word list)) \<le> bn_val (take n A)"
  by (auto simp: BigNumCmp_val sgn_if)

lemma BigNumCmp_less_0: "n \<le> length A \<Longrightarrow> n \<le> length B \<Longrightarrow>
   BigNumCmp A n B < 0 \<longleftrightarrow> bn_val (take n (A :: 'a::len word list)) < bn_val (take n B)"
  by (auto simp: BigNumCmp_val sgn_if)

lemma top_bit_clear_iff:
  assumes "unat (w :: 'a::len word) < 2 ^ Suc j"
  shows "w AND push_bit j 1 = 0 \<longleftrightarrow> unat w < 2 ^ j"
proof -
  have "bit w j \<longleftrightarrow> bit (unat w) j" using bit_imp_le_length[of w j] by (auto simp: bit_unsigned_iff)
  also have "\<dots> \<longleftrightarrow> odd (unat w div 2 ^ j)" by (simp add: bit_iff_odd)
  also have "\<dots> \<longleftrightarrow> unat w div 2 ^ j \<noteq> 0"
  proof -
    have "unat w div 2 ^ j < 2" using assms by (simp add: less_mult_imp_div_less mult.commute)
    then show ?thesis by (auto simp: less_2_cases_iff)
  qed
  also have "\<dots> \<longleftrightarrow> \<not> unat w < 2 ^ j" by (simp add: div_eq_0_iff)
  finally show ?thesis by (simp only: push_bit_of_1 and_exp_eq_0_iff_not_bit not_not)
qed

lemma BigNumSignificantBitsWord_while_eq:
  "k \<le> LENGTH('a) \<Longrightarrow> unat (w :: 'a::len word) < 2 ^ k \<Longrightarrow>
   BigNumSignificantBitsWord_while w k (if k = 0 then 0 else push_bit (k - 1) 1) = bit_len (unat w)"
proof (induction k)
  case 0
  then show ?case by (simp add: BigNumSignificantBitsWord_while.simps)
next
  case (Suc k)
  have m: "push_bit k (1 :: 'a word) \<noteq> 0" using Suc.prems by (simp add: push_bit_of_1)
  have h: "drop_bit 1 (push_bit k (1 :: 'a word)) = (if k = 0 then 0 else push_bit (k - 1) 1)"
    using Suc.prems by (simp add: push_bit_of_1 drop_bit_exp_eq)
  show ?case
  proof (cases "unat w < 2 ^ k")
    case True
    then have "w AND push_bit k 1 = 0" using top_bit_clear_iff Suc.prems by blast
    then show ?thesis using Suc.IH True m h Suc.prems
      by (subst BigNumSignificantBitsWord_while.simps) simp
  next
    case False
    then have "w AND push_bit k 1 \<noteq> 0" using top_bit_clear_iff Suc.prems by blast
    moreover have "bit_len (unat w) = Suc k" using False Suc.prems by (intro bit_len_eqI) simp_all
    ultimately show ?thesis by (subst BigNumSignificantBitsWord_while.simps) simp
  qed
qed

lemma BigNumSignificantBitsWord_eq: "BigNumSignificantBitsWord (w :: 'a::len word) = bit_len (unat w)"
  using BigNumSignificantBitsWord_while_eq[of "LENGTH('a)" w] 
  by (simp add: BigNumSignificantBitsWord_def OC_BN_WORD_NUM_BITS_def)

lemma BigNumMostSignificantWord_less: "0 < n \<Longrightarrow> BigNumMostSignificantWord A n < n"
  by (induction n) (auto intro: less_SucI simp: less_Suc_eq)

lemma BigNumSignificantBits_val:
  "0 < n \<Longrightarrow> n \<le> length A \<Longrightarrow> BigNumSignificantBits (A :: 'a::len word list) n = bit_len (bn_val (take n A))"
proof (induction n)
  case (Suc n)
  let ?w = "LENGTH('a)"
  have v: "bn_val (take (Suc n) A) = bn_val (take n A) + 2 ^ (?w * n) * unat (A ! n)"
    using Suc.prems by (simp add: bn_val_take_Suc)
  show ?case
  proof (cases "A ! n = 0")
    case False
    let ?b = "bit_len (unat (A ! n))"
    have pos: "0 < unat (A ! n)" using False by (simp add: unat_gt_0)
    have "bit_len (bn_val (take (Suc n) A)) = n * ?w + ?b"
    proof (rule bit_len_eqI)
      have "bn_val (take n A) + 2 ^ (?w * n) * unat (A ! n) < 0 + 2 ^ (?w * n) * 2 ^ ?b"
        by (intro digit_less bn_val_take_less bit_len_upper)
      then show "bn_val (take (Suc n) A) < 2 ^ (n * ?w + ?b)" unfolding v by (simp add: power_add mult.commute)
      have "2 ^ (n * ?w + ?b - 1) = 2 ^ (?w * n) * (2 :: nat) ^ (?b - 1)"
        using bit_len_pos_iff[THEN iffD2, OF pos] by (simp del: bit_len_pos_iff add: mult.commute flip: power_add)
      also have "\<dots> \<le> 2 ^ (?w * n) * unat (A ! n)" using pos by (intro mult_le_mono2 bit_len_lower)
      finally show "2 ^ (n * ?w + ?b - 1) \<le> bn_val (take (Suc n) A)" unfolding v by simp
    qed
    then show ?thesis using False
      by (simp add: BigNumSignificantBits_def BigNumSignificantBitsWord_eq OC_BN_WORD_NUM_BITS_def)
  next
    case True
    then have "bn_val (take (Suc n) A) = bn_val (take n A)" using v by simp
    moreover have "BigNumSignificantBits A (Suc n) = bit_len (bn_val (take n A))"
    proof (cases "n = 0")
      case True
      then show ?thesis using \<open>A ! n = 0\<close>
        by (simp add: BigNumSignificantBits_def BigNumSignificantBitsWord_eq)
    next
      case False
      then have "BigNumSignificantBits A n = bit_len (bn_val (take n A))" using Suc by simp
      then show ?thesis using \<open>A ! n = 0\<close> by (simp add: BigNumSignificantBits_def)
    qed
    ultimately show ?thesis by simp
  qed
qed simp

text \<open>The number of words the code reads from a number to keep all its significant bits.\<close>

lemma BigNumMostSignificantWord_take:
  "n \<le> length A \<Longrightarrow> bn_val (take (Suc (BigNumMostSignificantWord A n)) (A :: 'a::len word list)) = bn_val (take n A) \<or> n = 0"
proof (induction n)
  case (Suc n)
  then show ?case using bn_val_take_Suc[of n A] by (cases "n = 0") auto
qed simp

section \<open>Shifts\<close>

text \<open>Reference shifts by less than a word, on lists of words.\<close>

fun shr_bits :: "nat \<Rightarrow> 'a::len word list \<Rightarrow> 'a word list" where
  "shr_bits k [] = []"
| "shr_bits k [x] = [drop_bit k x]"
| "shr_bits k (x # y # ys) = (drop_bit k x OR push_bit (LENGTH('a) - k) y) # shr_bits k (y # ys)"

fun shl_bits :: "nat \<Rightarrow> 'a::len word \<Rightarrow> 'a word list \<Rightarrow> 'a word list" where
  "shl_bits k p [] = [drop_bit (LENGTH('a) - k) p]"
| "shl_bits k p (x # xs) = (push_bit k x OR drop_bit (LENGTH('a) - k) p) # shl_bits k x xs"

lemma or_disjoint_add:
  assumes "unat (y :: 'a::len word) < 2 ^ k" "k \<le> LENGTH('a)"
  shows "unat (push_bit k x OR y) = unat x mod 2 ^ (LENGTH('a) - k) * 2 ^ k + unat y"
proof -
  have "push_bit k x AND y = 0"
  proof (rule bit_word_eqI)
    fix i assume "i < LENGTH('a)"
    have "\<not> bit y i" if "k \<le> i"
    proof -
      have "unat y < 2 ^ i" using assms(1) power_increasing[OF that, of "2::nat"] by linarith
      then have "\<not> bit (unat y) i" by (simp add: bit_iff_odd)
      then show ?thesis using \<open>i < _\<close> by (simp add: bit_unsigned_iff)
    qed
    then show "bit (push_bit k x AND y) i \<longleftrightarrow> bit (0 :: 'a word) i" by (auto simp: bit_simps)
  qed
  then have "push_bit k x OR y = push_bit k x + y" by (simp add: disjunctive_add_eq_or)
  moreover have p: "unat (push_bit k x) = unat x mod 2 ^ (LENGTH('a) - k) * 2 ^ k"
  proof -
    have "(2::nat) ^ LENGTH('a) = 2 ^ (LENGTH('a) - k) * 2 ^ k" using assms(2) by (simp flip: power_add)
    then show ?thesis unfolding unat_push_bit by (simp only: mult_mod_left)
  qed
  moreover have "unat (push_bit k x) + unat y < 2 ^ LENGTH('a)"
  proof -
    have "unat y + 2 ^ k * (unat x mod 2 ^ (LENGTH('a) - k)) < 0 + 2 ^ k * 2 ^ (LENGTH('a) - k)"
      using assms(1) by (intro digit_less) simp_all
    then show ?thesis unfolding p using assms(2) by (simp add: mult.commute flip: power_add)
  qed
  ultimately show ?thesis by (simp add: unat_plus_no_wrap)
qed

lemma div_mult_split: "k \<le> w \<Longrightarrow> (x + 2 ^ w * y) div 2 ^ k = x div 2 ^ k + 2 ^ (w - k) * (y :: nat)"
proof -
  assume "k \<le> w"
  then have "2 ^ w * y = 2 ^ k * (2 ^ (w - k) * y)" by (simp add: mult.assoc[symmetric] flip: power_add)
  then have "(x + 2 ^ w * y) div 2 ^ k = (x + 2 ^ k * (2 ^ (w - k) * y)) div 2 ^ k" by (simp only:)
  also have "\<dots> = x div 2 ^ k + 2 ^ (w - k) * y" by simp
  finally show ?thesis .
qed

lemma bn_val_shr_bits:
  assumes "0 < k" "k < LENGTH('a)"
  shows "bn_val (shr_bits k (xs :: 'a::len word list)) = bn_val xs div 2 ^ k"
  using assms
proof (induction k xs rule: shr_bits.induct)
  case (3 k x y ys)
  let ?w = "LENGTH('a)"
  have "unat (drop_bit k x) < 2 ^ (?w - k)"
    unfolding unat_drop_bit using 3(3) by (simp add: less_mult_imp_div_less flip: power_add)
  then have h: "unat (drop_bit k x OR push_bit (?w - k) y) = unat y mod 2 ^ k * 2 ^ (?w - k) + unat x div 2 ^ k"
    using or_disjoint_add[of "drop_bit k x" "?w - k" y] 3(3) by (simp add: or.commute unat_drop_bit)
  have e: "(2::nat) ^ ?w = 2 ^ (?w - k) * 2 ^ k" using 3(3) by (simp flip: power_add)
  have "bn_val (shr_bits k (x # y # ys)) =
      unat x div 2 ^ k + 2 ^ (?w - k) * (unat y mod 2 ^ k + 2 ^ k * (bn_val (y # ys) div 2 ^ k))"
    using 3 by (simp add: h e algebra_simps)
  also have "unat y mod 2 ^ k = bn_val (y # ys) mod 2 ^ k"
    unfolding bn_val.simps e by (metis mod_mult_self2 mult.assoc mult.commute)
  also have "bn_val (y # ys) mod 2 ^ k + 2 ^ k * (bn_val (y # ys) div 2 ^ k) = bn_val (y # ys)" by simp
  also have "unat x div 2 ^ k + 2 ^ (?w - k) * bn_val (y # ys) = bn_val (x # y # ys) div 2 ^ k"
    using 3(3) by (simp only: bn_val.simps(2)[of x] div_mult_split[OF less_imp_le])
  finally show ?case .
qed (simp_all add: unat_drop_bit)

lemma bn_val_shl_bits:
  assumes "0 < k" "k < LENGTH('a)"
  shows "bn_val (shl_bits k p (xs :: 'a::len word list)) = unat p div 2 ^ (LENGTH('a) - k) + 2 ^ k * bn_val xs"
proof (induction xs arbitrary: p)
  case Nil
  show ?case by (simp add: unat_drop_bit)
next
  case (Cons x xs)
  let ?w = "LENGTH('a)"
  have "unat (drop_bit (?w - k) p) < 2 ^ k"
    unfolding unat_drop_bit using assms by (simp add: less_mult_imp_div_less flip: power_add)
  then have h: "unat (push_bit k x OR drop_bit (?w - k) p) =
      unat x mod 2 ^ (?w - k) * 2 ^ k + unat p div 2 ^ (?w - k)"
    using or_disjoint_add[of "drop_bit (?w - k) p" k x] assms by (simp add: unat_drop_bit)
  have e: "(2::nat) ^ ?w = 2 ^ k * 2 ^ (?w - k)" using assms by (simp flip: power_add)
  have "bn_val (shl_bits k p (x # xs)) = unat p div 2 ^ (?w - k) +
      2 ^ k * ((unat x mod 2 ^ (?w - k) + 2 ^ (?w - k) * (unat x div 2 ^ (?w - k))) + 2 ^ ?w * bn_val xs)"
    unfolding shl_bits.simps bn_val.simps h Cons.IH distrib_left by (simp only: e ac_simps)
  then show ?case unfolding mod_mult_div_eq by simp
qed

lemma length_shr_bits [simp]: "length (shr_bits k xs) = length xs"
  by (induction k xs rule: shr_bits.induct) simp_all

lemma nth_shr_bits:
  "i < length xs \<Longrightarrow> shr_bits k xs ! i =
    (if Suc i < length xs then drop_bit k (xs ! i) OR push_bit (LENGTH('a) - k) (xs ! Suc i)
     else drop_bit k ((xs :: 'a::len word list) ! i))"
  by (induction k xs arbitrary: i rule: shr_bits.induct) (auto simp: nth_Cons' less_Suc_eq_0_disj)

lemma length_shl_bits [simp]: "length (shl_bits k p xs) = Suc (length xs)"
  by (induction k p xs rule: shl_bits.induct) simp_all

lemma nth_shl_bits:
  "i \<le> length xs \<Longrightarrow> shl_bits k p (xs :: 'a::len word list) ! i =
    (if i < length xs then push_bit k (xs ! i) OR drop_bit (LENGTH('a) - k) (if i = 0 then p else xs ! (i - 1))
     else drop_bit (LENGTH('a) - k) (if i = 0 then p else xs ! (i - 1)))"
proof (induction k p xs arbitrary: i rule: shl_bits.induct)
  case (2 k p x xs)
  then show ?case by (cases i) (auto simp: nth_Cons')
qed simp

lemma BigNumRightShift_loop:
  fixes g :: "'a \<Rightarrow> 'a \<Rightarrow> 'a"
  assumes "n \<le> length A" "NW < n"
  defines "f \<equiv> (\<lambda>Index R. R[Index - NW := g (R ! Index) (R ! (Index + 1))])"
  shows "fold f [NW..<n - 1] A = map (\<lambda>i. if i + NW < n - 1 then g (A ! (i + NW)) (A ! (i + NW + 1)) else A ! i) [0..<length A]"
proof -
  have "length (fold f [NW..<n - 1] A) = length A \<and> (\<forall>i < length A. fold f [NW..<n - 1] A ! i =
      (if i + NW < n - 1 then g (A ! (i + NW)) (A ! (i + NW + 1)) else A ! i))"
  proof (rule fold_upt_inv[where P = "\<lambda>k R. length R = length A \<and>
      (\<forall>i < length A. R ! i = (if i + NW < k then g (A ! (i + NW)) (A ! (i + NW + 1)) else A ! i))"])
    fix i s assume "NW \<le> i" "i < n - 1" and I: "length s = length A \<and>
      (\<forall>j < length A. s ! j = (if j + NW < i then g (A ! (j + NW)) (A ! (j + NW + 1)) else A ! j))"
    then show "length (f i s) = length A \<and>
      (\<forall>j < length A. f i s ! j = (if j + NW < Suc i then g (A ! (j + NW)) (A ! (j + NW + 1)) else A ! j))"
      using assms(1) by (auto simp: f_def nth_list_update less_Suc_eq)
  qed (use assms in auto)
  then show ?thesis by (intro nth_equalityI) auto
qed

lemma BigNumRightShiftWordsAndBits_eq:
  assumes "n \<le> length A" "NW < n"
  shows "BigNumRightShiftWordsAndBits (A :: 'a::len word list) n NW k =
    shr_bits k (drop NW (take n A)) @ replicate NW 0 @ drop n A"
proof -
  have mx: "max NW (n - 1) = n - 1" using assms by simp
  show ?thesis
    unfolding BigNumRightShiftWordsAndBits_def Let_def mx OC_BN_WORD_NUM_BITS_def
      BigNumRightShift_loop[OF assms(1,2), of "\<lambda>x y. drop_bit k x OR push_bit (LENGTH('a) - k) y"]
    using assms
    by (intro nth_equalityI) (auto simp: nth_overwrite nth_append nth_shr_bits nth_list_update add.commute[of NW]
        intro!: arg_cong[where f = "drop_bit k"] arg_cong[where f = "(!) A"])
qed

lemma BigNumRightShiftBitsSmall_eq:
  assumes "n \<le> length A" "0 < n"
  shows "BigNumRightShiftBitsSmall (A :: 'a::len word list) n k = shr_bits k (take n A) @ drop n A"
  unfolding BigNumRightShiftBitsSmall_def Let_def OC_BN_WORD_NUM_BITS_def
  using assms BigNumRightShift_loop[OF assms(1,2), of "\<lambda>x y. drop_bit k x OR push_bit (LENGTH('a) - k) y"]
  by (intro nth_equalityI) (auto simp: nth_append nth_shr_bits nth_list_update)

lemma BigNumRightShiftWords_eq:
  assumes "n \<le> length A" "NW \<le> n"
  shows "BigNumRightShiftWords A n NW = drop NW (take n A) @ replicate NW 0 @ drop n A"
  using assms unfolding BigNumRightShiftWords_def Let_def
  by (intro nth_equalityI) (auto simp: nth_overwrite nth_append)

lemma BigNumRightShift_val:
  fixes A :: "'a::len word list"
  assumes "n \<le> length A" "e < LENGTH('a) * n"
  defines "R \<equiv> BigNumRightShift A n e"
  shows "bn_val (take n R) = bn_val (take n A) div 2 ^ e" "length R = length A" "drop n R = drop n A"
proof -
  let ?w = "LENGTH('a)"
  have NW: "e div ?w < n" using assms(2) by (simp add: less_mult_imp_div_less mult.commute)
  define S where "S = (if e mod ?w \<noteq> 0 then shr_bits (e mod ?w) else id) (drop (e div ?w) (take n A))"
  have R: "R = S @ replicate (e div ?w) 0 @ drop n A" and l: "length S = n - e div ?w"
    using NW assms(1) by (auto simp: R_def S_def BigNumRightShift_def OC_BN_WORD_NUM_BITS_def
      BigNumRightShiftWords_eq BigNumRightShiftWordsAndBits_eq Let_def)
  have "bn_val S = bn_val (drop (e div ?w) (take n A)) div 2 ^ (e mod ?w)"
    by (simp add: S_def bn_val_shr_bits)
  also have "\<dots> = bn_val (take n A) div (2 ^ (?w * (e div ?w)) * 2 ^ (e mod ?w))"
    by (simp add: bn_val_drop_div div_mult2_eq)
  also have "\<dots> = bn_val (take n A) div 2 ^ e" by (simp flip: power_add)
  finally show "bn_val (take n R) = bn_val (take n A) div 2 ^ e"
    using NW l by (simp add: R bn_val_append)
  show "length R = length A" "drop n R = drop n A" using NW l assms(1) by (simp_all add: R)
qed

lemma BigNumRightShiftBitsSmall_val:
  fixes A :: "'a::len word list"
  assumes "n \<le> length A" "0 < n" "0 < k" "k < LENGTH('a)"
  defines "R \<equiv> BigNumRightShiftBitsSmall A n k"
  shows "bn_val (take n R) = bn_val (take n A) div 2 ^ k" "length R = length A" "drop n R = drop n A"
  using assms by (simp_all add: BigNumRightShiftBitsSmall_eq bn_val_shr_bits)

lemma BigNumLeftShift_loop:
  assumes "n + NW \<le> length R"
  shows "fold (\<lambda>Index R. R[Index + NW := g Index]) (rev [1..<n]) R =
    map (\<lambda>i. if NW < i \<and> i < n + NW then g (i - NW) else R ! i) [0..<length R]"
  using assms
proof (induction n arbitrary: R)
  case 0
  show ?case by (intro nth_equalityI) auto
next
  case (Suc n)
  show ?case
  proof (cases "n = 0")
    case True
    then show ?thesis by (intro nth_equalityI) auto
  next
    case False
    then have r: "rev [1..<Suc n] = n # rev [1..<n]" by simp
    show ?thesis unfolding r using Suc.prems False
      by (simp only: fold.simps comp_apply) (subst Suc.IH, simp, intro nth_equalityI, auto simp: nth_list_update less_Suc_eq)
  qed
qed

lemma BigNumLeftShiftWordsAndBits_eq:
  assumes "0 < n" "n \<le> length A" "n + NW < length R"
  shows "BigNumLeftShiftWordsAndBits R m (A :: 'a::len word list) n NW k =
    Some (replicate NW 0 @ shl_bits k 0 (take n A) @ drop (n + NW + 1) R)"
proof -
  let ?g = "\<lambda>Index. push_bit k (A ! Index) OR drop_bit (LENGTH('a) - k) (A ! (Index - 1))"
  have "fold_checked (\<lambda>Index R. do { A1 \<leftarrow> rd A Index; A0 \<leftarrow> rd A (Index - 1);
          wr R (Index + NW) (push_bit k A1 OR drop_bit (LENGTH('a) - k) A0) }) (rev [1..<n]) R =
        Some (fold (\<lambda>Index R. R[Index + NW := ?g Index]) (rev [1..<n]) R)"
    using assms by (intro fold_checked_fold[where I = "\<lambda>S. length S = length R"]) auto
  also have "\<dots> = Some (map (\<lambda>i. if NW < i \<and> i < n + NW then ?g (i - NW) else R ! i) [0..<length R])"
    using assms by (subst BigNumLeftShift_loop) auto
  finally have L: "fold_checked (\<lambda>Index R. do { A1 \<leftarrow> rd A Index; A0 \<leftarrow> rd A (Index - 1);
          wr R (Index + NW) (push_bit k A1 OR drop_bit (LENGTH('a) - k) A0) }) (rev [1..<n]) R = \<dots>" .
  have "A \<noteq> []" "n - 1 < length A" "NW < length R" using assms by auto
  then show ?thesis
    unfolding BigNumLeftShiftWordsAndBits_def Let_def OC_BN_WORD_NUM_BITS_def L
    using assms
    by (simp, intro nth_equalityI) (auto simp: nth_overwrite nth_append nth_shl_bits nth_list_update)
qed

lemma BigNumLeftShift_val:
  fixes A :: "'a::len word list"
  assumes "0 < n" "n \<le> length A" "n + e div LENGTH('a) < length R" "m \<le> length R"
    and m: "m \<le> n + e div LENGTH('a) + (if e mod LENGTH('a) = 0 then 0 else 1)" "e div LENGTH('a) \<le> m"
    and v: "bn_val (take n A) * 2 ^ e < 2 ^ (LENGTH('a) * m)"
  obtains R' where "BigNumLeftShift R m A n e = Some R'" "length R' = length R"
    "bn_val (take m R') = bn_val (take n A) * 2 ^ e"
proof (cases "e mod LENGTH('a) = 0")
  case False
  let ?w = "LENGTH('a)" and ?NW = "e div LENGTH('a)" and ?k = "e mod LENGTH('a)"
  let ?R = "replicate ?NW 0 @ shl_bits ?k 0 (take n A) @ drop (n + ?NW + 1) R"
  have "bn_val (replicate ?NW 0 @ shl_bits ?k 0 (take n A)) = 2 ^ (?w * ?NW) * 2 ^ ?k * bn_val (take n A)"
    using False by (simp add: bn_val_append bn_val_shl_bits)
  also have "\<dots> = bn_val (take n A) * 2 ^ e" by (simp flip: power_add)
  finally have f: "bn_val (replicate ?NW 0 @ shl_bits ?k 0 (take n A)) = bn_val (take n A) * 2 ^ e" .
  have "take m ?R = take m (replicate ?NW 0 @ shl_bits ?k 0 (take n A))"
    using m(1) False assms(2) by (simp add: min_def)
  then have "bn_val (take m ?R) = bn_val (take n A) * 2 ^ e"
    using bn_val_small_take[of "replicate ?NW 0 @ shl_bits ?k 0 (take n A)" m] f v by (simp only:)
  then show ?thesis using assms False
    by (intro that[of ?R]) (simp_all add: BigNumLeftShift_def OC_BN_WORD_NUM_BITS_def BigNumLeftShiftWordsAndBits_eq Let_def)
next
  case True
  let ?w = "LENGTH('a)" and ?NW = "e div LENGTH('a)"
  have e: "e = ?w * ?NW" using True by auto
  let ?R = "overwrite (overwrite R ?NW (take (m - ?NW) A)) 0 (replicate ?NW 0)"
  have mn: "m - ?NW \<le> n" "\<not> n < m - ?NW" "m - ?NW \<le> length A" using m True assms(2) by simp_all
  have R: "BigNumLeftShift R m A n e = Some ?R"
    using mn m(2) assms(4) True
    by (simp add: BigNumLeftShift_def OC_BN_WORD_NUM_BITS_def BigNumLeftShiftWords_def Let_def window_def)
  have t: "take m ?R = replicate ?NW 0 @ take (m - ?NW) A"
    using assms True by (simp add: overwrite_def)
  have "take (m - ?NW) A = take (m - ?NW) (take n A)" using m True by (simp add: min_def)
  moreover have "bn_val (take n A) < 2 ^ (?w * (m - ?NW))"
  proof -
    have "?w * m = ?w * (m - ?NW) + e" using m(2) by (subst (2) e) (simp flip: distrib_left)
    then have "2 ^ (?w * m) = 2 ^ (?w * (m - ?NW)) * (2 :: nat) ^ e" by (simp only: power_add)
    then show ?thesis using v by simp
  qed
  ultimately have "bn_val (take (m - ?NW) A) = bn_val (take n A)" using bn_val_small_take by metis
  then have "bn_val (take m ?R) = bn_val (take n A) * 2 ^ e" unfolding t
    using e by (simp add: bn_val_append mult.commute)
  then show ?thesis using R assms True by (intro that[of ?R]) simp_all
qed

section \<open>Byte order\<close>

text \<open>The value of a big-endian byte string.\<close>

definition be_val :: "byte list \<Rightarrow> nat" where
  "be_val bs = bn_val (rev bs)"

lemma be_val_Nil [simp]: "be_val [] = 0" by (simp add: be_val_def)

lemma be_val_append: "be_val (xs @ ys) = be_val xs * 2 ^ (8 * length ys) + be_val ys"
  by (simp add: be_val_def bn_val_append)

lemma be_val_snoc: "be_val (xs @ [b]) = be_val xs * 256 + unat b"
  by (simp add: be_val_append) (simp add: be_val_def)

lemma unat_word_of_be:
  "8 * length bs \<le> LENGTH('a) \<Longrightarrow> unat (word_of_be bs :: 'a::len word) = be_val bs"
proof (induction bs rule: rev_induct)
  case (snoc b bs)
  have b: "unat (ucast b :: 'a word) = unat b"
  proof -
    have "(2::nat) ^ 8 \<le> 2 ^ LENGTH('a)" using snoc.prems by (intro power_increasing) auto
    then show ?thesis using unat_less_2pow[of b] by (simp add: unat_ucast)
  qed
  have "be_val bs < 2 ^ (8 * length bs)" using bn_val_less[of "rev bs"] by (simp add: be_val_def)
  also have "\<dots> \<le> 2 ^ (LENGTH('a) - 8)" using snoc.prems by (intro power_increasing) auto
  finally have m: "be_val bs mod 2 ^ (LENGTH('a) - 8) = be_val bs" by simp
  have "unat (ucast b :: 'a word) < 2 ^ 8" using b unat_less_2pow[of b] by simp
  from or_disjoint_add[OF this, of "word_of_be bs"] snoc m b
  show ?case by (simp add: word_of_be_def be_val_snoc)
qed (simp add: word_of_be_def)

lemma be_val_words:
  assumes "length bs = s * n" "0 < s"
  shows "be_val bs = bn_val (map (\<lambda>k. word_of_be (window bs (length bs - (k + 1) * s) s) :: 'a::len word) [0..<n])
    \<or> 8 * s \<noteq> LENGTH('a)"
  using assms(1)
proof (induction n arbitrary: bs)
  case (Suc n)
  show ?case
  proof (cases "8 * s = LENGTH('a)")
    case True
    let ?hi = "take (s * n) bs" and ?lo = "drop (s * n) bs"
    have l: "length ?hi = s * n" "length ?lo = s" using Suc.prems by (simp_all add: algebra_simps)
    have "be_val bs = be_val ?hi * 2 ^ LENGTH('a) + be_val ?lo"
      using be_val_append[of ?hi ?lo] l True by simp
    moreover have "be_val ?lo = unat (word_of_be ?lo :: 'a word)" using l True by (simp add: unat_word_of_be)
    moreover have "be_val ?hi = bn_val (map (\<lambda>k. word_of_be (window ?hi (length ?hi - (k + 1) * s) s) :: 'a word) [0..<n])"
      using Suc.IH[OF l(1)] True by blast
    moreover have "map (\<lambda>k. word_of_be (window ?hi (length ?hi - (k + 1) * s) s) :: 'a word) [0..<n] =
        map (\<lambda>k. word_of_be (window bs (length bs - (Suc k + 1) * s) s)) [0..<n]"
    proof (rule map_cong[OF refl])
      fix k assume "k \<in> set [0..<n]"
      then have "Suc k * s \<le> s * n" by (simp add: mult.commute[of s] del: mult_Suc)
      then have "window ?hi (length ?hi - (k + 1) * s) s = window bs (length bs - (Suc k + 1) * s) s"
        using l(1) Suc.prems unfolding window_def
        by (simp add: drop_take algebra_simps)
      then show "word_of_be (window ?hi (length ?hi - (k + 1) * s) s) =
          (word_of_be (window bs (length bs - (Suc k + 1) * s) s) :: 'a word)" by simp
    qed
    moreover have "map (\<lambda>k. word_of_be (window bs (length bs - (k + 1) * s) s) :: 'a word) [0..<Suc n] =
        word_of_be ?lo # map (\<lambda>k. word_of_be (window bs (length bs - (Suc k + 1) * s) s)) [0..<n]"
    proof -
      have "window bs (length bs - (0 + 1) * s) s = ?lo" using Suc.prems l by (simp add: window_def)
      moreover have "[0..<Suc n] = 0 # map Suc [0..<n]" by (simp add: map_Suc_upt upt_conv_Cons del: upt_Suc)
      ultimately show ?thesis by (simp only: list.map map_map comp_def)
    qed
    ultimately show ?thesis by (simp only: bn_val.simps mult.commute add.commute simp_thms)
  qed simp
qed simp

lemma fold_update_eq_map:
  "n \<le> length R \<Longrightarrow> fold (\<lambda>k R. R[k := g k]) [0..<n] R = map g [0..<n] @ drop n R"
proof (induction n)
  case (Suc n)
  then show ?case by (simp add: list_update_append Cons_nth_drop_Suc[symmetric])
qed simp

lemma BigNumParseBuffer_val:
  fixes R :: "'a::len word list"
  assumes s: "8 dvd LENGTH('a)" and b: "length Buffer = n * OC_BN_WORD_SIZE TYPE('a)" and n: "n \<le> length R"
  shows "bn_val (take n (BigNumParseBuffer R n Buffer (length Buffer))) = be_val Buffer"
    and "drop n (BigNumParseBuffer R n Buffer (length Buffer)) = drop n R"
    and "length (BigNumParseBuffer R n Buffer (length Buffer)) = length R"
proof -
  have w: "0 < OC_BN_WORD_SIZE TYPE('a)" "8 * OC_BN_WORD_SIZE TYPE('a) = LENGTH('a)"
    using s len_gt_0[where 'a = 'a] by (auto simp: OC_BN_WORD_SIZE_def elim!: dvdE simp del: len_gt_0)
  have "length Buffer div OC_BN_WORD_SIZE TYPE('a) = n" using b w by simp
  then have "BigNumParseBuffer R n Buffer (length Buffer) =
      map (\<lambda>k. word_of_be (window Buffer (length Buffer - (k + 1) * OC_BN_WORD_SIZE TYPE('a)) (OC_BN_WORD_SIZE TYPE('a)))) [0..<n] @ drop n R"
    unfolding BigNumParseBuffer_def using fold_update_eq_map[OF n] by simp
  then show "bn_val (take n (BigNumParseBuffer R n Buffer (length Buffer))) = be_val Buffer"
    "drop n (BigNumParseBuffer R n Buffer (length Buffer)) = drop n R"
    "length (BigNumParseBuffer R n Buffer (length Buffer)) = length R"
    using be_val_words[of Buffer "OC_BN_WORD_SIZE TYPE('a)" n, where 'a = 'a] b w n by (auto simp: mult.commute)
qed

lemma bn_val_le_bytes:
  "bn_val (map (\<lambda>i. ucast (drop_bit (8 * i) (x :: 'a::len word)) :: byte) [0..<n]) = unat x mod 2 ^ (8 * n)"
proof (induction n)
  case (Suc n)
  have e: "(2::nat) ^ (8 * Suc n) = 2 ^ (8 * n) * 2 ^ 8" by (simp add: power_add)
  have "bn_val (map (\<lambda>i. ucast (drop_bit (8 * i) x) :: byte) [0..<Suc n]) =
     unat x mod 2 ^ (8 * n) + 2 ^ (8 * n) * (unat x div 2 ^ (8 * n) mod 2 ^ 8)"
    using Suc by (simp add: bn_val_append unat_ucast unat_drop_bit)
  also have "\<dots> = unat x mod 2 ^ (8 * Suc n)" unfolding e mod_mult2_eq by simp
  finally show ?case .
qed simp

text \<open>A word and its swap, byte string and reversed byte string.\<close>

lemma BigNumSwapWord_be:
  fixes x :: "'a::len word"
  assumes "8 dvd LENGTH('a)"
  shows "be_val (le_bytes (BigNumSwapWord x)) = unat x"
    and "unat (BigNumSwapWord x) = be_val (le_bytes x)"
    and "le_bytes (BigNumSwapWord x) = rev (le_bytes x)"
    and "be_val (rev (le_bytes x)) = unat x"
proof -
  have s: "8 * OC_BN_WORD_SIZE TYPE('a) = LENGTH('a)" using assms by (simp add: OC_BN_WORD_SIZE_def)
  have le: "bn_val (le_bytes y) = unat y" for y :: "'a word"
    unfolding le_bytes_def bn_val_le_bytes s by simp
  have l: "length (le_bytes y) = OC_BN_WORD_SIZE TYPE('a)" for y :: "'a word" by (simp add: le_bytes_def)
  show sw: "unat (BigNumSwapWord x) = be_val (le_bytes x)"
    unfolding BigNumSwapWord_def using s l by (simp add: unat_word_of_be)
  show "be_val (rev (le_bytes x)) = unat x" by (simp add: be_val_def le)
  show r: "le_bytes (BigNumSwapWord x) = rev (le_bytes x)"
    using l le sw by (intro bn_val_inject) (simp_all add: be_val_def)
  show "be_val (le_bytes (BigNumSwapWord x)) = unat x" by (simp add: r be_val_def le)
qed

lemma BigNumOrWord_zero:
  fixes A :: "'a::len word list"
  assumes "e < LENGTH('a) * n" "n \<le> length A" "bn_val (take n A) = 0"
  shows "bn_val (take n (BigNumOrWord A n 1 e)) = 2 ^ e" "length (BigNumOrWord A n 1 e) = length A"
proof -
  let ?w = "LENGTH('a)" and ?i = "e div LENGTH('a)"
  have i: "?i < n" using assms(1) by (simp add: less_mult_imp_div_less mult.commute)
  have z: "take n A = replicate n 0" using assms(2,3) by (intro bn_val_inject) simp_all
  have "A ! ?i = 0" using arg_cong[OF z, of "\<lambda>xs. xs ! ?i"] i assms(2) by simp
  then have "take n (BigNumOrWord A n 1 e) = (take n A)[?i := push_bit (e mod ?w) 1]"
    using i by (simp add: BigNumOrWord_def OC_BN_WORD_NUM_BITS_def take_update_swap)
  also have "\<dots> = replicate ?i 0 @ push_bit (e mod ?w) 1 # replicate (n - Suc ?i) 0"
    unfolding z using i by (simp add: upd_conv_take_nth_drop)
  finally have "bn_val (take n (BigNumOrWord A n 1 e)) = 2 ^ (?w * ?i) * unat (push_bit (e mod ?w) (1 :: 'a word))"
    by (simp add: bn_val_append)
  also have "unat (push_bit (e mod ?w) (1 :: 'a word)) = 2 ^ (e mod ?w)"
    by (simp only: unat_push_bit unat_1 mult_1) simp
  also have "2 ^ (?w * ?i) * (2 :: nat) ^ (e mod ?w) = 2 ^ e" by (simp flip: power_add)
  finally show "bn_val (take n (BigNumOrWord A n 1 e)) = 2 ^ e" .
  show "length (BigNumOrWord A n 1 e) = length A" by (simp add: BigNumOrWord_def Let_def)
qed

section \<open>Properties\<close>

text \<open>
  The two implementations of the 64-bit word product agree on all inputs, and the pair they
  return is the full 128-bit product.
\<close>

theorem BigNumWordMul64_variants_agree:
  "BigNumWordMul64_Cpu32 A B = BigNumWordMul64_Cpu64 A B \<and>
   (case BigNumWordMul64_Cpu64 A B of (Hi, Lo) \<Rightarrow> unat Hi * 2 ^ 64 + unat Lo = unat A * unat B)"
proof -
  obtain h l where a: "BigNumWordMul64_Cpu64 A B = (h, l)" by fastforce
  obtain h' l' where b: "BigNumWordMul64_Cpu32 A B = (h', l')" by fastforce
  have e: "unat h * 2 ^ 64 + unat l = unat A * unat B" "unat h' * 2 ^ 64 + unat l' = unat A * unat B"
    using WordMul_Cpu64[OF a] WordMul_Cpu32[OF b] by simp_all
  have lt: "unat l < 2 ^ 64" "unat l' < 2 ^ 64" using unat_less_2pow[of l] unat_less_2pow[of l'] by simp_all
  have "unat l = (unat A * unat B) mod 2 ^ 64" unfolding e(1)[symmetric] using lt(1) by simp
  moreover have "unat l' = (unat A * unat B) mod 2 ^ 64" unfolding e(2)[symmetric] using lt(2) by simp
  ultimately have "unat l = unat l'" by simp
  moreover from this have "unat h * 2 ^ 64 = unat h' * 2 ^ 64" using e by linarith
  ultimately have "h = h'" "l = l'" by (simp_all add: word_unat_eq_iff)
  then show ?thesis using a b e by simp
qed

text \<open>
  \<open>BigNumSub\<close> computes the difference modulo \<open>2^(w * NumWords)\<close>, leaves the words behind
  \<open>NumWords\<close> alone, and gives the same buffer when the result is written over the minuend, as its
  comment promises.
\<close>

theorem BigNumSub_correct:
  fixes A B Result :: "'a::len word list"
  assumes "NumWords \<le> length A" "NumWords \<le> length B" "NumWords \<le> length Result"
  shows "(int (bn_val (take NumWords (BigNumSub Result NumWords A B))) =
      (int (bn_val (take NumWords A)) - int (bn_val (take NumWords B))) mod 2 ^ (LENGTH('a) * NumWords)) \<and>
     (drop NumWords (BigNumSub Result NumWords A B) = drop NumWords Result) \<and>
     (BigNumSub_inplace A NumWords B = BigNumSub A NumWords A B)"
  using BigNumSub_val[OF assms] BigNumSub_inplace_eq[OF assms(1)] by simp_all

theorem BigNumSub_correct_witness:
  "int (bn_val (take 2 (BigNumSub [0, 0, 7 :: byte] 2 [1, 2, 3] [2, 1, 0]))) = 255 \<and>
   drop 2 (BigNumSub [0, 0, 7 :: byte] 2 [1, 2, 3] [2, 1, 0]) = [7]"
  using BigNumSub_correct[of 2 "[1, 2, 3 :: byte]" "[2, 1, 0]" "[0, 0, 7]"] by simp

text \<open>
  \<open>BigNumCmp\<close> is the sign of the difference of the two numbers, and \<open>BigNumSignificantBits\<close> the
  length of the binary representation: the least \<open>k\<close> with the number below \<open>2^k\<close>.
\<close>

theorem BigNumCmp_SignificantBits_correct:
  fixes A B :: "'a::len word list"
  assumes "0 < NumWords" "NumWords \<le> length A" "NumWords \<le> length B"
  shows "(BigNumCmp A NumWords B = sgn (int (bn_val (take NumWords A)) - int (bn_val (take NumWords B)))) \<and>
     (BigNumSignificantBits A NumWords \<le> k \<longleftrightarrow> bn_val (take NumWords A) < 2 ^ k)"
  using assms by (simp_all add: BigNumCmp_val BigNumSignificantBits_val bit_len_le_iff)

theorem BigNumCmp_SignificantBits_witness:
  "BigNumCmp [5, 1 :: u64] 2 [9, 1] = -1 \<and> BigNumSignificantBits [5, 1 :: u64] 2 \<le> 65"
  using BigNumCmp_SignificantBits_correct[of 2 "[5, 1 :: u64]" "[9, 1]" 65] by simp

text \<open>
  The in-place right shift divides by \<open>2^Exponent\<close> and touches nothing behind the number; the
  left shift multiplies by \<open>2^Exponent\<close> without leaving its buffers, when the result fits in
  \<open>NumWordsResult\<close> words.
\<close>

theorem BigNumShift_correct:
  fixes A Result :: "'a::len word list"
  assumes "0 < NumWordsA" "NumWordsA \<le> length A" and e: "e < LENGTH('a) * NumWordsA"
    and r: "NumWordsA + e div LENGTH('a) < length Result" "NumWordsResult \<le> length Result"
      "NumWordsResult \<le> NumWordsA + e div LENGTH('a) + (if e mod LENGTH('a) = 0 then 0 else 1)"
      "e div LENGTH('a) \<le> NumWordsResult"
    and fits: "bn_val (take NumWordsA A) * 2 ^ e < 2 ^ (LENGTH('a) * NumWordsResult)"
  shows "(bn_val (take NumWordsA (BigNumRightShift A NumWordsA e)) = bn_val (take NumWordsA A) div 2 ^ e) \<and>
     (drop NumWordsA (BigNumRightShift A NumWordsA e) = drop NumWordsA A) \<and>
     (\<exists>R. BigNumLeftShift Result NumWordsResult A NumWordsA e = Some R \<and> length R = length Result \<and>
      bn_val (take NumWordsResult R) = bn_val (take NumWordsA A) * 2 ^ e)"
  using BigNumRightShift_val(1,3)[OF assms(2) e] BigNumLeftShift_val[OF assms(1,2) r fits] by metis

theorem BigNumShift_correct_witness:
  "bn_val (take 2 (BigNumRightShift [3, 5, 1 :: byte] 2 9)) = 2 \<and>
   (\<exists>R. BigNumLeftShift [0, 0, 0, 0, 0 :: byte] 4 [3, 5, 1] 2 9 = Some R \<and> bn_val (take 4 R) = 1283 * 512)"
  using BigNumShift_correct[of 2 "[3, 5, 1 :: byte]" 9 "[0, 0, 0, 0, 0]" 4] by auto

text \<open>
  Parsing a big-endian byte buffer gives the number the bytes denote, for both word sizes;
  the byte swap of a word reverses its bytes in memory.
\<close>

theorem BigNumParseBuffer_correct:
  fixes Result :: "'a::len word list"
  assumes "8 dvd LENGTH('a)" "length Buffer = NumWords * OC_BN_WORD_SIZE TYPE('a)" "NumWords \<le> length Result"
  shows "(bn_val (take NumWords (BigNumParseBuffer Result NumWords Buffer (length Buffer))) = be_val Buffer) \<and>
     (drop NumWords (BigNumParseBuffer Result NumWords Buffer (length Buffer)) = drop NumWords Result) \<and>
     (le_bytes (BigNumSwapWord (Word :: 'a word)) = rev (le_bytes Word))"
  using BigNumParseBuffer_val[OF assms] BigNumSwapWord_be(3)[OF assms(1)] by simp_all

theorem BigNumParseBuffer_correct_witness:
  "bn_val (take 2 (BigNumParseBuffer [0, 0 :: u32] 2 [1, 2, 3, 4, 5, 6, 7, 8] (length [1, 2, 3, 4, 5, 6, 7, 8 :: byte]))) =
     be_val [1, 2, 3, 4, 5, 6, 7, 8]"
  by (rule BigNumParseBuffer_correct[where 'a = 32, THEN conjunct1]) (simp_all add: OC_BN_WORD_SIZE_def)

end
