(* ===== verification/Oc_BigNumMod.thy ===== *)
theory Oc_BigNumMod
  imports Oc_BigNum
begin

unbundle bit_operations_syntax

text \<open>
  Model of \<open>BigNumMod\<close> of \<^verbatim>\<open>Library/OcCryptoLib/BigNumPrimitives.c\<close>: the shift-and-subtract
  reduction of a number \<open>A\<close> modulo \<open>B\<close>. The record holds the local variables the loop changes; the
  two halves of the caller's scratch buffer, \<open>ModTmp\<close> and \<open>BigDiv\<close>, are two fields. The loop is shown
  to end and to leave the remainder in \<open>ModTmp\<close>.
\<close>

section \<open>The code\<close>

record 'w mod_state =
  ModTmp :: "'w list"
  SigWordsModTmp :: nat
  BigDiv :: "'w list"
  SigWordsBigDiv :: nat
  SigBitsBigDiv :: nat
  BigDivExp :: nat

text \<open>
  The primitives with every access to a buffer checked: reading or writing outside is \<open>None\<close>. Inside
  the buffers they return what the functions of the same name in \<open>Oc_BigNum\<close> do.
\<close>

fun BigNumCmp_checked :: "'a::len word list \<Rightarrow> nat \<Rightarrow> 'a word list \<Rightarrow> int option" where
  "BigNumCmp_checked A 0 B = Some 0"
| "BigNumCmp_checked A (Suc Index) B =
     do {
       AI \<leftarrow> rd A Index;
       BI \<leftarrow> rd B Index;
       if AI > BI then Some 1
       else if AI < BI then Some (-1)
       else BigNumCmp_checked A Index B
     }"

definition BigNumSub_checked :: "'a::len word list \<Rightarrow> nat \<Rightarrow> 'a word list \<Rightarrow> 'a word list option" where
  "BigNumSub_checked Result NumWords B =
     map_option snd (fold_checked (\<lambda>Index st. case st of (Borrow, R) \<Rightarrow> do {
       Tmp1 \<leftarrow> rd R Index;
       BI \<leftarrow> rd B Index;
       let Tmp2 = BI + ucast (Borrow :: byte);
           TmpResult = Tmp1 - Tmp2;
           Borrow = (if Tmp2 < ucast Borrow \<or> Tmp1 < TmpResult then 1 else 0)
       in do { R' \<leftarrow> wr R Index TmpResult; Some (Borrow, R') }
     }) [0..<NumWords] (0, Result))"

fun BigNumMostSignificantWord_checked :: "'a::len word list \<Rightarrow> nat \<Rightarrow> nat option" where
  "BigNumMostSignificantWord_checked A 0 = Some 0"
| "BigNumMostSignificantWord_checked A (Suc Index) =
     do { x \<leftarrow> rd A Index; if x \<noteq> 0 then Some Index else BigNumMostSignificantWord_checked A Index }"

definition BigNumRightShiftWords_checked :: "'a::len word list \<Rightarrow> nat \<Rightarrow> nat \<Rightarrow> 'a word list option" where
  "BigNumRightShiftWords_checked A NumWords Exponent =
     (if Exponent \<le> NumWords then do {
        C \<leftarrow> rd_block A Exponent (NumWords - Exponent);
        R1 \<leftarrow> wr_block A 0 C;
        wr_block R1 (NumWords - Exponent) (replicate Exponent 0)
      } else None)"

definition BigNumRightShiftBitsSmall_checked :: "'a::len word list \<Rightarrow> nat \<Rightarrow> nat \<Rightarrow> 'a word list option" where
  "BigNumRightShiftBitsSmall_checked A NumWords Exponent =
     (let WB = OC_BN_WORD_NUM_BITS TYPE('a)
      in do {
        A1 \<leftarrow> fold_checked (\<lambda>Index R. do {
                x \<leftarrow> rd R Index;
                y \<leftarrow> rd R (Index + 1);
                wr R Index (drop_bit Exponent x OR push_bit (WB - Exponent) y)
              }) [0..<NumWords - 1] A;
        x \<leftarrow> rd A1 (NumWords - 1);
        wr A1 (NumWords - 1) (drop_bit Exponent x)
      })"

definition BigNumRightShiftWordsAndBits_checked ::
  "'a::len word list \<Rightarrow> nat \<Rightarrow> nat \<Rightarrow> nat \<Rightarrow> 'a word list option" where
  "BigNumRightShiftWordsAndBits_checked A NumWordsA NumWords NumBits =
     (let WB = OC_BN_WORD_NUM_BITS TYPE('a);
          Index = max NumWords (NumWordsA - 1)
      in do {
        R1 \<leftarrow> fold_checked (\<lambda>Index R. do {
                x \<leftarrow> rd R Index;
                y \<leftarrow> rd R (Index + 1);
                wr R (Index - NumWords) (drop_bit NumBits x OR push_bit (WB - NumBits) y)
              }) [NumWords..<NumWordsA - 1] A;
        x \<leftarrow> rd R1 (NumWordsA - 1);
        R2 \<leftarrow> wr R1 (Index - NumWords) (drop_bit NumBits x);
        wr_block R2 (Index - NumWords + 1) (replicate (NumWordsA - (Index - NumWords + 1)) 0)
      })"

definition BigNumRightShift_checked :: "'a::len word list \<Rightarrow> nat \<Rightarrow> nat \<Rightarrow> 'a word list option" where
  "BigNumRightShift_checked A NumWordsA Exponent =
     (let NumWords = Exponent div OC_BN_WORD_NUM_BITS TYPE('a);
          NumBits = Exponent mod OC_BN_WORD_NUM_BITS TYPE('a)
      in if NumBits \<noteq> 0 then BigNumRightShiftWordsAndBits_checked A NumWordsA NumWords NumBits
         else BigNumRightShiftWords_checked A NumWordsA NumWords)"

text \<open>
  One pass of the \<open>while (TRUE)\<close> loop; \<open>None\<close> is an access outside \<open>ModTmp\<close> or \<open>BigDiv\<close>, or a word or
  bit count that would become negative.
\<close>

definition BigNumMod_body ::
  "'a::len word mod_state \<Rightarrow> ('a word mod_state, 'a word mod_state) ctl option" where
  "BigNumMod_body s =
     (let WB = OC_BN_WORD_NUM_BITS TYPE('a)
      in do {
        CmpResult \<leftarrow> (if SigWordsModTmp s > SigWordsBigDiv s then Some 1
                      else BigNumCmp_checked (ModTmp s) (SigWordsBigDiv s) (BigDiv s));
        if CmpResult \<ge> 0 then do {
          M \<leftarrow> BigNumSub_checked (ModTmp s) (SigWordsModTmp s) (BigDiv s);
          let s1 = s\<lparr>ModTmp := M\<rparr>
          in if BigDivExp s1 = 0 then Some (Break s1)
             else do {
               Msw \<leftarrow> BigNumMostSignificantWord_checked (ModTmp s1) (SigWordsModTmp s1);
               x \<leftarrow> rd (ModTmp s1) Msw;
               let SigBitsModTmp = Msw * WB + BigNumSignificantBitsWord x;
                   s2 = s1\<lparr>SigWordsModTmp := Msw + 1\<rparr>;
                   DeltaBits = SigBitsBigDiv s2 - SigBitsModTmp
               in if SigBitsModTmp > SigBitsBigDiv s2 then None
                  else if DeltaBits > BigDivExp s2 then Some (Break s2)
                  else do {
                    D \<leftarrow> BigNumRightShift_checked (BigDiv s2) (SigWordsBigDiv s2) DeltaBits;
                    Some (Continue (s2\<lparr>
                      BigDiv := D,
                      SigWordsBigDiv := (SigBitsModTmp + (WB - 1)) div WB,
                      SigBitsBigDiv := SigBitsModTmp,
                      BigDivExp := BigDivExp s2 - DeltaBits\<rparr>))
                  }
             }
        }
        else if BigDivExp s = 0 then Some (Break s)
        else if SigBitsBigDiv s = 0 then None
        else do {
          D \<leftarrow> BigNumRightShiftBitsSmall_checked (BigDiv s) (SigWordsBigDiv s) 1;
          let s1 = s\<lparr>BigDiv := D, SigBitsBigDiv := SigBitsBigDiv s - 1, BigDivExp := BigDivExp s - 1\<rparr>
          in Some (Continue (if SigBitsBigDiv s1 mod WB = 0
                             then s1\<lparr>SigWordsBigDiv := SigWordsBigDiv s1 - 1\<rparr> else s1))
        }
      })"

text \<open>
  The whole function. The caller's scratch buffer is split at \<open>SigWordsModTmp\<close>: \<open>ModTmp\<close> is the first
  part and \<open>BigDiv\<close> the rest, and an access of \<open>ModTmp\<close> behind the first part counts as an access
  outside, too. \<open>None\<close> is an access outside a buffer or a loop that does not end. The result is the
  first \<open>NumWordsRest\<close> words of the scratch buffer.
\<close>

definition BigNumMod ::
  "nat \<Rightarrow> 'a::len word list \<Rightarrow> nat \<Rightarrow> 'a word list \<Rightarrow> 'a word list \<Rightarrow> 'a word list option" where
  "BigNumMod NumWordsRest A NumWordsA B Scratch =
     (let WB = OC_BN_WORD_NUM_BITS TYPE('a)
      in do {
        Msw \<leftarrow> BigNumMostSignificantWord_checked A NumWordsA;
        x \<leftarrow> rd A Msw;
        let SigBitsModTmp = Msw * WB + BigNumSignificantBitsWord x;
            SigWordsModTmp = Msw + 1
        in do {
          C \<leftarrow> rd_block A 0 SigWordsModTmp;
          ModTmp \<leftarrow> wr_block (take SigWordsModTmp Scratch) 0 C;
          MswB \<leftarrow> BigNumMostSignificantWord_checked B NumWordsRest;
          y \<leftarrow> rd B MswB;
          let SigBitsBigDiv = MswB * WB + BigNumSignificantBitsWord y;
              BigDivExp = SigBitsModTmp - SigBitsBigDiv
          in do {
            BigDiv \<leftarrow> BigNumLeftShift (drop SigWordsModTmp Scratch) SigWordsModTmp B NumWordsRest BigDivExp;
            s \<leftarrow> Option.bind (iterate (checked BigNumMod_body)
                  \<lparr>ModTmp = ModTmp, SigWordsModTmp = SigWordsModTmp, BigDiv = BigDiv,
                   SigWordsBigDiv = SigWordsModTmp, SigBitsBigDiv = SigBitsModTmp, BigDivExp = BigDivExp\<rparr>) id;
            rd_block (mod_state.ModTmp s @ mod_state.BigDiv s) 0 NumWordsRest
          }
        }
      })"

section \<open>Inside the buffers\<close>

lemma BigNumCmp_checked_Some:
  "n \<le> length A \<Longrightarrow> n \<le> length B \<Longrightarrow> BigNumCmp_checked A n B = Some (BigNumCmp A n B)"
  by (induction n) auto

lemma BigNumMostSignificantWord_checked_Some:
  "n \<le> length A \<Longrightarrow> BigNumMostSignificantWord_checked A n = Some (BigNumMostSignificantWord A n)"
  by (induction n) auto

lemma BigNumSub_checked_Some:
  assumes "n \<le> length R" "n \<le> length B"
  shows "BigNumSub_checked R n B = Some (BigNumSub_inplace R n B)"
  unfolding BigNumSub_checked_def BigNumSub_inplace_def
  using assms
  by (subst fold_checked_fold[where I = "\<lambda>st. length (snd st) = length R" and g = "\<lambda>Index st. BigNumSub_step (snd st) B Index st"])
    (auto simp: BigNumSub_step_def Let_def)

lemma BigNumRightShiftWords_checked_Some:
  "n \<le> length A \<Longrightarrow> e \<le> n \<Longrightarrow> BigNumRightShiftWords_checked A n e = Some (BigNumRightShiftWords A n e)"
  by (simp add: BigNumRightShiftWords_checked_def BigNumRightShiftWords_def)

lemma BigNumRightShiftBitsSmall_checked_Some:
  fixes A :: "'a::len word list"
  assumes "n \<le> length A" "0 < n"
  shows "BigNumRightShiftBitsSmall_checked A n k = Some (BigNumRightShiftBitsSmall A n k)"
proof -
  let ?g = "\<lambda>Index R. R[Index := drop_bit k (R ! Index) OR push_bit (LENGTH('a) - k) (R ! (Index + 1))]"
  have l: "length (fold ?g xs R) = length R" for xs and R :: "'a word list" by (induction xs arbitrary: R) auto
  have "fold_checked (\<lambda>Index R. do { x \<leftarrow> rd R Index; y \<leftarrow> rd R (Index + 1);
      wr R Index (drop_bit k x OR push_bit (LENGTH('a) - k) y) }) [0..<n - 1] A = Some (fold ?g [0..<n - 1] A)"
    using assms by (intro fold_checked_fold[where I = "\<lambda>S. length S = length A"]) auto
  then show ?thesis using assms l
    by (simp add: BigNumRightShiftBitsSmall_checked_def BigNumRightShiftBitsSmall_def OC_BN_WORD_NUM_BITS_def Let_def)
qed

lemma BigNumRightShiftWordsAndBits_checked_Some:
  fixes A :: "'a::len word list"
  assumes "n \<le> length A" "0 < n"
  shows "BigNumRightShiftWordsAndBits_checked A n NW k = Some (BigNumRightShiftWordsAndBits A n NW k)"
proof -
  let ?g = "\<lambda>Index R. R[Index - NW := drop_bit k (R ! Index) OR push_bit (LENGTH('a) - k) (R ! (Index + 1))]"
  have l: "length (fold ?g xs R) = length R" for xs and R :: "'a word list" by (induction xs arbitrary: R) auto
  have "fold_checked (\<lambda>Index R. do { x \<leftarrow> rd R Index; y \<leftarrow> rd R (Index + 1);
      wr R (Index - NW) (drop_bit k x OR push_bit (LENGTH('a) - k) y) }) [NW..<n - 1] A = Some (fold ?g [NW..<n - 1] A)"
    using assms by (intro fold_checked_fold[where I = "\<lambda>S. length S = length A"]) auto
  moreover have "max NW (n - 1) - NW < length A" "Suc (max NW (n - 1) - NW) + (n - Suc (max NW (n - 1) - NW)) \<le> length A"
    using assms by auto
  ultimately show ?thesis using assms l
    by (simp add: BigNumRightShiftWordsAndBits_checked_def BigNumRightShiftWordsAndBits_def OC_BN_WORD_NUM_BITS_def Let_def)
qed

lemma BigNumRightShift_checked_Some:
  fixes A :: "'a::len word list"
  assumes "n \<le> length A" "0 < n" "e \<le> LENGTH('a) * n"
  shows "BigNumRightShift_checked A n e = Some (BigNumRightShift A n e)"
proof -
  have "e div LENGTH('a) \<le> n" using div_le_mono[OF assms(3), of "LENGTH('a)"] by simp
  then show ?thesis using assms
    by (simp add: BigNumRightShift_checked_def BigNumRightShift_def OC_BN_WORD_NUM_BITS_def Let_def
        BigNumRightShiftWords_checked_Some BigNumRightShiftWordsAndBits_checked_Some)
qed

text \<open>The pass as a function of values, without the checks.\<close>

definition mod_pass :: "'a::len word mod_state \<Rightarrow> ('a word mod_state, 'a word mod_state) ctl" where
  "mod_pass s =
     (let WB = OC_BN_WORD_NUM_BITS TYPE('a);
          CmpResult = (if SigWordsModTmp s > SigWordsBigDiv s then 1
                       else BigNumCmp (ModTmp s) (SigWordsBigDiv s) (BigDiv s))
      in if CmpResult \<ge> 0 then
           (let s1 = s\<lparr>ModTmp := BigNumSub_inplace (ModTmp s) (SigWordsModTmp s) (BigDiv s)\<rparr>
            in if BigDivExp s1 = 0 then Break s1
               else
                 (let Msw = BigNumMostSignificantWord (ModTmp s1) (SigWordsModTmp s1);
                      SigBitsModTmp = Msw * WB + BigNumSignificantBitsWord (ModTmp s1 ! Msw);
                      s2 = s1\<lparr>SigWordsModTmp := Msw + 1\<rparr>;
                      DeltaBits = SigBitsBigDiv s2 - SigBitsModTmp
                  in if DeltaBits > BigDivExp s2 then Break s2
                     else Continue (s2\<lparr>
                       BigDiv := BigNumRightShift (BigDiv s2) (SigWordsBigDiv s2) DeltaBits,
                       SigWordsBigDiv := (SigBitsModTmp + (WB - 1)) div WB,
                       SigBitsBigDiv := SigBitsModTmp,
                       BigDivExp := BigDivExp s2 - DeltaBits\<rparr>)))
         else if BigDivExp s = 0 then Break s
         else
           (let s1 = s\<lparr>BigDiv := BigNumRightShiftBitsSmall (BigDiv s) (SigWordsBigDiv s) 1,
                       SigBitsBigDiv := SigBitsBigDiv s - 1,
                       BigDivExp := BigDivExp s - 1\<rparr>
            in Continue (if SigBitsBigDiv s1 mod WB = 0
                         then s1\<lparr>SigWordsBigDiv := SigWordsBigDiv s1 - 1\<rparr> else s1)))"

section \<open>The loop\<close>

lemma BigNumMostSignificantWord_nonzero: "0 < BigNumMostSignificantWord A n \<Longrightarrow> A ! BigNumMostSignificantWord A n \<noteq> 0"
  by (induction n) (auto split: if_splits)

text \<open>The invariant: \<open>BigDiv = B * 2^BigDivExp\<close>, \<open>ModTmp < 2 * BigDiv\<close> and \<open>ModTmp\<close> is congruent to \<open>A\<close>
  modulo \<open>B\<close>; the word and bit counts are exact.\<close>

definition mod_inv :: "nat \<Rightarrow> nat \<Rightarrow> nat \<Rightarrow> 'a::len word mod_state \<Rightarrow> bool" where
  "mod_inv b r l s \<longleftrightarrow>
     0 < b \<and> length (ModTmp s) = l \<and> 0 < SigWordsModTmp s \<and> SigWordsModTmp s \<le> l \<and> SigWordsBigDiv s \<le> l \<and>
     l \<le> length (BigDiv s) \<and>
     bn_val (ModTmp s) < 2 ^ (LENGTH('a) * SigWordsModTmp s) \<and>
     (1 < SigWordsModTmp s \<longrightarrow> 2 ^ (LENGTH('a) * (SigWordsModTmp s - 1)) \<le> bn_val (ModTmp s)) \<and>
     bn_val (take (max (SigWordsBigDiv s) (SigWordsModTmp s)) (BigDiv s)) = b * 2 ^ BigDivExp s \<and>
     SigBitsBigDiv s = bit_len (b * 2 ^ BigDivExp s) \<and>
     SigWordsBigDiv s = (SigBitsBigDiv s + (LENGTH('a) - 1)) div LENGTH('a) \<and>
     bn_val (ModTmp s) < 2 * (b * 2 ^ BigDivExp s) \<and> bn_val (ModTmp s) mod b = r"

lemma ceil_words_upper: "0 < w \<Longrightarrow> n < 2 ^ k \<Longrightarrow> n < (2::nat) ^ (w * ((k + (w - 1)) div w))"
proof -
  assume w: "0 < w" and n: "n < 2 ^ k"
  have "k + (w - 1) = w * ((k + (w - 1)) div w) + (k + (w - 1)) mod w" by simp
  moreover have "(k + (w - 1)) mod w \<le> w - 1" using mod_less_divisor[OF w, of "k + (w - 1)"] by linarith
  ultimately have "k \<le> w * ((k + (w - 1)) div w)" by linarith
  then have "(2::nat) ^ k \<le> 2 ^ (w * ((k + (w - 1)) div w))" by (intro power_increasing) auto
  with n show ?thesis by linarith
qed

lemma ceil_words_eq: "0 < w \<Longrightarrow> 0 < k \<Longrightarrow> k \<le> w \<Longrightarrow> (i * w + k + (w - 1)) div w = Suc (i :: nat)"
proof -
  assume "0 < w" "0 < k" "k \<le> w"
  then have "i * w + k + (w - 1) = Suc i * w + (k - 1)" "k - 1 < w" by auto
  then show ?thesis by (metis add.right_neutral div_less div_mult_self3 \<open>0 < w\<close> less_numeral_extra(3) add.commute)
qed

lemma ceil_words_pred:
  assumes "0 < (w :: nat)"
  shows "(x + (w - 1)) div w = (if x mod w = 0 then (Suc x + (w - 1)) div w - 1 else (Suc x + (w - 1)) div w)"
proof (cases "x mod w = 0")
  case True
  then have x: "x = x div w * w" by auto
  have "(Suc x + (w - 1)) div w = Suc (x div w)"
    using ceil_words_eq[of w 1 "x div w"] assms x by simp
  moreover have "(x div w * w + (w - 1)) div w = x div w"
    using assms by (simp add: add.commute[of "x div w * w"] del: add_diff_assoc add_diff_assoc2)
  ultimately show ?thesis using True x by (simp del: add_diff_assoc)
next
  case False
  then have m: "0 < x mod w" "Suc (x mod w) \<le> w" using assms by (simp_all add: Suc_le_eq)
  have "(x div w * w + x mod w + (w - 1)) div w = Suc (x div w)"
    using m by (intro ceil_words_eq) simp_all
  moreover have "(x div w * w + Suc (x mod w) + (w - 1)) div w = Suc (x div w)"
    using m by (intro ceil_words_eq) simp_all
  ultimately show ?thesis using False by simp
qed

lemma mod_invD:
  fixes s :: "'a::len word mod_state"
  assumes "mod_inv b r l s"
  shows "0 < b" "length (ModTmp s) = l" "0 < SigWordsModTmp s" "SigWordsModTmp s \<le> l" "SigWordsBigDiv s \<le> l"
    and mod_inv_len: "l \<le> length (BigDiv s)"
    and mod_inv_M_less: "bn_val (ModTmp s) < 2 ^ (LENGTH('a) * SigWordsModTmp s)"
    and mod_inv_M_ge: "1 < SigWordsModTmp s \<Longrightarrow> 2 ^ (LENGTH('a) * (SigWordsModTmp s - 1)) \<le> bn_val (ModTmp s)"
    and mod_inv_max: "bn_val (take (max (SigWordsBigDiv s) (SigWordsModTmp s)) (BigDiv s)) = b * 2 ^ BigDivExp s"
    and mod_inv_bits: "SigBitsBigDiv s = bit_len (b * 2 ^ BigDivExp s)"
    and mod_inv_words: "SigWordsBigDiv s = (SigBitsBigDiv s + (LENGTH('a) - 1)) div LENGTH('a)"
    and mod_inv_double: "bn_val (ModTmp s) < 2 * (b * 2 ^ BigDivExp s)"
    and mod_inv_mod: "bn_val (ModTmp s) mod b = r"
  using assms unfolding mod_inv_def by blast+

lemma mod_inv_D_less:
  fixes s :: "'a::len word mod_state"
  assumes "mod_inv b r l s"
  shows "b * 2 ^ BigDivExp s < 2 ^ (LENGTH('a) * SigWordsBigDiv s)"
  unfolding mod_inv_words[OF assms] mod_inv_bits[OF assms] by (intro ceil_words_upper len_gt_0 bit_len_upper)

lemma mod_inv_D_take:
  fixes s :: "'a::len word mod_state"
  assumes "mod_inv b r l s" "n \<le> max (SigWordsBigDiv s) (SigWordsModTmp s)" "b * 2 ^ BigDivExp s < 2 ^ (LENGTH('a) * n)"
  shows "bn_val (take n (BigDiv s)) = b * 2 ^ BigDivExp s"
proof -
  let ?X = "take (max (SigWordsBigDiv s) (SigWordsModTmp s)) (BigDiv s)"
  have "bn_val (take n ?X) = bn_val ?X" using assms(3) mod_inv_max[OF assms(1)] by (intro bn_val_small_take) simp
  moreover have "take n ?X = take n (BigDiv s)" using assms(2) by (simp only: take_take min_absorb1)
  ultimately show ?thesis using mod_inv_max[OF assms(1)] by (simp only:)
qed

lemma mod_inv_cmp:
  fixes s :: "'a::len word mod_state"
  assumes I: "mod_inv b r l s"
  shows "0 \<le> (if SigWordsModTmp s > SigWordsBigDiv s then 1 else BigNumCmp (ModTmp s) (SigWordsBigDiv s) (BigDiv s)) \<longleftrightarrow>
    b * 2 ^ BigDivExp s \<le> bn_val (ModTmp s)"
proof (cases "SigWordsModTmp s > SigWordsBigDiv s")
  case True
  then have "(2::nat) ^ (LENGTH('a) * SigWordsBigDiv s) \<le> 2 ^ (LENGTH('a) * (SigWordsModTmp s - 1))"
    by (intro power_increasing mult_le_mono2) auto
  moreover have "0 < SigWordsBigDiv s"
    using mod_inv_D_less[OF I] mod_invD(1)[OF I] by (cases "SigWordsBigDiv s") auto
  ultimately have "b * 2 ^ BigDivExp s \<le> bn_val (ModTmp s)"
    using True mod_inv_M_ge[OF I] mod_inv_D_less[OF I] by linarith
  then show ?thesis using True by simp
next
  case False
  then have "(2::nat) ^ (LENGTH('a) * SigWordsModTmp s) \<le> 2 ^ (LENGTH('a) * SigWordsBigDiv s)"
    by (intro power_increasing mult_le_mono2) auto
  then have "bn_val (take (SigWordsBigDiv s) (ModTmp s)) = bn_val (ModTmp s)"
    using mod_inv_M_less[OF I] by (intro bn_val_small_take) linarith
  moreover have "SigWordsBigDiv s \<le> length (ModTmp s)" "SigWordsBigDiv s \<le> length (BigDiv s)"
    using mod_invD(2,5,6)[OF I] by linarith+
  ultimately show ?thesis using False mod_inv_D_take[OF I _ mod_inv_D_less[OF I]] by (simp add: BigNumCmp_ge_0)
qed

lemma mod_inv_sub:
  fixes s :: "'a::len word mod_state"
  assumes I: "mod_inv b r l s" and ge: "b * 2 ^ BigDivExp s \<le> bn_val (ModTmp s)"
  defines "R \<equiv> BigNumSub_inplace (ModTmp s) (SigWordsModTmp s) (BigDiv s)"
  shows "length R = l" "bn_val R = bn_val (ModTmp s) - b * 2 ^ BigDivExp s"
    "bn_val (take (SigWordsModTmp s) R) = bn_val R"
proof -
  let ?n = "SigWordsModTmp s"
  have n: "?n \<le> length (ModTmp s)" "?n \<le> length (BigDiv s)" using mod_invD(2,4,6)[OF I] by linarith+
  have R: "R = BigNumSub (ModTmp s) ?n (ModTmp s) (BigDiv s)" unfolding R_def using n by (simp add: BigNumSub_inplace_eq)
  have "b * 2 ^ BigDivExp s < 2 ^ (LENGTH('a) * ?n)" using ge mod_inv_M_less[OF I] by linarith
  then have D: "bn_val (take ?n (BigDiv s)) = b * 2 ^ BigDivExp s" using mod_inv_D_take[OF I] by simp
  have M: "bn_val (take ?n (ModTmp s)) = bn_val (ModTmp s)" using mod_inv_M_less[OF I] by (rule bn_val_small_take)
  have v: "bn_val (take ?n R) = bn_val (ModTmp s) - b * 2 ^ BigDivExp s"
    unfolding R using BigNumSub_val_ge[OF n(1,2,1)] D ge M by simp
  show l: "length R = l" using R mod_invD(2)[OF I] by simp
  have "drop ?n R = drop ?n (ModTmp s)" unfolding R using BigNumSub_val(2)[OF n(1,2,1)] .
  moreover have "bn_val (drop ?n (ModTmp s)) = 0"
    unfolding bn_val_drop_div using mod_inv_M_less[OF I] by simp
  ultimately show "bn_val R = bn_val (ModTmp s) - b * 2 ^ BigDivExp s"
    using v l n mod_invD(2)[OF I] bn_val_take_drop[of ?n R] by simp
  with v show "bn_val (take ?n R) = bn_val R" by simp
qed

text \<open>The exact word and bit count of the difference.\<close>

lemma sig_words:
  fixes R :: "'a::len word list"
  assumes "0 < n" "n \<le> length R" "bn_val (take n R) = bn_val R"
  defines "i \<equiv> BigNumMostSignificantWord R n"
  shows "i * LENGTH('a) + BigNumSignificantBitsWord (R ! i) = bit_len (bn_val R)"
    and "i < n" "bn_val R < 2 ^ (LENGTH('a) * Suc i)" "0 < i \<Longrightarrow> 2 ^ (LENGTH('a) * i) \<le> bn_val R"
    and "0 < bn_val R \<Longrightarrow> (bit_len (bn_val R) + (LENGTH('a) - 1)) div LENGTH('a) = Suc i"
proof -
  show b: "i * LENGTH('a) + BigNumSignificantBitsWord (R ! i) = bit_len (bn_val R)"
    using BigNumSignificantBits_val[OF assms(1,2)] assms(3)
    by (simp add: i_def BigNumSignificantBits_def OC_BN_WORD_NUM_BITS_def Let_def)
  show i: "i < n" unfolding i_def using assms(1) by (rule BigNumMostSignificantWord_less)
  have wb: "BigNumSignificantBitsWord (R ! i) \<le> LENGTH('a)"
    unfolding BigNumSignificantBitsWord_eq by (simp add: bit_len_le_iff)
  then show "bn_val R < 2 ^ (LENGTH('a) * Suc i)" using b by (subst bit_len_le_iff[symmetric]) (simp add: mult.commute)
  show ge: "2 ^ (LENGTH('a) * i) \<le> bn_val R" if "0 < i"
  proof -
    have "2 ^ (LENGTH('a) * i) * 1 \<le> 2 ^ (LENGTH('a) * i) * unat (R ! i)"
      using BigNumMostSignificantWord_nonzero that unfolding i_def by (intro mult_le_mono2) (simp add: unat_gt_0 Suc_le_eq)
    then show ?thesis using bn_val_ge_nth[of i R] i assms(2) by linarith
  qed
  show "(bit_len (bn_val R) + (LENGTH('a) - 1)) div LENGTH('a) = Suc i" if "0 < bn_val R"
  proof -
    have "0 < BigNumSignificantBitsWord (R ! i)"
    proof (cases "i = 0")
      case True
      then have "0 < bit_len (bn_val R)" using that by simp
      then show ?thesis using b True by simp
    next
      case False
      then show ?thesis using BigNumMostSignificantWord_nonzero[of R n] by (simp add: BigNumSignificantBitsWord_eq unat_gt_0 i_def)
    qed
    then show ?thesis unfolding b[symmetric] using wb by (intro ceil_words_eq) simp_all
  qed
qed

definition mod_measure :: "nat \<Rightarrow> 'a::len word mod_state \<Rightarrow> nat" where
  "mod_measure b s = 2 * BigDivExp s + (if b * 2 ^ BigDivExp s \<le> bn_val (ModTmp s) then 1 else 0)"

definition mod_post :: "nat \<Rightarrow> nat \<Rightarrow> nat \<Rightarrow> 'a::len word mod_state \<Rightarrow> bool" where
  "mod_post b r l s \<longleftrightarrow> length (ModTmp s) = l \<and> bn_val (ModTmp s) = r"

lemma mod_inv_shift:
  "d \<le> e \<Longrightarrow> b * 2 ^ e div 2 ^ d = b * (2 :: nat) ^ (e - d)"
  by (metis div_mult_self_is_m le_add_diff_inverse2 mult.assoc power_add zero_less_numeral zero_less_power)

lemma mod_pass_less:
  fixes s :: "'a::len word mod_state"
  assumes I: "mod_inv b r l s" and less: "bn_val (ModTmp s) < b * 2 ^ BigDivExp s" and e: "BigDivExp s \<noteq> 0" and w: "1 < LENGTH('a)"
  obtains s' where "mod_pass s = Continue s'" "mod_inv b r l s'" "mod_measure b s' < mod_measure b s"
proof -
  let ?w = "LENGTH('a)" and ?n = "SigWordsBigDiv s" and ?e = "BigDivExp s"
  let ?D = "BigNumRightShiftBitsSmall (BigDiv s) ?n 1"
  let ?n' = "if (SigBitsBigDiv s - 1) mod ?w = 0 then ?n - 1 else ?n"
  define s' where "s' = s\<lparr>BigDiv := ?D, SigBitsBigDiv := SigBitsBigDiv s - 1, BigDivExp := ?e - 1, SigWordsBigDiv := ?n'\<rparr>"
  have le: "\<not> SigWordsModTmp s > ?n"
    using mod_inv_cmp[OF I] less by (auto split: if_splits)
  have B: "mod_pass s = Continue s'"
    using e less mod_inv_cmp[OF I] le
    by (simp add: mod_pass_def Let_def OC_BN_WORD_NUM_BITS_def s'_def)
  have n0: "0 < ?n" using mod_invD(3)[OF I] le by simp
  have nl: "?n \<le> length (BigDiv s)" using mod_invD(5,6)[OF I] by linarith
  have b: "0 < b" using mod_invD(1)[OF I] .
  have bits: "SigBitsBigDiv s - 1 = bit_len b + (?e - 1)" "SigBitsBigDiv s = Suc (bit_len b + (?e - 1))"
    using mod_inv_bits[OF I] bit_len_mult_pow2[OF b] e by simp_all
  have half: "b * 2 ^ ?e div 2 ^ 1 = b * 2 ^ (?e - 1)" using e by (intro mod_inv_shift) simp
  have d2: "b * 2 ^ ?e = 2 * (b * 2 ^ (?e - 1))" using e by (cases ?e) simp_all
  have words: "?n' = (SigBitsBigDiv s - 1 + (?w - 1)) div ?w"
    unfolding mod_inv_words[OF I] bits(2) using ceil_words_pred[of ?w] by simp
  have D: "bn_val (take ?n ?D) = b * 2 ^ (?e - 1)" "length ?D = length (BigDiv s)" "drop ?n ?D = drop ?n (BigDiv s)"
    using BigNumRightShiftBitsSmall_val[OF nl n0 zero_less_one w] mod_inv_D_take[OF I _ mod_inv_D_less[OF I]] half by simp_all
  have n': "?n' \<le> ?n" "SigWordsModTmp s \<le> ?n" using le by simp_all
  have "b * 2 ^ (?e - 1) < 2 ^ (?w * ?n')"
  proof -
    have "b * 2 ^ (?e - 1) < 2 ^ (SigBitsBigDiv s - 1)"
      using bit_len_upper[of "b * 2 ^ (?e - 1)"] bit_len_mult_pow2[OF b] bits(1) by simp
    then show ?thesis unfolding words by (intro ceil_words_upper) simp_all
  qed
  moreover have "(2::nat) ^ (?w * ?n') \<le> 2 ^ (?w * max ?n' (SigWordsModTmp s))"
    by (intro power_increasing mult_le_mono2) auto
  ultimately have "bn_val (take (max ?n' (SigWordsModTmp s)) (take ?n ?D)) = bn_val (take ?n ?D)"
    using D by (intro bn_val_small_take) linarith
  then have mx: "bn_val (take (max ?n' (SigWordsModTmp s)) ?D) = b * 2 ^ (?e - 1)"
    using D(1) n' by (simp only: take_take min_absorb1 max.bounded_iff)
  have sel: "ModTmp s' = ModTmp s" "SigWordsModTmp s' = SigWordsModTmp s" "BigDiv s' = ?D" "SigWordsBigDiv s' = ?n'"
    "SigBitsBigDiv s' = SigBitsBigDiv s - 1" "BigDivExp s' = ?e - 1" by (simp_all add: s'_def)
  have "?n' \<le> l" "l \<le> length ?D" using mod_invD(5,6)[OF I] n'(1) D(2) by linarith+
  moreover have "SigBitsBigDiv s - 1 = bit_len (b * 2 ^ (?e - 1))" using bits(1) bit_len_mult_pow2[OF b] by simp
  moreover have "bn_val (ModTmp s) < 2 * (b * 2 ^ (?e - 1))" using less d2 by linarith
  ultimately have "mod_inv b r l s'"
    unfolding mod_inv_def sel
    using mod_invD(1-4)[OF I] mod_inv_M_less[OF I] mod_inv_M_ge[OF I] mod_inv_mod[OF I] mx words by blast
  moreover have "mod_measure b s' < mod_measure b s" unfolding mod_measure_def sel using e by (auto split: if_split)
  ultimately show ?thesis using B that by blast
qed

lemma mod_pass_ge:
  fixes s :: "'a::len word mod_state"
  assumes I: "mod_inv b r l s" and ge: "b * 2 ^ BigDivExp s \<le> bn_val (ModTmp s)" and e: "BigDivExp s \<noteq> 0"
  defines "R \<equiv> BigNumSub_inplace (ModTmp s) (SigWordsModTmp s) (BigDiv s)"
  defines "i \<equiv> BigNumMostSignificantWord R (SigWordsModTmp s)"
  defines "d \<equiv> SigBitsBigDiv s - bit_len (bn_val R)"
  defines "s2 \<equiv> s\<lparr>ModTmp := R, SigWordsModTmp := Suc i\<rparr>"
  shows "mod_pass s = (if BigDivExp s < d then Break s2
    else Continue (s2\<lparr>BigDiv := BigNumRightShift (BigDiv s) (SigWordsBigDiv s) d,
      SigWordsBigDiv := (bit_len (bn_val R) + (LENGTH('a) - 1)) div LENGTH('a),
      SigBitsBigDiv := bit_len (bn_val R), BigDivExp := BigDivExp s - d\<rparr>))"
proof -
  have cmp: "0 \<le> (if SigWordsModTmp s > SigWordsBigDiv s then 1 else BigNumCmp (ModTmp s) (SigWordsBigDiv s) (BigDiv s))"
    using mod_inv_cmp[OF I] ge by simp
  have "i * LENGTH('a) + BigNumSignificantBitsWord (R ! i) = bit_len (bn_val R)"
    unfolding i_def using mod_inv_sub[OF I ge] mod_invD(3,4)[OF I] by (intro sig_words) (simp_all add: R_def)
  then show ?thesis using cmp e
    unfolding mod_pass_def Let_def OC_BN_WORD_NUM_BITS_def
    by (simp add: s2_def d_def R_def[symmetric] i_def[symmetric])
qed

lemma mod_sub_less:
  fixes s :: "'a::len word mod_state"
  assumes I: "mod_inv b r l s" and ge: "b * 2 ^ BigDivExp s \<le> bn_val (ModTmp s)"
  defines "R \<equiv> BigNumSub_inplace (ModTmp s) (SigWordsModTmp s) (BigDiv s)"
  shows "bn_val R < b * 2 ^ BigDivExp s" "bn_val R mod b = r"
proof -
  have v: "bn_val R = bn_val (ModTmp s) - b * 2 ^ BigDivExp s" unfolding R_def using mod_inv_sub[OF I ge] by simp
  show "bn_val R < b * 2 ^ BigDivExp s" using v ge mod_inv_double[OF I] by linarith
  have "bn_val (ModTmp s) = bn_val R + b * 2 ^ BigDivExp s" using v ge by simp
  then show "bn_val R mod b = r" using mod_inv_mod[OF I] by (metis mod_mult_self2)
qed

lemma mod_pass_ge_Continue:
  fixes s :: "'a::len word mod_state"
  assumes I: "mod_inv b r l s" and ge: "b * 2 ^ BigDivExp s \<le> bn_val (ModTmp s)" and e: "BigDivExp s \<noteq> 0"
    and B: "mod_pass s = Continue s'"
  shows "mod_inv b r l s' \<and> mod_measure b s' < mod_measure b s"
proof -
  let ?w = "LENGTH('a)" and ?n = "SigWordsBigDiv s" and ?e = "BigDivExp s"
  define R where "R = BigNumSub_inplace (ModTmp s) (SigWordsModTmp s) (BigDiv s)"
  define i where "i = BigNumMostSignificantWord R (SigWordsModTmp s)"
  define d where "d = SigBitsBigDiv s - bit_len (bn_val R)"
  let ?D = "BigNumRightShift (BigDiv s) ?n d" and ?k = "bit_len (bn_val R)"
  note R = mod_inv_sub[OF I ge, folded R_def] and Rless = mod_sub_less[OF I ge, folded R_def]
  have b: "0 < b" using mod_invD(1)[OF I] .
  have bits: "SigBitsBigDiv s = bit_len b + ?e" using mod_inv_bits[OF I] bit_len_mult_pow2[OF b] by simp
  have kle: "?k \<le> bit_len b + ?e" using bit_len_mono[OF less_imp_le[OF Rless(1)]] bit_len_mult_pow2[OF b] by simp
  have nb: "\<not> ?e < d" using B mod_pass_ge[OF I ge e] unfolding R_def[symmetric] d_def[symmetric] by (auto split: if_splits)
  have s': "s' = s\<lparr>ModTmp := R, SigWordsModTmp := Suc i, BigDiv := ?D,
      SigWordsBigDiv := (?k + (?w - 1)) div ?w, SigBitsBigDiv := ?k, BigDivExp := ?e - d\<rparr>"
    using B nb mod_pass_ge[OF I ge e] unfolding R_def[symmetric] d_def[symmetric] i_def[symmetric] by simp
  have kpos: "bit_len b \<le> ?k" using nb bits kle d_def by linarith
  then have Rpos: "0 < bn_val R" using b by (metis bit_len_pos_iff less_le_trans)
  note sw = sig_words[OF mod_invD(3)[OF I] _ R(3), folded i_def]
  have il: "SigWordsModTmp s \<le> length R" using R(1) mod_invD(4)[OF I] by simp
  have ceil: "(?k + (?w - 1)) div ?w = Suc i" using sw(5)[OF il Rpos] .
  have Dd: "b * 2 ^ ?e div 2 ^ d = b * 2 ^ (?e - d)" using nb by (intro mod_inv_shift) simp
  have bl: "?k = bit_len (b * 2 ^ (?e - d))"
    using bit_len_mult_pow2[OF b] nb kle bits d_def by simp
  have dn: "d < ?w * ?n"
  proof -
    have "bit_len (b * 2 ^ ?e) \<le> ?w * ?n" using mod_inv_D_less[OF I] by (simp add: bit_len_le_iff)
    then show ?thesis using bit_len_mult_pow2[OF b, of ?e] nb bit_len_pos_iff[THEN iffD2, OF b] by linarith
  qed
  have nl: "?n \<le> length (BigDiv s)" using mod_invD(5,6)[OF I] by linarith
  have D: "bn_val (take ?n ?D) = b * 2 ^ (?e - d)" "length ?D = length (BigDiv s)"
    using BigNumRightShift_val[OF nl dn] mod_inv_D_take[OF I _ mod_inv_D_less[OF I]] Dd by simp_all
  have in': "Suc i \<le> ?n"
  proof -
    have "?k + (?w - 1) \<le> SigBitsBigDiv s + (?w - 1)" using kle bits by simp
    then show ?thesis unfolding ceil[symmetric] mod_inv_words[OF I] by (rule div_le_mono)
  qed
  have "b * 2 ^ (?e - d) < 2 ^ (?w * Suc i)"
    unfolding ceil[symmetric] using bit_len_upper[of "b * 2 ^ (?e - d)"] bl by (intro ceil_words_upper) simp_all
  then have "bn_val (take (Suc i) (take ?n ?D)) = bn_val (take ?n ?D)"
    using D(1) by (intro bn_val_small_take) simp
  then have mx: "bn_val (take (max (Suc i) (Suc i)) ?D) = b * 2 ^ (?e - d)"
    using D(1) in' by (simp only: take_take min_absorb1 max.idem)
  have sel: "ModTmp s' = R" "SigWordsModTmp s' = Suc i" "BigDiv s' = ?D" "SigWordsBigDiv s' = Suc i"
    "SigBitsBigDiv s' = ?k" "BigDivExp s' = ?e - d" using s' ceil by simp_all
  have "bn_val R < 2 * (b * 2 ^ (?e - d))" using b bl by (intro bit_len_eq_imp_less_double) simp_all
  moreover have "Suc i \<le> l" "l \<le> length ?D" "0 < Suc i" using in' mod_invD(5,6)[OF I] D(2) by linarith+
  moreover have "1 < Suc i \<longrightarrow> 2 ^ (?w * (Suc i - 1)) \<le> bn_val R" using sw(4)[OF il] by simp
  ultimately have "mod_inv b r l s'"
    unfolding mod_inv_def sel using b R(1) sw(3)[OF il] mx bl Rless(2) ceil by metis
  moreover have "mod_measure b s' < mod_measure b s"
  proof (cases "d = 0")
    case True
    then show ?thesis unfolding mod_measure_def sel using Rless(1) ge by simp
  next
    case False
    then have "2 * (?e - d) + 1 < 2 * ?e + 1" using e by linarith
    then show ?thesis unfolding mod_measure_def sel using ge by (auto split: if_split)
  qed
  ultimately show ?thesis ..
qed

lemma mod_pass_Break:
  fixes s :: "'a::len word mod_state"
  assumes I: "mod_inv b r l s" and w: "1 < LENGTH('a)" and B: "mod_pass s = Break s'"
  shows "mod_post b r l s'"
proof (cases "b * 2 ^ BigDivExp s \<le> bn_val (ModTmp s)")
  case ge: True
  define R where "R = BigNumSub_inplace (ModTmp s) (SigWordsModTmp s) (BigDiv s)"
  note R = mod_inv_sub[OF I ge, folded R_def] and Rless = mod_sub_less[OF I ge, folded R_def]
  have "ModTmp s' = R \<and> bn_val R < b"
  proof (cases "BigDivExp s = 0")
    case True
    then show ?thesis using B mod_inv_cmp[OF I] ge Rless(1) by (auto simp: mod_pass_def Let_def R_def)
  next
    case False
    note body = mod_pass_ge[OF I ge False, folded R_def]
    have d: "BigDivExp s < SigBitsBigDiv s - bit_len (bn_val R)" using B body by (auto split: if_splits)
    then have "bit_len (bn_val R) < bit_len b"
      using mod_inv_bits[OF I] bit_len_mult_pow2[OF mod_invD(1)[OF I]] by simp
    then show ?thesis using B body d by (auto intro: bit_len_less_imp_less)
  qed
  then show ?thesis using R(1) Rless(2) by (auto simp: mod_post_def)
next
  case False
  have "BigDivExp s = 0"
  proof (rule ccontr)
    assume "BigDivExp s \<noteq> 0"
    then show False using mod_pass_less[OF I _ _ w] False B by (metis ctl.distinct(1) leI)
  qed
  then have "s' = s" using B False mod_inv_cmp[OF I] by (auto simp: mod_pass_def Let_def)
  moreover have "bn_val (ModTmp s) < b" using False \<open>BigDivExp s = 0\<close> by simp
  ultimately show ?thesis using mod_invD(2)[OF I] mod_inv_mod[OF I] by (simp add: mod_post_def)
qed

text \<open>Under the invariant a pass stays inside its buffers.\<close>

lemma mod_inv_words_bound:
  fixes s :: "'a::len word mod_state"
  assumes "mod_inv b r l s"
  shows "SigBitsBigDiv s \<le> LENGTH('a) * SigWordsBigDiv s" "0 < SigBitsBigDiv s" "0 < SigWordsBigDiv s"
proof -
  show B: "SigBitsBigDiv s \<le> LENGTH('a) * SigWordsBigDiv s"
    using mod_inv_D_less[OF assms] mod_inv_bits[OF assms] by (simp add: bit_len_le_iff)
  have "0 < b * 2 ^ BigDivExp s" using mod_invD(1)[OF assms] by simp
  then show "0 < SigBitsBigDiv s" unfolding mod_inv_bits[OF assms] bit_len_pos_iff .
  then show "0 < SigWordsBigDiv s" using B by (cases "SigWordsBigDiv s") simp_all
qed

lemma BigNumMod_body_inside:
  fixes s :: "'a::len word mod_state"
  assumes I: "mod_inv b r l s"
  shows "BigNumMod_body s = Some (mod_pass s)"
proof -
  have len: "SigWordsModTmp s \<le> length (ModTmp s)" "SigWordsModTmp s \<le> length (BigDiv s)" "SigWordsBigDiv s \<le> length (BigDiv s)"
    "SigWordsBigDiv s \<le> length (ModTmp s)" using mod_invD(2-6)[OF I] by linarith+
  note bounds = mod_inv_words_bound[OF I]
  define R where "R = BigNumSub_inplace (ModTmp s) (SigWordsModTmp s) (BigDiv s)"
  define i where "i = BigNumMostSignificantWord R (SigWordsModTmp s)"
  have R: "length R = length (ModTmp s)" unfolding R_def using len by (simp add: BigNumSub_inplace_eq)
  have i: "i < length R" using BigNumMostSignificantWord_less[OF mod_invD(3)[OF I], of R] len(1) R by (simp add: i_def)
  have Msw: "BigNumMostSignificantWord_checked R (SigWordsModTmp s) = Some i"
    unfolding i_def using R len by (intro BigNumMostSignificantWord_checked_Some) simp
  have sub: "BigNumSub_checked (ModTmp s) (SigWordsModTmp s) (BigDiv s) = Some R" unfolding R_def using len by (intro BigNumSub_checked_Some)
  have cmp: "(if SigWordsModTmp s > SigWordsBigDiv s then Some 1 else BigNumCmp_checked (ModTmp s) (SigWordsBigDiv s) (BigDiv s)) =
      Some (if SigWordsModTmp s > SigWordsBigDiv s then 1 else BigNumCmp (ModTmp s) (SigWordsBigDiv s) (BigDiv s))"
    using len by (simp add: BigNumCmp_checked_Some)
  have shr: "BigNumRightShift_checked (BigDiv s) (SigWordsBigDiv s) (SigBitsBigDiv s - k) =
      Some (BigNumRightShift (BigDiv s) (SigWordsBigDiv s) (SigBitsBigDiv s - k))" for k
    using len bounds by (intro BigNumRightShift_checked_Some) simp_all
  have shs: "BigNumRightShiftBitsSmall_checked (BigDiv s) (SigWordsBigDiv s) 1 = Some (BigNumRightShiftBitsSmall (BigDiv s) (SigWordsBigDiv s) 1)"
    using len bounds by (intro BigNumRightShiftBitsSmall_checked_Some)
  have bits: "i * LENGTH('a) + BigNumSignificantBitsWord (R ! i) \<le> SigBitsBigDiv s"
    if ge: "b * 2 ^ BigDivExp s \<le> bn_val (ModTmp s)"
  proof -
    have "i * LENGTH('a) + BigNumSignificantBitsWord (R ! i) = bit_len (bn_val R)"
      unfolding i_def using mod_inv_sub[OF I ge] mod_invD(3,4)[OF I] by (intro sig_words) (simp_all add: R_def)
    then show ?thesis using bit_len_mono[OF less_imp_le[OF mod_sub_less(1)[OF I ge]]] mod_inv_bits[OF I] by (simp add: R_def)
  qed
  show ?thesis
  proof (cases "0 \<le> (if SigWordsModTmp s > SigWordsBigDiv s then 1 else BigNumCmp (ModTmp s) (SigWordsBigDiv s) (BigDiv s))")
    case True
    then have "b * 2 ^ BigDivExp s \<le> bn_val (ModTmp s)" using mod_inv_cmp[OF I] by simp
    then show ?thesis
      unfolding BigNumMod_body_def mod_pass_def Let_def cmp OC_BN_WORD_NUM_BITS_def
      using True bits i by (simp add: sub Msw shr flip: R_def i_def)
  next
    case False
    then show ?thesis
      unfolding BigNumMod_body_def mod_pass_def Let_def cmp OC_BN_WORD_NUM_BITS_def
      using bounds by (simp add: shs[unfolded One_nat_def])
  qed
qed

lemma mod_pass_Continue:
  fixes s :: "'a::len word mod_state"
  assumes I: "mod_inv b r l s" and w: "1 < LENGTH('a)" and B: "mod_pass s = Continue s'"
  shows "mod_inv b r l s' \<and> mod_measure b s' < mod_measure b s"
proof (cases "BigDivExp s = 0")
  case True
  then show ?thesis using B by (auto simp: mod_pass_def Let_def split: if_splits)
next
  case False
  show ?thesis
  proof (cases "b * 2 ^ BigDivExp s \<le> bn_val (ModTmp s)")
    case True
    then show ?thesis using mod_pass_ge_Continue[OF I _ False B] by blast
  next
    case False
    then show ?thesis using mod_pass_less[OF I _ \<open>BigDivExp s \<noteq> 0\<close> w] B by (metis ctl.inject(1) leI)
  qed
qed

lemma BigNumMod_loop:
  fixes s :: "'a::len word mod_state"
  assumes I: "mod_inv b r l s" and w: "1 < LENGTH('a)"
  shows "\<exists>s'. iterate (checked BigNumMod_body) s = Some (Some s') \<and> mod_post b r l s'"
proof (rule iterate_checked_total[where I = "mod_inv b r l" and m = "mod_measure b", OF I])
  fix s :: "'a word mod_state"
  assume I: "mod_inv b r l s"
  show "(\<exists>s'. BigNumMod_body s = Some (Continue s') \<and> mod_inv b r l s' \<and> mod_measure b s' < mod_measure b s) \<or>
      (\<exists>s'. BigNumMod_body s = Some (Break s') \<and> mod_post b r l s')"
    unfolding BigNumMod_body_inside[OF I]
    using mod_pass_Continue[OF I w] mod_pass_Break[OF I w] by (cases "mod_pass s") auto
qed

section \<open>The remainder\<close>

lemma ceil_words_le:
  assumes w: "0 < (w :: nat)" and "k \<le> w * n"
  shows "(k + e + (w - 1)) div w \<le> n + e div w + (if e mod w = 0 then 0 else 1)"
proof -
  have "k + e + (w - 1) \<le> w * n + (w * (e div w) + e mod w) + (w - 1)" using assms(2) by simp
  then have "(k + e + (w - 1)) div w \<le> (w * (n + e div w) + (e mod w + (w - 1))) div w"
    by (intro div_le_mono) (simp add: algebra_simps)
  also have "\<dots> = n + e div w + (e mod w + (w - 1)) div w" using div_mult_self4[of w "n + e div w" "e mod w + (w - 1)"] w by linarith
  also have "(e mod w + (w - 1)) div w \<le> (if e mod w = 0 then 0 else 1)"
  proof (cases "e mod w = 0")
    case False
    have "e mod w + (w - 1) < 2 * w" using mod_less_divisor[OF w, of e] by linarith
    then have "(e mod w + (w - 1)) div w < 2" by (simp add: less_mult_imp_div_less)
    then show ?thesis using False by simp
  qed (use w in simp)
  finally show ?thesis by simp
qed

lemma BigNumMostSignificantWord_take_eq: "n \<le> m \<Longrightarrow> BigNumMostSignificantWord (take m A) n = BigNumMostSignificantWord A n"
  by (induction n) auto

lemma sig_words_take:
  fixes A :: "'a::len word list"
  assumes "0 < n" "n \<le> length A" "0 < bn_val (take n A)"
  defines "i \<equiv> BigNumMostSignificantWord A n"
  shows "(bit_len (bn_val (take n A)) + (LENGTH('a) - 1)) div LENGTH('a) = Suc i"
    and "0 < i \<Longrightarrow> 2 ^ (LENGTH('a) * i) \<le> bn_val (take n A)" and "bn_val (take n A) < 2 ^ (LENGTH('a) * Suc i)"
  using sig_words[of n "take n A"] assms by (simp_all add: i_def BigNumMostSignificantWord_take_eq)

lemma BigNumMod_val:
  fixes A B Scratch :: "'a::len word list"
  assumes w: "1 < LENGTH('a)" and n: "0 < n" "n \<le> length B" and nA: "0 < nA" "nA \<le> length A"
    and b: "0 < bn_val (take n B)" and ge: "bit_len (bn_val (take n B)) \<le> bit_len (bn_val (take nA A))"
    and sw: "n \<le> Suc (BigNumMostSignificantWord A nA)"
    and scratch: "Suc (BigNumMostSignificantWord A nA) + n +
       (bit_len (bn_val (take nA A)) - bit_len (bn_val (take n B))) div LENGTH('a) < length Scratch"
      "2 * Suc (BigNumMostSignificantWord A nA) \<le> length Scratch"
  shows "\<exists>R. BigNumMod n A nA B Scratch = Some R \<and> length R = n \<and> bn_val R = bn_val (take nA A) mod bn_val (take n B)"
proof -
  let ?w = "LENGTH('a)" and ?a = "bn_val (take nA A)" and ?b = "bn_val (take n B)"
  define i where "i = BigNumMostSignificantWord A nA"
  define e where "e = bit_len ?a - bit_len ?b"
  have i: "i < nA" unfolding i_def using nA by (intro BigNumMostSignificantWord_less)
  have M: "bn_val (take (Suc i) A) = ?a" using BigNumMostSignificantWord_take[OF nA(2)] nA(1) unfolding i_def by simp
  have s: "i * ?w + BigNumSignificantBitsWord (A ! i) = bit_len ?a"
    using BigNumSignificantBits_val[OF nA] by (simp add: i_def BigNumSignificantBits_def OC_BN_WORD_NUM_BITS_def Let_def)
  have apos: "0 < ?a" using b ge by (metis bit_len_pos_iff less_le_trans)
  have sw': "(bit_len ?a + (?w - 1)) div ?w = Suc i" "0 < i \<Longrightarrow> 2 ^ (?w * i) \<le> ?a" "?a < 2 ^ (?w * Suc i)"
    using sig_words_take[OF nA apos] by (simp_all add: i_def)
  have be: "?b * 2 ^ e < 2 ^ (?w * Suc i)" "bit_len (?b * 2 ^ e) = bit_len ?a"
  proof -
    show bl: "bit_len (?b * 2 ^ e) = bit_len ?a" using bit_len_mult_pow2[OF b] ge by (simp add: e_def)
    show "?b * 2 ^ e < 2 ^ (?w * Suc i)"
      using sw'(3) unfolding bit_len_le_iff[symmetric] bl .
  qed
  have blb: "bit_len ?b \<le> ?w * n" using bn_val_take_less by (simp add: bit_len_le_iff)
  have m: "Suc i \<le> n + e div ?w + (if e mod ?w = 0 then 0 else 1)"
    using ceil_words_le[OF len_gt_0 blb, of e] ge sw'(1) by (simp add: e_def)
  have NW: "e div ?w \<le> Suc i"
  proof -
    have "e div ?w \<le> (bit_len ?a + (?w - 1)) div ?w" by (intro div_le_mono) (simp add: e_def)
    then show ?thesis using sw'(1) by simp
  qed
  obtain D where D: "BigNumLeftShift (drop (Suc i) Scratch) (Suc i) B n e = Some D"
    "length D = length (drop (Suc i) Scratch)" "bn_val (take (Suc i) D) = ?b * 2 ^ e"
  proof (rule BigNumLeftShift_val[OF n _ _ m NW be(1)])
    show "n + e div ?w < length (drop (Suc i) Scratch)" "Suc i \<le> length (drop (Suc i) Scratch)"
      using scratch unfolding i_def[symmetric] e_def[symmetric] by simp_all
  qed
  let ?s = "\<lparr>ModTmp = take (Suc i) A, SigWordsModTmp = Suc i, BigDiv = D,
                  SigWordsBigDiv = Suc i, SigBitsBigDiv = bit_len ?a, BigDivExp = e\<rparr>"
  have "?a < 2 * (?b * 2 ^ e)" using be b by (intro bit_len_eq_imp_less_double) simp_all
  then have "mod_inv ?b (?a mod ?b) (Suc i) ?s"
    unfolding mod_inv_def mod_state.simps M using i nA sw' D(2,3) be b scratch(2)[folded i_def] by simp
  from BigNumMod_loop[OF this w] obtain s' where
    s': "iterate (checked BigNumMod_body) ?s = Some (Some s')" "mod_post ?b (?a mod ?b) (Suc i) s'" by blast
  define j where "j = BigNumMostSignificantWord B n"
  have j: "j < length B" using BigNumMostSignificantWord_less[OF n(1), of B] n(2) by (simp add: j_def)
  have sB: "j * ?w + BigNumSignificantBitsWord (B ! j) = bit_len ?b"
    using BigNumSignificantBits_val[OF n] by (simp add: j_def BigNumSignificantBits_def OC_BN_WORD_NUM_BITS_def Let_def)
  have il: "i < length A" "Suc i \<le> length A" "Suc i \<le> length Scratch" using i nA scratch(2) by (simp_all add: i_def)
  have Msw: "BigNumMostSignificantWord_checked A nA = Some i" "BigNumMostSignificantWord_checked B n = Some j"
    using nA n by (simp_all add: i_def j_def BigNumMostSignificantWord_checked_Some)
  have C: "rd_block A 0 (Suc i) = Some (take (Suc i) A)" "wr_block (take (Suc i) Scratch) 0 (take (Suc i) A) = Some (take (Suc i) A)"
    using il by (simp_all add: window_def overwrite_def)
  have out: "rd_block (ModTmp s' @ BigDiv s') 0 n = Some (take n (ModTmp s' @ BigDiv s'))"
    using s'(2) sw by (simp add: mod_post_def i_def window_def)
  have "BigNumMod n A nA B Scratch = Some (take n (ModTmp s' @ BigDiv s'))"
    unfolding BigNumMod_def Let_def OC_BN_WORD_NUM_BITS_def
    by (simp only: Msw C rd_Some[OF il(1)] rd_Some[OF j] Option.bind.simps s sB Suc_eq_plus1[symmetric] e_def[symmetric] D(1) s'(1) id_apply out)
  moreover have "take n (ModTmp s' @ BigDiv s') = take n (ModTmp s')" "length (take n (ModTmp s')) = n"
    using s'(2) sw by (simp_all add: mod_post_def i_def)
  moreover have "bn_val (take n (ModTmp s')) = ?a mod ?b"
  proof -
    have "?a mod ?b < 2 ^ (?w * n)" using b bn_val_take_less[of n B] mod_less_divisor[of ?b ?a] by linarith
    then show ?thesis using s'(2) bn_val_small_take[of "ModTmp s'" n] by (simp add: mod_post_def)
  qed
  ultimately show ?thesis by simp
qed

section \<open>Properties\<close>



end
