(* ===== verification/Oc_Montgomery.thy ===== *)
theory Oc_Montgomery
  imports Oc_BigNumMod
begin

unbundle bit_operations_syntax

text \<open>
  Model of \<^verbatim>\<open>Library/OcCryptoLib/BigNumMontgomery.c\<close>: the Montgomery inverse of a word, the
  Montgomery parameters of a modulus, the interleaved Montgomery product with its two special cases,
  and the modular power. Every operation that multiplies words takes the product \<open>WordMul\<close> of the
  build as its first argument; the locale \<open>bn_word_mul\<close> states what the code relies on, and it is
  interpreted on the three products the builds link in.
\<close>

section \<open>The code\<close>

subsection \<open>Montgomery inverse\<close>

text \<open>The do-while loop that subtracts \<open>Divisor\<close> from \<open>2^w\<close>, kept as 0 in a word.\<close>

definition BigNumMontInverse_sub :: "'a::len word \<Rightarrow> 'a word \<times> 'a word \<Rightarrow> ('a word \<times> 'a word, 'a word \<times> 'a word) ctl" where
  "BigNumMontInverse_sub Divisor st =
     (case st of (Dividend, Div) \<Rightarrow>
        (let Dividend' = Dividend - Divisor; Div' = Div + 1
         in if Dividend' \<ge> Divisor then Continue (Dividend', Div') else Break (Dividend', Div')))"

text \<open>The Euclidean loop on \<open>(Dividend, Divisor, Y, X)\<close>.\<close>

definition BigNumMontInverse_euclid ::
  "'a::len word \<times> 'a word \<times> 'a word \<times> 'a word \<Rightarrow> ('a word \<times> 'a word \<times> 'a word \<times> 'a word, 'a word \<times> 'a word) ctl" where
  "BigNumMontInverse_euclid st =
     (case st of (Dividend, Divisor, Y, X) \<Rightarrow>
        if Divisor \<noteq> 0 then
          (let Div = Dividend div Divisor; Mod = Dividend mod Divisor
           in Continue (Divisor, Mod, X, Y - Div * X))
        else Break (Dividend, Y))"

definition BigNumMontInverse :: "'a::len word list \<Rightarrow> 'a word option" where
  "BigNumMontInverse A =
     (if A ! 0 = 0 then Some 0
      else do {
        (Mod, Div) \<leftarrow> iterate (BigNumMontInverse_sub (A ! 0)) (0, 0);
        (Dividend, Y) \<leftarrow> iterate BigNumMontInverse_euclid (A ! 0, Mod, 1, 0 - Div);
        Some (if Dividend \<noteq> 1 then 0 else 0 - Y)
      })"

subsection \<open>Montgomery parameters\<close>

definition OC_BN_MONT_RSQR_LEN :: "nat \<Rightarrow> nat" where
  "OC_BN_MONT_RSQR_LEN NumWords = (NumWords + 1) * 2"

text \<open>The returned pair is the inverse and the buffer \<open>RSqrMod\<close>, unchanged on failure.\<close>

definition BigNumCalculateMontParams ::
  "'a::len word list \<Rightarrow> nat \<Rightarrow> 'a word list \<Rightarrow> 'a word list \<Rightarrow> ('a word \<times> 'a word list) option" where
  "BigNumCalculateMontParams RSqrMod NumWords N Scratch =
     do {
       N0Inv \<leftarrow> BigNumMontInverse N;
       if N0Inv = 0 then Some (0, RSqrMod)
       else do {
         let NumWordsRSqr = OC_BN_MONT_RSQR_LEN NumWords;
         let Scratch2 = drop NumWordsRSqr Scratch;
         let NumBits = NumWords * OC_BN_WORD_NUM_BITS TYPE('a);
         let RSqr = BigNumOrWord (replicate NumWordsRSqr 0) NumWordsRSqr 1 (2 * NumBits);
         R \<leftarrow> BigNumMod NumWords RSqr NumWordsRSqr N Scratch2;
         Some (N0Inv, overwrite RSqrMod 0 R)
       }
     }"

subsection \<open>Multiply and add\<close>

type_synonym 'w word_mul = "'w \<Rightarrow> 'w \<Rightarrow> 'w \<times> 'w"

definition BigNumWordAddMul ::
  "'a::len word word_mul \<Rightarrow> 'a word \<Rightarrow> 'a word \<Rightarrow> 'a word \<Rightarrow> 'a word \<times> 'a word" where
  "BigNumWordAddMul WordMul C A B =
     (let (ResHi, Lo) = WordMul A B;
          ResLo = Lo + C
      in (if ResLo < C then ResHi + 1 else ResHi, ResLo))"

definition BigNumWordAddMulCarry ::
  "'a::len word word_mul \<Rightarrow> 'a word \<Rightarrow> 'a word \<Rightarrow> 'a word \<Rightarrow> 'a word \<Rightarrow> 'a word \<times> 'a word" where
  "BigNumWordAddMulCarry WordMul C A B Carry =
     (let (MulResHi, Lo) = BigNumWordAddMul WordMul C A B;
          MulResLo = Lo + Carry
      in (if MulResLo < Carry then MulResHi + 1 else MulResHi, MulResLo))"

subsection \<open>Montgomery products\<close>

text \<open>
  The multiplier \<open>B\<close> of a product is a buffer of its own or the result buffer itself (\<open>Aliased\<close>), which
  one call of \<open>BigNumPowMod\<close> passes.
\<close>

datatype 'w operand = Separate "'w list" | Aliased

definition contents :: "'w operand \<Rightarrow> 'w list \<Rightarrow> 'w list" where
  "contents B Result = (case B of Separate b \<Rightarrow> b | Aliased \<Rightarrow> Result)"

definition BigNumMontMulRow_step ::
  "'a::len word word_mul \<Rightarrow> 'a word \<Rightarrow> 'a word operand \<Rightarrow> 'a word list \<Rightarrow> 'a word \<Rightarrow> nat \<Rightarrow>
   'a word list \<times> 'a word \<times> 'a word \<Rightarrow> 'a word list \<times> 'a word \<times> 'a word" where
  "BigNumMontMulRow_step WordMul AWord B N TFirst CompIndex st =
     (case st of (Result, CCurMulHi, CCurMontHi) \<Rightarrow>
        (let (MulHi, MulLo) =
               BigNumWordAddMulCarry WordMul (Result ! CompIndex) AWord (contents B Result ! CompIndex) CCurMulHi;
             (MontHi, MontLo) = BigNumWordAddMulCarry WordMul MulLo TFirst (N ! CompIndex) CCurMontHi
         in (Result[CompIndex - 1 := MontLo], MulHi, MontHi)))"

definition BigNumMontMulRow ::
  "'a::len word word_mul \<Rightarrow> 'a word list \<Rightarrow> nat \<Rightarrow> 'a word \<Rightarrow> 'a word operand \<Rightarrow> 'a word list \<Rightarrow> 'a word \<Rightarrow>
   'a word list" where
  "BigNumMontMulRow WordMul Result NumWords AWord B N N0Inv =
     (let (MulHi, MulLo) = BigNumWordAddMul WordMul (Result ! 0) AWord (contents B Result ! 0);
          TFirst = MulLo * N0Inv;
          (MontHi, _) = BigNumWordAddMul WordMul MulLo TFirst (N ! 0);
          (R, CCurMulHi, CCurMontHi) =
             fold (BigNumMontMulRow_step WordMul AWord B N TFirst) [1..<NumWords] (Result, MulHi, MontHi);
          CCurMulLo = CCurMulHi + CCurMontHi;
          R' = R[NumWords - 1 := CCurMulLo]
      in if CCurMulLo < CCurMulHi then BigNumSub_inplace R' NumWords N else R')"

definition BigNumMontMul ::
  "'a::len word word_mul \<Rightarrow> 'a word list \<Rightarrow> nat \<Rightarrow> 'a word list \<Rightarrow> 'a word operand \<Rightarrow> 'a word list \<Rightarrow> 'a word \<Rightarrow>
   'a word list" where
  "BigNumMontMul WordMul Result NumWords A B N N0Inv =
     fold (\<lambda>RowIndex R. BigNumMontMulRow WordMul R NumWords (A ! RowIndex) B N N0Inv) [0..<NumWords]
       (overwrite Result 0 (replicate NumWords 0))"

definition BigNumMontMulRow0_step ::
  "'a::len word word_mul \<Rightarrow> 'a word list \<Rightarrow> 'a word \<Rightarrow> nat \<Rightarrow> 'a word list \<times> 'a word \<Rightarrow> 'a word list \<times> 'a word" where
  "BigNumMontMulRow0_step WordMul N TFirst CompIndex st =
     (case st of (Result, CCurMontHi) \<Rightarrow>
        (let (MontHi, MontLo) = BigNumWordAddMulCarry WordMul (Result ! CompIndex) TFirst (N ! CompIndex) CCurMontHi
         in (Result[CompIndex - 1 := MontLo], MontHi)))"

definition BigNumMontMulRow0 ::
  "'a::len word word_mul \<Rightarrow> 'a word list \<Rightarrow> nat \<Rightarrow> 'a word list \<Rightarrow> 'a word \<Rightarrow> 'a word list" where
  "BigNumMontMulRow0 WordMul Result NumWords N N0Inv =
     (let TFirst = Result ! 0 * N0Inv;
          (MontHi, _) = BigNumWordAddMul WordMul (Result ! 0) TFirst (N ! 0);
          (R, CCurMontHi) = fold (BigNumMontMulRow0_step WordMul N TFirst) [1..<NumWords] (Result, MontHi)
      in R[NumWords - 1 := CCurMontHi])"

definition BigNumMontMul1 ::
  "'a::len word word_mul \<Rightarrow> 'a word list \<Rightarrow> nat \<Rightarrow> 'a word list \<Rightarrow> 'a word list \<Rightarrow> 'a word \<Rightarrow> 'a word list" where
  "BigNumMontMul1 WordMul Result NumWords A N N0Inv =
     (let R = BigNumMontMulRow WordMul (overwrite Result 0 (replicate NumWords 0)) NumWords 1 (Separate A) N N0Inv
      in fold (\<lambda>RowIndex R. BigNumMontMulRow0 WordMul R NumWords N N0Inv) [1..<NumWords] R)"

subsection \<open>Modular power\<close>

text \<open>The returned triple is the truth value and the buffers \<open>Result\<close> and \<open>ATmp\<close>.\<close>

definition BigNumPowMod ::
  "'a::len word word_mul \<Rightarrow> 'a word list \<Rightarrow> nat \<Rightarrow> 'a word list \<Rightarrow> u32 \<Rightarrow> 'a word list \<Rightarrow> 'a word \<Rightarrow>
   'a word list \<Rightarrow> 'a word list \<Rightarrow> bool \<times> 'a word list \<times> 'a word list" where
  "BigNumPowMod WordMul Result NumWords A B N N0Inv RSqrMod ATmp =
     (let MontMul = (\<lambda>R X Y. BigNumMontMul WordMul R NumWords X Y N N0Inv)
      in if B \<noteq> 0x10001 \<and> B \<noteq> 3 then (False, Result, ATmp)
         else
           (let ATmp0 = MontMul ATmp A (Separate RSqrMod);
                (R1, ATmp1) =
                  (if B = 0x10001 then
                     (let (R, T) = fold (\<lambda>Index st. case st of (R, T) \<Rightarrow>
                             (let R' = MontMul R T (Separate T); T' = MontMul T R' (Separate R') in (R', T')))
                           [0..<8] (Result, ATmp0)
                      in (MontMul R T (Separate A), T))
                   else
                     (let R = MontMul Result ATmp0 (Separate ATmp0);
                          T = MontMul ATmp0 R Aliased
                      in (BigNumMontMul1 WordMul R NumWords T N N0Inv, T)));
                R2 = (if BigNumCmp R1 NumWords N \<ge> 0 then BigNumSub_inplace R1 NumWords N else R1)
            in (True, R2, ATmp1)))"

section \<open>The Montgomery inverse\<close>

text \<open>The subtraction loop ends with \<open>2^w mod Divisor\<close> and, as a word, \<open>- Div * Divisor\<close>.\<close>

lemma BigNumMontInverse_sub_total:
  fixes a :: "'a::len word"
  assumes a: "a \<noteq> 0"
  shows "\<exists>m d. iterate (BigNumMontInverse_sub a) (0, 0) = Some (m, d) \<and> m = - (d * a) \<and> m < a \<and>
    unat m = 2 ^ LENGTH('a) mod unat a"
proof -
  define I :: "'a word \<times> 'a word \<Rightarrow> bool" where "I = (\<lambda>(x, d). x = - (d * a) \<and>
    (x = 0 \<and> d = 0 \<or> a \<le> x \<and> (\<exists>j. unat x + j * unat a = 2 ^ LENGTH('a))))"
  define m :: "'a word \<times> 'a word \<Rightarrow> nat" where "m = (\<lambda>(x, d). if x = 0 then 2 ^ LENGTH('a) else unat x)"
  have pos: "0 < unat a" using a by (simp add: unat_gt_0)
  have step: "x - a = - ((d + 1) * a) \<and> (\<exists>j. unat (x - a) + j * unat a = 2 ^ LENGTH('a)) \<and> unat (x - a) < m (x, d)"
    if Ixd: "I (x, d)" for x d
  proof (cases "x = 0")
    case True
    then have "unat (x - a) = 2 ^ LENGTH('a) - unat a" using pos unat_sub_if'[of x a] by simp
    then show ?thesis using True Ixd pos less_imp_le[OF unat_less_2pow[of a]] by (auto simp: I_def m_def algebra_simps intro!: exI[of _ 1])
  next
    case False
    then obtain j where j: "a \<le> x" "unat x + j * unat a = 2 ^ LENGTH('a)" "x = - (d * a)" using Ixd by (auto simp: I_def)
    then have u: "unat (x - a) = unat x - unat a" "unat a \<le> unat x" by (simp_all add: unat_minus_no_wrap word_le_nat_alt)
    then have "\<exists>j. unat (x - a) + j * unat a = 2 ^ LENGTH('a)" using j by (intro exI[of _ "Suc j"]) simp
    moreover have "x - a = - ((d + 1) * a)" using j(3) by (simp add: algebra_simps)
    moreover have "unat (x - a) < m (x, d)" using u pos False by (simp add: m_def)
    ultimately show ?thesis by blast
  qed
  have "\<exists>r. iterate (BigNumMontInverse_sub a) (0, 0) = Some r \<and>
      (\<lambda>(x, d). x = - (d * a) \<and> x < a \<and> (\<exists>j. unat x + j * unat a = 2 ^ LENGTH('a))) r"
  proof (rule iterate_total[where I = I and m = m])
    show "I (0, 0)" by (simp add: I_def)
    fix s s' assume I: "I s" and "BigNumMontInverse_sub a s = Continue s'"
    then show "I s' \<and> m s' < m s"
      using step[of "fst s" "snd s"] a
      by (cases s) (auto simp: BigNumMontInverse_sub_def Let_def I_def m_def split: if_splits)
  next
    fix s r assume I: "I s" and "BigNumMontInverse_sub a s = Break r"
    then show "(\<lambda>(x, d). x = - (d * a) \<and> x < a \<and> (\<exists>j. unat x + j * unat a = 2 ^ LENGTH('a))) r"
      using step[of "fst s" "snd s"]
      by (cases s) (auto simp: BigNumMontInverse_sub_def Let_def not_le split: if_splits)
  qed
  then obtain x d j where it: "iterate (BigNumMontInverse_sub a) (0, 0) = Some (x, d)"
    and p: "x = - (d * a)" "x < a" "unat x + j * unat a = 2 ^ LENGTH('a)" by auto
  have "unat x = 2 ^ LENGTH('a) mod unat a"
    using p(2,3) by (metis mod_less mod_mult_self1 word_less_nat_alt)
  then show ?thesis using it p by blast
qed

lemma BigNumMontInverse_euclid_total:
  fixes a Dividend Divisor :: "'a::len word"
  assumes "Y * a = Dividend" "X * a = Divisor" "gcd (unat Dividend) (unat Divisor) = g"
  shows "\<exists>D y. iterate BigNumMontInverse_euclid (Dividend, Divisor, Y, X) = Some (D, y) \<and> y * a = D \<and> unat D = g"
proof -
  define I :: "'a word \<times> 'a word \<times> 'a word \<times> 'a word \<Rightarrow> bool" where
    "I = (\<lambda>(D, d, y, x). y * a = D \<and> x * a = d \<and> gcd (unat D) (unat d) = g)"
  have "\<exists>r. iterate BigNumMontInverse_euclid (Dividend, Divisor, Y, X) = Some r \<and> (\<lambda>(D, y). y * a = D \<and> unat D = g) r"
  proof (rule iterate_total[where I = I and m = "\<lambda>(D, d, y, x). unat d"])
    show "I (Dividend, Divisor, Y, X)" using assms by (simp add: I_def)
    fix s s' assume I: "I s" and B: "BigNumMontInverse_euclid s = Continue s'"
    obtain D d y x where s: "s = (D, d, y, x)" by (cases s)
    have d: "d \<noteq> 0" and s': "s' = (d, D mod d, x, y - D div d * x)"
      using B by (auto simp: s BigNumMontInverse_euclid_def Let_def split: if_splits)
    have "(y - D div d * x) * a = D - D div d * d"
      using I by (auto simp: I_def s algebra_simps)
    also have "\<dots> = D mod d" by (simp add: minus_div_mult_eq_mod)
    finally have "(y - D div d * x) * a = D mod d" .
    moreover have "gcd (unat d) (unat (D mod d)) = g" 
      using I gcd_red_nat[of "unat D" "unat d"] by (simp add: I_def s unat_mod)
    moreover have "unat (D mod d) < unat d" using d by (simp add: unat_mod unat_gt_0)
    ultimately show "I s' \<and> (case s' of (D, d, y, x) \<Rightarrow> unat d) < (case s of (D, d, y, x) \<Rightarrow> unat d)"
      using I by (simp add: I_def s s')
  next
    fix s r assume I: "I s" and B: "BigNumMontInverse_euclid s = Break r"
    then show "(\<lambda>(D, y). y * a = D \<and> unat D = g) r"
      by (cases s) (auto simp: I_def BigNumMontInverse_euclid_def Let_def split: if_splits)
  qed
  then show ?thesis by auto
qed

lemma coprime_pow2_iff: "0 < n \<Longrightarrow> coprime (x :: nat) (2 ^ n) \<longleftrightarrow> odd x"
  by (simp add: coprime_right_2_iff_odd)

lemma BigNumMontInverse_total:
  fixes A :: "'a::len word list"
  shows "\<exists>r. BigNumMontInverse A = Some r \<and> (odd (unat (A ! 0)) \<longrightarrow> r * A ! 0 = - 1) \<and> (even (unat (A ! 0)) \<longrightarrow> r = 0)"
proof (cases "A ! 0 = 0")
  case True
  then show ?thesis by (simp add: BigNumMontInverse_def)
next
  case False
  let ?a = "A ! 0"
  obtain m d where it: "iterate (BigNumMontInverse_sub ?a) (0, 0) = Some (m, d)" and m: "m = - (d * ?a)"
    and u: "unat m = 2 ^ LENGTH('a) mod unat ?a" using BigNumMontInverse_sub_total[OF False] by blast
  have g: "gcd (unat ?a) (unat m) = gcd (unat ?a) (2 ^ LENGTH('a))" 
    unfolding u using gcd_red_nat[of "2 ^ LENGTH('a)" "unat ?a"] by (simp add: gcd.commute)
  obtain D y where e: "iterate BigNumMontInverse_euclid (?a, m, 1, 0 - d) = Some (D, y)" and y: "y * ?a = D"
    and D: "unat D = gcd (unat ?a) (2 ^ LENGTH('a))"
    using BigNumMontInverse_euclid_total[of 1 ?a ?a "0 - d" m, OF _ _ g] m by auto
  have r: "BigNumMontInverse A = Some (if D \<noteq> 1 then 0 else 0 - y)"
    using False it e by (simp add: BigNumMontInverse_def)
  have "D = 1 \<longleftrightarrow> odd (unat ?a)"
  proof
    assume "D = 1"
    then have "gcd (unat ?a) (2 ^ LENGTH('a)) = 1" using D[symmetric] by (simp only: unat_1)
    then have "coprime (unat ?a) (2 ^ LENGTH('a))" unfolding coprime_iff_gcd_eq_1 .
    then show "odd (unat ?a)" by (rule coprime_pow2_iff[OF len_gt_0, THEN iffD1])
  next
    assume "odd (unat ?a)"
    then have "coprime (unat ?a) (2 ^ LENGTH('a))" by (rule coprime_pow2_iff[OF len_gt_0, THEN iffD2])
    then have "unat D = 1" unfolding D coprime_iff_gcd_eq_1 .
    then show "D = 1" by (metis unsigned_1 unsigned_word_eqI)
  qed
  then show ?thesis using r y by auto
qed

section \<open>The word product as an interface\<close>

locale bn_word_mul =
  fixes WordMul :: "'a::len word \<Rightarrow> 'a word \<Rightarrow> 'a word \<times> 'a word"
  assumes WordMul_product: "WordMul a b = (hi, lo) \<Longrightarrow> unat hi * 2 ^ LENGTH('a) + unat lo = unat a * unat b"

lemma word_add_carry:
  "unat (x + y :: 'a::len word) + (if x + y < x then 2 ^ LENGTH('a) else 0) = unat x + unat y"
proof (cases "unat x + unat y < 2 ^ LENGTH('a)")
  case True
  then show ?thesis by (simp add: unat_plus_no_wrap word_less_nat_alt)
next
  case False
  then have "unat (x + y) + 2 ^ LENGTH('a) = unat x + unat y"
    using unat_plus_if'[of x y] by simp
  moreover from this have "unat (x + y) < unat x" using unat_less_2pow[of y] by linarith
  ultimately show ?thesis by (simp add: word_less_nat_alt)
qed

lemma add_carry:
  fixes h l c :: "'a::len word"
  assumes "unat h * 2 ^ LENGTH('a) + unat l + unat c < 2 ^ LENGTH('a) * 2 ^ LENGTH('a)"
  shows "unat (if l + c < c then h + 1 else h) * 2 ^ LENGTH('a) + unat (l + c) =
    unat h * 2 ^ LENGTH('a) + unat l + unat c"
proof (cases "l + c < c")
  case True
  then have e: "unat (l + c) + 2 ^ LENGTH('a) = unat l + unat c" using word_add_carry[of c l] by (simp add: add.commute)
  then have "Suc (unat h) * 2 ^ LENGTH('a) < 2 ^ LENGTH('a) * 2 ^ LENGTH('a)" using assms by simp
  then have "Suc (unat h) < 2 ^ LENGTH('a)" by (metis mult_less_cancel2)
  then have "unat (h + 1) = Suc (unat h)" by (simp add: unat_plus_no_wrap)
  then show ?thesis using True e by simp
next
  case False
  then show ?thesis using word_add_carry[of c l] by (simp add: add.commute)
qed

lemma mult_add_bound:
  fixes a b c d w :: nat
  assumes "a < w" "b < w" "c < w" "d < w"
  shows "a * b + c + d < w * w"
proof -
  have "a * b \<le> (w - 1) * (w - 1)" using assms by (intro mult_le_mono) auto
  moreover obtain v where "w = Suc v" using assms by (cases w) auto
  ultimately show ?thesis using assms by simp
qed

context bn_word_mul
begin

lemma AddMul:
  assumes "BigNumWordAddMul WordMul c a b = (hi, lo)"
  shows "unat hi * 2 ^ LENGTH('a) + unat lo = unat c + unat a * unat b"
proof -
  obtain h l where m: "WordMul a b = (h, l)" by (cases "WordMul a b")
  note p = WordMul_product[OF m]
  have "unat a * unat b + unat c + 0 < 2 ^ LENGTH('a) * 2 ^ LENGTH('a)" by (rule mult_add_bound) simp_all
  then have "unat h * 2 ^ LENGTH('a) + unat l + unat c < 2 ^ LENGTH('a) * 2 ^ LENGTH('a)" using p by simp
  from add_carry[OF this] show ?thesis
    using assms m p by (auto simp: BigNumWordAddMul_def Let_def)
qed

lemma AddMulCarry:
  assumes "BigNumWordAddMulCarry WordMul c a b k = (hi, lo)"
  shows "unat hi * 2 ^ LENGTH('a) + unat lo = unat c + unat a * unat b + unat k"
proof -
  obtain h l where m: "BigNumWordAddMul WordMul c a b = (h, l)" by (cases "BigNumWordAddMul WordMul c a b")
  note p = AddMul[OF m]
  have "unat a * unat b + unat c + unat k < 2 ^ LENGTH('a) * 2 ^ LENGTH('a)" by (rule mult_add_bound) simp_all
  then have "unat h * 2 ^ LENGTH('a) + unat l + unat k < 2 ^ LENGTH('a) * 2 ^ LENGTH('a)" using p by simp
  from add_carry[OF this] show ?thesis
    using assms m p by (auto simp: BigNumWordAddMulCarry_def Let_def)
qed

text \<open>The first word of a row: the chosen multiple of \<open>N\<close> clears it.\<close>

lemma AddMul_clears:
  assumes "N0Inv * N0 = - 1" "BigNumWordAddMul WordMul c (c * N0Inv) N0 = (hi, lo)"
  shows "lo = 0" "unat hi * 2 ^ LENGTH('a) = unat c + unat (c * N0Inv) * unat N0"
proof -
  have "of_nat (unat hi * 2 ^ LENGTH('a) + unat lo) = (of_nat (unat c + unat (c * N0Inv) * unat N0) :: 'a word)"
    using AddMul[OF assms(2)] by simp
  then have "lo = c + c * (N0Inv * N0)" by (simp add: mult.assoc)
  then show "lo = 0" using assms(1) by simp
  then show "unat hi * 2 ^ LENGTH('a) = unat c + unat (c * N0Inv) * unat N0" using AddMul[OF assms(2)] by simp
qed

lemma MontMulRow_loop:
  fixes R0 B N :: "'a word list" and a t :: "'a word"
  assumes n: "0 < n" "n \<le> length R0" "n \<le> length B" "n \<le> length N"
    and init: "2 ^ LENGTH('a) * (unat m0 + unat t0) = unat (R0 ! 0) + unat a * unat (B ! 0) + unat t * unat (N ! 0)"
    and F: "fold (BigNumMontMulRow_step WordMul a (Separate B) N t) [1..<n] (R0, m0, t0) = (R, m, t')"
  shows "length R = length R0"
    and "2 ^ LENGTH('a) * bn_val (take (n - 1) R) + 2 ^ (LENGTH('a) * n) * (unat m + unat t') =
      bn_val (take n R0) + unat a * bn_val (take n B) + unat t * bn_val (take n N)"
proof -
  let ?w = "LENGTH('a)"
  let ?P = "\<lambda>k (st :: 'a word list \<times> 'a word \<times> 'a word). case st of (R, m, t') \<Rightarrow> length R = length R0 \<and> (\<forall>i. k \<le> i \<longrightarrow> R ! i = R0 ! i) \<and>
      2 ^ ?w * bn_val (take (k - 1) R) + 2 ^ (?w * k) * (unat m + unat t') =
      bn_val (take k R0) + unat a * bn_val (take k B) + unat t * bn_val (take k N)"
  have "?P n (fold (BigNumMontMulRow_step WordMul a (Separate B) N t) [1..<n] (R0, m0, t0))"
  proof (rule fold_upt_inv[where P = ?P])
    show "1 \<le> n" using n by simp
    show "?P 1 (R0, m0, t0)" 
      using n init bn_val_take_Suc[of 0 R0] bn_val_take_Suc[of 0 B] bn_val_take_Suc[of 0 N]
      by (cases "R0 = []"; cases "B = []"; cases "N = []") auto
  next
    fix k and st :: "'a word list \<times> 'a word \<times> 'a word" assume k: "1 \<le> k" "k < n" and I: "?P k st"
    obtain R m t' where st: "st = (R, m, t')" by (cases st)
    obtain j where j: "k = Suc j" using k by (cases k) auto
    obtain m' lo where M: "BigNumWordAddMulCarry WordMul (R ! k) a (B ! k) m = (m', lo)" by fastforce
    obtain t'' lo' where T: "BigNumWordAddMulCarry WordMul lo t (N ! k) t' = (t'', lo')" by fastforce
    have s: "BigNumMontMulRow_step WordMul a (Separate B) N t k st = (R[j := lo'], m', t'')"
      using M T j by (simp add: st BigNumMontMulRow_step_def contents_def)
    have l: "length R = length R0" "\<forall>i. k \<le> i \<longrightarrow> R ! i = R0 ! i" using I st by auto
    have v: "2 ^ ?w * bn_val (take j R) + 2 ^ (?w * k) * (unat m + unat t') =
        bn_val (take k R0) + unat a * bn_val (take k B) + unat t * bn_val (take k N)" using I st j by simp
    have "(unat m' + unat t'') * 2 ^ ?w + unat lo' = unat (R0 ! k) + unat a * unat (B ! k) + unat t * unat (N ! k) + (unat m + unat t')"
      using AddMulCarry[OF M] AddMulCarry[OF T] l(2) by (simp add: algebra_simps)
    from arg_cong[OF this, of "\<lambda>x. 2 ^ (?w * k) * x"] v
    have "2 ^ ?w * bn_val (take (Suc j) (R[j := lo'])) + 2 ^ (?w * Suc k) * (unat m' + unat t'') =
      bn_val (take (Suc k) R0) + unat a * bn_val (take (Suc k) B) + unat t * bn_val (take (Suc k) N)"
      using k n l(1) j by (simp add: bn_val_take_Suc power_add algebra_simps)
    then show "?P (Suc k) (BigNumMontMulRow_step WordMul a (Separate B) N t k st)"
      unfolding s using l j by simp
  qed
  then show "length R = length R0"
    "2 ^ LENGTH('a) * bn_val (take (n - 1) R) + 2 ^ (LENGTH('a) * n) * (unat m + unat t') =
      bn_val (take n R0) + unat a * bn_val (take n B) + unat t * bn_val (take n N)"
    unfolding F by simp_all
qed

end

context bn_word_mul
begin

text \<open>One row: up to one multiple of \<open>N\<close>, the result is \<open>(Result + AWord * B) / 2^w\<close> modulo \<open>N\<close>.\<close>

lemma MontMulRow_val:
  fixes R0 B N :: "'a word list" and a :: "'a word"
  assumes n: "0 < n" "n \<le> length R0" "n \<le> length B" "n \<le> length N" and inv: "N0Inv * N ! 0 = - 1"
  defines "R' \<equiv> BigNumMontMulRow WordMul R0 n a (Separate B) N N0Inv"
  shows "length R' = length R0"
    and "\<exists>t q. t < 2 ^ LENGTH('a) \<and> 2 ^ LENGTH('a) * (bn_val (take n R') + q * bn_val (take n N)) =
      bn_val (take n R0) + unat a * bn_val (take n B) + t * bn_val (take n N)"
proof -
  let ?w = "LENGTH('a)" and ?V = "bn_val (take n N)" and ?P = "(2::nat) ^ (LENGTH('a) * n)"
  obtain j where j: "n = Suc j" using n by (cases n) auto
  obtain m0 lo where M: "BigNumWordAddMul WordMul (R0 ! 0) a (B ! 0) = (m0, lo)" by fastforce
  define t where "t = lo * N0Inv"
  obtain t0 lo' where T: "BigNumWordAddMul WordMul lo t (N ! 0) = (t0, lo')" by fastforce
  have init: "2 ^ ?w * (unat m0 + unat t0) = unat (R0 ! 0) + unat a * unat (B ! 0) + unat t * unat (N ! 0)"
    using AddMul[OF M] AddMul_clears(2)[OF inv T[unfolded t_def]] by (simp add: t_def algebra_simps)
  obtain R m t' where F: "fold (BigNumMontMulRow_step WordMul a (Separate B) N t) [1..<n] (R0, m0, t0) = (R, m, t')"
    by (metis prod_cases3)
  note loop = MontMulRow_loop[OF n init F]
  define R2 where "R2 = R[n - 1 := m + t']"
  have R': "R' = (if m + t' < m then BigNumSub_inplace R2 n N else R2)"
    unfolding R'_def BigNumMontMulRow_def R2_def using M T F by (simp add: t_def contents_def Let_def)
  define S where "S = bn_val (take n R0) + unat a * bn_val (take n B) + unat t * ?V"
  define X where "X = bn_val (take (n - 1) R) + 2 ^ (?w * (n - 1)) * (unat m + unat t')"
  have X: "2 ^ ?w * X = S" using loop(2) unfolding S_def X_def by (simp add: j power_add algebra_simps)
  have l2: "length R2 = length R0" using loop(1) by (simp add: R2_def)
  show "length R' = length R0" using l2 n by (simp add: R' BigNumSub_inplace_eq)
  have v2: "bn_val (take n R2) + (if m + t' < m then ?P else 0) = X"
  proof -
    have "bn_val (take n R2) + 2 ^ (?w * j) * (if m + t' < m then 2 ^ ?w else 0) = X"
      using n loop(1) unfolding X_def R2_def j word_add_carry[of m t', symmetric] by (simp add: bn_val_take_Suc distrib_left)
    then show ?thesis by (simp add: j power_add mult.commute split: if_splits)
  qed
  have tlt: "unat t < 2 ^ ?w" by simp
  show "\<exists>t q. t < 2 ^ ?w \<and> 2 ^ ?w * (bn_val (take n R') + q * ?V) =
      bn_val (take n R0) + unat a * bn_val (take n B) + t * ?V"
  proof (cases "m + t' < m")
    case False
    then have "2 ^ ?w * (bn_val (take n R') + 0 * ?V) = S" using v2 X R' by simp
    then show ?thesis unfolding S_def using tlt by blast
  next
    case True
    have XP: "X = bn_val (take n R2) + ?P" using v2 True by simp
    have "2 ^ ?w * X < 2 ^ ?w * (?P + ?V)"
    proof -
      have "bn_val (take n R0) + unat a * bn_val (take n B) < ?P + (2 ^ ?w - 1) * ?P"
        using bn_val_take_less[of n R0] bn_val_take_less[of n B] unat_less_2pow[of a]
        by (intro add_less_le_mono mult_le_mono) linarith+
      moreover have "unat t * ?V \<le> 2 ^ ?w * ?V" using tlt by (intro mult_le_mono1) linarith
      moreover have "?P + (2 ^ ?w - 1) * ?P = 2 ^ ?w * ?P" by (metis add.commute mult_eq_if power_not_zero zero_neq_numeral)
      ultimately show ?thesis unfolding X S_def distrib_left by linarith
    qed
    then have lt: "X < ?P + ?V" by simp
    have V: "?V < ?P" by (rule bn_val_take_less)
    have "int (bn_val (take n R')) = (int (bn_val (take n R2)) - int ?V) mod 2 ^ (?w * n)"
      using True R' n l2 BigNumSub_val(1)[of n R2 N R2] by (simp add: BigNumSub_inplace_eq)
    also have "int (bn_val (take n R2)) - int ?V = (int X - int ?V) - int ?P" unfolding XP by simp
    also have "\<dots> mod 2 ^ (?w * n) = (int X - int ?V) mod 2 ^ (?w * n)" by simp
    also have "\<dots> = int X - int ?V" 
    proof (rule mod_pos_pos_trivial)
      have "int ?P = 2 ^ (?w * n)" by simp
      then show "0 \<le> int X - int ?V" "int X - int ?V < 2 ^ (?w * n)" using lt V XP by linarith+
    qed
    finally have "bn_val (take n R') + 1 * ?V = X" by linarith
    then have "2 ^ ?w * (bn_val (take n R') + 1 * ?V) = S" using X by simp
    then show ?thesis unfolding S_def using tlt by blast
  qed
qed

text \<open>The whole product: congruent to \<open>A * B / R\<close> modulo \<open>N\<close>, and bounded.\<close>

lemma MontMul_val:
  fixes Res A B N :: "'a word list"
  assumes n: "0 < n" "n \<le> length Res" "n \<le> length A" "n \<le> length B" "n \<le> length N" and inv: "N0Inv * N ! 0 = - 1"
  defines "R' \<equiv> BigNumMontMul WordMul Res n A (Separate B) N N0Inv" and "P \<equiv> (2::nat) ^ (LENGTH('a) * n)"
  shows "length R' = length Res"
    and "\<exists>u q. u < P \<and> P * bn_val (take n R') + q * bn_val (take n N) =
      bn_val (take n A) * bn_val (take n B) + u * bn_val (take n N)"
proof -
  let ?w = "LENGTH('a)" and ?V = "bn_val (take n N)"
  let ?I = "\<lambda>k (R :: 'a word list). length R = length Res \<and> (\<exists>u q. u < 2 ^ (?w * k) \<and> 2 ^ (?w * k) * bn_val (take n R) + q * ?V =
      bn_val (take k A) * bn_val (take n B) + u * ?V)"
  have "?I n R'" unfolding R'_def BigNumMontMul_def
  proof (rule fold_upt_inv[where P = ?I])
    have "take n (overwrite Res 0 (replicate n 0)) = replicate n 0" using n by (simp add: overwrite_def)
    then show "?I 0 (overwrite Res 0 (replicate n 0))" using n by simp
  next
    fix k and R :: "'a word list" assume k: "0 \<le> k" "k < n" and "?I k R"
    then obtain u q where l: "length R = length Res" and u: "u < 2 ^ (?w * k)"
      and e: "2 ^ (?w * k) * bn_val (take n R) + q * ?V = bn_val (take k A) * bn_val (take n B) + u * ?V" by blast
    let ?R = "BigNumMontMulRow WordMul R n (A ! k) (Separate B) N N0Inv"
    have n': "n \<le> length R" using n l by simp
    note row = MontMulRow_val[OF n(1) n' n(4,5) inv, of "A ! k"]
    obtain t q' where t: "t < 2 ^ ?w" and r: "2 ^ ?w * (bn_val (take n ?R) + q' * ?V) =
      bn_val (take n R) + unat (A ! k) * bn_val (take n B) + t * ?V" using row(2) by blast
    have "2 ^ (?w * Suc k) * bn_val (take n ?R) + (q + 2 ^ (?w * Suc k) * q') * ?V =
        bn_val (take (Suc k) A) * bn_val (take n B) + (u + 2 ^ (?w * k) * t) * ?V"
      using arg_cong[OF r, of "\<lambda>x. 2 ^ (?w * k) * x"] e k n(3)
      by (simp add: bn_val_take_Suc power_add algebra_simps)
    moreover have "u + 2 ^ (?w * k) * t < 0 + 2 ^ (?w * k) * 2 ^ ?w" using u t by (intro digit_less)
    then have "u + 2 ^ (?w * k) * t < 2 ^ (?w * Suc k)" by (simp add: power_add mult.commute)
    ultimately show "?I (Suc k) ?R" using row(1) l
      by (intro conjI exI[of _ "u + 2 ^ (?w * k) * t"] exI[of _ "q + 2 ^ (?w * Suc k) * q'"]) (simp_all only:)
  qed simp
  then show "length R' = length Res"
    "\<exists>u q. u < P \<and> P * bn_val (take n R') + q * ?V = bn_val (take n A) * bn_val (take n B) + u * ?V"
    by (auto simp: P_def)
qed

end

text \<open>A zero multiplier, in particular the result buffer passed as its own multiplier: the rows only
  add zeros.\<close>

context bn_word_mul
begin

lemma WordMul_0 [simp]: "WordMul x 0 = (0, 0)" "WordMul 0 x = (0, 0)"
proof -
  have "hi = 0 \<and> lo = 0" if "unat hi * 2 ^ LENGTH('a) + unat lo = 0" for hi lo :: "'a word"
    using that by (simp add: unat_eq_0)
  then show "WordMul x 0 = (0, 0)" "WordMul 0 x = (0, 0)"
    using WordMul_product[of x 0] WordMul_product[of 0 x] by (metis mult_0 mult_0_right surj_pair unsigned_0)+
qed

lemma AddMul_0 [simp]: "BigNumWordAddMul WordMul 0 x 0 = (0, 0)" "BigNumWordAddMul WordMul 0 0 x = (0, 0)"
  "BigNumWordAddMulCarry WordMul 0 x 0 0 = (0, 0)" "BigNumWordAddMulCarry WordMul 0 0 x 0 = (0, 0)"
  by (simp_all add: BigNumWordAddMul_def BigNumWordAddMulCarry_def)

lemma MontMulRow_aliased_zero:
  fixes R N :: "'a word list"
  assumes "0 < n" "n \<le> length R" "take n R = replicate n 0"
  shows "BigNumMontMulRow WordMul R n a Aliased N N0Inv = R"
proof -
  have z: "R ! i = 0" if "i < n" for i using arg_cong[OF assms(3), of "\<lambda>xs. xs ! i"] that assms(2) by simp
  have u: "R[i := 0] = R" if "i < n" for i using z[OF that] by (metis list_update_id)
  have "fold (BigNumMontMulRow_step WordMul a Aliased N 0) [1..<n] (R, 0, 0) = (R, 0, 0)"
    by (rule fold_upt_inv[where P = "\<lambda>k st. st = (R, 0, 0)"])
      (use assms z u in \<open>auto simp: BigNumMontMulRow_step_def contents_def\<close>)
  then show ?thesis using assms z[of 0] u[of "n - 1"] by (simp add: BigNumMontMulRow_def contents_def)
qed

lemma MontMul_aliased_zero:
  fixes R A N :: "'a word list"
  assumes "0 < n" "n \<le> length R"
  shows "BigNumMontMul WordMul R n A Aliased N N0Inv = overwrite R 0 (replicate n 0)"
  unfolding BigNumMontMul_def
  by (rule fold_upt_inv[where P = "\<lambda>k R'. R' = overwrite R 0 (replicate n 0)"])
    (use assms in \<open>auto simp: MontMulRow_aliased_zero overwrite_def\<close>)

text \<open>The row with a zero factor, and the product with 1.\<close>

lemma MontMulRow0_zero:
  fixes R N :: "'a word list"
  assumes "0 < n" "n \<le> length R" "take n R = replicate n 0"
  shows "BigNumMontMulRow0 WordMul R n N N0Inv = R"
proof -
  have z: "R ! i = 0" if "i < n" for i using arg_cong[OF assms(3), of "\<lambda>xs. xs ! i"] that assms(2) by simp
  have u: "R[i := 0] = R" if "i < n" for i using z[OF that] by (metis list_update_id)
  have "fold (BigNumMontMulRow0_step WordMul N 0) [1..<n] (R, 0) = (R, 0)"
    by (rule fold_upt_inv[where P = "\<lambda>k st. st = (R, 0)"]) (use assms z u in \<open>auto simp: BigNumMontMulRow0_step_def\<close>)
  then show ?thesis using assms z[of 0] u[of "n - 1"] by (simp add: BigNumMontMulRow0_def)
qed

lemma MontMulRow_zero:
  fixes R A N :: "'a word list"
  assumes "0 < n" "n \<le> length R" "take n R = replicate n 0" "n \<le> length A" "take n A = replicate n 0"
  shows "BigNumMontMulRow WordMul R n a (Separate A) N N0Inv = R"
proof -
  have z: "R ! i = 0" "A ! i = 0" if "i < n" for i
    using arg_cong[OF assms(3), of "\<lambda>xs. xs ! i"] arg_cong[OF assms(5), of "\<lambda>xs. xs ! i"] that assms(2,4) by simp_all
  have u: "R[i := 0] = R" if "i < n" for i using z(1)[OF that] by (metis list_update_id)
  have "fold (BigNumMontMulRow_step WordMul a (Separate A) N 0) [1..<n] (R, 0, 0) = (R, 0, 0)"
    by (rule fold_upt_inv[where P = "\<lambda>k st. st = (R, 0, 0)"])
      (use assms z u in \<open>auto simp: BigNumMontMulRow_step_def contents_def\<close>)
  then show ?thesis using assms z[of 0] u[of "n - 1"] by (simp add: BigNumMontMulRow_def contents_def)
qed

lemma MontMul1_zero:
  fixes R A N :: "'a word list"
  assumes "0 < n" "n \<le> length R" "n \<le> length A" "take n A = replicate n 0"
  shows "BigNumMontMul1 WordMul R n A N N0Inv = overwrite R 0 (replicate n 0)"
proof -
  let ?Z = "overwrite R 0 (replicate n 0)"
  have Z: "n \<le> length ?Z" "take n ?Z = replicate n 0" using assms by (simp_all add: overwrite_def)
  have "fold (\<lambda>RowIndex R. BigNumMontMulRow0 WordMul R n N N0Inv) [1..<n] ?Z = ?Z"
    by (rule fold_upt_inv[where P = "\<lambda>k R'. R' = ?Z"]) (use assms Z in \<open>auto simp: MontMulRow0_zero\<close>)
  then show ?thesis using assms Z by (simp add: BigNumMontMul1_def MontMulRow_zero Let_def)
qed

text \<open>\<open>BigNumMontMulRow0\<close> is the row with factor 0, as its comment says.\<close>

lemma MontMulRow0_eq:
  fixes R B N :: "'a word list"
  assumes "0 < n"
  shows "BigNumMontMulRow WordMul R n 0 (Separate B) N N0Inv = BigNumMontMulRow0 WordMul R n N N0Inv"
proof -
  have a: "BigNumWordAddMul WordMul c 0 b = (0, c)" "BigNumWordAddMulCarry WordMul c 0 b 0 = (0, c)" for b c
    by (simp_all add: BigNumWordAddMul_def BigNumWordAddMulCarry_def)
  have f: "fold (BigNumMontMulRow_step WordMul 0 (Separate B) N t) [1..<n] (R, 0, h) =
      (case fold (BigNumMontMulRow0_step WordMul N t) [1..<n] (R, h) of (R', h') \<Rightarrow> (R', 0, h'))" for t h
  proof (induction n)
    case (Suc n)
    show ?case
    proof (cases "n = 0")
      case False
      then have e: "[1..<Suc n] = [1..<n] @ [n]" by simp
      show ?thesis unfolding e fold_append comp_apply Suc.IH
        by (auto simp: BigNumMontMulRow_step_def BigNumMontMulRow0_step_def contents_def a split: prod.splits)
    qed simp
  qed simp
  obtain h lo where T: "BigNumWordAddMul WordMul (R ! 0) (R ! 0 * N0Inv) (N ! 0) = (h, lo)" by fastforce
  obtain R' h' where F: "fold (BigNumMontMulRow0_step WordMul N (R ! 0 * N0Inv)) [1..<n] (R, h) = (R', h')" by fastforce
  show ?thesis
    unfolding BigNumMontMulRow_def BigNumMontMulRow0_def using f[of "R ! 0 * N0Inv" h] T F
    by (simp add: a contents_def)
qed

end

section \<open>The modular power\<close>

lemma mod_cancel:
  fixes p v x y :: nat
  assumes "coprime p v" "(p * x) mod v = (p * y) mod v"
  shows "x mod v = y mod v"
proof -
  have "int v dvd int p * int x - int p * int y"
    using assms(2) by (metis mod_eq_dvd_iff of_nat_mod of_nat_mult)
  then have "int v dvd int p * (int x - int y)" by (simp only: right_diff_distrib)
  moreover have "coprime (int v) (int p)" using assms(1) by (simp add: coprime_commute)
  ultimately have "int v dvd int x - int y" by (simp add: coprime_dvd_mult_right_iff)
  then show ?thesis by (metis mod_eq_dvd_iff of_nat_eq_iff of_nat_mod)
qed

lemma inverse_imp_odd:
  fixes N :: "'a::len word list"
  assumes "N0Inv * N ! 0 = - 1" "0 < n" "n \<le> length N"
  shows "coprime (2 ^ k) (bn_val (take n N))"
proof -
  have "odd (N0Inv * N ! 0)" unfolding assms(1) by simp
  then have "odd (N ! 0)" by (metis even_mult_iff)
  then have "odd (unat (N ! 0))" 
    unfolding bit_0[symmetric] by (simp only: bit_unsigned_iff possible_bit_nat simp_thms)
  moreover obtain x xs where "take n N = x # xs" "x = N ! 0"
    using assms(2,3) by (cases N; cases n) auto
  ultimately have "odd (bn_val (take n N))" by simp
  then show ?thesis by (simp add: coprime_left_2_iff_odd)
qed

context bn_word_mul
begin

lemma MontMul_mod:
  fixes Res A B N :: "'a word list"
  assumes n: "0 < n" "n \<le> length Res" "n \<le> length A" "n \<le> length B" "n \<le> length N" and inv: "N0Inv * N ! 0 = - 1"
    and P: "P = (2::nat) ^ (LENGTH('a) * n)" and V: "V = bn_val (take n N)"
    and m: "(bn_val (take n A) * bn_val (take n B)) mod V = (P * z) mod V"
  shows "bn_val (take n (BigNumMontMul WordMul Res n A (Separate B) N N0Inv)) mod V = z mod V"
    and "bn_val (take n (BigNumMontMul WordMul Res n A (Separate B) N N0Inv)) * P \<le>
      bn_val (take n A) * bn_val (take n B) + (P - 1) * V"
    and "length (BigNumMontMul WordMul Res n A (Separate B) N N0Inv) = length Res"
proof -
  let ?Z = "bn_val (take n (BigNumMontMul WordMul Res n A (Separate B) N N0Inv))"
  obtain u q where u: "u < P" and e: "P * ?Z + q * V = bn_val (take n A) * bn_val (take n B) + u * V"
    using MontMul_val(2)[OF n inv] unfolding P V by blast
  have h: "(P * ?Z) mod V = (bn_val (take n A) * bn_val (take n B)) mod V"
    using arg_cong[OF e, of "\<lambda>x. x mod V"] by simp
  have "coprime P V" using inverse_imp_odd[OF inv n(1,5)] unfolding P V .
  then show "?Z mod V = z mod V" by (rule mod_cancel) (simp only: h m)
  have "u * V \<le> (P - 1) * V" using u by (intro mult_le_mono1) simp
  then show "?Z * P \<le> bn_val (take n A) * bn_val (take n B) + (P - 1) * V"
    using e unfolding mult.commute[of _ P] by linarith
  show "length (BigNumMontMul WordMul Res n A (Separate B) N N0Inv) = length Res"
    using MontMul_val(1)[OF n inv] .
qed

lemma mod_mult_cong: "a mod v = a' mod v \<Longrightarrow> b mod v = b' mod v \<Longrightarrow> (a * b) mod v = (a' * b') mod (v :: nat)"
  by (metis mod_mult_eq)

lemma squarings:
  fixes N :: "'a word list"
  assumes n: "0 < n" "n \<le> length R0" "n \<le> length T0" "n \<le> length N" and inv: "N0Inv * N ! 0 = - 1"
    and P: "P = (2::nat) ^ (LENGTH('a) * n)" and V: "V = bn_val (take n N)"
    and T0: "bn_val (take n T0) mod V = (a * P) mod V"
    and F: "fold (\<lambda>(Index :: nat) st. case st of (R, T) \<Rightarrow>
        (let R' = BigNumMontMul WordMul R n T (Separate T) N N0Inv;
             T' = BigNumMontMul WordMul T n R' (Separate R') N N0Inv in (R', T'))) [0..<k] (R0, T0) = (R, T)"
  shows "length R = length R0 \<and> length T = length T0 \<and> bn_val (take n T) mod V = (a ^ (4 ^ k) * P) mod V"
proof -
  let ?I = "\<lambda>k (st :: 'a word list \<times> 'a word list). length (fst st) = length R0 \<and> length (snd st) = length T0 \<and>
      bn_val (take n (snd st)) mod V = (a ^ (4 ^ k) * P) mod V"
  have "?I k (fold (\<lambda>(Index :: nat) st. case st of (R, T) \<Rightarrow>
        (let R' = BigNumMontMul WordMul R n T (Separate T) N N0Inv;
             T' = BigNumMontMul WordMul T n R' (Separate R') N N0Inv in (R', T'))) [0..<k] (R0, T0))"
  proof (rule fold_upt_inv[where P = ?I])
    fix i and st :: "'a word list \<times> 'a word list" assume I: "?I i st"
    obtain R T where st: "st = (R, T)" by (cases st)
    let ?R = "BigNumMontMul WordMul R n T (Separate T) N N0Inv"
    let ?T = "BigNumMontMul WordMul T n ?R (Separate ?R) N N0Inv"
    have l: "n \<le> length R" "n \<le> length T" "length R = length R0" "length T = length T0" using I n st by auto
    have t: "bn_val (take n T) mod V = (a ^ (4 ^ i) * P) mod V" using I st by simp
    have "(bn_val (take n T) * bn_val (take n T)) mod V = (P * (a ^ (2 * 4 ^ i) * P)) mod V"
    proof -
      have "a ^ (2 * 4 ^ i) = a ^ (4 ^ i) * a ^ (4 ^ i)" by (simp add: mult_2 power_add)
      then show ?thesis using mod_mult_cong[OF t t] by (simp only: ac_simps)
    qed
    note r = MontMul_mod[OF n(1) l(1,2,2) n(4) inv P V this]
    have "(bn_val (take n ?R) * bn_val (take n ?R)) mod V = (P * (a ^ (4 ^ Suc i) * P)) mod V"
    proof -
      have "a ^ (4 ^ Suc i) = a ^ (2 * 4 ^ i) * a ^ (2 * 4 ^ i)" by (simp flip: power_add)
      then show ?thesis using mod_mult_cong[OF r(1) r(1)] by (simp only: ac_simps)
    qed
    note t' = MontMul_mod[OF n(1) l(2) _ _ n(4) inv P V this]
    show "?I (Suc i) (case st of (R, T) \<Rightarrow>
        (let R' = BigNumMontMul WordMul R n T (Separate T) N N0Inv;
             T' = BigNumMontMul WordMul T n R' (Separate R') N N0Inv in (R', T')))"
      using t' r(3) l by (simp add: st Let_def)
  qed (use T0 in simp_all)
  then show ?thesis by (simp only: F fst_conv snd_conv)
qed

lemma final_reduction:
  fixes R N :: "'a word list"
  assumes "n \<le> length R" "n \<le> length N" "bn_val (take n R) < 2 * bn_val (take n N)"
  shows "bn_val (take n (if BigNumCmp R n N \<ge> 0 then BigNumSub_inplace R n N else R)) = bn_val (take n R) mod bn_val (take n N)"
proof (cases "bn_val (take n N) \<le> bn_val (take n R)")
  case True
  then have "bn_val (take n (BigNumSub_inplace R n N)) = bn_val (take n R) - bn_val (take n N)"
    using assms BigNumSub_val_ge[of n R N R] by (simp add: BigNumSub_inplace_eq)
  moreover have "bn_val (take n R) mod bn_val (take n N) = bn_val (take n R) - bn_val (take n N)"
    using True assms(3) by (simp add: mod_if)
  ultimately show ?thesis using True assms by (simp add: BigNumCmp_ge_0)
next
  case False
  then show ?thesis using assms by (simp add: BigNumCmp_ge_0)
qed

lemma PowMod_65537:
  fixes Res A N RSqrMod ATmp :: "'a word list"
  assumes n: "0 < n" "n \<le> length Res" "n \<le> length A" "n \<le> length N" "n \<le> length RSqrMod" "n \<le> length ATmp"
    and inv: "N0Inv * N ! 0 = - 1"
    and P: "P = (2::nat) ^ (LENGTH('a) * n)" and V: "V = bn_val (take n N)" and a: "a = bn_val (take n A)"
    and rsqr: "bn_val (take n RSqrMod) mod V = (P * P) mod V"
    and range: "a < V \<or> P \<le> 2 * V"
  shows "\<exists>R T. BigNumPowMod WordMul Res n A 0x10001 N N0Inv RSqrMod ATmp = (True, R, T) \<and>
    length R = length Res \<and> bn_val (take n R) = a ^ 65537 mod V"
proof -
  let ?M = "\<lambda>R X Y. BigNumMontMul WordMul R n X (Separate Y) N N0Inv"
  define T0 where "T0 = ?M ATmp A RSqrMod"
  have "(bn_val (take n A) * bn_val (take n RSqrMod)) mod V = (P * (a * P)) mod V"
    using mod_mult_cong[OF refl rsqr, of a] by (simp add: a ac_simps)
  note t0 = MontMul_mod[OF n(1,6,3,5,4) inv P V this, folded T0_def]
  obtain R T where F: "fold (\<lambda>(Index :: nat) st. case st of (R, T) \<Rightarrow>
        (let R' = ?M R T T; T' = ?M T R' R' in (R', T'))) [0..<8] (Res, T0) = (R, T)" by fastforce
  have lT0: "n \<le> length T0" using t0(3) n by simp
  note sq = squarings[OF n(1,2) lT0 n(4) inv P V t0(1) F]
  have "(4::nat) ^ 8 = 65536" by simp
  then have T: "length R = length Res" "n \<le> length R" "n \<le> length T" "bn_val (take n T) mod V = (a ^ 65536 * P) mod V"
    using sq lT0 n by simp_all
  define Z where "Z = ?M R T A"
  have "(bn_val (take n T) * bn_val (take n A)) mod V = (P * a ^ 65537) mod V"
  proof -
    have "a ^ 65537 = a ^ 65536 * a" using power_Suc2[of a 65536] by simp
    then show ?thesis using mod_mult_cong[OF T(4) refl, of a] by (simp only: a ac_simps)
  qed
  note z = MontMul_mod[OF n(1) T(2,3) n(3,4) inv P V this, folded Z_def]
  have "bn_val (take n Z) < 2 * V"
  proof (cases "P \<le> 2 * V")
    case True
    then show ?thesis using bn_val_take_less[of n Z] P by linarith
  next
    case False
    then have "a < V" using range by simp
    have Tl: "bn_val (take n T) \<le> P - 1" using bn_val_take_less[of n T] P by linarith
    have "bn_val (take n Z) * P \<le> (P - 1) * V + (P - 1) * V"
      using z(2) mult_le_mono[OF Tl less_imp_le[OF \<open>a < V\<close>]] unfolding a by linarith
    also have "\<dots> < (2 * V) * P"
    proof -
      have "(P - 1) * V < P * V" using \<open>a < V\<close> P by (intro mult_less_mono1) simp_all
      then show ?thesis unfolding mult_2 distrib_right by (simp only: mult.commute[of V] add_strict_mono)
    qed
    finally show ?thesis by simp
  qed
  then have "bn_val (take n (if BigNumCmp Z n N \<ge> 0 then BigNumSub_inplace Z n N else Z)) = a ^ 65537 mod V"
    using final_reduction[of n Z N] z(1,3) n T V by simp
  moreover have "length (if BigNumCmp Z n N \<ge> 0 then BigNumSub_inplace Z n N else Z) = length Res"
    using z(3) T n by (simp add: BigNumSub_inplace_eq)
  moreover have "BigNumPowMod WordMul Res n A 0x10001 N N0Inv RSqrMod ATmp =
      (True, if BigNumCmp Z n N \<ge> 0 then BigNumSub_inplace Z n N else Z, T)"
    unfolding BigNumPowMod_def using F by (simp add: Let_def T0_def Z_def)
  ultimately show ?thesis by blast
qed

lemma PowMod_3:
  fixes Res A N RSqrMod ATmp :: "'a word list"
  assumes n: "0 < n" "n \<le> length Res" "n \<le> length A" "n \<le> length N" "n \<le> length RSqrMod" "n \<le> length ATmp"
    and inv: "N0Inv * N ! 0 = - 1"
  shows "\<exists>R T. BigNumPowMod WordMul Res n A 3 N N0Inv RSqrMod ATmp = (True, R, T) \<and>
    length R = length Res \<and> take n R = replicate n 0"
proof -
  let ?M = "\<lambda>R X Y. BigNumMontMul WordMul R n X (Separate Y) N N0Inv"
  define T0 where "T0 = ?M ATmp A RSqrMod"
  define R where "R = ?M Res T0 T0"
  have l: "n \<le> length T0" "length R = length Res"
    using MontMul_val(1)[OF n(1,6,3,5,4) inv] MontMul_val(1)[OF n(1,2) _ _ n(4) inv] n by (simp_all add: R_def T0_def)
  let ?T = "overwrite T0 0 (replicate n 0)" and ?R = "overwrite R 0 (replicate n 0)"
  have T: "take n ?T = replicate n 0" "n \<le> length ?T" using l by (simp_all add: overwrite_def)
  have R: "take n ?R = replicate n 0" "length ?R = length Res" using l n by (simp_all add: overwrite_def)
  have "bn_val (take n N) \<noteq> 0"
    using inverse_imp_odd[OF inv n(1,4), of 1] by (intro notI) simp
  then have c: "\<not> BigNumCmp ?R n N \<ge> 0" using R n by (simp add: BigNumCmp_ge_0)
  have "BigNumPowMod WordMul Res n A 3 N N0Inv RSqrMod ATmp = (True, ?R, ?T)"
    unfolding BigNumPowMod_def
    using MontMul_aliased_zero[OF n(1) l(1)] MontMul1_zero[OF n(1) _ T(2,1), of R] c l n
    by (simp add: Let_def T0_def[symmetric] R_def[symmetric])
  then show ?thesis using R by blast
qed

end

section \<open>The Montgomery parameters\<close>

lemma CalculateMontParams_val:
  fixes N :: "'a::len word list"
  assumes w: "1 < LENGTH('a)" and n: "0 < n" "n \<le> length N" "n \<le> length RSqrMod"
    and odd: "odd (unat (N ! 0))"
    and V: "V = bn_val (take n N)" and big: "2 ^ (LENGTH('a) * (n - 2)) \<le> V"
    and scratch: "length Scratch = 3 * OC_BN_MONT_RSQR_LEN n"
  shows "\<exists>inv R. BigNumCalculateMontParams RSqrMod n N Scratch = Some (inv, R) \<and> inv \<noteq> 0 \<and> inv * N ! 0 = - 1 \<and>
    length R = length RSqrMod \<and>
    bn_val (take n R) = 2 ^ (2 * (LENGTH('a) * n)) mod V"
proof -
  let ?w = "LENGTH('a)" and ?m = "OC_BN_MONT_RSQR_LEN n"
  obtain inv where inv: "BigNumMontInverse N = Some inv" "inv * N ! 0 = - 1" using BigNumMontInverse_total[of N] odd by auto
  then have inv0: "inv \<noteq> 0" by auto
  let ?A = "BigNumOrWord (replicate ?m (0 :: 'a word)) ?m 1 (2 * (n * ?w))"
  have e: "2 * (n * ?w) < ?w * ?m" by (simp add: OC_BN_MONT_RSQR_LEN_def algebra_simps)
  have A: "bn_val (take ?m ?A) = 2 ^ (2 * (n * ?w))" "length ?A = ?m"
    using BigNumOrWord_zero[OF e, of "replicate ?m 0"] by simp_all
  have m: "0 < ?m" "?m \<le> length ?A" using A by (simp_all add: OC_BN_MONT_RSQR_LEN_def)
  have ba: "bit_len (bn_val (take ?m ?A)) = Suc (2 * (n * ?w))" using A by simp
  have i: "Suc (BigNumMostSignificantWord ?A ?m) = 2 * n + 1"
  proof -
    have "Suc (BigNumMostSignificantWord ?A ?m) = (Suc (2 * (n * ?w)) + (?w - 1)) div ?w"
      using sig_words_take(1)[OF m] A ba by simp
    also have "\<dots> = 2 * n + 1" using ceil_words_eq[of ?w 1 "2 * n"] w by (simp add: algebra_simps)
    finally show ?thesis .
  qed
  have V0: "0 < V" using big by (cases V) simp_all
  have bl: "Suc (?w * (n - 2)) \<le> bit_len V"
    using bit_len_mono[OF big] by simp
  have blu: "bit_len V \<le> ?w * n" using bn_val_take_less[of n N] by (simp add: V bit_len_le_iff)
  have dv: "(Suc (2 * (n * ?w)) - bit_len V) div ?w \<le> n + 2"
  proof -
    have "?w * (2 * n) \<le> ?w * ((n - 2) + (n + 2))" by (intro mult_le_mono2) simp
    then have "2 * (n * ?w) \<le> ?w * (n - 2) + (n + 2) * ?w" by (simp only: distrib_left distrib_right ac_simps)
    then have "Suc (2 * (n * ?w)) - bit_len V \<le> (n + 2) * ?w" using bl by linarith
    then show ?thesis by (metis div_le_mono nonzero_mult_div_cancel_right len_not_eq_0)
  qed
  obtain R where R: "BigNumMod n ?A ?m N (drop ?m Scratch) = Some R" "length R = n"
    "bn_val R = bn_val (take ?m ?A) mod bn_val (take n N)"
    using BigNumMod_val[OF w n(1,2) m, of "drop ?m Scratch"] V0 blu dv scratch ba unfolding i V[symmetric]
    by (auto simp: OC_BN_MONT_RSQR_LEN_def algebra_simps)
  have "BigNumCalculateMontParams RSqrMod n N Scratch = Some (inv, overwrite RSqrMod 0 R)"
    using inv inv0 R(1) by (simp add: BigNumCalculateMontParams_def Let_def OC_BN_WORD_NUM_BITS_def)
  moreover have "take n (overwrite RSqrMod 0 R) = R" "length (overwrite RSqrMod 0 R) = length RSqrMod"
    using R(2) n(3) by (simp_all add: overwrite_def)
  ultimately show ?thesis using inv inv0 R(3) A by (simp add: V mult.commute[of n])
qed

lemma CalculateMontParams_even:
  "even (unat (N ! 0)) \<Longrightarrow> BigNumCalculateMontParams RSqrMod n N Scratch = Some (0, RSqrMod)"
  using BigNumMontInverse_total[of N] by (auto simp: BigNumCalculateMontParams_def)

section \<open>The products of the three builds\<close>

interpretation mul32: bn_word_mul "BigNumWordMul WordMul64 :: u32 \<Rightarrow> u32 \<Rightarrow> u32 \<times> u32" for WordMul64
  by unfold_locales (use WordMul_32 in \<open>simp add: len_num1 len_num0\<close>)

interpretation mul64: bn_word_mul "BigNumWordMul BigNumWordMul64_Cpu64"
  by unfold_locales (use WordMul_Cpu64 in \<open>simp add: BigNumWordMul_def OC_BN_WORD_SIZE_def\<close>)

interpretation mul64_Cpu32: bn_word_mul "BigNumWordMul BigNumWordMul64_Cpu32"
  by unfold_locales (use WordMul_Cpu32 in \<open>simp add: BigNumWordMul_def OC_BN_WORD_SIZE_def\<close>)

section \<open>Properties\<close>

text \<open>
  The Montgomery inverse of every word is found: the loops end, an odd word gets the \<open>r\<close> with
  \<open>r * A[0] = -1\<close> modulo \<open>2^w\<close>, and an even word gets 0, the failure value.
\<close>

theorem BigNumMontInverse_correct:
  fixes A :: "'a::len word list"
  shows "\<exists>r. BigNumMontInverse A = Some r \<and> (odd (unat (A ! 0)) \<longrightarrow> r * A ! 0 = - 1) \<and> (even (unat (A ! 0)) \<longrightarrow> r = 0)"
  by (rule BigNumMontInverse_total)

theorem BigNumMontInverse_correct_witness:
  "(\<exists>r. BigNumMontInverse [1 :: u64] = Some r \<and> r = - 1) \<and> (\<exists>r. BigNumMontInverse [6 :: u64] = Some r \<and> r = 0)"
  using BigNumMontInverse_correct[of "[1 :: u64]"] BigNumMontInverse_correct[of "[6 :: u64]"] by auto

text \<open>
  For an odd modulus with at most two leading zero words, and a scratch buffer of the
  documented size, the Montgomery parameters are computed: the inverse of the lowest word and
  \<open>R^2 mod N\<close>, with \<open>R = 2^(w * NumWords)\<close>.
\<close>

theorem BigNumCalculateMontParams_correct:
  fixes N RSqrMod Scratch :: "'a::len word list"
  assumes "1 < LENGTH('a)" "0 < NumWords" "NumWords \<le> length N" "NumWords \<le> length RSqrMod"
    and "odd (unat (N ! 0))" and "2 ^ (LENGTH('a) * (NumWords - 2)) \<le> bn_val (take NumWords N)"
    and "length Scratch = 3 * OC_BN_MONT_RSQR_LEN NumWords"
  shows "\<exists>N0Inv R. BigNumCalculateMontParams RSqrMod NumWords N Scratch = Some (N0Inv, R) \<and>
     N0Inv \<noteq> 0 \<and> N0Inv * N ! 0 = - 1 \<and> length R = length RSqrMod \<and>
     bn_val (take NumWords R) = 2 ^ (2 * (LENGTH('a) * NumWords)) mod bn_val (take NumWords N)"
  using CalculateMontParams_val[OF assms(1-5) refl assms(6,7)] .

theorem BigNumCalculateMontParams_correct_witness:
  "\<exists>N0Inv R. BigNumCalculateMontParams [0, 0] 2 [7, 5 :: u64] (replicate 18 0) = Some (N0Inv, R) \<and>
     N0Inv \<noteq> 0 \<and> N0Inv * [7, 5] ! 0 = - 1 \<and> length R = length [0, 0 :: u64] \<and>
     bn_val (take 2 R) = 2 ^ (2 * (LENGTH(64) * 2)) mod bn_val (take 2 [7, 5 :: u64])"
  by (rule BigNumCalculateMontParams_correct) (simp_all add: OC_BN_MONT_RSQR_LEN_def)

text \<open>
  C11: \<open>BigNumPowMod\<close> with exponent 65537 computes the modular power, for the products of both
  64-bit builds, whenever the modulus is odd, the parameters are the Montgomery parameters and either
  the base is reduced or the modulus fills its words (as the comment on the final step assumes).
\<close>

theorem BigNumPowMod_65537_correct:
  fixes Result A N RSqrMod ATmp :: "u64 list"
  assumes W: "WordMul = BigNumWordMul BigNumWordMul64_Cpu64 \<or> WordMul = BigNumWordMul BigNumWordMul64_Cpu32"
    and n: "0 < NumWords" "NumWords \<le> length Result" "NumWords \<le> length A" "NumWords \<le> length N"
      "NumWords \<le> length RSqrMod" "NumWords \<le> length ATmp"
    and inv: "N0Inv * N ! 0 = - 1"
    and rsqr: "bn_val (take NumWords RSqrMod) mod bn_val (take NumWords N) =
      (2 ^ (64 * NumWords) * 2 ^ (64 * NumWords)) mod bn_val (take NumWords N)"
    and range: "bn_val (take NumWords A) < bn_val (take NumWords N) \<or> 2 ^ (64 * NumWords) \<le> 2 * bn_val (take NumWords N)"
  shows "\<exists>R T. BigNumPowMod WordMul Result NumWords A 0x10001 N N0Inv RSqrMod ATmp = (True, R, T) \<and>
    length R = length Result \<and> bn_val (take NumWords R) = bn_val (take NumWords A) ^ 65537 mod bn_val (take NumWords N)"
proof -
  have L: "(2::nat) ^ (64 * NumWords) = 2 ^ (LENGTH(64) * NumWords)" by simp
  show ?thesis
    using W mul64.PowMod_65537[OF n inv L refl refl rsqr range] mul64_Cpu32.PowMod_65537[OF n inv L refl refl rsqr range]
    by blast
qed

theorem BigNumPowMod_65537_correct_witness:
  "\<exists>R T. BigNumPowMod (BigNumWordMul BigNumWordMul64_Cpu64) [0] 1 [2] 0x10001 [- 1] 1 [1] [0] = (True, R, T) \<and>
    length R = length [0 :: u64] \<and> bn_val (take 1 R) = bn_val (take 1 [2 :: u64]) ^ 65537 mod bn_val (take 1 [- 1 :: u64])"
  by (rule BigNumPowMod_65537_correct) (simp_all add: unsigned_minus_1_eq_mask mask_eq_exp_minus_1)

text \<open>
  With exponent 3 the call \<open>BigNumMontMul (ATmp, NumWords, Result, ATmp, ...)\<close> clears its own
  multiplier, so that the reported power is always 0, whatever the base: no signature for a key with
  exponent 3 can be accepted.
\<close>

theorem BigNumPowMod_exponent_3_zero:
  fixes Result A N RSqrMod ATmp :: "u64 list"
  assumes W: "WordMul = BigNumWordMul BigNumWordMul64_Cpu64 \<or> WordMul = BigNumWordMul BigNumWordMul64_Cpu32"
    and n: "0 < NumWords" "NumWords \<le> length Result" "NumWords \<le> length A" "NumWords \<le> length N"
      "NumWords \<le> length RSqrMod" "NumWords \<le> length ATmp"
    and inv: "N0Inv * N ! 0 = - 1"
  shows "\<exists>R T. BigNumPowMod WordMul Result NumWords A 3 N N0Inv RSqrMod ATmp = (True, R, T) \<and>
    length R = length Result \<and> take NumWords R = replicate NumWords 0"
  using W mul64.PowMod_3[OF n inv] mul64_Cpu32.PowMod_3[OF n inv] by blast

theorem BigNumPowMod_exponent_3_zero_witness:
  "\<exists>R T. BigNumPowMod (BigNumWordMul BigNumWordMul64_Cpu64) [0] 1 [2] 3 [- 1] 1 [1] [0] = (True, R, T) \<and>
    length R = length [0 :: u64] \<and> take 1 R = replicate 1 0"
  by (rule BigNumPowMod_exponent_3_zero) simp_all

text \<open>
  \<open>BigNumMontMul\<close> of two separate operands in the 32-bit build, which does not use the 64-bit
  product at all: the product times \<open>R\<close> is congruent to \<open>A * B\<close> modulo \<open>N\<close>, and it is bounded by
  \<open>(A * B + (R - 1) * N) / R\<close>.
\<close>

theorem BigNumMontMul_32_correct:
  fixes Result A B N :: "u32 list"
  assumes n: "0 < NumWords" "NumWords \<le> length Result" "NumWords \<le> length A" "NumWords \<le> length B" "NumWords \<le> length N"
    and inv: "N0Inv * N ! 0 = - 1"
  shows "(bn_val (take NumWords (BigNumMontMul (BigNumWordMul WordMul64) Result NumWords A (Separate B) N N0Inv)) *
        2 ^ (32 * NumWords)) mod bn_val (take NumWords N) =
      (bn_val (take NumWords A) * bn_val (take NumWords B)) mod bn_val (take NumWords N) \<and>
    bn_val (take NumWords (BigNumMontMul (BigNumWordMul WordMul64) Result NumWords A (Separate B) N N0Inv)) *
        2 ^ (32 * NumWords) \<le> bn_val (take NumWords A) * bn_val (take NumWords B) + (2 ^ (32 * NumWords) - 1) * bn_val (take NumWords N)"
proof -
  let ?Z = "bn_val (take NumWords (BigNumMontMul (BigNumWordMul WordMul64) Result NumWords A (Separate B) N N0Inv))"
  let ?V = "bn_val (take NumWords N)"
  obtain u q where u: "u < 2 ^ (32 * NumWords)" and e: "2 ^ (32 * NumWords) * ?Z + q * ?V =
      bn_val (take NumWords A) * bn_val (take NumWords B) + u * ?V"
    using mul32.MontMul_val(2)[OF n inv, of WordMul64] by (auto simp: len_num0 len_num1)
  have "u * ?V \<le> (2 ^ (32 * NumWords) - 1) * ?V" using u by (intro mult_le_mono1) simp
  moreover have "(2 ^ (32 * NumWords) * ?Z) mod ?V = (bn_val (take NumWords A) * bn_val (take NumWords B)) mod ?V"
    using arg_cong[OF e, of "\<lambda>x. x mod ?V"] by (simp only: mod_mult_self1)
  ultimately show ?thesis using e unfolding mult.commute[of ?Z] by linarith
qed

theorem BigNumMontMul_32_correct_witness:
  "(bn_val (take 1 (BigNumMontMul (BigNumWordMul (\<lambda>a b. (0, 0))) [0 :: u32] 1 [5] (Separate [6]) [- 1] 1)) *
        2 ^ (32 * 1)) mod bn_val (take 1 [- 1 :: u32]) = 30"
  using BigNumMontMul_32_correct[of 1 "[0 :: u32]" "[5]" "[6]" "[- 1]" 1 "\<lambda>a b. (0, 0)"]
  by (simp add: unsigned_minus_1_eq_mask mask_eq_exp_minus_1)

end
