(* ===== verification/Oc_MerkleDamgard.thy ===== *)
theory Oc_MerkleDamgard
  imports Oc_Prelude
begin

unbundle bit_operations_syntax

text \<open>
  What the hash functions of \<^verbatim>\<open>Library/OcCryptoLib\<close> share: the reference construction (pad the
  message, split it into blocks, fold the compression function over them), and the buffering code that
  \<^verbatim>\<open>Md5.c\<close>, \<^verbatim>\<open>Sha1.c\<close> and the SHA-256 part of \<^verbatim>\<open>Sha2.c\<close> repeat with their own
  \<open>Transform\<close>. The locale \<open>md_transform\<close> states what that code relies on; the three hash functions
  interpret it in their own theories.
\<close>

section \<open>The reference construction\<close>

definition blocks :: "nat \<Rightarrow> 'a list \<Rightarrow> 'a list list" where
  "blocks n xs = map (\<lambda>i. window xs (n * i) n) [0..<length xs div n]"

definition md_padded :: "nat \<Rightarrow> nat \<Rightarrow> (nat \<Rightarrow> byte list) \<Rightarrow> byte list \<Rightarrow> byte list" where
  "md_padded bs lf enc msg =
     msg @ 0x80 # replicate ((bs - (length msg + 1 + lf) mod bs) mod bs) 0 @ enc (length msg)"

definition md_hash ::
  "nat \<Rightarrow> nat \<Rightarrow> (nat \<Rightarrow> byte list) \<Rightarrow> ('h \<Rightarrow> byte list \<Rightarrow> 'h) \<Rightarrow> 'h \<Rightarrow> byte list \<Rightarrow> 'h" where
  "md_hash bs lf enc compress h0 msg = foldl compress h0 (blocks bs (md_padded bs lf enc msg))"

text \<open>The bytes of the length and of the words of a digest, most or least significant first.\<close>

definition be64_bytes :: "u64 \<Rightarrow> byte list" where
  "be64_bytes x = map (\<lambda>i. ucast (drop_bit (56 - 8 * i) x)) [0..<8]"

definition be32_bytes :: "u32 \<Rightarrow> byte list" where
  "be32_bytes x = map (\<lambda>i. ucast (drop_bit (24 - 8 * i) x)) [0..<4]"

definition le32_bytes :: "u32 \<Rightarrow> byte list" where
  "le32_bytes x = map (\<lambda>i. ucast (drop_bit (8 * i) x)) [0..<4]"

definition le64_bytes :: "u64 \<Rightarrow> byte list" where
  "le64_bytes x = map (\<lambda>i. ucast (drop_bit (8 * i) x)) [0..<8]"

lemma length_be64_bytes [simp]: "length (be64_bytes x) = 8"
  by (simp add: be64_bytes_def)

lemma length_le64_bytes [simp]: "length (le64_bytes x) = 8"
  by (simp add: le64_bytes_def)

section \<open>The shared code\<close>

record md_ctx =
  Data :: "byte list"
  DataLen :: u32
  BitLen :: u64
  State :: "u32 list"

text \<open>One pass of the update loops: store a byte, transform a full block.\<close>

definition md_update_byte ::
  "('z md_ctx_scheme \<Rightarrow> byte list \<Rightarrow> 'z md_ctx_scheme) \<Rightarrow> byte \<Rightarrow> 'z md_ctx_scheme \<Rightarrow> 'z md_ctx_scheme" where
  "md_update_byte Transform b c =
     (let c1 = c\<lparr>Data := (Data c)[unat (DataLen c) := b]\<rparr>;
          c2 = c1\<lparr>DataLen := DataLen c1 + 1\<rparr>
      in if DataLen c2 = 64
         then (let c3 = Transform c2 (Data c2) in c3\<lparr>BitLen := BitLen c3 + 512, DataLen := 0\<rparr>)
         else c2)"

text \<open>The padding steps of the final functions, up to the last transform; \<open>enc\<close> is the order in
  which the bytes of \<open>BitLen\<close> are stored into \<open>Data[56..63]\<close>.\<close>

definition md_finish ::
  "('z md_ctx_scheme \<Rightarrow> byte list \<Rightarrow> 'z md_ctx_scheme) \<Rightarrow> (u64 \<Rightarrow> byte list) \<Rightarrow> 'z md_ctx_scheme \<Rightarrow> 'z md_ctx_scheme" where
  "md_finish Transform enc c =
     (let Index = unat (DataLen c);
          c1 = c\<lparr>Data := (Data c)[Index := 0x80]\<rparr>;
          c2 = (if DataLen c < 56
                then c1\<lparr>Data := overwrite (Data c1) (Index + 1) (replicate (56 - (Index + 1)) 0)\<rparr>
                else
                  (let c' = c1\<lparr>Data := overwrite (Data c1) (Index + 1) (replicate (64 - (Index + 1)) 0)\<rparr>;
                       c'' = Transform c' (Data c')
                   in c''\<lparr>Data := overwrite (Data c'') 0 (replicate 56 0)\<rparr>));
          c3 = c2\<lparr>BitLen := BitLen c2 + ucast (DataLen c2 * 8)\<rparr>;
          c4 = c3\<lparr>Data := overwrite (Data c3) 56 (enc (BitLen c3))\<rparr>
      in Transform c4 (Data c4))"

section \<open>Blocks\<close>

lemma length_blocks [simp]: "length (blocks n xs) = length xs div n"
  by (simp add: blocks_def)

lemma blocks_single: "length xs = n \<Longrightarrow> 0 < n \<Longrightarrow> blocks n xs = [xs]"
  by (simp add: blocks_def window_def)

lemma blocks_Nil [simp]: "blocks n [] = []"
  by (simp add: blocks_def)

lemma blocks_append:
  assumes "n dvd length xs" "0 < n"
  shows "blocks n (xs @ ys) = blocks n xs @ blocks n ys"
proof (rule nth_equalityI)
  obtain q where q: "length xs = n * q" using assms(1) by blast
  show "length (blocks n (xs @ ys)) = length (blocks n xs @ blocks n ys)"
    using assms(2) by (simp add: q)
  fix i assume "i < length (blocks n (xs @ ys))"
  then have i: "i < q + length ys div n" using assms(2) by (simp add: q)
  show "blocks n (xs @ ys) ! i = (blocks n xs @ blocks n ys) ! i"
  proof (cases "i < q")
    case True
    then have "n * Suc i \<le> n * q" by (intro mult_le_mono2) simp
    then have "window (xs @ ys) (n * i) n = window xs (n * i) n" using q by (simp add: window_def)
    then show ?thesis using True i assms(2) by (simp add: blocks_def nth_append q)
  next
    case False
    then have "n * i - n * q = n * (i - q)" by (simp add: diff_mult_distrib2)
    moreover have "n * q \<le> n * i" using False by (intro mult_le_mono2) simp
    ultimately have "window (xs @ ys) (n * i) n = window ys (n * (i - q)) n" using q by (simp add: window_def)
    moreover have "i - q < length ys div n" using False i by simp
    ultimately show ?thesis using False i assms(2) by (simp add: blocks_def nth_append q)
  qed
qed

lemma blocks_snoc:
  "n dvd length xs \<Longrightarrow> length b = n \<Longrightarrow> 0 < n \<Longrightarrow> blocks n (xs @ b) = blocks n xs @ [b]"
  by (simp add: blocks_append blocks_single)

lemma map_upt_concat: "map f [0..<n * m] = concat (map (\<lambda>j. map (\<lambda>i. f (m * j + i)) [0..<m]) [0..<n])"
proof (induction n)
  case (Suc n)
  have "map f [n * m..<n * m + m] = map (\<lambda>i. f (m * n + i)) [0..<m]"
    by (intro nth_equalityI) (simp_all add: mult.commute)
  moreover have "[0..<Suc n * m] = [0..<n * m] @ [n * m..<n * m + m]"
    using upt_add_eq_append[of 0 "n * m" m] by (simp add: add.commute)
  ultimately show ?case using Suc by simp
qed simp

lemma ucast_and_FF: "(ucast (x AND 0x000000FF :: u32) :: byte) = ucast x"
proof (rule bit_word_eqI)
  fix n assume n: "n < LENGTH(8)"
  have "bit (mask 8 :: u32) n" using n by (simp only: bit_mask_iff) simp
  moreover have "(0x000000FF :: u32) = mask 8" by (simp add: mask_eq_exp_minus_1)
  ultimately show "bit (ucast (x AND 0x000000FF) :: byte) n = bit (ucast x :: byte) n"
    using n by (simp only: bit_ucast_iff bit_and_iff simp_thms)
qed

text \<open>The digest loops write the words of the state one byte column after the other.\<close>

lemma digest_be32:
  assumes "length S = n"
  shows "map (\<lambda>k. ucast (drop_bit (24 - (k mod 4) * 8) (S ! (k div 4)) AND 0x000000FF) :: byte) [0..<n * 4] =
    concat (map be32_bytes S)"
proof -
  have "map (\<lambda>k. ucast (drop_bit (24 - (k mod 4) * 8) (S ! (k div 4))) :: byte) [0..<n * 4] =
      concat (map (\<lambda>j. be32_bytes (S ! j)) [0..<n])"
    unfolding map_upt_concat be32_bytes_def
    by (intro arg_cong[where f = concat] map_cong refl) (simp add: mult.commute)
  moreover have "map (\<lambda>j. be32_bytes (S ! j)) [0..<n] = map be32_bytes S"
    using assms by (intro nth_equalityI) auto
  ultimately show ?thesis unfolding ucast_and_FF by simp
qed

lemma digest_le32:
  assumes "length S = n"
  shows "map (\<lambda>k. ucast (drop_bit ((k mod 4) * 8) (S ! (k div 4)) AND 0x000000FF) :: byte) [0..<n * 4] =
    concat (map le32_bytes S)"
proof -
  have "map (\<lambda>k. ucast (drop_bit ((k mod 4) * 8) (S ! (k div 4))) :: byte) [0..<n * 4] =
      concat (map (\<lambda>j. le32_bytes (S ! j)) [0..<n])"
    unfolding map_upt_concat le32_bytes_def
    by (intro arg_cong[where f = concat] map_cong refl) (simp add: mult.commute)
  moreover have "map (\<lambda>j. le32_bytes (S ! j)) [0..<n] = map le32_bytes S"
    using assms by (intro nth_equalityI) auto
  ultimately show ?thesis unfolding ucast_and_FF by simp
qed

lemma overwrite_append: "length xs = k \<Longrightarrow> length ys = length zs \<Longrightarrow> overwrite (xs @ zs) k ys = xs @ ys"
  by (simp add: overwrite_def)

section \<open>The interface of a transform\<close>

locale md_transform =
  fixes Transform :: "'z md_ctx_scheme \<Rightarrow> byte list \<Rightarrow> 'z md_ctx_scheme"
    and compress :: "'z \<Rightarrow> u32 list \<Rightarrow> byte list \<Rightarrow> u32 list"
  assumes Transform_State: "Transform c d = c\<lparr>State := compress (md_ctx.more c) (State c) d\<rparr>"
begin

text \<open>A context represents the message \<open>msg\<close> hashed so far, starting from \<open>h0\<close>.\<close>

definition md_repr :: "u32 list \<Rightarrow> 'z \<Rightarrow> byte list \<Rightarrow> 'z md_ctx_scheme \<Rightarrow> bool" where
  "md_repr h0 z msg c \<longleftrightarrow>
     length (Data c) = 64 \<and> md_ctx.more c = z \<and>
     unat (DataLen c) = length msg mod 64 \<and>
     take (length msg mod 64) (Data c) = drop (64 * (length msg div 64)) msg \<and>
     BitLen c = of_nat (512 * (length msg div 64)) \<and>
     State c = foldl (compress z) h0 (blocks 64 (take (64 * (length msg div 64)) msg))"

lemma md_repr_init:
  "length (Data c) = 64 \<Longrightarrow> DataLen c = 0 \<Longrightarrow> BitLen c = 0 \<Longrightarrow> md_repr (State c) (md_ctx.more c) [] c"
  by (simp add: md_repr_def)

lemma md_repr_update_byte:
  assumes "md_repr h0 z msg c"
  shows "md_repr h0 z (msg @ [b]) (md_update_byte Transform b c)"
proof -
  let ?n = "length msg mod 64" and ?q = "length msg div 64"
  have n: "?n < 64" "64 * ?q + ?n = length msg" by simp_all
  have d: "length (Data c) = 64" "md_ctx.more c = z" "unat (DataLen c) = ?n" and t: "take ?n (Data c) = drop (64 * ?q) msg"
    and B: "BitLen c = of_nat (512 * ?q)" and S: "State c = foldl (compress z) h0 (blocks 64 (take (64 * ?q) msg))"
    using assms by (simp_all add: md_repr_def)
  have u: "unat (DataLen c + 1) = Suc ?n"
    using n(1) d(3) by (simp add: unat_word_ariths)
  have u64: "DataLen c + 1 = 64 \<longleftrightarrow> Suc ?n = 64"
    unfolding word_unat_eq_iff u by simp
  let ?D = "(Data c)[?n := b]"
  have tD: "take (Suc ?n) ?D = drop (64 * ?q) msg @ [b]"
    using n(1) d(1) t by (simp add: take_Suc_conv_app_nth)
  show ?thesis
  proof (cases "Suc ?n = 64")
    case False
    then have m: "length (msg @ [b]) mod 64 = Suc ?n" "length (msg @ [b]) div 64 = ?q" by (simp_all add: mod_Suc div_Suc)
    have "md_update_byte Transform b c = c\<lparr>Data := ?D, DataLen := DataLen c + 1\<rparr>"
      using False u64 d(3) by (simp add: md_update_byte_def)
    then show ?thesis unfolding md_repr_def m using d tD B S u n(2) by simp
  next
    case True
    then have m: "length (msg @ [b]) mod 64 = 0" "length (msg @ [b]) div 64 = Suc ?q" by (simp_all add: mod_Suc div_Suc)
    have l: "length (msg @ [b]) = 64 * Suc ?q" unfolding length_append list.size using n(2) True by presburger
    have D: "?D = drop (64 * ?q) msg @ [b]" using tD True d(1) by simp
    have e: "msg @ [b] = take (64 * ?q) msg @ ?D" unfolding D by simp
    have "blocks 64 (msg @ [b]) = blocks 64 (take (64 * ?q) msg) @ [?D]"
      unfolding e using d(1) n(2) by (intro blocks_snoc) simp_all
    moreover have "md_update_byte Transform b c = c\<lparr>Data := ?D, DataLen := 0, BitLen := BitLen c + 512,
        State := compress z (State c) ?D\<rparr>"
      using True u64 d by (simp add: md_update_byte_def Transform_State)
    ultimately show ?thesis unfolding md_repr_def m using d S B l by simp
  qed
qed

lemma md_repr_update:
  "md_repr h0 z msg c \<Longrightarrow> md_repr h0 z (msg @ bs) (fold (md_update_byte Transform) bs c)"
proof (induction bs arbitrary: msg c)
  case (Cons b bs)
  from Cons.IH[OF md_repr_update_byte[OF Cons.prems, of b]] show ?case by simp
qed simp

text \<open>The final steps hash the padded message.\<close>

lemma md_finish_State:
  assumes r: "md_repr h0 z msg c" and enc: "\<And>x. length (enc x) = 8"
  shows "State (md_finish Transform enc c) =
    md_hash 64 8 (\<lambda>n. enc (of_nat (8 * n))) (compress z) h0 msg"
proof -
  let ?n = "length msg mod 64" and ?q = "length msg div 64"
  have n: "?n < 64" "64 * ?q + ?n = length msg" by simp_all
  have d: "length (Data c) = 64" "md_ctx.more c = z" "unat (DataLen c) = ?n" and t: "take ?n (Data c) = drop (64 * ?q) msg"
    and B: "BitLen c = of_nat (512 * ?q)" and S: "State c = foldl (compress z) h0 (blocks 64 (take (64 * ?q) msg))"
    using r by (simp_all add: md_repr_def)
  have L: "BitLen c + ucast (DataLen c * 8) = of_nat (8 * length msg)"
  proof -
    have "unat (DataLen c * 8) = 8 * ?n" using d(3) n(1) by (simp add: unat_word_ariths)
    then have "(ucast (DataLen c * 8) :: u64) = of_nat (8 * ?n)"
      unfolding word_unat_eq_iff unat_ucast unat_of_nat by (simp only:)
    then have "BitLen c + ucast (DataLen c * 8) = of_nat (512 * ?q + 8 * ?n)" by (simp only: B of_nat_add)
    also have "512 * ?q + 8 * ?n = 8 * length msg" using n(2) by linarith
    finally show ?thesis .
  qed
  let ?E = "enc (of_nat (8 * length msg))"
  let ?D = "(Data c)[?n := 0x80]"
  have D: "take (Suc ?n) ?D = drop (64 * ?q) msg @ [0x80]"
    using n(1) d(1) t by (simp add: take_Suc_conv_app_nth)
  have less: "DataLen c < 56 \<longleftrightarrow> ?n < 56" using d(3) by (simp add: word_less_nat_alt)
  have head: "64 dvd length (take (64 * ?q) msg)" using n(2) by simp
  show ?thesis
  proof (cases "?n < 56")
    case True
    let ?Z = "replicate (55 - ?n) (0 :: byte)"
    have z: "(64 - (length msg + 1 + 8) mod 64) mod 64 = 55 - ?n"
    proof -
      have "(length msg + 1 + 8) mod 64 = (?n + 9) mod 64" by presburger
      then show ?thesis using True by (cases "?n = 55") simp_all
    qed
    let ?blk = "drop (64 * ?q) msg @ 0x80 # ?Z @ ?E"
    have "md_padded 64 8 (\<lambda>n. enc (of_nat (8 * n))) msg = take (64 * ?q) msg @ ?blk"
      unfolding md_padded_def z by simp
    moreover have lb: "length ?blk = 64" using True n(2) enc by simp
    ultimately have bl: "blocks 64 (md_padded 64 8 (\<lambda>n. enc (of_nat (8 * n))) msg) = blocks 64 (take (64 * ?q) msg) @ [?blk]"
      using blocks_snoc[OF head lb] by simp
    have o1: "overwrite ?D (Suc ?n) ?Z = drop (64 * ?q) msg @ 0x80 # ?Z @ drop 56 ?D"
      using D True d(1) by (simp add: overwrite_def)
    have "length (drop (64 * ?q) msg @ 0x80 # ?Z) = 56" "length (drop 56 ?D) = length ?E" using True n(2) d(1) enc by simp_all
    then have o2: "overwrite (overwrite ?D (Suc ?n) ?Z) 56 ?E = ?blk"
      unfolding o1 using overwrite_append[of "drop (64 * ?q) msg @ 0x80 # ?Z" 56 ?E] by simp
    have "State (md_finish Transform enc c) = compress z (State c) ?blk"
      using True less d L o2 by (simp add: md_finish_def Transform_State Let_def)
    then show ?thesis unfolding md_hash_def bl using S by simp
  next
    case False
    let ?Z = "replicate (63 - ?n) (0 :: byte)" and ?Y = "replicate 56 (0 :: byte)"
    have z: "(64 - (length msg + 1 + 8) mod 64) mod 64 = (63 - ?n) + 56"
    proof -
      have "(length msg + 1 + 8) mod 64 = (?n + 9) mod 64" by presburger
      also have "\<dots> = ?n + 9 - 64" using False n(1) by (simp add: mod_if)
      finally show ?thesis using False n(1) by simp
    qed
    let ?b1 = "drop (64 * ?q) msg @ 0x80 # ?Z" and ?b2 = "?Y @ ?E"
    have p: "md_padded 64 8 (\<lambda>n. enc (of_nat (8 * n))) msg = (take (64 * ?q) msg @ ?b1) @ ?b2"
      unfolding md_padded_def z replicate_add by simp
    have lb: "length ?b1 = 64" "length ?b2 = 64" using n enc by simp_all
    have dv: "64 dvd length (take (64 * ?q) msg @ ?b1)" using head lb(1) by (simp only: length_append) simp
    have bl: "blocks 64 (md_padded 64 8 (\<lambda>n. enc (of_nat (8 * n))) msg) = blocks 64 (take (64 * ?q) msg) @ [?b1] @ [?b2]"
      unfolding p blocks_snoc[OF dv lb(2) zero_less_numeral] blocks_snoc[OF head lb(1) zero_less_numeral] by simp
    have o1: "overwrite ?D (Suc ?n) ?Z = ?b1"
      using D False n(1) d(1) by (simp add: overwrite_def)
    have o2: "overwrite (overwrite b 0 ?Y) 56 ?E = ?b2" if "length b = 64" for b
      using that enc[of "of_nat (8 * length msg)"] by (simp add: overwrite_def)
    have "State (md_finish Transform enc c) = compress z (compress z (State c) ?b1) ?b2"
      using False less d L o1 o2[OF lb(1)] by (simp add: md_finish_def Transform_State Let_def)
    then show ?thesis unfolding md_hash_def bl using S by simp
  qed
qed

end

end
