(* ===== verification/Oc_Sha256.thy ===== *)
theory Oc_Sha256
  imports Oc_MerkleDamgard
begin

unbundle bit_operations_syntax

text \<open>
  Model of the SHA-256 part of \<^verbatim>\<open>Library/OcCryptoLib/Sha2.c\<close>: the message schedule and the
  rounds, initialisation, update, final. \<open>Sha256Update\<close> counts bytes in a \<open>UINT32\<close> while its length is
  a \<open>UINTN\<close>, so its loop is modelled with the 32-bit counter and may not end.
\<close>

section \<open>The code\<close>

definition ROTRIGHT :: "'a::len word \<Rightarrow> nat \<Rightarrow> 'a word" where
  "ROTRIGHT a b = (drop_bit b a OR push_bit (LENGTH('a) - b) a)"

definition CH :: "'a::len word \<Rightarrow> 'a word \<Rightarrow> 'a word \<Rightarrow> 'a word" where
  "CH x y z = ((x AND y) XOR (NOT x AND z))"

definition MAJ :: "'a::len word \<Rightarrow> 'a word \<Rightarrow> 'a word \<Rightarrow> 'a word" where
  "MAJ x y z = ((x AND y) XOR (x AND z) XOR (y AND z))"

definition SHA256_EP0 :: "u32 \<Rightarrow> u32" where
  "SHA256_EP0 x = (ROTRIGHT x 2 XOR ROTRIGHT x 13 XOR ROTRIGHT x 22)"

definition SHA256_EP1 :: "u32 \<Rightarrow> u32" where
  "SHA256_EP1 x = (ROTRIGHT x 6 XOR ROTRIGHT x 11 XOR ROTRIGHT x 25)"

definition SHA256_SIG0 :: "u32 \<Rightarrow> u32" where
  "SHA256_SIG0 x = (ROTRIGHT x 7 XOR ROTRIGHT x 18 XOR drop_bit 3 x)"

definition SHA256_SIG1 :: "u32 \<Rightarrow> u32" where
  "SHA256_SIG1 x = (ROTRIGHT x 17 XOR ROTRIGHT x 19 XOR drop_bit 10 x)"

definition SHA256_K :: "u32 list" where
  "SHA256_K =
    [0x428A2F98, 0x71374491, 0xB5C0FBCF, 0xE9B5DBA5, 0x3956C25B, 0x59F111F1, 0x923F82A4, 0xAB1C5ED5,
     0xD807AA98, 0x12835B01, 0x243185BE, 0x550C7DC3, 0x72BE5D74, 0x80DEB1FE, 0x9BDC06A7, 0xC19BF174,
     0xE49B69C1, 0xEFBE4786, 0x0FC19DC6, 0x240CA1CC, 0x2DE92C6F, 0x4A7484AA, 0x5CB0A9DC, 0x76F988DA,
     0x983E5152, 0xA831C66D, 0xB00327C8, 0xBF597FC7, 0xC6E00BF3, 0xD5A79147, 0x06CA6351, 0x14292967,
     0x27B70A85, 0x2E1B2138, 0x4D2C6DFC, 0x53380D13, 0x650A7354, 0x766A0ABB, 0x81C2C92E, 0x92722C85,
     0xA2BFE8A1, 0xA81A664B, 0xC24B8B70, 0xC76C51A3, 0xD192E819, 0xD6990624, 0xF40E3585, 0x106AA070,
     0x19A4C116, 0x1E376C08, 0x2748774C, 0x34B0BCB5, 0x391C0CB3, 0x4ED8AA4A, 0x5B9CCA4F, 0x682E6FF3,
     0x748F82EE, 0x78A5636F, 0x84C87814, 0x8CC70208, 0x90BEFFFA, 0xA4506CEB, 0xBEF9A3F7, 0xC67178F2]"

definition SHA256_H0 :: "u32 list" where
  "SHA256_H0 =
    [0x6a09e667, 0xbb67ae85, 0x3c6ef372, 0xa54ff53a, 0x510e527f, 0x9b05688c, 0x1f83d9ab, 0x5be0cd19]"

subsection \<open>The transform\<close>

definition Sha256Transform_M :: "byte list \<Rightarrow> u32 list" where
  "Sha256Transform_M D =
     (let M0 = map (\<lambda>Index1. push_bit 24 (ucast (D ! (4 * Index1))) OR push_bit 16 (ucast (D ! (4 * Index1 + 1)))
                 OR push_bit 8 (ucast (D ! (4 * Index1 + 2))) OR ucast (D ! (4 * Index1 + 3))) [0..<16]
      in fold (\<lambda>Index1 M. M @ [SHA256_SIG1 (M ! (Index1 - 2)) + M ! (Index1 - 7)
                                + SHA256_SIG0 (M ! (Index1 - 15)) + M ! (Index1 - 16)]) [16..<64] M0)"

definition Sha256Transform_round ::
  "u32 list \<Rightarrow> nat \<Rightarrow> u32 \<times> u32 \<times> u32 \<times> u32 \<times> u32 \<times> u32 \<times> u32 \<times> u32 \<Rightarrow>
   u32 \<times> u32 \<times> u32 \<times> u32 \<times> u32 \<times> u32 \<times> u32 \<times> u32" where
  "Sha256Transform_round M Index1 st =
     (case st of (A, B, C, D, E, F, G, H) \<Rightarrow>
        (let T1 = H + SHA256_EP1 E + CH E F G + SHA256_K ! Index1 + M ! Index1;
             T2 = SHA256_EP0 A + MAJ A B C
         in (T1 + T2, A, B, C, D + T1, E, F, G)))"

definition sha256_compress :: "u32 list \<Rightarrow> byte list \<Rightarrow> u32 list" where
  "sha256_compress S D =
     (case fold (Sha256Transform_round (Sha256Transform_M D)) [0..<64]
             (S ! 0, S ! 1, S ! 2, S ! 3, S ! 4, S ! 5, S ! 6, S ! 7) of
        (A, B, C, D, E, F, G, H) \<Rightarrow>
          [S ! 0 + A, S ! 1 + B, S ! 2 + C, S ! 3 + D, S ! 4 + E, S ! 5 + F, S ! 6 + G, S ! 7 + H])"

definition Sha256Transform :: "md_ctx \<Rightarrow> byte list \<Rightarrow> md_ctx" where
  "Sha256Transform Context D = Context\<lparr>State := sha256_compress (State Context) D\<rparr>"

subsection \<open>Init, update, final\<close>

definition Sha256Init :: "md_ctx \<Rightarrow> md_ctx" where
  "Sha256Init Context =
     Context\<lparr>State := map (\<lambda>Index. SHA256_H0 ! Index) [0..<8], DataLen := 0, BitLen := 0\<rparr>"

text \<open>The counter of the loop is a \<open>UINT32\<close>; \<open>None\<close> is a loop that does not end.\<close>

definition Sha256Update_body ::
  "byte list \<Rightarrow> nat \<Rightarrow> u32 \<times> md_ctx \<Rightarrow> (u32 \<times> md_ctx, md_ctx) ctl" where
  "Sha256Update_body Msg Len st =
     (case st of (Index, Context) \<Rightarrow>
        if unat Index < Len
        then Continue (Index + 1, md_update_byte Sha256Transform (Msg ! unat Index) Context)
        else Break Context)"

definition Sha256Update :: "md_ctx \<Rightarrow> byte list \<Rightarrow> nat \<Rightarrow> md_ctx option" where
  "Sha256Update Context Msg Len = iterate (Sha256Update_body Msg Len) (0, Context)"

definition Sha256Final :: "md_ctx \<Rightarrow> byte list" where
  "Sha256Final Context =
     (let S = State (md_finish Sha256Transform be64_bytes Context)
      in map (\<lambda>k. ucast (drop_bit (24 - (k mod 4) * 8) (S ! (k div 4)) AND 0x000000FF)) [0..<32])"

definition Sha256 :: "md_ctx \<Rightarrow> byte list \<Rightarrow> nat \<Rightarrow> byte list option" where
  "Sha256 Ctx Msg Len =
     do {
       Ctx' \<leftarrow> Sha256Update (Sha256Init Ctx) Msg Len;
       Some (Sha256Final Ctx')
     }"

section \<open>Lemmas\<close>

interpretation sha256: md_transform Sha256Transform "\<lambda>_ :: unit. sha256_compress"
  by unfold_locales (simp add: Sha256Transform_def)

lemma Sha256Update_eq:
  assumes "Len \<le> length Msg" "Len < 2 ^ 32"
  shows "Sha256Update c Msg Len = Some (fold (md_update_byte Sha256Transform) (take Len Msg) c)"
proof -
  let ?f = "md_update_byte Sha256Transform"
  let ?I = "\<lambda>(i, c'). unat (i :: u32) \<le> Len \<and> c' = fold ?f (take (unat i) Msg) c"
  have "\<exists>r. iterate (Sha256Update_body Msg Len) (0, c) = Some r \<and> r = fold ?f (take Len Msg) c"
  proof (rule iterate_total[where I = ?I and m = "\<lambda>(i, c'). Len - unat i"])
    show "?I (0, c)" by simp
  next
    fix s s' assume I: "?I s" and B: "Sha256Update_body Msg Len s = Continue s'"
    obtain i c' where s: "s = (i, c')" by (cases s)
    have i: "unat i < Len" "s' = (i + 1, ?f (Msg ! unat i) c')"
      using B by (auto simp: s Sha256Update_body_def split: if_splits)
    then have u: "unat (i + 1) = Suc (unat i)" using assms(2) by (simp add: unat_word_ariths)
    then show "?I s' \<and> (case s' of (i, c') \<Rightarrow> Len - unat i) < (case s of (i, c') \<Rightarrow> Len - unat i)"
      using I i assms(1) by (simp add: s take_Suc_conv_app_nth)
  next
    fix s r assume "?I s" "Sha256Update_body Msg Len s = Break r"
    then show "r = fold ?f (take Len Msg) c" by (auto simp: Sha256Update_body_def split: if_splits)
  qed
  then show ?thesis by (simp add: Sha256Update_def)
qed

lemma length_sha256_compress [simp]: "length (sha256_compress S D) = 8"
  by (simp add: sha256_compress_def split: prod.splits)

lemma length_foldl_compress: "length h = 8 \<Longrightarrow> length (foldl sha256_compress h bs) = 8"
  by (induction bs arbitrary: h) simp_all

definition sha256_spec :: "byte list \<Rightarrow> byte list" where
  "sha256_spec msg =
     concat (map be32_bytes (md_hash 64 8 (\<lambda>n. be64_bytes (of_nat (8 * n))) sha256_compress SHA256_H0 msg))"

lemma Sha256Init_repr: "length (Data c) = 64 \<Longrightarrow> sha256.md_repr SHA256_H0 () [] (Sha256Init c)"
  using sha256.md_repr_init[of "Sha256Init c"] by (simp add: Sha256Init_def SHA256_H0_def upt_rec)

lemma Sha256Final_spec: "sha256.md_repr SHA256_H0 () msg c \<Longrightarrow> Sha256Final c = sha256_spec msg"
proof -
  assume r: "sha256.md_repr SHA256_H0 () msg c"
  have "State (md_finish Sha256Transform be64_bytes c) =
      md_hash 64 8 (\<lambda>n. be64_bytes (of_nat (8 * n))) sha256_compress SHA256_H0 msg"
    using sha256.md_finish_State[OF r] by simp
  moreover have "length (md_hash 64 8 (\<lambda>n. be64_bytes (of_nat (8 * n))) sha256_compress SHA256_H0 msg) = 8"
    unfolding md_hash_def by (rule length_foldl_compress) (simp add: SHA256_H0_def)
  ultimately show ?thesis using digest_be32[of _ 8] by (simp add: Sha256Final_def Let_def sha256_spec_def)
qed

lemma Sha256_spec:
  "length (Data c) = 64 \<Longrightarrow> Len \<le> length Msg \<Longrightarrow> Len < 2 ^ 32 \<Longrightarrow> Sha256 c Msg Len = Some (sha256_spec (take Len Msg))"
  using sha256.md_repr_update[OF Sha256Init_repr] by (auto simp: Sha256_def Sha256Update_eq intro!: Sha256Final_spec)

section \<open>Properties\<close>

text \<open>
  C19: hashing a message of less than 4 GiB in any number of pieces gives the digest that the
  padded Merkle-Damgard construction defines for the whole message.
\<close>

theorem Sha256_streaming:
  assumes "length (Data Context) = 64" "\<And>m. m \<in> set pieces \<Longrightarrow> length m < 2 ^ 32"
  shows "map_option Sha256Final (foldl (\<lambda>c m. c \<bind> (\<lambda>c. Sha256Update c m (length m))) (Some (Sha256Init Context)) pieces) =
    Some (sha256_spec (concat pieces))"
proof -
  have "\<exists>c'. foldl (\<lambda>c m. c \<bind> (\<lambda>c. Sha256Update c m (length m))) (Some c) ms = Some c' \<and>
      sha256.md_repr SHA256_H0 () (msg @ concat ms) c'"
    if "sha256.md_repr SHA256_H0 () msg c" "\<And>m. m \<in> set ms \<Longrightarrow> length m < 2 ^ 32" for c ms msg
    using that
  proof (induction ms arbitrary: c msg)
    case (Cons m ms)
    from Cons.IH[OF sha256.md_repr_update[OF Cons.prems(1), of m]] Cons.prems(2)
    show ?case by (simp add: Sha256Update_eq)
  qed simp
  from this[OF Sha256Init_repr[OF assms(1)], of pieces] assms(2) show ?thesis by (auto simp: Sha256Final_spec)
qed

theorem Sha256_streaming_witness:
  "map_option Sha256Final (foldl (\<lambda>c m. c \<bind> (\<lambda>c. Sha256Update c m (length m)))
      (Some (Sha256Init \<lparr>Data = replicate 64 0, DataLen = 0, BitLen = 0, State = []\<rparr>)) [[0x61], [0x62, 0x63]]) =
    Some (sha256_spec (concat [[0x61], [0x62, 0x63]]))"
  by (rule Sha256_streaming) auto

text \<open>
  With a length of 4 GiB or more, \<open>Sha256Update\<close> never returns: its 32-bit index wraps around
  before it reaches the length.
\<close>

theorem Sha256Update_diverges:
  assumes "2 ^ 32 \<le> Len"
  shows "Sha256Update Context Msg Len = None"
  unfolding Sha256Update_def
proof (rule iterate_never[where I = "\<lambda>_. True"])
  fix s :: "u32 \<times> md_ctx"
  have "unat (fst s) < Len" using unat_less_2pow[of "fst s"] assms by simp
  then show "\<exists>s'. Sha256Update_body Msg Len s = Continue s' \<and> True"
    by (cases s) (simp add: Sha256Update_body_def)
qed simp

theorem Sha256Update_diverges_witness: "Sha256Update \<lparr>Data = [], DataLen = 0, BitLen = 0, State = []\<rparr> [] (2 ^ 32) = None"
  using Sha256Update_diverges[of "2 ^ 32"] by blast

end
