(* ===== verification/Oc_Sha512.thy ===== *)
theory Oc_Sha512
  imports Oc_MerkleDamgard
begin

unbundle bit_operations_syntax

text \<open>
  Model of the SHA-512 and SHA-384 parts of \<^verbatim>\<open>Library/OcCryptoLib/Sha2.c\<close>. The two contexts are the
  same structure and the update functions have the same body; both are modelled. The accelerated block
  transform, which is assembly code behind the flag \<open>mIsAccelEnabled\<close>, is the parameter
  \<open>TransformAccel\<close>; the properties that allow it to be enabled assume that it computes what
  \<open>Sha512Transform\<close> computes.
\<close>

section \<open>The code\<close>

definition ROTRIGHT64 :: "u64 \<Rightarrow> nat \<Rightarrow> u64" where
  "ROTRIGHT64 a b = (drop_bit b a OR push_bit (64 - b) a)"

definition SHA512_EP0 :: "u64 \<Rightarrow> u64" where
  "SHA512_EP0 x = (ROTRIGHT64 x 28 XOR ROTRIGHT64 x 34 XOR ROTRIGHT64 x 39)"

definition SHA512_EP1 :: "u64 \<Rightarrow> u64" where
  "SHA512_EP1 x = (ROTRIGHT64 x 14 XOR ROTRIGHT64 x 18 XOR ROTRIGHT64 x 41)"

definition SHA512_SIG0 :: "u64 \<Rightarrow> u64" where
  "SHA512_SIG0 x = (ROTRIGHT64 x 1 XOR ROTRIGHT64 x 8 XOR drop_bit 7 x)"

definition SHA512_SIG1 :: "u64 \<Rightarrow> u64" where
  "SHA512_SIG1 x = (ROTRIGHT64 x 19 XOR ROTRIGHT64 x 61 XOR drop_bit 6 x)"

definition CH64 :: "u64 \<Rightarrow> u64 \<Rightarrow> u64 \<Rightarrow> u64" where
  "CH64 x y z = ((x AND y) XOR (NOT x AND z))"

definition MAJ64 :: "u64 \<Rightarrow> u64 \<Rightarrow> u64 \<Rightarrow> u64" where
  "MAJ64 x y z = ((x AND y) XOR (x AND z) XOR (y AND z))"

definition SHA512_K :: "u64 list" where
  "SHA512_K =
    [0x428A2F98D728AE22, 0x7137449123EF65CD, 0xB5C0FBCFEC4D3B2F, 0xE9B5DBA58189DBBC,
     0x3956C25BF348B538, 0x59F111F1B605D019, 0x923F82A4AF194F9B, 0xAB1C5ED5DA6D8118,
     0xD807AA98A3030242, 0x12835B0145706FBE, 0x243185BE4EE4B28C, 0x550C7DC3D5FFB4E2,
     0x72BE5D74F27B896F, 0x80DEB1FE3B1696B1, 0x9BDC06A725C71235, 0xC19BF174CF692694,
     0xE49B69C19EF14AD2, 0xEFBE4786384F25E3, 0x0FC19DC68B8CD5B5, 0x240CA1CC77AC9C65,
     0x2DE92C6F592B0275, 0x4A7484AA6EA6E483, 0x5CB0A9DCBD41FBD4, 0x76F988DA831153B5,
     0x983E5152EE66DFAB, 0xA831C66D2DB43210, 0xB00327C898FB213F, 0xBF597FC7BEEF0EE4,
     0xC6E00BF33DA88FC2, 0xD5A79147930AA725, 0x06CA6351E003826F, 0x142929670A0E6E70,
     0x27B70A8546D22FFC, 0x2E1B21385C26C926, 0x4D2C6DFC5AC42AED, 0x53380D139D95B3DF,
     0x650A73548BAF63DE, 0x766A0ABB3C77B2A8, 0x81C2C92E47EDAEE6, 0x92722C851482353B,
     0xA2BFE8A14CF10364, 0xA81A664BBC423001, 0xC24B8B70D0F89791, 0xC76C51A30654BE30,
     0xD192E819D6EF5218, 0xD69906245565A910, 0xF40E35855771202A, 0x106AA07032BBD1B8,
     0x19A4C116B8D2D0C8, 0x1E376C085141AB53, 0x2748774CDF8EEB99, 0x34B0BCB5E19B48A8,
     0x391C0CB3C5C95A63, 0x4ED8AA4AE3418ACB, 0x5B9CCA4F7763E373, 0x682E6FF3D6B2B8A3,
     0x748F82EE5DEFB2FC, 0x78A5636F43172F60, 0x84C87814A1F0AB72, 0x8CC702081A6439EC,
     0x90BEFFFA23631E28, 0xA4506CEBDE82BDE9, 0xBEF9A3F7B2C67915, 0xC67178F2E372532B,
     0xCA273ECEEA26619C, 0xD186B8C721C0C207, 0xEADA7DD6CDE0EB1E, 0xF57D4F7FEE6ED178,
     0x06F067AA72176FBA, 0x0A637DC5A2C898A6, 0x113F9804BEF90DAE, 0x1B710B35131C471B,
     0x28DB77F523047D84, 0x32CAAB7B40C72493, 0x3C9EBE0A15C9BEBC, 0x431D67C49C100D4C,
     0x4CC5D4BECB3E42B6, 0x597F299CFC657E2A, 0x5FCB6FAB3AD6FAEC, 0x6C44198C4A475817]"

definition SHA512_H0 :: "u64 list" where
  "SHA512_H0 =
    [0x6A09E667F3BCC908, 0xBB67AE8584CAA73B, 0x3C6EF372FE94F82B, 0xA54FF53A5F1D36F1,
     0x510E527FADE682D1, 0x9B05688C2B3E6C1F, 0x1F83D9ABFB41BD6B, 0x5BE0CD19137E2179]"

definition SHA384_H0 :: "u64 list" where
  "SHA384_H0 =
    [0xCBBB9D5DC1059ED8, 0x629A292A367CD507, 0x9159015A3070DD17, 0x152FECD8F70E5939,
     0x67332667FFC00B31, 0x8EB44A8768581511, 0xDB0C2E0D64F98FA7, 0x47B5481DBEFA4FA4]"

definition PACK64 :: "byte list \<Rightarrow> u64" where
  "PACK64 str =
     (ucast (str ! 7) OR push_bit 8 (ucast (str ! 6)) OR push_bit 16 (ucast (str ! 5)) OR push_bit 24 (ucast (str ! 4))
      OR push_bit 32 (ucast (str ! 3)) OR push_bit 40 (ucast (str ! 2)) OR push_bit 48 (ucast (str ! 1))
      OR push_bit 56 (ucast (str ! 0)))"

definition SHA512_SCR :: "nat \<Rightarrow> u64 list \<Rightarrow> u64 list" where
  "SHA512_SCR Index W =
     W @ [SHA512_SIG1 (W ! (Index - 2)) + W ! (Index - 7) + SHA512_SIG0 (W ! (Index - 15)) + W ! (Index - 16)]"

type_synonym wv = "u64 \<times> u64 \<times> u64 \<times> u64 \<times> u64 \<times> u64 \<times> u64 \<times> u64"

definition Sha512Transform_round :: "nat \<Rightarrow> u64 list \<times> wv \<Rightarrow> u64 list \<times> wv" where
  "Sha512Transform_round Index2 st =
     (case st of (W0, Wv0, Wv1, Wv2, Wv3, Wv4, Wv5, Wv6, Wv7) \<Rightarrow>
        (let W = (if Index2 \<ge> 16 then SHA512_SCR Index2 W0 else W0);
             T1 = Wv7 + SHA512_EP1 Wv4 + CH64 Wv4 Wv5 Wv6 + SHA512_K ! Index2 + W ! Index2;
             T2 = SHA512_EP0 Wv0 + MAJ64 Wv0 Wv1 Wv2
         in (W, T1 + T2, Wv0, Wv1, Wv2, Wv3 + T1, Wv4, Wv5, Wv6)))"

definition sha512_compress :: "u64 list \<Rightarrow> byte list \<Rightarrow> u64 list" where
  "sha512_compress S SubBlock =
     (let W = map (\<lambda>Index2. PACK64 (window SubBlock (8 * Index2) 8)) [0..<16]
      in case fold Sha512Transform_round [0..<80] (W, S ! 0, S ! 1, S ! 2, S ! 3, S ! 4, S ! 5, S ! 6, S ! 7) of
           (_, a, b, c, d, e, f, g, h) \<Rightarrow>
             [S ! 0 + a, S ! 1 + b, S ! 2 + c, S ! 3 + d, S ! 4 + e, S ! 5 + f, S ! 6 + g, S ! 7 + h])"

type_synonym transform512 = "u64 list \<Rightarrow> byte list \<Rightarrow> nat \<Rightarrow> u64 list"

definition Sha512Transform :: transform512 where
  "Sha512Transform S D BlockNb = fold (\<lambda>Index1 S. sha512_compress S (window D (128 * Index1) 128)) [0..<BlockNb] S"

subsection \<open>Contexts and operations\<close>

record sha512_ctx =
  TotalLength :: u64
  Length :: nat
  Block :: "byte list"
  State :: "u64 list"

definition Sha512Init :: "sha512_ctx \<Rightarrow> sha512_ctx" where
  "Sha512Init Context = Context\<lparr>State := overwrite (State Context) 0 SHA512_H0, Length := 0, TotalLength := 0\<rparr>"

definition Sha384Init :: "sha512_ctx \<Rightarrow> sha512_ctx" where
  "Sha384Init Context = Context\<lparr>State := overwrite (State Context) 0 SHA384_H0, Length := 0, TotalLength := 0\<rparr>"

definition Sha512Update :: "bool \<Rightarrow> transform512 \<Rightarrow> sha512_ctx \<Rightarrow> byte list \<Rightarrow> nat \<Rightarrow> sha512_ctx" where
  "Sha512Update mIsAccelEnabled TransformAccel Context Msg Len =
     (let TmpLen = 128 - Length Context;
          RemLen = (if Len < TmpLen then Len else TmpLen);
          c1 = Context\<lparr>Block := overwrite (Block Context) (Length Context) (take RemLen Msg)\<rparr>
      in if Length c1 + Len < 128 then c1\<lparr>Length := Length c1 + Len\<rparr>
         else
           (let NewLen = Len - RemLen;
                BlockNb = NewLen div 128;
                ShiftedMsg = drop RemLen Msg;
                S2 = (if mIsAccelEnabled
                      then TransformAccel (TransformAccel (State c1) (Block c1) 1) ShiftedMsg BlockNb
                      else Sha512Transform (Sha512Transform (State c1) (Block c1) 1) ShiftedMsg BlockNb);
                RemLen2 = NewLen mod 128
            in c1\<lparr>State := S2, Block := overwrite (Block c1) 0 (window ShiftedMsg (128 * BlockNb) RemLen2),
                  Length := RemLen2, TotalLength := TotalLength c1 + of_nat ((BlockNb + 1) * 128)\<rparr>))"

definition Sha384Update :: "bool \<Rightarrow> transform512 \<Rightarrow> sha512_ctx \<Rightarrow> byte list \<Rightarrow> nat \<Rightarrow> sha512_ctx" where
  "Sha384Update mIsAccelEnabled TransformAccel Context Msg Len =
     (let TmpLen = 128 - Length Context;
          RemLen = (if Len < TmpLen then Len else TmpLen);
          c1 = Context\<lparr>Block := overwrite (Block Context) (Length Context) (take RemLen Msg)\<rparr>
      in if Length c1 + Len < 128 then c1\<lparr>Length := Length c1 + Len\<rparr>
         else
           (let NewLen = Len - RemLen;
                BlockNb = NewLen div 128;
                ShiftedMsg = drop RemLen Msg;
                S2 = (if mIsAccelEnabled
                      then TransformAccel (TransformAccel (State c1) (Block c1) 1) ShiftedMsg BlockNb
                      else Sha512Transform (Sha512Transform (State c1) (Block c1) 1) ShiftedMsg BlockNb);
                RemLen2 = NewLen mod 128
            in c1\<lparr>State := S2, Block := overwrite (Block c1) 0 (window ShiftedMsg (128 * BlockNb) RemLen2),
                  Length := RemLen2, TotalLength := TotalLength c1 + of_nat ((BlockNb + 1) * 128)\<rparr>))"

text \<open>The padding that both final functions perform, with the last transform.\<close>

definition sha512_finish :: "bool \<Rightarrow> transform512 \<Rightarrow> sha512_ctx \<Rightarrow> u64 list" where
  "sha512_finish mIsAccelEnabled TransformAccel Context =
     (let BlockNb = (if 128 - 17 < Length Context mod 128 then 1 else 0) + 1;
          LenB = push_bit 3 (TotalLength Context + of_nat (Length Context));
          PmLen = BlockNb * 128;
          B1 = overwrite (Block Context) (Length Context) (replicate (PmLen - Length Context) 0);
          B2 = B1[Length Context := 0x80];
          B3 = overwrite B2 (PmLen - 8) (be64_bytes LenB)
      in if mIsAccelEnabled then TransformAccel (State Context) B3 BlockNb
         else Sha512Transform (State Context) B3 BlockNb)"

definition Sha512Final :: "bool \<Rightarrow> transform512 \<Rightarrow> sha512_ctx \<Rightarrow> byte list" where
  "Sha512Final mIsAccelEnabled TransformAccel Context =
     (let S = sha512_finish mIsAccelEnabled TransformAccel Context
      in concat (map (\<lambda>Index. be64_bytes (S ! Index)) [0..<8]))"

definition Sha384Final :: "bool \<Rightarrow> transform512 \<Rightarrow> sha512_ctx \<Rightarrow> byte list" where
  "Sha384Final mIsAccelEnabled TransformAccel Context =
     (let S = sha512_finish mIsAccelEnabled TransformAccel Context
      in concat (map (\<lambda>Index. be64_bytes (S ! Index)) [0..<6]))"

definition Sha512 :: "bool \<Rightarrow> transform512 \<Rightarrow> sha512_ctx \<Rightarrow> byte list \<Rightarrow> nat \<Rightarrow> byte list" where
  "Sha512 mIsAccelEnabled TransformAccel Ctx Msg Len =
     Sha512Final mIsAccelEnabled TransformAccel
       (Sha512Update mIsAccelEnabled TransformAccel (Sha512Init Ctx) Msg Len)"

definition Sha384 :: "bool \<Rightarrow> transform512 \<Rightarrow> sha512_ctx \<Rightarrow> byte list \<Rightarrow> nat \<Rightarrow> byte list" where
  "Sha384 mIsAccelEnabled TransformAccel Ctx Msg Len =
     Sha384Final mIsAccelEnabled TransformAccel
       (Sha384Update mIsAccelEnabled TransformAccel (Sha384Init Ctx) Msg Len)"

section \<open>Lemmas\<close>

lemma Sha512Transform_blocks:
  assumes "128 * n \<le> length D"
  shows "Sha512Transform S D n = foldl sha512_compress S (blocks 128 (take (128 * n) D))"
proof -
  have "blocks 128 (take (128 * n) D) = map (\<lambda>i. window D (128 * i) 128) [0..<n]"
    using assms by (auto simp: blocks_def window_def min_def drop_take intro!: map_cong)
  then show ?thesis by (simp add: Sha512Transform_def foldl_conv_fold fold_map comp_def)
qed

definition sha512_repr :: "u64 list \<Rightarrow> byte list \<Rightarrow> sha512_ctx \<Rightarrow> bool" where
  "sha512_repr h0 msg c \<longleftrightarrow>
     length (Block c) = 256 \<and> Length c = length msg mod 128 \<and>
     take (length msg mod 128) (Block c) = drop (128 * (length msg div 128)) msg \<and>
     TotalLength c = of_nat (128 * (length msg div 128)) \<and>
     State c = foldl sha512_compress h0 (blocks 128 (take (128 * (length msg div 128)) msg))"

lemma take_overwrite:
  "off \<le> length xs \<Longrightarrow> take (off + length ys) (overwrite xs off ys) = take off xs @ ys"
  by (simp add: overwrite_def)

lemma block_arith:
  fixes a q n k L B :: nat
  assumes "a = 128 * q + n" "n + k = 128"
  shows "k \<le> L \<Longrightarrow> a + L = (L - k) + 128 * (q + 1)" "128 * (q + 1 + B) - a = k + 128 * B" "a \<le> 128 * (q + 1 + B)"
  using assms by simp_all

lemma sha512_repr_update:
  assumes r: "sha512_repr h0 msg c" and accel: "a \<longrightarrow> TA = Sha512Transform" and l: "Len \<le> length Msg"
  shows "sha512_repr h0 (msg @ take Len Msg) (Sha512Update a TA c Msg Len)"
proof -
  let ?n = "length msg mod 128" and ?q = "length msg div 128" and ?m = "take Len Msg"
  have n: "?n < 128" "128 * ?q + ?n = length msg" by simp_all
  have d: "length (Block c) = 256" "Length c = ?n" and t: "take ?n (Block c) = drop (128 * ?q) msg"
    and T: "TotalLength c = of_nat (128 * ?q)" and S: "State c = foldl sha512_compress h0 (blocks 128 (take (128 * ?q) msg))"
    using r by (simp_all add: sha512_repr_def)
  have lm: "length ?m = Len" using l by simp
  show ?thesis
  proof (cases "?n + Len < 128")
    case True
    have q': "length (msg @ ?m) div 128 = ?q" "length (msg @ ?m) mod 128 = ?n + Len"
    proof -
      have "length (msg @ ?m) = ?n + Len + 128 * ?q" using lm n(2) by (simp only: length_append)
      then show "length (msg @ ?m) div 128 = ?q" "length (msg @ ?m) mod 128 = ?n + Len"
        using True by (simp_all only: div_mult_self2 mod_mult_self2) simp_all
    qed
    let ?B = "overwrite (Block c) ?n ?m"
    have u: "Sha512Update a TA c Msg Len = c\<lparr>Block := ?B, Length := ?n + Len\<rparr>"
      using True d by (auto simp: Sha512Update_def Let_def)
    have "take (?n + Len) ?B = drop (128 * ?q) msg @ ?m" "length ?B = 256"
      using True d(1) lm t by (simp_all add: overwrite_def minus_mult_div_eq_mod)
    then show ?thesis unfolding sha512_repr_def u q' using d T S n(2) by simp
  next
    case False
    define k where "k = 128 - ?n"
    define B where "B = (Len - k) div 128"
    let ?s = "drop k Msg" and ?B = "overwrite (Block c) ?n (take k Msg)"
    have k: "k \<le> Len" "k + ?n = 128" using False n(1) by (simp_all add: k_def)
    have B: "128 * B + (Len - k) mod 128 = Len - k" by (simp add: B_def)
    have q': "length (msg @ ?m) div 128 = ?q + 1 + B" "length (msg @ ?m) mod 128 = (Len - k) mod 128"
    proof -
      have "length (msg @ ?m) = (Len - k) + 128 * (?q + 1)" 
        unfolding length_append lm by (rule block_arith(1)[OF n(2)[symmetric] _ k(1)]) (use k(2) in simp)
      then show "length (msg @ ?m) div 128 = ?q + 1 + B" "length (msg @ ?m) mod 128 = (Len - k) mod 128"
        by (simp_all only: div_mult_self2 mod_mult_self2 B_def)
    qed
    let ?S1 = "Sha512Transform (State c) ?B 1"
    let ?S2 = "Sha512Transform ?S1 ?s B"
    have u: "Sha512Update a TA c Msg Len = c\<lparr>State := ?S2,
        Block := overwrite ?B 0 (window ?s (128 * B) ((Len - k) mod 128)),
        Length := (Len - k) mod 128, TotalLength := TotalLength c + of_nat ((B + 1) * 128)\<rparr>"
      using False d accel by (cases a) (simp_all add: Sha512Update_def Let_def B_def k_def)
    have tB: "take 128 ?B = drop (128 * ?q) msg @ take k Msg" "length ?B = 256"
    proof -
      have lk: "length (take k Msg) = k" using k l by simp
      show "take 128 ?B = drop (128 * ?q) msg @ take k Msg"
        using take_overwrite[of ?n "Block c" "take k Msg"] d(1) t lk k(2) by (simp add: add.commute)
      show "length ?B = 256" using d(1) lk k(2) by simp
    qed
    have split: "take (128 * (?q + 1 + B)) (msg @ ?m) = (take (128 * ?q) msg @ take 128 ?B) @ take (128 * B) ?s"
    proof -
      have "msg @ ?m = (take (128 * ?q) msg @ take 128 ?B) @ drop k ?m"
        unfolding tB using k l append_take_drop_id[of k ?m] by (simp add: min_absorb1)
      moreover have "length (take (128 * ?q) msg @ take 128 ?B) = 128 * (?q + 1)" using n(2) tB(2) by simp
      moreover have "take (128 * B) (drop k ?m) = take (128 * B) ?s" using B by (simp add: drop_take min_absorb1)
      ultimately show ?thesis by simp
    qed
    have h: "128 dvd length (take (128 * ?q) msg)" using n(2) by simp
    have h2: "128 dvd length (take (128 * ?q) msg @ take 128 ?B)" using h tB(2) by (simp only: length_append) simp
    have lb: "length (take 128 ?B) = 128" using tB(2) by simp
    have "blocks 128 (take (128 * (?q + 1 + B)) (msg @ ?m)) =
        blocks 128 (take (128 * ?q) msg) @ [take 128 ?B] @ blocks 128 (take (128 * B) ?s)"
      unfolding split blocks_append[OF h2 zero_less_numeral] blocks_snoc[OF h lb zero_less_numeral] by simp
    moreover have "?S1 = sha512_compress (State c) (take 128 ?B)"
      using Sha512Transform_blocks[of 1 ?B "State c"] tB(2) lb by (simp add: blocks_single)
    moreover have "?S2 = foldl sha512_compress ?S1 (blocks 128 (take (128 * B) ?s))"
      using B l k by (intro Sha512Transform_blocks) simp
    ultimately have S2: "?S2 = foldl sha512_compress h0 (blocks 128 (take (128 * (?q + 1 + B)) (msg @ ?m)))"
      using S by simp
    let ?W = "window ?s (128 * B) ((Len - k) mod 128)"
    have W: "length ?W = (Len - k) mod 128" "(Len - k) mod 128 < 128" using B l k by simp_all
    have "drop (128 * (?q + 1 + B)) (msg @ ?m) = ?W"
    proof -
      have "128 * (?q + 1 + B) - length msg = k + 128 * B" "length msg \<le> 128 * (?q + 1 + B)"
        using block_arith(2,3)[OF n(2)[symmetric]] k(2) by (simp_all add: add.commute)
      moreover have "Len - (k + 128 * B) = (Len - k) mod 128" using B by linarith
      ultimately show ?thesis by (simp add: window_def drop_take add.commute)
    qed
    moreover have "take ((Len - k) mod 128) (overwrite ?B 0 ?W) = ?W"
      using take_overwrite[of 0 ?B ?W] by (simp only: W(1) add_0 take_0 append_Nil le0)
    moreover have "length (overwrite ?B 0 ?W) = 256"
      using length_overwrite[of 0 ?W ?B] W tB(2) by linarith
    moreover have "TotalLength c + of_nat ((B + 1) * 128) = of_nat (128 * (?q + 1 + B))"
      unfolding T by (simp add: algebra_simps)
    ultimately show ?thesis unfolding sha512_repr_def u q' using S2 by simp
  qed
qed

lemma overwrite_mid: "k = length xs \<Longrightarrow> length E = length ys \<Longrightarrow> overwrite (xs @ ys @ zs) k E = xs @ E @ zs"
  by (simp add: overwrite_def)

lemma pad_block:
  fixes B E :: "byte list"
  assumes "Pm \<le> length B" "n + 9 \<le> Pm" "length E = 8"
  shows "take Pm (overwrite ((overwrite B n (replicate (Pm - n) 0))[n := 0x80]) (Pm - 8) E) =
    take n B @ 0x80 # replicate (Pm - n - 9) 0 @ E"
    and "length (overwrite ((overwrite B n (replicate (Pm - n) 0))[n := 0x80]) (Pm - 8) E) = length B"
proof -
  define k where "k = Pm - n - 9"
  have Pm: "Pm = n + 9 + k" using assms(2) by (simp add: k_def)
  have "Pm - n = Suc (k + 8)" using Pm by simp
  then have "replicate (Pm - n) (0 :: byte) = 0 # replicate k 0 @ replicate 8 0" by (simp only: replicate_Suc replicate_add)
  then have o1: "overwrite B n (replicate (Pm - n) 0) = take n B @ (0 # replicate k 0 @ replicate 8 0) @ drop Pm B"
    using assms(1) Pm by (simp add: overwrite_def add.assoc)
  have o2: "(overwrite B n (replicate (Pm - n) 0))[n := 0x80] =
      (take n B @ 0x80 # replicate k 0) @ replicate 8 0 @ drop Pm B"
    unfolding o1 using assms(1) Pm by (simp add: list_update_append)
  have "Pm - 8 = length (take n B @ (0x80 :: byte) # replicate k 0)" using assms(1) Pm by simp
  then have o3: "overwrite ((overwrite B n (replicate (Pm - n) 0))[n := 0x80]) (Pm - 8) E =
      (take n B @ 0x80 # replicate k 0) @ E @ drop Pm B"
    unfolding o2 using assms(3) by (intro overwrite_mid) simp_all
  show "take Pm (overwrite ((overwrite B n (replicate (Pm - n) 0))[n := 0x80]) (Pm - 8) E) =
    take n B @ 0x80 # replicate (Pm - n - 9) 0 @ E"
  proof -
    have "Pm = length ((take n B @ 0x80 # replicate k 0) @ E)" using assms(1,3) Pm by simp
    then have "take Pm (((take n B @ 0x80 # replicate k 0) @ E) @ drop Pm B) = (take n B @ 0x80 # replicate k 0) @ E"
      by (metis append_eq_conv_conj)
    then show ?thesis unfolding o3 k_def[symmetric] by simp
  qed
  show "length (overwrite ((overwrite B n (replicate (Pm - n) 0))[n := 0x80]) (Pm - 8) E) = length B"
    unfolding o3 using assms(1,3) Pm by simp
qed

definition sha512_len :: "nat \<Rightarrow> byte list" where
  "sha512_len n = replicate 8 0 @ be64_bytes (of_nat (8 * n))"

lemma pad_zeros:
  fixes n q :: nat
  assumes "n < 128"
  defines "Pm \<equiv> (if 111 < n then 256 else 128)"
  shows "(128 - (128 * q + n + 1 + 16) mod 128) mod 128 + 8 = Pm - n - 9" "n + 9 \<le> Pm" "Pm \<le> 256"
proof -
  have "128 * q + n + 1 + 16 = n + 17 + 128 * q" by simp
  then have e: "(128 * q + n + 1 + 16) mod 128 = (n + 17) mod 128" by (simp only: mod_mult_self2)
  consider "n < 111" | "n = 111" | "111 < n" by linarith
  then have "(128 - (n + 17) mod 128) mod 128 + 8 = Pm - n - 9"
  proof cases
    case 3
    then have "(n + 17) mod 128 = n - 111" using assms(1) by (subst le_mod_geq) simp_all
    then show ?thesis using 3 assms(1) by (simp add: Pm_def)
  qed (simp_all add: Pm_def)
  then show "(128 - (128 * q + n + 1 + 16) mod 128) mod 128 + 8 = Pm - n - 9" unfolding e .
  show "n + 9 \<le> Pm" "Pm \<le> 256" using assms(1) by (auto simp: Pm_def)
qed

lemma sha512_finish_eq:
  assumes r: "sha512_repr h0 msg c" and accel: "a \<longrightarrow> TA = Sha512Transform"
  shows "sha512_finish a TA c = md_hash 128 16 sha512_len sha512_compress h0 msg"
proof -
  define n q where "n = length msg mod 128" and "q = length msg div 128"
  have n: "n < 128" "128 * q + n = length msg" by (simp_all add: n_def q_def)
  have d: "length (Block c) = 256" "Length c = n" and t: "take n (Block c) = drop (128 * q) msg"
    and T: "TotalLength c = of_nat (128 * q)" and S: "State c = foldl sha512_compress h0 (blocks 128 (take (128 * q) msg))"
    using r by (simp_all add: sha512_repr_def n_def q_def)
  define b where "b = (if 111 < n then 2 else 1 :: nat)"
  define Pm where "Pm = (if 111 < n then 256 else 128 :: nat)"
  have Pm: "b * 128 = Pm" "128 * b = Pm" by (simp_all add: b_def Pm_def)
  note z = pad_zeros(1)[OF n(1), of q, folded Pm_def] pad_zeros(2,3)[OF n(1), folded Pm_def]
  have LenB: "push_bit 3 (TotalLength c + of_nat (Length c)) = of_nat (8 * length msg)"
    unfolding T d(2) by (simp add: n(2)[symmetric] push_bit_eq_mult algebra_simps)
  let ?E = "be64_bytes (of_nat (8 * length msg))"
  let ?B = "overwrite ((overwrite (Block c) n (replicate (Pm - n) 0))[n := 0x80]) (Pm - 8) ?E"
  have "sha512_finish a TA c = Sha512Transform (State c) ?B b"
    using accel d(2) n(1) LenB unfolding sha512_finish_def Let_def
    by (cases a) (simp_all add: b_def Pm_def numeral_2_eq_2)
  also have "\<dots> = foldl sha512_compress (State c) (blocks 128 (take Pm ?B))"
    using pad_block(2)[of Pm "Block c" n ?E] z d(1) Pm(2) by (subst Sha512Transform_blocks) simp_all
  also have "take Pm ?B = drop (128 * q) msg @ 0x80 # replicate (Pm - n - 9) 0 @ ?E"
    using pad_block(1)[of Pm "Block c" n ?E] z(2,3) d(1) t by simp
  finally have f: "sha512_finish a TA c =
      foldl sha512_compress (State c) (blocks 128 (drop (128 * q) msg @ 0x80 # replicate (Pm - n - 9) 0 @ ?E))" .
  have "md_padded 128 16 sha512_len msg = take (128 * q) msg @ (drop (128 * q) msg @ 0x80 # replicate (Pm - n - 9) 0 @ ?E)"
    unfolding md_padded_def sha512_len_def z(1)[symmetric] n(2) replicate_add by simp
  moreover have "128 dvd length (take (128 * q) msg)" using n(2) by simp
  ultimately have "blocks 128 (md_padded 128 16 sha512_len msg) =
      blocks 128 (take (128 * q) msg) @ blocks 128 (drop (128 * q) msg @ 0x80 # replicate (Pm - n - 9) 0 @ ?E)"
    by (simp only: blocks_append zero_less_numeral)
  then show ?thesis unfolding f md_hash_def S by simp
qed

lemma length_sha512_compress: "length (sha512_compress S D) = 8"
  by (simp add: sha512_compress_def Let_def split: prod.splits)

lemma length_foldl_512: "length h = 8 \<Longrightarrow> length (foldl sha512_compress h bs) = 8"
  by (induction bs arbitrary: h) (simp_all add: length_sha512_compress)

lemma length_md_hash_512:
  "length (md_hash 128 16 sha512_len sha512_compress SHA512_H0 msg) = 8"
  "length (md_hash 128 16 sha512_len sha512_compress SHA384_H0 msg) = 8"
  by (simp_all add: md_hash_def length_foldl_512 SHA512_H0_def SHA384_H0_def)

definition sha512_spec :: "byte list \<Rightarrow> byte list" where
  "sha512_spec msg = concat (map be64_bytes (md_hash 128 16 sha512_len sha512_compress SHA512_H0 msg))"

definition sha384_spec :: "byte list \<Rightarrow> byte list" where
  "sha384_spec msg = concat (map be64_bytes (take 6 (md_hash 128 16 sha512_len sha512_compress SHA384_H0 msg)))"

lemma Sha384Update_eq: "Sha384Update = Sha512Update"
  by (intro ext) (simp only: Sha384Update_def Sha512Update_def)

lemma Sha512Init_repr:
  assumes "length (Block c) = 256" "length (State c) = 8"
  shows "sha512_repr SHA512_H0 [] (Sha512Init c)" "sha512_repr SHA384_H0 [] (Sha384Init c)"
  using assms by (simp_all add: sha512_repr_def Sha512Init_def Sha384Init_def overwrite_def SHA512_H0_def SHA384_H0_def)

lemma map_nth_take: "n \<le> length xs \<Longrightarrow> map (\<lambda>i. f (xs ! i)) [0..<n] = map f (take n xs)"
  by (intro nth_equalityI) simp_all

lemma Sha512Final_spec:
  assumes "a \<longrightarrow> TA = Sha512Transform"
  shows "sha512_repr SHA512_H0 msg c \<Longrightarrow> Sha512Final a TA c = sha512_spec msg"
    and "sha512_repr SHA384_H0 msg c \<Longrightarrow> Sha384Final a TA c = sha384_spec msg"
  by (simp_all add: Sha512Final_def Sha384Final_def sha512_finish_eq[OF _ assms] Let_def map_nth_take
      length_md_hash_512 sha512_spec_def sha384_spec_def)

section \<open>Properties\<close>

text \<open>
  Hashing a message in any number of pieces with the SHA-512 and SHA-384 functions gives the
  digest that the padded construction over the SHA-512 compression function defines for the whole
  message; with the accelerated transform enabled, under the assumption that it agrees with
  \<open>Sha512Transform\<close>.
\<close>

theorem Sha512_Sha384_streaming:
  assumes "length (Block c) = 256" "length (State c) = 8" "mIsAccelEnabled \<longrightarrow> TransformAccel = Sha512Transform"
  shows "Sha512Final mIsAccelEnabled TransformAccel
      (foldl (\<lambda>c m. Sha512Update mIsAccelEnabled TransformAccel c m (length m)) (Sha512Init c) pieces) =
        sha512_spec (concat pieces) \<and>
    Sha384Final mIsAccelEnabled TransformAccel
      (foldl (\<lambda>c m. Sha384Update mIsAccelEnabled TransformAccel c m (length m)) (Sha384Init c) pieces) =
        sha384_spec (concat pieces)"
proof -
  let ?f = "foldl (\<lambda>c m. Sha512Update mIsAccelEnabled TransformAccel c m (length m))"
  have "sha512_repr h0 (msg @ concat ms) (?f c ms)" if "sha512_repr h0 msg c" for h0 msg c ms
    using that
  proof (induction ms arbitrary: msg c)
    case (Cons m ms)
    from Cons.IH[OF sha512_repr_update[OF Cons.prems assms(3) order_refl]] show ?case by simp
  qed simp
  from this[OF Sha512Init_repr(1)[OF assms(1,2)], of pieces] this[OF Sha512Init_repr(2)[OF assms(1,2)], of pieces]
  show ?thesis by (simp add: Sha384Update_eq Sha512Final_spec[OF assms(3)])
qed

theorem Sha512_Sha384_streaming_witness:
  "Sha512Final True Sha512Transform
      (foldl (\<lambda>c m. Sha512Update True Sha512Transform c m (length m))
         (Sha512Init \<lparr>TotalLength = 0, Length = 0, Block = replicate 256 0, State = replicate 8 0\<rparr>) [[0x61], [0x62]]) =
        sha512_spec (concat [[0x61], [0x62]]) \<and>
    Sha384Final True Sha512Transform
      (foldl (\<lambda>c m. Sha384Update True Sha512Transform c m (length m))
         (Sha384Init \<lparr>TotalLength = 0, Length = 0, Block = replicate 256 0, State = replicate 8 0\<rparr>) [[0x61], [0x62]]) =
        sha384_spec (concat [[0x61], [0x62]])"
  by (rule Sha512_Sha384_streaming) simp_all

end
