(* ===== verification/Oc_Rsa.thy ===== *)
theory Oc_Rsa
  imports Oc_Montgomery Oc_Sha256 Oc_Sha512
begin

unbundle bit_operations_syntax

text \<open>
  Model of \<^verbatim>\<open>Library/OcCryptoLib/RsaDigitalSign.c\<close>, RSA PKCS#1 v1.5 signature verification, in the
  64-bit build. The record holds what the functions take from outside: the two PCD settings, the word
  product and the SHA-512 acceleration of the build, and the uninitialised hash contexts on the stack.
  An allocation is an argument: the buffer it returns, or \<open>None\<close>. \<open>ASSERT\<close>s are not modelled; where
  the code only tests \<open>CompareMem\<close> against 0, the model compares the bytes.
\<close>

section \<open>The code\<close>

datatype OC_SIG_HASH_TYPE = OcSigHashTypeSha256 | OcSigHashTypeSha384 | OcSigHashTypeSha512 | OcSigHashTypeMax

primrec sig_hash_ord :: "OC_SIG_HASH_TYPE \<Rightarrow> nat" where
  "sig_hash_ord OcSigHashTypeSha256 = 0"
| "sig_hash_ord OcSigHashTypeSha384 = 1"
| "sig_hash_ord OcSigHashTypeSha512 = 2"
| "sig_hash_ord OcSigHashTypeMax = 3"

record crypto_env =
  PcdOcCryptoAllowedRsaModuli :: u16
  PcdOcCryptoAllowedSigHashTypes :: u16
  WordMul :: "u64 word_mul"
  mIsAccelEnabled :: bool
  Sha512TransformAccel :: transform512
  Ctx256 :: md_ctx
  Ctx512 :: sha512_ctx

definition mPkcsDigestEncodingPrefixSha256 :: "byte list" where
  "mPkcsDigestEncodingPrefixSha256 =
     [0x30, 0x31] @ [0x30, 0x0d] @ [0x06, 0x09, 0x60, 0x86, 0x48, 0x01, 0x65, 0x03, 0x04, 0x02, 0x01] @ [0x05, 0x00] @
     [0x04, 0x20]"

definition mPkcsDigestEncodingPrefixSha384 :: "byte list" where
  "mPkcsDigestEncodingPrefixSha384 =
     [0x30, 0x41] @ [0x30, 0x0d] @ [0x06, 0x09, 0x60, 0x86, 0x48, 0x01, 0x65, 0x03, 0x04, 0x02, 0x02] @ [0x05, 0x00] @
     [0x04, 0x30]"

definition mPkcsDigestEncodingPrefixSha512 :: "byte list" where
  "mPkcsDigestEncodingPrefixSha512 =
     [0x30, 0x51] @ [0x30, 0x0d] @ [0x06, 0x09, 0x60, 0x86, 0x48, 0x01, 0x65, 0x03, 0x04, 0x02, 0x03] @ [0x05, 0x00] @
     [0x04, 0x40]"

definition InternalRsaModulusSizeIsAllowed :: "crypto_env \<Rightarrow> u32 \<Rightarrow> bool" where
  "InternalRsaModulusSizeIsAllowed env ModulusSize =
     (if ModulusSize AND (ModulusSize - 1) \<noteq> 0 then False
      else ucast (PcdOcCryptoAllowedRsaModuli env) AND ModulusSize \<noteq> 0)"

definition InternalSigHashTypeIsAllowed :: "crypto_env \<Rightarrow> OC_SIG_HASH_TYPE \<Rightarrow> bool" where
  "InternalSigHashTypeIsAllowed env Type =
     (ucast (PcdOcCryptoAllowedSigHashTypes env) AND push_bit (sig_hash_ord Type) (1 :: u32) \<noteq> 0)"

text \<open>The digest that the three cases compute; \<open>None\<close> is a hash function that does not return.\<close>

definition ShaDigest :: "crypto_env \<Rightarrow> OC_SIG_HASH_TYPE \<Rightarrow> byte list \<Rightarrow> nat \<Rightarrow> byte list option" where
  "ShaDigest env Type Msg DataSize =
     (case Type of
        OcSigHashTypeSha256 \<Rightarrow> Sha256 (Ctx256 env) Msg DataSize
      | OcSigHashTypeSha384 \<Rightarrow> Some (Sha384 (mIsAccelEnabled env) (Sha512TransformAccel env) (Ctx512 env) Msg DataSize)
      | OcSigHashTypeSha512 \<Rightarrow> Some (Sha512 (mIsAccelEnabled env) (Sha512TransformAccel env) (Ctx512 env) Msg DataSize)
      | OcSigHashTypeMax \<Rightarrow> None)"

text \<open>\<open>CompareMem\<close>: 0 when the bytes agree, otherwise the difference of the first two that do not.\<close>

fun CompareMem :: "byte list \<Rightarrow> byte list \<Rightarrow> int" where
  "CompareMem (a # as) (b # bs) = (if a \<noteq> b then uint a - uint b else CompareMem as bs)"
| "CompareMem _ _ = 0"

definition SigVerifyShaHashBySize :: "crypto_env \<Rightarrow> byte list \<Rightarrow> nat \<Rightarrow> byte list \<Rightarrow> nat \<Rightarrow> int option" where
  "SigVerifyShaHashBySize env Msg DataSize Hash HashSize =
     (case (if HashSize = 64 then OcSigHashTypeSha512 else if HashSize = 48 then OcSigHashTypeSha384
            else if HashSize = 32 then OcSigHashTypeSha256 else OcSigHashTypeMax) of
        OcSigHashTypeMax \<Rightarrow> Some (- 1)
      | Hashtype \<Rightarrow>
          do {
            DataDigest \<leftarrow> ShaDigest env Hashtype Msg DataSize;
            Some (if \<not> InternalSigHashTypeIsAllowed env Hashtype then - 1
                  else CompareMem (take HashSize DataDigest) (take HashSize Hash))
          })"

definition pkcs_prefix :: "OC_SIG_HASH_TYPE \<Rightarrow> byte list" where
  "pkcs_prefix Algorithm =
     (case Algorithm of
        OcSigHashTypeSha256 \<Rightarrow> mPkcsDigestEncodingPrefixSha256
      | OcSigHashTypeSha384 \<Rightarrow> mPkcsDigestEncodingPrefixSha384
      | OcSigHashTypeSha512 \<Rightarrow> mPkcsDigestEncodingPrefixSha512
      | OcSigHashTypeMax \<Rightarrow> [])"

text \<open>The check of the decrypted signature against the padded digest.\<close>

definition pkcs_check :: "byte list \<Rightarrow> nat \<Rightarrow> byte list \<Rightarrow> byte list \<Rightarrow> nat \<Rightarrow> bool" where
  "pkcs_check Signature SignatureSize Padding Hash HashSize =
     (let PaddingSize = length Padding;
          DigestSize = PaddingSize + HashSize
      in if SignatureSize < DigestSize + 11 then False
         else if Signature ! 0 \<noteq> 0x00 \<or> Signature ! 1 \<noteq> 0x01 then False
         else if \<not> list_all (\<lambda>Index. Signature ! Index = 0xFF) [2..<SignatureSize - DigestSize - 3 + 2] then False
         else
           (let Index = SignatureSize - DigestSize - 3 + 2
            in if Signature ! Index \<noteq> 0x00 then False
               else if window Signature (Index + 1) PaddingSize \<noteq> Padding then False
               else if window Signature (Index + 1 + PaddingSize) HashSize \<noteq> take HashSize Hash then False
               else True))"

definition OC_BN_MAX_LEN :: nat where
  "OC_BN_MAX_LEN = 65536 div 8"

definition RsaVerifySigHashFromProcessed ::
  "crypto_env \<Rightarrow> u64 list \<Rightarrow> nat \<Rightarrow> u64 \<Rightarrow> u64 list \<Rightarrow> u32 \<Rightarrow> byte list \<Rightarrow> nat \<Rightarrow> byte list \<Rightarrow> nat \<Rightarrow>
   OC_SIG_HASH_TYPE \<Rightarrow> u64 list \<Rightarrow> bool" where
  "RsaVerifySigHashFromProcessed env N NumWords N0Inv RSqrMod Exponent Signature SignatureSize Hash HashSize Algorithm Scratch =
     (if NumWords > OC_BN_MAX_LEN then False
      else if \<not> InternalSigHashTypeIsAllowed env Algorithm then False
      else
        (let Padding = pkcs_prefix Algorithm;
             ModulusSize = of_nat NumWords * 8 :: u32
         in if \<not> InternalRsaModulusSizeIsAllowed env ModulusSize then False
            else if SignatureSize \<noteq> unat ModulusSize then False
            else
              (let EncryptedSigNum = BigNumParseBuffer (take NumWords Scratch) NumWords Signature SignatureSize;
                   (Result, DecryptedSigNum, _) =
                     BigNumPowMod (WordMul env) (window Scratch NumWords NumWords) NumWords EncryptedSigNum Exponent
                       N N0Inv RSqrMod (window Scratch (2 * NumWords) NumWords)
               in if \<not> Result then False
                  else
                    (let Enc = fold (\<lambda>Index E. E[Index := BigNumSwapWord (DecryptedSigNum ! (NumWords - 1 - Index))])
                           (rev [0..<NumWords]) EncryptedSigNum
                     in pkcs_check (concat (map le_bytes Enc)) SignatureSize Padding Hash HashSize))))"

definition RsaVerifySigDataFromProcessed ::
  "crypto_env \<Rightarrow> u64 list \<Rightarrow> nat \<Rightarrow> u64 \<Rightarrow> u64 list \<Rightarrow> u32 \<Rightarrow> byte list \<Rightarrow> nat \<Rightarrow> byte list \<Rightarrow> nat \<Rightarrow>
   OC_SIG_HASH_TYPE \<Rightarrow> u64 list \<Rightarrow> bool option" where
  "RsaVerifySigDataFromProcessed env N NumWords N0Inv RSqrMod Exponent Signature SignatureSize Msg DataSize Algorithm Scratch =
     (if Algorithm = OcSigHashTypeMax then Some False
      else do {
        Hash \<leftarrow> ShaDigest env Algorithm Msg DataSize;
        let HashSize = (case Algorithm of OcSigHashTypeSha256 \<Rightarrow> 32 | OcSigHashTypeSha384 \<Rightarrow> 48 | _ \<Rightarrow> 64);
        Some (RsaVerifySigHashFromProcessed env N NumWords N0Inv RSqrMod Exponent Signature SignatureSize
                Hash HashSize Algorithm Scratch)
      })"

subsection \<open>Entry points\<close>

definition OC_BN_MONT_MAX_SIZE :: nat where
  "OC_BN_MONT_MAX_SIZE = (OC_BN_MAX_LEN div 2 - 1) * 8"

text \<open>\<open>Memory\<close> and \<open>ScratchAlloc\<close> are the results of the two allocations.\<close>

definition RsaVerifySigDataFromData ::
  "crypto_env \<Rightarrow> byte list \<Rightarrow> nat \<Rightarrow> u32 \<Rightarrow> byte list \<Rightarrow> nat \<Rightarrow> byte list \<Rightarrow> nat \<Rightarrow> OC_SIG_HASH_TYPE \<Rightarrow>
   u64 list option \<Rightarrow> u64 list option \<Rightarrow> bool option" where
  "RsaVerifySigDataFromData env Modulus ModulusSize Exponent Signature SignatureSize Msg DataSize Algorithm Memory ScratchAlloc =
     (if ModulusSize > OC_BN_MONT_MAX_SIZE \<or> ModulusSize mod 8 \<noteq> 0 then Some False
      else
        (let ModulusNumWords = ModulusSize div 8
         in case Memory of
              None \<Rightarrow> Some False
            | Some Mem \<Rightarrow>
                (let N = BigNumParseBuffer (take ModulusNumWords Mem) ModulusNumWords Modulus ModulusSize
                 in do {
                      (N0Inv, RSqrMod) \<leftarrow> BigNumCalculateMontParams (window Mem ModulusNumWords ModulusNumWords)
                         ModulusNumWords N (drop (2 * ModulusNumWords) Mem);
                      if N0Inv = 0 then Some False
                      else (case ScratchAlloc of
                              None \<Rightarrow> Some False
                            | Some Scratch \<Rightarrow>
                                RsaVerifySigDataFromProcessed env N ModulusNumWords N0Inv RSqrMod Exponent
                                  Signature SignatureSize Msg DataSize Algorithm Scratch)
                    })))"

record OC_RSA_PUBLIC_KEY =
  NumQwords :: u16
  N0Inv :: u64
  KeyData :: "u64 list"

definition RsaVerifySigHashFromKey ::
  "crypto_env \<Rightarrow> OC_RSA_PUBLIC_KEY \<Rightarrow> byte list \<Rightarrow> nat \<Rightarrow> byte list \<Rightarrow> nat \<Rightarrow> OC_SIG_HASH_TYPE \<Rightarrow> u64 list \<Rightarrow> bool" where
  "RsaVerifySigHashFromKey env Key Signature SignatureSize Hash HashSize Algorithm Scratch =
     RsaVerifySigHashFromProcessed env (KeyData Key) (unat (NumQwords Key)) (OC_RSA_PUBLIC_KEY.N0Inv Key)
       (drop (unat (NumQwords Key)) (KeyData Key)) 0x10001 Signature SignatureSize Hash HashSize Algorithm Scratch"

definition RsaVerifySigHashFromKeyDynalloc ::
  "crypto_env \<Rightarrow> OC_RSA_PUBLIC_KEY \<Rightarrow> byte list \<Rightarrow> nat \<Rightarrow> byte list \<Rightarrow> nat \<Rightarrow> OC_SIG_HASH_TYPE \<Rightarrow> u64 list option \<Rightarrow> bool" where
  "RsaVerifySigHashFromKeyDynalloc env Key Signature SignatureSize Hash HashSize Algorithm ScratchAlloc =
     (case ScratchAlloc of
        None \<Rightarrow> False
      | Some Scratch \<Rightarrow> RsaVerifySigHashFromKey env Key Signature SignatureSize Hash HashSize Algorithm Scratch)"

definition RsaVerifySigDataFromKey ::
  "crypto_env \<Rightarrow> OC_RSA_PUBLIC_KEY \<Rightarrow> byte list \<Rightarrow> nat \<Rightarrow> byte list \<Rightarrow> nat \<Rightarrow> OC_SIG_HASH_TYPE \<Rightarrow> u64 list \<Rightarrow> bool option" where
  "RsaVerifySigDataFromKey env Key Signature SignatureSize Msg DataSize Algorithm Scratch =
     RsaVerifySigDataFromProcessed env (KeyData Key) (unat (NumQwords Key)) (OC_RSA_PUBLIC_KEY.N0Inv Key)
       (drop (unat (NumQwords Key)) (KeyData Key)) 0x10001 Signature SignatureSize Msg DataSize Algorithm Scratch"

definition RsaVerifySigDataFromKeyDynalloc ::
  "crypto_env \<Rightarrow> OC_RSA_PUBLIC_KEY \<Rightarrow> byte list \<Rightarrow> nat \<Rightarrow> byte list \<Rightarrow> nat \<Rightarrow> OC_SIG_HASH_TYPE \<Rightarrow> u64 list option \<Rightarrow>
   bool option" where
  "RsaVerifySigDataFromKeyDynalloc env Key Signature SignatureSize Msg DataSize Algorithm ScratchAlloc =
     (case ScratchAlloc of
        None \<Rightarrow> Some False
      | Some Scratch \<Rightarrow> RsaVerifySigDataFromKey env Key Signature SignatureSize Msg DataSize Algorithm Scratch)"

section \<open>The encoded message\<close>

text \<open>EMSA-PKCS1-v1_5 of RFC 3447: \<open>EM = 0x00 || 0x01 || PS || 0x00 || T\<close>.\<close>

definition emsa_pkcs1_v15 :: "nat \<Rightarrow> byte list \<Rightarrow> byte list" where
  "emsa_pkcs1_v15 emLen T = [0x00, 0x01] @ replicate (emLen - length T - 3) 0xFF @ [0x00] @ T"

lemma length_emsa: "length T + 11 \<le> k \<Longrightarrow> length (emsa_pkcs1_v15 k T) = k"
  by (simp add: emsa_pkcs1_v15_def)

lemma drop_window_eq: "drop a xs = ys @ zs \<longleftrightarrow> window xs a (length ys) = ys \<and> drop (a + length ys) xs = zs"
  if "a + length ys \<le> length xs"
  using drop_window[of a xs "length ys"] that by (simp add: append_eq_append_conv)

lemma window_replicate_iff:
  assumes "a + b \<le> length xs"
  shows "window xs a b = replicate b x \<longleftrightarrow> list_all (\<lambda>i. xs ! i = x) [a..<a + b]"
proof -
  have "window xs a b = replicate b x \<longleftrightarrow> (\<forall>i < b. xs ! (a + i) = x)"
    using assms by (auto simp: list_eq_iff_nth_eq)
  also have "\<dots> \<longleftrightarrow> (\<forall>j \<in> {a..<a + b}. xs ! j = x)"
  proof safe
    fix j assume "\<forall>i<b. xs ! (a + i) = x" "j \<in> {a..<a + b}"
    then show "xs ! j = x" by (auto simp: le_iff_add)
  qed simp
  finally show ?thesis by (simp add: list_all_iff)
qed

lemma pkcs_check_iff:
  assumes "length Sig = k"
  shows "pkcs_check Sig k P H (length H) \<longleftrightarrow>
    length P + length H + 11 \<le> k \<and> Sig = emsa_pkcs1_v15 k (P @ H)"
proof (cases "length P + length H + 11 \<le> k")
  case True
  define m where "m = k - (length P + length H) - 3"
  have k: "k = 3 + m + length P + length H" "8 \<le> m" using True by (simp_all add: m_def)
  have d0: "Sig = [0x00, 0x01] @ X \<longleftrightarrow> window Sig 0 2 = [0x00, 0x01] \<and> drop 2 Sig = X" for X
    using drop_window_eq[of 0 "[0x00, 0x01]" Sig X] assms k by (simp add: numeral_2_eq_2)
  have d1: "drop 2 Sig = replicate m 0xFF @ X \<longleftrightarrow> window Sig 2 m = replicate m 0xFF \<and> drop (2 + m) Sig = X" for X
    using drop_window_eq[of 2 "replicate m 0xFF" Sig X] assms k by simp
  have d2: "drop (2 + m) Sig = [0x00] @ X \<longleftrightarrow> window Sig (2 + m) 1 = [0x00] \<and> drop (2 + m + 1) Sig = X" for X
    using drop_window_eq[of "2 + m" "[0x00]" Sig X] assms k by simp
  have d3: "drop (2 + m + 1) Sig = P @ H \<longleftrightarrow> window Sig (2 + m + 1) (length P) = P \<and> drop (2 + m + 1 + length P) Sig = H"
    using drop_window_eq[of "2 + m + 1" P Sig H] assms k by simp
  have "Sig = [0x00, 0x01] @ replicate m 0xFF @ [0x00] @ P @ H \<longleftrightarrow>
      window Sig 0 2 = [0x00, 0x01] \<and> window Sig 2 m = replicate m 0xFF \<and> window Sig (2 + m) 1 = [0x00] \<and>
      window Sig (2 + m + 1) (length P) = P \<and> drop (2 + m + 1 + length P) Sig = H"
    by (simp only: d0 d1 d2 d3)
  moreover have "window Sig 0 2 = [0x00, 0x01] \<longleftrightarrow> Sig ! 0 = 0x00 \<and> Sig ! 1 = 0x01"
    using assms k by (auto simp: list_eq_iff_nth_eq less_2_cases_iff)
  moreover have "window Sig (2 + m) 1 = [0x00] \<longleftrightarrow> Sig ! (2 + m) = 0x00"
    using assms k by (auto simp: list_eq_iff_nth_eq)
  moreover have "window Sig 2 m = replicate m 0xFF \<longleftrightarrow> list_all (\<lambda>i. Sig ! i = 0xFF) [2..<2 + m]"
    using assms k by (intro window_replicate_iff) simp
  moreover have "drop (2 + m + 1 + length P) Sig = window Sig (2 + m + 1 + length P) (length H)"
    using assms k by (simp add: window_def)
  ultimately have e: "Sig = [0x00, 0x01] @ replicate m 0xFF @ [0x00] @ P @ H \<longleftrightarrow>
      (Sig ! 0 = 0x00 \<and> Sig ! 1 = 0x01) \<and> list_all (\<lambda>i. Sig ! i = 0xFF) [2..<2 + m] \<and> Sig ! (2 + m) = 0x00 \<and>
      window Sig (2 + m + 1) (length P) = P \<and> window Sig (2 + m + 1 + length P) (length H) = H"
    by (simp only:)
  have m2: "k - (length P + length H) - 3 + 2 = 2 + m" "k - length (P @ H) - 3 = m" by (simp_all add: m_def)
  have nl: "\<not> k < length P + length H + 11" using True by simp
  show ?thesis
    unfolding pkcs_check_def emsa_pkcs1_v15_def Let_def m2 e using True nl by (simp only: if_False simp_thms take_all order_refl) auto
next
  case False
  then show ?thesis by (simp add: pkcs_check_def Let_def)
qed

section \<open>The byte string of the decrypted signature\<close>

lemma fold_update_rev:
  "n \<le> length R \<Longrightarrow> fold (\<lambda>k R. R[k := g k]) (rev [0..<n]) R = map g [0..<n] @ drop n R"
proof (induction n arbitrary: R)
  case (Suc n)
  have "map g [0..<n] @ drop n (R[n := g n]) = map g [0..<n] @ g n # drop (Suc n) R"
    using Suc.prems by (simp add: drop_update_swap Cons_nth_drop_Suc[symmetric])
  then show ?case using Suc by simp
qed simp

lemma le_bytes64: "length (le_bytes (x :: u64)) = 8" "bn_val (le_bytes (x :: u64)) = unat x"
  using BigNumSwapWord_be(4)[of x] by (simp_all add: le_bytes_def OC_BN_WORD_SIZE_def be_val_def)

lemma bn_val_bytes: "bn_val (concat (map le_bytes xs) :: byte list) = bn_val (xs :: u64 list)"
  by (induction xs) (simp_all add: bn_val_append le_bytes64)

lemma length_concat_le_bytes [simp]: "length (concat (map le_bytes (xs :: u64 list))) = 8 * length xs"
  by (induction xs) (simp_all add: le_bytes64)

lemma swapped_bytes:
  assumes "length D = n"
  shows "concat (map le_bytes (map (\<lambda>i. BigNumSwapWord (D ! (n - 1 - i))) [0..<n])) =
    rev (concat (map le_bytes (D :: u64 list)))"
proof -
  have "map (\<lambda>i. BigNumSwapWord (D ! (n - 1 - i))) [0..<n] = map BigNumSwapWord (rev D)"
    using assms by (intro nth_equalityI) (simp_all add: rev_nth)
  moreover have "le_bytes (BigNumSwapWord x) = rev (le_bytes x)" for x :: u64
    by (rule BigNumSwapWord_be(3)) simp
  ultimately show ?thesis by (simp add: rev_concat rev_map comp_def)
qed

section \<open>Verification\<close>

definition env_mul_ok :: "crypto_env \<Rightarrow> bool" where
  "env_mul_ok env \<longleftrightarrow> WordMul env = BigNumWordMul BigNumWordMul64_Cpu64 \<or> WordMul env = BigNumWordMul BigNumWordMul64_Cpu32"

lemma env_PowMod_65537:
  assumes "env_mul_ok env" "0 < n" "n \<le> length Res" "n \<le> length A" "n \<le> length N" "n \<le> length RSqrMod" "n \<le> length ATmp"
    and "NInv * N ! 0 = - 1" "P = (2::nat) ^ (64 * n)" "V = bn_val (take n N)" "a = bn_val (take n A)"
    and "bn_val (take n RSqrMod) mod V = (P * P) mod V" "a < V \<or> P \<le> 2 * V"
  shows "\<exists>R T. BigNumPowMod (WordMul env) Res n A 0x10001 N NInv RSqrMod ATmp = (True, R, T) \<and>
    length R = length Res \<and> bn_val (take n R) = a ^ 65537 mod V"
proof -
  have L: "P = 2 ^ (LENGTH(64) * n)" using assms(9) by simp
  show ?thesis
    using assms(1) mul64.PowMod_65537[OF assms(2-8) L assms(10-13)] mul64_Cpu32.PowMod_65537[OF assms(2-8) L assms(10-13)]
    by (auto simp: env_mul_ok_def)
qed

lemma env_PowMod_3:
  assumes "env_mul_ok env" "0 < n" "n \<le> length Res" "n \<le> length A" "n \<le> length N" "n \<le> length RSqrMod" "n \<le> length ATmp"
    and "NInv * N ! 0 = - 1"
  shows "\<exists>R T. BigNumPowMod (WordMul env) Res n A 3 N NInv RSqrMod ATmp = (True, R, T) \<and>
    length R = length Res \<and> take n R = replicate n 0"
  using assms(1) mul64.PowMod_3[OF assms(2-8)] mul64_Cpu32.PowMod_3[OF assms(2-8)] by (auto simp: env_mul_ok_def)

lemma unat_ModulusSize: "n \<le> OC_BN_MAX_LEN \<Longrightarrow> unat (of_nat n * 8 :: u32) = 8 * n"
proof -
  assume "n \<le> OC_BN_MAX_LEN"
  then have "n \<le> 8192" by (simp add: OC_BN_MAX_LEN_def)
  then have "unat (of_nat (8 * n) :: u32) = 8 * n" unfolding unat_of_nat by simp
  then show ?thesis by (simp add: mult.commute)
qed

lemma env_PowMod_unsupported:
  "e \<noteq> 0x10001 \<Longrightarrow> e \<noteq> 3 \<Longrightarrow> BigNumPowMod W Res n A e N NInv RSqrMod ATmp = (False, Res, ATmp)"
  by (simp add: BigNumPowMod_def)

definition rsa_checks :: "crypto_env \<Rightarrow> nat \<Rightarrow> nat \<Rightarrow> OC_SIG_HASH_TYPE \<Rightarrow> bool" where
  "rsa_checks env NumWords SignatureSize Algorithm \<longleftrightarrow>
     NumWords \<le> OC_BN_MAX_LEN \<and> InternalSigHashTypeIsAllowed env Algorithm \<and>
     InternalRsaModulusSizeIsAllowed env (of_nat NumWords * 8) \<and> SignatureSize = 8 * NumWords"

lemma RsaVerify_decrypted:
  assumes checks: "rsa_checks env n (length Sig) Alg" and scratch: "3 * n \<le> length Scratch"
    and D: "BigNumPowMod (WordMul env) (window Scratch n n) n
        (BigNumParseBuffer (take n Scratch) n Sig (length Sig)) e N NInv RSqrMod (window Scratch (2 * n) n) = (True, D, T)"
      "length D = n"
  shows "RsaVerifySigHashFromProcessed env N n NInv RSqrMod e Sig (length Sig) Hash (length Hash) Alg Scratch \<longleftrightarrow>
    length (pkcs_prefix Alg) + length Hash + 11 \<le> 8 * n \<and>
    bn_val D = be_val (emsa_pkcs1_v15 (8 * n) (pkcs_prefix Alg @ Hash))"
proof -
  let ?S = "rev (concat (map le_bytes D))" and ?T = "pkcs_prefix Alg @ Hash"
  have c: "n \<le> OC_BN_MAX_LEN" "length Sig = 8 * n" using checks by (simp_all add: rsa_checks_def)
  have lE: "length (BigNumParseBuffer (take n Scratch) n Sig (length Sig)) = n"
    using BigNumParseBuffer_val(3)[of Sig n "take n Scratch"] c(2) scratch
    by (simp add: OC_BN_WORD_SIZE_def mult.commute)
  have "RsaVerifySigHashFromProcessed env N n NInv RSqrMod e Sig (length Sig) Hash (length Hash) Alg Scratch =
      pkcs_check ?S (8 * n) (pkcs_prefix Alg) Hash (length Hash)"
    using checks D lE unat_ModulusSize[OF c(1)] swapped_bytes[OF D(2)]
    by (simp add: RsaVerifySigHashFromProcessed_def rsa_checks_def fold_update_rev)
  also have "\<dots> \<longleftrightarrow> length (pkcs_prefix Alg) + length Hash + 11 \<le> 8 * n \<and> ?S = emsa_pkcs1_v15 (8 * n) ?T"
    using D(2) by (intro pkcs_check_iff) simp
  also have "\<dots> \<longleftrightarrow> length (pkcs_prefix Alg) + length Hash + 11 \<le> 8 * n \<and> bn_val D = be_val (emsa_pkcs1_v15 (8 * n) ?T)"
  proof (intro conj_cong refl)
    assume l: "length (pkcs_prefix Alg) + length Hash + 11 \<le> 8 * n"
    have "length (rev (emsa_pkcs1_v15 (8 * n) ?T)) = 8 * n" using l by (simp add: length_emsa)
    then have "concat (map le_bytes D) = rev (emsa_pkcs1_v15 (8 * n) ?T) \<longleftrightarrow>
        bn_val (concat (map le_bytes D)) = bn_val (rev (emsa_pkcs1_v15 (8 * n) ?T))"
      using D(2) by (auto intro!: bn_val_inject)
    then show "?S = emsa_pkcs1_v15 (8 * n) ?T \<longleftrightarrow> bn_val D = be_val (emsa_pkcs1_v15 (8 * n) ?T)"
      by (simp add: bn_val_bytes be_val_def rev_swap)
  qed
  finally show ?thesis .
qed

lemma RsaVerify_not_checks:
  "n \<le> OC_BN_MAX_LEN \<longrightarrow> unat (of_nat n * 8 :: u32) = 8 * n \<Longrightarrow> \<not> rsa_checks env n k Alg \<Longrightarrow>
   \<not> RsaVerifySigHashFromProcessed env N n NInv RSqrMod e Sig k Hash h Alg Scratch"
  by (auto simp: RsaVerifySigHashFromProcessed_def rsa_checks_def Let_def)

lemma RsaVerify_65537:
  assumes mul: "env_mul_ok env" and n: "0 < n" "n \<le> length N" "n \<le> length RSqrMod" "3 * n \<le> length Scratch"
    and inv: "NInv * N ! 0 = - 1" and V: "V = bn_val (take n N)"
    and rsqr: "bn_val (take n RSqrMod) mod V = (2 ^ (64 * n) * 2 ^ (64 * n)) mod V"
    and range: "be_val Sig < V \<or> 2 ^ (64 * n) \<le> 2 * V"
  shows "RsaVerifySigHashFromProcessed env N n NInv RSqrMod 0x10001 Sig (length Sig) Hash (length Hash) Alg Scratch \<longleftrightarrow>
    rsa_checks env n (length Sig) Alg \<and> length (pkcs_prefix Alg) + length Hash + 11 \<le> 8 * n \<and>
    be_val Sig ^ 65537 mod V = be_val (emsa_pkcs1_v15 (8 * n) (pkcs_prefix Alg @ Hash))"
proof (cases "rsa_checks env n (length Sig) Alg")
  case True
  let ?A = "BigNumParseBuffer (take n Scratch) n Sig (length Sig)"
  have c: "length Sig = 8 * n" using True by (simp add: rsa_checks_def)
  have A: "length ?A = n" "bn_val (take n ?A) = be_val Sig"
    using BigNumParseBuffer_val(1,3)[of Sig n "take n Scratch"] c n(4) by (simp_all add: OC_BN_WORD_SIZE_def mult.commute)
  obtain D T where D: "BigNumPowMod (WordMul env) (window Scratch n n) n ?A 0x10001 N NInv RSqrMod (window Scratch (2 * n) n) = (True, D, T)"
    "length D = length (window Scratch n n)" "bn_val (take n D) = be_val Sig ^ 65537 mod V"
    using env_PowMod_65537[OF mul n(1), of "window Scratch n n" ?A N RSqrMod "window Scratch (2 * n) n" NInv
        "2 ^ (64 * n)" V "be_val Sig"] A n inv V rsqr range by auto
  have l: "length D = n" using D(2) n(4) by simp
  show ?thesis using RsaVerify_decrypted[OF True n(4) D(1) l] True D(3) l by simp
next
  case False
  then show ?thesis using RsaVerify_not_checks unat_ModulusSize by blast
qed

lemma RsaVerify_3:
  assumes mul: "env_mul_ok env" and n: "0 < n" "n \<le> length N" "n \<le> length RSqrMod" "3 * n \<le> length Scratch"
    and inv: "NInv * N ! 0 = - 1"
  shows "\<not> RsaVerifySigHashFromProcessed env N n NInv RSqrMod 3 Sig (length Sig) Hash (length Hash) Alg Scratch"
proof (cases "rsa_checks env n (length Sig) Alg")
  case True
  let ?A = "BigNumParseBuffer (take n Scratch) n Sig (length Sig)"
  have c: "length Sig = 8 * n" using True by (simp add: rsa_checks_def)
  have A: "length ?A = n"
    using BigNumParseBuffer_val(3)[of Sig n "take n Scratch"] c n(4) by (simp_all add: OC_BN_WORD_SIZE_def mult.commute)
  obtain D T where D: "BigNumPowMod (WordMul env) (window Scratch n n) n ?A 3 N NInv RSqrMod (window Scratch (2 * n) n) = (True, D, T)"
    "length D = length (window Scratch n n)" "take n D = replicate n 0"
    using env_PowMod_3[OF mul n(1), of "window Scratch n n" ?A N RSqrMod "window Scratch (2 * n) n" NInv] A n inv by auto
  have l: "length D = n" using D(2) n(4) by simp
  then have "bn_val D = 0" using D(3) by simp
  moreover have "be_val (emsa_pkcs1_v15 (8 * n) T') \<noteq> 0" for T'
    unfolding be_val_def bn_val_eq_0_iff emsa_pkcs1_v15_def by simp
  ultimately show ?thesis using RsaVerify_decrypted[OF True n(4) D(1) l] by metis
next
  case False
  then show ?thesis using RsaVerify_not_checks unat_ModulusSize by blast
qed

section \<open>Digests\<close>

primrec sha_spec :: "OC_SIG_HASH_TYPE \<Rightarrow> byte list \<Rightarrow> byte list" where
  "sha_spec OcSigHashTypeSha256 msg = sha256_spec msg"
| "sha_spec OcSigHashTypeSha384 msg = sha384_spec msg"
| "sha_spec OcSigHashTypeSha512 msg = sha512_spec msg"
| "sha_spec OcSigHashTypeMax msg = []"

primrec sha_size :: "OC_SIG_HASH_TYPE \<Rightarrow> nat" where
  "sha_size OcSigHashTypeSha256 = 32"
| "sha_size OcSigHashTypeSha384 = 48"
| "sha_size OcSigHashTypeSha512 = 64"
| "sha_size OcSigHashTypeMax = 0"

text \<open>The environment of a correct build: one of the two word products, contexts of their C sizes and an
  accelerated transform that agrees with the portable one.\<close>

definition crypto_env_ok :: "crypto_env \<Rightarrow> bool" where
  "crypto_env_ok env \<longleftrightarrow> env_mul_ok env \<and> length (Data (Ctx256 env)) = 64 \<and>
     length (Block (Ctx512 env)) = 256 \<and> length (sha512_ctx.State (Ctx512 env)) = 8 \<and>
     (mIsAccelEnabled env \<longrightarrow> Sha512TransformAccel env = Sha512Transform)"

lemma length_concat_const: "(\<And>x. length (f x) = k) \<Longrightarrow> length (concat (map f xs)) = k * length xs"
  by (induction xs) simp_all

lemma length_sha_spec [simp]: "length (sha_spec t msg) = sha_size t"
proof (cases t)
  case OcSigHashTypeSha256
  have "length (md_hash 64 8 (\<lambda>n. be64_bytes (of_nat (8 * n))) sha256_compress SHA256_H0 msg) = 8"
    unfolding md_hash_def by (rule length_foldl_compress) (simp add: SHA256_H0_def)
  then show ?thesis
    using length_concat_const[of be32_bytes 4] by (simp add: OcSigHashTypeSha256 sha256_spec_def be32_bytes_def)
qed (use length_concat_const[of be64_bytes 8] in
    \<open>simp_all add: sha384_spec_def sha512_spec_def length_md_hash_512\<close>)

lemma Sha512_Sha384_spec:
  assumes c: "length (Block c) = 256" "length (sha512_ctx.State c) = 8" and a: "a \<longrightarrow> TA = Sha512Transform"
  shows "Sha512 a TA c msg (length msg) = sha512_spec msg" "Sha384 a TA c msg (length msg) = sha384_spec msg"
  using sha512_repr_update[OF Sha512Init_repr(1)[OF c] a order_refl, of msg]
    sha512_repr_update[OF Sha512Init_repr(2)[OF c] a order_refl, of msg]
  by (simp_all add: Sha512_def Sha384_def Sha384Update_eq Sha512Final_spec[OF a])

lemma ShaDigest_spec:
  assumes "crypto_env_ok env" "t \<noteq> OcSigHashTypeMax" "length msg < 2 ^ 32"
  shows "ShaDigest env t msg (length msg) = Some (sha_spec t msg)"
  using assms by (cases t) (simp_all add: ShaDigest_def crypto_env_ok_def Sha256_spec Sha512_Sha384_spec)

lemma uint_word_inject: "uint (a :: byte) = uint b \<longleftrightarrow> a = b"
  by (simp add: word_uint_eq_iff)

lemmas length_sha_specs [simp] =
  length_sha_spec[of OcSigHashTypeSha256, unfolded sha_spec.simps sha_size.simps]
  length_sha_spec[of OcSigHashTypeSha384, unfolded sha_spec.simps sha_size.simps]
  length_sha_spec[of OcSigHashTypeSha512, unfolded sha_spec.simps sha_size.simps]

lemma CompareMem_eq_0: "length xs = length ys \<Longrightarrow> CompareMem xs ys = 0 \<longleftrightarrow> xs = ys"
  by (induction xs ys rule: CompareMem.induct) (auto simp: uint_word_inject)

section \<open>The modulus\<close>

lemma odd_bn_val: "0 < n \<Longrightarrow> n \<le> length N \<Longrightarrow> odd (bn_val (take n (N :: u64 list))) \<longleftrightarrow> odd (unat (N ! 0))"
  by (cases N; cases n) simp_all

lemma be_val_Cons: "be_val (b # bs) = unat b * 2 ^ (8 * length bs) + be_val bs"
  using be_val_append[of "[b]" bs] by (simp add: be_val_def)

lemma be_val_top_bit:
  assumes "0x80 \<le> M ! 0" "M \<noteq> []"
  shows "2 ^ (8 * length M) \<le> 2 * be_val M"
proof -
  obtain b bs where M: "M = b # bs" using assms(2) by (cases M) auto
  have "128 \<le> unat b" using assms(1) by (simp add: M word_le_nat_alt)
  then have "128 * 2 ^ (8 * length bs) \<le> unat b * 2 ^ (8 * length bs)" by (rule mult_le_mono1)
  moreover have "2 ^ (8 * length M) = 2 * (128 * 2 ^ (8 * length bs) :: nat)" by (simp add: M power_add)
  ultimately show ?thesis unfolding M be_val_Cons by (simp only: mult_le_cancel1 trans_le_add1 simp_thms)
qed

lemma parsed_modulus:
  assumes "length Modulus = 8 * n" "n \<le> length R"
  shows "bn_val (take n (BigNumParseBuffer R n Modulus (length Modulus) :: u64 list)) = be_val Modulus"
    "length (BigNumParseBuffer R n Modulus (length Modulus) :: u64 list) = length R"
  using BigNumParseBuffer_val(1,3)[of Modulus n R] assms by (simp_all add: OC_BN_WORD_SIZE_def mult.commute)

lemma even_modulus_params:
  assumes "length Modulus = 8 * n" "0 < n" "n \<le> length R" "even (be_val Modulus)"
  shows "BigNumCalculateMontParams Q n (BigNumParseBuffer R n Modulus (length Modulus) :: u64 list) S = Some (0, Q)"
  using parsed_modulus[OF assms(1,3)] assms odd_bn_val[of n "BigNumParseBuffer R n Modulus (length Modulus)"]
  by (intro CalculateMontParams_even) simp

lemma odd_modulus_params:
  assumes M: "length Modulus = 8 * n" "0 < n" "0x80 \<le> Modulus ! 0" "odd (be_val Modulus)"
    and l: "n \<le> length R" "n \<le> length Q" "length S = 3 * OC_BN_MONT_RSQR_LEN n"
  shows "\<exists>inv RSqr. BigNumCalculateMontParams Q n (BigNumParseBuffer R n Modulus (length Modulus) :: u64 list) S = Some (inv, RSqr) \<and>
    inv \<noteq> 0 \<and> inv * BigNumParseBuffer R n Modulus (length Modulus) ! 0 = - 1 \<and> length RSqr = length Q \<and>
    bn_val (take n RSqr) mod be_val Modulus = (2 ^ (64 * n) * 2 ^ (64 * n)) mod be_val Modulus"
proof -
  let ?N = "BigNumParseBuffer R n Modulus (length Modulus) :: u64 list"
  note p = parsed_modulus[OF M(1) l(1)]
  have "Modulus \<noteq> []" using M(1,2) by auto
  from be_val_top_bit[OF M(3) this] have top: "2 ^ (64 * n) \<le> 2 * be_val Modulus" by (simp add: M(1))
  have "2 * (2::nat) ^ (64 * (n - 2)) \<le> 2 ^ (64 * n)"
    using power_increasing[of "Suc (64 * (n - 2))" "64 * n" "2::nat"] M(2) by simp
  with top have "(2::nat) ^ (LENGTH(64) * (n - 2)) \<le> be_val Modulus" by simp
  from CalculateMontParams_val[OF _ M(2) _ l(2) _ p(1)[symmetric] this l(3)] p(2) l(1) M(4) odd_bn_val[OF M(2), of ?N] p(1)
  obtain inv RSqr where "BigNumCalculateMontParams Q n ?N S = Some (inv, RSqr)" "inv \<noteq> 0" "inv * ?N ! 0 = - 1"
    "length RSqr = length Q" "bn_val (take n RSqr) = 2 ^ (2 * (LENGTH(64) * n)) mod be_val Modulus" by auto
  then show ?thesis by (simp add: power_add[symmetric] mult_2[symmetric])
qed

lemma RsaVerifySigDataFromData_odd:
  assumes env: "crypto_env_ok env" and alg: "Algorithm \<noteq> OcSigHashTypeMax" and msg: "length Msg < 2 ^ 32"
    and mod: "length Modulus = 8 * n" "0 < n" "8 * n \<le> OC_BN_MONT_MAX_SIZE" "0x80 \<le> Modulus ! 0" "odd (be_val Modulus)"
    and mem: "length Memory = 2 * n + 3 * OC_BN_MONT_RSQR_LEN n"
  obtains N inv RSqr where "n \<le> length N" "n \<le> length RSqr" "bn_val (take n N) = be_val Modulus" "inv * N ! 0 = - 1"
    and "bn_val (take n RSqr) mod be_val Modulus = (2 ^ (64 * n) * 2 ^ (64 * n)) mod be_val Modulus"
    and "RsaVerifySigDataFromData env Modulus (length Modulus) e Sig (length Sig) Msg (length Msg) Algorithm
        (Some Memory) (Some Scratch) =
      Some (RsaVerifySigHashFromProcessed env N n inv RSqr e Sig (length Sig) (sha_spec Algorithm Msg)
        (length (sha_spec Algorithm Msg)) Algorithm Scratch)"
proof -
  let ?N = "BigNumParseBuffer (take n Memory) n Modulus (length Modulus)"
  have l: "n \<le> length (take n Memory)" "n \<le> length (window Memory n n)"
    "length (drop (2 * n) Memory) = 3 * OC_BN_MONT_RSQR_LEN n" using mem by simp_all
  obtain inv RSqr where mont: "BigNumCalculateMontParams (window Memory n n) n ?N (drop (2 * n) Memory) = Some (inv, RSqr)"
    "inv \<noteq> 0" "inv * ?N ! 0 = - 1" "length RSqr = length (window Memory n n)"
    "bn_val (take n RSqr) mod be_val Modulus = (2 ^ (64 * n) * 2 ^ (64 * n)) mod be_val Modulus"
    using odd_modulus_params[OF mod(1,2,4,5) l] by blast
  have "RsaVerifySigDataFromData env Modulus (length Modulus) e Sig (length Sig) Msg (length Msg) Algorithm
        (Some Memory) (Some Scratch) =
      Some (RsaVerifySigHashFromProcessed env ?N n inv RSqr e Sig (length Sig) (sha_spec Algorithm Msg)
        (length (sha_spec Algorithm Msg)) Algorithm Scratch)"
    using mont(1,2) alg ShaDigest_spec[OF env alg msg] mod(1,3)
    unfolding RsaVerifySigDataFromData_def RsaVerifySigDataFromProcessed_def
    by (cases Algorithm) (simp_all add: Let_def)
  with parsed_modulus[OF mod(1) l(1)] mont(3-5) l(1,2) show ?thesis by (intro that[of ?N RSqr inv]) simp_all
qed

section \<open>The specification\<close>

text \<open>
  RSASSA-PKCS1-v1_5 verification (RFC 3447, 8.2.2) with exponent 65537, on the digest: the signature has the length of the modulus, its representative is below the modulus (RSAVP1, 5.2.2), and
  the representative to the power 65537 is the encoded digest.
\<close>

definition pkcs1_representative_ok :: "nat \<Rightarrow> nat \<Rightarrow> byte list \<Rightarrow> nat \<Rightarrow> bool" where
  "pkcs1_representative_ok V k T s \<longleftrightarrow> s < V \<and> length T + 11 \<le> k \<and> s ^ 65537 mod V = be_val (emsa_pkcs1_v15 k T)"

definition rsassa_pkcs1_v15_verify :: "nat \<Rightarrow> nat \<Rightarrow> byte list \<Rightarrow> byte list \<Rightarrow> bool" where
  "rsassa_pkcs1_v15_verify V k T Sig \<longleftrightarrow> length Sig = k \<and> pkcs1_representative_ok V k T (be_val Sig)"

text \<open>What the code accepts: it leaves out the comparison of the representative with the modulus, so a signature counts as the one with the residue of its representative.\<close>

definition rsa_accepts :: "nat \<Rightarrow> nat \<Rightarrow> byte list \<Rightarrow> byte list \<Rightarrow> bool" where
  "rsa_accepts V k T Sig \<longleftrightarrow> length Sig = k \<and> pkcs1_representative_ok V k T (be_val Sig mod V)"

lemma rsa_accepts_below: "be_val Sig < V \<Longrightarrow> rsa_accepts V k T Sig \<longleftrightarrow> rsassa_pkcs1_v15_verify V k T Sig"
  by (simp add: rsa_accepts_def rsassa_pkcs1_v15_verify_def)

lemma rsa_accepts_iff: "0 < V \<Longrightarrow> rsa_accepts V k T Sig \<longleftrightarrow> length Sig = k \<and> length T + 11 \<le> k \<and> be_val Sig ^ 65537 mod V = be_val (emsa_pkcs1_v15 k T)"
  by (simp only: rsa_accepts_def pkcs1_representative_ok_def power_mod) simp

definition rsa_policy :: "crypto_env \<Rightarrow> nat \<Rightarrow> OC_SIG_HASH_TYPE \<Rightarrow> bool" where
  "rsa_policy env NumWords Algorithm \<longleftrightarrow> NumWords \<le> OC_BN_MAX_LEN \<and> InternalSigHashTypeIsAllowed env Algorithm \<and>
     InternalRsaModulusSizeIsAllowed env (of_nat NumWords * 8)"

lemma rsa_checks_policy: "rsa_checks env n l Alg \<longleftrightarrow> rsa_policy env n Alg \<and> l = 8 * n"
  by (auto simp: rsa_checks_def rsa_policy_def)

text \<open>A key as \<open>OC_RSA_PUBLIC_KEY\<close> holds it: the modulus, then \<open>R^2 mod N\<close>, and the Montgomery inverse.\<close>

definition rsa_key_ok :: "OC_RSA_PUBLIC_KEY \<Rightarrow> bool" where
  "rsa_key_ok Key \<longleftrightarrow>
     (let n = unat (NumQwords Key); V = bn_val (take n (KeyData Key))
      in 0 < n \<and> 2 * n \<le> length (KeyData Key) \<and> N0Inv Key * KeyData Key ! 0 = - 1 \<and>
         bn_val (window (KeyData Key) n n) = 2 ^ (2 * (64 * n)) mod V \<and> 2 ^ (64 * n) \<le> 2 * V)"

subsection \<open>Instances for the witnesses\<close>

text \<open>An instance for the witnesses: 2048-bit moduli are allowed with all three hashes.\<close>

definition sample_env :: crypto_env where
  "sample_env = \<lparr>PcdOcCryptoAllowedRsaModuli = 0x100, PcdOcCryptoAllowedSigHashTypes = 7,
     WordMul = BigNumWordMul BigNumWordMul64_Cpu64, mIsAccelEnabled = False, Sha512TransformAccel = Sha512Transform,
     Ctx256 = \<lparr>Data = replicate 64 0, DataLen = 0, BitLen = 0, State = replicate 8 0\<rparr>,
     Ctx512 = \<lparr>TotalLength = 0, Length = 0, Block = replicate 256 0, State = replicate 8 0\<rparr>\<rparr>"

definition sample_key :: OC_RSA_PUBLIC_KEY where
  "sample_key = \<lparr>NumQwords = 32, N0Inv = 1, KeyData = replicate 32 (- 1) @ 1 # replicate 31 0\<rparr>"

definition sample_modulus :: "byte list" where
  "sample_modulus = (0x80 # replicate 254 0) @ [1]"

lemma sample_env_ok: "env_mul_ok sample_env" "crypto_env_ok sample_env"
  by (simp_all add: sample_env_def crypto_env_ok_def env_mul_ok_def)

lemma sample_modulus_ok: "length sample_modulus = 8 * 32" "0x80 \<le> sample_modulus ! 0" "odd (be_val sample_modulus)"
  by (simp_all only: sample_modulus_def be_val_snoc) simp_all

lemma bn_val_ones: "Suc (bn_val (replicate n (- 1 :: u64))) = 2 ^ (64 * n)"
proof (induction n)
  case (Suc n)
  have "unat (- 1 :: u64) = 2 ^ 64 - 1" by (simp add: unat_eq_nat_uint uint_word_ariths)
  then have "Suc (bn_val (replicate (Suc n) (- 1 :: u64))) = 2 ^ 64 * Suc (bn_val (replicate n (- 1 :: u64)))" by simp
  then show ?case unfolding Suc.IH by (simp add: power_add)
qed simp

lemma square_mod_pred: "1 < v \<Longrightarrow> (Suc v * Suc v) mod v = (1 :: nat)"
  by (simp add: mod_mult_right_eq[symmetric] mod_Suc)

lemma sample_key_ok: "rsa_key_ok sample_key" "unat (NumQwords sample_key) = 32"
proof -
  show n: "unat (NumQwords sample_key) = 32" by (simp add: sample_key_def)
  let ?V = "bn_val (replicate 32 (- 1 :: u64))"
  have e: "2 ^ (64 * 32) = Suc ?V" by (rule bn_val_ones[symmetric])
  have "1 < (2 :: nat) ^ (64 * 32) - 1" by simp
  then have V: "1 < ?V" unfolding e by simp
  have "(2::nat) ^ (2 * (64 * 32)) = Suc ?V * Suc ?V" unfolding e[symmetric] power_add[symmetric] by simp
  then have q: "2 ^ (2 * (64 * 32)) mod ?V = 1" using square_mod_pred[OF V] by simp
  have "take 32 (KeyData sample_key) = replicate 32 (- 1)" "window (KeyData sample_key) 32 32 = 1 # replicate 31 0"
    "length (KeyData sample_key) = 64" "KeyData sample_key ! 0 = - 1"
    by (simp_all add: sample_key_def window_def nth_append)
  then show "rsa_key_ok sample_key" using V unfolding rsa_key_ok_def Let_def n
    by (simp only: q e) (simp add: sample_key_def)
qed

section \<open>Properties\<close>

lemma RsaVerifySigHashFromKey_spec:
  assumes "env_mul_ok env" "rsa_key_ok Key" "3 * unat (NumQwords Key) \<le> length Scratch"
  shows "RsaVerifySigHashFromKey env Key Sig (length Sig) Hash (length Hash) Alg Scratch \<longleftrightarrow>
    rsa_policy env (unat (NumQwords Key)) Alg \<and>
    rsa_accepts (bn_val (take (unat (NumQwords Key)) (KeyData Key))) (8 * unat (NumQwords Key))
      (pkcs_prefix Alg @ Hash) Sig"
proof -
  let ?n = "unat (NumQwords Key)"
  let ?V = "bn_val (take ?n (KeyData Key))" and ?R = "drop ?n (KeyData Key)"
  have k: "0 < ?n" "?n \<le> length (KeyData Key)" "?n \<le> length ?R" "N0Inv Key * KeyData Key ! 0 = - 1"
    "be_val Sig < ?V \<or> 2 ^ (64 * ?n) \<le> 2 * ?V"
    using assms(2) by (auto simp: rsa_key_ok_def Let_def)
  have "bn_val (take ?n ?R) = 2 ^ (64 * ?n) * 2 ^ (64 * ?n) mod ?V"
    using assms(2) by (simp add: rsa_key_ok_def Let_def window_def power_add[symmetric] mult_2[symmetric])
  then have q: "bn_val (take ?n ?R) mod ?V = 2 ^ (64 * ?n) * 2 ^ (64 * ?n) mod ?V" by simp
  have "(0 :: nat) < 2 ^ (64 * ?n)" by simp
  then have "0 < ?V" using assms(2) unfolding rsa_key_ok_def Let_def by linarith
  then show ?thesis
    using RsaVerify_65537[OF assms(1) k(1-3) assms(3) k(4) refl q k(5)]
    by (auto simp: RsaVerifySigHashFromKey_def rsa_checks_policy rsa_accepts_iff)
qed

text \<open>
  For a well-formed key \<open>RsaVerifySigHashFromKey\<close> accepts exactly the signatures whose residue PKCS#1 v1.5
  verification accepts, among the moduli and hash types that the build allows.
\<close>

theorem RsaVerifySigHashFromKey_correct:
  assumes "env_mul_ok env" "rsa_key_ok Key" "3 * unat (NumQwords Key) \<le> length Scratch"
  shows "RsaVerifySigHashFromKey env Key Sig (length Sig) Hash (length Hash) Alg Scratch \<longleftrightarrow>
    rsa_policy env (unat (NumQwords Key)) Alg \<and>
    rsa_accepts (bn_val (take (unat (NumQwords Key)) (KeyData Key))) (8 * unat (NumQwords Key))
      (pkcs_prefix Alg @ Hash) Sig"
  using assms by (rule RsaVerifySigHashFromKey_spec)

theorem RsaVerifySigHashFromKey_correct_witness:
  "RsaVerifySigHashFromKey sample_env sample_key [1] (length [1 :: byte]) [2] (length [2 :: byte]) OcSigHashTypeSha256 (replicate 96 0) \<longleftrightarrow>
    rsa_policy sample_env (unat (NumQwords sample_key)) OcSigHashTypeSha256 \<and>
    rsa_accepts (bn_val (take (unat (NumQwords sample_key)) (KeyData sample_key))) (8 * unat (NumQwords sample_key))
      (pkcs_prefix OcSigHashTypeSha256 @ [2]) [1]"
  by (rule RsaVerifySigHashFromKey_correct) (simp_all only: sample_env_ok sample_key_ok, simp)

text \<open>
  C2: with the exponent 65537, an odd modulus of a whole number of words whose top bit is set, less than 4 GiB of data and all its memory, \<open>RsaVerifySigDataFromData\<close>
  returns. Among the moduli and hashes that the build allows, it accepts a signature of the length of the modulus exactly when PKCS#1 v1.5 verification over the SHA-2 digest of the data
  accepts the residue of its representative modulo the modulus; for signatures below the modulus this is RSASSA-PKCS1-v1_5 verification itself. This
  composes the parser, the Montgomery parameters, the power, the hash and the padding check.
\<close>

theorem RsaVerifySigDataFromData_correct:
  assumes env: "crypto_env_ok env" and alg: "Algorithm \<noteq> OcSigHashTypeMax" and msg: "length Msg < 2 ^ 32"
    and mod: "length Modulus = 8 * n" "0 < n" "8 * n \<le> OC_BN_MONT_MAX_SIZE" "0x80 \<le> Modulus ! 0" "odd (be_val Modulus)"
    and mem: "length Memory = 2 * n + 3 * OC_BN_MONT_RSQR_LEN n" "3 * n \<le> length Scratch"
  defines "T \<equiv> pkcs_prefix Algorithm @ sha_spec Algorithm Msg"
  shows "\<exists>r. RsaVerifySigDataFromData env Modulus (length Modulus) 0x10001 Sig (length Sig) Msg (length Msg) Algorithm (Some Memory) (Some Scratch) = Some r \<and>
    (r \<longleftrightarrow> rsa_policy env n Algorithm \<and> length Sig = 8 * n \<and> pkcs1_representative_ok (be_val Modulus) (8 * n) T (be_val Sig mod be_val Modulus)) \<and>
    (be_val Sig < be_val Modulus \<longrightarrow> (r \<longleftrightarrow> rsa_policy env n Algorithm \<and> rsassa_pkcs1_v15_verify (be_val Modulus) (8 * n) T Sig))"
proof -
  obtain N inv RSqr where r: "n \<le> length N" "n \<le> length RSqr" "bn_val (take n N) = be_val Modulus" "inv * N ! 0 = - 1"
    "bn_val (take n RSqr) mod be_val Modulus = (2 ^ (64 * n) * 2 ^ (64 * n)) mod be_val Modulus"
    "RsaVerifySigDataFromData env Modulus (length Modulus) 0x10001 Sig (length Sig) Msg (length Msg) Algorithm
        (Some Memory) (Some Scratch) =
      Some (RsaVerifySigHashFromProcessed env N n inv RSqr 0x10001 Sig (length Sig) (sha_spec Algorithm Msg)
        (length (sha_spec Algorithm Msg)) Algorithm Scratch)"
    by (rule RsaVerifySigDataFromData_odd[OF env alg msg mod mem(1)])
  have "Modulus \<noteq> []" using mod(1,2) by auto
  then have top: "2 ^ (64 * n) \<le> 2 * be_val Modulus" using be_val_top_bit[OF mod(4)] mod(1) by simp
  have V: "0 < be_val Modulus" using mod(5) by (rule odd_pos)
  have "env_mul_ok env" using env by (simp add: crypto_env_ok_def)
  from RsaVerify_65537[OF this mod(2) r(1,2) mem(2) r(4) r(3)[symmetric] r(5) disjI2[OF top], of Sig "sha_spec Algorithm Msg" Algorithm]
  have "RsaVerifySigHashFromProcessed env N n inv RSqr 0x10001 Sig (length Sig) (sha_spec Algorithm Msg) (length (sha_spec Algorithm Msg)) Algorithm Scratch \<longleftrightarrow>
    rsa_policy env n Algorithm \<and> rsa_accepts (be_val Modulus) (8 * n) T Sig"
    by (auto simp: rsa_checks_policy rsa_accepts_iff[OF V] T_def)
  then show ?thesis unfolding r(6) using rsa_accepts_below[of Sig "be_val Modulus" "8 * n" T] by (simp add: rsa_accepts_def)
qed

theorem RsaVerifySigDataFromData_correct_witness:
  "\<exists>r. RsaVerifySigDataFromData sample_env sample_modulus (length sample_modulus) 0x10001 (replicate 256 1)
      (length (replicate 256 (1 :: byte))) [0x61] (length [0x61 :: byte]) OcSigHashTypeSha384
      (Some (replicate (2 * 32 + 3 * OC_BN_MONT_RSQR_LEN 32) 0)) (Some (replicate 96 0)) = Some r \<and>
    (r \<longleftrightarrow> rsa_policy sample_env 32 OcSigHashTypeSha384 \<and>
      pkcs1_representative_ok (be_val sample_modulus) (8 * 32) (pkcs_prefix OcSigHashTypeSha384 @ sha_spec OcSigHashTypeSha384 [0x61])
        (be_val (replicate 256 1) mod be_val sample_modulus))"
proof -
  have m: "length [0x61 :: byte] < 2 ^ 32" "8 * 32 \<le> OC_BN_MONT_MAX_SIZE" "0 < (32 :: nat)" "3 * 32 \<le> length (replicate 96 (0 :: u64))"
    "length (replicate (2 * 32 + 3 * OC_BN_MONT_RSQR_LEN 32) (0 :: u64)) = 2 * 32 + 3 * OC_BN_MONT_RSQR_LEN 32" "length (replicate 256 (1 :: byte)) = 8 * 32"
    by (simp_all add: OC_BN_MONT_MAX_SIZE_def OC_BN_MAX_LEN_def)
  show ?thesis
    using RsaVerifySigDataFromData_correct[OF sample_env_ok(2) _ m(1) sample_modulus_ok(1) m(3,2) sample_modulus_ok(2,3) m(5,4), of OcSigHashTypeSha384 "replicate 256 1"] m(6) by auto
qed

text \<open>
  The branches on which \<open>RsaVerifySigDataFromData\<close> rejects before it looks at the signature: a
  modulus that is too large or not a whole number of words, a failed allocation, an even modulus.
\<close>

theorem RsaVerifySigDataFromData_rejects:
  assumes "OC_BN_MONT_MAX_SIZE < length Modulus \<or> length Modulus mod 8 \<noteq> 0 \<or> Memory = None \<or>
    (\<exists>Mem. Memory = Some Mem \<and> length Modulus div 8 \<le> length Mem \<and> Modulus \<noteq> [] \<and> even (be_val Modulus))"
  shows "RsaVerifySigDataFromData env Modulus (length Modulus) Exponent Sig (length Sig) Msg (length Msg) Algorithm
      Memory ScratchAlloc = Some False"
proof (cases "OC_BN_MONT_MAX_SIZE < length Modulus \<or> length Modulus mod 8 \<noteq> 0 \<or> Memory = None")
  case True
  then show ?thesis by (auto simp: RsaVerifySigDataFromData_def Let_def)
next
  case False
  with assms obtain Mem where M: "Memory = Some Mem" "length Modulus div 8 \<le> length Mem" "Modulus \<noteq> []" "even (be_val Modulus)"
    by auto
  have l: "length Modulus = 8 * (length Modulus div 8)" using False by auto
  then have "0 < length Modulus div 8" using M(3) by (cases "length Modulus div 8") auto
  from even_modulus_params[OF l this _ M(4), of "take (length Modulus div 8) Mem"] M(1,2) False
  show ?thesis by (simp add: RsaVerifySigDataFromData_def Let_def)
qed

theorem RsaVerifySigDataFromData_rejects_witness:
  "RsaVerifySigDataFromData sample_env [0x80, 0, 0, 0, 0, 0, 0, 2] (length [0x80 :: byte, 0, 0, 0, 0, 0, 0, 2]) 3 [1] (length [1 :: byte])
     [2] (length [2 :: byte]) OcSigHashTypeSha256 (Some [0, 0]) None = Some False"
  by (rule RsaVerifySigDataFromData_rejects) (simp add: be_val_def)

text \<open>
  With exponent 3 no signature is ever accepted, because \<open>BigNumPowMod\<close> computes 0 for it.
\<close>

theorem RsaVerify_exponent_3_rejects:
  assumes env: "crypto_env_ok env" and alg: "Algorithm \<noteq> OcSigHashTypeMax" and msg: "length Msg < 2 ^ 32"
    and mod: "length Modulus = 8 * n" "0 < n" "8 * n \<le> OC_BN_MONT_MAX_SIZE" "0x80 \<le> Modulus ! 0" "odd (be_val Modulus)"
    and mem: "length Memory = 2 * n + 3 * OC_BN_MONT_RSQR_LEN n" "3 * n \<le> length Scratch"
  shows "RsaVerifySigDataFromData env Modulus (length Modulus) 3 Sig (length Sig) Msg (length Msg) Algorithm
      (Some Memory) (Some Scratch) = Some False"
proof -
  obtain N inv RSqr where r: "n \<le> length N" "n \<le> length RSqr" "inv * N ! 0 = - 1"
    "RsaVerifySigDataFromData env Modulus (length Modulus) 3 Sig (length Sig) Msg (length Msg) Algorithm
        (Some Memory) (Some Scratch) =
      Some (RsaVerifySigHashFromProcessed env N n inv RSqr 3 Sig (length Sig) (sha_spec Algorithm Msg)
        (length (sha_spec Algorithm Msg)) Algorithm Scratch)"
    by (rule RsaVerifySigDataFromData_odd[OF env alg msg mod mem(1)])
  have "env_mul_ok env" using env by (simp add: crypto_env_ok_def)
  from RsaVerify_3[OF this mod(2) r(1,2) mem(2) r(3), of Sig "sha_spec Algorithm Msg" Algorithm] show ?thesis unfolding r(4) by simp
qed

theorem RsaVerify_exponent_3_rejects_witness:
  "RsaVerifySigDataFromData sample_env sample_modulus (length sample_modulus) 3 (replicate 256 1)
      (length (replicate 256 (1 :: byte))) [0x61] (length [0x61 :: byte]) OcSigHashTypeSha512
      (Some (replicate (2 * 32 + 3 * OC_BN_MONT_RSQR_LEN 32) 0)) (Some (replicate 96 0)) = Some False"
  by (rule RsaVerify_exponent_3_rejects[where n = 32])
    (simp_all only: sample_env_ok sample_modulus_ok, simp_all add: OC_BN_MONT_MAX_SIZE_def OC_BN_MAX_LEN_def)

text \<open>
  \<open>SigVerifyShaHashBySize\<close> returns 0 exactly for the SHA-2 digest that the size selects, when the
  build allows that hash, and -1 for any other size.
\<close>

theorem SigVerifyShaHashBySize_correct:
  assumes "crypto_env_ok env" "length Msg < 2 ^ 32"
  shows "\<exists>r. SigVerifyShaHashBySize env Msg (length Msg) Hash (length Hash) = Some r \<and>
    (length Hash \<notin> {32, 48, 64} \<longrightarrow> r = - 1) \<and>
    (r = 0 \<longleftrightarrow> (\<exists>t. t \<noteq> OcSigHashTypeMax \<and> InternalSigHashTypeIsAllowed env t \<and> Hash = sha_spec t Msg))"
proof -
  define t where "t = (if length Hash = 64 then OcSigHashTypeSha512 else if length Hash = 48 then OcSigHashTypeSha384
            else if length Hash = 32 then OcSigHashTypeSha256 else OcSigHashTypeMax)"
  have t: "t \<noteq> OcSigHashTypeMax \<Longrightarrow> sha_size t = length Hash" "t = OcSigHashTypeMax \<longleftrightarrow> length Hash \<notin> {32, 48, 64}"
    by (auto simp: t_def)
  have u: "t' = t" if "t' \<noteq> OcSigHashTypeMax" "Hash = sha_spec t' Msg" for t'
    using that by (cases t') (simp_all add: t_def)
  let ?r = "if t = OcSigHashTypeMax \<or> \<not> InternalSigHashTypeIsAllowed env t then - 1 else CompareMem (sha_spec t Msg) Hash"
  have "SigVerifyShaHashBySize env Msg (length Msg) Hash (length Hash) = Some ?r"
    using ShaDigest_spec[OF assms(1) _ assms(2), of t] t(1)
    unfolding SigVerifyShaHashBySize_def t_def[symmetric] by (cases t) simp_all
  moreover have "length Hash \<notin> {32, 48, 64} \<longrightarrow> ?r = - 1" using t(2) by simp
  moreover have "?r = 0 \<longleftrightarrow> (\<exists>t. t \<noteq> OcSigHashTypeMax \<and> InternalSigHashTypeIsAllowed env t \<and> Hash = sha_spec t Msg)"
    using CompareMem_eq_0[of "sha_spec t Msg" Hash] t(1) u by auto
  ultimately show ?thesis by blast
qed

theorem SigVerifyShaHashBySize_correct_witness:
  "\<exists>r. SigVerifyShaHashBySize sample_env [0x61] (length [0x61 :: byte]) [1, 2] (length [1, 2 :: byte]) = Some r \<and>
    (length [1, 2 :: byte] \<notin> {32, 48, 64} \<longrightarrow> r = - 1) \<and>
    (r = 0 \<longleftrightarrow> (\<exists>t. t \<noteq> OcSigHashTypeMax \<and> InternalSigHashTypeIsAllowed sample_env t \<and> [1, 2] = sha_spec t [0x61]))"
  by (rule SigVerifyShaHashBySize_correct) (simp_all add: sample_env_ok)

end
