(* ===== verification/Oc_Md5Sha1.thy ===== *)
theory Oc_Md5Sha1
  imports Oc_MerkleDamgard
begin

unbundle bit_operations_syntax

text \<open>
  Models of \<^verbatim>\<open>Library/OcCryptoLib/Md5.c\<close> and \<^verbatim>\<open>Library/OcCryptoLib/Sha1.c\<close>. The round macros
  are functions; the message words, the rounds, initialisation, update and final follow the code.
\<close>

section \<open>The code\<close>

definition ROTLEFT :: "u32 \<Rightarrow> nat \<Rightarrow> u32" where
  "ROTLEFT a b = (push_bit b a OR drop_bit (32 - b) a)"

subsection \<open>MD5\<close>

definition md5_F :: "u32 \<Rightarrow> u32 \<Rightarrow> u32 \<Rightarrow> u32" where "md5_F X Y Z = ((X AND Y) OR (NOT X AND Z))"
definition md5_G :: "u32 \<Rightarrow> u32 \<Rightarrow> u32 \<Rightarrow> u32" where "md5_G X Y Z = ((X AND Z) OR (Y AND NOT Z))"
definition md5_H :: "u32 \<Rightarrow> u32 \<Rightarrow> u32 \<Rightarrow> u32" where "md5_H X Y Z = (X XOR Y XOR Z)"
definition md5_I :: "u32 \<Rightarrow> u32 \<Rightarrow> u32 \<Rightarrow> u32" where "md5_I X Y Z = (Y XOR (X OR NOT Z))"

text \<open>The macros assign to their first argument; here they return its new value.\<close>

definition FF :: "u32 \<Rightarrow> u32 \<Rightarrow> u32 \<Rightarrow> u32 \<Rightarrow> u32 \<Rightarrow> nat \<Rightarrow> u32 \<Rightarrow> u32" where
  "FF A B C D M S T = B + ROTLEFT (A + (md5_F B C D + M + T)) S"
definition GG :: "u32 \<Rightarrow> u32 \<Rightarrow> u32 \<Rightarrow> u32 \<Rightarrow> u32 \<Rightarrow> nat \<Rightarrow> u32 \<Rightarrow> u32" where
  "GG A B C D M S T = B + ROTLEFT (A + (md5_G B C D + M + T)) S"
definition HH :: "u32 \<Rightarrow> u32 \<Rightarrow> u32 \<Rightarrow> u32 \<Rightarrow> u32 \<Rightarrow> nat \<Rightarrow> u32 \<Rightarrow> u32" where
  "HH A B C D M S T = B + ROTLEFT (A + (md5_H B C D + M + T)) S"
definition II :: "u32 \<Rightarrow> u32 \<Rightarrow> u32 \<Rightarrow> u32 \<Rightarrow> u32 \<Rightarrow> nat \<Rightarrow> u32 \<Rightarrow> u32" where
  "II A B C D M S T = B + ROTLEFT (A + (md5_I B C D + M + T)) S"

definition Md5Transform_M :: "byte list \<Rightarrow> u32 list" where
  "Md5Transform_M D =
     map (\<lambda>Index1. ucast (D ! (4 * Index1)) + push_bit 8 (ucast (D ! (4 * Index1 + 1)))
       + push_bit 16 (ucast (D ! (4 * Index1 + 2))) + push_bit 24 (ucast (D ! (4 * Index1 + 3)))) [0..<16]"

definition md5_round1 :: "u32 list \<Rightarrow> u32 \<times> u32 \<times> u32 \<times> u32 \<Rightarrow> u32 \<times> u32 \<times> u32 \<times> u32" where
  "md5_round1 M st = (case st of (A, B, C, D) \<Rightarrow>
     (let A = FF A B C D (M ! 0) 7 0xD76AA478;
          D = FF D A B C (M ! 1) 12 0xE8C7B756;
          C = FF C D A B (M ! 2) 17 0x242070DB;
          B = FF B C D A (M ! 3) 22 0xC1BDCEEE;
          A = FF A B C D (M ! 4) 7 0xF57C0FAF;
          D = FF D A B C (M ! 5) 12 0x4787C62A;
          C = FF C D A B (M ! 6) 17 0xA8304613;
          B = FF B C D A (M ! 7) 22 0xFD469501;
          A = FF A B C D (M ! 8) 7 0x698098D8;
          D = FF D A B C (M ! 9) 12 0x8B44F7AF;
          C = FF C D A B (M ! 10) 17 0xFFFF5BB1;
          B = FF B C D A (M ! 11) 22 0x895CD7BE;
          A = FF A B C D (M ! 12) 7 0x6B901122;
          D = FF D A B C (M ! 13) 12 0xFD987193;
          C = FF C D A B (M ! 14) 17 0xA679438E;
          B = FF B C D A (M ! 15) 22 0x49B40821
      in (A, B, C, D)))"

definition md5_round2 :: "u32 list \<Rightarrow> u32 \<times> u32 \<times> u32 \<times> u32 \<Rightarrow> u32 \<times> u32 \<times> u32 \<times> u32" where
  "md5_round2 M st = (case st of (A, B, C, D) \<Rightarrow>
     (let A = GG A B C D (M ! 1) 5 0xF61E2562;
          D = GG D A B C (M ! 6) 9 0xC040B340;
          C = GG C D A B (M ! 11) 14 0x265E5A51;
          B = GG B C D A (M ! 0) 20 0xE9B6C7AA;
          A = GG A B C D (M ! 5) 5 0xD62F105D;
          D = GG D A B C (M ! 10) 9 0x02441453;
          C = GG C D A B (M ! 15) 14 0xD8A1E681;
          B = GG B C D A (M ! 4) 20 0xE7D3FBC8;
          A = GG A B C D (M ! 9) 5 0x21E1CDE6;
          D = GG D A B C (M ! 14) 9 0xC33707D6;
          C = GG C D A B (M ! 3) 14 0xF4D50D87;
          B = GG B C D A (M ! 8) 20 0x455A14ED;
          A = GG A B C D (M ! 13) 5 0xA9E3E905;
          D = GG D A B C (M ! 2) 9 0xFCEFA3F8;
          C = GG C D A B (M ! 7) 14 0x676F02D9;
          B = GG B C D A (M ! 12) 20 0x8D2A4C8A
      in (A, B, C, D)))"

definition md5_round3 :: "u32 list \<Rightarrow> u32 \<times> u32 \<times> u32 \<times> u32 \<Rightarrow> u32 \<times> u32 \<times> u32 \<times> u32" where
  "md5_round3 M st = (case st of (A, B, C, D) \<Rightarrow>
     (let A = HH A B C D (M ! 5) 4 0xFFFA3942;
          D = HH D A B C (M ! 8) 11 0x8771F681;
          C = HH C D A B (M ! 11) 16 0x6D9D6122;
          B = HH B C D A (M ! 14) 23 0xFDE5380C;
          A = HH A B C D (M ! 1) 4 0xA4BEEA44;
          D = HH D A B C (M ! 4) 11 0x4BDECFA9;
          C = HH C D A B (M ! 7) 16 0xF6BB4B60;
          B = HH B C D A (M ! 10) 23 0xBEBFBC70;
          A = HH A B C D (M ! 13) 4 0x289B7EC6;
          D = HH D A B C (M ! 0) 11 0xEAA127FA;
          C = HH C D A B (M ! 3) 16 0xD4EF3085;
          B = HH B C D A (M ! 6) 23 0x04881D05;
          A = HH A B C D (M ! 9) 4 0xD9D4D039;
          D = HH D A B C (M ! 12) 11 0xE6DB99E5;
          C = HH C D A B (M ! 15) 16 0x1FA27CF8;
          B = HH B C D A (M ! 2) 23 0xC4AC5665
      in (A, B, C, D)))"

definition md5_round4 :: "u32 list \<Rightarrow> u32 \<times> u32 \<times> u32 \<times> u32 \<Rightarrow> u32 \<times> u32 \<times> u32 \<times> u32" where
  "md5_round4 M st = (case st of (A, B, C, D) \<Rightarrow>
     (let A = II A B C D (M ! 0) 6 0xF4292244;
          D = II D A B C (M ! 7) 10 0x432AFF97;
          C = II C D A B (M ! 14) 15 0xAB9423A7;
          B = II B C D A (M ! 5) 21 0xFC93A039;
          A = II A B C D (M ! 12) 6 0x655B59C3;
          D = II D A B C (M ! 3) 10 0x8F0CCC92;
          C = II C D A B (M ! 10) 15 0xFFEFF47D;
          B = II B C D A (M ! 1) 21 0x85845DD1;
          A = II A B C D (M ! 8) 6 0x6FA87E4F;
          D = II D A B C (M ! 15) 10 0xFE2CE6E0;
          C = II C D A B (M ! 6) 15 0xA3014314;
          B = II B C D A (M ! 13) 21 0x4E0811A1;
          A = II A B C D (M ! 4) 6 0xF7537E82;
          D = II D A B C (M ! 11) 10 0xBD3AF235;
          C = II C D A B (M ! 2) 15 0x2AD7D2BB;
          B = II B C D A (M ! 9) 21 0xEB86D391
      in (A, B, C, D)))"

definition md5_compress :: "u32 list \<Rightarrow> byte list \<Rightarrow> u32 list" where
  "md5_compress S D =
     (let M = Md5Transform_M D in
      case md5_round4 M (md5_round3 M (md5_round2 M (md5_round1 M (S ! 0, S ! 1, S ! 2, S ! 3)))) of
        (A, B, C, D) \<Rightarrow> [S ! 0 + A, S ! 1 + B, S ! 2 + C, S ! 3 + D])"

definition Md5Transform :: "md_ctx \<Rightarrow> byte list \<Rightarrow> md_ctx" where
  "Md5Transform Ctx D = Ctx\<lparr>State := md5_compress (State Ctx) D\<rparr>"

definition Md5Init :: "md_ctx \<Rightarrow> md_ctx" where
  "Md5Init Ctx = Ctx\<lparr>DataLen := 0, BitLen := 0, State := [0x67452301, 0xEFCDAB89, 0x98BADCFE, 0x10325476]\<rparr>"

definition Md5Update :: "md_ctx \<Rightarrow> byte list \<Rightarrow> nat \<Rightarrow> md_ctx" where
  "Md5Update Ctx Msg Len = fold (\<lambda>Index. md_update_byte Md5Transform (Msg ! Index)) [0..<Len] Ctx"

definition Md5Final :: "md_ctx \<Rightarrow> byte list" where
  "Md5Final Ctx =
     (let S = State (md_finish Md5Transform le64_bytes Ctx)
      in map (\<lambda>k. ucast (drop_bit ((k mod 4) * 8) (S ! (k div 4)) AND 0x000000FF)) [0..<16])"

definition Md5 :: "md_ctx \<Rightarrow> byte list \<Rightarrow> nat \<Rightarrow> byte list" where
  "Md5 Ctx Msg Len = Md5Final (Md5Update (Md5Init Ctx) Msg Len)"

subsection \<open>SHA-1\<close>

record sha1_ctx = md_ctx +
  K :: "u32 list"

definition Sha1Transform_M :: "byte list \<Rightarrow> u32 list" where
  "Sha1Transform_M D =
     (let M0 = map (\<lambda>Index1. push_bit 24 (ucast (D ! (4 * Index1))) + push_bit 16 (ucast (D ! (4 * Index1 + 1)))
                 + push_bit 8 (ucast (D ! (4 * Index1 + 2))) + ucast (D ! (4 * Index1 + 3))) [0..<16]
      in fold (\<lambda>Index1 M. (let T = M ! (Index1 - 3) XOR M ! (Index1 - 8) XOR M ! (Index1 - 14) XOR M ! (Index1 - 16)
                            in M @ [push_bit 1 T OR drop_bit 31 T])) [16..<80] M0)"

text \<open>One pass of the four loops; they differ in the Boolean function and in the constant.\<close>

definition Sha1Transform_round ::
  "(u32 \<Rightarrow> u32 \<Rightarrow> u32 \<Rightarrow> u32) \<Rightarrow> u32 \<Rightarrow> u32 list \<Rightarrow> nat \<Rightarrow> u32 \<times> u32 \<times> u32 \<times> u32 \<times> u32 \<Rightarrow> u32 \<times> u32 \<times> u32 \<times> u32 \<times> u32" where
  "Sha1Transform_round f k M Index1 st =
     (case st of (A, B, C, D, E) \<Rightarrow>
        (let T = ROTLEFT A 5 + f B C D + E + k + M ! Index1 in (T, A, ROTLEFT B 30, C, D)))"

definition sha1_compress :: "u32 list \<Rightarrow> u32 list \<Rightarrow> byte list \<Rightarrow> u32 list" where
  "sha1_compress k S Blk =
     (let M = Sha1Transform_M Blk;
          st = (S ! 0, S ! 1, S ! 2, S ! 3, S ! 4);
          st = fold (Sha1Transform_round (\<lambda>B C D. (B AND C) XOR (NOT B AND D)) (k ! 0) M) [0..<20] st;
          st = fold (Sha1Transform_round (\<lambda>B C D. B XOR C XOR D) (k ! 1) M) [20..<40] st;
          st = fold (Sha1Transform_round (\<lambda>B C D. (B AND C) XOR (B AND D) XOR (C AND D)) (k ! 2) M) [40..<60] st;
          st = fold (Sha1Transform_round (\<lambda>B C D. B XOR C XOR D) (k ! 3) M) [60..<80] st
      in case st of (A, B, C, D, E) \<Rightarrow> [S ! 0 + A, S ! 1 + B, S ! 2 + C, S ! 3 + D, S ! 4 + E])"

definition Sha1Transform :: "sha1_ctx \<Rightarrow> byte list \<Rightarrow> sha1_ctx" where
  "Sha1Transform Ctx D = Ctx\<lparr>State := sha1_compress (K Ctx) (State Ctx) D\<rparr>"

definition Sha1Init :: "sha1_ctx \<Rightarrow> sha1_ctx" where
  "Sha1Init Ctx =
     Ctx\<lparr>DataLen := 0, BitLen := 0, State := [0x67452301, 0xEFCDAB89, 0x98BADCFE, 0x10325476, 0xC3D2E1F0],
         K := [0x5A827999, 0x6ED9EBA1, 0x8F1BBCDC, 0xCA62C1D6]\<rparr>"

definition Sha1Update :: "sha1_ctx \<Rightarrow> byte list \<Rightarrow> nat \<Rightarrow> sha1_ctx" where
  "Sha1Update Ctx Msg Len = fold (\<lambda>Index. md_update_byte Sha1Transform (Msg ! Index)) [0..<Len] Ctx"

definition Sha1Final :: "sha1_ctx \<Rightarrow> byte list" where
  "Sha1Final Ctx =
     (let S = State (md_finish Sha1Transform be64_bytes Ctx)
      in map (\<lambda>k. ucast (drop_bit (24 - (k mod 4) * 8) (S ! (k div 4)) AND 0x000000FF)) [0..<20])"

definition Sha1 :: "sha1_ctx \<Rightarrow> byte list \<Rightarrow> nat \<Rightarrow> byte list" where
  "Sha1 Ctx Msg Len = Sha1Final (Sha1Update (Sha1Init Ctx) Msg Len)"

section \<open>Lemmas\<close>

interpretation md5: md_transform Md5Transform "\<lambda>_ :: unit. md5_compress"
  by unfold_locales (simp add: Md5Transform_def)

text \<open>The extra field of a SHA-1 context, the round constants, is the parameter of its compression.\<close>

definition sha1_more_K :: "\<lparr>K :: u32 list\<rparr> \<Rightarrow> u32 list" where
  "sha1_more_K z = K (md_ctx.extend \<lparr>Data = [], DataLen = 0, BitLen = 0, State = []\<rparr> z)"

interpretation sha1: md_transform Sha1Transform "\<lambda>z. sha1_compress (sha1_more_K z)"
proof
  fix c :: sha1_ctx and d
  have "K c = sha1_more_K (md_ctx.more c)" by (cases c) (simp add: sha1_more_K_def md_ctx.defs)
  then show "Sha1Transform c d = c\<lparr>State := sha1_compress (sha1_more_K (md_ctx.more c)) (State c) d\<rparr>"
    by (simp add: Sha1Transform_def)
qed

lemma fold_update_index:
  "Len \<le> length Msg \<Longrightarrow> fold (\<lambda>Index. f (Msg ! Index)) [0..<Len] c = fold f (take Len Msg) c"
  by (induction Len) (simp_all add: take_Suc_conv_app_nth)

definition md5_spec :: "byte list \<Rightarrow> byte list" where
  "md5_spec msg =
     concat (map le32_bytes (md_hash 64 8 (\<lambda>n. le64_bytes (of_nat (8 * n))) md5_compress
       [0x67452301, 0xEFCDAB89, 0x98BADCFE, 0x10325476] msg))"

definition sha1_spec :: "byte list \<Rightarrow> byte list" where
  "sha1_spec msg =
     concat (map be32_bytes (md_hash 64 8 (\<lambda>n. be64_bytes (of_nat (8 * n)))
       (sha1_compress [0x5A827999, 0x6ED9EBA1, 0x8F1BBCDC, 0xCA62C1D6])
       [0x67452301, 0xEFCDAB89, 0x98BADCFE, 0x10325476, 0xC3D2E1F0] msg))"

lemma length_foldl_len: "length h = n \<Longrightarrow> (\<And>h b. length (f h b) = n) \<Longrightarrow> length (foldl f h bs) = n"
  by (induction bs arbitrary: h) simp_all

lemma length_md5_compress: "length (md5_compress S D) = 4"
  by (simp add: md5_compress_def Let_def split: prod.splits)

lemma length_sha1_compress: "length (sha1_compress k S D) = 5"
  by (simp add: sha1_compress_def Let_def split: prod.splits)

lemma Md5_repr:
  "length (Data c) = 64 \<Longrightarrow> Len \<le> length Msg \<Longrightarrow>
   md5.md_repr [0x67452301, 0xEFCDAB89, 0x98BADCFE, 0x10325476] () (take Len Msg) (Md5Update (Md5Init c) Msg Len)"
  using md5.md_repr_update[OF md5.md_repr_init[of "Md5Init c"], of "take Len Msg"]
  by (simp add: Md5Update_def fold_update_index Md5Init_def)

lemma Sha1_repr:
  assumes "length (Data c) = 64" "Len \<le> length Msg"
  shows "\<exists>z. sha1_more_K z = [0x5A827999, 0x6ED9EBA1, 0x8F1BBCDC, 0xCA62C1D6] \<and>
    sha1.md_repr [0x67452301, 0xEFCDAB89, 0x98BADCFE, 0x10325476, 0xC3D2E1F0] z (take Len Msg) (Sha1Update (Sha1Init c) Msg Len)"
proof (intro exI conjI)
  show "sha1_more_K (md_ctx.more (Sha1Init c)) = [0x5A827999, 0x6ED9EBA1, 0x8F1BBCDC, 0xCA62C1D6]"
    by (cases c) (simp add: sha1_more_K_def md_ctx.defs Sha1Init_def)
  show "sha1.md_repr [0x67452301, 0xEFCDAB89, 0x98BADCFE, 0x10325476, 0xC3D2E1F0] (md_ctx.more (Sha1Init c))
      (take Len Msg) (Sha1Update (Sha1Init c) Msg Len)"
    using sha1.md_repr_update[OF sha1.md_repr_init[of "Sha1Init c"], of "take Len Msg"] assms
    by (simp add: Sha1Update_def fold_update_index Sha1Init_def)
qed

section \<open>Properties\<close>

text \<open>
  C20: the MD5 and SHA-1 functions compute the padded Merkle-Damgard construction over their
  compression functions, for messages of any length and any earlier contents of the context.
\<close>

theorem Md5_Sha1_correct:
  assumes "length (Data c) = 64" "length (Data c') = 64" "Len \<le> length Msg"
  shows "Md5 c Msg Len = md5_spec (take Len Msg) \<and> Sha1 c' Msg Len = sha1_spec (take Len Msg)"
proof
  let ?S = "md_hash 64 8 (\<lambda>n. le64_bytes (of_nat (8 * n))) md5_compress
       [0x67452301, 0xEFCDAB89, 0x98BADCFE, 0x10325476] (take Len Msg)"
  have "length ?S = 4" unfolding md_hash_def by (rule length_foldl_len) (simp_all add: length_md5_compress)
  from digest_le32[OF this] show "Md5 c Msg Len = md5_spec (take Len Msg)"
    using md5.md_finish_State[OF Md5_repr[OF assms(1,3)], of le64_bytes]
    by (simp add: Md5_def Md5Final_def md5_spec_def Let_def)
next
  obtain z where z: "sha1_more_K z = [0x5A827999, 0x6ED9EBA1, 0x8F1BBCDC, 0xCA62C1D6]"
    "sha1.md_repr [0x67452301, 0xEFCDAB89, 0x98BADCFE, 0x10325476, 0xC3D2E1F0] z (take Len Msg) (Sha1Update (Sha1Init c') Msg Len)"
    using Sha1_repr[OF assms(2,3)] by blast
  let ?S = "md_hash 64 8 (\<lambda>n. be64_bytes (of_nat (8 * n)))
       (sha1_compress [0x5A827999, 0x6ED9EBA1, 0x8F1BBCDC, 0xCA62C1D6])
       [0x67452301, 0xEFCDAB89, 0x98BADCFE, 0x10325476, 0xC3D2E1F0] (take Len Msg)"
  have "length ?S = 5" unfolding md_hash_def by (rule length_foldl_len) (simp_all add: length_sha1_compress)
  from digest_be32[OF this] show "Sha1 c' Msg Len = sha1_spec (take Len Msg)"
    using sha1.md_finish_State[OF z(2), of be64_bytes] z(1)
    by (simp add: Sha1_def Sha1Final_def sha1_spec_def Let_def)
qed

theorem Md5_Sha1_correct_witness:
  "Md5 \<lparr>Data = replicate 64 0, DataLen = 0, BitLen = 0, State = []\<rparr> [0x61, 0x62] 2 = md5_spec (take 2 [0x61, 0x62]) \<and>
   Sha1 \<lparr>Data = replicate 64 0, DataLen = 0, BitLen = 0, State = [], K = []\<rparr> [0x61, 0x62] 2 = sha1_spec (take 2 [0x61, 0x62])"
  by (rule Md5_Sha1_correct) simp_all

end
