(* ===== verification/Oc_Aes.thy ===== *)
theory Oc_Aes
  imports Oc_MerkleDamgard Oc_BigNum
begin

unbundle bit_operations_syntax

text \<open>
  Model of \<^verbatim>\<open>Library/OcCryptoLib/Aes.c\<close>: the key expansion, the cipher and its inverse, and the CBC
  and CTR modes. The parameter \<open>KeySize\<close> is \<^verbatim>\<open>CONFIG_AES_KEY_SIZE\<close> (16, 24 or 32). The state
  \<^verbatim>\<open>State[I][J]\<close> is the list of its 16 bytes, with element \<open>4 * I + J\<close>; a block of a buffer is a
  window of the list. The CBC loops keep their 32-bit index; indices that cannot wrap are natural numbers.
\<close>

section \<open>The code\<close>

abbreviation (input) Nb :: nat where "Nb \<equiv> 4"

definition Nk :: "nat \<Rightarrow> nat" where
  "Nk KeySize = (if KeySize = 32 then 8 else if KeySize = 24 then 6 else 4)"

definition Nr :: "nat \<Rightarrow> nat" where
  "Nr KeySize = (if KeySize = 32 then 14 else if KeySize = 24 then 12 else 10)"

definition AES_KEY_EXP_SIZE :: "nat \<Rightarrow> nat" where
  "AES_KEY_EXP_SIZE KeySize = (if KeySize = 32 then 240 else if KeySize = 24 then 208 else 176)"

definition AES_BLOCK_SIZE :: nat where
  "AES_BLOCK_SIZE = 16"

record AES_CONTEXT =
  RoundKey :: "byte list"
  Iv :: "byte list"

definition Sbox :: "byte list" where
  "Sbox =
    [0x63, 0x7c, 0x77, 0x7b, 0xf2, 0x6b, 0x6f, 0xc5, 0x30, 0x01, 0x67, 0x2b, 0xfe, 0xd7, 0xab, 0x76,
     0xca, 0x82, 0xc9, 0x7d, 0xfa, 0x59, 0x47, 0xf0, 0xad, 0xd4, 0xa2, 0xaf, 0x9c, 0xa4, 0x72, 0xc0,
     0xb7, 0xfd, 0x93, 0x26, 0x36, 0x3f, 0xf7, 0xcc, 0x34, 0xa5, 0xe5, 0xf1, 0x71, 0xd8, 0x31, 0x15,
     0x04, 0xc7, 0x23, 0xc3, 0x18, 0x96, 0x05, 0x9a, 0x07, 0x12, 0x80, 0xe2, 0xeb, 0x27, 0xb2, 0x75,
     0x09, 0x83, 0x2c, 0x1a, 0x1b, 0x6e, 0x5a, 0xa0, 0x52, 0x3b, 0xd6, 0xb3, 0x29, 0xe3, 0x2f, 0x84,
     0x53, 0xd1, 0x00, 0xed, 0x20, 0xfc, 0xb1, 0x5b, 0x6a, 0xcb, 0xbe, 0x39, 0x4a, 0x4c, 0x58, 0xcf,
     0xd0, 0xef, 0xaa, 0xfb, 0x43, 0x4d, 0x33, 0x85, 0x45, 0xf9, 0x02, 0x7f, 0x50, 0x3c, 0x9f, 0xa8,
     0x51, 0xa3, 0x40, 0x8f, 0x92, 0x9d, 0x38, 0xf5, 0xbc, 0xb6, 0xda, 0x21, 0x10, 0xff, 0xf3, 0xd2,
     0xcd, 0x0c, 0x13, 0xec, 0x5f, 0x97, 0x44, 0x17, 0xc4, 0xa7, 0x7e, 0x3d, 0x64, 0x5d, 0x19, 0x73,
     0x60, 0x81, 0x4f, 0xdc, 0x22, 0x2a, 0x90, 0x88, 0x46, 0xee, 0xb8, 0x14, 0xde, 0x5e, 0x0b, 0xdb,
     0xe0, 0x32, 0x3a, 0x0a, 0x49, 0x06, 0x24, 0x5c, 0xc2, 0xd3, 0xac, 0x62, 0x91, 0x95, 0xe4, 0x79,
     0xe7, 0xc8, 0x37, 0x6d, 0x8d, 0xd5, 0x4e, 0xa9, 0x6c, 0x56, 0xf4, 0xea, 0x65, 0x7a, 0xae, 0x08,
     0xba, 0x78, 0x25, 0x2e, 0x1c, 0xa6, 0xb4, 0xc6, 0xe8, 0xdd, 0x74, 0x1f, 0x4b, 0xbd, 0x8b, 0x8a,
     0x70, 0x3e, 0xb5, 0x66, 0x48, 0x03, 0xf6, 0x0e, 0x61, 0x35, 0x57, 0xb9, 0x86, 0xc1, 0x1d, 0x9e,
     0xe1, 0xf8, 0x98, 0x11, 0x69, 0xd9, 0x8e, 0x94, 0x9b, 0x1e, 0x87, 0xe9, 0xce, 0x55, 0x28, 0xdf,
     0x8c, 0xa1, 0x89, 0x0d, 0xbf, 0xe6, 0x42, 0x68, 0x41, 0x99, 0x2d, 0x0f, 0xb0, 0x54, 0xbb, 0x16]"

definition RsBox :: "byte list" where
  "RsBox =
    [0x52, 0x09, 0x6a, 0xd5, 0x30, 0x36, 0xa5, 0x38, 0xbf, 0x40, 0xa3, 0x9e, 0x81, 0xf3, 0xd7, 0xfb,
     0x7c, 0xe3, 0x39, 0x82, 0x9b, 0x2f, 0xff, 0x87, 0x34, 0x8e, 0x43, 0x44, 0xc4, 0xde, 0xe9, 0xcb,
     0x54, 0x7b, 0x94, 0x32, 0xa6, 0xc2, 0x23, 0x3d, 0xee, 0x4c, 0x95, 0x0b, 0x42, 0xfa, 0xc3, 0x4e,
     0x08, 0x2e, 0xa1, 0x66, 0x28, 0xd9, 0x24, 0xb2, 0x76, 0x5b, 0xa2, 0x49, 0x6d, 0x8b, 0xd1, 0x25,
     0x72, 0xf8, 0xf6, 0x64, 0x86, 0x68, 0x98, 0x16, 0xd4, 0xa4, 0x5c, 0xcc, 0x5d, 0x65, 0xb6, 0x92,
     0x6c, 0x70, 0x48, 0x50, 0xfd, 0xed, 0xb9, 0xda, 0x5e, 0x15, 0x46, 0x57, 0xa7, 0x8d, 0x9d, 0x84,
     0x90, 0xd8, 0xab, 0x00, 0x8c, 0xbc, 0xd3, 0x0a, 0xf7, 0xe4, 0x58, 0x05, 0xb8, 0xb3, 0x45, 0x06,
     0xd0, 0x2c, 0x1e, 0x8f, 0xca, 0x3f, 0x0f, 0x02, 0xc1, 0xaf, 0xbd, 0x03, 0x01, 0x13, 0x8a, 0x6b,
     0x3a, 0x91, 0x11, 0x41, 0x4f, 0x67, 0xdc, 0xea, 0x97, 0xf2, 0xcf, 0xce, 0xf0, 0xb4, 0xe6, 0x73,
     0x96, 0xac, 0x74, 0x22, 0xe7, 0xad, 0x35, 0x85, 0xe2, 0xf9, 0x37, 0xe8, 0x1c, 0x75, 0xdf, 0x6e,
     0x47, 0xf1, 0x1a, 0x71, 0x1d, 0x29, 0xc5, 0x89, 0x6f, 0xb7, 0x62, 0x0e, 0xaa, 0x18, 0xbe, 0x1b,
     0xfc, 0x56, 0x3e, 0x4b, 0xc6, 0xd2, 0x79, 0x20, 0x9a, 0xdb, 0xc0, 0xfe, 0x78, 0xcd, 0x5a, 0xf4,
     0x1f, 0xdd, 0xa8, 0x33, 0x88, 0x07, 0xc7, 0x31, 0xb1, 0x12, 0x10, 0x59, 0x27, 0x80, 0xec, 0x5f,
     0x60, 0x51, 0x7f, 0xa9, 0x19, 0xb5, 0x4a, 0x0d, 0x2d, 0xe5, 0x7a, 0x9f, 0x93, 0xc9, 0x9c, 0xef,
     0xa0, 0xe0, 0x3b, 0x4d, 0xae, 0x2a, 0xf5, 0xb0, 0xc8, 0xeb, 0xbb, 0x3c, 0x83, 0x53, 0x99, 0x61,
     0x17, 0x2b, 0x04, 0x7e, 0xba, 0x77, 0xd6, 0x26, 0xe1, 0x69, 0x14, 0x63, 0x55, 0x21, 0x0c, 0x7d]"

definition Rcon :: "byte list" where
  "Rcon = [0x8d, 0x01, 0x02, 0x04, 0x08, 0x10, 0x20, 0x40, 0x80, 0x1b, 0x36]"

definition GetSboxValue :: "byte \<Rightarrow> byte" where
  "GetSboxValue num = Sbox ! unat num"

definition GetSBoxInvert :: "byte \<Rightarrow> byte" where
  "GetSBoxInvert num = RsBox ! unat num"

subsection \<open>Key expansion\<close>

definition KeyExpansion_copy :: "byte list \<Rightarrow> nat \<Rightarrow> byte list \<Rightarrow> byte list" where
  "KeyExpansion_copy Key Index R =
     R[Index * 4 + 0 := Key ! (Index * 4 + 0), Index * 4 + 1 := Key ! (Index * 4 + 1),
       Index * 4 + 2 := Key ! (Index * 4 + 2), Index * 4 + 3 := Key ! (Index * 4 + 3)]"

text \<open>\<open>TempA\<close> after the two conditional blocks.\<close>

definition KeyExpansion_temp :: "nat \<Rightarrow> nat \<Rightarrow> byte list \<Rightarrow> byte list" where
  "KeyExpansion_temp KeySize Index TempA =
     (let TempA = (if Index mod Nk KeySize = 0
                   then (let T = map GetSboxValue [TempA ! 1, TempA ! 2, TempA ! 3, TempA ! 0]
                         in T[0 := T ! 0 XOR Rcon ! (Index div Nk KeySize)])
                   else TempA)
      in if KeySize = 32 \<and> Index mod Nk KeySize = 4 then map GetSboxValue TempA else TempA)"

definition KeyExpansion_step :: "nat \<Rightarrow> nat \<Rightarrow> byte list \<Rightarrow> byte list" where
  "KeyExpansion_step KeySize Index R =
     (let K = (Index - 1) * 4;
          TempA = KeyExpansion_temp KeySize Index [R ! (K + 0), R ! (K + 1), R ! (K + 2), R ! (K + 3)];
          J = Index * 4;
          K = (Index - Nk KeySize) * 4
      in fold (\<lambda>i R. R[J + i := R ! (K + i) XOR TempA ! i]) [0..<4] R)"

definition KeyExpansion :: "nat \<Rightarrow> byte list \<Rightarrow> byte list \<Rightarrow> byte list" where
  "KeyExpansion KeySize R Key =
     fold (KeyExpansion_step KeySize) [Nk KeySize..<Nb * (Nr KeySize + 1)]
       (fold (KeyExpansion_copy Key) [0..<Nk KeySize] R)"

definition AesInitCtxIv :: "nat \<Rightarrow> AES_CONTEXT \<Rightarrow> byte list \<Rightarrow> byte list \<Rightarrow> AES_CONTEXT" where
  "AesInitCtxIv KeySize Context Key iv =
     Context\<lparr>RoundKey := KeyExpansion KeySize (RoundKey Context) Key, Iv := take AES_BLOCK_SIZE iv\<rparr>"

definition AesSetCtxIv :: "AES_CONTEXT \<Rightarrow> byte list \<Rightarrow> AES_CONTEXT" where
  "AesSetCtxIv Context iv = Context\<lparr>Iv := take AES_BLOCK_SIZE iv\<rparr>"

subsection \<open>The round transformations\<close>

definition AddRoundKey :: "nat \<Rightarrow> byte list \<Rightarrow> byte list \<Rightarrow> byte list" where
  "AddRoundKey Round S rk =
     fold (\<lambda>I S. fold (\<lambda>J S. S[4 * I + J := S ! (4 * I + J) XOR rk ! (Round * Nb * 4 + I * Nb + J)]) [0..<4] S) [0..<4] S"

definition SubBytes :: "byte list \<Rightarrow> byte list" where
  "SubBytes S = fold (\<lambda>I S. fold (\<lambda>J S. S[4 * J + I := GetSboxValue (S ! (4 * J + I))]) [0..<4] S) [0..<4] S"

text \<open>The assignments of \<open>ShiftRows\<close>, each row through \<open>Temp\<close>; \<open>sset S I J v\<close> is \<^verbatim>\<open>State[I][J] = v\<close>.\<close>

abbreviation (input) sget :: "byte list \<Rightarrow> nat \<Rightarrow> nat \<Rightarrow> byte" where
  "sget S I J \<equiv> S ! (4 * I + J)"

abbreviation (input) sset :: "byte list \<Rightarrow> nat \<Rightarrow> nat \<Rightarrow> byte \<Rightarrow> byte list" where
  "sset S I J v \<equiv> S[4 * I + J := v]"

definition ShiftRows :: "byte list \<Rightarrow> byte list" where
  "ShiftRows S =
     (let Temp = sget S 0 1;
          S = sset S 0 1 (sget S 1 1);
          S = sset S 1 1 (sget S 2 1);
          S = sset S 2 1 (sget S 3 1);
          S = sset S 3 1 Temp;
          Temp = sget S 0 2;
          S = sset S 0 2 (sget S 2 2);
          S = sset S 2 2 Temp;
          Temp = sget S 1 2;
          S = sset S 1 2 (sget S 3 2);
          S = sset S 3 2 Temp;
          Temp = sget S 0 3;
          S = sset S 0 3 (sget S 3 3);
          S = sset S 3 3 (sget S 2 3);
          S = sset S 2 3 (sget S 1 3)
      in sset S 1 3 Temp)"

definition XTime :: "byte \<Rightarrow> byte" where
  "XTime X = ucast (push_bit 1 (ucast X :: u32) XOR ((drop_bit 7 (ucast X :: u32) AND 1) * 0x1b))"

definition MixColumns_column :: "nat \<Rightarrow> byte list \<Rightarrow> byte list" where
  "MixColumns_column I S =
     (let T = sget S I 0;
          Tmp = sget S I 0 XOR sget S I 1 XOR sget S I 2 XOR sget S I 3;
          Tm = XTime (sget S I 0 XOR sget S I 1);
          S = sset S I 0 (sget S I 0 XOR (Tm XOR Tmp));
          Tm = XTime (sget S I 1 XOR sget S I 2);
          S = sset S I 1 (sget S I 1 XOR (Tm XOR Tmp));
          Tm = XTime (sget S I 2 XOR sget S I 3);
          S = sset S I 2 (sget S I 2 XOR (Tm XOR Tmp));
          Tm = XTime (sget S I 3 XOR T)
      in sset S I 3 (sget S I 3 XOR (Tm XOR Tmp)))"

definition MixColumns :: "byte list \<Rightarrow> byte list" where
  "MixColumns S = fold MixColumns_column [0..<4] S"

definition Multiply :: "byte \<Rightarrow> u32 \<Rightarrow> u32" where
  "Multiply x y =
     ((y AND 1) * ucast x) XOR
     ((drop_bit 1 y AND 1) * ucast (XTime x)) XOR
     ((drop_bit 2 y AND 1) * ucast (XTime (XTime x))) XOR
     ((drop_bit 3 y AND 1) * ucast (XTime (XTime (XTime x)))) XOR
     ((drop_bit 4 y AND 1) * ucast (XTime (XTime (XTime (XTime x)))))"

definition InvMixColumns_column :: "nat \<Rightarrow> byte list \<Rightarrow> byte list" where
  "InvMixColumns_column I S =
     (let A = sget S I 0; B = sget S I 1; C = sget S I 2; D = sget S I 3;
          S = sset S I 0 (ucast (Multiply A 0x0e XOR Multiply B 0x0b XOR Multiply C 0x0d XOR Multiply D 0x09));
          S = sset S I 1 (ucast (Multiply A 0x09 XOR Multiply B 0x0e XOR Multiply C 0x0b XOR Multiply D 0x0d));
          S = sset S I 2 (ucast (Multiply A 0x0d XOR Multiply B 0x09 XOR Multiply C 0x0e XOR Multiply D 0x0b))
      in sset S I 3 (ucast (Multiply A 0x0b XOR Multiply B 0x0d XOR Multiply C 0x09 XOR Multiply D 0x0e)))"

definition InvMixColumns :: "byte list \<Rightarrow> byte list" where
  "InvMixColumns S = fold InvMixColumns_column [0..<4] S"

definition InvSubBytes :: "byte list \<Rightarrow> byte list" where
  "InvSubBytes S = fold (\<lambda>I S. fold (\<lambda>J S. S[4 * J + I := GetSBoxInvert (S ! (4 * J + I))]) [0..<4] S) [0..<4] S"

definition InvShiftRows :: "byte list \<Rightarrow> byte list" where
  "InvShiftRows S =
     (let Temp = sget S 3 1;
          S = sset S 3 1 (sget S 2 1);
          S = sset S 2 1 (sget S 1 1);
          S = sset S 1 1 (sget S 0 1);
          S = sset S 0 1 Temp;
          Temp = sget S 0 2;
          S = sset S 0 2 (sget S 2 2);
          S = sset S 2 2 Temp;
          Temp = sget S 1 2;
          S = sset S 1 2 (sget S 3 2);
          S = sset S 3 2 Temp;
          Temp = sget S 0 3;
          S = sset S 0 3 (sget S 1 3);
          S = sset S 1 3 (sget S 2 3);
          S = sset S 2 3 (sget S 3 3)
      in sset S 3 3 Temp)"

definition Cipher :: "nat \<Rightarrow> byte list \<Rightarrow> byte list \<Rightarrow> byte list" where
  "Cipher KeySize S rk =
     (let S = AddRoundKey 0 S rk;
          S = fold (\<lambda>Round S. AddRoundKey Round (MixColumns (ShiftRows (SubBytes S))) rk) [1..<Nr KeySize] S
      in AddRoundKey (Nr KeySize) (ShiftRows (SubBytes S)) rk)"

definition InvCipher :: "nat \<Rightarrow> byte list \<Rightarrow> byte list \<Rightarrow> byte list" where
  "InvCipher KeySize S rk =
     (let S = AddRoundKey (Nr KeySize) S rk;
          S = fold (\<lambda>Round S. InvMixColumns (AddRoundKey Round (InvSubBytes (InvShiftRows S)) rk)) (rev [1..<Nr KeySize]) S
      in AddRoundKey 0 (InvSubBytes (InvShiftRows S)) rk)"

subsection \<open>Modes\<close>

definition XorWithIv :: "byte list \<Rightarrow> byte list \<Rightarrow> byte list" where
  "XorWithIv Buf iv = fold (\<lambda>I B. B[I := B ! I XOR iv ! I]) [0..<AES_BLOCK_SIZE] Buf"

text \<open>The loop state of the CBC functions: the index, the current vector, the buffer and the offset of
  \<open>Data\<close> in it.\<close>

type_synonym cbc_state = "u32 \<times> byte list \<times> byte list \<times> nat"

definition AesCbcEncrypt_block :: "nat \<Rightarrow> byte list \<Rightarrow> byte list \<times> byte list \<times> nat \<Rightarrow> byte list \<times> byte list \<times> nat" where
  "AesCbcEncrypt_block KeySize rk = (\<lambda>(iv, D, off).
     let B = Cipher KeySize (XorWithIv (window D off AES_BLOCK_SIZE) iv) rk
     in (B, overwrite D off B, off + AES_BLOCK_SIZE))"

definition AesCbcDecrypt_block :: "nat \<Rightarrow> byte list \<Rightarrow> byte list \<times> byte list \<times> nat \<Rightarrow> byte list \<times> byte list \<times> nat" where
  "AesCbcDecrypt_block KeySize rk = (\<lambda>(iv, D, off).
     let StoreNextIv = window D off AES_BLOCK_SIZE;
         B = XorWithIv (InvCipher KeySize (window D off AES_BLOCK_SIZE) rk) iv
     in (StoreNextIv, overwrite D off B, off + AES_BLOCK_SIZE))"

definition AesCbc_body :: "(byte list \<times> byte list \<times> nat \<Rightarrow> byte list \<times> byte list \<times> nat) \<Rightarrow> u32 \<Rightarrow> cbc_state \<Rightarrow>
    (cbc_state, byte list \<times> byte list) ctl" where
  "AesCbc_body block Len = (\<lambda>(I, iv, D, off).
     if I < Len then Continue (I + of_nat AES_BLOCK_SIZE, block (iv, D, off)) else Break (iv, D))"

definition AesCbcEncryptBuffer :: "nat \<Rightarrow> AES_CONTEXT \<Rightarrow> byte list \<Rightarrow> u32 \<Rightarrow> (AES_CONTEXT \<times> byte list) option" where
  "AesCbcEncryptBuffer KeySize Context D Len = do {
     (iv, D) \<leftarrow> iterate (AesCbc_body (AesCbcEncrypt_block KeySize (RoundKey Context)) Len) (0, Iv Context, D, 0);
     Some (Context\<lparr>Iv := iv\<rparr>, D)
   }"

definition AesCbcDecryptBuffer :: "nat \<Rightarrow> AES_CONTEXT \<Rightarrow> byte list \<Rightarrow> u32 \<Rightarrow> (AES_CONTEXT \<times> byte list) option" where
  "AesCbcDecryptBuffer KeySize Context D Len = do {
     (iv, D) \<leftarrow> iterate (AesCbc_body (AesCbcDecrypt_block KeySize (RoundKey Context)) Len) (0, Iv Context, D, 0);
     Some (Context\<lparr>Iv := iv\<rparr>, D)
   }"

text \<open>The inner loop of \<open>AesCtrXcryptBuffer\<close>, counting \<open>Bi\<close> down to 0.\<close>

fun AesCtr_increment :: "nat \<Rightarrow> byte list \<Rightarrow> byte list" where
  "AesCtr_increment 0 iv = iv"
| "AesCtr_increment (Suc Bi) iv =
     (if iv ! Bi = 255 then AesCtr_increment Bi (iv[Bi := 0]) else iv[Bi := iv ! Bi + 1])"

definition AesCtr_body :: "nat \<Rightarrow> byte list \<Rightarrow> nat \<Rightarrow> nat \<times> byte list \<times> byte list \<times> byte list \<Rightarrow>
    nat \<times> byte list \<times> byte list \<times> byte list" where
  "AesCtr_body KeySize rk I = (\<lambda>(Bi, Buffer, iv, D).
     let (Bi, Buffer, iv) =
           (if Bi = AES_BLOCK_SIZE
            then (0, Cipher KeySize (take AES_BLOCK_SIZE iv) rk, AesCtr_increment AES_BLOCK_SIZE iv)
            else (Bi, Buffer, iv))
     in (Bi + 1, Buffer, iv, D[I := D ! I XOR Buffer ! Bi]))"

definition AesCtrXcryptBuffer :: "nat \<Rightarrow> AES_CONTEXT \<Rightarrow> byte list \<Rightarrow> u32 \<Rightarrow> byte list \<Rightarrow> AES_CONTEXT \<times> byte list" where
  "AesCtrXcryptBuffer KeySize Context D Len Buffer =
     (let (_, _, iv, D) = fold (AesCtr_body KeySize (RoundKey Context)) [0..<unat Len]
            (AES_BLOCK_SIZE, Buffer, Iv Context, D)
      in (Context\<lparr>Iv := iv\<rparr>, D))"

section \<open>Tables\<close>

lemma boxes_check: "map GetSBoxInvert Sbox = map of_nat [0..<256]"
  by code_simp

lemma length_boxes: "length Sbox = 256" "length RsBox = 256"
  by (simp_all add: Sbox_def RsBox_def)

lemma SBoxInvert_Sbox [simp]: "GetSBoxInvert (GetSboxValue b) = b"
proof -
  have b: "unat b < 256" using unat_less_2pow[of b] by simp
  have "map GetSBoxInvert Sbox ! unat b = map of_nat [0..<256] ! unat b" by (simp only: boxes_check)
  then show ?thesis using b by (simp add: length_boxes GetSboxValue_def)
qed

section \<open>Multiplication by x\<close>

lemma ucast_ucast_byte: "ucast (ucast (x :: byte) :: u32) = x"
  by (rule bit_word_eqI) (auto simp: bit_simps)

lemma XTime_alt: "XTime X = push_bit 1 X XOR (if bit X 7 then 0x1b else 0)"
proof -
  have "XTime X = ucast (push_bit 1 (ucast X :: u32)) XOR ucast ((drop_bit 7 (ucast X :: u32) AND 1) * 0x1b)"
    by (simp only: XTime_def ucast_xor)
  moreover have "ucast (push_bit n (ucast X :: u32)) = push_bit n X" for n
    by (rule bit_word_eqI) (auto simp: bit_simps)
  moreover have "drop_bit 7 (ucast X :: u32) AND 1 = (if bit X 7 then 1 else 0)"
    by (rule bit_word_eqI) (auto simp: bit_simps bit_1_iff intro!: gr0I)
  ultimately show ?thesis by (simp only:) simp
qed

lemma XTime_xor [simp]: "XTime (x XOR y) = XTime x XOR XTime y"
  by (simp add: XTime_alt bit_xor_iff ac_simps)

lemma xor_cancel [simp]: "(x :: byte) XOR (x XOR y) = y"
  by (simp add: xor.assoc[symmetric])

lemma ucast_Multiply:
  "ucast (Multiply x 0x0e) = XTime x XOR XTime (XTime x) XOR XTime (XTime (XTime x))"
  "ucast (Multiply x 0x0b) = x XOR XTime x XOR XTime (XTime (XTime x))"
  "ucast (Multiply x 0x0d) = x XOR XTime (XTime x) XOR XTime (XTime (XTime x))"
  "ucast (Multiply x 0x09) = x XOR XTime (XTime (XTime x))"
  by (simp_all add: Multiply_def ucast_xor ucast_ucast_byte)

section \<open>The rounds on a block of sixteen bytes\<close>

lemma list16E:
  assumes "length S = 16"
  obtains a0 a1 a2 a3 b0 b1 b2 b3 c0 c1 c2 c3 d0 d1 d2 d3
  where "S = [a0, a1, a2, a3, b0, b1, b2, b3, c0, c1, c2, c3, d0, d1, d2, d3]"
  using assms by (auto simp: numeral_eq_Suc length_Suc_conv)

lemma upt_0_4: "[0..<4] = [0, 1, 2, 3 :: nat]"
  by (simp add: upt_rec)

lemma length_AddRoundKey [simp]: "length S = 16 \<Longrightarrow> length (AddRoundKey r S rk) = 16"
  by (simp add: AddRoundKey_def upt_0_4)

lemma length_SubBytes [simp]: "length S = 16 \<Longrightarrow> length (SubBytes S) = 16" "length S = 16 \<Longrightarrow> length (InvSubBytes S) = 16"
  by (simp_all add: SubBytes_def InvSubBytes_def upt_0_4)

lemma length_ShiftRows [simp]: "length S = 16 \<Longrightarrow> length (ShiftRows S) = 16" "length S = 16 \<Longrightarrow> length (InvShiftRows S) = 16"
  by (simp_all add: ShiftRows_def InvShiftRows_def Let_def)

lemma length_MixColumns [simp]: "length S = 16 \<Longrightarrow> length (MixColumns S) = 16" "length S = 16 \<Longrightarrow> length (InvMixColumns S) = 16"
  by (simp_all add: MixColumns_def InvMixColumns_def MixColumns_column_def InvMixColumns_column_def Let_def upt_0_4)

lemma AddRoundKey_AddRoundKey: "length S = 16 \<Longrightarrow> AddRoundKey r (AddRoundKey r S rk) rk = S"
  by (erule list16E) (simp add: AddRoundKey_def upt_0_4 xor.assoc)

lemma InvSubBytes_SubBytes: "length S = 16 \<Longrightarrow> InvSubBytes (SubBytes S) = S"
  by (erule list16E) (simp add: SubBytes_def InvSubBytes_def upt_0_4)

lemma InvShiftRows_ShiftRows: "length S = 16 \<Longrightarrow> InvShiftRows (ShiftRows S) = S"
  by (erule list16E) (simp add: ShiftRows_def InvShiftRows_def Let_def)

lemma InvMixColumns_MixColumns: "length S = 16 \<Longrightarrow> InvMixColumns (MixColumns S) = S"
  by (erule list16E) (simp add: MixColumns_def InvMixColumns_def MixColumns_column_def InvMixColumns_column_def
      upt_0_4 Let_def ucast_xor ucast_Multiply ac_simps)

section \<open>The cipher and its inverse\<close>

lemma length_Cipher_rounds: "length S = 16 \<Longrightarrow>
    length (fold (\<lambda>r S. AddRoundKey r (MixColumns (ShiftRows (SubBytes S))) rk) rs S) = 16"
  by (induction rs arbitrary: S) simp_all

lemma length_InvCipher_rounds: "length S = 16 \<Longrightarrow>
    length (fold (\<lambda>r S. InvMixColumns (AddRoundKey r (InvSubBytes (InvShiftRows S)) rk)) rs S) = 16"
  by (induction rs arbitrary: S) simp_all

lemma length_Cipher [simp]:
  "length S = 16 \<Longrightarrow> length (Cipher KeySize S rk) = 16" "length S = 16 \<Longrightarrow> length (InvCipher KeySize S rk) = 16"
  by (simp_all add: Cipher_def InvCipher_def Let_def length_Cipher_rounds length_InvCipher_rounds)

text \<open>The inverse rounds, one step out of phase, undo the rounds.\<close>

lemma InvCipher_rounds:
  fixes rk :: "byte list"
  assumes "length S = 16"
  defines "R \<equiv> \<lambda>r S. AddRoundKey r (MixColumns (ShiftRows (SubBytes S))) rk"
    and "Q \<equiv> \<lambda>r S. InvMixColumns (AddRoundKey r (InvSubBytes (InvShiftRows S)) rk)"
  shows "fold Q (rev [1..<n]) (ShiftRows (SubBytes (fold R [1..<n] S))) = ShiftRows (SubBytes S)"
proof (induction n)
  case (Suc n)
  let ?T = "fold R [1..<n] S"
  have l: "length ?T = 16" unfolding R_def using assms(1) by (rule length_Cipher_rounds)
  have "Q n (ShiftRows (SubBytes (R n ?T))) = ShiftRows (SubBytes ?T)"
    using l by (simp add: Q_def R_def InvShiftRows_ShiftRows InvSubBytes_SubBytes AddRoundKey_AddRoundKey InvMixColumns_MixColumns)
  with Suc show ?case by simp
qed simp

lemma InvCipher_Cipher [simp]:
  assumes "length S = 16"
  shows "InvCipher KeySize (Cipher KeySize S rk) rk = S"
proof -
  let ?A = "AddRoundKey 0 S rk"
  have l: "length ?A = 16" using assms by simp
  have "InvCipher KeySize (Cipher KeySize S rk) rk = AddRoundKey 0 (InvSubBytes (InvShiftRows (ShiftRows (SubBytes ?A)))) rk"
    using length_Cipher_rounds[OF l] by (simp add: InvCipher_def Cipher_def Let_def AddRoundKey_AddRoundKey InvCipher_rounds[OF l, unfolded One_nat_def])
  then show ?thesis using assms by (simp add: InvShiftRows_ShiftRows InvSubBytes_SubBytes AddRoundKey_AddRoundKey)
qed

section \<open>Cipher block chaining\<close>

text \<open>The contract that the modes rely on: a block cipher on blocks of sixteen bytes and its inverse. The modes of
  NIST SP 800-38A are defined over it.\<close>

fun cbc_encrypt :: "(byte list \<Rightarrow> byte list) \<Rightarrow> byte list \<Rightarrow> byte list list \<Rightarrow> byte list list" where
  "cbc_encrypt E iv [] = []"
| "cbc_encrypt E iv (p # ps) = (let c = E (xor_block p iv) in c # cbc_encrypt E c ps)"

fun cbc_decrypt :: "(byte list \<Rightarrow> byte list) \<Rightarrow> byte list \<Rightarrow> byte list list \<Rightarrow> byte list list" where
  "cbc_decrypt D iv [] = []"
| "cbc_decrypt D iv (c # cs) = xor_block (D c) iv # cbc_decrypt D c cs"

locale block_cipher =
  fixes E D :: "byte list \<Rightarrow> byte list"
  assumes length_E: "length b = 16 \<Longrightarrow> length (E b) = 16"
    and length_D: "length b = 16 \<Longrightarrow> length (D b) = 16"
    and D_E: "length b = 16 \<Longrightarrow> D (E b) = b"
begin

lemma cbc_encrypt_blocks:
  "length iv = 16 \<Longrightarrow> \<forall>p \<in> set ps. length p = 16 \<Longrightarrow> \<forall>c \<in> set (cbc_encrypt E iv ps). length c = 16"
proof (induction ps arbitrary: iv)
  case (Cons p ps)
  then have "length (E (xor_block p iv)) = 16" by (simp add: length_E)
  with Cons.IH[OF this] Cons.prems(2) show ?case by (simp add: Let_def)
qed simp

lemma length_cbc_encrypt: "length (cbc_encrypt E iv ps) = length ps"
  by (induction ps arbitrary: iv) (simp_all add: Let_def)

lemma cbc_roundtrip:
  "length iv = 16 \<Longrightarrow> \<forall>p \<in> set ps. length p = 16 \<Longrightarrow> cbc_decrypt D iv (cbc_encrypt E iv ps) = ps"
  by (induction ps arbitrary: iv) (simp_all add: Let_def D_E length_E xor_block_self)

end

interpretation aes: block_cipher "\<lambda>b. Cipher KeySize b rk" "\<lambda>b. InvCipher KeySize b rk" for KeySize rk
  by unfold_locales simp_all

text \<open>The loops.\<close>

lemma XorWithIv_eq: "length B = 16 \<Longrightarrow> length iv = 16 \<Longrightarrow> XorWithIv B iv = xor_block B iv"
proof -
  assume l: "length B = 16" "length iv = 16"
  let ?I = "\<lambda>k B'. length B' = 16 \<and> (\<forall>i < 16. B' ! i = (if i < k then B ! i XOR iv ! i else B ! i))"
  have "?I 16 (fold (\<lambda>I B. B[I := B ! I XOR iv ! I]) [0..<16] B)"
    by (rule fold_upt_inv) (use l in \<open>auto simp: nth_list_update less_Suc_eq\<close>)
  then show ?thesis using l by (intro nth_equalityI) (auto simp: XorWithIv_def AES_BLOCK_SIZE_def)
qed

lemma AesCbc_body_iterate:
  assumes "unat Len = 16 * n" "k \<le> n"
  shows "iterate (AesCbc_body block Len) (of_nat (16 * k), s) =
    Some (case (block ^^ (n - k)) s of (iv, D, off) \<Rightarrow> (iv, D))"
  using assms(2)
proof (induction "n - k" arbitrary: k s)
  case 0
  then have "16 * k = unat Len" using assms(1) by simp
  then have "(of_nat (16 * k) :: u32) = Len" by (simp only:) simp
  then have "AesCbc_body block Len (of_nat (16 * k), s) = Break (case s of (iv, D, off) \<Rightarrow> (iv, D))"
    by (cases s) (simp add: AesCbc_body_def)
  then show ?case using 0 by (simp add: iterate_Break)
next
  case (Suc d)
  have "16 * k < unat Len" using Suc.hyps(2) assms(1) by simp
  then have "(of_nat (16 * k) :: u32) < Len" by (metis less_trans mod_less unat_of_nat unsigned_less word_less_nat_alt)
  then have "AesCbc_body block Len (of_nat (16 * k), s) = Continue (of_nat (16 * Suc k), block s)"
    by (cases s) (simp add: AesCbc_body_def AES_BLOCK_SIZE_def algebra_simps)
  moreover have "n - k = Suc (n - Suc k)" using Suc.hyps(2) by simp
  ultimately show ?case using Suc.hyps(1)[of "Suc k" "block s"] Suc.hyps(2) by (simp add: iterate_Continue funpow_swap1)
qed

lemma AesCbcEncrypt_blocks:
  "length iv = 16 \<Longrightarrow> \<forall>p \<in> set ps. length p = 16 \<Longrightarrow>
   (AesCbcEncrypt_block KeySize rk ^^ length ps) (iv, P @ concat ps @ T, length P) =
     (last (iv # cbc_encrypt (\<lambda>b. Cipher KeySize b rk) iv ps), P @ concat (cbc_encrypt (\<lambda>b. Cipher KeySize b rk) iv ps) @ T,
      length P + 16 * length ps)"
proof (induction ps arbitrary: iv P)
  case (Cons p ps)
  let ?c = "Cipher KeySize (xor_block p iv) rk"
  have "AesCbcEncrypt_block KeySize rk (iv, P @ concat (p # ps) @ T, length P) = (?c, (P @ ?c) @ concat ps @ T, length (P @ ?c))"
    using Cons.prems by (simp add: AesCbcEncrypt_block_def Let_def AES_BLOCK_SIZE_def window_def overwrite_def XorWithIv_eq)
  then show ?case using Cons.IH[of ?c "P @ ?c"] Cons.prems by (simp add: funpow_swap1 Let_def)
qed simp

lemma AesCbcDecrypt_blocks:
  "length iv = 16 \<Longrightarrow> \<forall>c \<in> set cs. length c = 16 \<Longrightarrow>
   (AesCbcDecrypt_block KeySize rk ^^ length cs) (iv, P @ concat cs @ T, length P) =
     (last (iv # cs), P @ concat (cbc_decrypt (\<lambda>b. InvCipher KeySize b rk) iv cs) @ T, length P + 16 * length cs)"
proof (induction cs arbitrary: iv P)
  case (Cons c cs)
  let ?p = "xor_block (InvCipher KeySize c rk) iv"
  have "AesCbcDecrypt_block KeySize rk (iv, P @ concat (c # cs) @ T, length P) = (c, (P @ ?p) @ concat cs @ T, length (P @ ?p))"
    using Cons.prems by (simp add: AesCbcDecrypt_block_def Let_def AES_BLOCK_SIZE_def window_def overwrite_def XorWithIv_eq)
  then show ?case using Cons.IH[of c "P @ ?p"] Cons.prems by (simp add: funpow_swap1)
qed simp

lemma AesCbcEncryptBuffer_blocks:
  assumes "length (Iv Context) = 16" "\<forall>p \<in> set ps. length p = 16" "unat Len = 16 * length ps"
  shows "AesCbcEncryptBuffer KeySize Context (concat ps @ T) Len =
    (let cs = cbc_encrypt (\<lambda>b. Cipher KeySize b (RoundKey Context)) (Iv Context) ps
     in Some (Context\<lparr>Iv := last (Iv Context # cs)\<rparr>, concat cs @ T))"
  using AesCbc_body_iterate[OF assms(3), of 0] AesCbcEncrypt_blocks[OF assms(1,2), where P = "[]"]
  by (simp add: AesCbcEncryptBuffer_def Let_def del: last.simps)

lemma AesCbcDecryptBuffer_blocks:
  assumes "length (Iv Context) = 16" "\<forall>c \<in> set cs. length c = 16" "unat Len = 16 * length cs"
  shows "AesCbcDecryptBuffer KeySize Context (concat cs @ T) Len =
    Some (Context\<lparr>Iv := last (Iv Context # cs)\<rparr>,
      concat (cbc_decrypt (\<lambda>b. InvCipher KeySize b (RoundKey Context)) (Iv Context) cs) @ T)"
  using AesCbc_body_iterate[OF assms(3), of 0] AesCbcDecrypt_blocks[OF assms(1,2), where P = "[]"]
  by (simp add: AesCbcDecryptBuffer_def Let_def del: last.simps)

section \<open>Counter mode\<close>

lemma length_AesCtr_increment [simp]: "length (AesCtr_increment n iv) = length iv"
  by (induction n arbitrary: iv) simp_all

lemma AesCtr_increment_val:
  "n \<le> length iv \<Longrightarrow> be_val (take n (AesCtr_increment n iv)) = (be_val (take n iv) + 1) mod 256 ^ n"
proof (induction n arbitrary: iv)
  case (Suc n)
  let ?v = "be_val (take n iv)"
  have t: "take (Suc n) xs = take n xs @ [xs ! n]" if "length xs = length iv" for xs :: "byte list"
    using Suc.prems that by (simp add: take_Suc_conv_app_nth)
  show ?case
  proof (cases "iv ! n = 255")
    case True
    have d: "AesCtr_increment m xs ! n = xs ! n" if "m \<le> n" for m and xs :: "byte list"
      using that by (induction m arbitrary: xs) simp_all
    have "be_val (take (Suc n) (AesCtr_increment (Suc n) iv)) = be_val (take n (AesCtr_increment n (iv[n := 0]))) * 256"
      using True Suc.prems by (simp add: t be_val_snoc d)
    also have "\<dots> = ((?v + 1) mod 256 ^ n) * 256" using Suc by simp
    also have "\<dots> = ((?v + 1) * 256) mod (256 ^ n * 256)" by (rule mod_mult_mult2[symmetric])
    also have "(?v + 1) * 256 = be_val (take (Suc n) iv) + 1" using True by (simp add: t be_val_snoc)
    finally show ?thesis by (simp add: mult.commute)
  next
    case False
    have v: "?v < 256 ^ n"
      using bn_val_less[of "rev (take n iv)"] Suc.prems by (simp add: be_val_def power_mult)
    have b: "unat (iv ! n) < 255" using False unat_less_2pow[of "iv ! n"] by (simp add: word_unat_eq_iff)
    then have b1: "unat (iv ! n + 1) = unat (iv ! n) + 1" by (simp add: unat_word_ariths)
    have "be_val (take (Suc n) (AesCtr_increment (Suc n) iv)) = ?v * 256 + unat (iv ! n) + 1"
      using False Suc.prems by (simp add: t be_val_snoc b1)
    also have "\<dots> = (?v * 256 + unat (iv ! n) + 1) mod 256 ^ Suc n" using v b by simp
    finally show ?thesis by (simp add: t be_val_snoc)
  qed
qed simp

definition ctr_block :: "byte list \<Rightarrow> nat \<Rightarrow> byte list" where
  "ctr_block iv k = (AesCtr_increment 16 ^^ k) iv"

lemma length_ctr_block [simp]: "length (ctr_block iv k) = length iv"
  by (induction k) (simp_all add: ctr_block_def)

lemma ctr_block_Suc: "ctr_block iv (Suc k) = AesCtr_increment 16 (ctr_block iv k)"
  by (simp add: ctr_block_def del: AesCtr_increment.simps)

lemma ctr_block_val:
  assumes "length iv = 16"
  shows "be_val (ctr_block iv k) = (be_val iv + k) mod 2 ^ 128"
proof (induction k)
  case 0
  show ?case using bn_val_less[of "rev iv"] assms by (simp add: ctr_block_def be_val_def)
next
  case (Suc k)
  have "be_val (ctr_block iv (Suc k)) = (be_val (ctr_block iv k) + 1) mod 2 ^ 128"
    using AesCtr_increment_val[of 16 "ctr_block iv k"] assms
    by (simp add: ctr_block_Suc)
  then show ?case unfolding Suc.IH by (simp only: mod_add_left_eq) simp
qed

definition ctr_stream :: "(byte list \<Rightarrow> byte list) \<Rightarrow> byte list \<Rightarrow> nat \<Rightarrow> byte" where
  "ctr_stream E iv i = E (ctr_block iv (i div 16)) ! (i mod 16)"

lemma ctr_index:
  fixes k :: nat
  shows "k mod 16 = 0 \<Longrightarrow> (k + 15) div 16 = k div 16 \<and> (Suc k + 15) div 16 = Suc (k div 16) \<and> Suc k mod 16 = 1 \<and>
      Suc k div 16 = k div 16"
    and "k mod 16 \<noteq> 0 \<Longrightarrow> (Suc k + 15) div 16 = (k + 15) div 16 \<and>
      Suc k mod 16 = (if k mod 16 = 15 then 0 else Suc (k mod 16)) \<and> (Suc k mod 16 \<noteq> 0 \<longrightarrow> Suc k div 16 = k div 16)"
proof -
  define q r where "q = k div 16" and "r = k mod 16"
  have k: "k = 16 * q + r" "r < 16" by (simp_all add: q_def r_def)
  show "k mod 16 = 0 \<Longrightarrow> (k + 15) div 16 = k div 16 \<and> (Suc k + 15) div 16 = Suc (k div 16) \<and> Suc k mod 16 = 1 \<and>
      Suc k div 16 = k div 16"
    using k by simp
  assume "k mod 16 \<noteq> 0"
  then have "r \<in> {1..15}" using k(2) by (auto simp: k(1))
  then have "r \<in> {1, 2, 3, 4, 5, 6, 7, 8, 9, 10, 11, 12, 13, 14, 15}"
    by (simp only: atLeastAtMost_iff insert_iff empty_iff) presburger
  then show "(Suc k + 15) div 16 = (k + 15) div 16 \<and>
      Suc k mod 16 = (if k mod 16 = 15 then 0 else Suc (k mod 16)) \<and> (Suc k mod 16 \<noteq> 0 \<longrightarrow> Suc k div 16 = k div 16)"
    unfolding k(1) by auto
qed

lemma AesCtr_fold:
  assumes iv: "length iv = 16" and n: "n \<le> length D"
    and E: "E = (\<lambda>b. Cipher KeySize b rk)"
  shows "case fold (AesCtr_body KeySize rk) [0..<n] (AES_BLOCK_SIZE, Buffer, iv, D) of (Bi, B, iv', D') \<Rightarrow>
    iv' = ctr_block iv ((n + 15) div 16) \<and> length D' = length D \<and>
    (\<forall>i < length D. D' ! i = (if i < n then D ! i XOR ctr_stream E iv i else D ! i))"
proof -
  let ?I = "\<lambda>k (Bi, B, iv', D'). iv' = ctr_block iv ((k + 15) div 16) \<and> length D' = length D \<and>
      (\<forall>i < length D. D' ! i = (if i < k then D ! i XOR ctr_stream E iv i else D ! i)) \<and>
      Bi = (if k mod 16 = 0 then 16 else k mod 16) \<and> (k mod 16 \<noteq> 0 \<longrightarrow> B = E (ctr_block iv (k div 16)))"
  have "?I n (fold (AesCtr_body KeySize rk) [0..<n] (AES_BLOCK_SIZE, Buffer, iv, D))"
  proof (rule fold_upt_inv)
    show "?I 0 (AES_BLOCK_SIZE, Buffer, iv, D)" by (simp add: AES_BLOCK_SIZE_def ctr_block_def)
  next
    fix k s assume k: "k < n" and inv: "?I k s"
    obtain Bi B iv' D' where s: "s = (Bi, B, iv', D')" by (cases s) auto
    note I = inv[unfolded s split]
    have upd: "D'[k := D' ! k XOR x] ! i = (if i < Suc k then D ! i XOR ctr_stream E iv i else D ! i)"
      if "i < length D" "x = ctr_stream E iv k" for i x
      using I that k n by (auto simp: nth_list_update less_Suc_eq)
    show "?I (Suc k) (AesCtr_body KeySize rk k s)"
    proof (cases "k mod 16 = 0")
      case True
      then have d: "(k + 15) div 16 = k div 16" "(Suc k + 15) div 16 = Suc (k div 16)" "Suc k mod 16 = 1" "Suc k div 16 = k div 16"
        using ctr_index(1)[OF True] by simp_all
      have "AesCtr_body KeySize rk k s = (1, E (ctr_block iv (k div 16)), ctr_block iv (Suc (k div 16)),
          D'[k := D' ! k XOR ctr_stream E iv k])"
        using I True iv d(1) by (simp add: AesCtr_body_def s AES_BLOCK_SIZE_def E ctr_stream_def ctr_block_Suc del: AesCtr_increment.simps)
      then show ?thesis using I d upd by simp
    next
      case False
      then have d: "(Suc k + 15) div 16 = (k + 15) div 16" "Suc k mod 16 = (if k mod 16 = 15 then 0 else Suc (k mod 16))"
        "Suc k mod 16 \<noteq> 0 \<longrightarrow> Suc k div 16 = k div 16"
        using ctr_index(2)[OF False] by simp_all
      have "k mod 16 \<noteq> 16" using mod_less_divisor[of 16 k] by linarith
      then have "AesCtr_body KeySize rk k s = (Suc (k mod 16), E (ctr_block iv (k div 16)), iv', D'[k := D' ! k XOR ctr_stream E iv k])"
        using I False by (simp add: AesCtr_body_def s AES_BLOCK_SIZE_def ctr_stream_def del: AesCtr_increment.simps)
      then show ?thesis using I d upd by simp
    qed
  qed (use n in simp)
  then show ?thesis by auto
qed

section \<open>The key schedule\<close>

text \<open>The schedule of FIPS 197, section 5.2, as a recursion on the words.\<close>

definition rcon_word :: "nat \<Rightarrow> byte list" where
  "rcon_word i = [(XTime ^^ (i - 1)) 1, 0, 0, 0]"

function aes_word :: "nat \<Rightarrow> byte list \<Rightarrow> nat \<Rightarrow> byte list" where
  "aes_word KeySize Key i =
     (if i < Nk KeySize then window Key (4 * i) 4
      else
        (let temp = aes_word KeySize Key (i - 1);
             temp = (if i mod Nk KeySize = 0 then xor_block (map GetSboxValue (rotate1 temp)) (rcon_word (i div Nk KeySize))
                     else if 6 < Nk KeySize \<and> i mod Nk KeySize = 4 then map GetSboxValue temp
                     else temp)
         in xor_block (aes_word KeySize Key (i - Nk KeySize)) temp))"
  by pat_completeness auto
termination
  by (relation "measure (\<lambda>(_, _, i). i)") (auto simp: Nk_def split: if_splits)

declare aes_word.simps [simp del]

lemma Nk_bounds: "4 \<le> Nk KeySize" "Nk KeySize \<le> 8" "KeySize = 32 \<longleftrightarrow> 6 < Nk KeySize"
  by (auto simp: Nk_def)

lemma schedule_size: "4 * (Nb * (Nr KeySize + 1)) = AES_KEY_EXP_SIZE KeySize" "Nk KeySize \<le> Nb * (Nr KeySize + 1)"
  by (simp_all add: Nr_def AES_KEY_EXP_SIZE_def Nk_def)

lemma length_aes_word [simp]: "length Key = 4 * Nk KeySize \<Longrightarrow> length (aes_word KeySize Key i) = 4"
proof (induction KeySize Key i rule: aes_word.induct)
  case (1 KeySize Key i)
  then show ?case by (subst aes_word.simps) (auto simp: Let_def rcon_word_def)
qed

lemma Rcon_powers: "map (\<lambda>i. Rcon ! i) [1..<11] = map (\<lambda>i. (XTime ^^ (i - 1)) 1) [1..<11]"
  by code_simp

lemma Rcon_rcon_word: "0 < j \<Longrightarrow> j < 11 \<Longrightarrow> rcon_word j = [Rcon ! j, 0, 0, 0]"
  using arg_cong[OF Rcon_powers, of "\<lambda>xs. xs ! (j - 1)"] by (simp add: rcon_word_def del: upt_Suc)

lemma rcon_index:
  assumes "Nk KeySize \<le> i" "i < Nb * (Nr KeySize + 1)"
  shows "0 < i div Nk KeySize \<and> i div Nk KeySize < 11"
  using assms by (auto simp: Nk_def Nr_def div_greater_zero_iff less_mult_imp_div_less split: if_splits)

lemma list4E:
  assumes "length S = 4"
  obtains a b c d where "S = [a, b, c, d]"
  using assms by (auto simp: numeral_eq_Suc length_Suc_conv)

lemma KeyExpansion_temp_eq:
  assumes "length t = 4" "Nk KeySize \<le> i" "i < Nb * (Nr KeySize + 1)"
  shows "KeyExpansion_temp KeySize i t =
    (if i mod Nk KeySize = 0 then xor_block (map GetSboxValue (rotate1 t)) (rcon_word (i div Nk KeySize))
     else if 6 < Nk KeySize \<and> i mod Nk KeySize = 4 then map GetSboxValue t else t)"
  using Rcon_rcon_word[of "i div Nk KeySize"] rcon_index[OF assms(2,3)] Nk_bounds(3)[of KeySize]
  by (rule_tac list4E[OF assms(1)]) (simp add: KeyExpansion_temp_def Let_def xor_block_def)

lemma fold_xor4:
  fixes R :: "byte list"
  assumes "K + 4 \<le> J" "J + 4 \<le> length R"
  shows "fold (\<lambda>i R. R[J + i := R ! (K + i) XOR T ! i]) [0..<4] R =
    overwrite R J (map (\<lambda>i. R ! (K + i) XOR T ! i) [0..<4])"
  using assms by (intro nth_equalityI) (auto simp: upt_0_4 nth_overwrite nth_list_update nth_Cons')

lemma window_overwrite_before: "a + n \<le> off \<Longrightarrow> off \<le> length xs \<Longrightarrow> window (overwrite xs off ys) a n = window xs a n"
  by (simp add: window_def overwrite_def take_drop add.commute)

lemma window4: "off + 4 \<le> length xs \<Longrightarrow> window xs off 4 = [xs ! off, xs ! (off + 1), xs ! (off + 2), xs ! (off + 3)]"
  by (intro nth_equalityI) (auto simp: nth_Cons' less_Suc_eq numeral_eq_Suc)

lemma KeyExpansion_step_eq:
  assumes R: "length R = AES_KEY_EXP_SIZE KeySize" and i: "Nk KeySize \<le> i" "i < Nb * (Nr KeySize + 1)"
    and w: "\<forall>j < i. window R (4 * j) 4 = aes_word KeySize Key j" and k: "length Key = 4 * Nk KeySize"
  shows "KeyExpansion_step KeySize i R = overwrite R (4 * i) (aes_word KeySize Key i)"
proof -
  let ?K = "(i - Nk KeySize) * 4" and ?t = "KeyExpansion_temp KeySize i (aes_word KeySize Key (i - 1))"
  have nk: "4 \<le> Nk KeySize" by (rule Nk_bounds)
  have le: "4 * i + 4 \<le> length R" using i(2) schedule_size(1)[of KeySize] R by linarith
  have "window R (4 * (i - 1)) 4 = aes_word KeySize Key (i - 1)" using w i(1) nk by simp
  moreover have "4 * (i - 1) + 4 \<le> length R" using le by simp
  ultimately have T: "[R ! ((i - 1) * 4 + 0), R ! ((i - 1) * 4 + 1), R ! ((i - 1) * 4 + 2), R ! ((i - 1) * 4 + 3)] =
      aes_word KeySize Key (i - 1)" using window4[of "4 * (i - 1)" R] by (simp add: mult.commute)
  have lt: "length ?t = 4"
    using KeyExpansion_temp_eq[OF length_aes_word[OF k] i] k by (simp add: rcon_word_def)
  have "window R ?K 4 = aes_word KeySize Key (i - Nk KeySize)" using w i(1) nk by (simp add: mult.commute)
  moreover have Kle: "?K + 4 \<le> 4 * i" using i(1) nk by linarith
  ultimately have "map (\<lambda>q. R ! (?K + q) XOR ?t ! q) [0..<4] = xor_block (aes_word KeySize Key (i - Nk KeySize)) ?t"
    using window4[of ?K R] le lt k by (intro nth_equalityI) (auto simp: upt_0_4 nth_Cons' less_Suc_eq numeral_eq_Suc)
  also have "\<dots> = aes_word KeySize Key i"
    using i k by (subst aes_word.simps[of KeySize Key i]) (simp add: Let_def KeyExpansion_temp_eq)
  finally show ?thesis
    using fold_xor4[OF Kle le, of ?t] unfolding KeyExpansion_step_def Let_def T by (simp add: mult.commute)
qed

lemma KeyExpansion_copy_eq:
  assumes "4 * i + 4 \<le> length R" "4 * i + 4 \<le> length Key"
  shows "KeyExpansion_copy Key i R = overwrite R (4 * i) (window Key (4 * i) 4)"
  using assms by (intro nth_equalityI) (auto simp: KeyExpansion_copy_def nth_overwrite nth_list_update mult.commute)

lemma KeyExpansion_words:
  assumes R: "length R = AES_KEY_EXP_SIZE KeySize" and k: "length Key = 4 * Nk KeySize"
  shows "length (KeyExpansion KeySize R Key) = AES_KEY_EXP_SIZE KeySize \<and>
    (\<forall>i < Nb * (Nr KeySize + 1). window (KeyExpansion KeySize R Key) (4 * i) 4 = aes_word KeySize Key i)"
proof -
  let ?I = "\<lambda>i R'. length R' = AES_KEY_EXP_SIZE KeySize \<and> (\<forall>j < i. window R' (4 * j) 4 = aes_word KeySize Key j)"
  have step: "?I (Suc i) (overwrite R' (4 * i) (aes_word KeySize Key i))"
    if "?I i R'" "i < Nb * (Nr KeySize + 1)" for i R'
  proof -
    have "4 * i + 4 \<le> length R'" using that schedule_size(1)[of KeySize] by linarith
    then show ?thesis using that k by (auto simp: less_Suc_eq window_overwrite_before)
  qed
  have "?I (Nk KeySize) (fold (KeyExpansion_copy Key) [0..<Nk KeySize] R)"
  proof (rule fold_upt_inv[where P = ?I])
    fix i R' assume i: "i < Nk KeySize" and I: "?I i R'"
    have "aes_word KeySize Key i = window Key (4 * i) 4" using i by (subst aes_word.simps) simp
    moreover have "i < Nb * (Nr KeySize + 1)" using i schedule_size(2)[of KeySize] by linarith
    moreover have "4 * i + 4 \<le> length R'" using calculation(2) I schedule_size(1)[of KeySize] by linarith
    ultimately show "?I (Suc i) (KeyExpansion_copy Key i R')"
      using step[OF I] KeyExpansion_copy_eq[of i R' Key] i k by simp
  qed (use R in simp_all)
  then have "?I (Nb * (Nr KeySize + 1)) (KeyExpansion KeySize R Key)" unfolding KeyExpansion_def
  proof (rule fold_upt_inv[where P = ?I, OF schedule_size(2)])
    fix i R' assume i: "Nk KeySize \<le> i" "i < Nb * (Nr KeySize + 1)" and I: "?I i R'"
    show "?I (Suc i) (KeyExpansion_step KeySize i R')"
      using step[OF I i(2)] KeyExpansion_step_eq[OF conjunct1[OF I] i conjunct2[OF I] k] by simp
  qed
  then show ?thesis .
qed

section \<open>Properties\<close>

text \<open>
  The key expansion computes the key schedule of FIPS 197 for the three key sizes: word \<open>i\<close> of the
  round keys is the \<open>i\<close>-th word of the recursion, with the round constants as powers of x.
\<close>

theorem KeyExpansion_fips197:
  assumes "length R = AES_KEY_EXP_SIZE KeySize" "length Key = 4 * Nk KeySize"
  shows "length (KeyExpansion KeySize R Key) = AES_KEY_EXP_SIZE KeySize \<and>
    (\<forall>i < Nb * (Nr KeySize + 1). window (KeyExpansion KeySize R Key) (4 * i) 4 = aes_word KeySize Key i)"
  using assms by (rule KeyExpansion_words)

theorem KeyExpansion_fips197_witness:
  "length (KeyExpansion 32 (replicate 240 0) (replicate 32 7)) = AES_KEY_EXP_SIZE 32 \<and>
    window (KeyExpansion 32 (replicate 240 0) (replicate 32 7)) (4 * 59) 4 = aes_word 32 (replicate 32 7) 59"
proof -
  have "length (replicate 240 0 :: byte list) = AES_KEY_EXP_SIZE 32" "length (replicate 32 7 :: byte list) = 4 * Nk 32"
    by (simp_all add: AES_KEY_EXP_SIZE_def Nk_def)
  note w = KeyExpansion_fips197[OF this]
  moreover have "59 < Nb * (Nr 32 + 1)" by (simp add: Nr_def)
  ultimately show ?thesis by blast
qed

text \<open>
  The inverse cipher undoes the cipher on every block, for every key size and every round key.
\<close>

theorem Cipher_roundtrip:
  assumes "length S = AES_BLOCK_SIZE"
  shows "InvCipher KeySize (Cipher KeySize S rk) rk = S \<and> length (Cipher KeySize S rk) = AES_BLOCK_SIZE"
  using assms by (simp add: AES_BLOCK_SIZE_def)

theorem Cipher_roundtrip_witness:
  "InvCipher 16 (Cipher 16 (replicate 16 0) (replicate 176 1)) (replicate 176 1) = replicate 16 0 \<and>
    length (Cipher 16 (replicate 16 0) (replicate 176 1)) = AES_BLOCK_SIZE"
  by (rule Cipher_roundtrip) (simp add: AES_BLOCK_SIZE_def)

text \<open>
  C16: on a buffer of whole blocks \<open>AesCbcEncryptBuffer\<close> returns and leaves the CBC encryption of
  the blocks, with the last ciphertext block as the next vector; \<open>AesCbcDecryptBuffer\<close> from the same
  context restores the buffer and leaves the same vector. What follows the \<open>Len\<close> bytes is untouched.
\<close>

theorem AesCbc_roundtrip:
  assumes "length (Iv Context) = AES_BLOCK_SIZE" "\<forall>p \<in> set ps. length p = AES_BLOCK_SIZE" "unat Len = AES_BLOCK_SIZE * length ps"
  shows "\<exists>Context'. AesCbcEncryptBuffer KeySize Context (concat ps @ T) Len =
        Some (Context', concat (cbc_encrypt (\<lambda>b. Cipher KeySize b (RoundKey Context)) (Iv Context) ps) @ T) \<and>
      AesCbcDecryptBuffer KeySize Context
        (concat (cbc_encrypt (\<lambda>b. Cipher KeySize b (RoundKey Context)) (Iv Context) ps) @ T) Len =
        Some (Context', concat ps @ T)"
proof -
  note a = assms[unfolded AES_BLOCK_SIZE_def]
  let ?cs = "cbc_encrypt (\<lambda>b. Cipher KeySize b (RoundKey Context)) (Iv Context) ps"
  have "\<forall>c \<in> set ?cs. length c = 16" using a(1,2) by (rule aes.cbc_encrypt_blocks)
  moreover have "unat Len = 16 * length ?cs" using a(3) by (simp add: aes.length_cbc_encrypt)
  ultimately show ?thesis
    using AesCbcEncryptBuffer_blocks[OF a] AesCbcDecryptBuffer_blocks[OF a(1), of ?cs Len] aes.cbc_roundtrip[OF a(1,2)]
    by (simp add: Let_def)
qed

theorem AesCbc_roundtrip_witness:
  "\<exists>Context'. AesCbcEncryptBuffer 16 \<lparr>RoundKey = replicate 176 3, Iv = replicate 16 1\<rparr> (concat [replicate 16 5, replicate 16 6] @ [9]) 32 =
        Some (Context', concat (cbc_encrypt (\<lambda>b. Cipher 16 b (RoundKey \<lparr>RoundKey = replicate 176 3, Iv = replicate 16 1\<rparr>))
          (Iv \<lparr>RoundKey = replicate 176 3, Iv = replicate 16 1\<rparr>) [replicate 16 5, replicate 16 6]) @ [9]) \<and>
      AesCbcDecryptBuffer 16 \<lparr>RoundKey = replicate 176 3, Iv = replicate 16 1\<rparr>
        (concat (cbc_encrypt (\<lambda>b. Cipher 16 b (RoundKey \<lparr>RoundKey = replicate 176 3, Iv = replicate 16 1\<rparr>))
          (Iv \<lparr>RoundKey = replicate 176 3, Iv = replicate 16 1\<rparr>) [replicate 16 5, replicate 16 6]) @ [9]) 32 =
        Some (Context', concat [replicate 16 5, replicate 16 6] @ [9])"
  by (rule AesCbc_roundtrip) (simp_all add: AES_BLOCK_SIZE_def)

text \<open>
  C21: counter mode. Byte \<open>i\<close> of the buffer is combined with byte \<open>i mod 16\<close> of the encryption of counter
  block \<open>i div 16\<close>, the counter blocks are the big-endian numbers that follow the vector modulo \<open>2^128\<close>,
  bytes after \<open>Len\<close> are untouched, and the vector left behind is the first unused counter block.
\<close>

theorem AesCtrXcryptBuffer_correct:
  assumes "length (Iv Context) = 16" "unat Len \<le> length D"
  shows "\<exists>D'. AesCtrXcryptBuffer KeySize Context D Len Buffer =
      (Context\<lparr>Iv := ctr_block (Iv Context) ((unat Len + 15) div 16)\<rparr>, D') \<and>
    D' = map (\<lambda>i. D ! i XOR ctr_stream (\<lambda>b. Cipher KeySize b (RoundKey Context)) (Iv Context) i) [0..<unat Len] @ drop (unat Len) D \<and>
    (\<forall>k. length (ctr_block (Iv Context) k) = 16 \<and> be_val (ctr_block (Iv Context) k) = (be_val (Iv Context) + k) mod 2 ^ 128)"
proof -
  obtain Bi B iv' D' where f: "fold (AesCtr_body KeySize (RoundKey Context)) [0..<unat Len] (AES_BLOCK_SIZE, Buffer, Iv Context, D) =
      (Bi, B, iv', D')" by (cases "fold (AesCtr_body KeySize (RoundKey Context)) [0..<unat Len] (AES_BLOCK_SIZE, Buffer, Iv Context, D)") auto
  note r = AesCtr_fold[OF assms refl, of KeySize "RoundKey Context" Buffer, unfolded f split]
  have "D' = map (\<lambda>i. D ! i XOR ctr_stream (\<lambda>b. Cipher KeySize b (RoundKey Context)) (Iv Context) i) [0..<unat Len] @ drop (unat Len) D"
    using r assms(2) by (intro nth_equalityI) (auto simp: nth_append)
  then show ?thesis using r assms(1) ctr_block_val[OF assms(1)] by (simp add: AesCtrXcryptBuffer_def f)
qed

theorem AesCtrXcryptBuffer_correct_witness:
  "\<exists>D'. AesCtrXcryptBuffer 16 \<lparr>RoundKey = replicate 176 3, Iv = replicate 16 255\<rparr> [1, 2, 3, 4] 3 [] =
      (\<lparr>RoundKey = replicate 176 3, Iv = replicate 16 255\<rparr>\<lparr>Iv := ctr_block (Iv \<lparr>RoundKey = replicate 176 3, Iv = replicate 16 255\<rparr>)
        ((unat (3 :: u32) + 15) div 16)\<rparr>, D') \<and>
    D' = map (\<lambda>i. [1, 2, 3, 4] ! i XOR ctr_stream (\<lambda>b. Cipher 16 b (RoundKey \<lparr>RoundKey = replicate 176 3, Iv = replicate 16 255\<rparr>))
        (Iv \<lparr>RoundKey = replicate 176 3, Iv = replicate 16 255\<rparr>) i) [0..<unat (3 :: u32)] @ drop (unat (3 :: u32)) [1, 2, 3, 4] \<and>
    (\<forall>k. length (ctr_block (Iv \<lparr>RoundKey = replicate 176 3, Iv = replicate 16 255\<rparr>) k) = 16 \<and>
      be_val (ctr_block (Iv \<lparr>RoundKey = replicate 176 3, Iv = replicate 16 255\<rparr>) k) =
        (be_val (Iv \<lparr>RoundKey = replicate 176 3, Iv = replicate 16 255\<rparr>) + k) mod 2 ^ 128)"
  by (rule AesCtrXcryptBuffer_correct) simp_all

end
