(* ===== verification/Oc_ChaCha.thy ===== *)
theory Oc_ChaCha
  imports Oc_MerkleDamgard
begin

unbundle bit_operations_syntax

text \<open>
  Model of \<^verbatim>\<open>Library/OcCryptoLib/ChaCha.c\<close>. The two buffers are windows of one memory, so that a
  source that is the destination is covered; the loop state is the memory and the sixteen words \<^verbatim>\<open>J0..J15\<close>.
\<close>

section \<open>The code\<close>

type_synonym CHACHA_CONTEXT = "u32 list"

definition LOAD32_LE :: "byte list \<Rightarrow> nat \<Rightarrow> u32" where
  "LOAD32_LE bs a = ucast (bs ! a) OR push_bit 8 (ucast (bs ! (a + 1))) OR
     push_bit 16 (ucast (bs ! (a + 2))) OR push_bit 24 (ucast (bs ! (a + 3)))"

definition QUARTERROUND :: "nat \<Rightarrow> nat \<Rightarrow> nat \<Rightarrow> nat \<Rightarrow> u32 list \<Rightarrow> u32 list" where
  "QUARTERROUND a b c d X =
     (let X = X[a := X ! a + X ! b];
          X = X[d := word_rotl 16 (X ! d XOR X ! a)];
          X = X[c := X ! c + X ! d];
          X = X[b := word_rotl 12 (X ! b XOR X ! c)];
          X = X[a := X ! a + X ! b];
          X = X[d := word_rotl 8 (X ! d XOR X ! a)];
          X = X[c := X ! c + X ! d]
      in X[b := word_rotl 7 (X ! b XOR X ! c)])"

definition ChaChaInitCtx :: "byte list \<Rightarrow> byte list \<Rightarrow> u32 \<Rightarrow> CHACHA_CONTEXT" where
  "ChaChaInitCtx Key iv Counter =
     [0x61707865, 0x3320646E, 0x79622d32, 0x6B206574,
      LOAD32_LE Key 0, LOAD32_LE Key 4, LOAD32_LE Key 8, LOAD32_LE Key 12,
      LOAD32_LE Key 16, LOAD32_LE Key 20, LOAD32_LE Key 24, LOAD32_LE Key 28,
      Counter, LOAD32_LE iv 0, LOAD32_LE iv 4, LOAD32_LE iv 8]"

definition ChaCha_double_round :: "u32 list \<Rightarrow> u32 list" where
  "ChaCha_double_round X =
     (let X = QUARTERROUND 0 4 8 12 X;
          X = QUARTERROUND 1 5 9 13 X;
          X = QUARTERROUND 2 6 10 14 X;
          X = QUARTERROUND 3 7 11 15 X;
          X = QUARTERROUND 0 5 10 15 X;
          X = QUARTERROUND 1 6 11 12 X;
          X = QUARTERROUND 2 7 8 13 X
      in QUARTERROUND 3 4 9 14 X)"

definition ChaCha_core :: "u32 list \<Rightarrow> u32 list" where
  "ChaCha_core J =
     (let X = fold (\<lambda>_. ChaCha_double_round) [0..<10] J
      in map (\<lambda>i. X ! i + J ! i) [0..<16])"

text \<open>The sixty-four bytes that are stored for the sixty-four bytes at \<open>Src\<close>.\<close>

definition ChaCha_block :: "u32 list \<Rightarrow> byte list \<Rightarrow> byte list" where
  "ChaCha_block J Src =
     (let X = ChaCha_core J;
          X = map (\<lambda>i. X ! i XOR LOAD32_LE Src (4 * i)) [0..<16]
      in concat (map le32_bytes X))"

definition ChaCha_count :: "u32 list \<Rightarrow> u32 list" where
  "ChaCha_count J =
     (let J = J[12 := J ! 12 + 1]
      in if J ! 12 = 0 then J[13 := J ! 13 + 1] else J)"

function ChaChaCryptBuffer_loop :: "byte list \<Rightarrow> u32 list \<Rightarrow> nat \<Rightarrow> nat \<Rightarrow> nat \<Rightarrow> byte list \<times> u32 list" where
  "ChaChaCryptBuffer_loop M J Source Destination Len =
     (let Src = (if Len < 64 then window M Source Len @ replicate (64 - Len) 0 else window M Source 64);
          Out = ChaCha_block J Src;
          J = ChaCha_count J
      in if Len \<le> 64 then (overwrite M Destination (take Len Out), J)
         else ChaChaCryptBuffer_loop (overwrite M Destination Out) J (Source + 64) (Destination + 64) (Len - 64))"
  by pat_completeness auto
termination by (relation "measure (\<lambda>(_, _, _, _, Len). Len)") auto

declare ChaChaCryptBuffer_loop.simps [simp del]

definition ChaChaCryptBuffer :: "CHACHA_CONTEXT \<Rightarrow> byte list \<Rightarrow> nat \<Rightarrow> nat \<Rightarrow> u32 \<Rightarrow> CHACHA_CONTEXT \<times> byte list" where
  "ChaChaCryptBuffer Input M Source Destination Len =
     (if Len = 0 then (Input, M)
      else
        (let (M, J) = ChaChaCryptBuffer_loop M Input Source Destination (unat Len)
         in (Input[12 := J ! 12, 13 := J ! 13], M)))"

section \<open>The key stream\<close>

definition chacha_at :: "u32 list \<Rightarrow> nat \<Rightarrow> u32 list" where
  "chacha_at J k = (ChaCha_count ^^ k) J"

definition chacha_stream :: "u32 list \<Rightarrow> nat \<Rightarrow> byte" where
  "chacha_stream J i = concat (map le32_bytes (ChaCha_core (chacha_at J (i div 64)))) ! (i mod 64)"

text \<open>The counter is the 64-bit number of words 13 and 12.\<close>

definition chacha_counter :: "u32 list \<Rightarrow> nat" where
  "chacha_counter J = unat (J ! 13) * 2 ^ 32 + unat (J ! 12)"

lemma length_le32_bytes [simp]: "length (le32_bytes x) = 4"
  by (simp add: le32_bytes_def)

lemma length_ChaCha_core [simp]: "length (ChaCha_core J) = 16"
  by (simp add: ChaCha_core_def Let_def)

lemma length_concat_le32 [simp]: "length (concat (map le32_bytes xs)) = 4 * length xs"
  by (induction xs) simp_all

lemma LOAD32_LE_bytes: "i < 4 \<Longrightarrow> ucast (drop_bit (8 * i) (LOAD32_LE bs a)) = bs ! (a + i)"
proof -
  assume "i < 4"
  then consider "i = 0" | "i = 1" | "i = 2" | "i = 3" by linarith
  then show ?thesis
    by cases (rule bit_word_eqI, auto simp: LOAD32_LE_def bit_simps dest: bit_imp_le_length)+
qed

lemma le32_bytes_xor:
  "a + 4 \<le> length bs \<Longrightarrow> le32_bytes (x XOR LOAD32_LE bs a) = xor_block (le32_bytes x) (window bs a 4)"
  by (intro nth_equalityI) (simp_all add: le32_bytes_def ucast_xor LOAD32_LE_bytes)

lemma concat_xor_blocks:
  assumes "\<And>i. length (f i) = 4" "4 * n \<le> length s"
  shows "concat (map (\<lambda>i. xor_block (f i) (window s (4 * i) 4)) [0..<n]) = xor_block (concat (map f [0..<n])) (take (4 * n) s)"
  using assms(2)
proof (induction n)
  case (Suc n)
  have "length (concat (map f [0..<m])) = 4 * m" for m using assms(1) by (induction m) simp_all
  moreover have "take (4 * Suc n) s = take (4 * n) s @ window s (4 * n) 4" by (simp add: window_def take_add[symmetric] add.commute)
  ultimately show ?case using Suc by (simp add: xor_block_append)
qed (simp add: xor_block_def)

lemma ChaCha_block_xor:
  assumes "length Src = 64"
  shows "ChaCha_block J Src = xor_block (concat (map le32_bytes (ChaCha_core J))) Src"
proof -
  let ?X = "ChaCha_core J"
  have "ChaCha_block J Src = concat (map (\<lambda>i. xor_block (le32_bytes (?X ! i)) (window Src (4 * i) 4)) [0..<16])"
    unfolding ChaCha_block_def Let_def map_map comp_def
    using assms by (intro arg_cong[of _ _ concat] map_cong refl le32_bytes_xor) simp
  also have "\<dots> = xor_block (concat (map (\<lambda>i. le32_bytes (?X ! i)) [0..<16])) (take (4 * 16) Src)"
    using assms by (intro concat_xor_blocks) simp_all
  also have "map (\<lambda>i. le32_bytes (?X ! i)) [0..<16] = map le32_bytes ?X"
    by (intro nth_equalityI) simp_all
  finally show ?thesis using assms by simp
qed

lemma chacha_at_Suc: "chacha_at (ChaCha_count J) k = chacha_at J (Suc k)"
  by (simp add: chacha_at_def funpow_swap1)

lemma chacha_stream_next: "chacha_stream (ChaCha_count J) i = chacha_stream J (i + 64)"
  by (simp add: chacha_stream_def chacha_at_Suc div_add_self2)

lemma chacha_stream_block: "i < 64 \<Longrightarrow> chacha_stream J i = concat (map le32_bytes (ChaCha_core J)) ! i"
  by (simp add: chacha_stream_def chacha_at_def)

lemma length_ChaCha_count [simp]: "length (ChaCha_count J) = length J"
  by (simp add: ChaCha_count_def Let_def)

lemma length_chacha_at [simp]: "length (chacha_at J k) = length J"
  by (induction k) (simp_all add: chacha_at_def)

lemma ChaCha_count_nth: "i \<noteq> 12 \<Longrightarrow> i \<noteq> 13 \<Longrightarrow> ChaCha_count J ! i = J ! i"
  by (simp add: ChaCha_count_def Let_def)

lemma ChaCha_count_val:
  assumes "length J = 16"
  shows "chacha_counter (ChaCha_count J) = (chacha_counter J + 1) mod 2 ^ 64"
proof -
  have a: "unat (J ! 12) < 2 ^ 32" "unat (J ! 13) < 2 ^ 32" using unat_less_2pow[of "J ! 12"] unat_less_2pow[of "J ! 13"] by simp_all
  show ?thesis
  proof (cases "J ! 12 + 1 = 0")
    case True
    then have "J ! 12 = - 1" by (simp add: eq_neg_iff_add_eq_0)
    then have m: "unat (J ! 12) = 2 ^ 32 - 1" by (simp add: unat_eq_nat_uint uint_word_ariths)
    have "chacha_counter (ChaCha_count J) = (unat (J ! 13) + 1) mod 2 ^ 32 * 2 ^ 32"
      using True assms by (simp add: chacha_counter_def ChaCha_count_def Let_def unat_word_ariths)
    also have "\<dots> = ((unat (J ! 13) + 1) * 2 ^ 32) mod (2 ^ 32 * 2 ^ 32)" by (rule mod_mult_mult2[symmetric])
    finally show ?thesis using m by (simp add: chacha_counter_def)
  next
    case False
    then have "J ! 12 \<noteq> - 1" by auto
    then have "J ! 12 < - 1" by (simp only: word_order.not_eq_extremum)
    then have m: "unat (J ! 12 + 1) = unat (J ! 12) + 1" using unat_Suc_word by simp
    then have "unat (J ! 12) + 1 < 2 ^ 32" using unat_less_2pow[of "J ! 12 + 1"] by simp
    with m show ?thesis using False assms a by (simp add: chacha_counter_def ChaCha_count_def Let_def)
  qed
qed

lemma chacha_at_val:
  assumes "length J = 16"
  shows "chacha_counter (chacha_at J k) = (chacha_counter J + k) mod 2 ^ 64 \<and>
    (\<forall>i. i \<noteq> 12 \<longrightarrow> i \<noteq> 13 \<longrightarrow> chacha_at J k ! i = J ! i)"
proof (induction k)
  case 0
  have "unat (J ! 12) < 2 ^ 32" "unat (J ! 13) < 2 ^ 32" using unat_less_2pow[of "J ! 12"] unat_less_2pow[of "J ! 13"] by simp_all
  then show ?case by (simp add: chacha_at_def chacha_counter_def)
next
  case (Suc k)
  have s: "chacha_at J (Suc k) = ChaCha_count (chacha_at J k)" by (simp add: chacha_at_def)
  have "chacha_counter (chacha_at J (Suc k)) = (chacha_counter (chacha_at J k) + 1) mod 2 ^ 64"
    unfolding s using assms by (intro ChaCha_count_val) simp
  also have "\<dots> = (chacha_counter J + Suc k) mod 2 ^ 64" using Suc by (simp only: mod_add_left_eq) simp
  finally show ?case using Suc by (simp add: s ChaCha_count_nth)
qed

section \<open>The loop\<close>

text \<open>The buffers are the same or do not overlap.\<close>

definition chacha_buffers_ok :: "byte list \<Rightarrow> nat \<Rightarrow> nat \<Rightarrow> nat \<Rightarrow> bool" where
  "chacha_buffers_ok M Source Destination Len \<longleftrightarrow> Source + Len \<le> length M \<and> Destination + Len \<le> length M \<and>
     (Source = Destination \<or> Source + Len \<le> Destination \<or> Destination + Len \<le> Source)"

definition chacha_xor :: "u32 list \<Rightarrow> byte list \<Rightarrow> nat \<Rightarrow> nat \<Rightarrow> byte list" where
  "chacha_xor J M Source Len = map (\<lambda>i. M ! (Source + i) XOR chacha_stream J i) [0..<Len]"

lemma length_chacha_xor [simp]: "length (chacha_xor J M Source Len) = Len"
  by (simp add: chacha_xor_def)

lemma nth_chacha_xor: "i < Len \<Longrightarrow> chacha_xor J M Source Len ! i = M ! (Source + i) XOR chacha_stream J i"
  by (simp add: chacha_xor_def)

lemma ChaCha_block_bytes:
  assumes "length Src = 64" "n \<le> 64" "\<And>i. i < n \<Longrightarrow> Src ! i = M ! (Source + i)"
  shows "take n (ChaCha_block J Src) = chacha_xor J M Source n"
  using assms
  by (intro nth_equalityI) (simp_all add: ChaCha_block_xor chacha_xor_def chacha_stream_block xor.commute)

lemma chacha_xor_split:
  assumes ok: "chacha_buffers_ok M Source Destination Len" and l: "64 \<le> Len"
  shows "overwrite (overwrite M Destination (chacha_xor J M Source 64)) (Destination + 64)
      (chacha_xor (ChaCha_count J) (overwrite M Destination (chacha_xor J M Source 64)) (Source + 64) (Len - 64)) =
    overwrite M Destination (chacha_xor J M Source Len)" (is "overwrite ?M1 _ ?Y = ?R")
proof (rule nth_equalityI)
  have b: "Source + Len \<le> length M" "Destination + Len \<le> length M" using ok by (simp_all add: chacha_buffers_ok_def)
  have lM1: "length ?M1 = length M" using b l by simp
  have src: "?M1 ! (Source + 64 + i) = M ! (Source + 64 + i)" if "i < Len - 64" for i
    using that ok l by (auto simp: chacha_buffers_ok_def nth_overwrite)
  have Y: "?Y ! i = M ! (Source + 64 + i) XOR chacha_stream J (i + 64)" if "i < Len - 64" for i
    using that src by (simp add: chacha_xor_def chacha_stream_next)
  show "length (overwrite ?M1 (Destination + 64) ?Y) = length ?R" using b l lM1 by simp
  fix i assume "i < length (overwrite ?M1 (Destination + 64) ?Y)"
  then have i: "i < length M" using b l lM1 by simp
  have e: "Source + 64 + (i - (Destination + 64)) = Source + (i - Destination)" "i - (Destination + 64) + 64 = i - Destination"
    if "Destination + 64 \<le> i" using that by simp_all
  show "overwrite ?M1 (Destination + 64) ?Y ! i = ?R ! i"
  proof (cases "Destination + 64 \<le> i \<and> i < Destination + Len")
    case True
    then have k: "i - (Destination + 64) < Len - 64" by linarith
    from True have "overwrite ?M1 (Destination + 64) ?Y ! i = M ! (Source + (i - Destination)) XOR chacha_stream J (i - Destination)"
      using i b l lM1 Y[OF k] e by (simp add: nth_overwrite)
    moreover have "?R ! i = chacha_xor J M Source Len ! (i - Destination)" using True i b by (simp add: nth_overwrite)
    moreover have "i - Destination < Len" using True by linarith
    ultimately show ?thesis by (simp only: nth_chacha_xor)
  next
    case False
    then show ?thesis using i b l lM1 by (auto simp: nth_overwrite) (auto simp: chacha_xor_def)
  qed
qed

lemma ChaChaCryptBuffer_loop_eq:
  "chacha_buffers_ok M Source Destination Len \<Longrightarrow> 0 < Len \<Longrightarrow>
   ChaChaCryptBuffer_loop M J Source Destination Len =
     (overwrite M Destination (chacha_xor J M Source Len), chacha_at J ((Len + 63) div 64))"
proof (induction Len arbitrary: M J Source Destination rule: less_induct)
  case (less Len)
  have b: "Source + Len \<le> length M" "Destination + Len \<le> length M" using less.prems by (simp_all add: chacha_buffers_ok_def)
  show ?case
  proof (cases "Len \<le> 64")
    case True
    let ?Src = "if Len < 64 then window M Source Len @ replicate (64 - Len) 0 else window M Source 64"
    have "take Len (ChaCha_block J ?Src) = chacha_xor J M Source Len"
      using True b by (intro ChaCha_block_bytes) (auto simp: nth_append)
    moreover have "(Len + 63) div 64 = 1" using True less.prems(2) by (intro div_nat_eqI) simp_all
    ultimately show ?thesis using True by (subst ChaChaCryptBuffer_loop.simps) (simp add: Let_def chacha_at_def)
  next
    case False
    let ?M1 = "overwrite M Destination (chacha_xor J M Source 64)"
    have "length (ChaCha_block J (window M Source 64)) = 64" using b False by (simp add: ChaCha_block_xor)
    then have "ChaCha_block J (window M Source 64) = chacha_xor J M Source 64"
      using ChaCha_block_bytes[of "window M Source 64" 64 M Source J] b False by simp
    then have "ChaChaCryptBuffer_loop M J Source Destination Len =
        ChaChaCryptBuffer_loop ?M1 (ChaCha_count J) (Source + 64) (Destination + 64) (Len - 64)"
      using False by (subst ChaChaCryptBuffer_loop.simps) (simp add: Let_def)
    also have "\<dots> = (overwrite M Destination (chacha_xor J M Source Len), chacha_at J (Suc ((Len - 64 + 63) div 64)))"
    proof (subst less.IH)
      show "chacha_buffers_ok ?M1 (Source + 64) (Destination + 64) (Len - 64)"
        using less.prems(1) False by (auto simp: chacha_buffers_ok_def)
    qed (use False less.prems(1) chacha_xor_split[of M Source Destination Len J] in \<open>simp_all add: chacha_at_Suc\<close>)
    also have "Suc ((Len - 64 + 63) div 64) = (Len + 63) div 64"
      using False div_add_self2[of 64 "Len - 64 + 63"] by simp
    finally show ?thesis .
  qed
qed

lemma context_after:
  assumes "length J = 16"
  shows "J[12 := chacha_at J k ! 12, 13 := chacha_at J k ! 13] = chacha_at J k"
  using assms chacha_at_val[OF assms, of k] by (intro nth_equalityI) (auto simp: nth_list_update)

lemma ChaChaCryptBuffer_eq:
  assumes "length Input = 16" "chacha_buffers_ok M Source Destination (unat Len)"
  shows "ChaChaCryptBuffer Input M Source Destination Len =
    (chacha_at Input ((unat Len + 63) div 64), overwrite M Destination (chacha_xor Input M Source (unat Len)))"
proof (cases "Len = 0")
  case True
  then show ?thesis by (simp add: ChaChaCryptBuffer_def chacha_at_def chacha_xor_def)
next
  case False
  then have "0 < unat Len" by (simp add: unat_gt_0)
  then show ?thesis
    using False ChaChaCryptBuffer_loop_eq[OF assms(2)] context_after[OF assms(1)] by (simp add: ChaChaCryptBuffer_def)
qed

section \<open>Properties\<close>

text \<open>
  C17: \<open>ChaChaCryptBuffer\<close> writes the source combined with the key stream to the destination and nothing
  else, also in place; block \<open>k\<close> of the key stream is the core function at the context whose 64-bit
  counter is \<open>k\<close> larger, and the context left behind is the one after the last block used.
\<close>

theorem ChaChaCryptBuffer_correct:
  assumes "length Input = 16" "chacha_buffers_ok M Source Destination (unat Len)"
  shows "\<exists>Input' M'. ChaChaCryptBuffer Input M Source Destination Len = (Input', M') \<and> length M' = length M \<and>
    (\<forall>i < unat Len. M' ! (Destination + i) = M ! (Source + i) XOR chacha_stream Input i) \<and>
    (\<forall>j < length M. j < Destination \<or> Destination + unat Len \<le> j \<longrightarrow> M' ! j = M ! j) \<and>
    Input' = chacha_at Input ((unat Len + 63) div 64) \<and>
    (\<forall>k. chacha_counter (chacha_at Input k) = (chacha_counter Input + k) mod 2 ^ 64 \<and>
      (\<forall>i. i \<noteq> 12 \<longrightarrow> i \<noteq> 13 \<longrightarrow> chacha_at Input k ! i = Input ! i))"
  using chacha_at_val[OF assms(1)] assms(2) unfolding ChaChaCryptBuffer_eq[OF assms]
  by (auto simp: chacha_buffers_ok_def nth_overwrite) (auto simp: chacha_xor_def)

theorem ChaChaCryptBuffer_correct_witness:
  "\<exists>Input' M'. ChaChaCryptBuffer (replicate 16 1) [1, 2, 3, 4, 5] 0 2 2 = (Input', M') \<and> length M' = length [1, 2, 3, 4, 5 :: byte] \<and>
    (\<forall>i < unat (2 :: u32). M' ! (2 + i) = [1, 2, 3, 4, 5] ! (0 + i) XOR chacha_stream (replicate 16 1) i) \<and>
    (\<forall>j < length [1, 2, 3, 4, 5 :: byte]. j < 2 \<or> 2 + unat (2 :: u32) \<le> j \<longrightarrow> M' ! j = [1, 2, 3, 4, 5] ! j) \<and>
    Input' = chacha_at (replicate 16 1) ((unat (2 :: u32) + 63) div 64) \<and>
    (\<forall>k. chacha_counter (chacha_at (replicate 16 1) k) = (chacha_counter (replicate 16 1) + k) mod 2 ^ 64 \<and>
      (\<forall>i. i \<noteq> 12 \<longrightarrow> i \<noteq> 13 \<longrightarrow> chacha_at (replicate 16 1) k ! i = replicate 16 1 ! i))"
  by (rule ChaChaCryptBuffer_correct) (simp_all add: chacha_buffers_ok_def)

text \<open>
  Encrypting a buffer in place and decrypting it with a context of the same key, vector and counter
  gives the buffer back.
\<close>

theorem ChaCha_roundtrip:
  assumes "Offset + unat Len \<le> length M"
  shows "snd (ChaChaCryptBuffer (ChaChaInitCtx Key iv Counter)
      (snd (ChaChaCryptBuffer (ChaChaInitCtx Key iv Counter) M Offset Offset Len)) Offset Offset Len) = M"
proof -
  let ?J = "ChaChaInitCtx Key iv Counter" and ?n = "unat Len"
  have J: "length ?J = 16" by (simp add: ChaChaInitCtx_def)
  let ?M1 = "overwrite M Offset (chacha_xor ?J M Offset ?n)"
  have ok: "chacha_buffers_ok M Offset Offset ?n" "chacha_buffers_ok ?M1 Offset Offset ?n"
    using assms by (simp_all add: chacha_buffers_ok_def)
  have "snd (ChaChaCryptBuffer ?J (snd (ChaChaCryptBuffer ?J M Offset Offset Len)) Offset Offset Len) =
      overwrite ?M1 Offset (chacha_xor ?J ?M1 Offset ?n)" by (simp add: ChaChaCryptBuffer_eq[OF J] ok)
  also have "\<dots> = M"
    using assms by (intro nth_equalityI) (auto simp: nth_overwrite, auto simp: chacha_xor_def nth_overwrite xor.assoc)
  finally show ?thesis .
qed

theorem ChaCha_roundtrip_witness:
  "snd (ChaChaCryptBuffer (ChaChaInitCtx (replicate 32 1) (replicate 12 2) 7)
      (snd (ChaChaCryptBuffer (ChaChaInitCtx (replicate 32 1) (replicate 12 2) 7) [1, 2, 3] 1 1 2)) 1 1 2) = [1, 2, 3]"
  by (rule ChaCha_roundtrip) simp

end
