(* ===== verification/Oc_Password.thy ===== *)
theory Oc_Password
  imports Oc_Sha512
begin

unbundle bit_operations_syntax

text \<open>
  Model of \<^verbatim>\<open>Library/OcCryptoLib/SecureMem.c\<close> and \<^verbatim>\<open>PasswordHash.c\<close>: the comparison that does
  not branch on the data, the wiping of a buffer, and the iterated salted SHA-512 of a boot password. The
  context on the stack is initialised again in every iteration; \<open>Stale\<close> gives its contents before that.
\<close>

section \<open>The code\<close>

definition SecureCompareMem :: "byte list \<Rightarrow> byte list \<Rightarrow> nat \<Rightarrow> int" where
  "SecureCompareMem Destination Source Len =
     (let XorDiff = fold (\<lambda>Index XorDiff. XorDiff OR ucast ((ucast (Destination ! Index XOR Source ! Index) :: u32) AND 0xFF))
            [0..<Len] (0 :: byte)
      in uint (1 AND drop_bit 8 ((ucast XorDiff :: u32) - 1)) - 1)"

definition SecureZeroMem :: "byte list \<Rightarrow> nat \<Rightarrow> byte list" where
  "SecureZeroMem Buffer Len = (if Len = 0 then Buffer else fold (\<lambda>i B. B[i := 0]) [0..<Len] Buffer)"

definition HashPassword_first :: "bool \<Rightarrow> transform512 \<Rightarrow> sha512_ctx \<Rightarrow> byte list \<Rightarrow> u32 \<Rightarrow> byte list \<Rightarrow> u32 \<Rightarrow> byte list" where
  "HashPassword_first accel TA c Password PasswordSize Salt SaltSize =
     (let c = Sha512Init c;
          c = Sha512Update accel TA c Password (unat PasswordSize);
          c = Sha512Update accel TA c Salt (unat SaltSize)
      in Sha512Final accel TA c)"

definition HashPassword_round ::
  "bool \<Rightarrow> transform512 \<Rightarrow> byte list \<Rightarrow> u32 \<Rightarrow> byte list \<Rightarrow> u32 \<Rightarrow> sha512_ctx \<Rightarrow> byte list \<Rightarrow> byte list" where
  "HashPassword_round accel TA Password PasswordSize Salt SaltSize c Hash =
     (let c = Sha512Init c;
          c = Sha512Update accel TA c Hash 64;
          c = Sha512Update accel TA c Password (unat PasswordSize);
          c = Sha512Update accel TA c Salt (unat SaltSize)
      in Sha512Final accel TA c)"

definition OcHashPasswordSha512 ::
  "bool \<Rightarrow> transform512 \<Rightarrow> (nat \<Rightarrow> sha512_ctx) \<Rightarrow> byte list \<Rightarrow> u32 \<Rightarrow> byte list \<Rightarrow> u32 \<Rightarrow> byte list" where
  "OcHashPasswordSha512 accel TA Stale Password PasswordSize Salt SaltSize =
     fold (\<lambda>Index Hash. HashPassword_round accel TA Password PasswordSize Salt SaltSize (Stale (Suc Index)) Hash)
       [0..<5000000] (HashPassword_first accel TA (Stale 0) Password PasswordSize Salt SaltSize)"

text \<open>The result and the contents of \<open>VerifyHash\<close> on return.\<close>

definition OcVerifyPasswordSha512 ::
  "bool \<Rightarrow> transform512 \<Rightarrow> (nat \<Rightarrow> sha512_ctx) \<Rightarrow> byte list \<Rightarrow> u32 \<Rightarrow> byte list \<Rightarrow> u32 \<Rightarrow> byte list \<Rightarrow> bool \<times> byte list" where
  "OcVerifyPasswordSha512 accel TA Stale Password PasswordSize Salt SaltSize RefHash =
     (let VerifyHash = OcHashPasswordSha512 accel TA Stale Password PasswordSize Salt SaltSize
      in (SecureCompareMem RefHash VerifyHash 64 = 0, SecureZeroMem VerifyHash 64))"

section \<open>Comparison and wiping\<close>

lemma byte_of_masked: "ucast ((ucast (x :: byte) :: u32) AND 0xFF) = x"
proof (rule bit_word_eqI)
  fix k assume "k < LENGTH(8)"
  moreover have "bit (0xFF :: u32) k \<longleftrightarrow> k < 8" for k using bit_mask_iff[where 'a = u32, of 8 k] by (auto simp: mask_eq_exp_minus_1)
  ultimately show "bit (ucast ((ucast x :: u32) AND 0xFF) :: byte) k = bit x k" by (auto simp: bit_simps)
qed

lemma xor_eq_0_byte: "(x :: byte) XOR y = 0 \<longleftrightarrow> x = y"
  by (metis xor.right_neutral xor_self_eq xor.assoc)

lemma compare_fold:
  fixes xs ys :: "byte list"
  shows "fold (\<lambda>i d. d OR ucast ((ucast (xs ! i XOR ys ! i) :: u32) AND 0xFF)) [0..<n] (0 :: byte) = 0 \<longleftrightarrow> (\<forall>i < n. xs ! i = ys ! i)"
  unfolding byte_of_masked
  by (induction n) (simp_all add: or_eq_0_iff xor_eq_0_byte less_Suc_eq all_conj_distrib imp_disjL)

lemma select_bit: "uint (1 AND drop_bit 8 ((ucast (d :: byte) :: u32) - 1)) = (if d = 0 then 1 else 0)"
proof (cases "d = 0")
  case True
  have "1 AND drop_bit 8 (- 1 :: u32) = 1" by (rule bit_word_eqI) (auto simp: bit_simps bit_1_iff)
  then show ?thesis using True by simp
next
  case False
  then have d: "0 < unat d" "unat d < 256" using unat_less_2pow[of d] by (simp_all add: unat_gt_0)
  have "unat ((ucast d :: u32) - 1) = unat d - 1" using d by (subst unat_minus_no_wrap) (simp_all add: word_le_nat_alt unat_ucast)
  then have "unat (drop_bit 8 ((ucast d :: u32) - 1)) = 0" using d by (simp add: unat_drop_bit)
  then have "drop_bit 8 ((ucast d :: u32) - 1) = 0" by (simp add: word_unat_eq_iff)
  then show ?thesis using False by simp
qed

lemma SecureCompareMem_eq: "SecureCompareMem xs ys n = (if \<forall>i < n. xs ! i = ys ! i then 0 else - 1)"
  unfolding SecureCompareMem_def Let_def select_bit compare_fold by simp

lemma SecureZeroMem_eq: "n \<le> length B \<Longrightarrow> SecureZeroMem B n = replicate n 0 @ drop n B"
proof (induction n)
  case (Suc n)
  then have "fold (\<lambda>i B. B[i := 0]) [0..<n] B = replicate n 0 @ drop n B"
    by (cases n) (simp_all add: SecureZeroMem_def)
  moreover have "drop n B = B ! n # drop (Suc n) B" using Suc.prems by (simp add: Cons_nth_drop_Suc)
  ultimately show ?case by (simp add: SecureZeroMem_def list_update_append replicate_append_same)
qed (simp add: SecureZeroMem_def)

section \<open>The password hash\<close>

definition password_hash :: "byte list \<Rightarrow> byte list \<Rightarrow> byte list" where
  "password_hash Password Salt =
     ((\<lambda>h. sha512_spec (h @ Password @ Salt)) ^^ 5000000) (sha512_spec (Password @ Salt))"

definition stale_ok :: "(nat \<Rightarrow> sha512_ctx) \<Rightarrow> bool" where
  "stale_ok Stale \<longleftrightarrow> (\<forall>i. length (Block (Stale i)) = 256 \<and> length (State (Stale i)) = 8)"

lemma length_sha512_spec [simp]: "length (sha512_spec msg) = 64"
proof -
  have "length (concat (map be64_bytes xs)) = 8 * length xs" for xs by (induction xs) simp_all
  then show ?thesis by (simp add: sha512_spec_def length_md_hash_512)
qed

lemma HashPassword_steps:
  assumes c: "length (Block c) = 256" "length (State c) = 8" and a: "accel \<longrightarrow> TA = Sha512Transform"
    and s: "unat PS \<le> length Password" "unat SS \<le> length Salt"
  shows "HashPassword_first accel TA c Password PS Salt SS = sha512_spec (take (unat PS) Password @ take (unat SS) Salt)"
    and "length Hash = 64 \<Longrightarrow> HashPassword_round accel TA Password PS Salt SS c Hash =
      sha512_spec (Hash @ take (unat PS) Password @ take (unat SS) Salt)"
proof -
  have u: "sha512_repr SHA512_H0 (msg @ take n xs) (Sha512Update accel TA c xs n)"
    if "sha512_repr SHA512_H0 msg c" "n \<le> length xs" for msg c n xs
    using sha512_repr_update[OF that(1) a that(2)] .
  show "HashPassword_first accel TA c Password PS Salt SS = sha512_spec (take (unat PS) Password @ take (unat SS) Salt)"
    using u[OF u[OF Sha512Init_repr(1)[OF c] s(1)] s(2)] by (simp add: HashPassword_first_def Let_def Sha512Final_spec[OF a])
  assume "length Hash = 64"
  then show "HashPassword_round accel TA Password PS Salt SS c Hash =
      sha512_spec (Hash @ take (unat PS) Password @ take (unat SS) Salt)"
    using u[OF u[OF u[OF Sha512Init_repr(1)[OF c], of 64 Hash] s(1)] s(2)]
    by (simp add: HashPassword_round_def Let_def Sha512Final_spec[OF a])
qed

lemma OcHashPasswordSha512_eq:
  assumes "stale_ok Stale" "accel \<longrightarrow> TA = Sha512Transform" "unat PS \<le> length Password" "unat SS \<le> length Salt"
  shows "OcHashPasswordSha512 accel TA Stale Password PS Salt SS = password_hash (take (unat PS) Password) (take (unat SS) Salt)"
proof -
  let ?p = "take (unat PS) Password" and ?s = "take (unat SS) Salt"
  let ?f = "\<lambda>h. sha512_spec (h @ ?p @ ?s)"
  have l: "length ((?f ^^ k) (sha512_spec (?p @ ?s))) = 64" for k by (cases k) simp_all
  have "fold (\<lambda>Index Hash. HashPassword_round accel TA Password PS Salt SS (Stale (Suc Index)) Hash) [0..<n]
      (HashPassword_first accel TA (Stale 0) Password PS Salt SS) = (?f ^^ n) (sha512_spec (?p @ ?s))" for n
    using assms l by (induction n) (simp_all add: HashPassword_steps stale_ok_def)
  then show ?thesis unfolding OcHashPasswordSha512_def password_hash_def by blast
qed

section \<open>Properties\<close>

text \<open>
  C23: \<open>SecureCompareMem\<close>, which only uses arithmetic on the accumulated difference, returns 0 exactly
  when the first \<open>Len\<close> bytes agree and -1 otherwise.
\<close>

theorem SecureCompareMem_correct:
  "SecureCompareMem xs ys n = (if take n xs = take n ys then 0 else - 1)" if "n \<le> length xs" "n \<le> length ys"
  using that by (auto simp: SecureCompareMem_eq list_eq_iff_nth_eq)

theorem SecureCompareMem_correct_witness:
  "SecureCompareMem [1, 2, 3] [1, 2, 4] 2 = (if take 2 [1, 2, 3 :: byte] = take 2 [1, 2, 4] then 0 else - 1)"
  by (rule SecureCompareMem_correct) simp_all

text \<open>
  C22: a password is accepted exactly when the reference is its salted SHA-512, iterated 5000000 times with
  password and salt added in every round; the computed hash is wiped before the function returns.
\<close>

theorem OcVerifyPasswordSha512_correct:
  assumes "stale_ok Stale" "accel \<longrightarrow> TA = Sha512Transform" "unat PS \<le> length Password" "unat SS \<le> length Salt"
    and "64 \<le> length RefHash"
  shows "OcVerifyPasswordSha512 accel TA Stale Password PS Salt SS RefHash =
    (take 64 RefHash = password_hash (take (unat PS) Password) (take (unat SS) Salt), replicate 64 0)"
proof -
  let ?h = "password_hash (take (unat PS) Password) (take (unat SS) Salt)"
  have l: "length ?h = 64"
  proof -
    have "length (((\<lambda>h. sha512_spec (h @ p @ s)) ^^ k) (sha512_spec (p @ s))) = 64" for k p s by (cases k) simp_all
    then show ?thesis unfolding password_hash_def by blast
  qed
  have "SecureCompareMem RefHash ?h 64 = 0 \<longleftrightarrow> take 64 RefHash = ?h"
    using l assms(5) by (auto simp: SecureCompareMem_eq list_eq_iff_nth_eq)
  then show ?thesis
    using l unfolding OcVerifyPasswordSha512_def OcHashPasswordSha512_eq[OF assms(1-4)] Let_def
    by (simp add: SecureZeroMem_eq)
qed

theorem OcVerifyPasswordSha512_correct_witness:
  "OcVerifyPasswordSha512 False Sha512Transform
     (\<lambda>_. \<lparr>TotalLength = 0, Length = 0, Block = replicate 256 0, State = replicate 8 0\<rparr>) [1, 2] 2 [3] 1 (replicate 64 0) =
    (take 64 (replicate 64 0) = password_hash (take (unat (2 :: u32)) [1, 2]) (take (unat (1 :: u32)) [3]), replicate 64 0)"
  by (rule OcVerifyPasswordSha512_correct) (simp_all add: stale_ok_def)

end
