(* ===== verification/Oc_AppleKeys.thy ===== *)
theory Oc_AppleKeys
  imports Oc_Rsa
begin

text \<open>
  Model of \<^verbatim>\<open>Library/OcAppleKeysLib/OcAppleKeysLib.c\<close>: the two Apple public keys that the loader trusts, each with
  the Montgomery constants that \<open>RsaVerifySigHashFromKey\<close> takes from it. The \<open>Data\<close> union is filled with bytes and
  read as little-endian 64-bit words. That the stored constants belong to the stored moduli is checked by
  evaluation; the 2048-bit product that needs is computed by Karatsuba's method.
\<close>

section \<open>The keys\<close>

text \<open>The words of a byte array.\<close>

fun Qwords :: "byte list \<Rightarrow> u64 list" where
  "Qwords (b0 # b1 # b2 # b3 # b4 # b5 # b6 # b7 # bs) = of_nat (bn_val [b0, b1, b2, b3, b4, b5, b6, b7]) # Qwords bs"
| "Qwords _ = []"

record APPLE_PK_ENTRY =
  PkHash :: "byte list"
  PublicKey :: OC_RSA_PUBLIC_KEY

definition mPkDb1_N :: "byte list" where
  "mPkDb1_N =
    [0xCF, 0xFD, 0x3E, 0x6B, 0xFE, 0x66, 0xEC, 0x75, 0xF4, 0x4B, 0x7E, 0x2E, 0x0E, 0xD2, 0x63, 0x98,
     0x08, 0xA9, 0x8D, 0x10, 0xAC, 0x37, 0x8E, 0x55, 0x1C, 0xAA, 0x0E, 0x1C, 0x1D, 0x85, 0xEF, 0x6C,
     0xD5, 0x1C, 0x75, 0x8C, 0x75, 0x18, 0x16, 0xBF, 0x59, 0x9F, 0xBE, 0xDA, 0xEF, 0x4D, 0x6B, 0x0C,
     0xEB, 0xA3, 0x10, 0x24, 0x73, 0x57, 0xCD, 0xE1, 0x05, 0x69, 0x6D, 0x2E, 0xF6, 0xA3, 0x6F, 0xE8,
     0x54, 0x0A, 0x01, 0x0E, 0x96, 0x31, 0x1C, 0x7E, 0x1F, 0x19, 0x71, 0xE8, 0x34, 0xC3, 0xA2, 0x37,
     0xEF, 0xF5, 0xFF, 0xCC, 0x12, 0x62, 0xFD, 0xA4, 0xB3, 0x99, 0xEE, 0x9A, 0x29, 0xCC, 0xCB, 0xFC,
     0x1E, 0x76, 0x71, 0x65, 0x3F, 0x3F, 0x2F, 0x61, 0x08, 0xDA, 0xAC, 0xA3, 0x37, 0x2D, 0x46, 0x5A,
     0xC5, 0x18, 0xD1, 0x54, 0x56, 0xA3, 0x15, 0xFC, 0x55, 0x5F, 0x41, 0x7D, 0xF0, 0x09, 0x59, 0x74,
     0x75, 0x5F, 0x51, 0x50, 0xE6, 0x67, 0xED, 0xA8, 0x82, 0x31, 0x62, 0xE0, 0x8C, 0xF8, 0x31, 0xF7,
     0xAF, 0x58, 0x31, 0xCF, 0x3F, 0x0D, 0x92, 0xCA, 0xBA, 0xD0, 0x76, 0xC1, 0x3F, 0x74, 0xED, 0x92,
     0x4C, 0xC8, 0xA3, 0xDE, 0xCC, 0xD1, 0x18, 0x63, 0x91, 0x20, 0xD1, 0xCB, 0x2E, 0x85, 0xB0, 0x6B,
     0xDB, 0x15, 0x5A, 0xE2, 0xDA, 0x14, 0x40, 0x06, 0x44, 0xB6, 0x36, 0x35, 0xCD, 0x9A, 0xF8, 0x96,
     0xC1, 0x72, 0xDF, 0x2B, 0x4E, 0xD9, 0x61, 0xFE, 0x1F, 0x46, 0x7B, 0xEA, 0xF0, 0xEB, 0x0B, 0xCE,
     0xED, 0xA1, 0xDF, 0x17, 0x7D, 0x51, 0x12, 0xCA, 0x29, 0x9E, 0x9E, 0xC8, 0x6F, 0x5E, 0x85, 0xD4,
     0x79, 0x21, 0x3F, 0xB1, 0xF9, 0xDD, 0x5B, 0x93, 0x8C, 0x57, 0xDE, 0x9A, 0x52, 0xFF, 0x62, 0xA7,
     0xE1, 0x43, 0x1E, 0xA9, 0x25, 0x0E, 0xE1, 0x29, 0x43, 0x38, 0xCD, 0xD9, 0xCA, 0x48, 0xE7, 0xC3]"

definition mPkDb1_RSqr :: "byte list" where
  "mPkDb1_RSqr =
    [0x4F, 0x4B, 0x25, 0x95, 0x56, 0xA1, 0xA9, 0x4F, 0x33, 0x4F, 0x0F, 0xDC, 0xCD, 0x7C, 0xB6, 0xAB,
     0x41, 0xA8, 0xFE, 0x2C, 0x24, 0x94, 0xAD, 0x39, 0x7F, 0x5A, 0x6D, 0x82, 0x40, 0x42, 0x32, 0xF9,
     0xBB, 0x27, 0xC1, 0x17, 0xC2, 0x5E, 0x3E, 0xBE, 0x49, 0xA8, 0x4F, 0x83, 0x56, 0x2E, 0x97, 0x1A,
     0x64, 0x58, 0xA3, 0x71, 0x53, 0x0E, 0xE1, 0x81, 0x38, 0x27, 0x76, 0xAC, 0xF2, 0x65, 0x48, 0x16,
     0x30, 0x7C, 0xB1, 0x80, 0xFC, 0x5E, 0x4D, 0xD3, 0x6B, 0xC0, 0x03, 0x50, 0x5D, 0xA7, 0xD8, 0xBA,
     0xAD, 0xEA, 0x2F, 0xE5, 0x9C, 0x25, 0x36, 0xCA, 0x4E, 0x0B, 0xEF, 0xCF, 0x6F, 0x2D, 0xA5, 0x9C,
     0x1E, 0x52, 0xFC, 0x6C, 0x17, 0xB6, 0xD1, 0x93, 0x5C, 0x27, 0x64, 0xD9, 0xAA, 0x9E, 0x4F, 0x13,
     0x2D, 0x1A, 0x19, 0x46, 0x0B, 0x9A, 0xA4, 0x92, 0x75, 0x48, 0xBB, 0x2C, 0xCD, 0xB8, 0x3E, 0xE5,
     0x16, 0x9A, 0xFD, 0x7E, 0xEA, 0x81, 0xAD, 0xBA, 0xB6, 0x6D, 0x61, 0x4C, 0x35, 0xE5, 0xA4, 0x3C,
     0x36, 0x15, 0x4C, 0x38, 0x20, 0xDE, 0xF7, 0x65, 0x8B, 0x19, 0x75, 0x25, 0x98, 0x32, 0xD5, 0xD2,
     0x4D, 0x0D, 0x65, 0x17, 0x29, 0xE7, 0x67, 0x39, 0x55, 0xEB, 0xAB, 0x6D, 0x7A, 0x7E, 0x52, 0x49,
     0xF9, 0x74, 0x07, 0x07, 0x72, 0x37, 0x14, 0x25, 0xE9, 0x38, 0xE1, 0xE4, 0xFF, 0x18, 0x8C, 0x0D,
     0xE7, 0x46, 0x8D, 0x9A, 0x89, 0xAF, 0x31, 0xB2, 0xCF, 0x66, 0x08, 0x09, 0x4E, 0xD4, 0xF7, 0xC1,
     0xEE, 0xB3, 0xEE, 0xED, 0xF5, 0xCE, 0x99, 0x85, 0xC6, 0x21, 0xB2, 0xF6, 0x45, 0x17, 0x2D, 0x73,
     0xBE, 0xDA, 0x6A, 0x93, 0x60, 0xF9, 0x09, 0xCD, 0xCB, 0xFB, 0x0B, 0xCE, 0x1B, 0x06, 0x41, 0xE8,
     0xE1, 0x72, 0xC3, 0x6C, 0x5F, 0xE4, 0x66, 0x0D, 0x4E, 0x08, 0x65, 0x9C, 0x46, 0xC5, 0x7B, 0x04]"

definition mPkDb1 :: OC_RSA_PUBLIC_KEY where
  "mPkDb1 = \<lparr>NumQwords = 32, N0Inv = 0xb9a584a4e7cd16d1, KeyData = Qwords (mPkDb1_N @ mPkDb1_RSqr)\<rparr>"

definition mPkDb2_N :: "byte list" where
  "mPkDb2_N =
    [0xE5, 0x0A, 0xC2, 0x88, 0x2D, 0x44, 0xB7, 0xE3, 0x3B, 0x67, 0xC5, 0x1D, 0xAC, 0x63, 0x93, 0x29,
     0xDA, 0x03, 0x63, 0xBD, 0xEA, 0xB5, 0x17, 0x9F, 0xF8, 0x8E, 0x46, 0x0E, 0xE7, 0x03, 0xD6, 0xCE,
     0x30, 0x38, 0x3B, 0x25, 0x0D, 0xE0, 0xE2, 0xFF, 0x39, 0x38, 0x68, 0x11, 0x51, 0x2A, 0x1A, 0x3B,
     0x75, 0x31, 0x29, 0x4F, 0x9C, 0x51, 0x2D, 0x28, 0xFF, 0x56, 0xE5, 0xCD, 0xEB, 0x98, 0x93, 0x42,
     0xB3, 0xA1, 0xA8, 0x66, 0xB4, 0x13, 0x82, 0xA6, 0x2F, 0xB1, 0x7D, 0x5D, 0x3E, 0x97, 0x45, 0x4A,
     0xE1, 0x9E, 0xB3, 0xC8, 0xFA, 0x42, 0xF1, 0x03, 0x1D, 0xA2, 0x1E, 0xEC, 0x8D, 0x33, 0xBC, 0xE7,
     0x8C, 0x4E, 0x3C, 0x55, 0xEF, 0xF8, 0xA5, 0x96, 0x3A, 0x3C, 0xDA, 0xB7, 0x2F, 0x47, 0x50, 0x61,
     0x30, 0xFC, 0x19, 0x78, 0x03, 0xDB, 0x6C, 0xA5, 0xA0, 0xFD, 0xC5, 0x94, 0x82, 0xEC, 0x0A, 0x3F,
     0x40, 0x83, 0x64, 0xE3, 0x4F, 0xAE, 0x9F, 0xD6, 0xD5, 0xEB, 0xF6, 0x33, 0x35, 0x7E, 0x3E, 0x7A,
     0x3B, 0xA4, 0x91, 0xD3, 0x34, 0xA6, 0x26, 0x04, 0xB9, 0xCB, 0xF3, 0x82, 0x63, 0xBF, 0xF4, 0x75,
     0x51, 0x68, 0xDB, 0x6D, 0xFB, 0xBA, 0x86, 0x69, 0xB7, 0xDB, 0x72, 0x80, 0x21, 0x8C, 0x4E, 0xAC,
     0x56, 0x1C, 0xBF, 0x2F, 0x93, 0x2E, 0xAD, 0x6B, 0x41, 0x15, 0x95, 0x73, 0xD7, 0xFF, 0x75, 0xB1,
     0x9D, 0x65, 0x19, 0x5F, 0x0A, 0x41, 0xDC, 0x32, 0xED, 0x6F, 0x6D, 0x55, 0x51, 0x71, 0x6B, 0x6F,
     0x74, 0x4A, 0xCD, 0x2D, 0x3E, 0xE6, 0x4F, 0xDE, 0x29, 0x74, 0x25, 0x94, 0x5E, 0xD2, 0xFF, 0x45,
     0x2B, 0x8C, 0xC7, 0x2B, 0xC5, 0xD4, 0xC9, 0x87, 0xD0, 0xD1, 0xDC, 0x0A, 0xFC, 0x54, 0x3E, 0x28,
     0xF7, 0xA4, 0x90, 0x46, 0x8F, 0x43, 0x41, 0x22, 0x58, 0xF9, 0x11, 0x06, 0x82, 0x53, 0xC0, 0xB6]"

definition mPkDb2_RSqr :: "byte list" where
  "mPkDb2_RSqr =
    [0xA7, 0x3E, 0xE4, 0x73, 0x82, 0xBE, 0x69, 0xC7, 0x7C, 0x75, 0x84, 0xEA, 0xB2, 0x84, 0xAF, 0xFF,
     0x16, 0x2F, 0xE4, 0xCE, 0x22, 0x68, 0xF6, 0x35, 0x42, 0x90, 0xD7, 0x3A, 0x15, 0xEE, 0x79, 0x8A,
     0x54, 0x99, 0x93, 0x6E, 0xDE, 0x7B, 0x0D, 0xF9, 0x9B, 0xBC, 0xF4, 0xE5, 0xC1, 0xB0, 0x83, 0xF5,
     0x16, 0xFA, 0x50, 0x9C, 0x82, 0xF2, 0xF4, 0x18, 0x58, 0xA4, 0xA4, 0x04, 0x29, 0x34, 0xA4, 0xB3,
     0x47, 0xC5, 0x86, 0xF0, 0x1F, 0xB0, 0x8E, 0xCE, 0x18, 0xCD, 0x5F, 0x0A, 0x57, 0x17, 0x4B, 0x78,
     0x2E, 0x80, 0xAA, 0x01, 0xAC, 0x86, 0xA4, 0xC5, 0x2B, 0x5B, 0xB6, 0x22, 0xD1, 0x50, 0xFC, 0x8F,
     0xCE, 0x72, 0x05, 0x82, 0x59, 0xE6, 0xB7, 0x0F, 0xE9, 0x93, 0x58, 0x04, 0xF1, 0x3E, 0xE7, 0x94,
     0xD5, 0x4F, 0x65, 0x95, 0x8A, 0x77, 0x6B, 0x68, 0xD3, 0x6A, 0xE6, 0x49, 0x6B, 0x79, 0xE2, 0x4B,
     0x3F, 0x3E, 0x83, 0x0C, 0x3D, 0x00, 0x51, 0x87, 0xBB, 0x90, 0x56, 0x47, 0xB5, 0x23, 0x88, 0x4C,
     0xD0, 0x75, 0x7A, 0xF1, 0xBC, 0x46, 0x61, 0xA6, 0xEB, 0x80, 0xB9, 0x0E, 0xEC, 0x28, 0x22, 0x5A,
     0x27, 0x8A, 0x92, 0xE1, 0x56, 0x54, 0xE8, 0xC7, 0xBE, 0x3D, 0x11, 0xA7, 0x67, 0xF8, 0xA7, 0x89,
     0x02, 0xB2, 0xF4, 0xF4, 0xE7, 0x31, 0x86, 0xE8, 0x7C, 0x7C, 0xA2, 0xFC, 0xE8, 0x3C, 0xD2, 0xFA,
     0xE3, 0xF6, 0x34, 0xFC, 0x48, 0x1B, 0xF0, 0x46, 0x34, 0xB8, 0x36, 0x80, 0x35, 0xBE, 0xDC, 0xD3,
     0x60, 0x6C, 0x79, 0x66, 0x03, 0x03, 0x7E, 0xE0, 0xBA, 0xDB, 0xB6, 0x1D, 0x6A, 0xED, 0x24, 0x31,
     0x0C, 0x81, 0xF9, 0x54, 0xBA, 0xF1, 0x02, 0x53, 0x21, 0x93, 0xEA, 0x6D, 0x93, 0x6D, 0x6A, 0x85,
     0x37, 0x2E, 0x4C, 0x39, 0x19, 0xA0, 0x4E, 0x43, 0xE0, 0xCC, 0xD9, 0x87, 0x2C, 0xD1, 0x2C, 0x3E]"

definition mPkDb2 :: OC_RSA_PUBLIC_KEY where
  "mPkDb2 = \<lparr>NumQwords = 32, N0Inv = 0x646a020e9ed45d13, KeyData = Qwords (mPkDb2_N @ mPkDb2_RSqr)\<rparr>"

definition PkDataBase :: "APPLE_PK_ENTRY list" where
  "PkDataBase =
    [\<lparr>PkHash =
       [0xC7, 0xA1, 0xB9, 0x36, 0x28, 0x80, 0xDE, 0x69, 0x57, 0x62, 0xB7, 0xB6, 0x5B, 0xEC, 0x6B, 0xF1,
        0x56, 0xA5, 0x5C, 0xF9, 0x24, 0x7F, 0x22, 0xEF, 0x78, 0x62, 0x35, 0x53, 0x7F, 0x95, 0x2B, 0x45],
      PublicKey = mPkDb1\<rparr>,
     \<lparr>PkHash =
       [0x74, 0x61, 0x89, 0x8E, 0x6E, 0x62, 0x96, 0x2E, 0xDD, 0x64, 0x44, 0x71, 0x45, 0xF0, 0xD9, 0xD0,
        0x2B, 0xCC, 0x95, 0x19, 0x49, 0x20, 0x46, 0x67, 0x1E, 0x1F, 0xCD, 0xDD, 0x18, 0xDC, 0x9B, 0x8B],
      PublicKey = mPkDb2\<rparr>]"

section \<open>Arithmetic\<close>

fun karatsuba :: "nat \<Rightarrow> nat list \<Rightarrow> nat list \<Rightarrow> nat" where
  "karatsuba 0 as bs = hd as * hd bs"
| "karatsuba (Suc k) as bs =
     (let h = karatsuba k (drop (2 ^ k) as) (drop (2 ^ k) bs);
          l = karatsuba k (take (2 ^ k) as) (take (2 ^ k) bs);
          m = karatsuba k (map2 (+) (drop (2 ^ k) as) (take (2 ^ k) as)) (map2 (+) (drop (2 ^ k) bs) (take (2 ^ k) bs))
      in (h * 2 ^ (64 * 2 ^ k) + (m - (h + l))) * 2 ^ (64 * 2 ^ k) + l)"

text \<open>The value of a list of digits to the base \<open>2 ^ 64\<close>, with digits of any size.\<close>

fun digits_val :: "nat list \<Rightarrow> nat" where
  "digits_val [] = 0"
| "digits_val (x # xs) = x + 2 ^ 64 * digits_val xs"

lemma digits_val_append: "digits_val (xs @ ys) = digits_val xs + 2 ^ (64 * length xs) * digits_val ys"
  by (induction xs) (simp_all add: power_add algebra_simps)

lemma digits_val_add: "length xs = length ys \<Longrightarrow> digits_val (map2 (+) xs ys) = digits_val xs + digits_val ys"
  by (induction xs ys rule: list_induct2) (simp_all add: algebra_simps)

lemma digits_val_split: "k \<le> length xs \<Longrightarrow> digits_val xs = digits_val (drop k xs) * 2 ^ (64 * k) + digits_val (take k xs)"
  using digits_val_append[of "take k xs" "drop k xs"] by simp

lemma digits_val_unat: "digits_val (map unat (xs :: u64 list)) = bn_val xs"
  by (induction xs) simp_all

lemma karatsuba_product: "(h * B + (m - (h + l))) * B + l = (a1 * B + a0) * (b1 * B + b0)"
  if "h = a1 * b1" "l = a0 * b0" "m = (a1 + a0) * (b1 + b0)" for a0 a1 b0 b1 B :: nat
proof -
  have "m - (h + l) = a1 * b0 + a0 * b1" by (simp add: that algebra_simps)
  then show ?thesis by (simp add: that algebra_simps)
qed

lemma karatsuba_correct: "length as = 2 ^ k \<Longrightarrow> length bs = 2 ^ k \<Longrightarrow> karatsuba k as bs = digits_val as * digits_val bs"
proof (induction k arbitrary: as bs)
  case 0
  then obtain a b where "as = [a]" "bs = [b]" by (auto simp: length_Suc_conv)
  then show ?case by simp
next
  case (Suc k)
  then have l: "2 ^ k \<le> length as" "2 ^ k \<le> length bs" "length (drop (2 ^ k) as) = 2 ^ k" "length (drop (2 ^ k) bs) = 2 ^ k" by simp_all
  then show ?case
    unfolding karatsuba.simps Let_def digits_val_split[OF l(1)] digits_val_split[OF l(2)]
    by (intro karatsuba_product) (simp_all add: Suc.IH digits_val_add min_def)
qed

section \<open>The stored constants\<close>

lemma Qwords_append: "length xs = 8 * n \<Longrightarrow> Qwords (xs @ ys) = Qwords xs @ Qwords ys"
proof (induction n arbitrary: xs)
  case (Suc n)
  then obtain b0 b1 b2 b3 b4 b5 b6 b7 zs where "xs = b0 # b1 # b2 # b3 # b4 # b5 # b6 # b7 # zs" "length zs = 8 * n"
    by (auto simp: length_Suc_conv eval_nat_numeral)
  then show ?case using Suc.IH by simp
qed simp

lemma rsa_key_okI:
  assumes "Key = \<lparr>NumQwords = 32, N0Inv = i, KeyData = M @ R\<rparr>" "length M = 32" "length R = 32"
    and "i * hd M = - 1" "0x8000000000000000 \<le> last M" "length q = 32"
    and prod: "karatsuba (Suc (Suc (Suc (Suc (Suc 0))))) q (map unat M) + digits_val (map unat R) = 2 ^ 4096"
    and less: "digits_val (map unat R) < digits_val (map unat M)"
  shows "rsa_key_ok Key"
proof -
  have m: "digits_val q * bn_val M + bn_val R = 2 ^ 4096" "bn_val R < bn_val M"
    using prod less karatsuba_correct[of q "Suc (Suc (Suc (Suc (Suc 0))))" "map unat M"] assms(2,6)
    by (simp_all add: digits_val_unat del: karatsuba.simps)
  then have "2 ^ 4096 mod bn_val M = bn_val R" by (metis mod_less mod_mult_self3)
  moreover obtain Ms a where M: "M = Ms @ [a]" using assms(2) by (cases M rule: rev_cases) auto
  then have "2 ^ (64 * 32) \<le> 2 * bn_val M"
    using assms(2,5) by (simp add: bn_val_append word_le_nat_alt) 
  moreover have "hd M = M ! 0" using assms(2) by (intro hd_conv_nth) auto
  ultimately show ?thesis using assms(1-4) by (simp add: rsa_key_ok_def Let_def window_def nth_append)
qed

lemma mPkDb1_N_Qwords: "Qwords mPkDb1_N =
    [0x75EC66FE6B3EFDCF, 0x9863D20E2E7E4BF4, 0x558E37AC108DA908, 0x6CEF851D1C0EAA1C, 0xBF1618758C751CD5,
     0xC6B4DEFDABE9F59, 0xE1CD57732410A3EB, 0xE86FA3F62E6D6905, 0x7E1C31960E010A54, 0x37A2C334E871191F,
     0xA4FD6212CCFFF5EF, 0xFCCBCC299AEE99B3, 0x612F3F3F6571761E, 0x5A462D37A3ACDA08, 0xFC15A35654D118C5,
     0x745909F07D415F55, 0xA8ED67E650515F75, 0xF731F88CE0623182, 0xCA920D3FCF3158AF, 0x92ED743FC176D0BA,
     0x6318D1CCDEA3C84C, 0x6BB0852ECBD12091, 0x64014DAE25A15DB, 0x96F89ACD3536B644, 0xFE61D94E2BDF72C1,
     0xCE0BEBF0EA7B461F, 0xCA12517D17DFA1ED, 0xD4855E6FC89E9E29, 0x935BDDF9B13F2179, 0xA762FF529ADE578C,
     0x29E10E25A91E43E1, 0xC3E748CAD9CD3843]"
  by (simp add: mPkDb1_N_def)

lemma mPkDb1_RSqr_Qwords: "Qwords mPkDb1_RSqr =
    [0x4FA9A15695254B4F, 0xABB67CCDDC0F4F33, 0x39AD94242CFEA841, 0xF9324240826D5A7F, 0xBE3E5EC217C127BB,
     0x1A972E56834FA849, 0x81E10E5371A35864, 0x164865F2AC762738, 0xD34D5EFC80B17C30, 0xBAD8A75D5003C06B,
     0xCA36259CE52FEAAD, 0x9CA52D6FCFEF0B4E, 0x93D1B6176CFC521E, 0x134F9EAAD964275C, 0x92A49A0B46191A2D,
     0xE53EB8CD2CBB4875, 0xBAAD81EA7EFD9A16, 0x3CA4E5354C616DB6, 0x65F7DE20384C1536, 0xD2D532982575198B,
     0x3967E72917650D4D, 0x49527E7A6DABEB55, 0x25143772070774F9, 0xD8C18FFE4E138E9, 0xB231AF899A8D46E7,
     0xC1F7D44E090866CF, 0x8599CEF5EDEEB3EE, 0x732D1745F6B221C6, 0xCD09F960936ADABE, 0xE841061BCE0BFBCB,
     0xD66E45F6CC372E1, 0x47BC5469C65084E]"
  by (simp add: mPkDb1_RSqr_def)

lemma mPkDb1_ok: "rsa_key_ok mPkDb1"
proof (rule rsa_key_okI[where q = "[0x57E838EE8F2E457F, 0xF648B3F56EB8D9BA, 0xB69D6D5D3EDE9EF2, 0x8F365A7E22482D3D, 0x75029A32F81C447,
    0x7C779601B00F97B6, 0x5613743064767989, 0x87A5D8F1F6EC49E1, 0x5D65F9B6FEBA90DC, 0xD4E727D51DD8C1C3,
    0xA5A4F553DE75230, 0xD0058102FF68676D, 0xA230C064D8A878C4, 0xF1F185622BDF1763, 0x3D5C82F2B36BB72B,
    0x52350CD1296347C9, 0x4A968E40148F017A, 0xD64EF96E8DE71BAB, 0x6972A07A128E79BD, 0x3F0056AAF735D861,
    0x6A11221BABFFAB18, 0x62EDEAD758D1F31E, 0x11488CD39C11298, 0x5FD299AE6F993952, 0x7156B6CAF278C735,
    0x2C1DF2C24D326056, 0xFAABD4226C5D6479, 0x14E2D44E079DC3F, 0xBDBEE18BD606C57D, 0x59AE0AFBD0FE9379,
    0xFC4D6DC64753740F, 0x14E8839B4900FCFB5]"])
  show "mPkDb1 = \<lparr>NumQwords = 32, N0Inv = 0xb9a584a4e7cd16d1, KeyData = Qwords mPkDb1_N @ Qwords mPkDb1_RSqr\<rparr>"
    by (simp only: mPkDb1_def) (subst Qwords_append[where n = 32], simp_all add: mPkDb1_N_def)
qed (simp_all add: mPkDb1_N_Qwords mPkDb1_RSqr_Qwords Let_def)

lemma mPkDb2_N_Qwords: "Qwords mPkDb2_N =
    [0xE3B7442D88C20AE5, 0x299363AC1DC5673B, 0x9F17B5EABD6303DA, 0xCED603E70E468EF8, 0xFFE2E00D253B3830,
     0x3B1A2A5111683839, 0x282D519C4F293175, 0x429398EBCDE556FF, 0xA68213B466A8A1B3, 0x4A45973E5D7DB12F,
     0x3F142FAC8B39EE1, 0xE7BC338DEC1EA21D, 0x96A5F8EF553C4E8C, 0x6150472FB7DA3C3A, 0xA56CDB037819FC30,
     0x3F0AEC8294C5FDA0, 0xD69FAE4FE3648340, 0x7A3E7E3533F6EBD5, 0x426A634D391A43B, 0x75F4BF6382F3CBB9,
     0x6986BAFB6DDB6851, 0xAC4E8C218072DBB7, 0x6BAD2E932FBF1C56, 0xB175FFD773951541, 0x32DC410A5F19659D,
     0x6F6B7151556D6FED, 0xDE4FE63E2DCD4A74, 0x45FFD25E94257429, 0x87C9D4C52BC78C2B, 0x283E54FC0ADCD1D0,
     0x2241438F4690A4F7, 0xB6C053820611F958]"
  by (simp add: mPkDb2_N_def)

lemma mPkDb2_RSqr_Qwords: "Qwords mPkDb2_RSqr =
    [0xC769BE8273E43EA7, 0xFFAF84B2EA84757C, 0x35F66822CEE42F16, 0x8A79EE153AD79042, 0xF90D7BDE6E939954,
     0xF583B0C1E5F4BC9B, 0x18F4F2829C50FA16, 0xB3A4342904A4A458, 0xCE8EB01FF086C547, 0x784B17570A5FCD18,
     0xC5A486AC01AA802E, 0x8FFC50D122B65B2B, 0xFB7E659820572CE, 0x94E73EF1045893E9, 0x686B778A95654FD5,
     0x4BE2796B49E66AD3, 0x8751003D0C833E3F, 0x4C8823B5475690BB, 0xA66146BCF17A75D0, 0x5A2228EC0EB980EB,
     0xC7E85456E1928A27, 0x89A7F867A7113DBE, 0xE88631E7F4F4B202, 0xFAD23CE8FCA27C7C, 0x46F01B48FC34F6E3,
     0xD3DCBE358036B834, 0xE07E030366796C60, 0x3124ED6A1DB6DBBA, 0x5302F1BA54F9810C, 0x856A6D936DEA9321,
     0x434EA019394C2E37, 0x3E2CD12C87D9CCE0]"
  by (simp add: mPkDb2_RSqr_def)

lemma mPkDb2_ok: "rsa_key_ok mPkDb2"
proof (rule rsa_key_okI[where q = "[0xCABC1A9978FF5165, 0x5AED470D1F8148A0, 0x7912B8D83320E342, 0xA91A6EE5F2BD453F, 0xFC6134F12CA7D4F4,
    0x2A6F1E9E91178DD3, 0x90CC860E137D7686, 0xD158A68F5E2F2D0A, 0x55010547CEC67716, 0xC9840F9E07BBC73,
    0x1D29E26314AFC061, 0x23DE9D38015751C1, 0x66432EAC6528FE77, 0x922953744D2B2B60, 0x5CEF99497DE52C0A,
    0x3791B854434B0CCA, 0xAD716EF0696AED5C, 0x216F6A1488739051, 0xFB328F2A6A829662, 0x6318EF01D1B8CE69,
    0x18E25FBACC265113, 0x2282367F32A1143E, 0xB09E79B724793D04, 0xCEA947636936BBEC, 0x953F09E7540B559F,
    0x6C26C09FF41F0C15, 0x283B7B5180CDC58C, 0xEE02FD5FC270442B, 0xE845848DCA669268, 0xAA129FF3B62674D3,
    0xB62BBB907B788FAB, 0x1669B8D299311E0E0]"])
  show "mPkDb2 = \<lparr>NumQwords = 32, N0Inv = 0x646a020e9ed45d13, KeyData = Qwords mPkDb2_N @ Qwords mPkDb2_RSqr\<rparr>"
    by (simp only: mPkDb2_def) (subst Qwords_append[where n = 32], simp_all add: mPkDb2_N_def)
qed (simp_all add: mPkDb2_N_Qwords mPkDb2_RSqr_Qwords Let_def)

text \<open>
  C24: the two trusted keys are well-formed: 2048-bit moduli with the top bit set, and the inverse and the
  \<open>R^2 mod N\<close> stored beside a modulus are the ones of that modulus.
\<close>

theorem PkDataBase_keys:
  "rsa_key_ok (PublicKey (PkDataBase ! 0)) \<and> rsa_key_ok (PublicKey (PkDataBase ! 1)) \<and>
   unat (NumQwords (PublicKey (PkDataBase ! 0))) = 32 \<and> unat (NumQwords (PublicKey (PkDataBase ! 1))) = 32"
  by (simp add: PkDataBase_def mPkDb1_ok mPkDb2_ok) (simp add: mPkDb1_def mPkDb2_def)

end
