(* ===== verification/Oc_Memory.thy ===== *)
theory Oc_Memory
  imports Oc_Prelude
begin

unbundle bit_operations_syntax

text \<open>
  Memory descriptors and page arithmetic of the UEFI headers, as far as the components use them.
\<close>

section \<open>Descriptors\<close>

record EFI_MEMORY_DESCRIPTOR =
  MemType :: u32
  PhysicalStart :: u64
  VirtualStart :: u64
  NumberOfPages :: u64
  Attribute :: u64

text \<open>The constants of the UEFI specification.\<close>

definition EfiReservedMemoryType :: u32 where "EfiReservedMemoryType = 0"
definition EfiLoaderCode :: u32 where "EfiLoaderCode = 1"
definition EfiLoaderData :: u32 where "EfiLoaderData = 2"
definition EfiBootServicesCode :: u32 where "EfiBootServicesCode = 3"
definition EfiBootServicesData :: u32 where "EfiBootServicesData = 4"
definition EfiRuntimeServicesCode :: u32 where "EfiRuntimeServicesCode = 5"
definition EfiRuntimeServicesData :: u32 where "EfiRuntimeServicesData = 6"
definition EfiConventionalMemory :: u32 where "EfiConventionalMemory = 7"
definition EFI_MEMORY_RUNTIME :: u64 where "EFI_MEMORY_RUNTIME = 0x8000000000000000"
definition EFI_MEMORY_RO :: u64 where "EFI_MEMORY_RO = 0x20000"
definition EFI_MEMORY_XP :: u64 where "EFI_MEMORY_XP = 0x4000"

definition EFI_PAGES_TO_SIZE :: "u64 \<Rightarrow> u64" where "EFI_PAGES_TO_SIZE n = push_bit 12 n"

definition EFI_SIZE_TO_PAGES :: "u64 \<Rightarrow> u64" where
  "EFI_SIZE_TO_PAGES n = drop_bit 12 n + (if n AND 0xFFF \<noteq> 0 then 1 else 0)"

definition BASE_4GB :: u64 where "BASE_4GB = 0x100000000"

end
