(* ===== verification/Oc_RamDisk.thy ===== *)
theory Oc_RamDisk
  imports Oc_Memory
begin

unbundle bit_operations_syntax

text \<open>
  Model of \<^verbatim>\<open>Library/OcAppleRamDiskLib/OcAppleRamDiskLib.c\<close>: RAM disks made of extents, their allocation
  from the memory map, and reading, writing and loading a file across extents. Physical memory is a function
  from 64-bit addresses to bytes. The extent table lies in the first page of the first area; it is a value
  of its own here, so a table is a pair of its address and contents. \<open>gBS->AllocatePages\<close>,
  \<open>gBS->FreePages\<close>, the file protocol and the result of \<open>OcGetCurrentMemoryMap\<close> are parameters.
  \<open>ASSERT\<close>s and the digest that debug builds print are not modelled.
\<close>

section \<open>Memory\<close>

type_synonym mem = "u64 \<Rightarrow> byte"

definition mem_read :: "mem \<Rightarrow> u64 \<Rightarrow> nat \<Rightarrow> byte list" where
  "mem_read m a n = map (\<lambda>i. m (a + of_nat i)) [0..<n]"

definition mem_write :: "mem \<Rightarrow> u64 \<Rightarrow> byte list \<Rightarrow> mem" where
  "mem_write m a bs = fold (\<lambda>i m. m(a + of_nat i := bs ! i)) [0..<length bs] m"

section \<open>The code\<close>

definition EFI_PAGE_SIZE :: u64 where
  "EFI_PAGE_SIZE = 4096"

record APPLE_RAM_DISK_EXTENT =
  Start :: u64
  Length :: u64

definition APPLE_RAM_DISK_EXTENT_SIGNATURE :: u64 where
  "APPLE_RAM_DISK_EXTENT_SIGNATURE = 0x544E5458444D4152"

definition APPLE_RAM_DISK_EXTENT_VERSION :: u32 where
  "APPLE_RAM_DISK_EXTENT_VERSION = 0x10000"

definition APPLE_RAM_DISK_MAX_EXTENTS :: nat where
  "APPLE_RAM_DISK_MAX_EXTENTS = 0xFE"

record APPLE_RAM_DISK_EXTENT_TABLE =
  Signature :: u64
  Version :: u32
  ExtentCount :: u32
  Extents :: "APPLE_RAM_DISK_EXTENT list"
  Reserved :: u64
  Signature2 :: u64

text \<open>The contents of a zeroed page.\<close>

definition zero_table :: APPLE_RAM_DISK_EXTENT_TABLE where
  "zero_table = \<lparr>Signature = 0, Version = 0, ExtentCount = 0,
     Extents = replicate APPLE_RAM_DISK_MAX_EXTENTS \<lparr>Start = 0, Length = 0\<rparr>, Reserved = 0, Signature2 = 0\<rparr>"

type_synonym table_ptr = "(u64 \<times> APPLE_RAM_DISK_EXTENT_TABLE) option"

definition add_extent :: "u64 \<Rightarrow> u64 \<Rightarrow> APPLE_RAM_DISK_EXTENT_TABLE \<Rightarrow> APPLE_RAM_DISK_EXTENT_TABLE" where
  "add_extent AllocatedArea AllocatedAreaSize Table =
     Table\<lparr>Extents := (Extents Table)[unat (ExtentCount Table) := \<lparr>Start = AllocatedArea, Length = AllocatedAreaSize\<rparr>],
           ExtentCount := ExtentCount Table + 1\<rparr>"

definition InternalAddAllocatedArea :: "table_ptr \<Rightarrow> u64 \<Rightarrow> u64 \<Rightarrow> mem \<Rightarrow> table_ptr \<times> mem" where
  "InternalAddAllocatedArea ExtentTable AllocatedArea AllocatedAreaSize m =
     (let m = mem_write m AllocatedArea (replicate (unat (EFI_PAGES_TO_SIZE (EFI_SIZE_TO_PAGES AllocatedAreaSize))) 0)
      in case ExtentTable of
           None \<Rightarrow>
             (let Table = zero_table\<lparr>Signature := APPLE_RAM_DISK_EXTENT_SIGNATURE, Version := APPLE_RAM_DISK_EXTENT_VERSION,
                    Signature2 := APPLE_RAM_DISK_EXTENT_SIGNATURE\<rparr>;
                  Area = AllocatedArea + EFI_PAGE_SIZE;
                  AreaSize = AllocatedAreaSize - EFI_PAGE_SIZE
              in if AreaSize = 0 then (Some (AllocatedArea, Table), m)
                 else (Some (AllocatedArea, add_extent Area AreaSize Table), m))
         | Some (Address, Table) \<Rightarrow> (Some (Address, add_extent AllocatedArea AllocatedAreaSize Table), m))"

text \<open>The walk over the memory map: the index and the usable size of the biggest entry.\<close>

definition usable_size :: "u64 \<Rightarrow> EFI_MEMORY_DESCRIPTOR \<Rightarrow> u64" where
  "usable_size TopAddress Entry =
     (let UsedSize = EFI_PAGES_TO_SIZE (NumberOfPages Entry)
      in if PhysicalStart Entry + UsedSize > TopAddress then TopAddress - PhysicalStart Entry else UsedSize)"

definition biggest_step :: "u64 \<Rightarrow> u64 \<Rightarrow> EFI_MEMORY_DESCRIPTOR list \<Rightarrow> nat \<Rightarrow> (nat \<times> u64) option \<Rightarrow> (nat \<times> u64) option" where
  "biggest_step BaseAddress TopAddress MemoryMap i Biggest =
     (let Entry = MemoryMap ! i
      in if MemType Entry \<noteq> EfiConventionalMemory \<or> PhysicalStart Entry < BaseAddress \<or> PhysicalStart Entry \<ge> TopAddress
         then Biggest
         else (case Biggest of
                 None \<Rightarrow> Some (i, usable_size TopAddress Entry)
               | Some (_, BiggestSize) \<Rightarrow>
                   if usable_size TopAddress Entry > BiggestSize then Some (i, usable_size TopAddress Entry) else Biggest))"

definition biggest_entry :: "u64 \<Rightarrow> u64 \<Rightarrow> EFI_MEMORY_DESCRIPTOR list \<Rightarrow> (nat \<times> u64) option" where
  "biggest_entry BaseAddress TopAddress MemoryMap =
     fold (biggest_step BaseAddress TopAddress MemoryMap) [0..<length MemoryMap] None"

definition use_entry :: "nat \<Rightarrow> u64 \<Rightarrow> EFI_MEMORY_DESCRIPTOR list \<Rightarrow> EFI_MEMORY_DESCRIPTOR list" where
  "use_entry i FinalUsedSize MemoryMap =
     MemoryMap[i := (MemoryMap ! i)\<lparr>
       PhysicalStart := PhysicalStart (MemoryMap ! i) + EFI_SIZE_TO_PAGES FinalUsedSize,
       NumberOfPages := NumberOfPages (MemoryMap ! i) - EFI_SIZE_TO_PAGES FinalUsedSize\<rparr>]"

text \<open>The allocator: \<open>None\<close> is an error, otherwise its next state. The loop state is the memory map, the
  remaining size, the table, memory and the allocator.\<close>

type_synonym 's alloc_state = "EFI_MEMORY_DESCRIPTOR list \<times> u64 \<times> table_ptr \<times> mem \<times> 's"

lemma word_minus_min_less: "0 < (r :: u64) \<Longrightarrow> 0 < b \<Longrightarrow> unat (r - min b r) < unat r"
  by (auto simp: min_def unat_sub word_le_nat_alt word_less_nat_alt)

function InternalAllocateRemainingSize ::
  "('s \<Rightarrow> u64 \<Rightarrow> u64 \<Rightarrow> 's option) \<Rightarrow> u64 \<Rightarrow> u64 \<Rightarrow> 's alloc_state \<Rightarrow> 's alloc_state" where
  "InternalAllocateRemainingSize AllocatePages BaseAddress TopAddress (MemoryMap, RemainingSize, ExtentTable, m, s) =
     (if RemainingSize > 0 \<and>
         (case ExtentTable of None \<Rightarrow> True | Some (_, Table) \<Rightarrow> unat (ExtentCount Table) < APPLE_RAM_DISK_MAX_EXTENTS)
      then
        (case biggest_entry BaseAddress TopAddress MemoryMap of
           None \<Rightarrow> (MemoryMap, RemainingSize, ExtentTable, m, s)
         | Some (i, BiggestSize) \<Rightarrow>
             if BiggestSize = 0 then (MemoryMap, RemainingSize, ExtentTable, m, s)
             else
               (let FinalUsedSize = min BiggestSize RemainingSize;
                    AllocatedArea = PhysicalStart (MemoryMap ! i)
                in case AllocatePages s AllocatedArea (EFI_SIZE_TO_PAGES FinalUsedSize) of
                     None \<Rightarrow> (MemoryMap, RemainingSize, ExtentTable, m, s)
                   | Some s \<Rightarrow>
                       (let (ExtentTable, m) = InternalAddAllocatedArea ExtentTable AllocatedArea FinalUsedSize m
                        in InternalAllocateRemainingSize AllocatePages BaseAddress TopAddress
                             (use_entry i FinalUsedSize MemoryMap, RemainingSize - FinalUsedSize, ExtentTable, m, s))))
      else (MemoryMap, RemainingSize, ExtentTable, m, s))"
  by pat_completeness auto

termination
  by (relation "measure (\<lambda>(_, _, _, _, r, _). unat r)") (auto simp: word_minus_min_less word_neq_0_conv)

declare InternalAllocateRemainingSize.simps [simp del]

definition OcAppleRamDiskFree :: "('s \<Rightarrow> u64 \<Rightarrow> u64 \<Rightarrow> 's) \<Rightarrow> u64 \<times> APPLE_RAM_DISK_EXTENT_TABLE \<Rightarrow> 's \<Rightarrow> 's" where
  "OcAppleRamDiskFree FreePages = (\<lambda>(Address, Table) s.
     let s = fold (\<lambda>Index s. FreePages s (Start (Extents Table ! Index)) (EFI_SIZE_TO_PAGES (Length (Extents Table ! Index))))
               [1..<unat (ExtentCount Table)] s
     in FreePages s Address (EFI_SIZE_TO_PAGES (Length (Extents Table ! 0)) + 1))"

definition BASE_8EB :: u64 where "BASE_8EB = 0x8000000000000000"

definition InternalAppleRamDiskAllocate ::
  "('s \<Rightarrow> u64 \<Rightarrow> u64 \<Rightarrow> 's option) \<Rightarrow> ('s \<Rightarrow> u64 \<Rightarrow> u64 \<Rightarrow> 's) \<Rightarrow> EFI_MEMORY_DESCRIPTOR list option \<Rightarrow> u64 \<Rightarrow> bool \<Rightarrow>
   mem \<times> 's \<Rightarrow> table_ptr \<times> mem \<times> 's" where
  "InternalAppleRamDiskAllocate AllocatePages FreePages CurrentMap Size PreferHighMem = (\<lambda>(m, s).
     case CurrentMap of
       None \<Rightarrow> (None, m, s)
     | Some MemoryMap \<Rightarrow>
         (let (Result, RemainingSize) = BaseOverflowAddUN Size EFI_PAGE_SIZE
          in if Result then (None, m, s)
             else
               (let st = (MemoryMap, RemainingSize, None, m, s);
                    st = (if PreferHighMem then InternalAllocateRemainingSize AllocatePages BASE_4GB BASE_8EB st else st);
                    (_, RemainingSize, ExtentTable, m, s) = InternalAllocateRemainingSize AllocatePages 0 BASE_8EB st
                in case ExtentTable of
                     None \<Rightarrow> (None, m, s)
                   | Some T \<Rightarrow>
                       if RemainingSize > 0 then (None, m, OcAppleRamDiskFree FreePages T s)
                       else (Some T, m, s))))"

text \<open>The memory map is read again for the second attempt.\<close>

definition OcAppleRamDiskAllocate ::
  "('s \<Rightarrow> u64 \<Rightarrow> u64 \<Rightarrow> 's option) \<Rightarrow> ('s \<Rightarrow> u64 \<Rightarrow> u64 \<Rightarrow> 's) \<Rightarrow> ('s \<Rightarrow> EFI_MEMORY_DESCRIPTOR list option) \<Rightarrow> u64 \<Rightarrow>
   mem \<times> 's \<Rightarrow> table_ptr \<times> mem \<times> 's" where
  "OcAppleRamDiskAllocate AllocatePages FreePages GetMemoryMap Size st =
     (case InternalAppleRamDiskAllocate AllocatePages FreePages (GetMemoryMap (snd st)) Size True st of
        (None, m, s) \<Rightarrow> InternalAppleRamDiskAllocate AllocatePages FreePages (GetMemoryMap s) Size False (m, s)
      | r \<Rightarrow> r)"

subsection \<open>Access\<close>

fun RamDiskRead_loop :: "mem \<Rightarrow> APPLE_RAM_DISK_EXTENT list \<Rightarrow> u64 \<Rightarrow> u64 \<Rightarrow> u64 \<Rightarrow> byte list \<Rightarrow> bool \<times> byte list" where
  "RamDiskRead_loop m [] CurrentOffset Offset Size Buf = (False, Buf)"
| "RamDiskRead_loop m (Extent # Es) CurrentOffset Offset Size Buf =
     (if Offset \<ge> CurrentOffset \<and> Offset - CurrentOffset < Length Extent
      then
        (let LocalOffset = Offset - CurrentOffset;
             LocalSize = min (Length Extent - LocalOffset) Size;
             Buf = Buf @ mem_read m (Start Extent + LocalOffset) (unat LocalSize);
             Size = Size - LocalSize
         in if Size = 0 then (True, Buf)
            else RamDiskRead_loop m Es (CurrentOffset + Length Extent) (Offset + LocalSize) Size Buf)
      else RamDiskRead_loop m Es (CurrentOffset + Length Extent) Offset Size Buf)"

text \<open>The result and the bytes that were copied to the start of \<open>Buffer\<close>. \<open>INTERNAL_ASSERT_EXTENT_TABLE_VALID\<close> excludes more extents than the array has; the model ignores extents
  behind it.\<close>

definition OcAppleRamDiskRead :: "mem \<Rightarrow> APPLE_RAM_DISK_EXTENT_TABLE \<Rightarrow> u64 \<Rightarrow> u64 \<Rightarrow> bool \<times> byte list" where
  "OcAppleRamDiskRead m ExtentTable Offset Size =
     RamDiskRead_loop m (take (unat (ExtentCount ExtentTable)) (Extents ExtentTable)) 0 Offset Size []"

fun RamDiskWrite_loop :: "mem \<Rightarrow> APPLE_RAM_DISK_EXTENT list \<Rightarrow> u64 \<Rightarrow> u64 \<Rightarrow> u64 \<Rightarrow> byte list \<Rightarrow> bool \<times> mem" where
  "RamDiskWrite_loop m [] CurrentOffset Offset Size Buf = (False, m)"
| "RamDiskWrite_loop m (Extent # Es) CurrentOffset Offset Size Buf =
     (if Offset \<ge> CurrentOffset \<and> Offset - CurrentOffset < Length Extent
      then
        (let LocalOffset = Offset - CurrentOffset;
             LocalSize = min (Length Extent - LocalOffset) Size;
             m = mem_write m (Start Extent + LocalOffset) (take (unat LocalSize) Buf);
             Size = Size - LocalSize
         in if Size = 0 then (True, m)
            else RamDiskWrite_loop m Es (CurrentOffset + Length Extent) (Offset + LocalSize) Size (drop (unat LocalSize) Buf))
      else RamDiskWrite_loop m Es (CurrentOffset + Length Extent) Offset Size Buf)"

definition OcAppleRamDiskWrite :: "mem \<Rightarrow> APPLE_RAM_DISK_EXTENT_TABLE \<Rightarrow> u64 \<Rightarrow> u64 \<Rightarrow> byte list \<Rightarrow> bool \<times> mem" where
  "OcAppleRamDiskWrite m ExtentTable Offset Size Buffer =
     RamDiskWrite_loop m (take (unat (ExtentCount ExtentTable)) (Extents ExtentTable)) 0 Offset Size Buffer"

text \<open>
  Loading a file. \<open>SetPosition pos\<close> is an error of that call, \<open>FileRead pos n\<close> the error and the data of
  \<open>Read\<close> at that position. \<open>Inl\<close> is the memory at an early exit.
\<close>

definition BASE_4MB :: nat where "BASE_4MB = 0x400000"

function LoadFile_extent ::
  "(u64 \<Rightarrow> bool) \<Rightarrow> (u64 \<Rightarrow> nat \<Rightarrow> bool \<times> byte list) \<Rightarrow> mem \<Rightarrow> u64 \<Rightarrow> u64 \<Rightarrow> nat \<Rightarrow> nat \<Rightarrow> mem + mem \<times> u64 \<times> nat" where
  "LoadFile_extent SetPosition FileRead m FilePosition ExtentBuffer ExtentSize FileSize =
     (if FileSize > 0 \<and> ExtentSize > 0
      then if SetPosition FilePosition then Inl m
           else
             (let RequestedSize = min (min BASE_4MB FileSize) ExtentSize;
                  (Error, Dat) = FileRead FilePosition RequestedSize;
                  ReadSize = length Dat
              in if Error \<or> RequestedSize \<noteq> ReadSize then Inl m
                 else LoadFile_extent SetPosition FileRead (mem_write m ExtentBuffer Dat) (FilePosition + of_nat ReadSize)
                        (ExtentBuffer + of_nat ReadSize) (ExtentSize - ReadSize) (FileSize - ReadSize))
      else Inr (m, FilePosition, FileSize))"
  by pat_completeness auto
termination
  by (relation "measure (\<lambda>(_, _, _, _, _, _, n). n)") (auto simp: BASE_4MB_def)

declare LoadFile_extent.simps [simp del]

fun LoadFile_loop ::
  "(u64 \<Rightarrow> bool) \<Rightarrow> (u64 \<Rightarrow> nat \<Rightarrow> bool \<times> byte list) \<Rightarrow> mem \<Rightarrow> APPLE_RAM_DISK_EXTENT list \<Rightarrow> u64 \<Rightarrow> nat \<Rightarrow> bool \<times> mem" where
  "LoadFile_loop SetPosition FileRead m [] FilePosition FileSize = (FileSize = 0, m)"
| "LoadFile_loop SetPosition FileRead m (Extent # Es) FilePosition FileSize =
     (if FileSize > 0
      then (case LoadFile_extent SetPosition FileRead m FilePosition (Start Extent) (unat (Length Extent)) FileSize of
              Inl m \<Rightarrow> (False, m)
            | Inr (m, FilePosition, FileSize) \<Rightarrow> LoadFile_loop SetPosition FileRead m Es FilePosition FileSize)
      else (True, m))"

definition OcAppleRamDiskLoadFile ::
  "(u64 \<Rightarrow> bool) \<Rightarrow> (u64 \<Rightarrow> nat \<Rightarrow> bool \<times> byte list) \<Rightarrow> bool \<Rightarrow> mem \<Rightarrow> APPLE_RAM_DISK_EXTENT_TABLE \<Rightarrow> u64 \<Rightarrow> bool \<times> mem" where
  "OcAppleRamDiskLoadFile SetPosition FileRead TmpBufferAllocated m ExtentTable FileSize =
     (if \<not> TmpBufferAllocated then (False, m)
      else LoadFile_loop SetPosition FileRead m (take (unat (ExtentCount ExtentTable)) (Extents ExtentTable)) 0 (unat FileSize))"

section \<open>A disk as a list of addresses\<close>

definition extent_addrs :: "APPLE_RAM_DISK_EXTENT \<Rightarrow> u64 list" where
  "extent_addrs E = map (\<lambda>i. Start E + of_nat i) [0..<unat (Length E)]"

definition disk_addrs :: "APPLE_RAM_DISK_EXTENT list \<Rightarrow> u64 list" where
  "disk_addrs Es = concat (map extent_addrs Es)"

definition mem_upds :: "u64 list \<Rightarrow> byte list \<Rightarrow> mem \<Rightarrow> mem" where
  "mem_upds as bs m = fold (\<lambda>(a, b) m. m(a := b)) (zip as bs) m"

lemma length_extent_addrs [simp]: "length (extent_addrs E) = unat (Length E)"
  by (simp add: extent_addrs_def)

lemma disk_addrs_simps [simp]: "disk_addrs [] = []" "disk_addrs (E # Es) = extent_addrs E @ disk_addrs Es"
  by (simp_all add: disk_addrs_def)

lemma length_disk_addrs: "length (disk_addrs Es) = (\<Sum>E\<leftarrow>Es. unat (Length E))"
  by (induction Es) simp_all

lemma extent_window:
  assumes "r + n \<le> unat (Length E)"
  shows "window (extent_addrs E) r n = map (\<lambda>i. Start E + of_nat r + of_nat i) [0..<n]"
  using assms by (intro nth_equalityI) (simp_all add: extent_addrs_def add.assoc)

lemma mem_read_window:
  "r + n \<le> unat (Length E) \<Longrightarrow> mem_read m (Start E + of_nat r) n = map m (window (extent_addrs E) r n)"
  by (simp add: extent_window mem_read_def)

lemma mem_write_upds: "mem_write m a bs = mem_upds (map (\<lambda>i. a + of_nat i) [0..<length bs]) bs m"
proof -
  have "zip (map (\<lambda>i. a + of_nat i) [0..<length bs]) bs = map (\<lambda>i. (a + of_nat i, bs ! i)) [0..<length bs]"
    by (intro nth_equalityI) simp_all
  then show ?thesis by (simp add: mem_write_def mem_upds_def fold_map comp_def)
qed

lemma mem_write_window:
  assumes "r + length bs \<le> unat (Length E)"
  shows "mem_write m (Start E + of_nat r) bs = mem_upds (window (extent_addrs E) r (length bs)) bs m"
  using assms by (simp add: mem_write_upds extent_window)

lemma mem_upds_append:
  "length as = length bs \<Longrightarrow> mem_upds (as @ as') (bs @ bs') m = mem_upds as' bs' (mem_upds as bs m)"
  by (simp add: mem_upds_def)

lemma mem_upds_other: "a \<notin> set as \<Longrightarrow> mem_upds as bs m a = m a"
proof (induction as arbitrary: bs m)
  case (Cons x as)
  then show ?case by (cases bs) (simp_all add: mem_upds_def)
qed (simp add: mem_upds_def)

lemma mem_upds_same: "distinct as \<Longrightarrow> length bs = length as \<Longrightarrow> map (mem_upds as bs m) as = bs"
proof (induction as arbitrary: bs m)
  case (Cons x as)
  then obtain b bs' where bs: "bs = b # bs'" by (cases bs) auto
  have "mem_upds (x # as) bs m = mem_upds as bs' (m(x := b))" by (simp add: bs mem_upds_def)
  then show ?case using Cons mem_upds_other[of x as bs' "m(x := b)"] by (simp add: bs)
qed (simp add: mem_upds_def)

section \<open>Access across extents\<close>

lemma window_append:
  "r \<ge> length xs \<Longrightarrow> window (xs @ ys) r n = window ys (r - length xs) n"
  "r + n \<le> length xs \<Longrightarrow> window (xs @ ys) r n = window xs r n"
  "r \<le> length xs \<Longrightarrow> length xs \<le> r + n \<Longrightarrow> window (xs @ ys) r n = window xs r (length xs - r) @ window ys 0 (n - (length xs - r))"
  by (simp_all add: window_def)

lemma unat_min: "unat (min (a :: u64) b) = min (unat a) (unat b)"
  by (simp add: min_def word_le_nat_alt)

text \<open>One step of the walk, for an offset that is not before the current extent.\<close>

lemma extent_step:
  assumes "(Cur :: u64) \<le> Off" "unat Cur + unat (L :: u64) < 2 ^ 64"
  defines "r \<equiv> unat Off - unat Cur"
  shows "Off - Cur = of_nat r" "Off - Cur < L \<longleftrightarrow> r < unat L" "unat (Cur + L) = unat Cur + unat L"
    and "r < unat L \<Longrightarrow> unat (min (L - (Off - Cur)) Size) = min (unat L - r) (unat Size)"
    and "r < unat L \<Longrightarrow> unat Size \<le> unat L - r \<Longrightarrow> Size - min (L - (Off - Cur)) Size = 0"
    and "r < unat L \<Longrightarrow> unat L - r < unat Size \<Longrightarrow>
      Off + min (L - (Off - Cur)) Size = Cur + L \<and> unat (Size - min (L - (Off - Cur)) Size) = unat Size - (unat L - r)"
    and "unat L \<le> r \<Longrightarrow> Cur + L \<le> Off"
proof -
  have a: "unat (Off - Cur) = r" unfolding r_def using assms(1) by (rule unat_minus_no_wrap)
  show "Off - Cur = of_nat r" unfolding a[symmetric] by simp
  show lt: "Off - Cur < L \<longleftrightarrow> r < unat L" by (simp add: word_less_nat_alt a)
  show c: "unat (Cur + L) = unat Cur + unat L" using assms(2) by (intro unat_plus_no_wrap) simp
  have d: "unat (L - (Off - Cur)) = unat L - r" if "r < unat L"
    using that lt by (subst unat_minus_no_wrap) (simp_all add: a)
  then show e: "unat (min (L - (Off - Cur)) Size) = min (unat L - r) (unat Size)" if "r < unat L" using that by (simp add: unat_min)
  show "Size - min (L - (Off - Cur)) Size = 0" if "r < unat L" "unat Size \<le> unat L - r"
  proof -
    have "min (L - (Off - Cur)) Size = Size" using e[OF that(1)] that(2) by (simp add: word_unat_eq_iff)
    then show ?thesis by simp
  qed
  show "Off + min (L - (Off - Cur)) Size = Cur + L \<and> unat (Size - min (L - (Off - Cur)) Size) = unat Size - (unat L - r)"
    if "r < unat L" "unat L - r < unat Size"
  proof -
    have "unat (L - (Off - Cur)) < unat Size" using d that by simp
    then have "min (L - (Off - Cur)) Size = L - (Off - Cur)" by (simp add: min_def word_le_nat_alt)
    moreover have "unat (Size - (L - (Off - Cur))) = unat Size - unat (L - (Off - Cur))"
      using \<open>unat (L - (Off - Cur)) < unat Size\<close> by (intro unat_minus_no_wrap) (simp add: word_le_nat_alt)
    ultimately show ?thesis using d[OF that(1)] by simp
  qed
  show "Cur + L \<le> Off" if "unat L \<le> r" using that c assms(1) by (simp add: word_le_nat_alt r_def)
qed

lemma RamDiskRead_loop_eq:
  "Cur \<le> Off \<Longrightarrow> unat Cur + length (disk_addrs Es) < 2 ^ 64 \<Longrightarrow> 0 < Size \<Longrightarrow>
   RamDiskRead_loop m Es Cur Off Size Buf =
     (unat Off - unat Cur + unat Size \<le> length (disk_addrs Es),
      Buf @ map m (window (disk_addrs Es) (unat Off - unat Cur) (unat Size)))"
proof (induction Es arbitrary: Cur Off Size Buf)
  case Nil
  then show ?case by (simp add: window_def word_less_nat_alt)
next
  case (Cons E Es)
  let ?r = "unat Off - unat Cur" and ?L = "unat (Length E)"
  have b: "unat Cur + ?L < 2 ^ 64" and S: "0 < unat Size" using Cons.prems(2,3) by (simp_all add: word_less_nat_alt)
  note st = extent_step[OF Cons.prems(1) b]
  have next_ok: "unat (Cur + Length E) + length (disk_addrs Es) < 2 ^ 64" using Cons.prems(2) st(3) by simp
  consider "?r < ?L" "unat Size \<le> ?L - ?r" | "?r < ?L" "?L - ?r < unat Size" | "?L \<le> ?r" by linarith
  then show ?case
  proof cases
    case 1
    then show ?thesis using Cons.prems(1) st(1,2,4,5) mem_read_window[of ?r "unat Size" E m]
      by (simp add: Let_def min_def window_append(2))
  next
    case 2
    define LS where "LS = min (Length E - (Off - Cur)) Size"
    have n: "Off + LS = Cur + Length E" "unat (Size - LS) = unat Size - (?L - ?r)" "unat LS = ?L - ?r"
      unfolding LS_def using st(6)[OF 2] st(4)[OF 2(1), of Size] 2 by simp_all
    then have p: "0 < Size - LS" "Size - LS \<noteq> 0" using 2 by (auto simp: word_less_nat_alt)
    have w: "window (disk_addrs (E # Es)) ?r (unat Size) =
        window (extent_addrs E) ?r (?L - ?r) @ window (disk_addrs Es) 0 (unat Size - (?L - ?r))"
      using 2 window_append(3)[of ?r "extent_addrs E" "unat Size" "disk_addrs Es"] by simp
    have i: "RamDiskRead_loop m Es (Cur + Length E) (Cur + Length E) (Size - LS) B =
        (unat Size - (?L - ?r) \<le> length (disk_addrs Es), B @ map m (window (disk_addrs Es) 0 (unat Size - (?L - ?r))))" for B
      using Cons.IH[OF order_refl next_ok p(1)] n(2) by simp
    have "unat Size - (?L - ?r) \<le> length (disk_addrs Es) \<longleftrightarrow> ?r + unat Size \<le> length (disk_addrs (E # Es))" using 2 by auto
    then show ?thesis unfolding RamDiskRead_loop.simps Let_def LS_def[symmetric] n(1,3) i w
      using 2 Cons.prems(1) st(1,2) p(2) mem_read_window[of ?r "?L - ?r" E m] by simp
  next
    case 3
    have "unat Off - unat (Cur + Length E) = ?r - ?L" using st(3) by simp
    then show ?thesis using 3 Cons.prems(1) st(2,7) Cons.IH[OF st(7)[OF 3] next_ok Cons.prems(3), of Buf]
        window_append(1)[of "extent_addrs E" ?r "disk_addrs Es" "unat Size"] by auto
  qed
qed

lemma RamDiskWrite_loop_eq:
  "Cur \<le> Off \<Longrightarrow> unat Cur + length (disk_addrs Es) < 2 ^ 64 \<Longrightarrow> 0 < Size \<Longrightarrow> unat Size \<le> length Buf \<Longrightarrow>
   RamDiskWrite_loop m Es Cur Off Size Buf =
     (unat Off - unat Cur + unat Size \<le> length (disk_addrs Es),
      mem_upds (window (disk_addrs Es) (unat Off - unat Cur) (unat Size)) Buf m)"
proof (induction Es arbitrary: Cur Off Size Buf m)
  case Nil
  then show ?case by (simp add: window_def word_less_nat_alt mem_upds_def)
next
  case (Cons E Es)
  let ?r = "unat Off - unat Cur" and ?L = "unat (Length E)"
  have b: "unat Cur + ?L < 2 ^ 64" and S: "0 < unat Size" using Cons.prems(2,3) by (simp_all add: word_less_nat_alt)
  note st = extent_step[OF Cons.prems(1) b]
  have next_ok: "unat (Cur + Length E) + length (disk_addrs Es) < 2 ^ 64" using Cons.prems(2) st(3) by simp
  have wr: "mem_write m (Start E + of_nat ?r) (take n Buf) = mem_upds (window (extent_addrs E) ?r n) (take n Buf) m"
    if "?r + n \<le> ?L" "n \<le> unat Size" for n
    using that Cons.prems(4) mem_write_window[of ?r "take n Buf" E m] by simp
  have tk: "mem_upds as (take (length as) Buf) m = mem_upds as Buf m" for as
    using take_zip[of "length as" as Buf] by (simp add: mem_upds_def)
  consider "?r < ?L" "unat Size \<le> ?L - ?r" | "?r < ?L" "?L - ?r < unat Size" | "?L \<le> ?r" by linarith
  then show ?case
  proof cases
    case 1
    then have l: "length (window (extent_addrs E) ?r (unat Size)) = unat Size" by simp
    have "unat (min (Length E - (Off - Cur)) Size) = unat Size" using st(4)[OF 1(1), of Size] 1(2) by simp
    then show ?thesis using 1 Cons.prems(1) st(1,2,5) wr[of "unat Size"] tk[of "window (extent_addrs E) ?r (unat Size)"]
      unfolding RamDiskWrite_loop.simps Let_def l by (simp add: window_append(2))
  next
    case 2
    define LS where "LS = min (Length E - (Off - Cur)) Size"
    have n: "Off + LS = Cur + Length E" "unat (Size - LS) = unat Size - (?L - ?r)" "unat LS = ?L - ?r"
      unfolding LS_def using st(6)[OF 2] st(4)[OF 2(1), of Size] 2 by simp_all
    then have p: "0 < Size - LS" "Size - LS \<noteq> 0" using 2 by (auto simp: word_less_nat_alt)
    have w: "window (disk_addrs (E # Es)) ?r (unat Size) =
        window (extent_addrs E) ?r (?L - ?r) @ window (disk_addrs Es) 0 (unat Size - (?L - ?r))"
      using 2 window_append(3)[of ?r "extent_addrs E" "unat Size" "disk_addrs Es"] by simp
    have bl: "unat (Size - LS) \<le> length (drop (?L - ?r) Buf)" using n(2) Cons.prems(4) by simp
    have i: "RamDiskWrite_loop m' Es (Cur + Length E) (Cur + Length E) (Size - LS) (drop (?L - ?r) Buf) =
        (unat Size - (?L - ?r) \<le> length (disk_addrs Es), mem_upds (window (disk_addrs Es) 0 (unat Size - (?L - ?r))) (drop (?L - ?r) Buf) m')" for m'
      using Cons.IH[OF order_refl next_ok p(1) bl] n(2) by simp
    have "unat Size - (?L - ?r) \<le> length (disk_addrs Es) \<longleftrightarrow> ?r + unat Size \<le> length (disk_addrs (E # Es))" using 2 by auto
    moreover have "mem_upds (window (disk_addrs Es) 0 (unat Size - (?L - ?r))) (drop (?L - ?r) Buf)
        (mem_upds (window (extent_addrs E) ?r (?L - ?r)) (take (?L - ?r) Buf) m) =
      mem_upds (window (extent_addrs E) ?r (?L - ?r) @ window (disk_addrs Es) 0 (unat Size - (?L - ?r))) Buf m"
      using 2 Cons.prems(4) mem_upds_append[of "window (extent_addrs E) ?r (?L - ?r)" "take (?L - ?r) Buf" _ "drop (?L - ?r) Buf" m] by simp
    ultimately show ?thesis unfolding RamDiskWrite_loop.simps Let_def LS_def[symmetric] n(1,3) i w
      using 2 Cons.prems(1) st(1,2) p(2) wr[of "?L - ?r"] by simp
  next
    case 3
    have "unat Off - unat (Cur + Length E) = ?r - ?L" using st(3) by simp
    then show ?thesis using 3 Cons.prems(1) st(2,7) Cons.IH[OF st(7)[OF 3] next_ok Cons.prems(3,4), of m]
        window_append(1)[of "extent_addrs E" ?r "disk_addrs Es" "unat Size"] by auto
  qed
qed

section \<open>Loading a file\<close>

text \<open>A file whose contents are \<open>F\<close>: positions can be set and reads inside the file return its bytes.\<close>

definition file_ok :: "byte list \<Rightarrow> (u64 \<Rightarrow> bool) \<Rightarrow> (u64 \<Rightarrow> nat \<Rightarrow> bool \<times> byte list) \<Rightarrow> bool" where
  "file_ok F SetPosition FileRead \<longleftrightarrow> length F < 2 ^ 64 \<and>
     (\<forall>pos n. unat pos + n \<le> length F \<longrightarrow> \<not> SetPosition pos \<and> FileRead pos n = (False, window F (unat pos) n))"

lemma window_split: "k \<le> n \<Longrightarrow> window xs r n = window xs r k @ window xs (r + k) (n - k)"
  using take_add[of k "n - k" "drop r xs"] by (simp add: window_def add.commute)

lemma mem_upds_take: "mem_upds as bs m = mem_upds (take (length bs) as) bs m"
  using take_zip[of "length bs" as bs] by (simp add: mem_upds_def)

lemma LoadFile_extent_eq:
  assumes F: "file_ok F SetPosition FileRead"
  shows "unat pos + FileSize = length F \<Longrightarrow> r + ExtentSize = unat (Length E) \<Longrightarrow>
    LoadFile_extent SetPosition FileRead m pos (Start E + of_nat r) ExtentSize FileSize =
      (let n = min FileSize ExtentSize
       in Inr (mem_upds (window (extent_addrs E) r n) (window F (unat pos) n) m, pos + of_nat n, FileSize - n))"
proof (induction FileSize arbitrary: m pos r ExtentSize rule: less_induct)
  case (less FileSize)
  show ?case
  proof (cases "FileSize > 0 \<and> ExtentSize > 0")
    case True
    define n where "n = min (min BASE_4MB FileSize) ExtentSize"
    define k where "k = min FileSize ExtentSize"
    have n: "0 < n" "n \<le> FileSize" "n \<le> ExtentSize" "n \<le> k" using True by (simp_all add: n_def k_def BASE_4MB_def)
    let ?D = "window F (unat pos) n"
    have "unat pos + n \<le> length F" using less.prems(1) n(2) by simp
    then have rd: "\<not> SetPosition pos" "FileRead pos n = (False, ?D)" using F by (auto simp: file_ok_def)
    have lD: "length ?D = n" using less.prems(1) n(2) by simp
    have p: "unat (pos + of_nat n) = unat pos + n"
    proof -
      have "unat pos + n < 2 ^ 64" using less.prems(1) n(2) F by (simp add: file_ok_def)
      then have "unat (of_nat n :: u64) = n" by (simp add: unat_of_nat)
      then show ?thesis using \<open>unat pos + n < 2 ^ 64\<close> by (subst unat_plus_no_wrap) simp_all
    qed
    have step: "LoadFile_extent SetPosition FileRead m pos (Start E + of_nat r) ExtentSize FileSize =
        LoadFile_extent SetPosition FileRead (mem_write m (Start E + of_nat r) ?D) (pos + of_nat n) (Start E + of_nat (r + n))
          (ExtentSize - n) (FileSize - n)"
      using True rd lD by (subst LoadFile_extent.simps) (simp add: Let_def n_def[symmetric] add.assoc)
    have m': "mem_write m (Start E + of_nat r) ?D = mem_upds (window (extent_addrs E) r n) ?D m"
      using mem_write_window[of r ?D E m] lD less.prems(2) n(3) by simp
    have k': "min (FileSize - n) (ExtentSize - n) = k - n" using n by (simp add: k_def min_def)
    have "mem_upds (window (extent_addrs E) (r + n) (k - n)) (window F (unat pos + n) (k - n)) (mem_upds (window (extent_addrs E) r n) ?D m) =
        mem_upds (window (extent_addrs E) r k) (window F (unat pos) k) m"
      using window_split[OF n(4), of "extent_addrs E" r] window_split[OF n(4), of F "unat pos"] lD less.prems(2) n(3)
      by (simp add: mem_upds_append)
    moreover have "pos + of_nat n + of_nat (k - n) = pos + of_nat k" using n(4) by (simp add: add.assoc of_nat_add[symmetric] del: of_nat_add)
    moreover have "FileSize - n - (k - n) = FileSize - k" using n(4) by simp
    ultimately show ?thesis
      using less.IH[of "FileSize - n" "pos + of_nat n" "r + n" "ExtentSize - n" "mem_upds (window (extent_addrs E) r n) ?D m"]
        less.prems n p k' unfolding step m' by (simp add: Let_def k_def)
  next
    case False
    then have "min FileSize ExtentSize = 0" by auto
    then show ?thesis using False by (subst LoadFile_extent.simps) (auto simp: window_def mem_upds_def)
  qed
qed

lemma LoadFile_loop_eq:
  assumes F: "file_ok F SetPosition FileRead"
  shows "unat pos + FileSize = length F \<Longrightarrow>
    LoadFile_loop SetPosition FileRead m Es pos FileSize =
      (FileSize \<le> length (disk_addrs Es), mem_upds (disk_addrs Es) (drop (unat pos) F) m)"
proof (induction Es arbitrary: m pos FileSize)
  case Nil
  then show ?case by (simp add: mem_upds_def)
next
  case (Cons E Es)
  let ?L = "unat (Length E)" and ?n = "min FileSize (unat (Length E))"
  show ?case
  proof (cases "FileSize = 0")
    case True
    then show ?thesis using Cons.prems by (simp add: mem_upds_def)
  next
    case False
    have "unat pos + ?n < 2 ^ 64" using Cons.prems F by (auto simp: file_ok_def)
    then have p: "unat (pos + of_nat ?n) = unat pos + ?n"
      by (subst unat_plus_no_wrap) (simp_all add: unat_of_nat)
    have f: "unat (pos + of_nat ?n) + (FileSize - ?n) = length F" using Cons.prems p by simp
    have e: "LoadFile_extent SetPosition FileRead m pos (Start E) ?L FileSize =
        Inr (mem_upds (window (extent_addrs E) 0 ?n) (window F (unat pos) ?n) m, pos + of_nat ?n, FileSize - ?n)"
      using LoadFile_extent_eq[OF F Cons.prems, of 0 ?L E m] by (simp add: Let_def)
    have "mem_upds (disk_addrs Es) (drop (unat pos + ?n) F) (mem_upds (window (extent_addrs E) 0 ?n) (window F (unat pos) ?n) m) =
        mem_upds (disk_addrs (E # Es)) (drop (unat pos) F) m"
    proof (cases "FileSize \<le> ?L")
      case True
      then have d: "drop (unat pos + ?n) F = []" "window F (unat pos) ?n = drop (unat pos) F" "length (drop (unat pos) F) = ?n"
        using Cons.prems by (simp_all add: window_def)
      have "take ?n (disk_addrs (E # Es)) = window (extent_addrs E) 0 ?n" using True by (simp add: window_def)
      then have "mem_upds (disk_addrs (E # Es)) (drop (unat pos) F) m = mem_upds (window (extent_addrs E) 0 ?n) (drop (unat pos) F) m"
        using mem_upds_take[of "disk_addrs (E # Es)" "drop (unat pos) F" m] d(3) by simp
      then show ?thesis using d(1,2) by (simp add: mem_upds_def)
    next
      case False
      then have "?n = ?L" by simp
      then show ?thesis
        using Cons.prems False mem_upds_append[of "extent_addrs E" "window F (unat pos) ?L" "disk_addrs Es" "drop (unat pos + ?L) F" m]
        unfolding \<open>?n = ?L\<close> by (simp add: drop_window[of "unat pos" F ?L, symmetric]) (simp add: window_def)
    qed
    then show ?thesis using False Cons.IH[OF f] e p by (auto simp: min_def)
  qed
qed

section \<open>Allocation\<close>

definition addr_range :: "u64 \<Rightarrow> nat \<Rightarrow> u64 list" where
  "addr_range a n = map (\<lambda>i. a + of_nat i) [0..<n]"

text \<open>What \<open>AllocatePages\<close> promises: the pages were not in use and are in use afterwards.\<close>

definition alloc_ok :: "('s \<Rightarrow> u64 \<Rightarrow> u64 \<Rightarrow> 's option) \<Rightarrow> ('s \<Rightarrow> u64 set) \<Rightarrow> bool" where
  "alloc_ok AllocatePages owned \<longleftrightarrow>
     (\<forall>s a n s'. AllocatePages s a n = Some s' \<longrightarrow>
        set (addr_range a (4096 * unat n)) \<inter> owned s = {} \<and> set (addr_range a (4096 * unat n)) \<union> owned s \<subseteq> owned s')"

definition table_form :: "APPLE_RAM_DISK_EXTENT_TABLE \<Rightarrow> bool" where
  "table_form T \<longleftrightarrow> Signature T = APPLE_RAM_DISK_EXTENT_SIGNATURE \<and> Version T = APPLE_RAM_DISK_EXTENT_VERSION \<and>
     Reserved T = 0 \<and> Signature2 T = APPLE_RAM_DISK_EXTENT_SIGNATURE \<and>
     length (Extents T) = APPLE_RAM_DISK_MAX_EXTENTS \<and> unat (ExtentCount T) \<le> APPLE_RAM_DISK_MAX_EXTENTS"

text \<open>The conditions of \<open>INTERNAL_ASSERT_EXTENT_TABLE_VALID\<close>; a table without extents only exists while the disk is allocated.\<close>

definition table_ok :: "APPLE_RAM_DISK_EXTENT_TABLE \<Rightarrow> bool" where
  "table_ok T \<longleftrightarrow> table_form T \<and> 0 < ExtentCount T"

definition table_addrs :: "APPLE_RAM_DISK_EXTENT_TABLE \<Rightarrow> u64 list" where
  "table_addrs T = disk_addrs (take (unat (ExtentCount T)) (Extents T))"

lemma addr_range_append: "addr_range a (k + n) = addr_range a k @ addr_range (a + of_nat k) n"
  by (intro nth_equalityI) (auto simp: addr_range_def nth_append)

lemma length_addr_range [simp]: "length (addr_range a n) = n"
  by (simp add: addr_range_def)

lemma extent_addrs_range: "extent_addrs E = addr_range (Start E) (unat (Length E))"
  by (simp add: extent_addrs_def addr_range_def)

lemma distinct_addr_range: "n \<le> 2 ^ 64 \<Longrightarrow> distinct (addr_range a n)"
  by (auto simp: addr_range_def distinct_map inj_on_def word_of_nat_eq_iff take_bit_eq_mod)

lemma addr_range_mono: "k \<le> n \<Longrightarrow> set (addr_range a k) \<subseteq> set (addr_range a n)"
  by (auto simp: addr_range_def)

lemma unat_SIZE_TO_PAGES: "unat (EFI_SIZE_TO_PAGES S) = unat S div 4096 + (if unat S mod 4096 = 0 then 0 else 1)"
proof -
  have "S AND 0xFFF = take_bit 12 S" by (simp add: take_bit_eq_mask mask_eq_exp_minus_1)
  then have "unat (S AND 0xFFF) = unat S mod 4096"
    by (simp add: unsigned_take_bit_eq take_bit_eq_mod unat_mod_distrib)
  then have z: "S AND 0xFFF = 0 \<longleftrightarrow> unat S mod 4096 = 0" by (simp add: word_unat_eq_iff)
  have d: "unat (drop_bit 12 S) = unat S div 4096" by (simp add: unat_drop_bit)
  have lt: "unat S div 4096 < 2 ^ 52" using unat_less_2pow[of S] by (simp add: less_mult_imp_div_less)
  show ?thesis using lt by (auto simp: EFI_SIZE_TO_PAGES_def z d unat_plus_no_wrap)
qed

lemma pages_cover: "unat S \<le> 4096 * unat (EFI_SIZE_TO_PAGES S)"
proof -
  have "unat S = 4096 * (unat S div 4096) + unat S mod 4096" "unat S mod 4096 < 4096" by simp_all
  then show ?thesis unfolding unat_SIZE_TO_PAGES by (cases "unat S mod 4096 = 0") (simp_all add: distrib_left)
qed

lemma biggest_entry_Some:
  assumes "biggest_entry Base Top Mp = Some (i, b)"
  shows "i < length Mp \<and> b = usable_size Top (Mp ! i) \<and> PhysicalStart (Mp ! i) < Top"
proof -
  let ?P = "\<lambda>k r. \<forall>i b. r = Some (i, b) \<longrightarrow> i < length Mp \<and> b = usable_size Top (Mp ! i) \<and> PhysicalStart (Mp ! i) < Top"
  have "?P (length Mp) (biggest_entry Base Top Mp)" unfolding biggest_entry_def
    by (rule fold_upt_inv[where P = ?P]) (auto simp: biggest_step_def Let_def not_le split: if_splits option.splits)
  then show ?thesis using assms by blast
qed

lemma usable_size_pages:
  assumes "4096 dvd unat Top" "4096 dvd unat (PhysicalStart D)" "PhysicalStart D < Top"
  shows "4096 dvd unat (usable_size Top D)"
proof -
  have "4096 dvd unat (EFI_PAGES_TO_SIZE n)" for n
  proof -
    have "(4096::nat) dvd 2 ^ 64" by simp
    then show ?thesis by (simp add: EFI_PAGES_TO_SIZE_def unat_push_bit dvd_mod)
  qed
  moreover have "unat (Top - PhysicalStart D) = unat Top - unat (PhysicalStart D)"
    using assms(3) by (intro unat_minus_no_wrap) simp
  ultimately show ?thesis using assms by (simp add: usable_size_def Let_def)
qed

text \<open>The invariant of the allocation: what the table describes and the remaining size make up the tot,
  the page of the table and the extents do not overlap and belong to the disk.\<close>

definition alloc_inv :: "('s \<Rightarrow> u64 set) \<Rightarrow> nat \<Rightarrow> 's alloc_state \<Rightarrow> bool" where
  "alloc_inv owned tot = (\<lambda>(MemoryMap, RemainingSize, ExtentTable, m, s).
     case ExtentTable of
       None \<Rightarrow> unat RemainingSize = tot \<and> (\<forall>D \<in> set MemoryMap. 4096 dvd unat (PhysicalStart D))
     | Some (a, T) \<Rightarrow> table_form T \<and> length (table_addrs T) + 4096 + unat RemainingSize = tot \<and>
         distinct (addr_range a 4096 @ table_addrs T) \<and> set (addr_range a 4096 @ table_addrs T) \<subseteq> owned s)"

lemma add_extent_ok:
  assumes "table_form T" "unat (ExtentCount T) < APPLE_RAM_DISK_MAX_EXTENTS"
  shows "table_form (add_extent a n T)" "table_addrs (add_extent a n T) = table_addrs T @ addr_range a (unat n)"
proof -
  have "unat (ExtentCount T) + 1 < 2 ^ 32" using assms(2) by (simp add: APPLE_RAM_DISK_MAX_EXTENTS_def)
  then have c: "unat (ExtentCount T + 1) = Suc (unat (ExtentCount T))" by (subst unat_plus_no_wrap) simp_all
  have l: "unat (ExtentCount T) < length (Extents T)" using assms by (simp add: table_form_def)
  show "table_form (add_extent a n T)" using assms c by (simp add: table_form_def add_extent_def)
  show "table_addrs (add_extent a n T) = table_addrs T @ addr_range a (unat n)"
    using c l by (simp add: table_addrs_def add_extent_def take_Suc_conv_app_nth disk_addrs_def extent_addrs_range)
qed

definition new_table :: APPLE_RAM_DISK_EXTENT_TABLE where
  "new_table = zero_table\<lparr>Signature := APPLE_RAM_DISK_EXTENT_SIGNATURE, Version := APPLE_RAM_DISK_EXTENT_VERSION,
     Signature2 := APPLE_RAM_DISK_EXTENT_SIGNATURE\<rparr>"

lemma new_table_ok: "table_form new_table" "table_addrs new_table = []" "unat (ExtentCount new_table) < APPLE_RAM_DISK_MAX_EXTENTS"
  by (simp_all add: new_table_def zero_table_def table_form_def table_addrs_def APPLE_RAM_DISK_MAX_EXTENTS_def)

lemma AddAllocatedArea_inv:
  assumes inv: "alloc_inv owned tot (Mp, rem, tab, m, s)" and tot: "4096 \<le> tot"
    and room: "case tab of None \<Rightarrow> True | Some (_, T) \<Rightarrow> unat (ExtentCount T) < APPLE_RAM_DISK_MAX_EXTENTS"
    and b: "b \<noteq> 0" "tab = None \<Longrightarrow> 4096 dvd unat b"
    and own: "set (addr_range area (4096 * unat (EFI_SIZE_TO_PAGES (min b rem)))) \<inter> owned s = {}"
      "set (addr_range area (4096 * unat (EFI_SIZE_TO_PAGES (min b rem)))) \<union> owned s \<subseteq> owned s'"
    and r: "InternalAddAllocatedArea tab area (min b rem) m = (tab', m')"
  shows "alloc_inv owned tot (Mp', rem - min b rem, tab', m', s')"
proof -
  let ?F = "min b rem"
  have F: "unat ?F \<le> unat rem" "unat (rem - ?F) = unat rem - unat ?F"
    by (simp_all add: min_def word_le_nat_alt unat_minus_no_wrap)
  have reg: "set (addr_range area (unat ?F)) \<inter> owned s = {}" "set (addr_range area (unat ?F)) \<subseteq> owned s'"
    using own addr_range_mono[OF pages_cover[of ?F], of area] by auto
  have dist: "distinct (addr_range area (unat ?F))"
    using unat_less_2pow[of ?F] by (intro distinct_addr_range) simp
  show ?thesis
  proof (cases tab)
    case None
    have u: "unat rem = tot" using inv None by (simp add: alloc_inv_def)
    have "4096 \<le> unat b" using b None by (intro dvd_imp_le) (auto simp: unat_gt_0)
    then have F4: "4096 \<le> unat ?F" using u tot by (simp add: unat_min)
    then have d: "unat (?F - EFI_PAGE_SIZE) = unat ?F - 4096"
      by (subst unat_minus_no_wrap) (simp_all add: EFI_PAGE_SIZE_def word_le_nat_alt)
    define T where "T = (if ?F - EFI_PAGE_SIZE = 0 then new_table else add_extent (area + EFI_PAGE_SIZE) (?F - EFI_PAGE_SIZE) new_table)"
    have tab': "tab' = Some (area, T)"
      using r None by (auto simp: InternalAddAllocatedArea_def Let_def T_def new_table_def split: if_splits)
    have T: "table_form T" "table_addrs T = addr_range (area + EFI_PAGE_SIZE) (unat (?F - EFI_PAGE_SIZE))"
      using new_table_ok add_extent_ok[OF new_table_ok(1,3)] by (auto simp: T_def addr_range_def)
    have e: "addr_range area 4096 @ table_addrs T = addr_range area (unat ?F)"
      using addr_range_append[of area 4096 "unat ?F - 4096"] F4 d by (simp add: T(2) EFI_PAGE_SIZE_def)
    have "length (table_addrs T) + 4096 + unat (rem - ?F) = tot" using T(2) d F4 F u by simp
    then show ?thesis unfolding alloc_inv_def tab' prod.case option.case e using T(1) reg(2) dist by simp
  next
    case (Some at)
    obtain a T where at: "tab = Some (a, T)" using Some by (cases at) auto
    have I: "table_form T" "length (table_addrs T) + 4096 + unat rem = tot" "distinct (addr_range a 4096 @ table_addrs T)"
      "set (addr_range a 4096 @ table_addrs T) \<subseteq> owned s" using inv by (simp_all add: alloc_inv_def at)
    have c: "unat (ExtentCount T) < APPLE_RAM_DISK_MAX_EXTENTS" using room by (simp add: at)
    have tab': "tab' = Some (a, add_extent area ?F T)" using r by (auto simp: at InternalAddAllocatedArea_def Let_def)
    have "owned s \<subseteq> owned s'" using own(2) by blast
    moreover have "distinct (addr_range a 4096 @ table_addrs T @ addr_range area (unat ?F))"
      using I(3,4) dist reg(1) by auto
    ultimately show ?thesis
      using I F add_extent_ok[OF I(1) c, of area ?F] reg(2) by (auto simp: alloc_inv_def tab')
  qed
qed

lemma AllocateRemainingSize_inv:
  "alloc_ok AllocatePages owned \<Longrightarrow> alloc_inv owned tot st \<Longrightarrow> 4096 \<le> tot \<Longrightarrow> 4096 dvd unat Top \<Longrightarrow>
   alloc_inv owned tot (InternalAllocateRemainingSize AllocatePages Base Top st)"
proof (induction AllocatePages Base Top st rule: InternalAllocateRemainingSize.induct)
  case (1 AllocatePages Base Top Mp rem tab m s)
  show ?case
  proof (cases "rem > 0 \<and> (case tab of None \<Rightarrow> True | Some (_, T) \<Rightarrow> unat (ExtentCount T) < APPLE_RAM_DISK_MAX_EXTENTS)")
    case go: True
    show ?thesis
    proof (cases "biggest_entry Base Top Mp")
      case None
      then show ?thesis using 1(3) by (subst InternalAllocateRemainingSize.simps) simp
    next
      case (Some ib)
      obtain i b where ib: "biggest_entry Base Top Mp = Some (i, b)" using Some by (cases ib) auto
      note B = biggest_entry_Some[OF ib]
      show ?thesis
      proof (cases "b = 0 \<or> AllocatePages s (PhysicalStart (Mp ! i)) (EFI_SIZE_TO_PAGES (min b rem)) = None")
        case True
        then show ?thesis using 1(3) ib by (subst InternalAllocateRemainingSize.simps) (auto simp: Let_def)
      next
        case False
        then obtain s' where s': "AllocatePages s (PhysicalStart (Mp ! i)) (EFI_SIZE_TO_PAGES (min b rem)) = Some s'" and b0: "b \<noteq> 0" by auto
        obtain tab' m' where a: "InternalAddAllocatedArea tab (PhysicalStart (Mp ! i)) (min b rem) m = (tab', m')" by fastforce
        have own: "set (addr_range (PhysicalStart (Mp ! i)) (4096 * unat (EFI_SIZE_TO_PAGES (min b rem)))) \<inter> owned s = {}"
          "set (addr_range (PhysicalStart (Mp ! i)) (4096 * unat (EFI_SIZE_TO_PAGES (min b rem)))) \<union> owned s \<subseteq> owned s'"
          using 1(2) s' unfolding alloc_ok_def by blast+
        have d: "4096 dvd unat b" if "tab = None"
          using 1(3,5) B that by (auto simp: alloc_inv_def intro!: usable_size_pages)
        have "alloc_inv owned tot (use_entry i (min b rem) Mp, rem - min b rem, tab', m', s')"
          using AddAllocatedArea_inv[OF 1(3,4) _ b0 d own a] go by simp
        with 1(1)[OF go ib refl b0 refl refl s' a[symmetric] refl 1(2)] 1(4,5) go ib b0 s' a
        show ?thesis by (subst InternalAllocateRemainingSize.simps) (simp add: Let_def)
      qed
    qed
  next
    case False
    then show ?thesis using 1(3) by (subst InternalAllocateRemainingSize.simps) auto
  qed
qed

section \<open>The disk as an array of bytes\<close>

definition disk_bytes :: "mem \<Rightarrow> APPLE_RAM_DISK_EXTENT_TABLE \<Rightarrow> byte list" where
  "disk_bytes m T = map m (table_addrs T)"

lemma mem_upds_array:
  assumes "distinct A" "n \<le> length B"
  shows "map (mem_upds (window A r n) B m) A = overwrite (map m A) r (take (length A - r) (take n B))"
proof -
  define W where "W = window A r n"
  have lW: "length W = min n (length A - r)" by (simp add: W_def window_def)
  have "drop n (drop r A) = drop (r + length W) A" by (cases "n \<le> length A - r") (simp_all add: lW add.commute)
  then have A: "A = take r A @ W @ drop (r + length W) A"
    using append_take_drop_id[of r A] append_take_drop_id[of n "drop r A"] unfolding W_def window_def by simp
  have d: "set (take r A) \<inter> set W = {}" "set (drop (r + length W) A) \<inter> set W = {}" "distinct W"
    using assms(1) by (subst (asm) A; auto)+
  have tB: "take (length A - r) (take n B) = take (length W) B" by (simp add: lW min.commute)
  have "mem_upds W B m = mem_upds W (take (length W) B) m"
    using take_zip[of "length W" W B] by (simp add: mem_upds_def)
  moreover have "length (take (length W) B) = length W" using lW assms(2) by simp
  ultimately have w: "map (mem_upds W B m) W = take (length W) B" using mem_upds_same[OF d(3)] by metis
  have o: "map (mem_upds W B m) (take r A) = map m (take r A)" "map (mem_upds W B m) (drop (r + length W) A) = map m (drop (r + length W) A)"
    using d(1,2) by (auto intro!: mem_upds_other map_cong)
  have "map (mem_upds W B m) A = map m (take r A) @ take (length W) B @ map m (drop (r + length W) A)"
    by (subst A) (simp only: map_append o w)
  also have "\<dots> = overwrite (map m A) r (take (length W) B)"
    using lW assms(2) by (simp add: overwrite_def take_map drop_map min_def)
  finally show ?thesis unfolding tB W_def[symmetric] .
qed

lemma table_not_empty: "table_form T \<Longrightarrow> length (table_addrs T) = unat Size \<Longrightarrow> 0 < Size \<Longrightarrow> table_ok T"
  by (cases "ExtentCount T = 0") (simp_all add: table_ok_def table_addrs_def word_less_nat_alt unat_gt_0)

section \<open>Properties\<close>

text \<open>
  C9: reads and writes of a RAM disk are reads and writes of one array of bytes. They succeed exactly
  when the range lies inside the disk; a write that does not fit still writes the part that does, and a
  write changes no byte of memory outside the range.
\<close>

theorem OcAppleRamDisk_access:
  assumes "distinct (table_addrs T)" "length (table_addrs T) < 2 ^ 64" "0 < Size" "unat Size \<le> length Buffer"
  shows "OcAppleRamDiskRead m T Offset Size =
      (unat Offset + unat Size \<le> length (disk_bytes m T), window (disk_bytes m T) (unat Offset) (unat Size)) \<and>
    (\<exists>m'. OcAppleRamDiskWrite m T Offset Size Buffer = (unat Offset + unat Size \<le> length (disk_bytes m T), m') \<and>
      disk_bytes m' T = overwrite (disk_bytes m T) (unat Offset)
        (take (length (disk_bytes m T) - unat Offset) (take (unat Size) Buffer)) \<and>
      (\<forall>a. a \<notin> set (window (table_addrs T) (unat Offset) (unat Size)) \<longrightarrow> m' a = m a))"
proof (intro conjI exI allI impI)
  have z: "(0 :: u64) \<le> Offset" "unat (0 :: u64) + length (disk_addrs (take (unat (ExtentCount T)) (Extents T))) < 2 ^ 64"
    using assms(2) by (simp_all add: table_addrs_def)
  show "OcAppleRamDiskRead m T Offset Size =
      (unat Offset + unat Size \<le> length (disk_bytes m T), window (disk_bytes m T) (unat Offset) (unat Size))"
    using RamDiskRead_loop_eq[OF z assms(3), of m "[]"]
    by (simp add: OcAppleRamDiskRead_def disk_bytes_def table_addrs_def window_def take_map drop_map)
  let ?m' = "mem_upds (window (table_addrs T) (unat Offset) (unat Size)) Buffer m"
  show "OcAppleRamDiskWrite m T Offset Size Buffer = (unat Offset + unat Size \<le> length (disk_bytes m T), ?m')"
    using RamDiskWrite_loop_eq[OF z assms(3,4), of m] by (simp add: OcAppleRamDiskWrite_def disk_bytes_def table_addrs_def)
  show "disk_bytes ?m' T = overwrite (disk_bytes m T) (unat Offset)
        (take (length (disk_bytes m T) - unat Offset) (take (unat Size) Buffer))"
    using mem_upds_array[OF assms(1,4), of "unat Offset" m] by (simp add: disk_bytes_def)
  fix a assume "a \<notin> set (window (table_addrs T) (unat Offset) (unat Size))"
  then show "?m' a = m a" by (rule mem_upds_other)
qed

definition sample_table :: APPLE_RAM_DISK_EXTENT_TABLE where
  "sample_table = \<lparr>Signature = 0, Version = 0, ExtentCount = 2,
     Extents = [\<lparr>Start = 100, Length = 3\<rparr>, \<lparr>Start = 50, Length = 2\<rparr>], Reserved = 0, Signature2 = 0\<rparr>"

lemma sample_table_addrs: "table_addrs sample_table = [100, 101, 102, 50, 51]"
  by (simp add: table_addrs_def sample_table_def extent_addrs_def upt_rec)

theorem OcAppleRamDisk_access_witness:
  "OcAppleRamDiskRead (\<lambda>_. 7) sample_table 2 2 =
      (unat (2 :: u64) + unat (2 :: u64) \<le> length (disk_bytes (\<lambda>_. 7) sample_table),
       window (disk_bytes (\<lambda>_. 7) sample_table) (unat (2 :: u64)) (unat (2 :: u64)))"
  using OcAppleRamDisk_access[of sample_table 2 "[8, 9]" "\<lambda>_. 7" 2, THEN conjunct1] by (simp add: sample_table_addrs)

text \<open>
  Loading a file succeeds exactly when the file fits on the disk, and then the disk starts with the
  contents of the file and the rest of the disk and of memory is unchanged.
\<close>

theorem OcAppleRamDiskLoadFile_correct:
  assumes F: "file_ok F SetPosition FileRead" and d: "distinct (table_addrs T)" and s: "unat FileSize = length F"
  shows "\<exists>m'. OcAppleRamDiskLoadFile SetPosition FileRead True m T FileSize = (length F \<le> length (disk_bytes m T), m') \<and>
    disk_bytes m' T = overwrite (disk_bytes m T) 0 (take (length (disk_bytes m T)) F) \<and>
    (\<forall>a. a \<notin> set (table_addrs T) \<longrightarrow> m' a = m a)"
proof (intro exI conjI allI impI)
  let ?m' = "mem_upds (table_addrs T) F m"
  show "OcAppleRamDiskLoadFile SetPosition FileRead True m T FileSize = (length F \<le> length (disk_bytes m T), ?m')"
    using LoadFile_loop_eq[OF F, of 0 "unat FileSize"] s by (simp add: OcAppleRamDiskLoadFile_def disk_bytes_def table_addrs_def)
  have "window (table_addrs T) 0 (length F) = take (length F) (table_addrs T)" by (simp add: window_def)
  then show "disk_bytes ?m' T = overwrite (disk_bytes m T) 0 (take (length (disk_bytes m T)) F)"
    using mem_upds_array[OF d order_refl, where B = F and r = 0 and m = m] mem_upds_take[of "table_addrs T" F m] by (simp add: disk_bytes_def)
  fix a assume "a \<notin> set (table_addrs T)"
  then show "?m' a = m a" by (rule mem_upds_other)
qed

theorem OcAppleRamDiskLoadFile_correct_witness:
  "\<exists>m'. OcAppleRamDiskLoadFile (\<lambda>_. False) (\<lambda>pos n. (False, window [1, 2, 3, 4] (unat pos) n)) True (\<lambda>_. 0) sample_table 4 =
      (length [1, 2, 3, 4 :: byte] \<le> length (disk_bytes (\<lambda>_. 0) sample_table), m') \<and>
    disk_bytes m' sample_table = overwrite (disk_bytes (\<lambda>_. 0) sample_table) 0 (take (length (disk_bytes (\<lambda>_. 0) sample_table)) [1, 2, 3, 4]) \<and>
    (\<forall>a. a \<notin> set (table_addrs sample_table) \<longrightarrow> m' a = 0)"
  by (rule OcAppleRamDiskLoadFile_correct) (simp_all add: file_ok_def sample_table_addrs)

text \<open>The entries of a memory map start at page boundaries.\<close>

definition map_ok :: "EFI_MEMORY_DESCRIPTOR list option \<Rightarrow> bool" where
  "map_ok Map \<longleftrightarrow> (case Map of None \<Rightarrow> True | Some Mp \<Rightarrow> \<forall>D \<in> set Mp. 4096 dvd unat (PhysicalStart D))"

lemma InternalAppleRamDiskAllocate_ok:
  assumes A: "alloc_ok AllocatePages owned"
    and M: "map_ok Map"
    and r: "InternalAppleRamDiskAllocate AllocatePages FreePages Map Size High (m, s) = (Some (a, T), m', s')"
  shows "table_form T \<and> length (table_addrs T) = unat Size \<and> distinct (addr_range a 4096 @ table_addrs T) \<and>
    set (addr_range a 4096 @ table_addrs T) \<subseteq> owned s'"
proof -
  obtain Mp where Mp: "Map = Some Mp" using r by (cases Map) (simp_all add: InternalAppleRamDiskAllocate_def)
  have ov: "unat Size + 4096 < 2 ^ 64" using r
    by (auto simp: InternalAppleRamDiskAllocate_def Mp BaseOverflowAddUN_def EFI_PAGE_SIZE_def not_le split: if_splits)
  then have tot: "unat (Size + EFI_PAGE_SIZE) = unat Size + 4096" by (subst unat_plus_no_wrap) (simp_all add: EFI_PAGE_SIZE_def)
  let ?st = "(Mp, Size + EFI_PAGE_SIZE, None, m, s)" and ?t = "unat Size + 4096"
  let ?st1 = "if High then InternalAllocateRemainingSize AllocatePages BASE_4GB BASE_8EB ?st else ?st"
  have top: "4096 dvd unat BASE_8EB" by (simp add: BASE_8EB_def)
  have i0: "alloc_inv owned ?t ?st" using M Mp tot by (simp add: alloc_inv_def map_ok_def)
  have "alloc_inv owned ?t ?st1" using AllocateRemainingSize_inv[OF A i0 _ top] i0 by simp
  then have i2: "alloc_inv owned ?t (InternalAllocateRemainingSize AllocatePages 0 BASE_8EB ?st1)"
    by (rule AllocateRemainingSize_inv[OF A _ _ top]) simp
  obtain Mp' rem tab m2 s2 where e: "InternalAllocateRemainingSize AllocatePages 0 BASE_8EB ?st1 = (Mp', rem, tab, m2, s2)"
    by (cases "InternalAllocateRemainingSize AllocatePages 0 BASE_8EB ?st1") auto
  have "tab = Some (a, T) \<and> \<not> 0 < rem \<and> s2 = s'"
    using r ov e by (auto simp: InternalAppleRamDiskAllocate_def Mp BaseOverflowAddUN_def EFI_PAGE_SIZE_def Let_def
        split: if_splits option.splits prod.splits)
  moreover from this have "rem = 0" using word_neq_0_conv by blast
  ultimately show ?thesis using i2 e by (simp add: alloc_inv_def)
qed

lemma OcAppleRamDiskAllocate_ok:
  assumes "alloc_ok AllocatePages owned" "\<And>s. map_ok (GetMemoryMap s)"
    and "OcAppleRamDiskAllocate AllocatePages FreePages GetMemoryMap Size (m, s) = (Some (a, T), m', s')"
  shows "table_form T \<and> length (table_addrs T) = unat Size \<and> distinct (addr_range a 4096 @ table_addrs T) \<and>
    set (addr_range a 4096 @ table_addrs T) \<subseteq> owned s'"
proof -
  obtain x High m0 s0 where "InternalAppleRamDiskAllocate AllocatePages FreePages (GetMemoryMap x) Size High (m0, s0) = (Some (a, T), m', s')"
    using assms(3) by (auto simp: OcAppleRamDiskAllocate_def split: prod.splits option.splits)
  then show ?thesis by (rule InternalAppleRamDiskAllocate_ok[OF assms(1) assms(2)])
qed

text \<open>
  C10: when \<open>OcAppleRamDiskAllocate\<close> returns a table for a disk that is not empty, the table satisfies \<open>INTERNAL_ASSERT_EXTENT_TABLE_VALID\<close>, its extents hold exactly the
  requested size, neither the extents nor the page of the table overlap, and all of it was obtained from
  the allocator. The entries of the memory map start at page boundaries, and the allocator does not hand out memory in use.
\<close>

theorem OcAppleRamDiskAllocate_invariant:
  assumes "alloc_ok AllocatePages owned" "\<And>s. map_ok (GetMemoryMap s)"
    and "OcAppleRamDiskAllocate AllocatePages FreePages GetMemoryMap Size (m, s) = (Some (a, T), m', s')" "0 < Size"
  shows "table_ok T \<and> length (table_addrs T) = unat Size \<and> distinct (addr_range a 4096 @ table_addrs T) \<and>
    set (addr_range a 4096 @ table_addrs T) \<subseteq> owned s'"
  using OcAppleRamDiskAllocate_ok[OF assms(1-3)] table_not_empty[OF _ _ assms(4)] by blast

text \<open>
  A RAM disk of the requested size works as storage: what is written inside the size is read back, and
  the page of the extent table is not touched.
\<close>

theorem OcAppleRamDisk_roundtrip:
  assumes "alloc_ok AllocatePages owned" "\<And>s. map_ok (GetMemoryMap s)"
    and "OcAppleRamDiskAllocate AllocatePages FreePages GetMemoryMap DiskSize (m0, s0) = (Some (a, T), m, s)"
    and "0 < Size" "unat Size = length Buffer" "unat Offset + unat Size \<le> unat DiskSize"
  shows "\<exists>m'. OcAppleRamDiskWrite m T Offset Size Buffer = (True, m') \<and> OcAppleRamDiskRead m' T Offset Size = (True, Buffer) \<and>
    mem_read m' a 4096 = mem_read m a 4096"
proof -
  have T: "length (table_addrs T) = unat DiskSize" "distinct (addr_range a 4096 @ table_addrs T)"
    using OcAppleRamDiskAllocate_ok[OF assms(1-3)] by simp_all
  let ?A = "disk_addrs (take (unat (ExtentCount T)) (Extents T))"
  have A: "?A = table_addrs T" by (simp add: table_addrs_def)
  have l: "unat (0 :: u64) + length ?A < 2 ^ 64" using T(1) unat_less_2pow[of DiskSize] by (simp add: A)
  let ?W = "window (table_addrs T) (unat Offset) (unat Size)"
  have W: "distinct ?W" "length ?W = length Buffer" "set ?W \<subseteq> set (table_addrs T)"
    using T assms(5,6) by (auto simp: window_def dest!: in_set_takeD in_set_dropD)
  let ?m' = "mem_upds ?W Buffer m"
  have "OcAppleRamDiskWrite m T Offset Size Buffer = (True, ?m')"
    using RamDiskWrite_loop_eq[OF _ l assms(4), of Offset Buffer m] assms(5,6) T(1) by (simp add: OcAppleRamDiskWrite_def A)
  moreover have "OcAppleRamDiskRead ?m' T Offset Size = (True, Buffer)"
    using RamDiskRead_loop_eq[OF _ l assms(4), of Offset ?m' "[]"] assms(6) T(1) mem_upds_same[OF W(1), of Buffer m] W(2)
    by (simp add: OcAppleRamDiskRead_def A)
  moreover have "?m' x = m x" if "x \<in> set (addr_range a 4096)" for x
    using that T(2) W(3) by (intro mem_upds_other) auto
  then have "mem_read ?m' a 4096 = mem_read m a 4096" by (auto simp: mem_read_def addr_range_def)
  ultimately show ?thesis by blast
qed

subsection \<open>An allocator\<close>

text \<open>The instance for the witnesses: regions are kept in a list and a page-aligned region of one memory map
  entry is granted when it is free.\<close>

definition sample_alloc :: "u64 set \<Rightarrow> u64 \<Rightarrow> u64 \<Rightarrow> u64 set option" where
  "sample_alloc s a n = (if set (addr_range a (4096 * unat n)) \<inter> s = {} then Some (s \<union> set (addr_range a (4096 * unat n))) else None)"

definition sample_map :: "EFI_MEMORY_DESCRIPTOR list" where
  "sample_map = [\<lparr>MemType = EfiConventionalMemory, PhysicalStart = 0x100000000, VirtualStart = 0, NumberOfPages = 4, Attribute = 0xF\<rparr>]"

lemma sample_alloc_ok: "alloc_ok sample_alloc (\<lambda>s. s)"
  by (auto simp: alloc_ok_def sample_alloc_def split: if_splits)

lemma sample_allocate:
  "\<exists>a T m' s'. OcAppleRamDiskAllocate sample_alloc (\<lambda>s a n. s) (\<lambda>s. Some sample_map) 5 ((\<lambda>_. 0), {}) = (Some (a, T), m', s')"
proof -
  have p: "EFI_SIZE_TO_PAGES 4101 = 2" by (simp add: word_unat_eq_iff unat_SIZE_TO_PAGES)
  have b: "biggest_entry BASE_4GB BASE_8EB sample_map = Some (0, 0x4000)"
    by (simp add: biggest_entry_def biggest_step_def sample_map_def usable_size_def BASE_4GB_def BASE_8EB_def EFI_PAGES_TO_SIZE_def)
  have s: "sample_alloc {} a n = Some (set (addr_range a (4096 * unat n)))" for a n by (simp add: sample_alloc_def)
  obtain T m' where a: "InternalAddAllocatedArea None 0x100000000 4101 (\<lambda>_. 0) = (Some (0x100000000, T), m')"
    by (simp add: InternalAddAllocatedArea_def Let_def EFI_PAGE_SIZE_def)
  have z: "InternalAllocateRemainingSize AP B Tp (Mp, 0, t, m, s) = (Mp, 0, t, m, s)" for AP B Tp Mp t m and s :: "u64 set"
    by (subst InternalAllocateRemainingSize.simps) simp
  have "InternalAllocateRemainingSize sample_alloc BASE_4GB BASE_8EB (sample_map, 4101, None, (\<lambda>_. 0), {}) =
      (use_entry 0 4101 sample_map, 0, Some (0x100000000, T), m', set (addr_range 0x100000000 (4096 * unat (2 :: u64))))"
    using b s a p z by (subst InternalAllocateRemainingSize.simps) (simp add: Let_def min_def sample_map_def)
  then show ?thesis
    by (simp add: OcAppleRamDiskAllocate_def InternalAppleRamDiskAllocate_def BaseOverflowAddUN_def EFI_PAGE_SIZE_def z)
qed

theorem OcAppleRamDiskAllocate_invariant_witness:
  "\<exists>a T m' s'. OcAppleRamDiskAllocate sample_alloc (\<lambda>s a n. s) (\<lambda>s. Some sample_map) 5 ((\<lambda>_. 0), {}) = (Some (a, T), m', s') \<and>
    table_ok T \<and> length (table_addrs T) = unat (5 :: u64) \<and> distinct (addr_range a 4096 @ table_addrs T) \<and>
    set (addr_range a 4096 @ table_addrs T) \<subseteq> s'"
proof -
  obtain a T m' s' where r: "OcAppleRamDiskAllocate sample_alloc (\<lambda>s a n. s) (\<lambda>s. Some sample_map) 5 ((\<lambda>_. 0), {}) = (Some (a, T), m', s')"
    using sample_allocate by blast
  have "table_ok T \<and> length (table_addrs T) = unat (5 :: u64) \<and> distinct (addr_range a 4096 @ table_addrs T) \<and>
    set (addr_range a 4096 @ table_addrs T) \<subseteq> s'"
    by (rule OcAppleRamDiskAllocate_invariant[OF sample_alloc_ok _ r]) (simp_all add: sample_map_def map_ok_def)
  then show ?thesis using r by blast
qed

theorem OcAppleRamDisk_roundtrip_witness:
  "\<exists>a T m s m'. OcAppleRamDiskAllocate sample_alloc (\<lambda>s a n. s) (\<lambda>s. Some sample_map) 5 ((\<lambda>_. 0), {}) = (Some (a, T), m, s) \<and>
    OcAppleRamDiskWrite m T 1 3 [7, 8, 9] = (True, m') \<and> OcAppleRamDiskRead m' T 1 3 = (True, [7, 8, 9]) \<and>
    mem_read m' a 4096 = mem_read m a 4096"
proof -
  obtain a T m s where r: "OcAppleRamDiskAllocate sample_alloc (\<lambda>s a n. s) (\<lambda>s. Some sample_map) 5 ((\<lambda>_. 0), {}) = (Some (a, T), m, s)"
    using sample_allocate by blast
  have "\<exists>m'. OcAppleRamDiskWrite m T 1 3 [7, 8, 9] = (True, m') \<and> OcAppleRamDiskRead m' T 1 3 = (True, [7, 8, 9]) \<and>
    mem_read m' a 4096 = mem_read m a 4096"
    by (rule OcAppleRamDisk_roundtrip[OF sample_alloc_ok _ r]) (simp_all add: sample_map_def map_ok_def)
  then show ?thesis using r by blast
qed

end
