(* ===== verification/Oc_Chunklist.thy ===== *)
theory Oc_Chunklist
  imports Oc_AppleKeys Oc_RamDisk
begin

unbundle bit_operations_syntax

text \<open>
  Model of \<^verbatim>\<open>Library/OcAppleChunklistLib/OcAppleChunklistLib.c\<close>: the signed list of chunk checksums that
  authenticates a recovery image on a RAM disk. The buffer is the list of its bytes together with its address;
  the packed structures are read from it in little-endian order. It composes the SHA-256, RSA and RAM disk
  components. \<open>None\<close> is a hash function that does not return; \<open>ASSERT\<close>s and debug-only code are not modelled.
\<close>

section \<open>The code\<close>

definition read_le :: "byte list \<Rightarrow> nat \<Rightarrow> nat \<Rightarrow> 'a::len word" where
  "read_le bs off n = of_nat (bn_val (window bs off n))"

record APPLE_CHUNKLIST_CHUNK =
  ChunkLength :: u32
  Checksum :: "byte list"

record APPLE_CHUNKLIST_HEADER =
  Magic :: u32
  HdrLength :: u32
  FileVersion :: byte
  ChunkMethod :: byte
  SigMethod :: byte
  HdrChunkCount :: u64
  ChunkOffset :: u64
  SigOffset :: u64

definition sizeof_header :: u32 where "sizeof_header = 36"
definition sizeof_chunk :: u64 where "sizeof_chunk = 36"
definition sizeof_sig :: u64 where "sizeof_sig = 256"
definition APPLE_CHUNKLIST_MAGIC :: u32 where "APPLE_CHUNKLIST_MAGIC = 0x4C4B4E43"

definition chunklist_header :: "byte list \<Rightarrow> APPLE_CHUNKLIST_HEADER" where
  "chunklist_header Buf =
     \<lparr>Magic = read_le Buf 0 4, HdrLength = read_le Buf 4 4, FileVersion = Buf ! 8, ChunkMethod = Buf ! 9, SigMethod = Buf ! 10,
      HdrChunkCount = read_le Buf 12 8, ChunkOffset = read_le Buf 20 8, SigOffset = read_le Buf 28 8\<rparr>"

definition chunk_at :: "byte list \<Rightarrow> nat \<Rightarrow> APPLE_CHUNKLIST_CHUNK" where
  "chunk_at Buf off = \<lparr>ChunkLength = read_le Buf off 4, Checksum = window Buf (off + 4) 32\<rparr>"

record OC_APPLE_CHUNKLIST_CONTEXT =
  ChunkCount :: u64
  Chunks :: u64
  SignaturePtr :: u64
  Hash :: "byte list"

text \<open>The loop that reverses the \<open>SigLength\<close> bytes at \<open>Off\<close>.\<close>

definition swap_signature :: "nat \<Rightarrow> nat \<Rightarrow> byte list \<Rightarrow> byte list" where
  "swap_signature Off SigLength Buf =
     fold (\<lambda>Index Buf.
       let SwapValue = Buf ! (Off + Index);
           Buf = Buf[Off + Index := Buf ! (Off + (SigLength - Index - 1))]
       in Buf[Off + (SigLength - Index - 1) := SwapValue]) [0..<SigLength div 2] Buf"

definition OcAppleChunklistInitializeContext ::
  "crypto_env \<Rightarrow> OC_APPLE_CHUNKLIST_CONTEXT \<Rightarrow> u64 \<Rightarrow> byte list \<Rightarrow> u32 \<Rightarrow> (bool \<times> OC_APPLE_CHUNKLIST_CONTEXT \<times> byte list) option" where
  "OcAppleChunklistInitializeContext env Context Buffer Buf BufferSize =
     (if BufferSize < sizeof_header then Some (False, Context, Buf)
      else
        (let H = chunklist_header Buf
         in if Magic H \<noteq> APPLE_CHUNKLIST_MAGIC \<or> HdrLength H \<noteq> sizeof_header \<or> FileVersion H \<noteq> 1 \<or> ChunkMethod H \<noteq> 1 \<or> SigMethod H \<noteq> 1
            then Some (False, Context, Buf)
            else
              (let (Ov1, Ptr1) = BaseOverflowAddUN Buffer (ChunkOffset H);
                   Context = Context\<lparr>Chunks := Ptr1\<rparr>
               in if Ov1 then Some (False, Context, Buf)
                  else
                    (let (Ov2, Ptr2) = BaseOverflowAddUN Buffer (SigOffset H);
                         Context = Context\<lparr>SignaturePtr := Ptr2\<rparr>
                     in if Ov2 then Some (False, Context, Buf)
                        else
                          (let Context = Context\<lparr>ChunkCount := HdrChunkCount H\<rparr>;
                               (Ov3, DataEnd) = BaseOverflowMulAddUN sizeof_chunk (ChunkCount Context) (Chunks Context)
                           in if Ov3 \<or> DataEnd > Buffer + ucast BufferSize then Some (False, Context, Buf)
                              else
                                (let (Ov4, DataEnd) = BaseOverflowAddUN sizeof_sig (SignaturePtr Context)
                                 in if Ov4 \<or> DataEnd \<noteq> Buffer + ucast BufferSize then Some (False, Context, Buf)
                                    else do {
                                      Digest \<leftarrow> Sha256 (Ctx256 env) Buf (unat (SigOffset H));
                                      Some (True, Context\<lparr>Hash := Digest\<rparr>,
                                        swap_signature (unat (SignaturePtr Context - Buffer)) 256 Buf)
                                    }))))))"

definition OcAppleChunklistVerifySignature ::
  "crypto_env \<Rightarrow> OC_APPLE_CHUNKLIST_CONTEXT \<Rightarrow> u64 \<Rightarrow> byte list \<Rightarrow> OC_RSA_PUBLIC_KEY \<Rightarrow> u64 list option \<Rightarrow> bool" where
  "OcAppleChunklistVerifySignature env Context Buffer Buf Key ScratchAlloc =
     RsaVerifySigHashFromKeyDynalloc env Key (window Buf (unat (SignaturePtr Context - Buffer)) 256) 256
       (Hash Context) 32 OcSigHashTypeSha256 ScratchAlloc"

definition chunk_ptr :: "OC_APPLE_CHUNKLIST_CONTEXT \<Rightarrow> u64 \<Rightarrow> byte list \<Rightarrow> nat \<Rightarrow> APPLE_CHUNKLIST_CHUNK" where
  "chunk_ptr Context Buffer Buf Index = chunk_at Buf (unat (Chunks Context - Buffer) + 36 * Index)"

function VerifyData_loop ::
  "crypto_env \<Rightarrow> OC_APPLE_CHUNKLIST_CONTEXT \<Rightarrow> u64 \<Rightarrow> byte list \<Rightarrow> mem \<Rightarrow> APPLE_RAM_DISK_EXTENT_TABLE \<Rightarrow> nat \<Rightarrow> u64 \<Rightarrow> bool option" where
  "VerifyData_loop env Context Buffer Buf m ExtentTable Index CurrentOffset =
     (if Index < unat (ChunkCount Context)
      then
        (let CurrentChunk = chunk_ptr Context Buffer Buf Index;
             (Result, ChunkData) = OcAppleRamDiskRead m ExtentTable CurrentOffset (ucast (ChunkLength CurrentChunk))
         in if \<not> Result then Some False
            else do {
              ChunkHash \<leftarrow> Sha256 (Ctx256 env) ChunkData (unat (ChunkLength CurrentChunk));
              if CompareMem (take 32 ChunkHash) (Checksum CurrentChunk) \<noteq> 0 then Some False
              else VerifyData_loop env Context Buffer Buf m ExtentTable (Index + 1) (CurrentOffset + ucast (ChunkLength CurrentChunk))
            })
      else Some True)"
  by pat_completeness auto
termination
  by (relation "measure (\<lambda>(_, Context, _, _, _, _, Index, _). unat (ChunkCount Context) - Index)") auto

declare VerifyData_loop.simps [simp del]

definition OcAppleChunklistVerifyData ::
  "crypto_env \<Rightarrow> OC_APPLE_CHUNKLIST_CONTEXT \<Rightarrow> u64 \<Rightarrow> byte list \<Rightarrow> mem \<Rightarrow> APPLE_RAM_DISK_EXTENT_TABLE \<Rightarrow> (u32 \<Rightarrow> bool) \<Rightarrow> bool option" where
  "OcAppleChunklistVerifyData env Context Buffer Buf m ExtentTable AllocatePool =
     (let ChunkDataSize = fold (\<lambda>Index n. let CurrentChunk = chunk_ptr Context Buffer Buf Index
                                         in if n < ChunkLength CurrentChunk then ChunkLength CurrentChunk else n)
            [0..<unat (ChunkCount Context)] 0
      in if \<not> AllocatePool ChunkDataSize then Some False
         else VerifyData_loop env Context Buffer Buf m ExtentTable 0 0)"

text \<open>
  The trust decision of \<open>InternalGetDiskImageBootFile\<close> in \<^verbatim>\<open>OcBootManagementLib/DmgBootSupport.c\<close>, up to the
  installation of the block device: \<open>Chunklist\<close> is the address, the contents and the size of the
  chunklist file, if there is one, \<open>Scratches\<close> the allocations of the two signature checks.
\<close>

datatype OC_DMG_LOADING_SUPPORT = OcDmgLoadingDisabled | OcDmgLoadingAnyImage | OcDmgLoadingAppleSigned

definition DiskImageTrusted ::
  "crypto_env \<Rightarrow> OC_DMG_LOADING_SUPPORT \<Rightarrow> OC_APPLE_CHUNKLIST_CONTEXT \<Rightarrow> (u64 \<times> byte list \<times> u32) option \<Rightarrow>
   u64 list option \<times> u64 list option \<Rightarrow> mem \<Rightarrow> APPLE_RAM_DISK_EXTENT_TABLE \<Rightarrow> (u32 \<Rightarrow> bool) \<Rightarrow> bool option" where
  "DiskImageTrusted env DmgLoading Ctx Chunklist Scratches m ExtentTable AllocatePool =
     (if DmgLoading = OcDmgLoadingAppleSigned
      then
        (case Chunklist of
           None \<Rightarrow> Some False
         | Some (Buffer, Buf, BufferSize) \<Rightarrow> do {
             (Result, Ctx, Buf) \<leftarrow> OcAppleChunklistInitializeContext env Ctx Buffer Buf BufferSize;
             if \<not> Result then Some False
             else
               (let Result = OcAppleChunklistVerifySignature env Ctx Buffer Buf (PublicKey (PkDataBase ! 0)) (fst Scratches);
                    Result = (if \<not> Result
                              then OcAppleChunklistVerifySignature env Ctx Buffer Buf (PublicKey (PkDataBase ! 1)) (snd Scratches)
                              else Result)
                in if \<not> Result then Some False
                   else OcAppleChunklistVerifyData env Ctx Buffer Buf m ExtentTable AllocatePool)
           })
      else Some True)"

section \<open>Initialization\<close>

definition swap_upto :: "nat \<Rightarrow> nat \<Rightarrow> nat \<Rightarrow> byte list \<Rightarrow> byte list \<Rightarrow> bool" where
  "swap_upto Off n k B0 B \<longleftrightarrow> length B = length B0 \<and>
     (\<forall>j < length B0. B ! j = (if Off \<le> j \<and> j < Off + k \<or> Off + n \<le> j + k \<and> j < Off + n then B0 ! (2 * Off + n - 1 - j) else B0 ! j))"

lemma swap_signature_rev:
  assumes "Off + n \<le> length Buf"
  shows "swap_signature Off n Buf = overwrite Buf Off (rev (window Buf Off n))"
proof -
  have "swap_upto Off n (n div 2) Buf (swap_signature Off n Buf)"
    unfolding swap_signature_def
  proof (rule fold_upt_inv[where P = "\<lambda>k B. swap_upto Off n k Buf B"])
    fix k B assume k: "k < n div 2" and I: "swap_upto Off n k Buf B"
    have e: "B ! (Off + k) = Buf ! (Off + k)" "B ! (Off + (n - k - 1)) = Buf ! (Off + (n - k - 1))"
      "length B = length Buf" using k I assms by (auto simp: swap_upto_def)
    have x: "2 * Off + n - 1 - (Off + k) = Off + (n - k - 1)" "2 * Off + n - 1 - (Off + (n - k - 1)) = Off + k"
      using k by auto
    show "swap_upto Off n (Suc k) Buf (let SwapValue = B ! (Off + k); B = B[Off + k := B ! (Off + (n - k - 1))]
        in B[Off + (n - k - 1) := SwapValue])"
      unfolding swap_upto_def Let_def
    proof (intro conjI allI impI)
      fix j assume j: "j < length Buf"
      consider "j = Off + k" | "j = Off + (n - k - 1)" | "j \<noteq> Off + k" "j \<noteq> Off + (n - k - 1)" by blast
      then show "B[Off + k := B ! (Off + (n - k - 1)), Off + (n - k - 1) := B ! (Off + k)] ! j =
          (if Off \<le> j \<and> j < Off + Suc k \<or> Off + n \<le> j + Suc k \<and> j < Off + n then Buf ! (2 * Off + n - 1 - j) else Buf ! j)"
      proof cases
        case 1 then show ?thesis using k j e x by (simp add: nth_list_update)
      next
        case 2
        then have c: "Off + n \<le> j + Suc k \<and> j < Off + n" using k by linarith
        have "B[Off + k := B ! (Off + (n - k - 1)), Off + (n - k - 1) := B ! (Off + k)] ! j = Buf ! (Off + k)"
          using 2 j e by simp
        then show ?thesis unfolding if_P[OF disjI2[OF c]] by (simp only: x(2) 2)
      next
        case 3
        then have "(Off \<le> j \<and> j < Off + Suc k \<or> Off + n \<le> j + Suc k \<and> j < Off + n) \<longleftrightarrow>
          (Off \<le> j \<and> j < Off + k \<or> Off + n \<le> j + k \<and> j < Off + n)" using k by linarith
        then show ?thesis using 3 j I by (simp add: swap_upto_def)
      qed
    qed (simp add: e)
  qed (auto simp: swap_upto_def)
  then have l: "length (swap_signature Off n Buf) = length Buf"
    and v: "\<And>j. j < length Buf \<Longrightarrow> swap_signature Off n Buf ! j =
      (if Off \<le> j \<and> j < Off + n div 2 \<or> Off + n \<le> j + n div 2 \<and> j < Off + n then Buf ! (2 * Off + n - 1 - j) else Buf ! j)"
    by (simp_all add: swap_upto_def)
  show ?thesis
  proof (rule nth_equalityI)
    fix j assume "j < length (swap_signature Off n Buf)"
    then have j: "j < length Buf" by (simp add: l)
    consider "j < Off \<or> Off + n \<le> j" | "Off \<le> j" "j < Off + n" "2 * (j - Off) + 1 = n" | "Off \<le> j" "j < Off + n" "2 * (j - Off) + 1 \<noteq> n"
      by linarith
    then show "swap_signature Off n Buf ! j = overwrite Buf Off (rev (window Buf Off n)) ! j"
    proof cases
      case 1 then show ?thesis using assms j v[OF j] by (auto simp: nth_overwrite)
    next
      case 2
      then have "n - Suc (j - Off) + Off = j" "2 * Off + n - Suc j = j" by auto
      then show ?thesis using 2 assms j v[OF j] by (simp add: nth_overwrite rev_nth add.commute)
    next
      case 3
      then have "Off \<le> j \<and> j < Off + n div 2 \<or> Off + n \<le> j + n div 2 \<and> j < Off + n" by linarith
      moreover have "2 * Off + n - Suc j = Off + (n - Suc (j - Off))" using 3 by simp
      ultimately show ?thesis using 3 assms j v[OF j] by (simp add: nth_overwrite rev_nth)
    qed
  qed (simp add: l assms)
qed

text \<open>What a buffer must satisfy.\<close>

definition chunklist_ok :: "byte list \<Rightarrow> bool" where
  "chunklist_ok Buf \<longleftrightarrow> 36 \<le> length Buf \<and>
     (let H = chunklist_header Buf
      in Magic H = APPLE_CHUNKLIST_MAGIC \<and> HdrLength H = 36 \<and> FileVersion H = 1 \<and> ChunkMethod H = 1 \<and> SigMethod H = 1 \<and>
         unat (ChunkOffset H) + 36 * unat (HdrChunkCount H) \<le> length Buf \<and> unat (SigOffset H) + 256 = length Buf)"

definition initialized_context :: "u64 \<Rightarrow> byte list \<Rightarrow> OC_APPLE_CHUNKLIST_CONTEXT \<Rightarrow> bool" where
  "initialized_context Buffer Buf Ctx \<longleftrightarrow>
     (let H = chunklist_header Buf
      in ChunkCount Ctx = HdrChunkCount H \<and> Chunks Ctx = Buffer + ChunkOffset H \<and> SignaturePtr Ctx = Buffer + SigOffset H \<and>
         Hash Ctx = sha256_spec (take (unat (SigOffset H)) Buf))"

lemma unat_plus_ucast:
  assumes "unat (Buffer :: u64) + unat (Size :: u32) < 2 ^ 64"
  shows "unat (Buffer + ucast Size) = unat Buffer + unat Size"
proof -
  have "unat (ucast Size :: u64) = unat Size"
    using unat_less_2pow[of Size] by (simp add: unat_ucast)
  then show ?thesis using assms by (subst unat_plus_no_wrap) simp_all
qed

lemma window_no_wrap: "unat (a :: u64) + unat b \<le> e \<Longrightarrow> e < 2 ^ 64 \<Longrightarrow> unat (a + b) = unat a + unat b"
  by (rule unat_plus_no_wrap) simp

lemma chunks_end:
  assumes "unat (Buffer :: u64) + n < 2 ^ 64" "unat Buffer + unat off < 2 ^ 64"
  shows "(\<not> fst (BaseOverflowMulAddUN sizeof_chunk cnt (Buffer + off)) \<and>
      unat (snd (BaseOverflowMulAddUN sizeof_chunk cnt (Buffer + off))) \<le> unat Buffer + n) \<longleftrightarrow> unat off + 36 * unat cnt \<le> n"
proof -
  have o: "unat (Buffer + off) = unat Buffer + unat off" using assms(2) by (intro unat_plus_no_wrap) simp
  show ?thesis
  proof (cases "36 * unat cnt + (unat Buffer + unat off) < 2 ^ 64")
    case True
    then have m: "unat (36 * cnt) = 36 * unat cnt" by (subst unat_mult_lem[THEN iffD1]) (simp_all)
    have "unat (36 * cnt + (Buffer + off)) = 36 * unat cnt + (unat Buffer + unat off)"
      using True m o by (subst unat_plus_no_wrap) simp_all
    then show ?thesis using True o by (auto simp: BaseOverflowMulAddUN_def sizeof_chunk_def)
  next
    case False
    then show ?thesis using assms(1) o by (auto simp: BaseOverflowMulAddUN_def sizeof_chunk_def)
  qed
qed

lemma chunklist_bounds:
  assumes "unat (Buffer :: u64) + n < 2 ^ 64"
  shows "\<not> fst (BaseOverflowAddUN Buffer off) \<and> \<not> fst (BaseOverflowAddUN Buffer sig) \<and>
      \<not> fst (BaseOverflowMulAddUN sizeof_chunk cnt (Buffer + off)) \<and>
      unat (snd (BaseOverflowMulAddUN sizeof_chunk cnt (Buffer + off))) \<le> unat Buffer + n \<and>
      \<not> fst (BaseOverflowAddUN sizeof_sig (Buffer + sig)) \<and> unat (snd (BaseOverflowAddUN sizeof_sig (Buffer + sig))) = unat Buffer + n \<longleftrightarrow>
    unat off + 36 * unat cnt \<le> n \<and> unat sig + 256 = n" (is "?l \<longleftrightarrow> ?r")
proof (cases "unat Buffer + unat off < 2 ^ 64 \<and> unat Buffer + unat sig < 2 ^ 64")
  case True
  then have s: "unat (Buffer + sig) = unat Buffer + unat sig" by (intro unat_plus_no_wrap) simp
  have "(\<not> fst (BaseOverflowAddUN sizeof_sig (Buffer + sig)) \<and> unat (snd (BaseOverflowAddUN sizeof_sig (Buffer + sig))) = unat Buffer + n) \<longleftrightarrow>
    unat sig + 256 = n"
  proof (cases "256 + (unat Buffer + unat sig) < 2 ^ 64")
    case True
    then have "unat (256 + (Buffer + sig)) = 256 + (unat Buffer + unat sig)" using s by (subst unat_plus_no_wrap) simp_all
    then show ?thesis using True s by (auto simp: BaseOverflowAddUN_def sizeof_sig_def)
  next
    case False
    then show ?thesis using assms s by (auto simp: BaseOverflowAddUN_def sizeof_sig_def)
  qed
  then show ?thesis using True chunks_end[OF assms, of off cnt] by (auto simp: BaseOverflowAddUN_def)
next
  case False
  then show ?thesis using assms by (auto simp: BaseOverflowAddUN_def)
qed

lemma InitializeContext_eq:
  assumes n: "length Buf = unat BufferSize" "unat Buffer + length Buf < 2 ^ 64" and env: "length (Data (Ctx256 env)) = 64"
  shows "\<exists>Ctx'. OcAppleChunklistInitializeContext env Ctx Buffer Buf BufferSize =
    (if chunklist_ok Buf
     then Some (True, Ctx', overwrite Buf (length Buf - 256) (rev (drop (length Buf - 256) Buf)))
     else Some (False, Ctx', Buf)) \<and> (chunklist_ok Buf \<longrightarrow> initialized_context Buffer Buf Ctx')"
proof -
  let ?H = "chunklist_header Buf"
  have e: "unat (Buffer + ucast BufferSize) = unat Buffer + length Buf" using n by (simp add: unat_plus_ucast)
  have sz: "BufferSize < sizeof_header \<longleftrightarrow> length Buf < 36" by (simp add: n(1) sizeof_header_def word_less_nat_alt)
  note b = chunklist_bounds[OF n(2), of "ChunkOffset ?H" "SigOffset ?H" "HdrChunkCount ?H"]
  have gt: "x > Buffer + ucast BufferSize \<longleftrightarrow> \<not> unat x \<le> unat Buffer + length Buf" for x
    using e by (simp add: word_less_nat_alt not_le)
  have ne: "x \<noteq> Buffer + ucast BufferSize \<longleftrightarrow> unat x \<noteq> unat Buffer + length Buf" for x
    using e by (metis word_unat_eq_iff)
  have sums: "snd (BaseOverflowAddUN x y) = x + y" for x y by (simp add: BaseOverflowAddUN_def)
  show ?thesis
  proof (cases "chunklist_ok Buf")
    case True
    then have ok: "unat (SigOffset ?H) + 256 = length Buf" "unat (ChunkOffset ?H) + 36 * unat (HdrChunkCount ?H) \<le> length Buf"
      by (simp_all add: chunklist_ok_def Let_def)
    have so: "unat (SigOffset ?H) = length Buf - 256" using ok by simp
    have d: "Sha256 (Ctx256 env) Buf (unat (SigOffset ?H)) = Some (sha256_spec (take (unat (SigOffset ?H)) Buf))"
      using ok(1) unat_less_2pow[of BufferSize] n(1) by (intro Sha256_spec env) simp_all
    have w: "swap_signature (length Buf - 256) 256 Buf = overwrite Buf (length Buf - 256) (rev (drop (length Buf - 256) Buf))"
      using swap_signature_rev[of "length Buf - 256" 256 Buf] ok by (simp add: window_def)
    have "\<not> fst (BaseOverflowAddUN Buffer (ChunkOffset ?H))" "\<not> fst (BaseOverflowAddUN Buffer (SigOffset ?H))"
      "\<not> fst (BaseOverflowMulAddUN sizeof_chunk (HdrChunkCount ?H) (Buffer + ChunkOffset ?H))"
      "unat (snd (BaseOverflowMulAddUN sizeof_chunk (HdrChunkCount ?H) (Buffer + ChunkOffset ?H))) \<le> unat Buffer + length Buf"
      "\<not> fst (BaseOverflowAddUN sizeof_sig (Buffer + SigOffset ?H))"
      "unat (snd (BaseOverflowAddUN sizeof_sig (Buffer + SigOffset ?H))) = unat Buffer + length Buf"
      using b ok by blast+
    moreover have "\<not> BufferSize < sizeof_header" using True sz by (simp add: chunklist_ok_def)
    moreover have "Magic ?H = APPLE_CHUNKLIST_MAGIC" "HdrLength ?H = sizeof_header" "FileVersion ?H = 1" "ChunkMethod ?H = 1" "SigMethod ?H = 1"
      using True by (simp_all add: chunklist_ok_def Let_def sizeof_header_def)
    ultimately show ?thesis using True d w so
      by (simp add: OcAppleChunklistInitializeContext_def Let_def split_beta gt ne initialized_context_def sums)
  next
    case False
    define hdr where "hdr \<longleftrightarrow> Magic ?H = APPLE_CHUNKLIST_MAGIC \<and> HdrLength ?H = sizeof_header \<and> FileVersion ?H = 1 \<and> ChunkMethod ?H = 1 \<and> SigMethod ?H = 1"
    have f: "length Buf < 36 \<or> \<not> hdr \<or> \<not> (unat (ChunkOffset ?H) + 36 * unat (HdrChunkCount ?H) \<le> length Buf \<and> unat (SigOffset ?H) + 256 = length Buf)"
      using False unfolding chunklist_ok_def Let_def hdr_def sizeof_header_def not_le[symmetric] by blast
    have h: "(Magic ?H \<noteq> APPLE_CHUNKLIST_MAGIC \<or> HdrLength ?H \<noteq> sizeof_header \<or> FileVersion ?H \<noteq> 1 \<or> ChunkMethod ?H \<noteq> 1 \<or> SigMethod ?H \<noteq> 1) \<longleftrightarrow> \<not> hdr"
      by (auto simp: hdr_def)
    have ctx: "\<exists>C'. OcAppleChunklistInitializeContext env Ctx Buffer Buf BufferSize = Some (False, C', Buf)"
      using f[folded b] unfolding OcAppleChunklistInitializeContext_def Let_def split_beta h sz gt ne
      by (simp add: sums split: if_split) blast
    then show ?thesis using False by simp
  qed
qed

section \<open>Verifying the data\<close>

lemma RamDiskRead_loop_0:
  "Cur \<le> Off \<Longrightarrow> unat Cur + length (disk_addrs Es) < 2 ^ 64 \<Longrightarrow>
   RamDiskRead_loop m Es Cur Off 0 Buf = (unat Off - unat Cur < length (disk_addrs Es), Buf)"
proof (induction Es arbitrary: Cur)
  case Nil
  then show ?case by (simp add: disk_addrs_def)
next
  case (Cons E Es)
  have s: "unat (Off - Cur) = unat Off - unat Cur" using Cons.prems(1) by (simp add: unat_sub word_le_nat_alt)
  have a: "unat (Cur + APPLE_RAM_DISK_EXTENT.Length E) = unat Cur + unat (APPLE_RAM_DISK_EXTENT.Length E)"
    using Cons.prems(2) by (subst unat_plus_no_wrap) (simp_all add: disk_addrs_def)
  show ?case
  proof (cases "Off - Cur < APPLE_RAM_DISK_EXTENT.Length E")
    case True
    then show ?thesis using Cons.prems(1) s by (simp add: Let_def min_def mem_read_def disk_addrs_def word_less_nat_alt)
  next
    case False
    then have le: "unat Cur + unat (APPLE_RAM_DISK_EXTENT.Length E) \<le> unat Off"
      using s Cons.prems(1) by (simp add: word_less_nat_alt word_le_nat_alt)
    then have "Cur + APPLE_RAM_DISK_EXTENT.Length E \<le> Off" using a by (simp add: word_le_nat_alt)
    then show ?thesis using False Cons.IH[of "Cur + APPLE_RAM_DISK_EXTENT.Length E"] Cons.prems(2) a le
      by (auto simp: disk_addrs_def)
  qed
qed

lemma RamDiskRead_eq:
  assumes "length (table_addrs T) < 2 ^ 64"
  shows "OcAppleRamDiskRead m T Off Size =
    (unat Off + unat Size \<le> length (disk_bytes m T) \<and> (Size = 0 \<longrightarrow> unat Off < length (disk_bytes m T)),
     window (disk_bytes m T) (unat Off) (unat Size))"
proof (cases "Size = 0")
  case True
  then show ?thesis using RamDiskRead_loop_0[of 0 Off "take (unat (ExtentCount T)) (Extents T)" m "[]"] assms
    by (auto simp: OcAppleRamDiskRead_def table_addrs_def disk_bytes_def window_def)
next
  case False
  then have "0 < Size" by (simp add: word_neq_0_conv)
  then show ?thesis using RamDiskRead_loop_eq[of 0 Off "take (unat (ExtentCount T)) (Extents T)" Size m "[]"] assms False
    by (simp add: OcAppleRamDiskRead_def table_addrs_def disk_bytes_def window_def take_map drop_map)
qed

fun chunks_match :: "byte list \<Rightarrow> nat \<Rightarrow> APPLE_CHUNKLIST_CHUNK list \<Rightarrow> bool" where
  "chunks_match disk off [] \<longleftrightarrow> True"
| "chunks_match disk off (c # cs) \<longleftrightarrow>
     off + unat (ChunkLength c) \<le> length disk \<and> (ChunkLength c = 0 \<longrightarrow> off < length disk) \<and>
     sha256_spec (window disk off (unat (ChunkLength c))) = Checksum c \<and> chunks_match disk (off + unat (ChunkLength c)) cs"

lemma VerifyData_loop_eq:
  assumes T: "length (table_addrs T) < 2 ^ 64" and env: "length (Data (Ctx256 env)) = 64"
    and B: "unat (Chunks Ctx - Buffer) + 36 * unat (ChunkCount Ctx) \<le> length Buf"
  shows "Index \<le> unat (ChunkCount Ctx) \<Longrightarrow>
    VerifyData_loop env Ctx Buffer Buf m T Index off =
      Some (chunks_match (disk_bytes m T) (unat off) (map (chunk_ptr Ctx Buffer Buf) [Index..<unat (ChunkCount Ctx)]))"
proof (induction "unat (ChunkCount Ctx) - Index" arbitrary: Index off)
  case 0
  then show ?case by (subst VerifyData_loop.simps) simp
next
  case (Suc k)
  let ?c = "chunk_ptr Ctx Buffer Buf Index" and ?d = "disk_bytes m T"
  let ?s = "ucast (ChunkLength ?c) :: u64"
  have i: "Index < unat (ChunkCount Ctx)" using Suc.hyps(2) by simp
  then have m: "map (chunk_ptr Ctx Buffer Buf) [Index..<unat (ChunkCount Ctx)] =
    ?c # map (chunk_ptr Ctx Buffer Buf) [Suc Index..<unat (ChunkCount Ctx)]" by (simp add: upt_conv_Cons)
  have s: "unat ?s = unat (ChunkLength ?c)" using unat_less_2pow[of "ChunkLength ?c"] by (simp add: unat_ucast)
  have z: "?s = 0 \<longleftrightarrow> ChunkLength ?c = 0" using s by (simp add: word_unat_eq_iff)
  have cl: "length (Checksum ?c) = 32" using B i by (simp add: chunk_ptr_def chunk_at_def)
  have IH: "VerifyData_loop env Ctx Buffer Buf m T (Suc Index) (off + ?s) =
      Some (chunks_match ?d (unat (off + ?s)) (map (chunk_ptr Ctx Buffer Buf) [Suc Index..<unat (ChunkCount Ctx)]))"
    using Suc.hyps i by simp
  show ?case
  proof (cases "unat off + unat (ChunkLength ?c) \<le> length ?d \<and> (ChunkLength ?c = 0 \<longrightarrow> unat off < length ?d)")
    case True
    then have "unat (off + ?s) = unat off + unat (ChunkLength ?c)"
      using T s by (subst unat_plus_no_wrap) (simp_all add: disk_bytes_def)
    moreover have "Sha256 (Ctx256 env) (window ?d (unat off) (unat (ChunkLength ?c))) (unat (ChunkLength ?c)) =
        Some (sha256_spec (window ?d (unat off) (unat (ChunkLength ?c))))"
      using Sha256_spec[OF env, of "unat (ChunkLength ?c)" "window ?d (unat off) (unat (ChunkLength ?c))"] True
        unat_less_2pow[of "ChunkLength ?c"] by simp
    moreover have "CompareMem (take 32 (sha256_spec x)) (Checksum ?c) \<noteq> 0 \<longleftrightarrow> sha256_spec x \<noteq> Checksum ?c" for x
      using CompareMem_eq_0[of "take 32 (sha256_spec x)" "Checksum ?c"] cl by simp
    ultimately show ?thesis using True i m IH s z
      by (subst VerifyData_loop.simps) (auto simp: RamDiskRead_eq[OF T] Let_def)
  next
    case False
    then show ?thesis using i m s z by (subst VerifyData_loop.simps) (auto simp: RamDiskRead_eq[OF T] Let_def)
  qed
qed

text \<open>The image is the concatenation of one piece per chunk, each with the length and the SHA-256 digest of
  its chunk.\<close>

definition authenticates :: "APPLE_CHUNKLIST_CHUNK list \<Rightarrow> byte list \<Rightarrow> bool" where
  "authenticates cs disk \<longleftrightarrow>
     (\<exists>pieces rest. disk = concat pieces @ rest \<and>
        list_all2 (\<lambda>p c. length p = unat (ChunkLength c) \<and> sha256_spec p = Checksum c) pieces cs)"

lemma authenticates_Cons:
  "authenticates (c # cs) disk \<longleftrightarrow>
     unat (ChunkLength c) \<le> length disk \<and> sha256_spec (take (unat (ChunkLength c)) disk) = Checksum c \<and>
     authenticates cs (drop (unat (ChunkLength c)) disk)" (is "?l \<longleftrightarrow> ?r")
proof
  assume ?l
  then show ?r by (fastforce simp: authenticates_def list_all2_Cons2)
next
  assume r: ?r
  then obtain ps rest where "drop (unat (ChunkLength c)) disk = concat ps @ rest"
    "list_all2 (\<lambda>p c. length p = unat (ChunkLength c) \<and> sha256_spec p = Checksum c) ps cs" by (auto simp: authenticates_def)
  then show ?l using r append_take_drop_id[of "unat (ChunkLength c)" disk] unfolding authenticates_def
    by (intro exI[of _ "take (unat (ChunkLength c)) disk # ps"] exI[of _ rest]) simp
qed

lemma chunks_match_iff:
  "off \<le> length disk \<Longrightarrow> chunks_match disk off cs \<Longrightarrow> authenticates cs (drop off disk)"
  "off \<le> length disk \<Longrightarrow> \<forall>c \<in> set cs. ChunkLength c \<noteq> 0 \<Longrightarrow> authenticates cs (drop off disk) \<Longrightarrow> chunks_match disk off cs"
proof (induction cs arbitrary: off)
  case Nil
  { case 1 show ?case unfolding authenticates_def by (intro exI[of _ "[]"] exI) simp }
  { case 2 show ?case by simp }
next
  case (Cons c cs)
  { case 1 then show ?case using Cons(1)[of "off + unat (ChunkLength c)"] by (auto simp: authenticates_Cons window_def add.commute) }
  { case 2 then show ?case using Cons(2)[of "off + unat (ChunkLength c)"] by (auto simp: authenticates_Cons window_def add.commute) }
qed

definition chunk_table :: "byte list \<Rightarrow> APPLE_CHUNKLIST_CHUNK list" where
  "chunk_table Buf =
     (let H = chunklist_header Buf
      in map (\<lambda>i. chunk_at Buf (unat (ChunkOffset H) + 36 * i)) [0..<unat (HdrChunkCount H)])"

text \<open>The size of the buffer for the chunks.\<close>

definition max_chunk :: "APPLE_CHUNKLIST_CHUNK list \<Rightarrow> u32" where
  "max_chunk cs = fold max (map ChunkLength cs) 0"

lemma VerifyData_eq:
  assumes T: "length (table_addrs T) < 2 ^ 64" and env: "length (Data (Ctx256 env)) = 64"
    and B: "unat (Chunks Ctx - Buffer) + 36 * unat (ChunkCount Ctx) \<le> length Buf"
  shows "OcAppleChunklistVerifyData env Ctx Buffer Buf m T AllocatePool =
    (let cs = map (chunk_ptr Ctx Buffer Buf) [0..<unat (ChunkCount Ctx)]
     in Some (AllocatePool (max_chunk cs) \<and> chunks_match (disk_bytes m T) 0 cs))"
proof -
  have "fold (\<lambda>Index n. let CurrentChunk = chunk_ptr Ctx Buffer Buf Index
      in if n < ChunkLength CurrentChunk then ChunkLength CurrentChunk else n) is n =
    fold max (map (ChunkLength \<circ> chunk_ptr Ctx Buffer Buf) is) n" for "is" n
    by (induction "is" arbitrary: n) (simp_all add: Let_def max_def not_less, fastforce dest: leD)
  then show ?thesis using VerifyData_loop_eq[OF assms, of 0 m 0] by (simp add: OcAppleChunklistVerifyData_def max_chunk_def Let_def)
qed

definition signed_part :: "byte list \<Rightarrow> byte list" where
  "signed_part Buf = take (length Buf - 256) Buf"

text \<open>The header and the table of chunks are covered by the signature.\<close>

definition signed_layout :: "byte list \<Rightarrow> bool" where
  "signed_layout Buf \<longleftrightarrow> 36 \<le> length (signed_part Buf) \<and>
     unat (ChunkOffset (chunklist_header Buf)) + 36 * unat (HdrChunkCount (chunklist_header Buf)) \<le> length (signed_part Buf)"

lemma window_take: "off + n \<le> k \<Longrightarrow> window (take k xs) off n = window xs off n"
  by (simp add: window_def drop_take min_def)

lemma chunklist_header_take: "36 \<le> k \<Longrightarrow> chunklist_header (take k Buf) = chunklist_header Buf"
  by (simp add: chunklist_header_def read_le_def window_take)

lemma chunk_at_take: "off + 36 \<le> k \<Longrightarrow> chunk_at (take k Buf) off = chunk_at Buf off"
  by (simp add: chunk_at_def read_le_def window_take)

text \<open>The chunks that the code compares with the image: the table at the offset that the header names, which \<open>OcAppleChunklistInitializeContext\<close> only places inside the buffer, in the buffer with
  the reversed signature.\<close>

definition used_chunks :: "byte list \<Rightarrow> APPLE_CHUNKLIST_CHUNK list" where
  "used_chunks Buf =
     (let H = chunklist_header Buf; B = overwrite Buf (length Buf - 256) (rev (drop (length Buf - 256) Buf))
      in map (\<lambda>i. chunk_at B (unat (ChunkOffset H) + 36 * i)) [0..<unat (HdrChunkCount H)])"

text \<open>A signature over the digest of the signed part, stored in little-endian order behind it.\<close>

definition signed_by :: "OC_RSA_PUBLIC_KEY \<Rightarrow> byte list \<Rightarrow> bool" where
  "signed_by Key Buf \<longleftrightarrow>
     rsa_accepts (bn_val (take 32 (KeyData Key))) 256
       (pkcs_prefix OcSigHashTypeSha256 @ sha256_spec (signed_part Buf)) (rev (drop (length Buf - 256) Buf))"

lemma VerifySignature_eq:
  assumes env: "env_mul_ok env" and key: "rsa_key_ok Key" "unat (NumQwords Key) = 32" and s: "case Alloc of None \<Rightarrow> True | Some Scratch \<Rightarrow> 96 \<le> length Scratch"
    and ctx: "unat (SignaturePtr Ctx - Buffer) = length Buf - 256" "256 \<le> length Buf"
      "OC_APPLE_CHUNKLIST_CONTEXT.Hash Ctx = sha256_spec (signed_part Buf)"
  shows "OcAppleChunklistVerifySignature env Ctx Buffer (overwrite Buf (length Buf - 256) (rev (drop (length Buf - 256) Buf))) Key Alloc \<longleftrightarrow>
    Alloc \<noteq> None \<and> rsa_policy env 32 OcSigHashTypeSha256 \<and> signed_by Key Buf"
proof (cases Alloc)
  case None
  then show ?thesis by (simp add: OcAppleChunklistVerifySignature_def RsaVerifySigHashFromKeyDynalloc_def)
next
  case (Some Scratch)
  let ?S = "rev (drop (length Buf - 256) Buf)"
  have l: "length ?S = 256" "length (sha256_spec (signed_part Buf)) = 32" using ctx(2) by simp_all
  have w: "window (overwrite Buf (length Buf - 256) ?S) (length Buf - 256) 256 = ?S"
    using ctx(2) by (intro window_overwrite_same) simp_all
  have "3 * unat (NumQwords Key) \<le> length Scratch" using s key(2) Some by simp
  from RsaVerifySigHashFromKey_spec[OF env key(1) this, of ?S "sha256_spec (signed_part Buf)" OcSigHashTypeSha256]
  show ?thesis by (simp add: Some OcAppleChunklistVerifySignature_def RsaVerifySigHashFromKeyDynalloc_def ctx w l key(2) signed_by_def)
qed

lemma context_of_ok:
  assumes "initialized_context Buffer Buf Ctx" "chunklist_ok Buf"
  shows "Chunks Ctx - Buffer = ChunkOffset (chunklist_header Buf)" "ChunkCount Ctx = HdrChunkCount (chunklist_header Buf)"
    and "unat (SignaturePtr Ctx - Buffer) = length Buf - 256" "256 \<le> length Buf"
    and "OC_APPLE_CHUNKLIST_CONTEXT.Hash Ctx = sha256_spec (signed_part Buf)"
    and "unat (Chunks Ctx - Buffer) + 36 * unat (ChunkCount Ctx) \<le> length Buf"
proof -
  have "unat (SigOffset (chunklist_header Buf)) = length Buf - 256" using assms(2) by (auto simp: chunklist_ok_def Let_def)
  then show "Chunks Ctx - Buffer = ChunkOffset (chunklist_header Buf)" "ChunkCount Ctx = HdrChunkCount (chunklist_header Buf)"
    "unat (SignaturePtr Ctx - Buffer) = length Buf - 256" "256 \<le> length Buf"
    "OC_APPLE_CHUNKLIST_CONTEXT.Hash Ctx = sha256_spec (signed_part Buf)"
    "unat (Chunks Ctx - Buffer) + 36 * unat (ChunkCount Ctx) \<le> length Buf"
    using assms by (auto simp: initialized_context_def chunklist_ok_def Let_def signed_part_def)
qed

lemma DiskImageTrusted_eq:
  assumes env: "crypto_env_ok env" and T: "length (table_addrs T) < 2 ^ 64"
    and n: "length Buf = unat BufferSize" "unat Buffer + length Buf < 2 ^ 64"
    and s: "case S0 of None \<Rightarrow> True | Some S \<Rightarrow> 96 \<le> length S" "case S1 of None \<Rightarrow> True | Some S \<Rightarrow> 96 \<le> length S"
  shows "DiskImageTrusted env OcDmgLoadingAppleSigned Ctx (Some (Buffer, Buf, BufferSize)) (S0, S1) m T AllocatePool =
      Some (chunklist_ok Buf \<and> rsa_policy env 32 OcSigHashTypeSha256 \<and>
        (S0 \<noteq> None \<and> signed_by (PublicKey (PkDataBase ! 0)) Buf \<or> S1 \<noteq> None \<and> signed_by (PublicKey (PkDataBase ! 1)) Buf) \<and>
        AllocatePool (max_chunk (used_chunks Buf)) \<and> chunks_match (disk_bytes m T) 0 (used_chunks Buf))"
proof -
  let ?B = "overwrite Buf (length Buf - 256) (rev (drop (length Buf - 256) Buf))"
  have e: "env_mul_ok env" "length (Data (Ctx256 env)) = 64" using env by (simp_all add: crypto_env_ok_def)
  from InitializeContext_eq[OF n e(2), of Ctx] obtain C where
    i: "OcAppleChunklistInitializeContext env Ctx Buffer Buf BufferSize =
      (if chunklist_ok Buf then Some (True, C, ?B) else Some (False, C, Buf))"
    and c: "chunklist_ok Buf \<longrightarrow> initialized_context Buffer Buf C" by blast
  show ?thesis
  proof (cases "chunklist_ok Buf")
    case False
    then show ?thesis by (simp add: DiskImageTrusted_def i)
  next
    case True
    note cx = context_of_ok[OF c[rule_format, OF True] True]
    have k: "rsa_key_ok (PublicKey (PkDataBase ! 0))" "unat (NumQwords (PublicKey (PkDataBase ! 0))) = 32"
      "rsa_key_ok (PublicKey (PkDataBase ! 1))" "unat (NumQwords (PublicKey (PkDataBase ! 1))) = 32"
      by (simp_all add: PkDataBase_def mPkDb1_ok mPkDb2_ok) (simp_all add: mPkDb1_def mPkDb2_def)
    note v0 = VerifySignature_eq[OF e(1) k(1,2) s(1) cx(3,4,5)] and v1 = VerifySignature_eq[OF e(1) k(3,4) s(2) cx(3,4,5)]
    have cs: "map (chunk_ptr C Buffer ?B) [0..<unat (ChunkCount C)] = used_chunks Buf" by (simp add: used_chunks_def chunk_ptr_def Let_def cx(1,2))
    have d: "OcAppleChunklistVerifyData env C Buffer ?B m T AllocatePool =
      Some (AllocatePool (max_chunk (used_chunks Buf)) \<and> chunks_match (disk_bytes m T) 0 (used_chunks Buf))"
      using VerifyData_eq[OF T e(2), of C Buffer ?B m AllocatePool] cx(4,6) cs by (simp add: Let_def)
    show ?thesis using True by (auto simp: DiskImageTrusted_def i v0 v1 d simp del: One_nat_def)
  qed
qed

lemma used_chunks_signed: "256 \<le> length Buf \<Longrightarrow> signed_layout Buf \<Longrightarrow> used_chunks Buf = chunk_table (signed_part Buf)"
proof -
  assume b: "256 \<le> length Buf" "signed_layout Buf"
  let ?B = "overwrite Buf (length Buf - 256) (rev (drop (length Buf - 256) Buf))" and ?k = "length Buf - 256"
  have t: "take ?k ?B = signed_part Buf" using b(1) by (simp add: overwrite_def signed_part_def)
  have H: "chunklist_header (signed_part Buf) = chunklist_header Buf" using b(2) by (simp add: signed_part_def signed_layout_def chunklist_header_take)
  have "chunk_at ?B off = chunk_at (signed_part Buf) off" if "off + 36 \<le> ?k" for off using chunk_at_take[OF that, of ?B] t by simp
  moreover have "unat (ChunkOffset (chunklist_header Buf)) + 36 * unat (HdrChunkCount (chunklist_header Buf)) \<le> ?k" using b(2) by (simp add: signed_layout_def signed_part_def)
  ultimately show ?thesis by (simp add: used_chunks_def chunk_table_def H Let_def)
qed

section \<open>Properties\<close>

text \<open>
  C15: \<open>OcAppleChunklistInitializeContext\<close> accepts exactly the buffers whose header is supported, whose
  table of chunks lies in the buffer and whose signature ends it. It then fills the context with the
  places of the chunks and of the signature and the digest of everything before the signature, and reverses the
  signature in place; a rejected buffer is not changed.
\<close>

theorem OcAppleChunklistInitializeContext_correct:
  assumes "length Buf = unat BufferSize" "unat Buffer + length Buf < 2 ^ 64" "length (Data (Ctx256 env)) = 64"
  shows "\<exists>Ctx'. OcAppleChunklistInitializeContext env Ctx Buffer Buf BufferSize =
    (if chunklist_ok Buf
     then Some (True, Ctx', overwrite Buf (length Buf - 256) (rev (drop (length Buf - 256) Buf)))
     else Some (False, Ctx', Buf)) \<and> (chunklist_ok Buf \<longrightarrow> initialized_context Buffer Buf Ctx')"
  using assms by (rule InitializeContext_eq)

text \<open>A chunklist without chunks.\<close>

definition sample_header :: "byte list" where
  "sample_header = [0x43, 0x4E, 0x4B, 0x4C, 36, 0, 0, 0, 1, 1, 1, 0, 0, 0, 0, 0, 0, 0, 0, 0,
     36, 0, 0, 0, 0, 0, 0, 0, 36, 0, 0, 0, 0, 0, 0, 0]"

definition sample_chunklist :: "byte list" where
  "sample_chunklist = sample_header @ replicate 256 7"

definition sample_context :: OC_APPLE_CHUNKLIST_CONTEXT where
  "sample_context = \<lparr>ChunkCount = 0, Chunks = 0x1000, SignaturePtr = 0, OC_APPLE_CHUNKLIST_CONTEXT.Hash = []\<rparr>"

lemma length_sample_chunklist: "length sample_chunklist = 292"
  by (simp add: sample_chunklist_def sample_header_def)

lemma sample_chunklist_header:
  "chunklist_header sample_chunklist = \<lparr>Magic = APPLE_CHUNKLIST_MAGIC, HdrLength = 36, FileVersion = 1, ChunkMethod = 1, SigMethod = 1,
     HdrChunkCount = 0, ChunkOffset = 36, SigOffset = 36\<rparr>"
proof -
  have "chunklist_header sample_chunklist = chunklist_header sample_header"
    using chunklist_header_take[of 36 sample_chunklist] by (simp add: sample_chunklist_def sample_header_def)
  then show ?thesis by (simp add: chunklist_header_def read_le_def window_def sample_header_def APPLE_CHUNKLIST_MAGIC_def)
qed

lemma sample_chunklist_ok: "chunklist_ok sample_chunklist"
  by (simp add: chunklist_ok_def length_sample_chunklist sample_chunklist_header)

theorem OcAppleChunklistInitializeContext_correct_witness:
  "\<exists>Ctx'. OcAppleChunklistInitializeContext sample_env sample_context 0x1000 sample_chunklist 292 =
    Some (True, Ctx', overwrite sample_chunklist 36 (rev (drop 36 sample_chunklist))) \<and>
    initialized_context 0x1000 sample_chunklist Ctx'"
  using OcAppleChunklistInitializeContext_correct[of sample_chunklist 292 "0x1000" sample_env sample_context] sample_chunklist_ok
  by (simp add: length_sample_chunklist sample_env_def)

text \<open>
  C25: for a table of chunks inside the buffer of which none is empty, \<open>OcAppleChunklistVerifyData\<close> returns, and it accepts exactly when the buffer for the largest chunk is allocated and the disk
  starts with one piece per chunk, of the length and with the SHA-256 digest that the chunk states.
\<close>

theorem OcAppleChunklistVerifyData_correct:
  assumes "length (table_addrs T) < 2 ^ 64" "length (Data (Ctx256 env)) = 64"
    and "unat (Chunks Ctx - Buffer) + 36 * unat (ChunkCount Ctx) \<le> length Buf"
    and "cs = map (chunk_ptr Ctx Buffer Buf) [0..<unat (ChunkCount Ctx)]" "list_all (\<lambda>c. ChunkLength c \<noteq> 0) cs"
  shows "OcAppleChunklistVerifyData env Ctx Buffer Buf m T AllocatePool = Some (AllocatePool (max_chunk cs) \<and> authenticates cs (disk_bytes m T))"
proof -
  have "chunks_match (disk_bytes m T) 0 cs \<longleftrightarrow> authenticates cs (disk_bytes m T)"
    using chunks_match_iff[of 0 "disk_bytes m T" cs] assms(5) by (auto simp: list_all_iff)
  then show ?thesis using VerifyData_eq[OF assms(1-3), of m AllocatePool] assms(4) by (simp add: Let_def)
qed

text \<open>A table of two chunks for a disk of five bytes: a chunk of two bytes and one of three.\<close>

definition sample_chunks :: "byte list" where
  "sample_chunks = [2, 0, 0, 0] @ sha256_spec [7, 7] @ [3, 0, 0, 0] @ sha256_spec [7, 7, 7]"

lemma sample_chunks_at:
  "chunk_at sample_chunks 0 = \<lparr>ChunkLength = 2, Checksum = sha256_spec [7, 7]\<rparr>" "chunk_at sample_chunks 36 = \<lparr>ChunkLength = 3, Checksum = sha256_spec [7, 7, 7]\<rparr>"
proof -
  have l: "length (sha256_spec [7, 7]) = 32" "length (sha256_spec [7, 7, 7]) = 32" by simp_all
  have "window sample_chunks 0 4 = [2, 0, 0, 0]" "window sample_chunks 4 32 = sha256_spec [7, 7]" "window sample_chunks 36 4 = [3, 0, 0, 0]"
    "window sample_chunks 40 32 = sha256_spec [7, 7, 7]" using l by (simp_all add: window_def sample_chunks_def)
  then show "chunk_at sample_chunks 0 = \<lparr>ChunkLength = 2, Checksum = sha256_spec [7, 7]\<rparr>" "chunk_at sample_chunks 36 = \<lparr>ChunkLength = 3, Checksum = sha256_spec [7, 7, 7]\<rparr>"
    by (simp_all add: chunk_at_def read_le_def)
qed

text \<open>The disk of five bytes 7 is accepted when the buffer is allocated, and not otherwise.\<close>

theorem OcAppleChunklistVerifyData_correct_witness:
  "OcAppleChunklistVerifyData sample_env (sample_context\<lparr>ChunkCount := 2\<rparr>) 0x1000 sample_chunks (\<lambda>_. 7) sample_table (\<lambda>_. True) = Some True \<and>
   OcAppleChunklistVerifyData sample_env (sample_context\<lparr>ChunkCount := 2\<rparr>) 0x1000 sample_chunks (\<lambda>_. 7) sample_table (\<lambda>_. False) = Some False"
proof -
  let ?C = "sample_context\<lparr>ChunkCount := 2\<rparr>" and ?cs = "[chunk_at sample_chunks 0, chunk_at sample_chunks 36]"
  have cs: "?cs = map (chunk_ptr ?C 0x1000 sample_chunks) [0..<unat (ChunkCount ?C)]" by (simp add: chunk_ptr_def sample_context_def upt_rec)
  have ne: "list_all (\<lambda>c. ChunkLength c \<noteq> 0) ?cs" by (simp add: sample_chunks_at)
  have len: "unat (Chunks ?C - 0x1000) + 36 * unat (ChunkCount ?C) \<le> length sample_chunks" by (simp add: sample_context_def sample_chunks_def)
  have d: "disk_bytes (\<lambda>_. 7) sample_table = [7, 7, 7, 7, 7]" by (simp add: disk_bytes_def sample_table_addrs)
  have "authenticates ?cs (disk_bytes (\<lambda>_. 7) sample_table)"
    unfolding authenticates_def d sample_chunks_at by (intro exI[of _ "[[7, 7], [7, 7, 7]]"] exI[of _ "[]"]) simp
  then show ?thesis using OcAppleChunklistVerifyData_correct[OF _ _ len cs ne, of sample_table sample_env "\<lambda>_. 7"] by (simp add: sample_table_addrs sample_env_def)
qed

text \<open>
  C1: with signed images required and a chunklist present, the image is trusted exactly when the chunklist is well-formed, the build allows its kind of signature, the signature over everything before it is
  accepted under one of the two Apple keys (whose check got its memory), the buffer for the chunks is allocated, and the chunks match the disk; an image that is trusted then starts with the pieces that
  the table of chunks describes. The code does not check that header and table lie before the signature; when they do, the table is part of what is signed. Without a chunklist no image is trusted.
\<close>

theorem DiskImageTrusted_safe:
  assumes "crypto_env_ok env" "length (table_addrs T) < 2 ^ 64"
    and "length Buf = unat BufferSize" "unat Buffer + length Buf < 2 ^ 64"
    and "case S0 of None \<Rightarrow> True | Some S \<Rightarrow> 96 \<le> length S" "case S1 of None \<Rightarrow> True | Some S \<Rightarrow> 96 \<le> length S"
  shows "\<exists>r. DiskImageTrusted env OcDmgLoadingAppleSigned Ctx (Some (Buffer, Buf, BufferSize)) (S0, S1) m T AllocatePool = Some r \<and>
    (r \<longleftrightarrow> chunklist_ok Buf \<and> rsa_policy env 32 OcSigHashTypeSha256 \<and>
      (S0 \<noteq> None \<and> signed_by (PublicKey (PkDataBase ! 0)) Buf \<or> S1 \<noteq> None \<and> signed_by (PublicKey (PkDataBase ! 1)) Buf) \<and>
      AllocatePool (max_chunk (used_chunks Buf)) \<and> chunks_match (disk_bytes m T) 0 (used_chunks Buf)) \<and>
    (r \<longrightarrow> authenticates (used_chunks Buf) (disk_bytes m T) \<and> (signed_layout Buf \<longrightarrow> used_chunks Buf = chunk_table (signed_part Buf))) \<and>
    DiskImageTrusted env OcDmgLoadingAppleSigned Ctx None (S0, S1) m T AllocatePool = Some False"
proof -
  have "256 \<le> length Buf" if "chunklist_ok Buf" using that by (auto simp: chunklist_ok_def Let_def)
  then show ?thesis
    unfolding DiskImageTrusted_eq[OF assms] using chunks_match_iff(1)[of 0 "disk_bytes m T" "used_chunks Buf"] used_chunks_signed[of Buf]
    by (auto simp: DiskImageTrusted_def)
qed

theorem DiskImageTrusted_safe_witness:
  "\<exists>r. DiskImageTrusted sample_env OcDmgLoadingAppleSigned sample_context (Some (0x1000, sample_chunklist, 292))
      (Some (replicate 96 0), None) (\<lambda>_. 7) sample_table (\<lambda>_. True) = Some r \<and>
    (r \<longleftrightarrow> rsa_policy sample_env 32 OcSigHashTypeSha256 \<and> signed_by (PublicKey (PkDataBase ! 0)) sample_chunklist)"
proof -
  have h: "chunklist_header sample_chunklist = \<lparr>Magic = APPLE_CHUNKLIST_MAGIC, HdrLength = 36, FileVersion = 1, ChunkMethod = 1, SigMethod = 1, HdrChunkCount = 0, ChunkOffset = 36, SigOffset = 36\<rparr>"
    by (rule sample_chunklist_header)
  have "used_chunks sample_chunklist = []" by (simp add: used_chunks_def h)
  then show ?thesis
    using DiskImageTrusted_safe[of sample_env sample_table sample_chunklist 292 "0x1000" "Some (replicate 96 0)" None sample_context "\<lambda>_. 7" "\<lambda>_. True"] sample_chunklist_ok
    by (auto simp: sample_env_ok sample_table_addrs length_sample_chunklist)
qed

end
