(* ===== verification/Oc_Flex.thy ===== *)
theory Oc_Flex
  imports Oc_Prelude
begin

text \<open>
  Model of \<^verbatim>\<open>Library/OcFlexArrayLib/FlexArray.c\<close> and \<^verbatim>\<open>AsciiStringBuffer.c\<close>: growable arrays of items and growable
  strings. \<open>Items\<close> is the contents of the allocated block, \<open>None\<close> the null pointer; a pointer to an item is
  its offset in the block. The pool allocator is an argument, a failed allocation is \<open>None\<close>. The result
  \<open>None\<close> of an operation is an access outside the allocated block, or a loop that does not end.
\<close>

section \<open>The pool\<close>

record pool =
  AllocatePool :: "nat \<Rightarrow> byte list option"
  ReallocatePool :: "nat \<Rightarrow> nat \<Rightarrow> byte list \<Rightarrow> byte list option"

definition ZeroMem :: "byte list \<Rightarrow> nat \<Rightarrow> nat \<Rightarrow> byte list option" where
  "ZeroMem B off n = (if off + n \<le> length B then Some (overwrite B off (replicate n 0)) else None)"

definition CopyMem :: "byte list \<Rightarrow> nat \<Rightarrow> nat \<Rightarrow> nat \<Rightarrow> byte list option" where
  "CopyMem B dst src n = (if dst + n \<le> length B \<and> src + n \<le> length B then Some (overwrite B dst (window B src n)) else None)"

section \<open>Flex arrays\<close>

record 's OC_FLEX_ARRAY =
  Items :: "byte list option"
  ItemSize :: u64
  Count :: u64
  AllocatedCount :: u64
  FreeItem :: "(byte list \<Rightarrow> 's \<Rightarrow> 's) option"

definition INITIAL_NUM_ITEMS :: u64 where
  "INITIAL_NUM_ITEMS = 8"

text \<open>\<open>Allocated\<close>: whether the pool has room for the array itself.\<close>

definition OcFlexArrayInit :: "bool \<Rightarrow> u64 \<Rightarrow> (byte list \<Rightarrow> 's \<Rightarrow> 's) option \<Rightarrow> 's OC_FLEX_ARRAY option" where
  "OcFlexArrayInit Allocated Size Free =
     (if Allocated then Some \<lparr>Items = None, ItemSize = Size, Count = 0, AllocatedCount = 0, FreeItem = Free\<rparr> else None)"

definition InternalFlexArrayItemAt :: "'s OC_FLEX_ARRAY \<Rightarrow> u64 \<Rightarrow> u64" where
  "InternalFlexArrayItemAt FlexArray Index = Index * ItemSize FlexArray"

definition InternalFlexArrayAddItem :: "pool \<Rightarrow> 's OC_FLEX_ARRAY \<Rightarrow> u64 option \<times> 's OC_FLEX_ARRAY" where
  "InternalFlexArrayAddItem Pool FlexArray =
     (case Items FlexArray of
        None \<Rightarrow>
          (let FlexArray = FlexArray\<lparr>AllocatedCount := INITIAL_NUM_ITEMS\<rparr>;
               (Overflow, NewSize) = BaseOverflowMulUN (AllocatedCount FlexArray) (ItemSize FlexArray)
           in if Overflow then (None, FlexArray)
              else
                (let FlexArray = FlexArray\<lparr>Count := 1, Items := AllocatePool Pool (unat NewSize)\<rparr>
                 in if Items FlexArray = None then (None, FlexArray)
                    else (Some (InternalFlexArrayItemAt FlexArray (Count FlexArray - 1)), FlexArray)))
      | Some B \<Rightarrow>
          (let FlexArray = FlexArray\<lparr>Count := Count FlexArray + 1\<rparr>
           in if Count FlexArray > AllocatedCount FlexArray
              then
                (let OldSize = AllocatedCount FlexArray * ItemSize FlexArray;
                     (Overflow, NewSize) = BaseOverflowMulUN OldSize 2
                 in if Overflow then (None, FlexArray)
                    else
                      (case ReallocatePool Pool (unat OldSize) (unat NewSize) B of
                         None \<Rightarrow> (None, FlexArray)
                       | Some TmpBuffer \<Rightarrow>
                           (let FlexArray = FlexArray\<lparr>Items := Some TmpBuffer, AllocatedCount := AllocatedCount FlexArray * 2\<rparr>
                            in (Some (InternalFlexArrayItemAt FlexArray (Count FlexArray - 1)), FlexArray))))
              else (Some (InternalFlexArrayItemAt FlexArray (Count FlexArray - 1)), FlexArray)))"

text \<open>The bytes of the block, for an array that has one.\<close>

definition block :: "'s OC_FLEX_ARRAY \<Rightarrow> byte list" where
  "block FlexArray = (case Items FlexArray of None \<Rightarrow> [] | Some B \<Rightarrow> B)"

definition OcFlexArrayAddItem :: "pool \<Rightarrow> 's OC_FLEX_ARRAY \<Rightarrow> (u64 option \<times> 's OC_FLEX_ARRAY) option" where
  "OcFlexArrayAddItem Pool FlexArray =
     (case InternalFlexArrayAddItem Pool FlexArray of
        (None, FlexArray) \<Rightarrow> Some (None, FlexArray)
      | (Some Item, FlexArray) \<Rightarrow> do {
          B \<leftarrow> ZeroMem (block FlexArray) (unat Item) (unat (ItemSize FlexArray));
          Some (Some Item, FlexArray\<lparr>Items := Some B\<rparr>)
        })"

definition OcFlexArrayInsertItem :: "pool \<Rightarrow> 's OC_FLEX_ARRAY \<Rightarrow> u64 \<Rightarrow> (u64 option \<times> 's OC_FLEX_ARRAY) option" where
  "OcFlexArrayInsertItem Pool FlexArray InsertIndex =
     (if InsertIndex = Count FlexArray then OcFlexArrayAddItem Pool FlexArray
      else
        (case InternalFlexArrayAddItem Pool FlexArray of
           (None, FlexArray) \<Rightarrow> Some (None, FlexArray)
         | (Some _, FlexArray) \<Rightarrow>
             (let Item = InternalFlexArrayItemAt FlexArray InsertIndex;
                  Dest = InternalFlexArrayItemAt FlexArray (InsertIndex + 1)
              in do {
                   B \<leftarrow> CopyMem (block FlexArray) (unat Dest) (unat Item) (unat ((Count FlexArray - InsertIndex) * ItemSize FlexArray));
                   B \<leftarrow> ZeroMem B (unat Item) (unat (ItemSize FlexArray));
                   Some (Some Item, FlexArray\<lparr>Items := Some B\<rparr>)
                 })))"

definition OcFlexArrayItemAt :: "'s OC_FLEX_ARRAY \<Rightarrow> u64 \<Rightarrow> u64" where
  "OcFlexArrayItemAt FlexArray Index = InternalFlexArrayItemAt FlexArray Index"

text \<open>The item that a pointer into the block designates.\<close>

definition item_at :: "'s OC_FLEX_ARRAY \<Rightarrow> u64 \<Rightarrow> byte list option" where
  "item_at FlexArray Item =
     (if unat Item + unat (ItemSize FlexArray) \<le> length (block FlexArray)
      then Some (window (block FlexArray) (unat Item) (unat (ItemSize FlexArray))) else None)"

text \<open>\<open>s\<close> is the state that \<open>FreeItem\<close> works on.\<close>

definition OcFlexArrayFree :: "'s OC_FLEX_ARRAY option \<Rightarrow> 's \<Rightarrow> ('s OC_FLEX_ARRAY option \<times> 's) option" where
  "OcFlexArrayFree FlexArray s =
     (case FlexArray of
        None \<Rightarrow> Some (None, s)
      | Some FA \<Rightarrow>
          (case (Items FA, FreeItem FA) of
             (Some _, Some Free) \<Rightarrow> do {
               s \<leftarrow> fold (\<lambda>Index st. do { s \<leftarrow> st; Item \<leftarrow> item_at FA (InternalFlexArrayItemAt FA (of_nat Index)); Some (Free Item s) })
                      [0..<unat (Count FA)] (Some s);
               Some (None, s)
             }
           | _ \<Rightarrow> Some (None, s)))"

definition OcFlexArrayDiscardItem :: "'s OC_FLEX_ARRAY \<Rightarrow> bool \<Rightarrow> 's \<Rightarrow> ('s OC_FLEX_ARRAY \<times> 's) option" where
  "OcFlexArrayDiscardItem FlexArray Free s =
     do {
       s \<leftarrow> (case FreeItem FlexArray of
               Some f \<Rightarrow>
                 if Free
                 then do { Item \<leftarrow> item_at FlexArray (InternalFlexArrayItemAt FlexArray (Count FlexArray - 1)); Some (f Item s) }
                 else Some s
             | None \<Rightarrow> Some s);
       Some (FlexArray\<lparr>Count := Count FlexArray - 1\<rparr>, s)
     }"

definition OcFlexArrayFreeContainer :: "'s OC_FLEX_ARRAY option \<Rightarrow> byte list option \<times> u64" where
  "OcFlexArrayFreeContainer FlexArray =
     (case FlexArray of
        None \<Rightarrow> (None, 0)
      | Some FA \<Rightarrow> (if Count FA = 0 \<and> Items FA \<noteq> None then None else Items FA, Count FA))"

section \<open>String buffers\<close>

datatype EFI_STATUS = EFI_SUCCESS | EFI_OUT_OF_RESOURCES | EFI_UNSUPPORTED | EFI_INVALID_PARAMETER

record OC_ASCII_STRING_BUFFER =
  String :: "byte list option"
  StringLength :: u64
  BufferSize :: u64

definition OcAsciiStringBufferInit :: "bool \<Rightarrow> OC_ASCII_STRING_BUFFER option" where
  "OcAsciiStringBufferInit Allocated =
     (if Allocated then Some \<lparr>String = None, StringLength = 0, BufferSize = 0\<rparr> else None)"

text \<open>The doubling loop: the new size, or \<open>None\<close> for an overflow.\<close>

definition grow_body :: "u64 \<Rightarrow> u64 \<Rightarrow> (u64, u64 option) ctl" where
  "grow_body TargetLength NewSize =
     (if NewSize \<le> TargetLength
      then (let (Overflow, NewSize) = BaseOverflowMulUN NewSize 2 in if Overflow then Break None else Continue NewSize)
      else Break (Some NewSize))"

definition InternalAsciiStringBufferExtendBy ::
  "pool \<Rightarrow> OC_ASCII_STRING_BUFFER \<Rightarrow> u64 \<Rightarrow> u64 \<Rightarrow> (EFI_STATUS \<times> OC_ASCII_STRING_BUFFER \<times> u64) option" where
  "InternalAsciiStringBufferExtendBy Pool Buffer AppendLength TargetLength =
     (case String Buffer of
        None \<Rightarrow>
          (case AllocatePool Pool (unat (AppendLength + 1)) of
             None \<Rightarrow> Some (EFI_OUT_OF_RESOURCES, Buffer, TargetLength)
           | Some S \<Rightarrow> Some (EFI_SUCCESS, Buffer\<lparr>String := Some S, BufferSize := AppendLength + 1\<rparr>, AppendLength))
      | Some S \<Rightarrow>
          if BufferSize Buffer = 0 then Some (EFI_UNSUPPORTED, Buffer, TargetLength)
          else
            (let (Overflow, TargetLength) = BaseOverflowAddUN (StringLength Buffer) AppendLength
             in if Overflow then Some (EFI_OUT_OF_RESOURCES, Buffer, TargetLength)
                else do {
                  Grown \<leftarrow> iterate (grow_body TargetLength) (BufferSize Buffer);
                  (case Grown of
                     None \<Rightarrow> Some (EFI_OUT_OF_RESOURCES, Buffer, TargetLength)
                   | Some NewSize \<Rightarrow>
                       if NewSize > BufferSize Buffer
                       then
                         (let Buffer' = Buffer\<lparr>String := ReallocatePool Pool (unat (BufferSize Buffer)) (unat NewSize) S\<rparr>
                          in if String Buffer' = None then Some (EFI_OUT_OF_RESOURCES, Buffer', TargetLength)
                             else Some (EFI_SUCCESS, Buffer'\<lparr>BufferSize := NewSize\<rparr>, TargetLength))
                       else Some (EFI_SUCCESS, Buffer, TargetLength))
                }))"

text \<open>
  \<open>AsciiStrnLenS\<close> and \<open>AsciiStrnCpyS\<close> of the base library: the length of a string of at most \<open>MaxSize\<close>
  characters (\<open>Text\<close> is the memory from the start of the string), and the copy with its terminator, which
  is refused when \<open>DestMax\<close> exceeds the limit \<open>Rsize\<close> of the library (0 for none).
\<close>

definition AsciiStrnLenS :: "byte list \<Rightarrow> nat \<Rightarrow> nat" where
  "AsciiStrnLenS Text MaxSize = length (takeWhile (\<lambda>c. c \<noteq> 0) (take MaxSize Text))"

definition AsciiStrnCpyS :: "nat \<Rightarrow> byte list \<Rightarrow> nat \<Rightarrow> nat \<Rightarrow> byte list \<Rightarrow> nat \<Rightarrow> (EFI_STATUS \<times> byte list) option" where
  "AsciiStrnCpyS Rsize Dest off DestMax Text Len =
     (if Rsize \<noteq> 0 \<and> DestMax > Rsize then Some (EFI_INVALID_PARAMETER, Dest)
      else if off + (Len + 1) \<le> length Dest then Some (EFI_SUCCESS, overwrite Dest off (take Len Text @ [0]))
      else None)"

definition OcAsciiStringBufferAppendN ::
  "pool \<Rightarrow> nat \<Rightarrow> OC_ASCII_STRING_BUFFER \<Rightarrow> byte list option \<Rightarrow> u64 \<Rightarrow> u64 \<Rightarrow> (EFI_STATUS \<times> OC_ASCII_STRING_BUFFER) option" where
  "OcAsciiStringBufferAppendN Pool Rsize Buffer AppendString Len Stale =
     (case AppendString of
        None \<Rightarrow> Some (EFI_SUCCESS, Buffer)
      | Some Text \<Rightarrow>
          (let AppendLength = of_nat (AsciiStrnLenS Text (unat Len))
           in if AppendLength = 0 then Some (EFI_SUCCESS, Buffer)
              else do {
                (Status, Buffer, TargetLength) \<leftarrow> InternalAsciiStringBufferExtendBy Pool Buffer AppendLength Stale;
                if Status \<noteq> EFI_SUCCESS then Some (Status, Buffer)
                else do {
                  (Status, S) \<leftarrow> AsciiStrnCpyS Rsize (case String Buffer of None \<Rightarrow> [] | Some S \<Rightarrow> S) (unat (StringLength Buffer))
                    (unat (AppendLength + 1)) Text (unat AppendLength);
                  if Status \<noteq> EFI_SUCCESS then Some (Status, Buffer\<lparr>String := Some S\<rparr>)
                  else Some (EFI_SUCCESS, Buffer\<lparr>String := Some S, StringLength := TargetLength\<rparr>)
                }
              }))"

definition OcAsciiStringBufferAppend ::
  "pool \<Rightarrow> nat \<Rightarrow> OC_ASCII_STRING_BUFFER \<Rightarrow> byte list option \<Rightarrow> u64 \<Rightarrow> (EFI_STATUS \<times> OC_ASCII_STRING_BUFFER) option" where
  "OcAsciiStringBufferAppend Pool Rsize Buffer AppendString Stale =
     OcAsciiStringBufferAppendN Pool Rsize Buffer AppendString (- 1) Stale"

text \<open>\<open>Printed\<close> is the formatted text, whose length \<open>SPrintLengthAsciiFormat\<close> computes.\<close>

definition OcAsciiStringBufferSPrint ::
  "pool \<Rightarrow> OC_ASCII_STRING_BUFFER \<Rightarrow> byte list \<Rightarrow> u64 \<Rightarrow> (EFI_STATUS \<times> OC_ASCII_STRING_BUFFER) option" where
  "OcAsciiStringBufferSPrint Pool Buffer Printed Stale =
     (let NumberOfPrinted = of_nat (length Printed)
      in if NumberOfPrinted = 0 then Some (EFI_SUCCESS, Buffer)
         else do {
           (Status, Buffer, TargetLength) \<leftarrow> InternalAsciiStringBufferExtendBy Pool Buffer NumberOfPrinted Stale;
           if Status \<noteq> EFI_SUCCESS then Some (Status, Buffer)
           else do {
             (_, S) \<leftarrow> AsciiStrnCpyS 0 (case String Buffer of None \<Rightarrow> [] | Some S \<Rightarrow> S) (unat (StringLength Buffer))
               (unat (NumberOfPrinted + 1)) Printed (length Printed);
             Some (Status, Buffer\<lparr>String := Some S, StringLength := TargetLength\<rparr>)
           }
         })"

definition OcAsciiStringBufferFreeContainer :: "OC_ASCII_STRING_BUFFER option \<Rightarrow> byte list option" where
  "OcAsciiStringBufferFreeContainer StringBuffer = (case StringBuffer of None \<Rightarrow> None | Some B \<Rightarrow> String B)"

section \<open>Windows of an overwritten block\<close>

lemma window_overwrite_outside:
  assumes "off + length ys \<le> length xs" "off' + n \<le> length xs" "off' + n \<le> off \<or> off + length ys \<le> off'"
  shows "window (overwrite xs off ys) off' n = window xs off' n"
  using assms by (intro nth_equalityI) (auto simp: nth_overwrite)

lemma window_overwrite_inside:
  assumes "off + length ys \<le> length xs" "off \<le> off'" "off' + n \<le> off + length ys"
  shows "window (overwrite xs off ys) off' n = window ys (off' - off) n"
  using assms by (intro nth_equalityI) (auto simp: nth_overwrite)

lemma window_window: "off + n \<le> k \<Longrightarrow> off' + k \<le> length xs \<Longrightarrow> window (window xs off' k) off n = window xs (off' + off) n"
  by (intro nth_equalityI) (auto simp: add.assoc)

section \<open>Abstraction and invariant\<close>

text \<open>The first \<open>n\<close> items of \<open>sz\<close> bytes of a block.\<close>

definition slots :: "nat \<Rightarrow> nat \<Rightarrow> byte list \<Rightarrow> byte list list" where
  "slots sz n B = map (\<lambda>i. window B (i * sz) sz) [0..<n]"

definition items :: "'s OC_FLEX_ARRAY \<Rightarrow> byte list list" where
  "items FA = (case Items FA of None \<Rightarrow> [] | Some B \<Rightarrow> slots (unat (ItemSize FA)) (unat (Count FA)) B)"

definition flex_ok :: "'s OC_FLEX_ARRAY \<Rightarrow> bool" where
  "flex_ok FA \<longleftrightarrow> 0 < ItemSize FA \<and>
     (case Items FA of
        None \<Rightarrow> True
      | Some B \<Rightarrow> length B = unat (AllocatedCount FA) * unat (ItemSize FA) \<and> length B < 2 ^ 63 \<and>
          2 \<le> AllocatedCount FA \<and> Count FA \<le> AllocatedCount FA)"

text \<open>The documented behaviour of the pool; no block fills half of the address space.\<close>

definition pool_ok :: "pool \<Rightarrow> bool" where
  "pool_ok P \<longleftrightarrow>
     (\<forall>n B. AllocatePool P n = Some B \<longrightarrow> length B = n \<and> n < 2 ^ 63) \<and>
     (\<forall>old n B B'. ReallocatePool P old n B = Some B' \<and> old \<le> length B \<longrightarrow> length B' = n \<and> n < 2 ^ 63 \<and> take (min old n) B' = take (min old n) B)"

lemma ReallocatePool_ok:
  "pool_ok P \<Longrightarrow> ReallocatePool P old n B = Some B' \<Longrightarrow> old \<le> length B \<Longrightarrow>
    length B' = n \<and> n < 2 ^ 63 \<and> take (min old n) B' = take (min old n) B"
  unfolding pool_ok_def by blast

lemma length_slots [simp]: "length (slots sz n B) = n"
  by (simp add: slots_def)

lemma slots_Suc: "slots sz (Suc n) B = slots sz n B @ [window B (n * sz) sz]"
  by (simp add: slots_def)

lemma slot_end: "i < n \<Longrightarrow> i * sz + sz \<le> n * (sz :: nat)"
  using mult_le_mono1[of "Suc i" n sz] by simp

lemma slots_cong:
  assumes "take (n * sz) B = take (n * sz) B'"
  shows "slots sz n B = slots sz n B'"
proof -
  have "window B (i * sz) sz = window B' (i * sz) sz" if "i < n" for i
  proof -
    have "window X (i * sz) sz = window (take (n * sz) X) (i * sz) sz" for X :: "byte list"
      using slot_end[OF that, of sz] by (simp add: window_def drop_take min_def)
    then show ?thesis using assms by metis
  qed
  then show ?thesis by (simp add: slots_def)
qed

lemma slots_overwrite_last:
  "n * sz + sz \<le> length B \<Longrightarrow> length z = sz \<Longrightarrow> slots sz (Suc n) (overwrite B (n * sz) z) = slots sz n B @ [z]"
  by (simp add: slots_Suc) (rule slots_cong, simp add: overwrite_def)

text \<open>A successful growth: the block has room for one item more and keeps the items.\<close>

lemma InternalAddItem_Some:
  assumes ok: "flex_ok FA" and P: "pool_ok P" and r: "InternalFlexArrayAddItem P FA = (Some off, FA')"
  shows "flex_ok FA' \<and> ItemSize FA' = ItemSize FA \<and> FreeItem FA' = FreeItem FA \<and>
    unat (Count FA') = Suc (length (items FA)) \<and> unat off = length (items FA) * unat (ItemSize FA) \<and>
    (\<exists>B. Items FA' = Some B \<and> slots (unat (ItemSize FA)) (length (items FA)) B = items FA)"
proof (cases "Items FA")
  case None
  let ?sz = "unat (ItemSize FA)"
  from r None obtain B where B: "AllocatePool P (unat (8 * ItemSize FA)) = Some B" and ov: "8 * ?sz < 2 ^ 64"
    and e: "off = 0" "FA' = FA\<lparr>AllocatedCount := 8, Count := 1, Items := Some B\<rparr>"
    by (auto simp: InternalFlexArrayAddItem_def BaseOverflowMulUN_def INITIAL_NUM_ITEMS_def Let_def InternalFlexArrayItemAt_def
        not_le split: if_splits)
  have m: "unat (8 * ItemSize FA) = 8 * ?sz" using ov by (subst unat_mult_lem[THEN iffD1]) simp_all
  have "length B = 8 * ?sz" "length B < 2 ^ 63" using P B m unfolding pool_ok_def by auto
  then show ?thesis using ok e None by (simp add: flex_ok_def items_def slots_def word_le_nat_alt)
next
  case (Some B)
  let ?sz = "unat (ItemSize FA)" and ?n = "unat (Count FA)" and ?a = "unat (AllocatedCount FA)"
  have k: "0 < ?sz" "length B = ?a * ?sz" "length B < 2 ^ 63" "?n \<le> ?a" "2 \<le> ?a"
    using ok Some by (auto simp: flex_ok_def word_le_nat_alt unat_gt_0)
  have "?a * 1 \<le> ?a * ?sz" using k(1) by (intro mult_le_mono2) simp
  then have a: "?a < 2 ^ 63" using k(2,3) by linarith
  have n: "unat (Count FA + 1) = Suc ?n" using k(4) a by (subst unat_plus_no_wrap) simp_all
  have "?n * ?sz \<le> ?a * ?sz" using k(4) by (rule mult_le_mono1)
  moreover have "(2 :: nat) ^ 63 < 2 ^ 64" by simp
  ultimately have "?n * ?sz < 2 ^ 64" using k(2,3) by linarith
  then have o: "unat (Count FA * ItemSize FA) = ?n * ?sz" by (subst unat_mult_lem[THEN iffD1]) simp_all
  have it: "items FA = slots ?sz ?n B" by (simp add: items_def Some)
  show ?thesis
  proof (cases "Count FA + 1 > AllocatedCount FA")
    case False
    then have "FA' = FA\<lparr>Count := Count FA + 1\<rparr>" "off = Count FA * ItemSize FA"
      using r Some by (simp_all add: InternalFlexArrayAddItem_def Let_def InternalFlexArrayItemAt_def)
    then show ?thesis using ok Some False n o it k(1) by (simp add: flex_ok_def word_le_nat_alt word_less_nat_alt)
  next
    case True
    then have na: "?n = ?a" using n k(4) by (simp add: word_less_nat_alt)
    have os: "unat (AllocatedCount FA * ItemSize FA) = ?a * ?sz"
      using k(2,3) by (subst unat_mult_lem[THEN iffD1]) simp_all
    have ns: "unat (AllocatedCount FA * ItemSize FA * 2) = ?a * ?sz * 2"
      using os k(2,3) by (subst unat_mult_lem[THEN iffD1]) simp_all
    have aa: "unat (AllocatedCount FA * 2) = ?a * 2" using a by (subst unat_mult_lem[THEN iffD1]) simp_all
    from r Some True obtain T where T: "ReallocatePool P (?a * ?sz) (?a * ?sz * 2) B = Some T"
      and e: "FA' = FA\<lparr>Count := Count FA + 1, Items := Some T, AllocatedCount := AllocatedCount FA * 2\<rparr>" "off = Count FA * ItemSize FA"
      by (auto simp: InternalFlexArrayAddItem_def Let_def InternalFlexArrayItemAt_def os ns BaseOverflowMulUN_def split: if_splits option.splits)
    have t: "length T = ?a * ?sz * 2 \<and> ?a * ?sz * 2 < 2 ^ 63 \<and> take (min (?a * ?sz) (?a * ?sz * 2)) T = take (min (?a * ?sz) (?a * ?sz * 2)) B"
      using k(2) by (intro ReallocatePool_ok[OF P T]) simp
    have "slots ?sz ?n T = slots ?sz ?n B" using t na by (intro slots_cong) (simp add: min_def)
    then show ?thesis using e n o it na t aa k(1,5) ok
      by (simp add: flex_ok_def word_le_nat_alt word_less_nat_alt)
  qed
qed

lemma flex_ok_room:
  assumes "flex_ok FA" "Items FA = Some B" "n \<le> unat (Count FA)"
  shows "n * unat (ItemSize FA) \<le> length B" "length B < 2 ^ 63"
proof -
  have "n \<le> unat (AllocatedCount FA)" using assms by (simp add: flex_ok_def word_le_nat_alt)
  then have "n * unat (ItemSize FA) \<le> unat (AllocatedCount FA) * unat (ItemSize FA)" by (rule mult_le_mono1)
  then show "n * unat (ItemSize FA) \<le> length B" "length B < 2 ^ 63" using assms(1,2) by (simp_all add: flex_ok_def)
qed

lemma flex_ok_Items: "flex_ok FA \<Longrightarrow> Items FA = Some B \<Longrightarrow> length B' = length B \<Longrightarrow> flex_ok (FA\<lparr>Items := Some B'\<rparr>)"
  by (simp add: flex_ok_def)

lemma InternalAddItem_None:
  assumes "InternalFlexArrayAddItem P FA = (None, FA')"
  shows "Items FA' = Items FA \<and> Count FA' = (if Items FA = None \<and> 2 ^ 64 \<le> 8 * unat (ItemSize FA) then Count FA else
    if Items FA = None then 1 else Count FA + 1)"
  using assms by (auto simp: InternalFlexArrayAddItem_def Let_def BaseOverflowMulUN_def INITIAL_NUM_ITEMS_def split: option.splits if_splits)

lemma AddItem_spec:
  assumes ok: "flex_ok FA" and P: "pool_ok P"
  shows "\<exists>r FA'. OcFlexArrayAddItem P FA = Some (r, FA') \<and>
    (case r of
       Some off \<Rightarrow> flex_ok FA' \<and> items FA' = items FA @ [replicate (unat (ItemSize FA)) 0] \<and>
         unat off = length (items FA) * unat (ItemSize FA) \<and> ItemSize FA' = ItemSize FA
     | None \<Rightarrow> Items FA' = Items FA)"
proof (cases "InternalFlexArrayAddItem P FA")
  case (Pair r FA1)
  show ?thesis
  proof (cases r)
    case None
    then show ?thesis using Pair InternalAddItem_None[of P FA FA1] by (simp add: OcFlexArrayAddItem_def)
  next
    case (Some off)
    let ?sz = "unat (ItemSize FA)" and ?n = "length (items FA)"
    from InternalAddItem_Some[OF ok P] Pair Some obtain B where
      f: "flex_ok FA1" "ItemSize FA1 = ItemSize FA" "unat (Count FA1) = Suc ?n" "unat off = ?n * ?sz"
        "Items FA1 = Some B" "slots ?sz ?n B = items FA" by blast
    have l: "?n * ?sz + ?sz \<le> length B" using flex_ok_room(1)[OF f(1,5), of "Suc ?n"] f(2,3) by simp
    let ?B = "overwrite B (?n * ?sz) (replicate ?sz 0)" and ?FA = "FA1\<lparr>Items := Some (overwrite B (?n * ?sz) (replicate ?sz 0))\<rparr>"
    have "OcFlexArrayAddItem P FA = Some (Some off, ?FA)"
      using Pair Some f l by (simp add: OcFlexArrayAddItem_def ZeroMem_def block_def)
    moreover have "flex_ok ?FA" using flex_ok_Items[OF f(1,5)] l by simp
    moreover have "items ?FA = items FA @ [replicate ?sz 0]"
      using slots_overwrite_last[OF l, of "replicate ?sz 0"] f(2,3,6) by (simp add: items_def[of ?FA])
    ultimately show ?thesis using f(2,4) by auto
  qed
qed

text \<open>When an addition fails: the first block, or the doubled one of a full array, cannot be had.\<close>

definition out_of_memory :: "pool \<Rightarrow> 's OC_FLEX_ARRAY \<Rightarrow> bool" where
  "out_of_memory P FA \<longleftrightarrow>
     (case Items FA of
        None \<Rightarrow> 2 ^ 64 \<le> 8 * unat (ItemSize FA) \<or> AllocatePool P (8 * unat (ItemSize FA)) = None
      | Some B \<Rightarrow> Count FA = AllocatedCount FA \<and> ReallocatePool P (length B) (2 * length B) B = None)"

lemma InternalAddItem_fails:
  assumes ok: "flex_ok FA"
  shows "fst (InternalFlexArrayAddItem P FA) = None \<longleftrightarrow> out_of_memory P FA"
proof (cases "Items FA")
  case None
  have "uint (8 :: u64) * uint (ItemSize FA) = int (8 * unat (ItemSize FA))" by simp
  then have ov: "fst (BaseOverflowMulUN 8 (ItemSize FA)) \<longleftrightarrow> 2 ^ 64 \<le> 8 * unat (ItemSize FA)"
    by (simp add: BaseOverflowMulUN_def del: of_nat_mult)
  have m: "8 * unat (ItemSize FA) < 2 ^ 64 \<Longrightarrow> unat (8 * ItemSize FA) = 8 * unat (ItemSize FA)"
    by (subst unat_mult_lem[THEN iffD1]) simp_all
  have p: "snd (BaseOverflowMulUN 8 (ItemSize FA)) = 8 * ItemSize FA" by (simp add: BaseOverflowMulUN_def)
  show ?thesis
    using None ov m p
    by (cases "2 ^ 64 \<le> 8 * unat (ItemSize FA)") (auto simp: InternalFlexArrayAddItem_def out_of_memory_def INITIAL_NUM_ITEMS_def Let_def split_beta)
next
  case (Some B)
  have k: "length B = unat (AllocatedCount FA) * unat (ItemSize FA)" "length B < 2 ^ 63" "unat (Count FA) \<le> unat (AllocatedCount FA)" "0 < unat (ItemSize FA)"
    using ok Some by (auto simp: flex_ok_def word_le_nat_alt unat_gt_0)
  then have os: "unat (AllocatedCount FA * ItemSize FA) = length B" by (subst unat_mult_lem[THEN iffD1]) simp_all
  have ns: "unat (AllocatedCount FA * ItemSize FA * 2) = 2 * length B" using os k(2) by (subst unat_mult_lem[THEN iffD1]) simp_all
  have "unat (AllocatedCount FA) * 1 \<le> unat (AllocatedCount FA) * unat (ItemSize FA)" using k(4) by (intro mult_le_mono2) simp
  then have "unat (Count FA) < 2 ^ 63" using k(1-3) by linarith
  then have "unat (Count FA + 1) = Suc (unat (Count FA))" by (subst unat_plus_no_wrap) simp_all
  then have full: "Count FA + 1 > AllocatedCount FA \<longleftrightarrow> Count FA = AllocatedCount FA"
    using k(3) by (auto simp: word_less_nat_alt word_unat_eq_iff)
  show ?thesis
    using Some os ns k(2) full
    by (auto simp: InternalFlexArrayAddItem_def out_of_memory_def Let_def BaseOverflowMulUN_def split: option.splits)
qed

lemma AddItem_fails: "flex_ok FA \<Longrightarrow> OcFlexArrayAddItem P FA = Some (r, FA') \<Longrightarrow> r = None \<longleftrightarrow> out_of_memory P FA"
  using InternalAddItem_fails[of FA P] by (auto simp: OcFlexArrayAddItem_def bind_eq_Some_conv split: prod.splits option.splits)

text \<open>The move of the items behind the insertion point: the number of bytes that \<open>OcFlexArrayInsertItem\<close> moves
  reaches one item beyond the last one.\<close>

lemma moved_end:
  assumes "k \<le> n"
  shows "(k + 1) * sz + (n + 1 - k) * sz = (n + 2) * (sz :: nat)" "k * sz + (n + 1 - k) * sz = (n + 1) * sz"
proof -
  obtain d where d: "n = k + d" using assms le_Suc_ex by blast
  show "(k + 1) * sz + (n + 1 - k) * sz = (n + 2) * sz" "k * sz + (n + 1 - k) * sz = (n + 1) * sz"
    unfolding d by (simp_all add: algebra_simps)
qed

lemma insert_slots:
  assumes k: "k < n" and l: "(n + 2) * sz \<le> length B" and z: "length z = sz"
  shows "slots sz (Suc n) (overwrite (overwrite B ((k + 1) * sz) (window B (k * sz) ((n + 1 - k) * sz))) (k * sz) z) =
    take k (slots sz n B) @ [z] @ drop k (slots sz n B)" (is "slots sz (Suc n) ?B2 = ?R")
proof (rule nth_equalityI)
  let ?w = "window B (k * sz) ((n + 1 - k) * sz)" and ?B1 = "overwrite B ((k + 1) * sz) (window B (k * sz) ((n + 1 - k) * sz))"
  note e = moved_end[OF less_imp_le[OF k], of sz]
  have w: "length ?w = (n + 1 - k) * sz" using e(2) l by simp
  have l1: "length ?B1 = length B" using e(1) l w by simp
  have ks: "k * sz + sz \<le> length B" using slot_end[of k "n + 2" sz] k l by linarith
  fix i assume "i < length (slots sz (Suc n) ?B2)"
  then have i: "i < Suc n" by simp
  have ie: "i * sz + sz \<le> (n + 1) * sz" using slot_end[of i "n + 1" sz] i by simp
  have nl: "(n + 1) * sz \<le> length B" using mult_le_mono1[of "n + 1" "n + 2" sz] l by linarith
  have il: "i * sz + sz \<le> length B" using ie nl by (rule le_trans)
  have s: "slots sz (Suc n) ?B2 ! i = window ?B2 (i * sz) sz" using i by (simp add: slots_def del: upt_Suc)
  consider "i < k" | "i = k" | "k < i" by linarith
  then show "slots sz (Suc n) ?B2 ! i = ?R ! i"
  proof cases
    case 1
    then have "i * sz + sz \<le> k * sz" by (rule slot_end)
    then have "window ?B2 (i * sz) sz = window B (i * sz) sz"
      using window_overwrite_outside[of "k * sz" z ?B1 "i * sz" sz] window_overwrite_outside[of "(k + 1) * sz" ?w B "i * sz" sz]
        l1 z ks il w e(1) l 1 by simp
    then show ?thesis using 1 k s by (simp add: slots_def nth_append)
  next
    case 2
    then show ?thesis using s k l1 z ks by (simp add: nth_append)
  next
    case 3
    then have a: "k * sz + sz \<le> i * sz" by (rule slot_end)
    have b: "i * sz - (k + 1) * sz + k * sz = (i - 1) * sz" using a by (simp add: diff_mult_distrib)
    have q: "(k + 1) * sz = k * sz + sz" by simp
    have c: "i * sz - (k + 1) * sz + sz \<le> (n + 1 - k) * sz" using ie a e(2) unfolding q by linarith
    have "window ?B2 (i * sz) sz = window ?B1 (i * sz) sz"
      using window_overwrite_outside[of "k * sz" z ?B1 "i * sz" sz] l1 z ks il a by simp
    also have "\<dots> = window ?w (i * sz - (k + 1) * sz) sz"
    proof (rule window_overwrite_inside)
      show "(k + 1) * sz + length ?w \<le> length B" using e(1) l w by simp
      show "(k + 1) * sz \<le> i * sz" using a q by simp
      show "i * sz + sz \<le> (k + 1) * sz + length ?w" using ie mult_le_mono1[of "n + 1" "n + 2" sz] unfolding w e(1) by linarith
    qed
    also have "\<dots> = window B ((i - 1) * sz) sz"
      using window_window[OF c, of "k * sz" B] e(2) l b by (simp add: add.commute)
    finally have v: "slots sz (Suc n) ?B2 ! i = window B ((i - 1) * sz) sz" using s by simp
    have "i - 1 < n" using 3 i by simp
    then show ?thesis using v 3 k i by (simp add: nth_append nth_Cons' Suc_diff_Suc slots_def)
  qed
qed (use k in simp)

lemma InsertItem_grown:
  assumes ok: "flex_ok FA" and P: "pool_ok P" and k: "unat k < length (items FA)" "k \<noteq> Count FA"
    and g: "InternalFlexArrayAddItem P FA = (Some off, FA1)" "Items FA1 = Some B"
  shows "OcFlexArrayInsertItem P FA k =
    (if (length (items FA) + 2) * unat (ItemSize FA) \<le> length B
     then Some (Some (k * ItemSize FA), FA1\<lparr>Items := Some (overwrite (overwrite B ((unat k + 1) * unat (ItemSize FA))
       (window B (unat k * unat (ItemSize FA)) ((length (items FA) + 1 - unat k) * unat (ItemSize FA))))
       (unat k * unat (ItemSize FA)) (replicate (unat (ItemSize FA)) 0))\<rparr>)
     else None)"
proof -
  let ?sz = "unat (ItemSize FA)" and ?n = "length (items FA)" and ?k = "unat k"
  have f: "flex_ok FA1" "ItemSize FA1 = ItemSize FA" "unat (Count FA1) = Suc ?n"
    using InternalAddItem_Some[OF ok P g(1)] by auto
  have l: "(?n + 1) * ?sz \<le> length B" "length B < 2 ^ 63"
    using flex_ok_room[OF f(1) g(2), of "Suc ?n"] f(2,3) by simp_all
  have small: "m * ?sz < 2 ^ 64" if "m \<le> ?n + 1" for m
  proof -
    have "m * ?sz \<le> (?n + 1) * ?sz" using that by (rule mult_le_mono1)
    moreover have "(2 :: nat) ^ 63 < 2 ^ 64" by simp
    ultimately show ?thesis using l by linarith
  qed
  have k1: "unat (k + 1) = ?k + 1" using k(1) f(3) unat_less_2pow[of "Count FA1"] by (subst unat_plus_no_wrap) simp_all
  have "k \<le> Count FA1" using k(1) f(3) by (simp add: word_le_nat_alt)
  then have ck: "unat (Count FA1 - k) = ?n + 1 - ?k" using f(3) by (simp add: unat_minus_no_wrap)
  have mul: "unat (a * ItemSize FA) = unat a * ?sz" if "unat a \<le> ?n + 1" for a
    using small[OF that] by (subst unat_mult_lem[THEN iffD1]) simp_all
  have o: "unat (k * ItemSize FA) = ?k * ?sz" "unat ((k + 1) * ItemSize FA) = (?k + 1) * ?sz"
    "unat ((Count FA1 - k) * ItemSize FA) = (?n + 1 - ?k) * ?sz"
    using mul[of k] mul[of "k + 1"] mul[of "Count FA1 - k"] k(1) k1 ck by simp_all
  note e = moved_end[OF less_imp_le[OF k(1)], of ?sz]
  have z: "?k * ?sz + ?sz \<le> length B" using slot_end[of ?k "?n + 1" ?sz] k(1) l(1) by linarith
  have w: "length (window B (?k * ?sz) ((?n + 1 - ?k) * ?sz)) = (?n + 1 - ?k) * ?sz" using e(2) l(1) by simp
  have c: "CopyMem B ((?k + 1) * ?sz) (?k * ?sz) ((?n + 1 - ?k) * ?sz) =
      (if (?n + 2) * ?sz \<le> length B then Some (overwrite B ((?k + 1) * ?sz) (window B (?k * ?sz) ((?n + 1 - ?k) * ?sz))) else None)"
    unfolding CopyMem_def e using l(1) by simp
  have "OcFlexArrayInsertItem P FA k = do {
      B \<leftarrow> CopyMem B ((?k + 1) * ?sz) (?k * ?sz) ((?n + 1 - ?k) * ?sz);
      B \<leftarrow> ZeroMem B (?k * ?sz) ?sz;
      Some (Some (k * ItemSize FA), FA1\<lparr>Items := Some B\<rparr>) }"
    using k(2) g(2) by (simp only: OcFlexArrayInsertItem_def g(1) Let_def InternalFlexArrayItemAt_def block_def f(2) o
        prod.case option.case if_False simp_thms)
  then show ?thesis unfolding c ZeroMem_def using z w e(1) by simp
qed

lemma InternalAddItem_AllocatedCount:
  assumes "Items FA = Some B" "InternalFlexArrayAddItem P FA = (Some off, FA')"
  shows "AllocatedCount FA' = (if Count FA + 1 > AllocatedCount FA then AllocatedCount FA * 2 else AllocatedCount FA)"
  using assms by (auto simp: InternalFlexArrayAddItem_def Let_def split: if_splits option.splits prod.splits)

lemma flex_ok_bounds:
  assumes "flex_ok FA" "Items FA = Some B"
  shows "unat (Count FA) \<le> unat (AllocatedCount FA)" "unat (AllocatedCount FA) < 2 ^ 63" "unat (Count FA + 1) = unat (Count FA) + 1"
    "2 \<le> unat (AllocatedCount FA)" "0 < unat (ItemSize FA)" "length (items FA) = unat (Count FA)"
proof -
  have k: "length B = unat (AllocatedCount FA) * unat (ItemSize FA)" "length B < 2 ^ 63" and s: "0 < unat (ItemSize FA)"
    using assms by (auto simp: flex_ok_def unat_gt_0)
  show n: "unat (Count FA) \<le> unat (AllocatedCount FA)" using assms by (simp add: flex_ok_def word_le_nat_alt)
  have "unat (AllocatedCount FA) * 1 \<le> unat (AllocatedCount FA) * unat (ItemSize FA)" using s by (intro mult_le_mono2) simp
  then show a: "unat (AllocatedCount FA) < 2 ^ 63" using k by linarith
  show "unat (Count FA + 1) = unat (Count FA) + 1" using n a by (subst unat_plus_no_wrap) simp_all
  show "2 \<le> unat (AllocatedCount FA)" "0 < unat (ItemSize FA)" "length (items FA) = unat (Count FA)"
    using assms s by (simp_all add: flex_ok_def word_le_nat_alt items_def)
qed

lemma InsertItem_spec:
  assumes ok: "flex_ok FA" "Items FA = Some B0" and P: "pool_ok P" and k: "k < Count FA"
  shows "if Count FA + 1 = AllocatedCount FA then OcFlexArrayInsertItem P FA k = None
    else \<exists>r FA'. OcFlexArrayInsertItem P FA k = Some (r, FA') \<and>
      (case r of
         Some off \<Rightarrow> off = k * ItemSize FA \<and> flex_ok FA' \<and>
           items FA' = take (unat k) (items FA) @ [replicate (unat (ItemSize FA)) 0] @ drop (unat k) (items FA)
       | None \<Rightarrow> Items FA' = Items FA)"
proof -
  note b = flex_ok_bounds[OF ok]
  let ?sz = "unat (ItemSize FA)" and ?n = "length (items FA)"
  have k': "unat k < ?n" "k \<noteq> Count FA" using k b(6) by (auto simp: word_less_nat_alt)
  obtain r FA1 where g: "InternalFlexArrayAddItem P FA = (r, FA1)" by (cases "InternalFlexArrayAddItem P FA")
  show ?thesis
  proof (cases r)
    case None
    then have "Count FA + 1 > AllocatedCount FA" using g ok(2) by (auto simp: InternalFlexArrayAddItem_def Let_def split: if_splits)
    then have "Count FA + 1 \<noteq> AllocatedCount FA" by auto
    then show ?thesis using None g InternalAddItem_None[of P FA FA1] k' by (simp add: OcFlexArrayInsertItem_def)
  next
    case (Some off)
    with g have g: "InternalFlexArrayAddItem P FA = (Some off, FA1)" by simp
    from InternalAddItem_Some[OF ok(1) P g] obtain B where
      f: "flex_ok FA1" "ItemSize FA1 = ItemSize FA" "unat (Count FA1) = Suc ?n" "Items FA1 = Some B" "slots ?sz ?n B = items FA" by blast
    have l: "length B = unat (AllocatedCount FA1) * ?sz" using f(1,2,4) by (simp add: flex_ok_def)
    have "unat (AllocatedCount FA1) = (if Count FA + 1 > AllocatedCount FA then 2 * ?n else unat (AllocatedCount FA))"
    proof (cases "Count FA + 1 > AllocatedCount FA")
      case True
      then have "unat (AllocatedCount FA) = ?n" using b by (simp add: word_less_nat_alt)
      moreover have "unat (AllocatedCount FA * 2) = unat (AllocatedCount FA) * 2"
        using b(2) by (subst unat_mult_lem[THEN iffD1]) simp_all
      ultimately show ?thesis using True InternalAddItem_AllocatedCount[OF ok(2) g] by simp
    qed (use InternalAddItem_AllocatedCount[OF ok(2) g] in simp)
    then have room: "?n + 2 \<le> unat (AllocatedCount FA1) \<longleftrightarrow> Count FA + 1 \<noteq> AllocatedCount FA"
      using b by (auto simp: word_less_nat_alt word_unat_eq_iff split: if_splits)
    have eq: "(?n + 2) * ?sz \<le> length B \<longleftrightarrow> Count FA + 1 \<noteq> AllocatedCount FA"
      unfolding l room[symmetric] using b(5) by (simp only: mult_le_cancel2) simp
    show ?thesis
    proof (cases "Count FA + 1 = AllocatedCount FA")
      case True
      then show ?thesis using InsertItem_grown[OF ok(1) P k' g f(4)] eq by simp
    next
      case False
      then have lb: "(?n + 2) * ?sz \<le> length B" using eq by simp
      let ?B = "overwrite (overwrite B ((unat k + 1) * ?sz) (window B (unat k * ?sz) ((?n + 1 - unat k) * ?sz)))
        (unat k * ?sz) (replicate ?sz 0)"
      have "(?n + 1) * ?sz \<le> length B" using lb mult_le_mono1[of "?n + 1" "?n + 2" ?sz] by linarith
      then have "length ?B = length B"
        using lb moved_end[OF less_imp_le[OF k'(1)], of ?sz] slot_end[of "unat k" "?n + 1" ?sz] k'(1) by simp
      then have "flex_ok (FA1\<lparr>Items := Some ?B\<rparr>)" by (rule flex_ok_Items[OF f(1,4)])
      moreover have "items (FA1\<lparr>Items := Some ?B\<rparr>) = take (unat k) (items FA) @ [replicate ?sz 0] @ drop (unat k) (items FA)"
        using insert_slots[OF k'(1) lb, of "replicate ?sz 0"] f(2,3,5) by (simp add: items_def[of "FA1\<lparr>Items := X\<rparr>" for X])
      ultimately show ?thesis using False lb InsertItem_grown[OF ok(1) P k' g f(4)] by auto
    qed
  qed
qed

lemma DiscardItem_spec:
  assumes ok: "flex_ok FA" "Items FA = Some B" and n: "0 < Count FA"
  shows "\<exists>FA' s'. OcFlexArrayDiscardItem FA Free s = Some (FA', s') \<and> flex_ok FA' \<and> items FA' = butlast (items FA) \<and>
    s' = (case FreeItem FA of Some f \<Rightarrow> if Free then f (last (items FA)) s else s | None \<Rightarrow> s)"
proof -
  note b = flex_ok_bounds[OF ok]
  let ?sz = "unat (ItemSize FA)" and ?n = "unat (Count FA)"
  have c: "unat (Count FA - 1) = ?n - 1" "0 < ?n" using n by (simp_all add: unat_minus_one unat_gt_0 word_greater_zero_iff)
  have l: "?n * ?sz \<le> length B" "length B < 2 ^ 63" using flex_ok_room[OF ok, of ?n] by simp_all
  have e: "(?n - 1) * ?sz + ?sz = ?n * ?sz" using c(2) by (cases ?n) simp_all
  have "(?n - 1) * ?sz < 2 ^ 64" using e l by (rule_tac le_less_trans[of _ "length B"]) simp_all
  then have o: "unat ((Count FA - 1) * ItemSize FA) = (?n - 1) * ?sz" using c by (subst unat_mult_lem[THEN iffD1]) simp_all
  have s: "items FA = slots ?sz (?n - 1) B @ [window B ((?n - 1) * ?sz) ?sz]"
    using slots_Suc[of ?sz "?n - 1" B] c(2) ok(2) by (simp add: items_def)
  have "item_at FA (InternalFlexArrayItemAt FA (Count FA - 1)) = Some (last (items FA))"
    using o e l(1) ok(2) s by (simp add: item_at_def InternalFlexArrayItemAt_def block_def)
  moreover have "flex_ok (FA\<lparr>Count := Count FA - 1\<rparr>)" using ok c by (auto simp: flex_ok_def word_le_nat_alt)
  moreover have "items (FA\<lparr>Count := Count FA - 1\<rparr>) = butlast (items FA)"
    using s ok(2) c by (simp add: items_def[of "FA\<lparr>Count := Count FA - 1\<rparr>"])
  ultimately show ?thesis by (cases "FreeItem FA") (auto simp: OcFlexArrayDiscardItem_def)
qed

lemma AddItem_failed_growth:
  assumes ok: "flex_ok FA" "Items FA = Some B" and full: "Count FA = AllocatedCount FA"
    and fail: "ReallocatePool P (length B) (2 * length B) B = None"
  shows "OcFlexArrayAddItem P FA = Some (None, FA\<lparr>Count := Count FA + 1\<rparr>)"
proof -
  note b = flex_ok_bounds[OF ok]
  have l: "unat (AllocatedCount FA) * unat (ItemSize FA) = length B" "length B < 2 ^ 63" using ok by (simp_all add: flex_ok_def)
  then have os: "unat (AllocatedCount FA * ItemSize FA) = length B" by (subst unat_mult_lem[THEN iffD1]) simp_all
  have ns: "unat (AllocatedCount FA * ItemSize FA * 2) = 2 * length B"
    using os l(2) by (subst unat_mult_lem[THEN iffD1]) simp_all
  have "Count FA + 1 > AllocatedCount FA" using b full by (simp add: word_less_nat_alt)
  then show ?thesis using ok(2) fail os ns l(2)
    by (simp add: OcFlexArrayAddItem_def InternalFlexArrayAddItem_def Let_def BaseOverflowMulUN_def)
qed

lemma Free_overrun:
  assumes ok: "flex_ok FA" "Items FA = Some B" and full: "Count FA = AllocatedCount FA" and f: "FreeItem FA = Some f"
  shows "OcFlexArrayFree (Some (FA\<lparr>Count := Count FA + 1\<rparr>)) s = None"
proof -
  note b = flex_ok_bounds[OF ok]
  let ?FA = "FA\<lparr>Count := Count FA + 1\<rparr>" and ?n = "unat (Count FA)"
  have l: "?n * unat (ItemSize FA) = length B" "length B < 2 ^ 63" using ok full by (simp_all add: flex_ok_def)
  then have "unat (Count FA * ItemSize FA) = length B" by (subst unat_mult_lem[THEN iffD1]) simp_all
  then have "item_at ?FA (InternalFlexArrayItemAt ?FA (of_nat ?n)) = None"
    using b(5) ok(2) by (simp add: item_at_def InternalFlexArrayItemAt_def block_def)
  then show ?thesis using ok(2) f b(3) by (simp add: OcFlexArrayFree_def bind_eq_None_conv)
qed

section \<open>String buffers\<close>

definition string_ok :: "OC_ASCII_STRING_BUFFER \<Rightarrow> bool" where
  "string_ok b \<longleftrightarrow>
     (case String b of
        None \<Rightarrow> StringLength b = 0 \<and> BufferSize b = 0
      | Some S \<Rightarrow> length S = unat (BufferSize b) \<and> length S < 2 ^ 63 \<and> unat (StringLength b) < length S \<and> S ! unat (StringLength b) = 0)"

definition string_text :: "OC_ASCII_STRING_BUFFER \<Rightarrow> byte list" where
  "string_text b = (case String b of None \<Rightarrow> [] | Some S \<Rightarrow> take (unat (StringLength b)) S)"

lemma grow_total:
  assumes "0 < NewSize"
  shows "\<exists>r. iterate (grow_body Target) NewSize = Some r \<and> (case r of None \<Rightarrow> 2 ^ 63 \<le> unat Target | Some n \<Rightarrow> Target < n \<and> NewSize \<le> n)"
proof (rule iterate_total[where I = "\<lambda>n. 0 < n \<and> NewSize \<le> n" and m = "\<lambda>n. 2 ^ 64 - unat n"])
  fix n n' :: u64
  assume I: "0 < n \<and> NewSize \<le> n" and c: "grow_body Target n = Continue n'"
  then have n': "n' = n * 2" "unat n * 2 < 2 ^ 64" by (auto simp: grow_body_def BaseOverflowMulUN_def not_le split: if_splits)
  then have "unat n' = unat n * 2" by (simp add: unat_mult_lem[THEN iffD1])
  then show "(0 < n' \<and> NewSize \<le> n') \<and> 2 ^ 64 - unat n' < 2 ^ 64 - unat n"
    using I n'(2) by (auto simp: word_less_nat_alt word_le_nat_alt)
next
  fix n r assume "0 < n \<and> NewSize \<le> n" "grow_body Target n = Break r"
  then show "case r of None \<Rightarrow> 2 ^ 63 \<le> unat Target | Some n \<Rightarrow> Target < n \<and> NewSize \<le> n"
    by (auto simp: grow_body_def BaseOverflowMulUN_def word_le_nat_alt word_less_nat_alt split: if_splits prod.splits)
qed (simp add: assms)

text \<open>A successful extension leaves room for the appended text and its terminator and keeps the text.\<close>

lemma ExtendBy_spec:
  assumes ok: "string_ok b" and P: "pool_ok P" and n: "0 < n" "unat n < 2 ^ 63"
  shows "\<exists>Status b' t. InternalAsciiStringBufferExtendBy P b n Stale = Some (Status, b', t) \<and>
    (Status = EFI_SUCCESS \<longrightarrow> StringLength b' = StringLength b \<and> unat t = unat (StringLength b) + unat n \<and>
      (\<exists>S. String b' = Some S \<and> length S = unat (BufferSize b') \<and> length S < 2 ^ 63 \<and> unat (StringLength b) + unat n < length S \<and>
        take (unat (StringLength b)) S = string_text b))"
proof (cases "String b")
  case None
  have u: "unat (n + 1) = unat n + 1" using n(2) by (subst unat_plus_no_wrap) simp_all
  show ?thesis
  proof (cases "AllocatePool P (unat (n + 1))")
    case None
    then show ?thesis using \<open>String b = None\<close> by (simp add: InternalAsciiStringBufferExtendBy_def)
  next
    case (Some S)
    then have "length S = unat (n + 1) \<and> unat (n + 1) < 2 ^ 63" using P unfolding pool_ok_def by blast
    then show ?thesis using \<open>String b = None\<close> Some ok u
      by (simp add: InternalAsciiStringBufferExtendBy_def string_ok_def string_text_def)
  qed
next
  case (Some S)
  have k: "length S = unat (BufferSize b)" "length S < 2 ^ 63" "unat (StringLength b) < length S"
    using ok Some by (simp_all add: string_ok_def)
  then have z: "BufferSize b \<noteq> 0" "0 < BufferSize b" by (auto simp: word_less_nat_alt)
  let ?t = "StringLength b + n"
  have t: "unat ?t = unat (StringLength b) + unat n" using k n by (subst unat_plus_no_wrap) simp_all
  then have nov: "\<not> 2 ^ 64 \<le> unat (StringLength b) + unat n" using unat_less_2pow[of ?t] by simp
  obtain r where r: "iterate (grow_body ?t) (BufferSize b) = Some r"
    and g: "case r of None \<Rightarrow> 2 ^ 63 \<le> unat ?t | Some m \<Rightarrow> ?t < m \<and> BufferSize b \<le> m" using grow_total[OF z(2)] by blast
  show ?thesis
  proof (cases r)
    case None
    then show ?thesis using Some z r nov by (simp add: InternalAsciiStringBufferExtendBy_def BaseOverflowAddUN_def)
  next
    case (Some m)
    then have m: "?t < m" "BufferSize b \<le> m" using g by simp_all
    show ?thesis
    proof (cases "m > BufferSize b \<and> (\<exists>S'. ReallocatePool P (unat (BufferSize b)) (unat m) S = Some S')")
      case True
      then obtain S' where S': "ReallocatePool P (unat (BufferSize b)) (unat m) S = Some S'" and "m > BufferSize b" by blast
      then have "length S' = unat m \<and> unat m < 2 ^ 63 \<and> take (min (unat (BufferSize b)) (unat m)) S' = take (min (unat (BufferSize b)) (unat m)) S"
        using k(1) by (intro ReallocatePool_ok[OF P S']) simp
      then have "length S' = unat m" "unat m < 2 ^ 63" "take (unat (BufferSize b)) S' = S"
        using m(2) k(1) by (simp_all add: min_def word_le_nat_alt)
      moreover from this(3) have "take (unat (StringLength b)) S' = take (unat (StringLength b)) S"
        using k(1,3) by (metis less_imp_le min.absorb1 take_take)
      ultimately show ?thesis using True S' Some \<open>String b = Some S\<close> z r nov t m
        by (simp add: InternalAsciiStringBufferExtendBy_def BaseOverflowAddUN_def string_text_def word_less_nat_alt)
    next
      case False
      then show ?thesis using Some \<open>String b = Some S\<close> z r nov t m k
        by (auto simp: InternalAsciiStringBufferExtendBy_def BaseOverflowAddUN_def string_text_def word_less_nat_alt Let_def)
    qed
  qed
qed

lemma AppendN_spec:
  assumes ok: "string_ok b" and P: "pool_ok P" and T: "length Text < 2 ^ 63"
  shows "\<exists>Status b'. OcAsciiStringBufferAppendN P Rsize b (Some Text) Len Stale = Some (Status, b') \<and>
    (Status = EFI_SUCCESS \<longrightarrow> string_ok b' \<and> string_text b' = string_text b @ takeWhile (\<lambda>c. c \<noteq> 0) (take (unat Len) Text))"
proof -
  let ?w = "takeWhile (\<lambda>c. c \<noteq> 0) (take (unat Len) Text)"
  let ?n = "of_nat (AsciiStrnLenS Text (unat Len)) :: u64"
  have wl: "length ?w < 2 ^ 63" using T length_takeWhile_le[of "\<lambda>c. c \<noteq> 0" "take (unat Len) Text"] by simp
  then have n: "unat ?n = length ?w" unfolding AsciiStrnLenS_def unat_of_nat by simp
  have "length ?w \<le> unat Len" using length_takeWhile_le[of "\<lambda>c. c \<noteq> 0" "take (unat Len) Text"] by simp
  then have w: "take (length ?w) Text = ?w"
    using takeWhile_eq_take[of "\<lambda>c. c \<noteq> 0" "take (unat Len) Text"] by (simp add: min_def)
  show ?thesis
  proof (cases "?n = 0")
    case True
    then have "?w = []" using n by simp
    then show ?thesis using True ok by (simp add: OcAsciiStringBufferAppendN_def)
  next
    case False
    then have pos: "0 < ?n" by (simp add: word_neq_0_conv)
    obtain Status b' t where e: "InternalAsciiStringBufferExtendBy P b ?n Stale = Some (Status, b', t)"
      and s: "Status = EFI_SUCCESS \<longrightarrow> StringLength b' = StringLength b \<and> unat t = unat (StringLength b) + unat ?n \<and>
        (\<exists>S. String b' = Some S \<and> length S = unat (BufferSize b') \<and> length S < 2 ^ 63 \<and> unat (StringLength b) + unat ?n < length S \<and>
          take (unat (StringLength b)) S = string_text b)"
      using ExtendBy_spec[OF ok P pos, of Stale] wl n by auto
    show ?thesis
    proof (cases "Status = EFI_SUCCESS")
      case False
      then show ?thesis using e \<open>?n \<noteq> 0\<close> by (simp add: OcAsciiStringBufferAppendN_def)
    next
      case True
      with s obtain S where S: "String b' = Some S" "length S = unat (BufferSize b')" "length S < 2 ^ 63"
        "unat (StringLength b) + length ?w < length S" "take (unat (StringLength b)) S = string_text b"
        and l: "StringLength b' = StringLength b" "unat t = unat (StringLength b) + length ?w" using n by auto
      let ?S = "overwrite S (unat (StringLength b)) (?w @ [0])"
      have "length (string_text b) = unat (StringLength b)" using S(4) by (simp flip: S(5))
      then have "take (unat t) ?S = string_text b @ ?w" using S(4,5) l(2) by (simp add: overwrite_def)
      moreover have "?S ! unat t = 0" "length ?S = length S" using S(4) l(2) by (simp_all add: nth_overwrite nth_append)
      ultimately show ?thesis using True e \<open>?n \<noteq> 0\<close> S l n w
        by (simp add: OcAsciiStringBufferAppendN_def AsciiStrnCpyS_def string_ok_def string_text_def[of "b'\<lparr>String := X, StringLength := Y\<rparr>" for X Y])
    qed
  qed
qed

lemma Append_after_failure:
  assumes b: "String b = None" "0 < StringLength b" and P: "pool_ok P" and r: "Rsize = 0"
    and a: "AllocatePool P (AsciiStrnLenS Text (unat Len) + 1) \<noteq> None" and n: "0 < AsciiStrnLenS Text (unat Len)" "length Text < 2 ^ 63"
  shows "OcAsciiStringBufferAppendN P Rsize b (Some Text) Len Stale = None"
proof -
  let ?n = "AsciiStrnLenS Text (unat Len)"
  have "?n < 2 ^ 63" using n(2) length_takeWhile_le[of "\<lambda>c. c \<noteq> 0" "take (unat Len) Text"] by (simp add: AsciiStrnLenS_def)
  then have u: "unat (of_nat ?n :: u64) = ?n" "unat (of_nat ?n + 1 :: u64) = ?n + 1"
    unfolding unat_of_nat by (simp, subst unat_plus_no_wrap) (simp_all add: unat_of_nat)
  then have nz: "(of_nat ?n :: u64) \<noteq> 0" using n(1) by (metis unat_0 less_irrefl)
  obtain S where S: "AllocatePool P (?n + 1) = Some S" using a by blast
  then have "length S = ?n + 1" using P unfolding pool_ok_def by blast
  then show ?thesis using b r nz u S
    by (simp add: OcAsciiStringBufferAppendN_def InternalAsciiStringBufferExtendBy_def AsciiStrnCpyS_def word_less_nat_alt)
qed

section \<open>Properties\<close>

text \<open>A pool that always has memory, for the witnesses.\<close>

definition sample_pool :: pool where
  "sample_pool = \<lparr>AllocatePool = (\<lambda>n. if n < 2 ^ 63 then Some (replicate n 7) else None),
     ReallocatePool = (\<lambda>old n B. if n < 2 ^ 63 then Some (take n (take old B @ replicate n 7)) else None)\<rparr>"

definition empty_pool :: pool where
  "empty_pool = \<lparr>AllocatePool = (\<lambda>n. None), ReallocatePool = (\<lambda>old n B. None)\<rparr>"

definition sample_array :: "nat OC_FLEX_ARRAY" where
  "sample_array = \<lparr>Items = Some (replicate 16 5), ItemSize = 2, Count = 8, AllocatedCount = 8, FreeItem = Some (\<lambda>_ n. n + 1)\<rparr>"

lemma sample_pool_ok: "pool_ok sample_pool"
  by (auto simp: pool_ok_def sample_pool_def min_def take_append split: if_splits)

lemma empty_pool_ok: "pool_ok empty_pool"
  by (simp add: pool_ok_def empty_pool_def)

lemma sample_array_ok: "flex_ok (sample_array\<lparr>Count := n\<rparr>) \<longleftrightarrow> n \<le> 8"
  by (simp add: flex_ok_def sample_array_def)

text \<open>
  C26: a flex array implements a list of items: adding appends a zeroed item and returns its address,
  inside the allocated block and with the invariant kept; it fails exactly when the memory that it needs, the
  first block or twice the block of a full array, is not to be had.
\<close>

theorem OcFlexArrayAddItem_refines:
  assumes "flex_ok FA" "pool_ok P"
  shows "\<exists>r FA'. OcFlexArrayAddItem P FA = Some (r, FA') \<and> (r = None \<longleftrightarrow> out_of_memory P FA) \<and>
    (case r of
       Some off \<Rightarrow> flex_ok FA' \<and> items FA' = items FA @ [replicate (unat (ItemSize FA)) 0] \<and>
         unat off = length (items FA) * unat (ItemSize FA) \<and> ItemSize FA' = ItemSize FA
     | None \<Rightarrow> True)"
  using AddItem_spec[OF assms] AddItem_fails[OF assms(1)] by (fastforce split: option.splits)

theorem OcFlexArrayAddItem_refines_witness:
  "\<exists>off FA'. OcFlexArrayAddItem sample_pool sample_array = Some (Some off, FA') \<and> flex_ok FA' \<and>
      items FA' = items sample_array @ [replicate (unat (ItemSize sample_array)) 0] \<and>
      unat off = length (items sample_array) * unat (ItemSize sample_array) \<and> ItemSize FA' = ItemSize sample_array"
proof -
  have "flex_ok sample_array" using sample_array_ok[of 8] by (simp add: sample_array_def)
  moreover have "\<not> out_of_memory sample_pool sample_array" by (simp add: out_of_memory_def sample_pool_def sample_array_def)
  ultimately show ?thesis using OcFlexArrayAddItem_refines[of sample_array sample_pool] sample_pool_ok by (auto split: option.splits)
qed

text \<open>
  Inserting before an existing item inserts a zeroed item there, except when the insertion fills the
  block exactly: then the items behind the insertion point are moved one item too far, beyond the end of the block.
\<close>

theorem OcFlexArrayInsertItem_overruns:
  assumes "flex_ok FA" "Items FA = Some B" "pool_ok P" "k < Count FA"
  shows "if Count FA + 1 = AllocatedCount FA then OcFlexArrayInsertItem P FA k = None
    else \<exists>r FA'. OcFlexArrayInsertItem P FA k = Some (r, FA') \<and>
      (case r of
         Some off \<Rightarrow> off = k * ItemSize FA \<and> flex_ok FA' \<and>
           items FA' = take (unat k) (items FA) @ [replicate (unat (ItemSize FA)) 0] @ drop (unat k) (items FA)
       | None \<Rightarrow> Items FA' = Items FA)"
  using assms by (rule InsertItem_spec)

theorem OcFlexArrayInsertItem_overruns_witness:
  "OcFlexArrayInsertItem sample_pool (sample_array\<lparr>Count := 7\<rparr>) 0 = None"
  using OcFlexArrayInsertItem_overruns[of "sample_array\<lparr>Count := 7\<rparr>" "replicate 16 5" sample_pool 0] sample_array_ok[of 7]
  by (simp add: sample_pool_ok) (simp add: sample_array_def)

text \<open>
  A growth that fails leaves a full array with a count beyond its block; freeing the array then passes an
  item outside the block to \<open>FreeItem\<close>.
\<close>

theorem OcFlexArray_failed_growth:
  assumes "flex_ok FA" "Items FA = Some B" "Count FA = AllocatedCount FA" "FreeItem FA = Some f"
    and "ReallocatePool P (length B) (2 * length B) B = None"
  shows "OcFlexArrayAddItem P FA = Some (None, FA\<lparr>Count := Count FA + 1\<rparr>) \<and>
    OcFlexArrayFree (Some (FA\<lparr>Count := Count FA + 1\<rparr>)) s = None"
  using AddItem_failed_growth[OF assms(1-3,5)] Free_overrun[OF assms(1-4)] by blast

theorem OcFlexArray_failed_growth_witness:
  "OcFlexArrayAddItem empty_pool sample_array = Some (None, sample_array\<lparr>Count := Count sample_array + 1\<rparr>) \<and>
    OcFlexArrayFree (Some (sample_array\<lparr>Count := Count sample_array + 1\<rparr>)) 0 = None"
  by (rule OcFlexArray_failed_growth[of sample_array "replicate 16 5"])
    (use sample_array_ok[of 8] in \<open>simp_all add: sample_array_def empty_pool_def\<close>)

text \<open>
  C27: appending to a string buffer returns, writes inside its block and, when it reports success, leaves the
  terminated text followed by the appended one.
\<close>

theorem OcAsciiStringBufferAppendN_refines:
  assumes "string_ok b" "pool_ok P" "length Text < 2 ^ 63"
  shows "\<exists>Status b'. OcAsciiStringBufferAppendN P Rsize b (Some Text) Len Stale = Some (Status, b') \<and>
    (Status = EFI_SUCCESS \<longrightarrow> string_ok b' \<and> string_text b' = string_text b @ takeWhile (\<lambda>c. c \<noteq> 0) (take (unat Len) Text))"
  using assms by (rule AppendN_spec)

theorem OcAsciiStringBufferAppendN_refines_witness:
  "\<exists>Status b'. OcAsciiStringBufferAppendN sample_pool 0 \<lparr>String = None, StringLength = 0, BufferSize = 0\<rparr> (Some [0x61, 0x62, 0]) 5 0 = Some (Status, b') \<and>
      (Status = EFI_SUCCESS \<longrightarrow> string_ok b' \<and>
        string_text b' = string_text \<lparr>String = None, StringLength = 0, BufferSize = 0\<rparr> @ takeWhile (\<lambda>c. c \<noteq> 0) (take (unat (5 :: u64)) [0x61, 0x62, 0]))"
  by (rule OcAsciiStringBufferAppendN_refines) (simp_all add: string_ok_def sample_pool_ok)

text \<open>
  An append that cannot grow the block loses the text but keeps its length; when the next append finds memory
  again, it writes outside its new block.
\<close>

theorem OcAsciiStringBuffer_append_after_failure:
  assumes "string_ok b" "String b = Some S" "unat (StringLength b) + AsciiStrnLenS Text (unat Len) \<ge> length S" "0 < StringLength b"
    and "AsciiStrnLenS Text (unat Len) + length S < 2 ^ 62" "0 < AsciiStrnLenS Text (unat Len)" "length Text < 2 ^ 63"
    and "pool_ok P" "AllocatePool P (AsciiStrnLenS Text (unat Len) + 1) \<noteq> None" "\<And>old n B. ReallocatePool E old n B = None"
  shows "\<exists>b'. OcAsciiStringBufferAppendN E 0 b (Some Text) Len Stale = Some (EFI_OUT_OF_RESOURCES, b') \<and>
    OcAsciiStringBufferAppendN P 0 b' (Some Text) Len Stale = None"
proof -
  let ?n = "AsciiStrnLenS Text (unat Len)" and ?t = "StringLength b + of_nat (AsciiStrnLenS Text (unat Len))"
  have k: "length S = unat (BufferSize b)" "unat (StringLength b) < length S" using assms(1,2) by (simp_all add: string_ok_def)
  have n: "unat (of_nat ?n :: u64) = ?n" using assms(5) unfolding unat_of_nat by simp
  have nz: "(of_nat ?n :: u64) \<noteq> 0" using n assms(6) by (metis unat_0 less_irrefl)
  have t: "unat ?t = unat (StringLength b) + ?n" using n k(2) assms(5) by (subst unat_plus_no_wrap) simp_all
  have z: "0 < BufferSize b" "BufferSize b \<noteq> 0" using k by (auto simp: word_less_nat_alt)
  obtain r where r: "iterate (grow_body ?t) (BufferSize b) = Some r"
    and g: "case r of None \<Rightarrow> 2 ^ 63 \<le> unat ?t | Some m \<Rightarrow> ?t < m \<and> BufferSize b \<le> m" using grow_total[OF z(1)] by blast
  have "BufferSize b \<noteq> m" if "?t < m" for m using that t k(1) assms(3) by (auto simp: word_less_nat_alt)
  moreover have "\<not> 2 ^ 63 \<le> unat ?t" using t k(2) assms(5) by simp
  ultimately obtain m where m: "r = Some m" "BufferSize b < m" using g by (cases r) (auto simp: order_less_le)
  have "\<not> 2 ^ 64 \<le> unat (StringLength b) + ?n" using k(2) assms(5) by simp
  then have "OcAsciiStringBufferAppendN E 0 b (Some Text) Len Stale = Some (EFI_OUT_OF_RESOURCES, b\<lparr>String := None\<rparr>)"
    using assms(2,10) nz n z r m by (simp add: OcAsciiStringBufferAppendN_def InternalAsciiStringBufferExtendBy_def BaseOverflowAddUN_def)
  moreover have "OcAsciiStringBufferAppendN P 0 (b\<lparr>String := None\<rparr>) (Some Text) Len Stale = None"
    using assms(4) by (intro Append_after_failure[OF _ _ assms(8) refl assms(9,6,7)]) simp_all
  ultimately show ?thesis by blast
qed

theorem OcAsciiStringBuffer_append_after_failure_witness:
  "\<exists>b'. OcAsciiStringBufferAppendN empty_pool 0 \<lparr>String = Some [0x61, 0], StringLength = 1, BufferSize = 2\<rparr> (Some [0x62, 0]) 5 0 =
      Some (EFI_OUT_OF_RESOURCES, b') \<and>
    OcAsciiStringBufferAppendN sample_pool 0 b' (Some [0x62, 0]) 5 0 = None"
  by (rule OcAsciiStringBuffer_append_after_failure[of _ "[0x61, 0]"])
    (simp_all add: string_ok_def sample_pool_ok AsciiStrnLenS_def, simp_all add: sample_pool_def empty_pool_def)

end
