(* ===== verification/Oc_Xml.thy ===== *)
theory Oc_Xml
  imports Oc_Prelude
begin

text \<open>
  Model of the parser of \<^verbatim>\<open>Library/OcXmlLib/OcXmlLib.c\<close>. It works in place: names, attributes and contents are
  pointers into the buffer (offsets here), and the parser writes their terminators into it. Reads and writes that are
  not guarded by \<open>XmlParserPeek\<close> are checked: \<open>None\<close> is an access outside the buffer, or a loop that does not end. The
  length of the buffer is at most 32 MiB, so the sums of positions do not wrap and are natural numbers; \<open>Length\<close> is
  the length of the list. \<open>AllocOk k\<close> says whether the \<open>k\<close>-th allocation succeeds, and \<open>k\<close> is the address of the block
  that it returns. A node owns its children; \<open>Real\<close> and the list of references hold addresses of nodes, so the model keeps
  apart a pointer to a node of the document and a pointer to a node that was freed when the parser gave its parent up.
\<close>

section \<open>Characters and strings\<close>

abbreviation "ch_lt \<equiv> (0x3C :: byte)"
abbreviation "ch_gt \<equiv> (0x3E :: byte)"
abbreviation "ch_slash \<equiv> (0x2F :: byte)"
abbreviation "ch_query \<equiv> (0x3F :: byte)"
abbreviation "ch_excl \<equiv> (0x21 :: byte)"
abbreviation "ch_dash \<equiv> (0x2D :: byte)"
abbreviation "ch_quot \<equiv> (0x22 :: byte)"

definition ascii :: "string \<Rightarrow> byte list" where
  "ascii s = map of_char s"

definition IsAsciiSpace :: "byte \<Rightarrow> bool" where
  "IsAsciiSpace c \<longleftrightarrow> c = 0x20 \<or> c = 0x09 \<or> c = 0x0B \<or> c = 0x0C \<or> c = 0x0D \<or> c = 0x0A"

definition IsAsciiNumber :: "byte \<Rightarrow> bool" where
  "IsAsciiNumber c \<longleftrightarrow> 0x30 \<le> c \<and> c \<le> 0x39"

text \<open>The string that a pointer into the buffer designates: it must be terminated inside the buffer.\<close>

definition cstr :: "byte list \<Rightarrow> nat \<Rightarrow> byte list option" where
  "cstr Buf off = (if 0 \<in> set (drop off Buf) then Some (takeWhile (\<lambda>c. c \<noteq> 0) (drop off Buf)) else None)"

text \<open>\<open>AsciiStrStr\<close> and \<open>AsciiStrDecimalToUint64\<close> of the base library.\<close>

definition AsciiStrStr :: "byte list \<Rightarrow> byte list \<Rightarrow> nat option" where
  "AsciiStrStr s pat = find (\<lambda>i. take (length pat) (drop i s) = pat) [0..<Suc (length s)]"

definition AsciiStrDecimalToUint64 :: "byte list \<Rightarrow> u64" where
  "AsciiStrDecimalToUint64 s =
     (let v = foldl (\<lambda>a d. 10 * a + (uint d - 0x30)) 0 (takeWhile IsAsciiNumber (dropWhile (\<lambda>c. c = 0x20 \<or> c = 0x09) s))
      in if v < 2 ^ 64 then word_of_int v else - 1)"

section \<open>Nodes and parser\<close>

definition XML_PARSER_NEST_LEVEL :: nat where "XML_PARSER_NEST_LEVEL = 32"
definition XML_PARSER_NODE_COUNT :: nat where "XML_PARSER_NODE_COUNT = 32768"
definition XML_PARSER_MAX_REFERENCE_COUNT :: nat where "XML_PARSER_MAX_REFERENCE_COUNT = 32 * 1024"
definition XML_PARSER_MAX_SIZE :: nat where "XML_PARSER_MAX_SIZE = 32 * 1024 * 1024"

text \<open>The comparisons with the limits are evaluated on integers.\<close>

lemma limits_code [code_unfold]:
  "n < XML_PARSER_NODE_COUNT \<longleftrightarrow> int n < 32768" "XML_PARSER_NODE_COUNT - 1 \<le> n \<longleftrightarrow> 32767 \<le> int n"
  "n < XML_PARSER_NODE_COUNT - 1 \<longleftrightarrow> int n < 32767" "XML_PARSER_MAX_REFERENCE_COUNT \<le> n \<longleftrightarrow> 32768 \<le> int n"
  "n < XML_PARSER_MAX_REFERENCE_COUNT \<longleftrightarrow> int n < 32768" "XML_PARSER_MAX_SIZE < n \<longleftrightarrow> 33554432 < int n"
  by (auto simp: XML_PARSER_NODE_COUNT_def XML_PARSER_MAX_REFERENCE_COUNT_def XML_PARSER_MAX_SIZE_def)

text \<open>The list of children with the number of allocated entries.\<close>

datatype XML_NODE = XML_NODE (Address: nat) (Name: nat) (Attributes: "nat option") (Content: "nat option") (Real: "nat option")
  (Children: "(XML_NODE list \<times> nat) option")

record XML_REFLIST =
  RefCount :: nat
  RefList :: "nat option list"

record XML_PARSER =
  Buffer :: "byte list"
  Position :: nat
  Level :: nat
  AllocIndex :: nat

definition XmlParseAttributeNumber :: "byte list \<Rightarrow> nat \<Rightarrow> byte list \<Rightarrow> u32 option option" where
  "XmlParseAttributeNumber Buf Attr Argument =
     do {
       s \<leftarrow> cstr Buf Attr;
       (case AsciiStrStr s Argument of
          None \<Rightarrow> Some None
        | Some i \<Rightarrow>
            (let ArgumentStart = drop (i + length Argument) s
             in case AsciiStrStr ArgumentStart [ch_quot] of
                  None \<Rightarrow> Some None
                | Some Number \<Rightarrow>
                    if Number > 15 then Some None
                    else Some (Some (ucast (AsciiStrDecimalToUint64 (take Number ArgumentStart))))))
     }"

definition XmlNodeChildPush :: "bool \<Rightarrow> XML_NODE \<Rightarrow> XML_NODE \<Rightarrow> bool \<times> XML_NODE" where
  "XmlNodeChildPush Allocated Node Child =
     (let (NodeList, AllocCount) = (case Children Node of None \<Rightarrow> ([], 1) | Some (NodeList, AllocCount) \<Rightarrow> (NodeList, AllocCount));
          NodeCount = length NodeList
      in if Children Node \<noteq> None \<and> NodeCount < XML_PARSER_NODE_COUNT \<and> AllocCount > NodeCount
         then (True, XML_NODE (Address Node) (Name Node) (Attributes Node) (Content Node) (Real Node) (Some (NodeList @ [Child], AllocCount)))
         else if NodeCount \<ge> XML_PARSER_NODE_COUNT - 1 then (False, Node)
         else if \<not> Allocated then (False, Node)
         else (True, XML_NODE (Address Node) (Name Node) (Attributes Node) (Content Node) (Real Node) (Some (NodeList @ [Child], AllocCount * 3))))"

text \<open>Whether the push has to allocate.\<close>

definition XmlNodeChildPush_allocates :: "XML_NODE \<Rightarrow> bool" where
  "XmlNodeChildPush_allocates Node =
     (case Children Node of
        None \<Rightarrow> True
      | Some (NodeList, AllocCount) \<Rightarrow>
          \<not> (length NodeList < XML_PARSER_NODE_COUNT \<and> AllocCount > length NodeList) \<and> length NodeList < XML_PARSER_NODE_COUNT - 1)"

definition XmlPushReference :: "bool \<Rightarrow> XML_REFLIST \<Rightarrow> XML_NODE \<Rightarrow> u32 \<Rightarrow> (bool \<times> XML_REFLIST) option" where
  "XmlPushReference Allocated References Node ReferenceNumber =
     (let Number = unat ReferenceNumber
      in if Number \<ge> XML_PARSER_MAX_REFERENCE_COUNT then Some (False, References)
         else if Number \<ge> length (RefList References) \<and> \<not> Allocated then Some (False, References)
         else
           (let Refs = (if Number \<ge> length (RefList References)
                        then References\<lparr>RefList := overwrite (replicate ((Number + 1) * 2) None) 0 (take (RefCount References) (RefList References))\<rparr>
                        else References)
            in do {
                 L \<leftarrow> wr (RefList Refs) Number (Some (Address Node));
                 Some (True, Refs\<lparr>RefList := L, RefCount := (if Number \<ge> RefCount Refs then Number + 1 else RefCount Refs)\<rparr>)
               }))"

definition XmlPushReference_allocates :: "XML_REFLIST \<Rightarrow> u32 \<Rightarrow> bool" where
  "XmlPushReference_allocates References ReferenceNumber \<longleftrightarrow>
     unat ReferenceNumber < XML_PARSER_MAX_REFERENCE_COUNT \<and> length (RefList References) \<le> unat ReferenceNumber"

definition XmlNodeReal :: "byte list \<Rightarrow> XML_REFLIST option \<Rightarrow> nat option \<Rightarrow> nat option option" where
  "XmlNodeReal Buf References Attr =
     (case (References, Attr) of
        (Some Refs, Some a) \<Rightarrow> do {
          Number \<leftarrow> XmlParseAttributeNumber Buf a (ascii ''IDREF='' @ [ch_quot]);
          (case Number of
             None \<Rightarrow> Some None
           | Some n \<Rightarrow> if unat n \<ge> RefCount Refs then Some None else rd (RefList Refs) (unat n))
        }
      | _ \<Rightarrow> Some None)"

subsection \<open>The scanner\<close>

definition XmlParserPeek :: "XML_PARSER \<Rightarrow> nat \<Rightarrow> byte" where
  "XmlParserPeek Parser N = (if Position Parser + N < length (Buffer Parser) then Buffer Parser ! (Position Parser + N) else 0)"

definition XmlParserConsume :: "XML_PARSER \<Rightarrow> nat \<Rightarrow> XML_PARSER" where
  "XmlParserConsume Parser N =
     Parser\<lparr>Position := (if Position Parser + N > length (Buffer Parser) then length (Buffer Parser) else Position Parser + N)\<rparr>"

function XmlSkipWhitespace :: "XML_PARSER \<Rightarrow> XML_PARSER" where
  "XmlSkipWhitespace Parser =
     (if Position Parser < length (Buffer Parser) \<and> IsAsciiSpace (Buffer Parser ! Position Parser)
      then XmlSkipWhitespace (Parser\<lparr>Position := Position Parser + 1\<rparr>) else Parser)"
  by pat_completeness auto
termination
  by (relation "measure (\<lambda>P. length (Buffer P) - Position P)") auto

declare XmlSkipWhitespace.simps [simp del]

lemma Consume_simps [simp]:
  "Buffer (XmlParserConsume P n) = Buffer P" "Level (XmlParserConsume P n) = Level P" "AllocIndex (XmlParserConsume P n) = AllocIndex P"
  by (simp_all add: XmlParserConsume_def)

text \<open>The loop of \<open>XmlParseTagEnd\<close>: \<open>None\<close> is the early exit, otherwise the parser, the length, the length of the
  name and the current character.\<close>

function TagEnd_loop :: "XML_PARSER \<Rightarrow> nat \<Rightarrow> nat \<Rightarrow> nat \<Rightarrow> byte \<Rightarrow> (XML_PARSER \<times> nat \<times> nat \<times> byte) option" where
  "TagEnd_loop Parser Start Len NameLength Current =
     (if Start + Len < length (Buffer Parser)
      then if Current = ch_slash \<or> Current = ch_gt then Some (Parser, Len, NameLength, Current)
           else if NameLength = 0 \<and> IsAsciiSpace Current
           then if Len = 0 then None
                else TagEnd_loop (XmlParserConsume Parser 1) Start (Len + 1) Len (XmlParserPeek (XmlParserConsume Parser 1) 0)
           else TagEnd_loop (XmlParserConsume Parser 1) Start (Len + 1) NameLength (XmlParserPeek (XmlParserConsume Parser 1) 0)
      else Some (Parser, Len, NameLength, Current))"
  by pat_completeness auto
termination
  by (relation "measure (\<lambda>(P, Start, Len, _). length (Buffer P) - (Start + Len))") auto

declare TagEnd_loop.simps [simp del]

text \<open>The start of the attributes behind the name.\<close>

function skip_attribute_space :: "byte list \<Rightarrow> nat \<Rightarrow> nat \<Rightarrow> nat \<Rightarrow> nat option" where
  "skip_attribute_space Buf Start AttributeStart Len =
     (if AttributeStart < Len
      then do {
        c \<leftarrow> rd Buf (Start + AttributeStart);
        if IsAsciiSpace c then skip_attribute_space Buf Start (AttributeStart + 1) Len else Some (Start + AttributeStart)
      }
      else Some (Start + AttributeStart))"
  by pat_completeness auto
termination
  by (relation "measure (\<lambda>(_, _, a, Len). Len - a)") auto

declare skip_attribute_space.simps [simp del]

text \<open>
  \<open>Optional\<close> says whether the caller passes the two output pointers (it passes both or neither). The result is the name,
  the values that the outputs get, and the parser.
\<close>

definition XmlParseTagEnd :: "XML_PARSER \<Rightarrow> bool \<Rightarrow> (nat option \<times> bool \<times> nat option \<times> XML_PARSER) option" where
  "XmlParseTagEnd Parser Optional =
     (let Current = XmlParserPeek Parser 0;
          Start = Position Parser
      in case TagEnd_loop Parser Start 0 0 Current of
           None \<Rightarrow> Some (None, False, None, Parser)
         | Some (Parser, Len, NameLength, Current) \<Rightarrow> do {
             (Attr, Parser) \<leftarrow>
               (if NameLength \<noteq> 0 \<and> Optional \<and> (Current = ch_slash \<or> Current = ch_gt)
                then do {
                  a \<leftarrow> skip_attribute_space (Buffer Parser) Start NameLength Len;
                  B \<leftarrow> wr (Buffer Parser) (Start + Len) 0;
                  Some (Some a, Parser\<lparr>Buffer := B\<rparr>)
                }
                else Some (None, Parser));
             let NameLength = (if NameLength \<noteq> 0 then NameLength else Len);
             if Current = ch_slash \<and> \<not> Optional then Some (None, False, Attr, Parser)
             else
               (let SelfClosing = (Current = ch_slash);
                    (Parser, Current) = (if Current = ch_slash
                                         then (XmlParserConsume Parser 1, XmlParserPeek (XmlParserConsume Parser 1) 0)
                                         else (Parser, Current))
                in if Current \<noteq> ch_gt then Some (None, SelfClosing, Attr, Parser)
                   else
                     (let Parser = XmlParserConsume Parser 1
                      in do {
                           B \<leftarrow> wr (Buffer Parser) (Start + NameLength) 0;
                           Some (Some Start, SelfClosing, Attr, Parser\<lparr>Buffer := B\<rparr>)
                         }))
           })"

function skip_control :: "bool \<Rightarrow> XML_PARSER \<Rightarrow> XML_PARSER" where
  "skip_control IsComment Parser =
     (if Position Parser < length (Buffer Parser)
      then if IsComment \<and> XmlParserPeek Parser 0 = ch_dash \<and> XmlParserPeek Parser 1 = ch_dash \<and> XmlParserPeek Parser 2 = ch_gt
           then XmlParserConsume Parser 3
           else if \<not> IsComment \<and> XmlParserPeek Parser 0 = ch_gt then XmlParserConsume Parser 1
           else skip_control IsComment (XmlParserConsume Parser 1)
      else Parser)"
  by pat_completeness auto
termination
  by (relation "measure (\<lambda>(_, P). length (Buffer P) - Position P)") (auto simp: XmlParserConsume_def)

declare skip_control.simps [simp del]

subsection \<open>Tags and content\<close>

lemma Consume_Position:
  "Position P \<le> length (Buffer P) \<Longrightarrow> Position P \<le> Position (XmlParserConsume P n)"
  "Position (XmlParserConsume P n) \<le> length (Buffer P)"
  "Position P + n \<le> length (Buffer P) \<Longrightarrow> Position (XmlParserConsume P n) = Position P + n"
  by (auto simp: XmlParserConsume_def)

lemma Peek_nonzero: "XmlParserPeek P n = c \<Longrightarrow> c \<noteq> 0 \<Longrightarrow> Position P + n < length (Buffer P) \<and> Buffer P ! (Position P + n) = c"
  by (auto simp: XmlParserPeek_def split: if_splits)

lemma skip_control_frame:
  "Buffer (skip_control b P) = Buffer P \<and> Level (skip_control b P) = Level P \<and> AllocIndex (skip_control b P) = AllocIndex P
   \<and> (Position P \<le> length (Buffer P) \<longrightarrow> Position P \<le> Position (skip_control b P) \<and> Position (skip_control b P) \<le> length (Buffer P))"
proof (induction b P rule: skip_control.induct)
  case (1 b P)
  show ?case
    using 1 Consume_Position[of P] by (subst (1 2 3 4 5) skip_control.simps) (fastforce simp: Let_def)
qed

lemma XmlSkipWhitespace_frame:
  "Buffer (XmlSkipWhitespace P) = Buffer P \<and> Level (XmlSkipWhitespace P) = Level P \<and> AllocIndex (XmlSkipWhitespace P) = AllocIndex P
   \<and> Position P \<le> Position (XmlSkipWhitespace P)
   \<and> (Position P \<le> length (Buffer P) \<longrightarrow> Position (XmlSkipWhitespace P) \<le> length (Buffer P))"
proof (induction P rule: XmlSkipWhitespace.induct)
  case (1 P)
  then show ?case by (subst (1 2 3 4 5) XmlSkipWhitespace.simps) auto
qed

lemmas skip_frame [simp] =
  skip_control_frame[THEN conjunct1] skip_control_frame[THEN conjunct2, THEN conjunct1]
  skip_control_frame[THEN conjunct2, THEN conjunct2, THEN conjunct1]
  XmlSkipWhitespace_frame[THEN conjunct1] XmlSkipWhitespace_frame[THEN conjunct2, THEN conjunct1]
  XmlSkipWhitespace_frame[THEN conjunct2, THEN conjunct2, THEN conjunct1]

lemmas skip_control_Position = skip_control_frame[THEN conjunct2, THEN conjunct2, THEN conjunct2, rule_format]
lemmas XmlSkipWhitespace_Position = XmlSkipWhitespace_frame[THEN conjunct2, THEN conjunct2, THEN conjunct2, THEN conjunct1]
  XmlSkipWhitespace_frame[THEN conjunct2, THEN conjunct2, THEN conjunct2, THEN conjunct2, rule_format]

text \<open>A control sequence behind its \<^verbatim>\<open>'<'\<close>.\<close>

definition skip_sequence :: "XML_PARSER \<Rightarrow> XML_PARSER" where
  "skip_sequence Parser =
     (if XmlParserPeek Parser 0 = ch_excl
      then
        (let Parser = XmlParserConsume Parser 1
         in if XmlParserPeek Parser 0 = ch_dash \<and> XmlParserPeek Parser 1 = ch_dash
            then skip_control True (XmlParserConsume Parser 2) else skip_control False Parser)
      else skip_control False Parser)"

lemma skip_sequence_frame [simp]:
  "Buffer (skip_sequence P) = Buffer P" "Level (skip_sequence P) = Level P" "AllocIndex (skip_sequence P) = AllocIndex P"
  by (simp_all add: skip_sequence_def Let_def)

lemma skip_sequence_Position:
  assumes "Position P \<le> length (Buffer P)"
  shows "Position P \<le> Position (skip_sequence P)" "Position (skip_sequence P) \<le> length (Buffer P)"
proof -
  have 1: "Position P \<le> Position (XmlParserConsume P 1)" "Position (XmlParserConsume P 1) \<le> length (Buffer P)"
    using Consume_Position[of P 1] assms by auto
  have 2: "Position (XmlParserConsume P 1) \<le> Position (XmlParserConsume (XmlParserConsume P 1) 2)"
    "Position (XmlParserConsume (XmlParserConsume P 1) 2) \<le> length (Buffer P)"
    using Consume_Position[of "XmlParserConsume P 1" 2] 1 by auto
  have "Position P \<le> Position (skip_sequence P) \<and> Position (skip_sequence P) \<le> length (Buffer P)"
    using 1 2 assms skip_control_Position[of P False] skip_control_Position[of "XmlParserConsume P 1" False]
      skip_control_Position[of "XmlParserConsume (XmlParserConsume P 1) 2" True]
    by (auto simp: skip_sequence_def Let_def)
  then show "Position P \<le> Position (skip_sequence P)" "Position (skip_sequence P) \<le> length (Buffer P)" by auto
qed

lemma TagOpen_step_Position:
  assumes "XmlParserPeek (XmlSkipWhitespace P) 0 = ch_lt"
  shows "Position P < Position (XmlParserConsume (XmlSkipWhitespace P) 1)"
    "Position (XmlParserConsume (XmlSkipWhitespace P) 1) \<le> length (Buffer P)"
    "Position P < Position (skip_sequence (XmlParserConsume (XmlSkipWhitespace P) 1))"
    "Position (skip_sequence (XmlParserConsume (XmlSkipWhitespace P) 1)) \<le> length (Buffer P)"
  using Peek_nonzero[OF assms] XmlSkipWhitespace_Position[of P] Consume_Position(3)[of "XmlSkipWhitespace P" 1]
    skip_sequence_Position[of "XmlParserConsume (XmlSkipWhitespace P) 1"] by auto

text \<open>The loop of \<open>XmlParseTagOpen\<close>: \<open>Inl\<close> is its return of \<open>NULL\<close>, \<open>Inr\<close> the position of the name.\<close>

function TagOpen_loop :: "XML_PARSER \<Rightarrow> XML_PARSER + XML_PARSER" where
  "TagOpen_loop Parser =
     (if XmlParserPeek (XmlSkipWhitespace Parser) 0 \<noteq> ch_lt then Inl (XmlSkipWhitespace Parser)
      else if XmlParserPeek (XmlParserConsume (XmlSkipWhitespace Parser) 1) 0 = ch_slash
      then Inl (XmlParserConsume (XmlSkipWhitespace Parser) 1)
      else if XmlParserPeek (XmlParserConsume (XmlSkipWhitespace Parser) 1) 0 \<noteq> ch_query
            \<and> XmlParserPeek (XmlParserConsume (XmlSkipWhitespace Parser) 1) 0 \<noteq> ch_excl
      then Inr (XmlParserConsume (XmlSkipWhitespace Parser) 1)
      else if Position (skip_sequence (XmlParserConsume (XmlSkipWhitespace Parser) 1)) < length (Buffer Parser)
      then TagOpen_loop (skip_sequence (XmlParserConsume (XmlSkipWhitespace Parser) 1))
      else Inr (skip_sequence (XmlParserConsume (XmlSkipWhitespace Parser) 1)))"
  by pat_completeness auto
termination
  by (relation "measure (\<lambda>P. length (Buffer P) - Position P)") (use TagOpen_step_Position in force)+

declare TagOpen_loop.simps [simp del]

definition XmlParseTagOpen :: "XML_PARSER \<Rightarrow> (nat option \<times> bool \<times> nat option \<times> XML_PARSER) option" where
  "XmlParseTagOpen Parser =
     (case TagOpen_loop Parser of
        Inl Parser \<Rightarrow> Some (None, False, None, Parser)
      | Inr Parser \<Rightarrow> XmlParseTagEnd Parser True)"

definition XmlParseTagClose :: "XML_PARSER \<Rightarrow> bool \<Rightarrow> (nat option \<times> XML_PARSER) option" where
  "XmlParseTagClose Parser Unprefixed =
     (let Parser = XmlSkipWhitespace Parser
      in if Unprefixed
         then if XmlParserPeek Parser 0 \<noteq> ch_slash then Some (None, Parser)
              else map_option (\<lambda>(Nm, _, _, Parser). (Nm, Parser)) (XmlParseTagEnd (XmlParserConsume Parser 1) False)
         else if XmlParserPeek Parser 0 \<noteq> ch_lt then Some (None, Parser)
         else if XmlParserPeek Parser 1 \<noteq> ch_slash then Some (None, Parser)
         else map_option (\<lambda>(Nm, _, _, Parser). (Nm, Parser)) (XmlParseTagEnd (XmlParserConsume Parser 2) False))"

function Content_loop :: "XML_PARSER \<Rightarrow> nat \<Rightarrow> nat \<Rightarrow> XML_PARSER \<times> nat" where
  "Content_loop Parser Start Len =
     (if Start + Len < length (Buffer Parser)
      then if XmlParserPeek Parser 0 = ch_lt then (Parser, Len) else Content_loop (XmlParserConsume Parser 1) Start (Len + 1)
      else (Parser, Len))"
  by pat_completeness auto
termination
  by (relation "measure (\<lambda>(P, Start, Len). length (Buffer P) - (Start + Len))") auto

declare Content_loop.simps [simp del]

primrec trim_space :: "byte list \<Rightarrow> nat \<Rightarrow> nat \<Rightarrow> nat option" where
  "trim_space Buf Start 0 = Some 0"
| "trim_space Buf Start (Suc n) =
     do {
       c \<leftarrow> rd Buf (Start + n);
       if IsAsciiSpace c then trim_space Buf Start n else Some (Suc n)
     }"

definition XmlParseContent :: "XML_PARSER \<Rightarrow> (nat option \<times> XML_PARSER) option" where
  "XmlParseContent Parser =
     (let Parser = XmlSkipWhitespace Parser;
          Start = Position Parser;
          (Parser, Len) = Content_loop Parser Start 0
      in if XmlParserPeek Parser 0 \<noteq> ch_lt then Some (None, Parser)
         else do {
           Len \<leftarrow> trim_space (Buffer Parser) Start Len;
           B \<leftarrow> wr (Buffer Parser) (Start + Len) 0;
           Some (Some Start, XmlParserConsume (Parser\<lparr>Buffer := B\<rparr>) 1)
         })"

subsection \<open>Nodes\<close>

text \<open>The reference number of a node that has one.\<close>

definition reference_number :: "byte list \<Rightarrow> XML_REFLIST option \<Rightarrow> nat option \<Rightarrow> u32 option option" where
  "reference_number Buf References Attr =
     (case (References, Attr) of
        (Some _, Some a) \<Rightarrow> XmlParseAttributeNumber Buf a (ascii ''ID='' @ [ch_quot])
      | _ \<Rightarrow> Some None)"

text \<open>What the two branches of \<open>XmlParseNode\<close> hand over to the parsing of the closing tag.\<close>

type_synonym node_body = "XML_NODE \<times> u32 option \<times> bool \<times> XML_PARSER \<times> XML_REFLIST option"
type_synonym node_state = "XML_NODE \<times> XML_PARSER \<times> XML_REFLIST option"
type_synonym node_result = "XML_NODE option \<times> XML_PARSER \<times> XML_REFLIST option"

definition parse_text :: "XML_NODE \<Rightarrow> XML_PARSER \<Rightarrow> XML_REFLIST option \<Rightarrow> ((XML_PARSER \<times> XML_REFLIST option) + node_body) option" where
  "parse_text Node Parser References =
     do {
       (Text, Parser) \<leftarrow> XmlParseContent Parser;
       (case Text of
          None \<Rightarrow> Some (Inl (Parser, References))
        | Some t \<Rightarrow> do {
            Number \<leftarrow> reference_number (Buffer Parser) References (Attributes Node);
            Some (Inr (XML_NODE (Address Node) (Name Node) (Attributes Node) (Some t) (Real Node) (Children Node),
              Number, True, Parser, References))
          })
     }"

text \<open>One pass of the loop over the children. The result of the loop tells whether the closing tag is unprefixed.\<close>

definition parse_child ::
  "(XML_PARSER \<Rightarrow> XML_REFLIST option \<Rightarrow> node_result option) \<Rightarrow> (nat \<Rightarrow> bool) \<Rightarrow> node_state \<Rightarrow>
   (node_state, ((XML_PARSER \<times> XML_REFLIST option) + (bool \<times> node_state)) option) ctl" where
  "parse_child parse AllocOk = (\<lambda>(Node, Parser, References).
     if XmlParserPeek Parser 1 = ch_slash then Break (Some (Inr (False, Node, Parser, References)))
     else
       (case parse Parser References of
          None \<Rightarrow> Break None
        | Some (None, Parser, References) \<Rightarrow>
            if XmlParserPeek Parser 0 = ch_slash then Break (Some (Inr (True, Node, Parser, References)))
            else Break (Some (Inl (Parser, References)))
        | Some (Some Child, Parser, References) \<Rightarrow>
            (let (Pushed, Node') = XmlNodeChildPush (AllocOk (AllocIndex Parser)) Node Child;
                 Parser = (if XmlNodeChildPush_allocates Node then Parser\<lparr>AllocIndex := AllocIndex Parser + 1\<rparr> else Parser)
             in if Pushed then Continue (Node', Parser, References) else Break (Some (Inl (Parser, References))))))"

definition parse_children ::
  "(XML_PARSER \<Rightarrow> XML_REFLIST option \<Rightarrow> node_result option) \<Rightarrow> (nat \<Rightarrow> bool) \<Rightarrow> XML_NODE \<Rightarrow> XML_PARSER \<Rightarrow> XML_REFLIST option \<Rightarrow>
   ((XML_PARSER \<times> XML_REFLIST option) + node_body) option" where
  "parse_children parse AllocOk Node Parser References =
     (let Parser = Parser\<lparr>Level := Level Parser + 1\<rparr>
      in if Level Parser > XML_PARSER_NEST_LEVEL then Some (Inl (Parser, References))
         else do {
           r \<leftarrow> iterate (parse_child parse AllocOk) (Node, Parser, References);
           r \<leftarrow> r;
           (case r of
              Inl e \<Rightarrow> Some (Inl e)
            | Inr (Unprefixed, Node, Parser, References) \<Rightarrow> do {
                let Parser = Parser\<lparr>Level := Level Parser - 1\<rparr>;
                Number \<leftarrow> (if Children Node = None then reference_number (Buffer Parser) References (Attributes Node) else Some None);
                Some (Inr (Node, Number, Unprefixed, Parser, References))
              })
         })"

definition parse_close :: "(nat \<Rightarrow> bool) \<Rightarrow> node_body \<Rightarrow> node_result option" where
  "parse_close AllocOk = (\<lambda>(Node, Number, Unprefixed, Parser, References).
     do {
       (TagClose, Parser) \<leftarrow> XmlParseTagClose Parser Unprefixed;
       (case TagClose of
          None \<Rightarrow> Some (None, Parser, References)
        | Some t \<Rightarrow> do {
            NameOpen \<leftarrow> cstr (Buffer Parser) (Name Node);
            NameClose \<leftarrow> cstr (Buffer Parser) t;
            if NameOpen \<noteq> NameClose then Some (None, Parser, References)
            else
              (case (Number, References) of
                 (Some n, Some Refs) \<Rightarrow> do {
                   (Pushed, Refs') \<leftarrow> XmlPushReference (AllocOk (AllocIndex Parser)) Refs Node n;
                   let Parser = (if XmlPushReference_allocates Refs n then Parser\<lparr>AllocIndex := AllocIndex Parser + 1\<rparr> else Parser);
                   Some (if Pushed then Some Node else None, Parser, Some Refs')
                 }
               | _ \<Rightarrow> Some (Some Node, Parser, References))
          })
     })"

text \<open>
  The argument \<open>d\<close> bounds the depth of the recursion. A node is parsed inside at most \<open>XML_PARSER_NEST_LEVEL\<close>
  others, so 33 is enough for every document (\<open>XmlParseNode_ok\<close>).
\<close>

primrec XmlParseNode :: "nat \<Rightarrow> (nat \<Rightarrow> bool) \<Rightarrow> XML_PARSER \<Rightarrow> XML_REFLIST option \<Rightarrow> node_result option" where
  "XmlParseNode 0 AllocOk Parser References = None"
| "XmlParseNode (Suc d) AllocOk Parser References =
     do {
       (TagOpen, SelfClosing, Attr, Parser) \<leftarrow> XmlParseTagOpen Parser;
       (case TagOpen of
          None \<Rightarrow> Some (None, Parser, References)
        | Some TagOpen \<Rightarrow> do {
            let Parser = XmlSkipWhitespace Parser;
            RealNode \<leftarrow> XmlNodeReal (Buffer Parser) References Attr;
            let Node = XML_NODE (AllocIndex Parser) TagOpen Attr None RealNode None;
            let Allocated = AllocOk (AllocIndex Parser);
            let Parser = Parser\<lparr>AllocIndex := AllocIndex Parser + 1\<rparr>;
            if \<not> Allocated then Some (None, Parser, References)
            else if SelfClosing then Some (Some Node, Parser, References)
            else do {
              r \<leftarrow> (if XmlParserPeek Parser 0 \<noteq> ch_lt then parse_text Node Parser References
                   else parse_children (XmlParseNode d AllocOk) AllocOk Node Parser References);
              (case r of
                 Inl (Parser, References) \<Rightarrow> Some (None, Parser, References)
               | Inr b \<Rightarrow> parse_close AllocOk b)
            }
          })
     }"

record XML_DOCUMENT =
  DocBuffer :: "byte list"
  Root :: XML_NODE
  References :: XML_REFLIST

text \<open>The result is the document, or \<open>None\<close> for \<open>NULL\<close>, and the buffer that the parser has written to.\<close>

definition XmlDocumentParse :: "(nat \<Rightarrow> bool) \<Rightarrow> byte list \<Rightarrow> bool \<Rightarrow> (XML_DOCUMENT option \<times> byte list) option" where
  "XmlDocumentParse AllocOk Buf WithRefs =
     (let Parser = \<lparr>Buffer = Buf, Position = 0, Level = 0, AllocIndex = 0\<rparr>;
          Refs = \<lparr>RefCount = 0, RefList = []\<rparr>
      in if length Buf = 0 \<or> length Buf > XML_PARSER_MAX_SIZE then Some (None, Buf)
         else do {
           (Node, Parser, R) \<leftarrow> XmlParseNode 33 AllocOk Parser (if WithRefs then Some Refs else None);
           (case Node of
              None \<Rightarrow> Some (None, Buffer Parser)
            | Some Node \<Rightarrow>
                if \<not> AllocOk (AllocIndex Parser) then Some (None, Buffer Parser)
                else Some (Some \<lparr>DocBuffer = Buffer Parser, Root = Node, References = (case R of Some r \<Rightarrow> r | None \<Rightarrow> Refs)\<rparr>, Buffer Parser))
         })"

section \<open>Memory safety and termination\<close>

text \<open>The parser only ever overwrites bytes with terminators, so a terminated string stays terminated.\<close>

definition zeroed :: "byte list \<Rightarrow> byte list \<Rightarrow> bool" where
  "zeroed B B' \<longleftrightarrow> length B' = length B \<and> (\<forall>i < length B. B' ! i = B ! i \<or> B' ! i = 0)"

definition terminated :: "byte list \<Rightarrow> nat \<Rightarrow> bool" where
  "terminated B off \<longleftrightarrow> (\<exists>i < length B. off \<le> i \<and> B ! i = 0)"

lemma zeroed_refl [simp]: "zeroed B B"
  by (simp add: zeroed_def)

lemma zeroed_trans: "zeroed A B \<Longrightarrow> zeroed B C \<Longrightarrow> zeroed A C"
  unfolding zeroed_def by metis

lemma zeroed_length: "zeroed B B' \<Longrightarrow> length B' = length B"
  by (simp add: zeroed_def)

lemma zeroed_update [simp]: "zeroed B (B[i := 0])"
  by (cases "i < length B") (auto simp: zeroed_def nth_list_update)

lemma terminated_mono: "terminated B off \<Longrightarrow> zeroed B B' \<Longrightarrow> terminated B' off"
  unfolding terminated_def zeroed_def by metis

lemma terminated_update: "off \<le> i \<Longrightarrow> i < length B \<Longrightarrow> terminated (B[i := 0]) off"
  unfolding terminated_def by (rule exI[of _ i]) simp

lemma cstr_terminated: "cstr B off = None \<longleftrightarrow> \<not> terminated B off"
proof -
  have "0 \<in> set (drop off B) \<longleftrightarrow> terminated B off"
  proof
    assume "0 \<in> set (drop off B)"
    then obtain i where "i < length (drop off B)" "drop off B ! i = 0" by (metis in_set_conv_nth)
    then show "terminated B off" unfolding terminated_def by (intro exI[of _ "off + i"]) auto
  next
    assume "terminated B off"
    then obtain i where "i < length B" "off \<le> i" "B ! i = 0" by (auto simp: terminated_def)
    then have "drop off B ! (i - off) = 0" "i - off < length (drop off B)" by auto
    then show "0 \<in> set (drop off B)" by (metis nth_mem)
  qed
  then show ?thesis by (simp add: cstr_def)
qed

lemma cstr_Some: "terminated B off \<Longrightarrow> \<exists>s. cstr B off = Some s"
  using cstr_terminated[of B off] by (cases "cstr B off") auto

text \<open>What every function of the parser keeps of the parser.\<close>

definition advances :: "XML_PARSER \<Rightarrow> XML_PARSER \<Rightarrow> bool" where
  "advances P P' \<longleftrightarrow> zeroed (Buffer P) (Buffer P') \<and> Position P \<le> Position P' \<and> Position P' \<le> length (Buffer P')
     \<and> Level P \<le> Level P' \<and> AllocIndex P \<le> AllocIndex P'"

lemma advances_trans: "advances P Q \<Longrightarrow> advances Q R \<Longrightarrow> advances P R"
  unfolding advances_def using zeroed_trans by fastforce

lemma advances_refl [simp]: "Position P \<le> length (Buffer P) \<Longrightarrow> advances P P"
  by (simp add: advances_def)

lemma advances_Position: "advances P P' \<Longrightarrow> Position P' \<le> length (Buffer P')" "advances P P' \<Longrightarrow> Position P \<le> Position P'"
  "advances P P' \<Longrightarrow> Level P \<le> Level P'" "advances P P' \<Longrightarrow> zeroed (Buffer P) (Buffer P')"
  "advances P P' \<Longrightarrow> length (Buffer P') = length (Buffer P)"
  by (auto simp: advances_def zeroed_def)

lemma advances_Consume: "Position P \<le> length (Buffer P) \<Longrightarrow> advances P (XmlParserConsume P n)"
  using Consume_Position[of P n] by (simp add: advances_def)

lemma advances_skip: "Position P \<le> length (Buffer P) \<Longrightarrow> advances P (XmlSkipWhitespace P)"
  using XmlSkipWhitespace_Position[of P] by (simp add: advances_def)

lemma advances_alloc: "advances P Q \<Longrightarrow> advances P (Q\<lparr>AllocIndex := Suc (AllocIndex Q)\<rparr>)"
  by (simp add: advances_def)

lemma skip_attribute_space_bounds:
  "a \<le> Len \<Longrightarrow> Start + Len \<le> length B \<Longrightarrow> \<exists>r. skip_attribute_space B Start a Len = Some r \<and> Start + a \<le> r \<and> r \<le> Start + Len"
proof (induction B Start a Len rule: skip_attribute_space.induct)
  case (1 B Start a Len)
  show ?case
    using 1 by (subst (1) skip_attribute_space.simps) (fastforce simp: bind_eq_Some_conv)
qed

lemma TagEnd_loop_Some:
  assumes "TagEnd_loop P Start Len NL C = Some (P', Len', NL', C')"
    and "Position P = Start + Len" "Start + Len \<le> length (Buffer P)" "NL \<le> Len" "C = XmlParserPeek P 0"
  shows "Buffer P' = Buffer P \<and> Level P' = Level P \<and> AllocIndex P' = AllocIndex P \<and> Position P' = Start + Len'
    \<and> Start + Len' \<le> length (Buffer P) \<and> NL' \<le> Len' \<and> Len \<le> Len' \<and> C' = XmlParserPeek P' 0"
  using assms
proof (induction P Start Len NL C rule: TagEnd_loop.induct)
  case (1 P Start Len NL C)
  let ?Q = "XmlParserConsume P 1"
  have Q: "Position ?Q = Start + (Len + 1)" if "Start + Len < length (Buffer P)"
    using that 1 Consume_Position(3)[of P 1] by simp
  show ?case
  proof (cases "Start + Len < length (Buffer P) \<and> C \<noteq> ch_slash \<and> C \<noteq> ch_gt")
    case False
    then have "(P', Len', NL', C') = (P, Len, NL, C)" using 1(3) by (subst (asm) TagEnd_loop.simps) (auto split: if_splits)
    then show ?thesis using 1 by simp
  next
    case True
    show ?thesis
    proof (cases "NL = 0 \<and> IsAsciiSpace C")
      case T: True
      then have "Len \<noteq> 0" "TagEnd_loop ?Q Start (Len + 1) Len (XmlParserPeek ?Q 0) = Some (P', Len', NL', C')"
        using True 1(3) by (subst (asm) TagEnd_loop.simps, auto split: if_splits)+
      then show ?thesis using 1(1) True T Q by simp
    next
      case F: False
      then have "TagEnd_loop ?Q Start (Len + 1) NL (XmlParserPeek ?Q 0) = Some (P', Len', NL', C')"
        using True 1(3) by (subst (asm) TagEnd_loop.simps) (auto split: if_splits)
      then show ?thesis using 1(2) 1(6) True F Q by simp
    qed
  qed
qed

text \<open>The name that a tag function returns, with the attributes, is terminated, and the parser has moved.\<close>

definition tag_ok :: "XML_PARSER \<Rightarrow> nat option \<Rightarrow> nat option \<Rightarrow> XML_PARSER \<Rightarrow> bool" where
  "tag_ok P Nm Attr P' \<longleftrightarrow> advances P P' \<and> Level P' = Level P \<and> AllocIndex P' = AllocIndex P
     \<and> (case Nm of None \<Rightarrow> True
        | Some n \<Rightarrow> Position P < Position P' \<and> terminated (Buffer P') n \<and> (\<forall>a. Attr = Some a \<longrightarrow> terminated (Buffer P') a))"

lemma tag_ok_None: "advances P P' \<Longrightarrow> Level P' = Level P \<Longrightarrow> AllocIndex P' = AllocIndex P \<Longrightarrow> tag_ok P None Attr P'"
  by (simp add: tag_ok_def)

lemma tag_ok_trans: "advances P Q \<Longrightarrow> Level Q = Level P \<Longrightarrow> AllocIndex Q = AllocIndex P \<Longrightarrow> tag_ok Q Nm Attr R \<Longrightarrow> tag_ok P Nm Attr R"
  unfolding tag_ok_def using advances_trans advances_Position(2) by (fastforce split: option.splits)

text \<open>The second half of \<open>XmlParseTagEnd\<close>: the terminators of the name and of the attributes.\<close>

lemma XmlParseTagEnd_finish:
  assumes pos: "Position Q = Start + Len" "Start + Len \<le> length (Buffer Q)" "NL \<le> Len" and C: "C \<noteq> 0 \<Longrightarrow> Start + Len < length (Buffer Q)"
    and Attr: "\<forall>a. Attr = Some a \<longrightarrow> terminated (Buffer Q) a"
    and Q': "Q' = (if C = ch_slash then XmlParserConsume Q 1 else Q)" "C' = (if C = ch_slash then XmlParserPeek Q' 0 else C)" "C' = ch_gt"
    and B: "B = (Buffer Q)[Start + NL := 0]" and S: "Position P = Start" "advances P Q" "Level P = Level Q" "AllocIndex P = AllocIndex Q"
  shows "wr (Buffer Q) (Start + NL) 0 = Some B" "tag_ok P (Some Start) Attr ((XmlParserConsume Q' 1)\<lparr>Buffer := B\<rparr>)"
proof -
  have "advances Q Q'" "Buffer Q' = Buffer Q" using advances_Consume[of Q 1] pos Q' by (auto intro: advances_refl)
  moreover have p': "Position Q' < length (Buffer Q')" using Peek_nonzero[of Q' 0 ch_gt] Q' C pos by (auto split: if_splits)
  ultimately have lt: "Start + NL < length (Buffer Q)" using pos advances_Position(2)[of Q Q'] by simp
  then show "wr (Buffer Q) (Start + NL) 0 = Some B" by (simp add: B)
  have "advances P Q'" using S \<open>advances Q Q'\<close> advances_trans by blast
  then have "Position P \<le> Position Q'" "zeroed (Buffer P) (Buffer Q)"
    using advances_Position(2,4) \<open>Buffer Q' = Buffer Q\<close> by fastforce+
  moreover have "Position (XmlParserConsume Q' 1) = Position Q' + 1" using p' Consume_Position(3)[of Q' 1] by simp
  moreover have "zeroed (Buffer P) B" "terminated B Start" "zeroed (Buffer Q) B"
    using zeroed_trans[OF \<open>zeroed (Buffer P) (Buffer Q)\<close>] lt by (auto simp: B terminated_update)
  moreover have "Level Q' = Level Q" "AllocIndex Q' = AllocIndex Q" by (simp_all add: Q'(1))
  moreover have "length B = length (Buffer Q')" using \<open>Buffer Q' = Buffer Q\<close> by (simp add: B)
  ultimately show "tag_ok P (Some Start) Attr ((XmlParserConsume Q' 1)\<lparr>Buffer := B\<rparr>)"
    using Attr terminated_mono p' S by (auto simp: tag_ok_def advances_def)
qed

text \<open>The first half: the attributes.\<close>

lemma XmlParseTagEnd_attributes:
  assumes pos: "Position Q = Start + Len" "Start + Len \<le> length (Buffer Q)" "NL \<le> Len" and C: "C = XmlParserPeek Q 0"
  shows "\<exists>Attr B. (if NL \<noteq> 0 \<and> Optional \<and> (C = ch_slash \<or> C = ch_gt)
                then do {
                  a \<leftarrow> skip_attribute_space (Buffer Q) Start NL Len;
                  B \<leftarrow> wr (Buffer Q) (Start + Len) 0;
                  Some (Some a, Q\<lparr>Buffer := B\<rparr>)
                }
                else Some (None, Q)) = Some (Attr, Q\<lparr>Buffer := B\<rparr>)
     \<and> zeroed (Buffer Q) B \<and> (\<forall>a. Attr = Some a \<longrightarrow> terminated B a) \<and> B = (if Attr = None then Buffer Q else (Buffer Q)[Start + Len := 0])"
proof (cases "NL \<noteq> 0 \<and> Optional \<and> (C = ch_slash \<or> C = ch_gt)")
  case True
  then have "Start + Len < length (Buffer Q)" using Peek_nonzero[of Q 0 C] C pos by auto
  moreover obtain a where "skip_attribute_space (Buffer Q) Start NL Len = Some a" "a \<le> Start + Len"
    using skip_attribute_space_bounds[OF pos(3,2)] by blast
  ultimately show ?thesis using True by (intro exI[of _ "Some a"] exI[of _ "(Buffer Q)[Start + Len := 0]"]) (simp add: terminated_update)
next
  case False
  then show ?thesis by (intro exI[of _ None] exI[of _ "Buffer Q"]) auto
qed

lemma XmlParseTagEnd_ok:
  assumes "Position P \<le> length (Buffer P)"
  shows "\<exists>Nm S Attr P'. XmlParseTagEnd P Optional = Some (Nm, S, Attr, P') \<and> tag_ok P Nm Attr P'"
proof (cases "TagEnd_loop P (Position P) 0 0 (XmlParserPeek P 0)")
  case None
  then show ?thesis using assms by (auto simp: XmlParseTagEnd_def Let_def tag_ok_None)
next
  case (Some r)
  obtain Q Len NL C where r: "r = (Q, Len, NL, C)" by (cases r)
  let ?S = "Position P"
  have Q: "Buffer Q = Buffer P" "Level Q = Level P" "AllocIndex Q = AllocIndex P" "Position Q = ?S + Len" "?S + Len \<le> length (Buffer Q)"
    "NL \<le> Len" "C = XmlParserPeek Q 0"
    using TagEnd_loop_Some[of P ?S 0 0 "XmlParserPeek P 0" Q Len NL C] Some r assms by simp_all
  have lt: "C \<noteq> 0 \<Longrightarrow> ?S + Len < length (Buffer Q)" using Peek_nonzero[of Q 0 C] Q by simp
  obtain Attr B where A: "(if NL \<noteq> 0 \<and> Optional \<and> (C = ch_slash \<or> C = ch_gt)
                then do {
                  a \<leftarrow> skip_attribute_space (Buffer Q) ?S NL Len;
                  B \<leftarrow> wr (Buffer Q) (?S + Len) 0;
                  Some (Some a, Q\<lparr>Buffer := B\<rparr>)
                }
                else Some (None, Q)) = Some (Attr, Q\<lparr>Buffer := B\<rparr>)"
    and B: "zeroed (Buffer Q) B" "\<forall>a. Attr = Some a \<longrightarrow> terminated B a"
    using XmlParseTagEnd_attributes[OF Q(4-7)] by blast
  let ?R = "Q\<lparr>Buffer := B\<rparr>"
  have R: "advances P ?R" using Q B(1) zeroed_length[OF B(1)] assms by (auto simp: advances_def)
  let ?NL = "if NL \<noteq> 0 then NL else Len"
  let ?R' = "if C = ch_slash then XmlParserConsume ?R 1 else ?R"
  have R': "advances P ?R'" "Level ?R' = Level P" "AllocIndex ?R' = AllocIndex P" "Buffer ?R' = B"
    using advances_trans[OF R advances_Consume[OF advances_Position(1)[OF R]]] R Q by simp_all
  have fin: "wr B (?S + ?NL) 0 = Some (B[?S + ?NL := 0])"
    "tag_ok P (Some ?S) Attr ((XmlParserConsume ?R' 1)\<lparr>Buffer := B[?S + ?NL := 0]\<rparr>)"
    if "(if C = ch_slash then XmlParserPeek ?R' 0 else C) = ch_gt"
    using XmlParseTagEnd_finish[of ?R ?S Len ?NL C Attr ?R' ch_gt _ P] that Q lt B R zeroed_length[OF B(1)] by auto
  show ?thesis
    unfolding XmlParseTagEnd_def Let_def Some r option.case prod.case A
    using R R' Q fin by (cases "C = ch_slash") (auto simp: tag_ok_None)
qed

lemma TagOpen_loop_ok:
  "Position P \<le> length (Buffer P) \<Longrightarrow>
     (case TagOpen_loop P of Inl Q \<Rightarrow> advances P Q \<and> Level Q = Level P \<and> AllocIndex Q = AllocIndex P
                           | Inr Q \<Rightarrow> advances P Q \<and> Level Q = Level P \<and> AllocIndex Q = AllocIndex P)"
proof (induction P rule: TagOpen_loop.induct)
  case (1 P)
  let ?W = "XmlSkipWhitespace P" and ?C = "XmlParserConsume (XmlSkipWhitespace P) 1"
  have W: "advances P ?W" using advances_skip 1(2) by blast
  then have C: "advances P ?C" using advances_trans advances_Consume[OF advances_Position(1)[OF W]] by blast
  then have S: "advances P (skip_sequence ?C)"
    using advances_trans[OF C] skip_sequence_Position[of ?C] advances_Position(1)[OF C] by (simp add: advances_def)
  have IH: "case TagOpen_loop (skip_sequence ?C) of
      Inl Q \<Rightarrow> advances (skip_sequence ?C) Q \<and> Level Q = Level P \<and> AllocIndex Q = AllocIndex P
    | Inr Q \<Rightarrow> advances (skip_sequence ?C) Q \<and> Level Q = Level P \<and> AllocIndex Q = AllocIndex P"
    if "XmlParserPeek ?W 0 = ch_lt" "XmlParserPeek ?C 0 \<noteq> ch_slash" "XmlParserPeek ?C 0 = ch_query \<or> XmlParserPeek ?C 0 = ch_excl"
      "Position (skip_sequence ?C) < length (Buffer P)"
    using 1(1) that by (simp split: sum.splits)
  show ?case
    using W C S by (subst TagOpen_loop.simps) (auto split: sum.splits dest!: IH intro: advances_trans[OF S])
qed

lemma tag_ok_no_attributes: "tag_ok P Nm Attr P' \<Longrightarrow> tag_ok P Nm None P'"
  by (simp add: tag_ok_def split: option.splits)

lemma XmlParseTagOpen_ok:
  assumes "Position P \<le> length (Buffer P)"
  shows "\<exists>Nm S Attr P'. XmlParseTagOpen P = Some (Nm, S, Attr, P') \<and> tag_ok P Nm Attr P'"
proof (cases "TagOpen_loop P")
  case (Inl Q)
  then show ?thesis using TagOpen_loop_ok[OF assms] by (auto simp: XmlParseTagOpen_def tag_ok_None)
next
  case (Inr Q)
  then have Q: "advances P Q" "Level Q = Level P" "AllocIndex Q = AllocIndex P" using TagOpen_loop_ok[OF assms] by auto
  then show ?thesis
    using Inr XmlParseTagEnd_ok[OF advances_Position(1)[OF Q(1)], of True] tag_ok_trans[OF Q] by (auto simp: XmlParseTagOpen_def)
qed

lemma XmlParseTagClose_ok:
  assumes "Position P \<le> length (Buffer P)"
  shows "\<exists>Nm P'. XmlParseTagClose P Unprefixed = Some (Nm, P') \<and> tag_ok P Nm None P'"
proof -
  let ?W = "XmlSkipWhitespace P"
  have W: "advances P ?W" using advances_skip assms by blast
  have C: "advances P (XmlParserConsume ?W n)" for n using advances_trans[OF W advances_Consume[OF advances_Position(1)[OF W]]] .
  have E: "\<exists>Nm P'. map_option (\<lambda>(Nm, _, _, Parser). (Nm, Parser)) (XmlParseTagEnd (XmlParserConsume ?W n) False) = Some (Nm, P')
     \<and> tag_ok P Nm None P'" for n
  proof -
    obtain Nm S Attr P' where "XmlParseTagEnd (XmlParserConsume ?W n) False = Some (Nm, S, Attr, P')" "tag_ok (XmlParserConsume ?W n) Nm Attr P'"
      using XmlParseTagEnd_ok[OF advances_Position(1)[OF C]] by blast
    then have "tag_ok P Nm None P'" using tag_ok_trans[OF C] tag_ok_no_attributes by fastforce
    then show ?thesis using \<open>XmlParseTagEnd _ _ = _\<close> by simp
  qed
  show ?thesis
    unfolding XmlParseTagClose_def Let_def using W E[of 1] E[of 2] by (auto simp: tag_ok_None)
qed

lemma Content_loop_ok:
  assumes "Content_loop P Start Len = (P', Len')" and "Position P = Start + Len" "Start + Len \<le> length (Buffer P)"
  shows "Buffer P' = Buffer P \<and> Level P' = Level P \<and> AllocIndex P' = AllocIndex P \<and> Position P' = Start + Len'
    \<and> Start + Len' \<le> length (Buffer P) \<and> Len \<le> Len'"
  using assms
proof (induction P Start Len rule: Content_loop.induct)
  case (1 P Start Len)
  have "Position (XmlParserConsume P 1) = Start + (Len + 1)" if "Start + Len < length (Buffer P)"
    using that 1 Consume_Position(3)[of P 1] by simp
  then show ?case using 1 by (subst (asm) (2) Content_loop.simps) (auto split: if_splits)
qed

lemma trim_space_ok: "Start + n \<le> length B \<Longrightarrow> \<exists>m \<le> n. trim_space B Start n = Some m"
proof (induction n)
  case (Suc n)
  then obtain m where "m \<le> n" "trim_space B Start n = Some m" by auto
  then show ?case using Suc.prems by auto
qed simp

lemma XmlParseContent_ok:
  assumes "Position P \<le> length (Buffer P)"
  shows "\<exists>t P'. XmlParseContent P = Some (t, P') \<and> tag_ok P t None P'"
proof -
  let ?W = "XmlSkipWhitespace P"
  obtain Q Len where L: "Content_loop ?W (Position ?W) 0 = (Q, Len)" by (cases "Content_loop ?W (Position ?W) 0")
  have W: "advances P ?W" using advances_skip assms by blast
  then have Q: "Buffer Q = Buffer P" "Level Q = Level P" "AllocIndex Q = AllocIndex P" "Position Q = Position ?W + Len"
    "Position ?W + Len \<le> length (Buffer P)"
    using Content_loop_ok[OF L] advances_Position(1)[OF W] by simp_all
  obtain m where m: "m \<le> Len" "trim_space (Buffer P) (Position ?W) Len = Some m" using trim_space_ok[OF Q(5)] by blast
  have "Position Q < length (Buffer P)" if "XmlParserPeek Q 0 = ch_lt" using Peek_nonzero[OF that] Q by simp
  moreover have "tag_ok P (Some (Position ?W)) None (XmlParserConsume (Q\<lparr>Buffer := (Buffer P)[Position ?W + m := 0]\<rparr>) 1)"
    if "Position Q < length (Buffer P)"
    using that m Q advances_Position(2)[OF W] Consume_Position(3)[of "Q\<lparr>Buffer := (Buffer P)[Position ?W + m := 0]\<rparr>" 1]
    by (simp add: tag_ok_def advances_def terminated_update)
  ultimately show ?thesis
    using m Q L advances_Position(2)[OF W] by (auto simp: XmlParseContent_def Let_def tag_ok_def advances_def)
qed

text \<open>
  The invariant of a node of the document: its strings end inside the buffer, the list of its children fits the block
  that holds it, and without a list of references there is no pointer to another node.
\<close>

fun node_ok :: "byte list \<Rightarrow> bool \<Rightarrow> XML_NODE \<Rightarrow> bool" where
  "node_ok B w (XML_NODE adr nm attr ct rl None) \<longleftrightarrow>
     terminated B nm \<and> (\<forall>a. attr = Some a \<longrightarrow> terminated B a) \<and> (\<forall>t. ct = Some t \<longrightarrow> terminated B t) \<and> (\<not> w \<longrightarrow> rl = None)"
| "node_ok B w (XML_NODE adr nm attr ct rl (Some (l, k))) \<longleftrightarrow>
     terminated B nm \<and> (\<forall>a. attr = Some a \<longrightarrow> terminated B a) \<and> (\<forall>t. ct = Some t \<longrightarrow> terminated B t) \<and> (\<not> w \<longrightarrow> rl = None)
     \<and> 0 < length l \<and> length l \<le> k \<and> length l \<le> XML_PARSER_NODE_COUNT \<and> (\<forall>x \<in> set l. node_ok B w x)"

lemma node_ok_mono: "node_ok B w n \<Longrightarrow> zeroed B B' \<Longrightarrow> node_ok B' w n"
  by (induction B w n rule: node_ok.induct) (auto simp: terminated_mono)

definition refs_ok :: "XML_REFLIST option \<Rightarrow> bool" where
  "refs_ok R \<longleftrightarrow> (case R of None \<Rightarrow> True | Some r \<Rightarrow> RefCount r \<le> length (RefList r))"

lemma XmlParseAttributeNumber_Some: "terminated B a \<Longrightarrow> \<exists>n. XmlParseAttributeNumber B a arg = Some n"
  using cstr_Some[of B a] by (auto simp: XmlParseAttributeNumber_def Let_def split: option.splits)

lemma XmlNodeReal_Some:
  assumes "refs_ok R" "\<forall>a. Attr = Some a \<longrightarrow> terminated B a"
  shows "\<exists>r. XmlNodeReal B R Attr = Some r \<and> (R = None \<longrightarrow> r = None)"
proof (cases "R = None \<or> Attr = None")
  case False
  then obtain r a where "R = Some r" "Attr = Some a" by auto
  moreover from this obtain n where "XmlParseAttributeNumber B a (ascii ''IDREF='' @ [ch_quot]) = Some n"
    using XmlParseAttributeNumber_Some assms by blast
  ultimately show ?thesis using assms(1) by (cases n) (auto simp: XmlNodeReal_def refs_ok_def)
qed (auto simp: XmlNodeReal_def split: option.splits)

lemma reference_number_Some:
  "\<forall>a. Attr = Some a \<longrightarrow> terminated B a \<Longrightarrow> \<exists>n. reference_number B R Attr = Some n"
  using XmlParseAttributeNumber_Some by (auto simp: reference_number_def split: option.splits)

lemma XmlPushReference_Some:
  assumes "RefCount r \<le> length (RefList r)"
  shows "\<exists>b r'. XmlPushReference ok r n k = Some (b, r') \<and> RefCount r' \<le> length (RefList r')"
proof -
  have "length (overwrite (replicate ((unat k + 1) * 2) None) 0 (take (RefCount r) (RefList r))) = (unat k + 1) * 2"
    if "length (RefList r) \<le> unat k"
    using that assms by (subst length_overwrite) auto
  then show ?thesis
    using assms unfolding XmlPushReference_def Let_def by (auto simp: not_le not_less)
qed

lemma XmlNodeChildPush_ok:
  assumes "node_ok B w n" "node_ok B w c" "XmlNodeChildPush ok n c = (b, n')"
  shows "node_ok B w n'"
proof -
  obtain adr nm attr ct rl ch where n: "n = XML_NODE adr nm attr ct rl ch" by (cases n)
  show ?thesis
  proof (cases ch)
    case None
    then show ?thesis using assms n by (auto simp: XmlNodeChildPush_def Let_def XML_PARSER_NODE_COUNT_def split: if_splits)
  next
    case (Some lk)
    then obtain l k where "ch = Some (l, k)" by (cases lk) auto
    then show ?thesis
      using assms n by (auto simp: XmlNodeChildPush_def Let_def XML_PARSER_NODE_COUNT_def Suc_le_eq split: if_splits)
  qed
qed

lemma XmlNodeChildPush_fields:
  "XmlNodeChildPush ok n c = (b, n') \<Longrightarrow> Attributes n' = Attributes n \<and> Name n' = Name n"
  by (auto simp: XmlNodeChildPush_def Let_def split: if_splits prod.splits)

lemma node_ok_attributes: "node_ok B w n \<Longrightarrow> \<forall>a. Attributes n = Some a \<longrightarrow> terminated B a" "node_ok B w n \<Longrightarrow> terminated B (Name n)"
  by (cases "(B, w, n)" rule: node_ok.cases; simp)+

text \<open>What \<open>XmlParseNode\<close> promises of its result.\<close>

definition node_result_ok :: "XML_PARSER \<Rightarrow> XML_REFLIST option \<Rightarrow> node_result \<Rightarrow> bool" where
  "node_result_ok P R = (\<lambda>(N, P', R').
     advances P P' \<and> refs_ok R' \<and> (R' = None \<longleftrightarrow> R = None) \<and> Level P' \<le> XML_PARSER_NEST_LEVEL + 1
     \<and> (\<forall>n. N = Some n \<longrightarrow> node_ok (Buffer P') (R \<noteq> None) n \<and> Position P < Position P' \<and> Level P' \<le> XML_PARSER_NEST_LEVEL))"

definition body_ok :: "XML_PARSER \<Rightarrow> XML_REFLIST option \<Rightarrow> ((XML_PARSER \<times> XML_REFLIST option) + node_body) \<Rightarrow> bool" where
  "body_ok P R r = (case r of
     Inl (P', R') \<Rightarrow> node_result_ok P R (None, P', R')
   | Inr (n, k, u, P', R') \<Rightarrow>
       advances P P' \<and> refs_ok R' \<and> (R' = None \<longleftrightarrow> R = None) \<and> Level P' \<le> XML_PARSER_NEST_LEVEL \<and> node_ok (Buffer P') (R \<noteq> None) n)"

lemma parse_close_ok:
  assumes "advances P Q" "refs_ok R'" "R' = None \<longleftrightarrow> R = None" "Level Q \<le> XML_PARSER_NEST_LEVEL" "node_ok (Buffer Q) (R \<noteq> None) n"
  shows "\<exists>r. parse_close ok (n, k, u, Q, R') = Some r \<and> node_result_ok P R r"
proof -
  obtain Nm Q' where C: "XmlParseTagClose Q u = Some (Nm, Q')" "tag_ok Q Nm None Q'"
    using XmlParseTagClose_ok advances_Position(1)[OF assms(1)] by blast
  then have A: "advances P Q'" "Level Q' \<le> XML_PARSER_NEST_LEVEL" "zeroed (Buffer Q) (Buffer Q')"
    using assms advances_trans advances_Position(4) by (auto simp: tag_ok_def)
  show ?thesis
  proof (cases Nm)
    case None
    then show ?thesis using C A assms by (auto simp: parse_close_def node_result_ok_def)
  next
    case (Some t)
    then have T: "terminated (Buffer Q') t" "Position P < Position Q'"
      using C advances_Position(2)[OF assms(1)] by (auto simp: tag_ok_def)
    have N: "node_ok (Buffer Q') (R \<noteq> None) n" using node_ok_mono assms(5) A(3) by blast
    obtain s where s: "cstr (Buffer Q') t = Some s" using cstr_Some T(1) by blast
    obtain s' where s': "cstr (Buffer Q') (Name n) = Some s'" using cstr_Some node_ok_attributes(2)[OF N] by blast
    have P: "\<exists>b r'. XmlPushReference a r n m = Some (b, r') \<and> RefCount r' \<le> length (RefList r')" if "R' = Some r" for a r m
      using XmlPushReference_Some assms(2) that by (auto simp: refs_ok_def)
    show ?thesis
    proof (cases "s' = s \<and> k \<noteq> None \<and> R' \<noteq> None")
      case True
      then obtain m r where "k = Some m" "R' = Some r" by auto
      moreover from this obtain b r' where "XmlPushReference (ok (AllocIndex Q')) r n m = Some (b, r')" "RefCount r' \<le> length (RefList r')"
        using P by blast
      ultimately show ?thesis
        using True C A T N assms Some s s' by (simp add: parse_close_def node_result_ok_def refs_ok_def advances_alloc)
    next
      case False
      then show ?thesis using C A T N assms Some s s' by (auto simp: parse_close_def node_result_ok_def split: option.splits)
    qed
  qed
qed

lemma parse_text_ok:
  assumes "Position P \<le> length (Buffer P)" "refs_ok R" "Level P \<le> XML_PARSER_NEST_LEVEL" "node_ok (Buffer P) (R \<noteq> None) n"
  shows "\<exists>r. parse_text n P R = Some r \<and> body_ok P R r"
proof -
  obtain t Q where C: "XmlParseContent P = Some (t, Q)" "tag_ok P t None Q" using XmlParseContent_ok assms(1) by blast
  then have N: "node_ok (Buffer Q) (R \<noteq> None) n" using node_ok_mono assms(4) advances_Position(4) by (auto simp: tag_ok_def)
  obtain k where k: "reference_number (Buffer Q) R (Attributes n) = Some k" using reference_number_Some node_ok_attributes(1)[OF N] by blast
  have "node_ok (Buffer Q) (R \<noteq> None) (XML_NODE (Address n) (Name n) (Attributes n) t (Real n) (Children n))"
    if "t \<noteq> None"
    using N that C(2) by (cases "(Buffer Q, R \<noteq> None, n)" rule: node_ok.cases) (auto simp: tag_ok_def)
  then show ?thesis using C k assms by (cases t) (auto simp: parse_text_def body_ok_def node_result_ok_def tag_ok_def)
qed

text \<open>The loop over the children, for a parser of nodes that keeps its promise one level further down.\<close>

definition children_inv :: "XML_PARSER \<Rightarrow> XML_REFLIST option \<Rightarrow> node_state \<Rightarrow> bool" where
  "children_inv P R = (\<lambda>(n, Q, R'). advances P Q \<and> refs_ok R' \<and> (R' = None \<longleftrightarrow> R = None) \<and> Level Q \<le> XML_PARSER_NEST_LEVEL
     \<and> node_ok (Buffer Q) (R \<noteq> None) n)"

definition children_post :: "XML_PARSER \<Rightarrow> XML_REFLIST option \<Rightarrow> ((XML_PARSER \<times> XML_REFLIST option) + (bool \<times> node_state)) option \<Rightarrow> bool" where
  "children_post P R r = (\<exists>x. r = Some x \<and> (case x of
     Inl (Q, R') \<Rightarrow> node_result_ok P R (None, Q, R')
   | Inr (u, n, Q, R') \<Rightarrow> advances P Q \<and> refs_ok R' \<and> (R' = None \<longleftrightarrow> R = None) \<and> Level Q \<le> XML_PARSER_NEST_LEVEL + 1
       \<and> node_ok (Buffer Q) (R \<noteq> None) n))"

lemma parse_child_ok:
  assumes parse: "\<And>Q R'. advances P Q \<Longrightarrow> refs_ok R' \<Longrightarrow> Level Q \<le> XML_PARSER_NEST_LEVEL \<Longrightarrow>
      \<exists>r. parse Q R' = Some r \<and> node_result_ok Q R' r"
    and "children_inv P R s"
  shows "case parse_child parse ok s of
      Continue s' \<Rightarrow> children_inv P R s' \<and> length (Buffer P) - Position (fst (snd s')) < length (Buffer P) - Position (fst (snd s))
    | Break r \<Rightarrow> children_post P R r"
proof -
  obtain n Q R1 where s: "s = (n, Q, R1)" by (cases s)
  have I: "advances P Q" "refs_ok R1" "R1 = None \<longleftrightarrow> R = None" "Level Q \<le> XML_PARSER_NEST_LEVEL" "node_ok (Buffer Q) (R \<noteq> None) n"
    using assms(2) by (auto simp: s children_inv_def)
  show ?thesis
  proof (cases "XmlParserPeek Q 1 = ch_slash")
    case True
    then show ?thesis using I by (simp add: parse_child_def s children_post_def)
  next
    case False
    obtain N Q' R2 where C: "parse Q R1 = Some (N, Q', R2)" "node_result_ok Q R1 (N, Q', R2)"
      using parse[OF I(1,2,4)] by (metis prod_cases3)
    then have A: "advances Q Q'" "advances P Q'" "refs_ok R2" "R2 = None \<longleftrightarrow> R = None" "Level Q' \<le> XML_PARSER_NEST_LEVEL + 1"
      "node_ok (Buffer Q') (R \<noteq> None) n"
      using I advances_trans node_ok_mono advances_Position(4) by (auto simp: node_result_ok_def)
    show ?thesis
    proof (cases N)
      case None
      then show ?thesis using C A False by (simp add: parse_child_def s children_post_def node_result_ok_def)
    next
      case (Some c)
      then have c: "node_ok (Buffer Q') (R \<noteq> None) c" "Position Q < Position Q'" "Level Q' \<le> XML_PARSER_NEST_LEVEL"
        using C I(3) by (auto simp: node_result_ok_def)
      obtain b n' where push: "XmlNodeChildPush (ok (AllocIndex Q')) n c = (b, n')" by fastforce
      have n': "node_ok (Buffer Q') (R \<noteq> None) n'" using XmlNodeChildPush_ok[OF A(6) c(1) push] .
      have "Position Q' \<le> length (Buffer P)" using advances_Position(1,5)[OF A(2)] by simp
      then show ?thesis
        using C A False Some c n' push
        by (simp add: parse_child_def s children_post_def children_inv_def node_result_ok_def advances_alloc diff_less_mono2)
    qed
  qed
qed

lemma parse_children_ok:
  assumes parse: "\<And>Q R'. Position Q \<le> length (Buffer Q) \<Longrightarrow> Level P < Level Q \<Longrightarrow> refs_ok R' \<Longrightarrow> Level Q \<le> XML_PARSER_NEST_LEVEL \<Longrightarrow>
      \<exists>r. parse Q R' = Some r \<and> node_result_ok Q R' r"
    and P: "Position P \<le> length (Buffer P)" "refs_ok R" "Level P \<le> XML_PARSER_NEST_LEVEL" "node_ok (Buffer P) (R \<noteq> None) n"
  shows "\<exists>r. parse_children parse ok n P R = Some r \<and> body_ok P R r"
proof -
  let ?P = "P\<lparr>Level := Level P + 1\<rparr>"
  show ?thesis
  proof (cases "Level P + 1 > XML_PARSER_NEST_LEVEL")
    case True
    then show ?thesis using P by (simp add: parse_children_def body_ok_def node_result_ok_def advances_def)
  next
    case False
    have "\<exists>r. iterate (parse_child parse ok) (n, ?P, R) = Some r \<and> children_post ?P R r"
    proof (rule iterate_total[where I = "children_inv ?P R" and m = "\<lambda>s. length (Buffer P) - Position (fst (snd s))"])
      show "children_inv ?P R (n, ?P, R)" using P False by (simp add: children_inv_def)
    next
      fix s s' assume "children_inv ?P R s" "parse_child parse ok s = Continue s'"
      moreover have "\<exists>r. parse Q R' = Some r \<and> node_result_ok Q R' r"
        if "advances ?P Q" "refs_ok R'" "Level Q \<le> XML_PARSER_NEST_LEVEL" for Q R'
        using parse that advances_Position(1,3)[OF that(1)] by simp
      ultimately show "children_inv ?P R s' \<and> length (Buffer P) - Position (fst (snd s')) < length (Buffer P) - Position (fst (snd s))"
        using parse_child_ok[of ?P parse R s ok] by simp
    next
      fix s r assume "children_inv ?P R s" "parse_child parse ok s = Break r"
      moreover have "\<exists>r. parse Q R' = Some r \<and> node_result_ok Q R' r"
        if "advances ?P Q" "refs_ok R'" "Level Q \<le> XML_PARSER_NEST_LEVEL" for Q R'
        using parse that advances_Position(1,3)[OF that(1)] by simp
      ultimately show "children_post ?P R r" using parse_child_ok[of ?P parse R s ok] by simp
    qed
    then obtain x where x: "iterate (parse_child parse ok) (n, ?P, R) = Some (Some x)" "children_post ?P R (Some x)"
      by (auto simp: children_post_def)
    have down: "advances ?P Q \<Longrightarrow> advances P Q" "advances ?P Q \<Longrightarrow> advances P (Q\<lparr>Level := Level Q - Suc 0\<rparr>)" for Q
      by (auto simp: advances_def)
    show ?thesis
    proof (cases x)
      case (Inl e)
      then show ?thesis
        using x False down by (cases e) (simp add: parse_children_def body_ok_def children_post_def node_result_ok_def)
    next
      case (Inr y)
      obtain u m Q R' where y: "y = (u, m, Q, R')" by (cases y)
      have Q: "advances ?P Q" "refs_ok R'" "R' = None \<longleftrightarrow> R = None" "Level Q \<le> XML_PARSER_NEST_LEVEL + 1" "node_ok (Buffer Q) (R \<noteq> None) m"
        using x(2) by (auto simp: Inr y children_post_def)
      obtain k where k: "reference_number (Buffer Q) R' (Attributes m) = Some k"
        using reference_number_Some node_ok_attributes(1)[OF Q(5)] by blast
      show ?thesis using x Inr y Q k False down by (simp add: parse_children_def body_ok_def Let_def le_diff_conv)
    qed
  qed
qed

theorem XmlParseNode_ok:
  "Position P \<le> length (Buffer P) \<Longrightarrow> refs_ok R \<Longrightarrow> Level P \<le> XML_PARSER_NEST_LEVEL \<Longrightarrow> XML_PARSER_NEST_LEVEL < Level P + d \<Longrightarrow>
   \<exists>r. XmlParseNode d ok P R = Some r \<and> node_result_ok P R r"
proof (induction d arbitrary: P R)
  case (Suc d)
  obtain Nm S Attr Q where T: "XmlParseTagOpen P = Some (Nm, S, Attr, Q)" "tag_ok P Nm Attr Q" using XmlParseTagOpen_ok Suc.prems(1) by blast
  show ?case
  proof (cases Nm)
    case None
    then show ?thesis using T Suc.prems by (auto simp: node_result_ok_def tag_ok_def)
  next
    case (Some nm)
    define W where "W = (XmlSkipWhitespace Q)\<lparr>AllocIndex := AllocIndex (XmlSkipWhitespace Q) + 1\<rparr>"
    have q: "advances P Q" "Level Q = Level P" "Position P < Position Q" "terminated (Buffer Q) nm" "\<forall>a. Attr = Some a \<longrightarrow> terminated (Buffer Q) a"
      using T Some by (auto simp: tag_ok_def)
    then have W: "advances P W" "Level W = Level P" "Position P < Position W" "Buffer W = Buffer Q" "Position W \<le> length (Buffer W)"
      using advances_alloc[OF advances_trans[OF q(1) advances_skip]] advances_Position(1)[OF q(1)] XmlSkipWhitespace_Position[of Q]
      by (auto simp: W_def)
    obtain rl where rl: "XmlNodeReal (Buffer Q) R Attr = Some rl" "R = None \<longrightarrow> rl = None"
      using XmlNodeReal_Some[OF Suc.prems(2) q(5)] by blast
    define n where "n = XML_NODE (AllocIndex Q) nm Attr None rl None"
    have n: "node_ok (Buffer W) (R \<noteq> None) n" using q rl W by (auto simp: n_def)
    have "\<exists>r. (if XmlParserPeek W 0 \<noteq> ch_lt then parse_text n W R else parse_children (XmlParseNode d ok) ok n W R) = Some r \<and> body_ok W R r"
      using parse_text_ok[OF W(5) Suc.prems(2) _ n] parse_children_ok[OF _ W(5) Suc.prems(2) _ n] Suc W(2) by simp
    then obtain r where r: "(if XmlParserPeek W 0 \<noteq> ch_lt then parse_text n W R else parse_children (XmlParseNode d ok) ok n W R) = Some r"
      "body_ok W R r" by blast
    have up: "\<exists>x. (case r of Inl (Q, R) \<Rightarrow> Some (None, Q, R) | Inr b \<Rightarrow> parse_close ok b) = Some x \<and> node_result_ok P R x"
    proof (cases r)
      case (Inl e)
      then show ?thesis using r(2) advances_trans[OF W(1)] by (cases e) (auto simp: body_ok_def node_result_ok_def)
    next
      case (Inr b)
      obtain m k u Q' R' where b: "b = (m, k, u, Q', R')" by (cases b)
      have "advances W Q'" "refs_ok R'" "R' = None \<longleftrightarrow> R = None" "Level Q' \<le> XML_PARSER_NEST_LEVEL" "node_ok (Buffer Q') (R \<noteq> None) m"
        using r(2) by (simp_all add: Inr b body_ok_def)
      then show ?thesis using parse_close_ok[OF advances_trans[OF W(1)]] by (simp add: Inr b)
    qed
    have "XmlParseNode (Suc d) ok P R =
        (if \<not> ok (AllocIndex Q) then Some (None, W, R) else if S then Some (Some n, W, R)
         else (case r of Inl (Q, R) \<Rightarrow> Some (None, Q, R) | Inr b \<Rightarrow> parse_close ok b))"
      using T(1) Some rl(1) r(1) by (simp add: Let_def n_def W_def cong: if_cong)
    then show ?thesis using up n W Suc.prems(2,3) by (simp add: node_result_ok_def)
  qed
qed simp

text \<open>
  C6: \<open>XmlDocumentParse\<close> always returns, for every buffer and whatever allocations fail: it never
  reads or writes outside the buffer, the only thing that it writes are terminators, and every name, attribute list and content of
  the document that it returns is a string that ends inside the buffer; the lists of children fit
  their blocks.
\<close>

theorem XmlDocumentParse_safe:
  "\<exists>D B. XmlDocumentParse AllocOk Buf WithRefs = Some (D, B) \<and> zeroed Buf B
     \<and> (case D of None \<Rightarrow> True | Some d \<Rightarrow> DocBuffer d = B \<and> node_ok B WithRefs (Root d)
          \<and> 0 < length Buf \<and> length Buf \<le> XML_PARSER_MAX_SIZE)"
proof -
  let ?P = "\<lparr>Buffer = Buf, Position = 0, Level = 0, AllocIndex = 0\<rparr>"
  let ?R = "if WithRefs then Some \<lparr>RefCount = 0, RefList = []\<rparr> else None"
  obtain N Q R where "XmlParseNode 33 AllocOk ?P ?R = Some (N, Q, R)" and r: "node_result_ok ?P ?R (N, Q, R)"
    using XmlParseNode_ok[of ?P ?R 33 AllocOk] by (cases WithRefs) (auto simp: refs_ok_def XML_PARSER_NEST_LEVEL_def)
  moreover have "zeroed Buf (Buffer Q)" "\<forall>n. N = Some n \<longrightarrow> node_ok (Buffer Q) WithRefs n"
    using r advances_Position(4)[of ?P Q] by (cases WithRefs; auto simp: node_result_ok_def)+
  ultimately show ?thesis by (cases N) (auto simp: XmlDocumentParse_def Let_def)
qed

fun addresses :: "XML_NODE \<Rightarrow> nat list" where
  "addresses (XML_NODE adr nm attr ct rl None) = [adr]"
| "addresses (XML_NODE adr nm attr ct rl (Some (l, k))) = adr # concat (map addresses l)"

fun pointers :: "XML_NODE \<Rightarrow> nat list" where
  "pointers (XML_NODE adr nm attr ct rl None) = (case rl of None \<Rightarrow> [] | Some a \<Rightarrow> [a])"
| "pointers (XML_NODE adr nm attr ct rl (Some (l, k))) = (case rl of None \<Rightarrow> [] | Some a \<Rightarrow> [a]) @ concat (map pointers l)"

text \<open>
  A node that was given up is freed with its children, but the list of references keeps their addresses. In this
  document \<^verbatim>\<open>b\<close> is given up because of its closing tag, with the child \<^verbatim>\<open>c\<close> (the block 3) that \<^verbatim>\<open>d\<close> refers to; parsing goes on, and
  the document that is returned points to the freed block.
\<close>

theorem XmlDocumentParse_dangling:
  "(case XmlDocumentParse (\<lambda>_. True)
       (ascii ''<r><a><b><c ID='' @ [ch_quot] @ ascii ''0'' @ [ch_quot] @ ascii ''>x</c></b/a><d IDREF='' @ [ch_quot] @ ascii ''0'' @ [ch_quot]
        @ ascii ''/></r>'') True of
      Some (Some d, B) \<Rightarrow> (addresses (Root d), pointers (Root d)) = ([0, 1, 7], [3])
    | _ \<Rightarrow> False)"
  by code_simp

end
