(* ===== verification/Oc_XmlExport.thy ===== *)
theory Oc_XmlExport
  imports Oc_Xml
begin

text \<open>
  The export of \<^verbatim>\<open>Library/OcXmlLib/OcXmlLib.c\<close> (\<open>XmlBufferAppend\<close>, \<open>XmlNodeExportRecursive\<close>, \<open>XmlDocumentExport\<close>), its
  correctness against the text of a tree, and the round trip with the parser.
\<close>

section \<open>Export\<close>

text \<open>\<open>Alloc k n\<close> is the \<open>k\<close>-th allocation, of \<open>n\<close> bytes.\<close>

definition XML_EXPORT_MIN_ALLOCATION_SIZE :: u32 where "XML_EXPORT_MIN_ALLOCATION_SIZE = 4096"

definition XML_PLIST_HEADER :: "byte list" where
  "XML_PLIST_HEADER =
     ascii ''<?xml version='' @ [ch_quot] @ ascii ''1.0'' @ [ch_quot] @ ascii '' encoding='' @ [ch_quot] @ ascii ''UTF-8'' @ [ch_quot]
     @ ascii ''?><!DOCTYPE plist PUBLIC '' @ [ch_quot] @ ascii ''-//Apple//DTD PLIST 1.0//EN'' @ [ch_quot] @ ascii '' '' @ [ch_quot]
     @ ascii ''http://www.apple.com/DTDs/PropertyList-1.0.dtd'' @ [ch_quot] @ ascii ''>''"

record XML_EXPORT =
  ExportBuffer :: "byte list"
  AllocSize :: u32
  CurrentSize :: u32
  ExportAllocs :: nat

definition append_data :: "XML_EXPORT \<Rightarrow> byte list \<Rightarrow> XML_EXPORT option" where
  "append_data E Data =
     (if unat (CurrentSize E) + length Data \<le> length (ExportBuffer E)
      then Some (E\<lparr>ExportBuffer := overwrite (ExportBuffer E) (unat (CurrentSize E)) Data, CurrentSize := CurrentSize E + of_nat (length Data)\<rparr>)
      else None)"

definition XmlBufferAppend :: "(nat \<Rightarrow> nat \<Rightarrow> byte list option) \<Rightarrow> byte list \<Rightarrow> XML_EXPORT \<Rightarrow> XML_EXPORT option" where
  "XmlBufferAppend Alloc Data E =
     (let DataLength = of_nat (length Data);
          NewSize = AllocSize E
      in if NewSize - CurrentSize E \<le> DataLength
         then
           (let NewSize = (if DataLength + 1 \<le> XML_EXPORT_MIN_ALLOCATION_SIZE then NewSize + XML_EXPORT_MIN_ALLOCATION_SIZE
                           else NewSize + (DataLength + 1));
                E' = E\<lparr>ExportAllocs := ExportAllocs E + 1\<rparr>
            in case Alloc (ExportAllocs E) (unat NewSize) of
                 None \<Rightarrow> Some E'
               | Some NewBuffer \<Rightarrow>
                   if unat (CurrentSize E) \<le> length NewBuffer \<and> unat (CurrentSize E) \<le> length (ExportBuffer E)
                   then append_data (E'\<lparr>ExportBuffer := overwrite NewBuffer 0 (take (unat (CurrentSize E)) (ExportBuffer E)), AllocSize := NewSize\<rparr>) Data
                   else None)
         else append_data E Data)"

text \<open>\<open>B\<close> is the buffer of the document, that the strings of the nodes point into.\<close>

fun XmlNodeExportRecursive ::
    "(nat \<Rightarrow> nat \<Rightarrow> byte list option) \<Rightarrow> byte list \<Rightarrow> XML_NODE \<Rightarrow> u32 \<Rightarrow> XML_EXPORT \<Rightarrow> XML_EXPORT option"
  and export_children :: "(nat \<Rightarrow> nat \<Rightarrow> byte list option) \<Rightarrow> byte list \<Rightarrow> XML_NODE list \<Rightarrow> u32 \<Rightarrow> XML_EXPORT \<Rightarrow> XML_EXPORT option" where
  "XmlNodeExportRecursive Alloc B (XML_NODE adr nm attr ct rl ch) Skip E =
     (if Skip \<noteq> 0 then (case ch of None \<Rightarrow> Some E | Some (l, k) \<Rightarrow> export_children Alloc B l (Skip - 1) E)
      else do {
        NodeName \<leftarrow> cstr B nm;
        E \<leftarrow> XmlBufferAppend Alloc [ch_lt] E;
        E \<leftarrow> XmlBufferAppend Alloc NodeName E;
        E \<leftarrow> (case attr of
               None \<Rightarrow> Some E
             | Some a \<Rightarrow> do {
                 E \<leftarrow> XmlBufferAppend Alloc [0x20] E;
                 Attr \<leftarrow> cstr B a;
                 XmlBufferAppend Alloc Attr E
               });
        (case (ch, ct) of
           (None, None) \<Rightarrow> XmlBufferAppend Alloc [ch_slash, ch_gt] E
         | _ \<Rightarrow> do {
             E \<leftarrow> XmlBufferAppend Alloc [ch_gt] E;
             E \<leftarrow> (case ch of
                    Some (l, k) \<Rightarrow> export_children Alloc B l 0 E
                  | None \<Rightarrow> do {
                      Text \<leftarrow> Option.bind ct (cstr B);
                      XmlBufferAppend Alloc Text E
                    });
             E \<leftarrow> XmlBufferAppend Alloc [ch_lt, ch_slash] E;
             E \<leftarrow> XmlBufferAppend Alloc NodeName E;
             XmlBufferAppend Alloc [ch_gt] E
           })
      })"
| "export_children Alloc B [] Skip E = Some E"
| "export_children Alloc B (x # xs) Skip E =
     do {
       E \<leftarrow> XmlNodeExportRecursive Alloc B x Skip E;
       export_children Alloc B xs Skip E
     }"

text \<open>The result is the block with the text and its length; the inner \<open>None\<close> is \<open>NULL\<close>.\<close>

definition XmlDocumentExport ::
  "(nat \<Rightarrow> nat \<Rightarrow> byte list option) \<Rightarrow> XML_DOCUMENT \<Rightarrow> u32 \<Rightarrow> bool \<Rightarrow> (byte list \<times> u32) option option" where
  "XmlDocumentExport Alloc Document Skip PrependPlistInfo =
     (let Size = of_nat (length (DocBuffer Document)) + 1
      in case Alloc 0 (unat Size) of
           None \<Rightarrow> Some None
         | Some Buf \<Rightarrow> do {
             E \<leftarrow> XmlNodeExportRecursive Alloc (DocBuffer Document) (Root Document) Skip
                   \<lparr>ExportBuffer = Buf, AllocSize = Size, CurrentSize = 0, ExportAllocs = 1\<rparr>;
             if PrependPlistInfo
             then if 2 ^ 32 \<le> unat (CurrentSize E) + (length XML_PLIST_HEADER + 1) then Some None
                  else
                    (let NewSize = CurrentSize E + (of_nat (length XML_PLIST_HEADER) + 1)
                     in case Alloc (ExportAllocs E) (unat NewSize) of
                          None \<Rightarrow> Some None
                        | Some NewBuffer \<Rightarrow>
                            if length XML_PLIST_HEADER + unat (CurrentSize E) \<le> length NewBuffer \<and> unat (CurrentSize E) \<le> length (ExportBuffer E)
                            then do {
                              let NewBuffer = overwrite NewBuffer 0 XML_PLIST_HEADER;
                              let NewBuffer = overwrite NewBuffer (length XML_PLIST_HEADER) (take (unat (CurrentSize E)) (ExportBuffer E));
                              NewBuffer \<leftarrow> wr NewBuffer (unat (NewSize - 1)) 0;
                              Some (Some (NewBuffer, NewSize - 1))
                            }
                            else None)
             else do {
               Result \<leftarrow> wr (ExportBuffer E) (unat (CurrentSize E)) 0;
               Some (Some (Result, CurrentSize E))
             }
           })"

section \<open>Trees\<close>

text \<open>The tree that a node denotes, as the code reads it, and its text.\<close>

datatype xml = Elem "byte list" "byte list option" body
  and body = Void | Text "byte list" | Kids "xml list"

definition str_at :: "byte list \<Rightarrow> nat \<Rightarrow> byte list" where
  "str_at B off = takeWhile (\<lambda>c. c \<noteq> 0) (drop off B)"

fun tree_of :: "byte list \<Rightarrow> XML_NODE \<Rightarrow> xml" where
  "tree_of B (XML_NODE adr nm attr ct rl ch) =
     Elem (str_at B nm) (map_option (str_at B) attr)
       (case ch of
          Some (l, k) \<Rightarrow> Kids (map (tree_of B) l)
        | None \<Rightarrow> (case ct of None \<Rightarrow> Void | Some c \<Rightarrow> Text (str_at B c)))"

fun print_xml :: "xml \<Rightarrow> byte list" where
  "print_xml (Elem n a Void) = [ch_lt] @ n @ (case a of None \<Rightarrow> [] | Some s \<Rightarrow> 0x20 # s) @ [ch_slash, ch_gt]"
| "print_xml (Elem n a (Text s)) =
     [ch_lt] @ n @ (case a of None \<Rightarrow> [] | Some s \<Rightarrow> 0x20 # s) @ [ch_gt] @ s @ [ch_lt, ch_slash] @ n @ [ch_gt]"
| "print_xml (Elem n a (Kids l)) =
     [ch_lt] @ n @ (case a of None \<Rightarrow> [] | Some s \<Rightarrow> 0x20 # s) @ [ch_gt] @ concat (map print_xml l) @ [ch_lt, ch_slash] @ n @ [ch_gt]"

text \<open>Skipping levels leaves the subtrees at that depth.\<close>

fun skip_levels :: "nat \<Rightarrow> xml \<Rightarrow> xml list" where
  "skip_levels 0 t = [t]"
| "skip_levels (Suc n) (Elem _ _ (Kids l)) = concat (map (skip_levels n) l)"
| "skip_levels (Suc n) _ = []"

subsection \<open>What the export writes\<close>

text \<open>
  \<open>emits L E s\<close>: the text \<open>s\<close> has been written, there is a byte left for the terminator, and the block has not grown beyond what
  its first size \<open>L\<close> and the text account for.
\<close>

definition emits :: "nat \<Rightarrow> XML_EXPORT \<Rightarrow> byte list \<Rightarrow> bool" where
  "emits L E s \<longleftrightarrow> length (ExportBuffer E) = unat (AllocSize E) \<and> unat (CurrentSize E) = length s \<and> length s < unat (AllocSize E)
     \<and> take (length s) (ExportBuffer E) = s \<and> unat (AllocSize E) \<le> max L (2 * length s + 4097)"

definition alloc_ok :: "(nat \<Rightarrow> nat \<Rightarrow> byte list option) \<Rightarrow> bool" where
  "alloc_ok Alloc \<longleftrightarrow> (\<forall>k n b. Alloc k n = Some b \<longrightarrow> length b = n)"

text \<open>A writer of the text \<open>D\<close>: it never leaves the block, and when all allocations succeed it appends \<open>D\<close>.\<close>

definition writes :: "(nat \<Rightarrow> nat \<Rightarrow> byte list option) \<Rightarrow> nat \<Rightarrow> nat \<Rightarrow> (XML_EXPORT \<Rightarrow> XML_EXPORT option) \<Rightarrow> byte list \<Rightarrow> bool" where
  "writes Alloc L T f D \<longleftrightarrow> (\<forall>E s. emits L E s \<and> length s + length D \<le> T \<longrightarrow>
     (\<exists>E' s'. f E = Some E' \<and> emits L E' s' \<and> length s' \<le> length s + length D \<and> ((\<forall>k n. Alloc k n \<noteq> None) \<longrightarrow> s' = s @ D)))"

lemma writes_Nil: "writes Alloc L T Some []"
  by (auto simp: writes_def)

lemma writes_bind: "writes Alloc L T f D1 \<Longrightarrow> writes Alloc L T g D2 \<Longrightarrow> writes Alloc L T (\<lambda>E. f E \<bind> g) (D1 @ D2)"
  unfolding writes_def
proof (intro allI impI)
  fix E s
  assume f: "\<forall>E s. emits L E s \<and> length s + length D1 \<le> T \<longrightarrow>
     (\<exists>E' s'. f E = Some E' \<and> emits L E' s' \<and> length s' \<le> length s + length D1 \<and> ((\<forall>k n. Alloc k n \<noteq> None) \<longrightarrow> s' = s @ D1))"
    and g: "\<forall>E s. emits L E s \<and> length s + length D2 \<le> T \<longrightarrow>
     (\<exists>E' s'. g E = Some E' \<and> emits L E' s' \<and> length s' \<le> length s + length D2 \<and> ((\<forall>k n. Alloc k n \<noteq> None) \<longrightarrow> s' = s @ D2))"
    and E: "emits L E s \<and> length s + length (D1 @ D2) \<le> T"
  obtain E1 s1 where 1: "f E = Some E1" "emits L E1 s1" "length s1 \<le> length s + length D1" "(\<forall>k n. Alloc k n \<noteq> None) \<longrightarrow> s1 = s @ D1"
    using f E by fastforce
  moreover obtain E2 s2 where "g E1 = Some E2" "emits L E2 s2" "length s2 \<le> length s1 + length D2" "(\<forall>k n. Alloc k n \<noteq> None) \<longrightarrow> s2 = s1 @ D2"
    using g E 1 by fastforce
  ultimately show "\<exists>E' s'. f E \<bind> g = Some E' \<and> emits L E' s' \<and> length s' \<le> length s + length (D1 @ D2)
      \<and> ((\<forall>k n. Alloc k n \<noteq> None) \<longrightarrow> s' = s @ D1 @ D2)"
    by (intro exI[of _ E2] exI[of _ s2]) auto
qed

lemma take_overwrite_end: "off + length D \<le> length B \<Longrightarrow> take (off + length D) (overwrite B off D) = take off B @ D"
  by (cases D) (auto simp: overwrite_def min_def)

lemma append_data_emits:
  assumes "length (ExportBuffer E) = unat (AllocSize E)" "unat (CurrentSize E) = length s" "take (length s) (ExportBuffer E) = s"
    "length s + length D < unat (AllocSize E)" "unat (AllocSize E) \<le> max L (2 * length (s @ D) + 4097)"
  shows "\<exists>E'. append_data E D = Some E' \<and> emits L E' (s @ D)"
proof -
  have lt: "length s + length D < 2 ^ 32" using assms(4) unat_less_2pow[of "AllocSize E"] by simp
  have "unat (of_nat (length D) :: u32) = length D" using lt by (simp add: unat_of_nat)
  then have "unat (CurrentSize E + of_nat (length D)) = length s + length D"
    using unat_plus_no_wrap[of "CurrentSize E" "of_nat (length D)"] assms(2) lt by simp
  then show ?thesis
    using assms take_overwrite_end[of "length s" D "ExportBuffer E"] by (simp add: append_data_def emits_def)
qed

lemma take_prefix_overwrite: "n \<le> length B \<Longrightarrow> length xs = n \<Longrightarrow> take n (overwrite B 0 xs) = xs"
  by (simp add: overwrite_def)

lemma writes_append:
  assumes Alloc: "alloc_ok Alloc" and T: "L < 2 ^ 32" "2 * T + 4097 < 2 ^ 32"
  shows "writes Alloc L T (XmlBufferAppend Alloc D) D"
  unfolding writes_def
proof (intro allI impI)
  fix E s assume E: "emits L E s \<and> length s + length D \<le> T"
  have e: "length (ExportBuffer E) = unat (AllocSize E)" "unat (CurrentSize E) = length s" "length s < unat (AllocSize E)"
    "take (length s) (ExportBuffer E) = s" "unat (AllocSize E) \<le> max L (2 * length s + 4097)" "length s + length D \<le> T"
    using E by (auto simp: emits_def)
  have d: "unat (of_nat (length D) :: u32) = length D" using e T by (simp add: unat_of_nat)
  have rest: "unat (AllocSize E - CurrentSize E) = unat (AllocSize E) - length s"
    using unat_minus_no_wrap[of "CurrentSize E" "AllocSize E"] e by (simp add: word_le_nat_alt)
  let ?N = "if (of_nat (length D) :: u32) + 1 \<le> XML_EXPORT_MIN_ALLOCATION_SIZE then AllocSize E + XML_EXPORT_MIN_ALLOCATION_SIZE
            else AllocSize E + (of_nat (length D) + 1)"
  show "\<exists>E' s'. XmlBufferAppend Alloc D E = Some E' \<and> emits L E' s' \<and> length s' \<le> length s + length D
      \<and> ((\<forall>k n. Alloc k n \<noteq> None) \<longrightarrow> s' = s @ D)"
  proof (cases "AllocSize E - CurrentSize E \<le> of_nat (length D)")
    case False
    then have "length s + length D < unat (AllocSize E)" using rest d by (simp add: word_le_nat_alt)
    moreover have "unat (AllocSize E) \<le> max L (2 * length (s @ D) + 4097)" using e(5) by auto
    ultimately obtain E' where "append_data E D = Some E'" "emits L E' (s @ D)" using append_data_emits[of E s D L] e by blast
    then show ?thesis using False by (auto simp: XmlBufferAppend_def Let_def)
  next
    case True
    then have small: "unat (AllocSize E) \<le> length s + length D" using rest d e by (simp add: word_le_nat_alt)
    have d1: "unat ((of_nat (length D) :: u32) + 1) = length D + 1"
      using unat_plus_no_wrap[of "of_nat (length D) :: u32" 1] d e T by simp
    have N: "unat ?N = unat (AllocSize E) + max 4096 (length D + 1)"
      using unat_plus_no_wrap[of "AllocSize E" "4096"] unat_plus_no_wrap[of "AllocSize E" "of_nat (length D) + 1"] d1 small e T
      by (auto simp: XML_EXPORT_MIN_ALLOCATION_SIZE_def word_le_nat_alt max_def)
    show ?thesis
    proof (cases "Alloc (ExportAllocs E) (unat ?N)")
      case None
      then have "XmlBufferAppend Alloc D E = Some (E\<lparr>ExportAllocs := ExportAllocs E + 1\<rparr>)"
        using True unfolding XmlBufferAppend_def Let_def by simp
      moreover have "emits L (E\<lparr>ExportAllocs := ExportAllocs E + 1\<rparr>) s" using E by (simp add: emits_def)
      moreover have "\<not> (\<forall>k n. Alloc k n \<noteq> None)" using None by blast
      ultimately show ?thesis by (intro exI[of _ "E\<lparr>ExportAllocs := ExportAllocs E + 1\<rparr>"] exI[of _ s] conjI) (assumption | blast | simp)+
    next
      case (Some blk)
      then have len: "length blk = unat ?N" using Alloc by (auto simp: alloc_ok_def)
      let ?E = "E\<lparr>ExportAllocs := ExportAllocs E + 1, ExportBuffer := overwrite blk 0 (take (length s) (ExportBuffer E)), AllocSize := ?N\<rparr>"
      have fits: "length s \<le> length blk" using len N e by simp
      have "length (ExportBuffer ?E) = unat (AllocSize ?E)" using len e fits by simp
      moreover have "take (length s) (ExportBuffer ?E) = s" using take_prefix_overwrite[OF fits] e by simp
      moreover have "length s + length D < unat (AllocSize ?E)" using N e by simp
      moreover have "unat (AllocSize ?E) \<le> max L (2 * length (s @ D) + 4097)" using N small by simp
      ultimately obtain E' where "append_data ?E D = Some E'" "emits L E' (s @ D)" using append_data_emits[of ?E s D L] e by auto
      moreover have "XmlBufferAppend Alloc D E = append_data ?E D"
        using True Some e fits unfolding XmlBufferAppend_def Let_def by simp
      ultimately show ?thesis by auto
    qed
  qed
qed

lemma cstr_str_at: "terminated B off \<Longrightarrow> cstr B off = Some (str_at B off)"
  using cstr_terminated[of B off] by (auto simp: cstr_def str_at_def split: if_splits)

abbreviation export_text :: "byte list \<Rightarrow> u32 \<Rightarrow> XML_NODE \<Rightarrow> byte list" where
  "export_text B Skip n \<equiv> concat (map print_xml (skip_levels (unat Skip) (tree_of B n)))"

lemma writes_children:
  assumes "\<And>x. x \<in> set l \<Longrightarrow> writes Alloc L T (XmlNodeExportRecursive Alloc B x Skip) (export_text B Skip x)"
  shows "writes Alloc L T (export_children Alloc B l Skip) (concat (map (export_text B Skip) l))"
  using assms
proof (induction l)
  case Nil
  then show ?case using writes_Nil[of Alloc L T] by (simp add: writes_def)
next
  case (Cons x l)
  then show ?case
    using writes_bind[of Alloc L T "XmlNodeExportRecursive Alloc B x Skip" "export_text B Skip x" "export_children Alloc B l Skip"]
    by (simp add: writes_def)
qed

text \<open>The tag of a node up to its end.\<close>

lemma writes_head:
  assumes app: "\<And>D. writes Alloc L T (XmlBufferAppend Alloc D) D" and attr: "\<And>a. attr = Some a \<Longrightarrow> cstr B a = Some (str_at B a)"
    and k: "writes Alloc L T k D"
  shows "writes Alloc L T (\<lambda>E. do {
        E \<leftarrow> XmlBufferAppend Alloc [ch_lt] E;
        E \<leftarrow> XmlBufferAppend Alloc nm E;
        E \<leftarrow> (case attr of None \<Rightarrow> Some E
             | Some a \<Rightarrow> do { E \<leftarrow> XmlBufferAppend Alloc [0x20] E; Attr \<leftarrow> cstr B a; XmlBufferAppend Alloc Attr E });
        k E }) ([ch_lt] @ nm @ (case map_option (str_at B) attr of None \<Rightarrow> [] | Some s \<Rightarrow> 0x20 # s) @ D)"
proof -
  have "writes Alloc L T (\<lambda>E. case attr of None \<Rightarrow> Some E
             | Some a \<Rightarrow> do { E \<leftarrow> XmlBufferAppend Alloc [0x20] E; Attr \<leftarrow> cstr B a; XmlBufferAppend Alloc Attr E })
      (case map_option (str_at B) attr of None \<Rightarrow> [] | Some s \<Rightarrow> 0x20 # s)"
    using writes_Nil writes_bind[OF app[of "[0x20]"] app] attr by (cases attr) auto
  from writes_bind[OF app writes_bind[OF app writes_bind[OF this k]]] show ?thesis .
qed

lemma writes_tail:
  assumes "\<And>D. writes Alloc L T (XmlBufferAppend Alloc D) D" and "writes Alloc L T f D"
  shows "writes Alloc L T (\<lambda>E. do {
        E \<leftarrow> XmlBufferAppend Alloc [ch_gt] E;
        E \<leftarrow> f E;
        E \<leftarrow> XmlBufferAppend Alloc [ch_lt, ch_slash] E;
        E \<leftarrow> XmlBufferAppend Alloc nm E;
        XmlBufferAppend Alloc [ch_gt] E }) ([ch_gt] @ D @ [ch_lt, ch_slash] @ nm @ [ch_gt])"
  by (intro writes_bind assms)

lemma export_text_kids:
  "concat (map print_xml (concat (map (skip_levels m \<circ> tree_of B) l))) = concat (map (\<lambda>x. concat (map print_xml (skip_levels m (tree_of B x)))) l)"
  by (induction l) simp_all

lemma writes_node:
  assumes app: "\<And>D. writes Alloc L T (XmlBufferAppend Alloc D) D"
  shows "node_ok B w n \<Longrightarrow> writes Alloc L T (XmlNodeExportRecursive Alloc B n Skip) (export_text B Skip n)"
proof (induction n arbitrary: Skip)
  case (XML_NODE adr nm attr ct rl ch)
  have IH: "writes Alloc L T (XmlNodeExportRecursive Alloc B x Skip) (export_text B Skip x)" if "ch = Some (l, k)" "x \<in> set l" for x l k Skip
    using XML_NODE that by (auto intro!: XML_NODE.IH simp: fsts.intros)
  have kids: "writes Alloc L T (export_children Alloc B l Skip) (concat (map (export_text B Skip) l))" if "ch = Some (l, k)" for l k Skip
    by (rule writes_children) (rule IH[OF that])
  have ok: "cstr B nm = Some (str_at B nm)" "\<And>a. attr = Some a \<Longrightarrow> cstr B a = Some (str_at B a)" "\<And>a. ct = Some a \<Longrightarrow> cstr B a = Some (str_at B a)"
    using XML_NODE.prems by (cases ch; auto simp: cstr_str_at)+
  have head: "writes Alloc L T (\<lambda>E. do {
        E \<leftarrow> XmlBufferAppend Alloc [ch_lt] E;
        E \<leftarrow> XmlBufferAppend Alloc (str_at B nm) E;
        E \<leftarrow> (case attr of None \<Rightarrow> Some E
             | Some a \<Rightarrow> do { E \<leftarrow> XmlBufferAppend Alloc [0x20] E; Attr \<leftarrow> cstr B a; XmlBufferAppend Alloc Attr E });
        k E }) ([ch_lt] @ str_at B nm @ (case map_option (str_at B) attr of None \<Rightarrow> [] | Some s \<Rightarrow> 0x20 # s) @ D)"
    if "writes Alloc L T k D" for k D
    by (rule writes_head[OF app ok(2) that])
  show ?case
  proof (cases "Skip = 0")
    case False
    then have "unat Skip = Suc (unat (Skip - 1))" by (simp add: unat_minus_one unat_gt_0)
    moreover have "XmlNodeExportRecursive Alloc B (XML_NODE adr nm attr ct rl ch) Skip =
        (case ch of None \<Rightarrow> Some | Some (l, k) \<Rightarrow> export_children Alloc B l (Skip - 1))"
      using False by (auto split: option.splits)
    ultimately show ?thesis using kids writes_Nil by (cases ch; cases ct) (auto simp: export_text_kids)
  next
    case True
    show ?thesis
    proof (cases ch)
      case None
      then show ?thesis
        using True ok head[OF app[of "[ch_slash, ch_gt]"]] head[OF writes_tail[OF app app]] by (cases ct) (auto simp: writes_def)
    next
      case (Some lk)
      then obtain l k where l: "ch = Some (l, k)" by (cases lk) auto
      have "concat (map (export_text B 0) l) = concat (map print_xml (map (tree_of B) l))" by (simp add: o_def)
      then show ?thesis
        using True ok l head[OF writes_tail[OF app kids[OF l]], of 0 "str_at B nm"] by (auto simp: writes_def)
    qed
  qed
qed

definition plist_text :: "XML_DOCUMENT \<Rightarrow> u32 \<Rightarrow> bool \<Rightarrow> byte list" where
  "plist_text d Skip Prepend =
     (if Prepend then XML_PLIST_HEADER else []) @ concat (map print_xml (skip_levels (unat Skip) (tree_of (DocBuffer d) (Root d))))"

lemma take_terminator: "n < length xs \<Longrightarrow> take (Suc n) (xs[n := c]) = take n xs @ [c]"
  by (simp add: take_Suc_conv_app_nth)

lemma XmlDocumentExport_spec:
  assumes "alloc_ok Alloc" and node: "node_ok (DocBuffer d) w (Root d)" and "length (DocBuffer d) \<le> XML_PARSER_MAX_SIZE"
    and len: "length (plist_text d Skip Prepend) < 0x7FFF0000"
  shows "\<exists>r. XmlDocumentExport Alloc d Skip Prepend = Some r \<and>
    ((\<forall>k n. Alloc k n \<noteq> None) \<longrightarrow>
       (\<exists>Buf. r = Some (Buf, of_nat (length (plist_text d Skip Prepend))) \<and>
          take (length (plist_text d Skip Prepend) + 1) Buf = plist_text d Skip Prepend @ [0]))"
proof -
  let ?txt = "export_text (DocBuffer d) Skip (Root d)" and ?L = "length (DocBuffer d) + 1"
  let ?H = "XML_PLIST_HEADER"
  have L: "?L < 2 ^ 32" "length ?txt \<le> 0x7FFF0000" using assms(3) len by (simp_all add: XML_PARSER_MAX_SIZE_def plist_text_def)
  have size: "unat (of_nat (length (DocBuffer d)) + 1 :: u32) = ?L"
  proof -
    have "unat (of_nat ?L :: u32) = ?L" using L(1) by (simp only: unat_of_nat) simp
    then show ?thesis by (simp add: add.commute)
  qed
  have W: "writes Alloc ?L 0x7FFF0000 (XmlNodeExportRecursive Alloc (DocBuffer d) (Root d) Skip) ?txt"
    by (rule writes_node[OF writes_append node]) (use assms(1) L in auto)
  show ?thesis
  proof (cases "Alloc 0 ?L")
    case None
    then show ?thesis by (auto simp: XmlDocumentExport_def Let_def size)
  next
    case (Some Buf)
    let ?E = "\<lparr>ExportBuffer = Buf, AllocSize = of_nat (length (DocBuffer d)) + 1, CurrentSize = 0, ExportAllocs = 1\<rparr>"
    have "emits ?L ?E []" using Some assms(1) size by (auto simp: emits_def alloc_ok_def)
    then obtain E s where E: "XmlNodeExportRecursive Alloc (DocBuffer d) (Root d) Skip ?E = Some E" "emits ?L E s" "length s \<le> length ?txt"
      "(\<forall>k n. Alloc k n \<noteq> None) \<longrightarrow> s = ?txt"
      using W L(2) unfolding writes_def by fastforce
    have e: "unat (CurrentSize E) = length s" "length s < length (ExportBuffer E)" "take (length s) (ExportBuffer E) = s"
      using E(2) by (auto simp: emits_def)
    have cur: "CurrentSize E = of_nat (length s)" using e(1) by (simp flip: e(1))
    show ?thesis
    proof (cases Prepend)
      case False
      then show ?thesis
        using Some E e cur by (auto simp: XmlDocumentExport_def Let_def size plist_text_def take_Suc_conv_app_nth nth_list_update)
    next
      case True
      let ?N = "CurrentSize E + (of_nat (length ?H) + 1)"
      have H: "length ?H = 140" by (simp add: XML_PLIST_HEADER_def ascii_def)
      have small: "length s + (length ?H + 1) < 2 ^ 32" using E(3) len True by (simp add: plist_text_def)
      have N: "unat ?N = length s + length ?H + 1"
        using unat_plus_no_wrap[of "CurrentSize E" "of_nat (length ?H) + 1"] e small by (simp add: H)
      have N1: "unat (?N - 1) = length s + length ?H" "?N - 1 = of_nat (length (?H @ s))"
        using unat_minus_no_wrap[of 1 ?N] N cur by (simp_all add: word_le_nat_alt)
      show ?thesis
      proof (cases "Alloc (ExportAllocs E) (unat ?N)")
        case None
        then show ?thesis using Some E e small True by (auto simp: XmlDocumentExport_def Let_def size)
      next
        case S: (Some blk)
        let ?B = "overwrite (overwrite blk 0 ?H) (length ?H) s"
        have blk: "length blk = length s + length ?H + 1" using S assms(1) N by (simp add: alloc_ok_def)
        have B: "length ?B = length s + length ?H + 1" "take (length ?H + length s) ?B = ?H @ s"
          using blk take_overwrite_end[of "length ?H" s "overwrite blk 0 ?H"] take_prefix_overwrite[of "length ?H" blk ?H] by simp_all
        have "XmlDocumentExport Alloc d Skip Prepend = Some (Some (?B[length s + length ?H := 0], of_nat (length (?H @ s))))"
          using Some E(1) e small True S blk N1 B by (simp add: XmlDocumentExport_def Let_def size add.commute[of "of_nat (length ?H) :: u32"])
        moreover have "take (length (?H @ s) + 1) (?B[length s + length ?H := 0]) = (?H @ s) @ [0]"
          using B take_terminator[of "length ?H + length s" ?B 0] by (simp add: add.commute)
        ultimately show ?thesis using E(4) True by (auto simp: plist_text_def)
      qed
    qed
  qed
qed

section \<open>Parsing what was printed\<close>

text \<open>
  The documents that survive printing and parsing: names and attributes without delimiters, contents that are not trimmed, and
  element lists within the limits of the parser.
\<close>

definition name_ok :: "byte list \<Rightarrow> bool" where
  "name_ok s \<longleftrightarrow> s \<noteq> [] \<and> hd s \<noteq> ch_query \<and> hd s \<noteq> ch_excl \<and>
     (\<forall>c \<in> set s. c \<noteq> 0 \<and> c \<noteq> ch_slash \<and> c \<noteq> ch_gt \<and> \<not> IsAsciiSpace c)"

definition attributes_ok :: "byte list option \<Rightarrow> bool" where
  "attributes_ok a \<longleftrightarrow> (case a of None \<Rightarrow> True
     | Some s \<Rightarrow> (\<forall>c \<in> set s. c \<noteq> 0 \<and> c \<noteq> ch_slash \<and> c \<noteq> ch_gt) \<and> (s = [] \<or> \<not> IsAsciiSpace (hd s)))"

definition text_ok :: "byte list \<Rightarrow> bool" where
  "text_ok s \<longleftrightarrow> s \<noteq> [] \<and> \<not> IsAsciiSpace (hd s) \<and> \<not> IsAsciiSpace (last s) \<and> (\<forall>c \<in> set s. c \<noteq> 0 \<and> c \<noteq> ch_lt)"

text \<open>\<open>xml_ok d t\<close>: the tree is well formed and has at most \<open>d\<close> levels of elements with children.\<close>

fun xml_ok :: "nat \<Rightarrow> xml \<Rightarrow> bool" where
  "xml_ok d (Elem n a Void) \<longleftrightarrow> name_ok n \<and> attributes_ok a"
| "xml_ok d (Elem n a (Text s)) \<longleftrightarrow> name_ok n \<and> attributes_ok a \<and> text_ok s"
| "xml_ok 0 (Elem n a (Kids l)) \<longleftrightarrow> False"
| "xml_ok (Suc d) (Elem n a (Kids l)) \<longleftrightarrow>
     name_ok n \<and> attributes_ok a \<and> l \<noteq> [] \<and> length l < XML_PARSER_NODE_COUNT \<and> (\<forall>x \<in> set l. xml_ok d x)"

subsection \<open>Scanning\<close>

text \<open>\<open>bytes_at B p w\<close>: the bytes \<open>w\<close> stand at offset \<open>p\<close>.\<close>

definition bytes_at :: "byte list \<Rightarrow> nat \<Rightarrow> byte list \<Rightarrow> bool" where
  "bytes_at B p w \<longleftrightarrow> p + length w \<le> length B \<and> (\<forall>i < length w. B ! (p + i) = w ! i)"

lemma bytes_at_Nil [simp]: "bytes_at B p [] \<longleftrightarrow> p \<le> length B"
  by (simp add: bytes_at_def)

lemma bytes_at_Cons [simp]: "bytes_at B p (c # w) \<longleftrightarrow> p < length B \<and> B ! p = c \<and> bytes_at B (Suc p) w"
  by (auto simp: bytes_at_def All_less_Suc2)

lemma bytes_at_bound: "bytes_at B p w \<Longrightarrow> p + length w \<le> length B"
  by (simp add: bytes_at_def)

lemma bytes_at_append [simp]: "bytes_at B p (v @ w) \<longleftrightarrow> bytes_at B p v \<and> bytes_at B (p + length v) w"
  by (induction v arbitrary: p) (auto dest: bytes_at_bound)

lemma bytes_at_frame: "bytes_at B p w \<Longrightarrow> length B' = length B \<Longrightarrow> (\<And>i. p \<le> i \<Longrightarrow> i < p + length w \<Longrightarrow> B' ! i = B ! i) \<Longrightarrow> bytes_at B' p w"
  by (auto simp: bytes_at_def)

lemma bytes_at_update: "bytes_at B p w \<Longrightarrow> i < p \<or> p + length w \<le> i \<Longrightarrow> bytes_at (B[i := c]) p w"
  by (auto simp: bytes_at_def)

lemma bytes_at_all: "length w = length B \<Longrightarrow> bytes_at B 0 w \<longleftrightarrow> w = B"
  by (auto simp: bytes_at_def intro: nth_equalityI)

lemma str_at_bytes: "bytes_at B p (s @ [0]) \<Longrightarrow> 0 \<notin> set s \<Longrightarrow> str_at B p = s"
proof (induction s arbitrary: p)
  case (Cons c s)
  then have "drop p B = c # drop (Suc p) B" by (metis Cons_nth_drop_Suc append_Cons bytes_at_Cons)
  then show ?case using Cons by (auto simp: str_at_def)
qed (auto simp: str_at_def simp flip: Cons_nth_drop_Suc)

lemma cstr_bytes: "bytes_at B p (s @ [0]) \<Longrightarrow> 0 \<notin> set s \<Longrightarrow> cstr B p = Some s"
  using cstr_str_at[of B p] str_at_bytes[of B p s] by (force simp: terminated_def)

lemma Peek_bytes: "Position P < length (Buffer P) \<Longrightarrow> XmlParserPeek P 0 = Buffer P ! Position P"
  "Suc (Position P) < length (Buffer P) \<Longrightarrow> XmlParserPeek P (Suc 0) = Buffer P ! Suc (Position P)"
  by (simp_all add: XmlParserPeek_def)

lemma Consume_bytes: "Position P + n \<le> length (Buffer P) \<Longrightarrow> XmlParserConsume P n = P\<lparr>Position := Position P + n\<rparr>"
  by (simp add: XmlParserConsume_def)

lemma Skip_bytes:
  "Position P < length (Buffer P) \<Longrightarrow> \<not> IsAsciiSpace (Buffer P ! Position P) \<Longrightarrow> XmlSkipWhitespace P = P"
  "length (Buffer P) \<le> Position P \<Longrightarrow> XmlSkipWhitespace P = P"
  by (subst XmlSkipWhitespace.simps; simp)+

lemma not_space [simp]: "\<not> IsAsciiSpace ch_lt" "\<not> IsAsciiSpace ch_slash" "\<not> IsAsciiSpace ch_gt" "IsAsciiSpace 0x20"
  by (simp_all add: IsAsciiSpace_def)

lemma Position_same: "Position P = p \<Longrightarrow> P\<lparr>Position := p\<rparr> = P"
  by auto

text \<open>The loop of \<open>XmlParseTagEnd\<close> runs over the bytes of a name or of attributes.\<close>

lemma TagEnd_scan:
  assumes "bytes_at (Buffer P) (Position P) w" "Position P = S + Len"
    "\<forall>c \<in> set w. c \<noteq> ch_slash \<and> c \<noteq> ch_gt \<and> (NL = 0 \<longrightarrow> \<not> IsAsciiSpace c)"
  shows "TagEnd_loop P S Len NL (XmlParserPeek P 0) =
    TagEnd_loop (P\<lparr>Position := Position P + length w\<rparr>) S (Len + length w) NL (XmlParserPeek (P\<lparr>Position := Position P + length w\<rparr>) 0)"
  using assms
proof (induction w arbitrary: P Len)
  case (Cons c w)
  let ?P = "P\<lparr>Position := Suc (Position P)\<rparr>"
  have "XmlParserPeek P 0 = c" "XmlParserConsume P 1 = ?P" using Cons.prems by (simp_all add: Peek_bytes Consume_bytes)
  then have "TagEnd_loop P S Len NL (XmlParserPeek P 0) = TagEnd_loop ?P S (Len + 1) NL (XmlParserPeek ?P 0)"
    using Cons.prems by (subst TagEnd_loop.simps) auto
  then show ?case using Cons.IH[of ?P "Len + 1"] Cons.prems by simp
qed (simp add: Position_same)

lemma TagEnd_stop: "c = ch_slash \<or> c = ch_gt \<Longrightarrow> TagEnd_loop P S Len NL c = Some (P, Len, NL, c)"
  by (subst TagEnd_loop.simps) auto

abbreviation attr_text :: "byte list option \<Rightarrow> byte list" where
  "attr_text a \<equiv> (case a of None \<Rightarrow> [] | Some s \<Rightarrow> 0x20 # s)"

text \<open>The loop over a whole tag, up to the delimiter \<open>c\<close>.\<close>

lemma TagEnd_loop_tag:
  assumes at: "bytes_at (Buffer P) (Position P) (n @ attr_text a @ [c])" and ok: "name_ok n" "attributes_ok a" "c = ch_slash \<or> c = ch_gt"
  shows "TagEnd_loop P (Position P) 0 0 (XmlParserPeek P 0) =
    Some (P\<lparr>Position := Position P + length n + length (attr_text a)\<rparr>, length n + length (attr_text a), if a = None then 0 else length n, c)"
proof -
  let ?S = "Position P"
  let ?P = "P\<lparr>Position := ?S + length n\<rparr>"
  have 1: "TagEnd_loop P ?S 0 0 (XmlParserPeek P 0) = TagEnd_loop ?P ?S (length n) 0 (XmlParserPeek ?P 0)"
    using TagEnd_scan[of P n ?S 0 0] at ok by (simp add: name_ok_def)
  show ?thesis
  proof (cases a)
    case None
    then have "XmlParserPeek ?P 0 = c" using at by (simp add: Peek_bytes)
    then show ?thesis using 1 ok(3) None by (auto simp: TagEnd_stop)
  next
    case (Some s)
    let ?Q = "P\<lparr>Position := ?S + length n + 1\<rparr>"
    let ?R = "P\<lparr>Position := ?S + length n + length (attr_text a)\<rparr>"
    have n0: "length n \<noteq> 0" using ok by (simp add: name_ok_def)
    have "XmlParserPeek ?P 0 = 0x20" "XmlParserConsume ?P 1 = ?Q" "?S + length n < length (Buffer P)"
      using at Some by (simp_all add: Peek_bytes Consume_bytes)
    then have 2: "TagEnd_loop ?P ?S (length n) 0 (XmlParserPeek ?P 0) = TagEnd_loop ?Q ?S (length n + 1) (length n) (XmlParserPeek ?Q 0)"
      using n0 by (subst TagEnd_loop.simps) simp
    have 3: "TagEnd_loop ?Q ?S (length n + 1) (length n) (XmlParserPeek ?Q 0) =
        TagEnd_loop ?R ?S (length n + length (attr_text a)) (length n) (XmlParserPeek ?R 0)"
      using TagEnd_scan[of ?Q s ?S "length n + 1" "length n"] at ok Some n0 by (simp add: attributes_ok_def)
    have "XmlParserPeek ?R 0 = c" using at Some by (simp add: Peek_bytes)
    then show ?thesis using 1 2 3 ok(3) Some by (auto simp: TagEnd_stop)
  qed
qed

lemma skip_attribute_space_start:
  assumes "bytes_at B (S + NL) (0x20 # s)" "Len = NL + Suc (length s)" "s = [] \<or> \<not> IsAsciiSpace (hd s)"
  shows "skip_attribute_space B S NL Len = Some (S + NL + 1)"
proof -
  have "skip_attribute_space B S NL Len = skip_attribute_space B S (NL + 1) Len"
    using assms by (subst skip_attribute_space.simps) simp
  also have "\<dots> = Some (S + NL + 1)"
    using assms by (subst skip_attribute_space.simps) (cases s; simp)
  finally show ?thesis .
qed

definition outside_same :: "nat \<Rightarrow> nat \<Rightarrow> byte list \<Rightarrow> byte list \<Rightarrow> bool" where
  "outside_same lo hi B B' \<longleftrightarrow> length B' = length B \<and> (\<forall>i. i < lo \<or> hi \<le> i \<longrightarrow> B' ! i = B ! i)"

lemma outside_same_trans:
  "outside_same lo hi B B' \<Longrightarrow> outside_same lo' hi' B' B'' \<Longrightarrow> lo \<le> lo' \<Longrightarrow> hi' \<le> hi'' \<Longrightarrow> hi \<le> hi'' \<Longrightarrow> outside_same lo hi'' B B''"
  by (auto simp: outside_same_def)

lemma outside_same_update: "outside_same lo hi B B' \<Longrightarrow> lo \<le> i \<Longrightarrow> i < hi \<Longrightarrow> outside_same lo hi B (B'[i := c])"
  by (auto simp: outside_same_def)

lemma outside_same_refl [simp]: "outside_same lo hi B B"
  by (simp add: outside_same_def)

lemma bytes_at_outside:
  "bytes_at B p w \<Longrightarrow> outside_same lo hi B B' \<Longrightarrow> p + length w \<le> lo \<or> hi \<le> p \<Longrightarrow> bytes_at B' p w"
  by (auto simp: bytes_at_def outside_same_def)

text \<open>An opening tag, and the name of a closing tag.\<close>

lemma XmlParseTagEnd_open:
  assumes at: "bytes_at (Buffer P) (Position P) (n @ attr_text a @ e)" and ok: "name_ok n" "attributes_ok a"
    and e: "e = (if sc then [ch_slash, ch_gt] else [ch_gt])"
  shows "\<exists>B. XmlParseTagEnd P True = Some (Some (Position P), sc, map_option (\<lambda>_. Position P + length n + 1) a,
        P\<lparr>Buffer := B, Position := Position P + length (n @ attr_text a @ e)\<rparr>)
     \<and> outside_same (Position P) (Position P + length (n @ attr_text a @ e)) (Buffer P) B
     \<and> bytes_at B (Position P) (n @ [0]) \<and> (\<forall>s. a = Some s \<longrightarrow> bytes_at B (Position P + length n + 1) (s @ [0]))"
proof -
  let ?S = "Position P" and ?B = "Buffer P" and ?Len = "length n + length (attr_text a)"
  define c where "c = (if sc then ch_slash else ch_gt)"
  define Q where "Q = P\<lparr>Position := ?S + ?Len\<rparr>"
  have loop: "TagEnd_loop P ?S 0 0 (XmlParserPeek P 0) = Some (Q, ?Len, if a = None then 0 else length n, c)"
    using TagEnd_loop_tag[of P n a c] at ok e by (auto simp: c_def Q_def add.assoc split: if_splits)
  have n0: "length n \<noteq> 0" using ok by (simp add: name_ok_def)
  define B1 where "B1 = (if a = None then ?B else ?B[?S + ?Len := 0])"
  define B2 where "B2 = B1[?S + length n := 0]"
  have fits: "?S + ?Len + length e \<le> length ?B" using bytes_at_bound[OF at] by simp
  have elen: "?S + ?Len < length ?B" using fits e by (auto split: if_splits)
  have attr: "(if (if a = None then 0 else length n) \<noteq> 0 \<and> True \<and> (c = ch_slash \<or> c = ch_gt)
       then do { x \<leftarrow> skip_attribute_space (Buffer Q) ?S (if a = None then 0 else length n) ?Len;
                 B \<leftarrow> wr (Buffer Q) (?S + ?Len) 0; Some (Some x, Q\<lparr>Buffer := B\<rparr>) }
       else Some (None, Q)) = Some (map_option (\<lambda>_. ?S + length n + 1) a, Q\<lparr>Buffer := B1\<rparr>)"
  proof (cases a)
    case (Some s)
    then have "skip_attribute_space ?B ?S (length n) ?Len = Some (?S + length n + 1)"
      using skip_attribute_space_start[of ?B ?S "length n" s ?Len] at ok by (simp add: attributes_ok_def)
    then show ?thesis using Some n0 fits e by (auto simp: B1_def c_def Q_def split: if_splits)
  qed (simp add: B1_def Q_def)
  have "XmlParseTagEnd P True = Some (Some ?S, sc, map_option (\<lambda>_. ?S + length n + 1) a,
        P\<lparr>Buffer := B2, Position := ?S + length (n @ attr_text a @ e)\<rparr>)"
  proof (cases sc)
    case True
    let ?P = "Q\<lparr>Buffer := B1\<rparr>"
    have "?S + ?Len + 2 \<le> length B1" "B1 ! (?S + ?Len + 1) = ch_gt"
      using at fits e True by (auto simp: B1_def add.assoc)
    then have "XmlParserConsume ?P 1 = ?P\<lparr>Position := ?S + ?Len + 1\<rparr>" "XmlParserPeek (?P\<lparr>Position := ?S + ?Len + 1\<rparr>) 0 = ch_gt"
      "XmlParserConsume (?P\<lparr>Position := ?S + ?Len + 1\<rparr>) 1 = ?P\<lparr>Position := ?S + ?Len + 2\<rparr>"
      by (simp_all add: Q_def Consume_bytes Peek_bytes)
    then show ?thesis
      unfolding XmlParseTagEnd_def Let_def loop option.case prod.case attr
      using True e n0 \<open>?S + ?Len + 2 \<le> length B1\<close> by (auto simp: B2_def Q_def c_def add.assoc)
  next
    case False
    let ?P = "Q\<lparr>Buffer := B1\<rparr>"
    have "?S + ?Len + 1 \<le> length B1" using at fits e False by (auto simp: B1_def)
    then have "XmlParserConsume ?P 1 = ?P\<lparr>Position := ?S + ?Len + 1\<rparr>" by (simp add: Q_def Consume_bytes)
    then show ?thesis
      unfolding XmlParseTagEnd_def Let_def loop option.case prod.case attr
      using False e n0 \<open>?S + ?Len + 1 \<le> length B1\<close> by (auto simp: B2_def Q_def c_def add.assoc)
  qed
  moreover have "outside_same ?S (?S + length (n @ attr_text a @ e)) ?B B2"
    using e unfolding B1_def B2_def by (auto intro!: outside_same_update split: option.splits if_splits)
  moreover have "bytes_at B2 ?S (n @ [0])"
    using at elen by (auto simp: B1_def B2_def bytes_at_update)
  moreover have "bytes_at B2 (?S + length n + 1) (s @ [0])" if "a = Some s" for s
    using at elen that by (auto simp: B1_def B2_def bytes_at_update add.assoc)
  ultimately show ?thesis by blast
qed

lemma XmlParseTagEnd_close:
  assumes at: "bytes_at (Buffer P) (Position P) (n @ [ch_gt])" and ok: "name_ok n"
  shows "XmlParseTagEnd P False = Some (Some (Position P), False, None,
      P\<lparr>Buffer := (Buffer P)[Position P + length n := 0], Position := Position P + length n + 1\<rparr>)"
proof -
  let ?S = "Position P"
  have loop: "TagEnd_loop P ?S 0 0 (XmlParserPeek P 0) = Some (P\<lparr>Position := ?S + length n\<rparr>, length n, 0, ch_gt)"
    using TagEnd_loop_tag[of P n None ch_gt] at ok by (simp add: attributes_ok_def)
  show ?thesis
    unfolding XmlParseTagEnd_def Let_def loop option.case prod.case using at by (auto simp: Consume_bytes)
qed

lemma XmlParseTagClose_bytes:
  assumes at: "bytes_at (Buffer P) (Position P) ((if u then [ch_slash] else [ch_lt, ch_slash]) @ n @ [ch_gt])" and ok: "name_ok n"
    and q: "q = Position P + (if u then 1 else 2)"
  shows "XmlParseTagClose P u = Some (Some q, P\<lparr>Buffer := (Buffer P)[q + length n := 0], Position := q + length n + 1\<rparr>)"
proof -
  have W: "XmlSkipWhitespace P = P" using at by (intro Skip_bytes(1)) (auto split: if_splits)
  have "XmlParserConsume P (if u then 1 else 2) = P\<lparr>Position := q\<rparr>" using at q by (auto simp: Consume_bytes split: if_splits)
  moreover have "XmlParseTagEnd (P\<lparr>Position := q\<rparr>) False =
      Some (Some q, False, None, P\<lparr>Buffer := (Buffer P)[q + length n := 0], Position := q + length n + 1\<rparr>)"
    using XmlParseTagEnd_close[of "P\<lparr>Position := q\<rparr>" n] at ok q by (auto split: if_splits)
  ultimately show ?thesis
    using at W by (cases u) (auto simp: XmlParseTagClose_def Peek_bytes split: if_splits)
qed

lemma Content_scan:
  assumes "bytes_at (Buffer P) (Position P) (w @ [ch_lt])" "Position P = S + Len" "\<forall>c \<in> set w. c \<noteq> ch_lt"
  shows "Content_loop P S Len = (P\<lparr>Position := Position P + length w\<rparr>, Len + length w)"
  using assms
proof (induction w arbitrary: P Len)
  case Nil
  then show ?case by (subst Content_loop.simps) (simp add: Peek_bytes Position_same)
next
  case (Cons c w)
  then have "Content_loop P S Len = Content_loop (P\<lparr>Position := Suc (Position P)\<rparr>) S (Len + 1)"
    by (subst Content_loop.simps) (simp add: Peek_bytes Consume_bytes)
  then show ?case using Cons.IH[of "P\<lparr>Position := Suc (Position P)\<rparr>" "Len + 1"] Cons.prems by simp
qed

lemma XmlParseContent_bytes:
  assumes at: "bytes_at (Buffer P) (Position P) (s @ [ch_lt])" and ok: "text_ok s"
  shows "XmlParseContent P = Some (Some (Position P), P\<lparr>Buffer := (Buffer P)[Position P + length s := 0], Position := Position P + length s + 1\<rparr>)"
proof -
  let ?p = "Position P"
  obtain n where n: "length s = Suc n" using ok by (cases s) (auto simp: text_ok_def)
  have s0: "Buffer P ! ?p = hd s" "Buffer P ! (?p + n) = last s" "?p + length s < length (Buffer P)"
    using at ok n unfolding bytes_at_append by (auto simp: bytes_at_def text_ok_def hd_conv_nth last_conv_nth)
  have W: "XmlSkipWhitespace P = P" using s0 ok by (intro Skip_bytes(1)) (auto simp: text_ok_def)
  have C: "Content_loop P ?p 0 = (P\<lparr>Position := ?p + length s\<rparr>, length s)"
    using Content_scan[OF at, of ?p 0] ok by (simp add: text_ok_def)
  have T: "trim_space (Buffer P) ?p (length s) = Some (length s)" using s0 ok n by (simp add: text_ok_def)
  show ?thesis
    unfolding XmlParseContent_def Let_def W C prod.case using at T s0 by (simp add: Peek_bytes Consume_bytes)
qed

lemma TagOpen_loop_bytes:
  assumes "bytes_at (Buffer P) (Position P) (ch_lt # n)" "name_ok n"
  shows "TagOpen_loop P = Inr (P\<lparr>Position := Position P + 1\<rparr>)"
proof -
  obtain c w where n: "n = c # w" "c \<noteq> ch_slash" "c \<noteq> ch_query" "c \<noteq> ch_excl" using assms(2) by (cases n) (auto simp: name_ok_def)
  have W: "XmlSkipWhitespace P = P" using assms(1) by (intro Skip_bytes(1)) auto
  have "XmlParserPeek P 0 = ch_lt" "XmlParserConsume P 1 = P\<lparr>Position := Position P + 1\<rparr>" "XmlParserPeek (P\<lparr>Position := Position P + 1\<rparr>) 0 = c"
    using assms(1) n by (simp_all add: Peek_bytes Consume_bytes)
  then show ?thesis using W n by (subst TagOpen_loop.simps) simp
qed

lemma XmlParseTagOpen_bytes:
  assumes at: "bytes_at (Buffer P) (Position P) (ch_lt # n @ attr_text a @ e)" and ok: "name_ok n" "attributes_ok a"
    and e: "e = (if sc then [ch_slash, ch_gt] else [ch_gt])" and q: "q = Position P + 1" and hi: "hi = q + length (n @ attr_text a @ e)"
  obtains B where "XmlParseTagOpen P = Some (Some q, sc, map_option (\<lambda>_. q + length n + 1) a, P\<lparr>Buffer := B, Position := hi\<rparr>)"
    "outside_same q hi (Buffer P) B" "bytes_at B q (n @ [0])" "\<forall>s. a = Some s \<longrightarrow> bytes_at B (q + length n + 1) (s @ [0])"
proof -
  have "TagOpen_loop P = Inr (P\<lparr>Position := q\<rparr>)" using TagOpen_loop_bytes[of P n] at ok q by simp
  moreover have "\<exists>B. XmlParseTagEnd (P\<lparr>Position := q\<rparr>) True = Some (Some q, sc, map_option (\<lambda>_. q + length n + 1) a, P\<lparr>Buffer := B, Position := hi\<rparr>)
     \<and> outside_same q hi (Buffer P) B \<and> bytes_at B q (n @ [0]) \<and> (\<forall>s. a = Some s \<longrightarrow> bytes_at B (q + length n + 1) (s @ [0]))"
    using XmlParseTagEnd_open[of "P\<lparr>Position := q\<rparr>" n a e sc] at ok e by (simp add: q hi)
  ultimately show thesis using that by (auto simp: XmlParseTagOpen_def)
qed

subsection \<open>Nodes\<close>

text \<open>A node denotes a tree whatever stands outside the part of the buffer that it was parsed from.\<close>

definition denotes :: "nat \<Rightarrow> nat \<Rightarrow> byte list \<Rightarrow> XML_NODE list \<Rightarrow> xml list \<Rightarrow> bool" where
  "denotes lo hi B ns ts \<longleftrightarrow> (\<forall>B'. length B' = length B \<and> (\<forall>i. lo \<le> i \<and> i < hi \<longrightarrow> B' ! i = B ! i) \<longrightarrow> map (tree_of B') ns = ts)"

lemma denotes_frame:
  "denotes lo hi B ns ts \<Longrightarrow> outside_same a b B B' \<Longrightarrow> hi \<le> a \<or> b \<le> lo \<Longrightarrow> denotes lo hi B' ns ts"
  by (auto simp: denotes_def outside_same_def)

lemma denotes_append:
  "denotes lo m B ns ts \<Longrightarrow> denotes m hi B ns' ts' \<Longrightarrow> lo \<le> m \<Longrightarrow> m \<le> hi \<Longrightarrow> denotes lo hi B (ns @ ns') (ts @ ts')"
  unfolding denotes_def by (simp add: order_less_le_trans)

text \<open>What parsing the text of a tree does.\<close>

definition parses :: "(XML_PARSER \<Rightarrow> XML_REFLIST option \<Rightarrow> node_result option) \<Rightarrow> XML_PARSER \<Rightarrow> xml \<Rightarrow> bool" where
  "parses parse P t \<longleftrightarrow> (\<exists>n P'. parse P None = Some (Some n, P', None) \<and> Position P' = Position P + length (print_xml t) \<and> Level P' = Level P
     \<and> outside_same (Position P) (Position P') (Buffer P) (Buffer P') \<and> denotes (Position P) (Position P') (Buffer P') [n] [t])"

lemma XmlNodeChildPush_room:
  assumes "Suc (length (case Children n of None \<Rightarrow> [] | Some (l, k) \<Rightarrow> l)) < XML_PARSER_NODE_COUNT"
  shows "\<exists>k. XmlNodeChildPush True n c = (True, XML_NODE (Address n) (Name n) (Attributes n) (Content n) (Real n)
     (Some ((case Children n of None \<Rightarrow> [] | Some (l, k) \<Rightarrow> l) @ [c], k)))"
  using assms by (auto simp: XmlNodeChildPush_def Let_def split: option.splits)

text \<open>Spaces behind a self-closing tag would be skipped with it.\<close>

definition no_space_at :: "byte list \<Rightarrow> nat \<Rightarrow> bool" where
  "no_space_at B p \<longleftrightarrow> p < length B \<longrightarrow> \<not> IsAsciiSpace (B ! p)"

text \<open>The loop over the children reads the text of the list of children.\<close>

lemma print_xml_start: "\<exists>w. print_xml t = ch_lt # w" "xml_ok d t \<Longrightarrow> \<exists>c w. print_xml t = ch_lt # c # w \<and> c \<noteq> ch_slash"
  by (cases t rule: print_xml.cases; simp; auto simp: name_ok_def neq_Nil_conv)
     (cases "(d, t)" rule: xml_ok.cases; auto simp: name_ok_def neq_Nil_conv)

lemma children_bytes:
  assumes parse: "\<And>P t. t \<in> set ts \<Longrightarrow> bytes_at (Buffer P) (Position P) (print_xml t) \<Longrightarrow> Level P = lv \<Longrightarrow>
      no_space_at (Buffer P) (Position P + length (print_xml t)) \<Longrightarrow> parses parse P t"
    and ts: "\<forall>t \<in> set ts. xml_ok d t" "length (case Children n of None \<Rightarrow> [] | Some (l, k) \<Rightarrow> l) + length ts < XML_PARSER_NODE_COUNT"
    and at: "bytes_at (Buffer P) (Position P) (concat (map print_xml ts) @ [ch_lt, ch_slash])" "Level P = lv"
  shows "\<exists>ns k P'. iterate (parse_child parse (\<lambda>_. True)) (n, P, None) =
      Some (Some (Inr (False, XML_NODE (Address n) (Name n) (Attributes n) (Content n) (Real n)
         (if ts = [] then Children n else Some ((case Children n of None \<Rightarrow> [] | Some (l, k) \<Rightarrow> l) @ ns, k)), P', None)))
    \<and> Position P' = Position P + length (concat (map print_xml ts)) \<and> Level P' = lv
    \<and> outside_same (Position P) (Position P') (Buffer P) (Buffer P') \<and> denotes (Position P) (Position P') (Buffer P') ns ts"
  using assms
proof (induction ts arbitrary: P n)
  case Nil
  then have "parse_child parse (\<lambda>_. True) (n, P, None) = Break (Some (Inr (False, n, P, None)))"
    by (simp add: parse_child_def Peek_bytes)
  then show ?case by (intro exI[of _ "[]"] exI[of _ 0] exI[of _ P]) (simp add: iterate_Break denotes_def Nil.prems(5))
next
  case (Cons t ts)
  let ?l = "case Children n of None \<Rightarrow> [] | Some (l, k) \<Rightarrow> l"
  obtain c w where "print_xml t = ch_lt # c # w" "c \<noteq> ch_slash" using print_xml_start(2) Cons.prems(2) by fastforce
  then have "XmlParserPeek P 1 \<noteq> ch_slash" using Cons.prems(4) by (auto simp: Peek_bytes)
  moreover have "no_space_at (Buffer P) (Position P + length (print_xml t))"
    using Cons.prems(4) print_xml_start(1)[of "hd ts"] by (cases ts) (auto simp: no_space_at_def)
  then have "parses parse P t" using Cons.prems(1)[of t P] Cons.prems(4,5) by simp
  then obtain m Q where Q: "parse P None = Some (Some m, Q, None)" "Position Q = Position P + length (print_xml t)" "Level Q = lv"
    "outside_same (Position P) (Position Q) (Buffer P) (Buffer Q)" "denotes (Position P) (Position Q) (Buffer Q) [m] [t]"
    using Cons.prems(5) by (auto simp: parses_def)
  moreover obtain k0 where push: "XmlNodeChildPush True n m = (True, XML_NODE (Address n) (Name n) (Attributes n) (Content n) (Real n) (Some (?l @ [m], k0)))"
    using XmlNodeChildPush_room[of n m] Cons.prems(3) by fastforce
  define n' where "n' = XML_NODE (Address n) (Name n) (Attributes n) (Content n) (Real n) (Some (?l @ [m], k0))"
  define R where "R = (if XmlNodeChildPush_allocates n then Q\<lparr>AllocIndex := AllocIndex Q + 1\<rparr> else Q)"
  have R: "Buffer R = Buffer Q" "Position R = Position Q" "Level R = lv" using Q(3) by (simp_all add: R_def)
  have "parse_child parse (\<lambda>_. True) (n, P, None) = Continue (n', R, None)"
    using \<open>XmlParserPeek P 1 \<noteq> ch_slash\<close> Q(1) push by (simp add: parse_child_def n'_def R_def)
  then have step: "iterate (parse_child parse (\<lambda>_. True)) (n, P, None) = iterate (parse_child parse (\<lambda>_. True)) (n', R, None)"
    by (rule iterate_Continue)
  have ch': "(case Children n' of None \<Rightarrow> [] | Some (l, k) \<Rightarrow> l) = ?l @ [m]" by (simp add: n'_def)
  have "bytes_at (Buffer R) (Position R) (concat (map print_xml ts) @ [ch_lt, ch_slash])"
  proof -
    have "bytes_at (Buffer P) (Position Q) (concat (map print_xml ts) @ [ch_lt, ch_slash])"
      using Cons.prems(4) Q(2) by (simp add: add.assoc)
    from bytes_at_outside[OF this Q(4)] show ?thesis using R by simp
  qed
  then obtain ns k P' where IH: "iterate (parse_child parse (\<lambda>_. True)) (n', R, None) =
      Some (Some (Inr (False, XML_NODE (Address n') (Name n') (Attributes n') (Content n') (Real n')
         (if ts = [] then Children n' else Some ((?l @ [m]) @ ns, k)), P', None)))"
    "Position P' = Position R + length (concat (map print_xml ts))" "Level P' = lv"
    "outside_same (Position R) (Position P') (Buffer R) (Buffer P')" "denotes (Position R) (Position P') (Buffer P') ns ts"
    using Cons.IH[of n' R, unfolded ch'] Cons.prems(1,2,3) R(3) by fastforce
  have "denotes (Position P) (Position Q) (Buffer P') [m] [t]" using denotes_frame[OF Q(5), of "Position R" "Position P'"] IH(4) R by simp
  then have "denotes (Position P) (Position P') (Buffer P') (m # ns) (t # ts)"
    using denotes_append[of "Position P" "Position Q" "Buffer P'" "[m]" "[t]" "Position P'" ns ts] IH(2,5) Q(2) R by simp
  moreover have "outside_same (Position P) (Position P') (Buffer P) (Buffer P')"
    using outside_same_trans[OF Q(4) IH(4)[unfolded R]] IH(2) Q(2) R by simp
  moreover have "ts = [] \<Longrightarrow> ns = []" using IH(5) unfolding denotes_def by fastforce
  ultimately show ?case
    using step IH Q(2) R by (intro exI[of _ "m # ns"] exI[of _ "if ts = [] then k0 else k"] exI[of _ P']) (auto simp: n'_def)
qed

lemma name_ok_no_zero: "name_ok n \<Longrightarrow> 0 \<notin> set n" "text_ok n \<Longrightarrow> 0 \<notin> set n" "attributes_ok (Some n) \<Longrightarrow> 0 \<notin> set n"
  by (auto simp: name_ok_def text_ok_def attributes_ok_def)

text \<open>The opening tag with the creation of the node: what is left to do.\<close>

definition fresh_node :: "XML_PARSER \<Rightarrow> byte list \<Rightarrow> byte list option \<Rightarrow> XML_NODE" where
  "fresh_node P n a = XML_NODE (AllocIndex P) (Position P + 1) (map_option (\<lambda>_. Position P + length n + 2) a) None None None"

definition named :: "byte list \<Rightarrow> XML_PARSER \<Rightarrow> byte list \<Rightarrow> byte list option \<Rightarrow> bool" where
  "named B P n a \<longleftrightarrow> bytes_at B (Position P + 1) (n @ [0]) \<and> (\<forall>s. a = Some s \<longrightarrow> bytes_at B (Position P + length n + 2) (s @ [0]))"

lemma named_update: "named B P n a \<Longrightarrow> Position P + length n + length (attr_text a) + 2 \<le> i \<Longrightarrow> named (B[i := c]) P n a"
  unfolding named_def by (auto intro: bytes_at_update)

lemma named_outside:
  "named B P n a \<Longrightarrow> outside_same lo hi B B' \<Longrightarrow> Position P + length n + length (attr_text a) + 2 \<le> lo \<Longrightarrow> named B' P n a"
  unfolding named_def by (auto intro!: bytes_at_outside[of B _ _ lo hi B']) (auto simp: outside_same_def)

lemma named_str_at:
  assumes "named B P n a" "name_ok n" "attributes_ok a"
  shows "str_at B (Position P + 1) = n" "map_option (str_at B) (map_option (\<lambda>_. Position P + length n + 2) a) = a" "cstr B (Position P + 1) = Some n"
  using assms str_at_bytes name_ok_no_zero cstr_bytes by (auto simp: named_def split: option.splits; cases a; auto)+

lemma XmlParseNode_open:
  assumes at: "bytes_at (Buffer P) (Position P) (ch_lt # n @ attr_text a @ e)" and ok: "name_ok n" "attributes_ok a"
    and e: "e = (if sc then [ch_slash, ch_gt] else [ch_gt])" and hi: "hi = Position P + length (ch_lt # n @ attr_text a @ e)"
    and stop: "no_space_at (Buffer P) hi"
  obtains W where "Position W = hi" "Level W = Level P" "outside_same (Position P) hi (Buffer P) (Buffer W)" "named (Buffer W) P n a"
    "XmlParseNode (Suc d) (\<lambda>_. True) P None =
       (if sc then Some (Some (fresh_node P n a), W, None)
        else Option.bind (if XmlParserPeek W 0 \<noteq> ch_lt then parse_text (fresh_node P n a) W None
                     else parse_children (XmlParseNode d (\<lambda>_. True)) (\<lambda>_. True) (fresh_node P n a) W None)
                 (case_sum (\<lambda>(Parser, References). Some (None, Parser, References)) (parse_close (\<lambda>_. True))))"
proof -
  obtain B where B: "XmlParseTagOpen P = Some (Some (Position P + 1), sc, map_option (\<lambda>_. Position P + 1 + length n + 1) a, P\<lparr>Buffer := B, Position := hi\<rparr>)"
    "outside_same (Position P + 1) hi (Buffer P) B" "bytes_at B (Position P + 1) (n @ [0])"
    "\<forall>s. a = Some s \<longrightarrow> bytes_at B (Position P + 1 + length n + 1) (s @ [0])"
    using XmlParseTagOpen_bytes[OF at ok e, of "Position P + 1" hi] hi by auto
  let ?Q = "P\<lparr>Buffer := B, Position := hi\<rparr>"
  have "XmlSkipWhitespace ?Q = ?Q"
    using stop B(2) Skip_bytes[of ?Q] by (cases "hi < length B") (auto simp: no_space_at_def outside_same_def)
  then have "XmlParseNode (Suc d) (\<lambda>_. True) P None =
       (if sc then Some (Some (fresh_node P n a), ?Q\<lparr>AllocIndex := AllocIndex P + 1\<rparr>, None)
        else Option.bind (if XmlParserPeek (?Q\<lparr>AllocIndex := AllocIndex P + 1\<rparr>) 0 \<noteq> ch_lt
                     then parse_text (fresh_node P n a) (?Q\<lparr>AllocIndex := AllocIndex P + 1\<rparr>) None
                     else parse_children (XmlParseNode d (\<lambda>_. True)) (\<lambda>_. True) (fresh_node P n a) (?Q\<lparr>AllocIndex := AllocIndex P + 1\<rparr>) None)
                 (case_sum (\<lambda>(Parser, References). Some (None, Parser, References)) (parse_close (\<lambda>_. True))))"
    using B(1) by (simp add: XmlNodeReal_def fresh_node_def Let_def cong: if_cong)
  moreover have "outside_same (Position P) hi (Buffer P) B" using B(2) by (auto simp: outside_same_def)
  moreover have "named B P n a" using B(3,4) by (simp add: named_def)
  ultimately show thesis using that[of "?Q\<lparr>AllocIndex := AllocIndex P + 1\<rparr>"] by simp
qed

text \<open>The closing tag.\<close>

lemma parse_close_bytes:
  assumes at: "bytes_at (Buffer Q) (Position Q) ((if u then [ch_slash] else [ch_lt, ch_slash]) @ n @ [ch_gt])" and ok: "name_ok n" "attributes_ok a"
    and nm: "named (Buffer Q) P n a" "Name m = Position P + 1" "Position P + length n + length (attr_text a) + 2 \<le> Position Q"
    and hi: "hi = Position Q + (if u then 1 else 2) + length n + 1"
  obtains P' where "parse_close (\<lambda>_. True) (m, None, u, Q, None) = Some (Some m, P', None)" "Position P' = hi" "Level P' = Level Q"
    "outside_same (Position Q) hi (Buffer Q) (Buffer P')" "named (Buffer P') P n a"
proof -
  let ?q = "Position Q + (if u then 1 else 2)"
  let ?B = "(Buffer Q)[?q + length n := 0]"
  have T: "XmlParseTagClose Q u = Some (Some ?q, Q\<lparr>Buffer := ?B, Position := hi\<rparr>)"
    using XmlParseTagClose_bytes[OF at ok(1) refl] by (simp add: hi)
  have fits: "bytes_at (Buffer Q) ?q n" "?q + length n < length (Buffer Q)" using at by (auto split: if_splits)
  have "bytes_at ?B ?q (n @ [0])" using fits by (auto simp: bytes_at_update)
  then have c: "cstr ?B ?q = Some n" using cstr_bytes name_ok_no_zero ok(1) by blast
  have N: "named ?B P n a" using nm by (intro named_update) auto
  then have "cstr ?B (Name m) = Some n" using named_str_at(3)[OF N ok] nm(2) by simp
  moreover have "outside_same (Position Q) hi (Buffer Q) ?B" by (rule outside_same_update) (auto simp: hi)
  ultimately show thesis using that[of "Q\<lparr>Buffer := ?B, Position := hi\<rparr>"] T c N by (simp add: parse_close_def)
qed

lemma named_agree:
  assumes "named B P n a" "length B' = length B" "\<And>i. Position P \<le> i \<Longrightarrow> i < Position P + length n + length (attr_text a) + 2 \<Longrightarrow> B' ! i = B ! i"
  shows "named B' P n a"
  unfolding named_def
proof (intro conjI allI impI)
  show "bytes_at B' (Position P + 1) (n @ [0])" by (rule bytes_at_frame[of B]) (use assms in \<open>auto simp: named_def\<close>)
next
  fix s assume "a = Some s"
  then show "bytes_at B' (Position P + length n + 2) (s @ [0])"
    by (intro bytes_at_frame[of B "Position P + length n + 2" "s @ [0]" B']) (use assms in \<open>auto simp: named_def\<close>)
qed

lemma denotes_node:
  assumes "named B P n a" "name_ok n" "attributes_ok a" "Position P + length n + length (attr_text a) + 2 \<le> hi"
    and "\<And>B'. length B' = length B \<Longrightarrow> (\<And>i. Position P \<le> i \<Longrightarrow> i < hi \<Longrightarrow> B' ! i = B ! i) \<Longrightarrow>
      (case ch of Some (l, k) \<Rightarrow> Kids (map (tree_of B') l) | None \<Rightarrow> (case ct of None \<Rightarrow> Void | Some c \<Rightarrow> Text (str_at B' c))) = b"
  shows "denotes (Position P) hi B [XML_NODE adr (Position P + 1) (map_option (\<lambda>_. Position P + length n + 2) a) ct rl ch] [Elem n a b]"
  unfolding denotes_def
proof (intro allI impI)
  fix B' assume B': "length B' = length B \<and> (\<forall>i. Position P \<le> i \<and> i < hi \<longrightarrow> B' ! i = B ! i)"
  have "named B' P n a" by (rule named_agree[OF assms(1)]) (use B' assms(4) in auto)
  then show "map (tree_of B') [XML_NODE adr (Position P + 1) (map_option (\<lambda>_. Position P + length n + 2) a) ct rl ch] = [Elem n a b]"
    using named_str_at[OF _ assms(2,3)] assms(5)[of B'] B' by (simp split del: option.split)
qed

lemma parses_Void:
  assumes "bytes_at (Buffer P) (Position P) (print_xml (Elem n a Void))" "name_ok n" "attributes_ok a"
    "no_space_at (Buffer P) (Position P + length (print_xml (Elem n a Void)))"
  shows "parses (XmlParseNode (Suc d) (\<lambda>_. True)) P (Elem n a Void)"
proof -
  let ?hi = "Position P + length (print_xml (Elem n a Void))"
  obtain W where W: "Position W = ?hi" "Level W = Level P" "outside_same (Position P) ?hi (Buffer P) (Buffer W)" "named (Buffer W) P n a"
    "XmlParseNode (Suc d) (\<lambda>_. True) P None = Some (Some (fresh_node P n a), W, None)"
    by (rule XmlParseNode_open[of P n a "[ch_slash, ch_gt]" True ?hi d]) (use assms in simp_all)
  moreover have "denotes (Position P) ?hi (Buffer W) [fresh_node P n a] [Elem n a Void]"
    unfolding fresh_node_def by (rule denotes_node) (use W(4) assms in auto)
  ultimately show ?thesis by (auto simp: parses_def)
qed

lemma parses_Text:
  assumes at: "bytes_at (Buffer P) (Position P) (print_xml (Elem n a (Text s)))" and ok: "name_ok n" "attributes_ok a" "text_ok s"
  shows "parses (XmlParseNode (Suc d) (\<lambda>_. True)) P (Elem n a (Text s))"
proof -
  let ?h1 = "Position P + length (ch_lt # n @ attr_text a @ [ch_gt])" and ?hi = "Position P + length (print_xml (Elem n a (Text s)))"
  have a1: "bytes_at (Buffer P) (Position P) (ch_lt # n @ attr_text a @ [ch_gt])" and a2: "bytes_at (Buffer P) ?h1 (s @ [ch_lt, ch_slash] @ n @ [ch_gt])"
    using at by (simp_all add: add.assoc)
  have "s \<noteq> []" "\<not> IsAsciiSpace (hd s)" using ok by (simp_all add: text_ok_def)
  then have stop: "no_space_at (Buffer P) ?h1" using a2 by (cases s) (auto simp: no_space_at_def)
  obtain W where W: "Position W = ?h1" "Level W = Level P" "outside_same (Position P) ?h1 (Buffer P) (Buffer W)" "named (Buffer W) P n a"
    "XmlParseNode (Suc d) (\<lambda>_. True) P None =
       Option.bind (if XmlParserPeek W 0 \<noteq> ch_lt then parse_text (fresh_node P n a) W None
                     else parse_children (XmlParseNode d (\<lambda>_. True)) (\<lambda>_. True) (fresh_node P n a) W None)
                 (case_sum (\<lambda>(Parser, References). Some (None, Parser, References)) (parse_close (\<lambda>_. True)))"
    by (rule XmlParseNode_open[of P n a "[ch_gt]" False ?h1 d, OF a1 ok(1,2) _ refl stop]) simp_all
  have w: "bytes_at (Buffer W) ?h1 (s @ [ch_lt, ch_slash] @ n @ [ch_gt])" by (rule bytes_at_outside[OF a2 W(3)]) simp
  define Q where "Q = W\<lparr>Buffer := (Buffer W)[?h1 + length s := 0], Position := ?h1 + length s + 1\<rparr>"
  have C: "XmlParseContent W = Some (Some ?h1, Q)"
    using XmlParseContent_bytes[of W s] w ok(3) W(1) by (simp add: Q_def)
  have peek: "XmlParserPeek W 0 \<noteq> ch_lt"
    using w W(1) ok(3) by (cases s) (auto simp: text_ok_def Peek_bytes)
  define m where "m = XML_NODE (AllocIndex P) (Position P + 1) (map_option (\<lambda>_. Position P + length n + 2) a) (Some ?h1) None None"
  have T: "parse_text (fresh_node P n a) W None = Some (Inr (m, None, True, Q, None))"
    using C by (simp add: parse_text_def reference_number_def fresh_node_def m_def)
  have q: "bytes_at (Buffer Q) (Position Q) (ch_slash # n @ [ch_gt])" "bytes_at (Buffer Q) ?h1 (s @ [0])" "named (Buffer Q) P n a"
    using w named_update[OF W(4)] by (auto simp: Q_def add.assoc intro!: bytes_at_update)
  obtain P' where P': "parse_close (\<lambda>_. True) (m, None, True, Q, None) = Some (Some m, P', None)" "Position P' = ?hi" "Level P' = Level Q"
    "outside_same (Position Q) ?hi (Buffer Q) (Buffer P')" "named (Buffer P') P n a"
    by (rule parse_close_bytes[of Q True n a P m ?hi]) (use q ok in \<open>simp_all add: m_def Q_def\<close>)
  have s: "bytes_at (Buffer P') ?h1 (s @ [0])" by (rule bytes_at_outside[OF q(2) P'(4)]) (simp add: Q_def)
  have str: "str_at B' ?h1 = s" if "length B' = length (Buffer P')" "\<And>i. Position P \<le> i \<Longrightarrow> i < ?hi \<Longrightarrow> B' ! i = Buffer P' ! i" for B'
    by (rule str_at_bytes[OF bytes_at_frame[OF s that(1)]]) (use that(2) name_ok_no_zero(2)[OF ok(3)] in simp_all)
  have "denotes (Position P) ?hi (Buffer P') [m] [Elem n a (Text s)]"
    unfolding m_def by (rule denotes_node[OF P'(5) ok(1,2)]) (use str in auto)
  moreover have "outside_same (Position P) ?hi (Buffer P) (Buffer P')"
  proof -
    have "outside_same (Position P) (Position Q) (Buffer P) (Buffer Q)"
      using outside_same_update[of "Position P" "Position Q" "Buffer P" "Buffer W" "?h1 + length s" 0] W(3) by (auto simp: Q_def outside_same_def)
    then show ?thesis by (rule outside_same_trans[OF _ P'(4)]) (auto simp: Q_def)
  qed
  ultimately show ?thesis using W(2,5) peek T P' by (auto simp: parses_def Q_def)
qed

lemma parses_Kids:
  assumes at: "bytes_at (Buffer P) (Position P) (print_xml (Elem n a (Kids ts)))" and ok: "name_ok n" "attributes_ok a"
    and ts: "ts \<noteq> []" "length ts < XML_PARSER_NODE_COUNT" "\<forall>t \<in> set ts. xml_ok dd t" and lv: "Level P < XML_PARSER_NEST_LEVEL"
    and parse: "\<And>Q t. t \<in> set ts \<Longrightarrow> bytes_at (Buffer Q) (Position Q) (print_xml t) \<Longrightarrow> Level Q = Level P + 1 \<Longrightarrow>
      no_space_at (Buffer Q) (Position Q + length (print_xml t)) \<Longrightarrow> parses (XmlParseNode d (\<lambda>_. True)) Q t"
  shows "parses (XmlParseNode (Suc d) (\<lambda>_. True)) P (Elem n a (Kids ts))"
proof -
  let ?h1 = "Position P + length (ch_lt # n @ attr_text a @ [ch_gt])" and ?hi = "Position P + length (print_xml (Elem n a (Kids ts)))"
  let ?k = "concat (map print_xml ts)"
  have a1: "bytes_at (Buffer P) (Position P) (ch_lt # n @ attr_text a @ [ch_gt])" and a2: "bytes_at (Buffer P) ?h1 (?k @ [ch_lt, ch_slash] @ n @ [ch_gt])"
    using at by (simp_all add: add.assoc)
  obtain w where k: "?k = ch_lt # w" using ts(1) print_xml_start(1)[of "hd ts"] by (cases ts) auto
  have stop: "no_space_at (Buffer P) ?h1" using a2 k by (auto simp: no_space_at_def)
  obtain W where W: "Position W = ?h1" "Level W = Level P" "outside_same (Position P) ?h1 (Buffer P) (Buffer W)" "named (Buffer W) P n a"
    "XmlParseNode (Suc d) (\<lambda>_. True) P None =
       Option.bind (if XmlParserPeek W 0 \<noteq> ch_lt then parse_text (fresh_node P n a) W None
                     else parse_children (XmlParseNode d (\<lambda>_. True)) (\<lambda>_. True) (fresh_node P n a) W None)
                 (case_sum (\<lambda>(Parser, References). Some (None, Parser, References)) (parse_close (\<lambda>_. True)))"
    by (rule XmlParseNode_open[of P n a "[ch_gt]" False ?h1 d, OF a1 ok(1,2) _ refl stop]) simp_all
  have wb: "bytes_at (Buffer W) ?h1 (?k @ [ch_lt, ch_slash] @ n @ [ch_gt])" by (rule bytes_at_outside[OF a2 W(3)]) simp
  have peek: "XmlParserPeek W 0 = ch_lt" using wb k W(1) by (simp add: Peek_bytes)
  let ?W = "W\<lparr>Level := Level W + 1\<rparr>"
  have "\<exists>ns k Q. iterate (parse_child (XmlParseNode d (\<lambda>_. True)) (\<lambda>_. True)) (fresh_node P n a, ?W, None) =
      Some (Some (Inr (False, XML_NODE (Address (fresh_node P n a)) (Name (fresh_node P n a)) (Attributes (fresh_node P n a)) (Content (fresh_node P n a)) (Real (fresh_node P n a))
         (if ts = [] then Children (fresh_node P n a) else Some ((case Children (fresh_node P n a) of None \<Rightarrow> [] | Some (l, k) \<Rightarrow> l) @ ns, k)), Q, None)))
    \<and> Position Q = Position ?W + length ?k \<and> Level Q = Level P + 1
    \<and> outside_same (Position ?W) (Position Q) (Buffer ?W) (Buffer Q) \<and> denotes (Position ?W) (Position Q) (Buffer Q) ns ts"
    by (rule children_bytes[OF parse ts(3)]) (use ts wb W in \<open>auto simp: fresh_node_def\<close>)
  then obtain ns k Q where Q: "iterate (parse_child (XmlParseNode d (\<lambda>_. True)) (\<lambda>_. True)) (fresh_node P n a, ?W, None) =
      Some (Some (Inr (False, XML_NODE (AllocIndex P) (Position P + 1) (map_option (\<lambda>_. Position P + length n + 2) a) None None (Some (ns, k)), Q, None)))"
    "Position Q = ?h1 + length ?k" "Level Q = Level P + 1"
    "outside_same ?h1 (Position Q) (Buffer W) (Buffer Q)" "denotes ?h1 (Position Q) (Buffer Q) ns ts"
    using ts(1) W(1) by (auto simp: fresh_node_def)
  define m where "m = XML_NODE (AllocIndex P) (Position P + 1) (map_option (\<lambda>_. Position P + length n + 2) a) None None (Some (ns, k))"
  let ?Q = "Q\<lparr>Level := Level P\<rparr>"
  have T: "parse_children (XmlParseNode d (\<lambda>_. True)) (\<lambda>_. True) (fresh_node P n a) W None = Some (Inr (m, None, False, ?Q, None))"
    using Q(1,3) W(2) lv by (simp add: parse_children_def m_def)
  have q: "bytes_at (Buffer Q) (Position Q) ([ch_lt, ch_slash] @ n @ [ch_gt])"
  proof -
    have "bytes_at (Buffer W) (Position Q) ([ch_lt, ch_slash] @ n @ [ch_gt])" using wb Q(2) by (simp add: add.assoc)
    from bytes_at_outside[OF this Q(4)] show ?thesis by simp
  qed
  have qn: "named (Buffer Q) P n a" by (rule named_outside[OF W(4) Q(4)]) simp
  obtain P' where P': "parse_close (\<lambda>_. True) (m, None, False, ?Q, None) = Some (Some m, P', None)" "Position P' = ?hi" "Level P' = Level P"
    "outside_same (Position Q) ?hi (Buffer Q) (Buffer P')" "named (Buffer P') P n a"
    by (rule parse_close_bytes[of ?Q False n a P m ?hi]) (use q qn ok Q(2) in \<open>simp_all add: m_def\<close>)
  have D: "denotes ?h1 (Position Q) (Buffer P') ns ts" using denotes_frame[OF Q(5) P'(4)] by simp
  have "denotes (Position P) ?hi (Buffer P') [m] [Elem n a (Kids ts)]"
    unfolding m_def by (rule denotes_node[OF P'(5) ok(1,2)]) (use D Q(2) in \<open>auto simp: denotes_def\<close>)
  moreover have "outside_same (Position P) ?hi (Buffer P) (Buffer P')"
  proof -
    have "outside_same (Position P) (Position Q) (Buffer P) (Buffer Q)" by (rule outside_same_trans[OF W(3) Q(4)]) (auto simp: Q(2))
    then show ?thesis by (rule outside_same_trans[OF _ P'(4)]) (auto simp: Q(2))
  qed
  ultimately show ?thesis using W(5) peek T P' by (auto simp: parses_def)
qed

lemma XmlParseNode_bytes:
  "xml_ok d t \<Longrightarrow> bytes_at (Buffer P) (Position P) (print_xml t) \<Longrightarrow> Level P + d \<le> XML_PARSER_NEST_LEVEL \<Longrightarrow>
   no_space_at (Buffer P) (Position P + length (print_xml t)) \<Longrightarrow> d \<le> d' \<Longrightarrow> parses (XmlParseNode (Suc d') (\<lambda>_. True)) P t"
proof (induction d t arbitrary: P d' rule: xml_ok.induct)
  case (1 d n a)
  then show ?case by (intro parses_Void) auto
next
  case (2 d n a s)
  then show ?case by (intro parses_Text) auto
next
  case (3 n a l)
  then show ?case by simp
next
  case (4 d n a l)
  then obtain e where e: "d' = Suc e" "d \<le> e" by (cases d') auto
  have "parses (XmlParseNode (Suc e) (\<lambda>_. True)) Q t"
    if "t \<in> set l" "bytes_at (Buffer Q) (Position Q) (print_xml t)" "Level Q = Level P + 1"
      "no_space_at (Buffer Q) (Position Q + length (print_xml t))" for Q t
    by (rule 4(1)) (use that 4(2,4) e(2) in \<open>simp_all del: XmlParseNode.simps\<close>)
  then show ?case unfolding e(1)
    by (rule parses_Kids[OF 4(3) _ _ _ _ _ _, rotated 6]) (use 4(2,4) in \<open>auto simp del: XmlParseNode.simps\<close>)
qed

subsection \<open>The header of a property list\<close>

lemma skip_control_bytes:
  assumes "bytes_at (Buffer P) (Position P) (w @ [ch_gt])" "ch_gt \<notin> set w"
  shows "skip_control False P = P\<lparr>Position := Position P + length w + 1\<rparr>"
  using assms
proof (induction w arbitrary: P)
  case Nil
  then show ?case by (subst skip_control.simps) (simp add: Peek_bytes Consume_bytes)
next
  case (Cons c w)
  then have "skip_control False P = skip_control False (P\<lparr>Position := Suc (Position P)\<rparr>)"
    by (subst skip_control.simps) (auto simp add: Peek_bytes Consume_bytes)
  then show ?case using Cons.IH[of "P\<lparr>Position := Suc (Position P)\<rparr>"] Cons.prems by simp
qed

lemma TagOpen_loop_control:
  assumes at: "bytes_at (Buffer P) (Position P) (ch_lt # c # w @ [ch_gt, ch_lt])" and w: "ch_gt \<notin> set w" "c = ch_query \<or> c = ch_excl \<and> w \<noteq> [] \<and> hd w \<noteq> ch_dash"
  shows "TagOpen_loop P = TagOpen_loop (P\<lparr>Position := Position P + length w + 3\<rparr>)"
proof -
  let ?Q = "P\<lparr>Position := Position P + 1\<rparr>"
  have W: "XmlSkipWhitespace P = P" using at by (intro Skip_bytes(1)) auto
  have Q: "XmlParserPeek P 0 = ch_lt" "XmlParserConsume P 1 = ?Q" "XmlParserPeek ?Q 0 = c"
    using at by (simp_all add: Peek_bytes Consume_bytes)
  have S: "skip_sequence ?Q = P\<lparr>Position := Position P + length w + 3\<rparr>"
  proof (cases "c = ch_excl")
    case False
    then show ?thesis
      using Q(3) w at skip_control_bytes[of ?Q "c # w"] by (auto simp: skip_sequence_def numeral_eq_Suc)
  next
    case True
    let ?R = "P\<lparr>Position := Position P + 2\<rparr>"
    have "XmlParserConsume ?Q 1 = ?R" "XmlParserPeek ?R 0 \<noteq> ch_dash"
      using at w True by (cases w; auto simp: Peek_bytes Consume_bytes)+
    then show ?thesis using Q(3) True w at skip_control_bytes[of ?R w] by (auto simp: skip_sequence_def Let_def numeral_eq_Suc)
  qed
  have "Position P + length w + 3 < length (Buffer P)" using at by simp
  then show ?thesis
    using W Q S w(2) by (subst TagOpen_loop.simps) auto
qed

lemma TagOpen_loop_header:
  assumes "bytes_at (Buffer P) (Position P) (XML_PLIST_HEADER @ [ch_lt])"
  shows "TagOpen_loop P = TagOpen_loop (P\<lparr>Position := Position P + length XML_PLIST_HEADER\<rparr>)"
proof -
  let ?q = "[ch_quot]"
  let ?a = "ascii ''xml version='' @ ?q @ ascii ''1.0'' @ ?q @ ascii '' encoding='' @ ?q @ ascii ''UTF-8'' @ ?q @ ascii ''?''"
  let ?b = "ascii ''DOCTYPE plist PUBLIC '' @ ?q @ ascii ''-//Apple//DTD PLIST 1.0//EN'' @ ?q @ ascii '' '' @ ?q
     @ ascii ''http://www.apple.com/DTDs/PropertyList-1.0.dtd'' @ ?q"
  have H: "XML_PLIST_HEADER = (ch_lt # ch_query # ?a @ [ch_gt]) @ (ch_lt # ch_excl # ?b @ [ch_gt])"
    by (simp add: XML_PLIST_HEADER_def ascii_def)
  let ?Q = "P\<lparr>Position := Position P + length ?a + 3\<rparr>"
  have "bytes_at (Buffer P) (Position P) ((ch_lt # ch_query # ?a @ [ch_gt, ch_lt]) @ (ch_excl # ?b @ [ch_gt, ch_lt]))"
    using assms unfolding H by simp
  then have 1: "bytes_at (Buffer P) (Position P) (ch_lt # ch_query # ?a @ [ch_gt, ch_lt])" unfolding bytes_at_append by blast
  have 2: "bytes_at (Buffer ?Q) (Position ?Q) (ch_lt # ch_excl # ?b @ [ch_gt, ch_lt])"
    using assms unfolding H by (simp add: numeral_eq_Suc ascii_def)
  have "TagOpen_loop P = TagOpen_loop ?Q" by (rule TagOpen_loop_control[OF 1]) (simp_all add: ascii_def)
  also have "\<dots> = TagOpen_loop (?Q\<lparr>Position := Position ?Q + length ?b + 3\<rparr>)"
    by (rule TagOpen_loop_control[OF 2]) (simp_all add: ascii_def)
  also have "?Q\<lparr>Position := Position ?Q + length ?b + 3\<rparr> = P\<lparr>Position := Position P + length XML_PLIST_HEADER\<rparr>"
    unfolding H by (simp add: ascii_def)
  finally show ?thesis .
qed

lemma XmlDocumentParse_plist:
  assumes "xml_ok XML_PARSER_NEST_LEVEL t" "s = (if Prepend then XML_PLIST_HEADER else []) @ print_xml t" "length s \<le> XML_PARSER_MAX_SIZE"
  shows "\<exists>D B. XmlDocumentParse (\<lambda>_. True) s False = Some (Some D, B) \<and> tree_of (DocBuffer D) (Root D) = t"
proof -
  let ?P = "\<lparr>Buffer = s, Position = 0, Level = 0, AllocIndex = 0\<rparr>"
  let ?k = "length (if Prepend then XML_PLIST_HEADER else [])"
  let ?Q = "?P\<lparr>Position := ?k\<rparr>"
  obtain w where w: "print_xml t = ch_lt # w" using print_xml_start(1) by blast
  have all: "bytes_at s 0 ((if Prepend then XML_PLIST_HEADER else []) @ print_xml t)" using bytes_at_all[of s s] assms(2) by simp
  have "TagOpen_loop ?P = TagOpen_loop ?Q"
    using TagOpen_loop_header[of ?P] all w by (cases Prepend) auto
  then have same: "XmlParseNode (Suc 32) (\<lambda>_. True) ?P None = XmlParseNode (Suc 32) (\<lambda>_. True) ?Q None"
    by (simp only: XmlParseNode.simps XmlParseTagOpen_def)
  have "parses (XmlParseNode (Suc 32) (\<lambda>_. True)) ?Q t"
    by (rule XmlParseNode_bytes[OF assms(1)]) (use all assms(2) in \<open>auto simp: no_space_at_def XML_PARSER_NEST_LEVEL_def\<close>)
  then obtain n P' where n: "XmlParseNode (Suc 32) (\<lambda>_. True) ?Q None = Some (Some n, P', None)"
    and D: "denotes (Position ?Q) (Position P') (Buffer P') [n] [t]"
    unfolding parses_def by blast
  have "Suc 32 = (33 :: nat)" by simp
  with n same have P': "XmlParseNode 33 (\<lambda>_. True) ?P None = Some (Some n, P', None)" by argo
  have "tree_of (Buffer P') n = t" using D unfolding denotes_def by fastforce
  moreover have "length s \<noteq> 0" using w assms(2) by auto
  ultimately show ?thesis using P' assms(3) by (simp add: XmlDocumentParse_def Let_def)
qed

text \<open>
  C7: a document whose tree is well formed and within the limits of the parser survives export and parsing, with
  the header of a property list and without: the exported text parses again, to the same tree.
\<close>

theorem XmlDocumentExport_roundtrip:
  assumes "alloc_ok Alloc" "\<forall>k n. Alloc k n \<noteq> None" and "node_ok (DocBuffer d) w (Root d)" "length (DocBuffer d) \<le> XML_PARSER_MAX_SIZE"
    and "xml_ok XML_PARSER_NEST_LEVEL (tree_of (DocBuffer d) (Root d))" "length (plist_text d 0 Prepend) \<le> XML_PARSER_MAX_SIZE"
  shows "\<exists>Buf Len D B. XmlDocumentExport Alloc d 0 Prepend = Some (Some (Buf, Len))
     \<and> XmlDocumentParse (\<lambda>_. True) (take (unat Len) Buf) False = Some (Some D, B)
     \<and> tree_of (DocBuffer D) (Root D) = tree_of (DocBuffer d) (Root d)"
proof -
  let ?s = "plist_text d 0 Prepend"
  have "length ?s < 0x7FFF0000" using assms(6) by (simp add: XML_PARSER_MAX_SIZE_def)
  then obtain Buf where B: "XmlDocumentExport Alloc d 0 Prepend = Some (Some (Buf, of_nat (length ?s)))" "take (length ?s + 1) Buf = ?s @ [0]"
    using XmlDocumentExport_spec[OF assms(1,3,4), of 0 Prepend] assms(2) by blast
  have "unat (of_nat (length ?s) :: u32) = length ?s" using \<open>length ?s < 0x7FFF0000\<close> by (simp add: unat_of_nat)
  moreover have "take (length ?s) Buf = ?s"
  proof -
    have "take (length ?s) Buf = take (length ?s) (take (length ?s + 1) Buf)" by (simp add: min_def)
    then show ?thesis by (simp only: B(2)) simp
  qed
  moreover obtain D B' where "XmlDocumentParse (\<lambda>_. True) ?s False = Some (Some D, B')" "tree_of (DocBuffer D) (Root D) = tree_of (DocBuffer d) (Root d)"
    using XmlDocumentParse_plist[OF assms(5), of ?s Prepend] assms(6) by (auto simp: plist_text_def)
  ultimately show ?thesis using B(1) by auto
qed

text \<open>A document with two nodes, \<^verbatim>\<open><a><b>x</b></a>\<close>.\<close>

definition sample_document :: XML_DOCUMENT where
  "sample_document = \<lparr>DocBuffer = [0x61, 0, 0x62, 0, 0x78, 0],
     Root = XML_NODE 0 0 None None None (Some ([XML_NODE 1 2 None (Some 4) None None], 3)), References = \<lparr>RefCount = 0, RefList = []\<rparr>\<rparr>"

lemma sample_document_ok:
  "node_ok (DocBuffer sample_document) False (Root sample_document)"
  "tree_of (DocBuffer sample_document) (Root sample_document) = Elem [0x61] None (Kids [Elem [0x62] None (Text [0x78])])"
proof -
  have "terminated [0x61, 0, 0x62, 0, 0x78, 0] k" if "k < 6" for k using that unfolding terminated_def by (intro exI[of _ 5]) auto
  then show "node_ok (DocBuffer sample_document) False (Root sample_document)" by (simp add: sample_document_def XML_PARSER_NODE_COUNT_def)
qed (simp add: sample_document_def str_at_def)

theorem XmlDocumentExport_roundtrip_witness:
  "\<exists>Buf Len D B. XmlDocumentExport (\<lambda>k n. Some (replicate n 0)) sample_document 0 True = Some (Some (Buf, Len))
     \<and> XmlDocumentParse (\<lambda>_. True) (take (unat Len) Buf) False = Some (Some D, B)
     \<and> tree_of (DocBuffer D) (Root D) = Elem [0x61] None (Kids [Elem [0x62] None (Text [0x78])])"
proof -
  let ?A = "\<lambda>k n. Some (replicate n (0 :: byte))"
  have 1: "alloc_ok ?A" "\<forall>k n. ?A k n \<noteq> None" by (simp_all add: alloc_ok_def)
  have 2: "length (DocBuffer sample_document) \<le> XML_PARSER_MAX_SIZE" by (simp add: sample_document_def XML_PARSER_MAX_SIZE_def)
  have "xml_ok (Suc 31) (Elem [0x61] None (Kids [Elem [0x62] None (Text [0x78])]))"
    unfolding xml_ok.simps by (simp add: name_ok_def attributes_ok_def text_ok_def IsAsciiSpace_def XML_PARSER_NODE_COUNT_def)
  then have 3: "xml_ok XML_PARSER_NEST_LEVEL (tree_of (DocBuffer sample_document) (Root sample_document))"
    by (simp add: sample_document_ok XML_PARSER_NEST_LEVEL_def del: xml_ok.simps)
  have 4: "length (plist_text sample_document 0 True) \<le> XML_PARSER_MAX_SIZE"
    by (simp add: plist_text_def sample_document_ok XML_PLIST_HEADER_def ascii_def XML_PARSER_MAX_SIZE_def)
  show ?thesis using XmlDocumentExport_roundtrip[OF 1 sample_document_ok(1) 2 3 4] unfolding sample_document_ok(2) .
qed

text \<open>
  C28: the export never leaves its blocks, whatever allocations fail. When all succeed, it returns the text of the tree
  below the skipped levels, after the header if that is asked for, with a terminator and its length.
\<close>

theorem XmlDocumentExport_correct:
  assumes "alloc_ok Alloc" "node_ok (DocBuffer d) w (Root d)" "length (DocBuffer d) \<le> XML_PARSER_MAX_SIZE"
    and "length (plist_text d Skip Prepend) < 0x7FFF0000"
  shows "\<exists>r. XmlDocumentExport Alloc d Skip Prepend = Some r \<and>
    ((\<forall>k n. Alloc k n \<noteq> None) \<longrightarrow>
       (\<exists>Buf. r = Some (Buf, of_nat (length (plist_text d Skip Prepend))) \<and>
          take (length (plist_text d Skip Prepend) + 1) Buf = plist_text d Skip Prepend @ [0]))"
  using assms by (rule XmlDocumentExport_spec)

theorem XmlDocumentExport_correct_witness:
  "\<exists>r Buf. XmlDocumentExport (\<lambda>k n. Some (replicate n 0)) sample_document 1 False = Some r \<and> r = Some (Buf, 8)
     \<and> take (length (ascii ''<b>x</b>'') + 1) Buf = ascii ''<b>x</b>'' @ [0]"
proof -
  have t: "plist_text sample_document 1 False = ascii ''<b>x</b>''"
    by (simp add: plist_text_def sample_document_ok ascii_def)
  show ?thesis
    using XmlDocumentExport_correct[of "\<lambda>k n. Some (replicate n 0)" sample_document False 1 False] sample_document_ok(1) t
    by (auto simp: alloc_ok_def ascii_def sample_document_def XML_PARSER_MAX_SIZE_def)
qed

end
