(* ===== verification/Oc_Plist.thy ===== *)
theory Oc_Plist
  imports Oc_XmlExport
begin

text \<open>
  The functions of \<^verbatim>\<open>Library/OcXmlLib/OcXmlLib.c\<close> that read and edit a document: nodes and their children, unescaping, and the
  accessors for property lists.
\<close>

section \<open>Access to the document\<close>

text \<open>
  Pointers into the document: \<open>XmlNodeContent\<close> follows \<open>Real\<close>, which must be a node of the document (\<open>None\<close> otherwise: the
  node was freed). The strings are read from the buffer of the document.
\<close>

fun find_node :: "nat \<Rightarrow> XML_NODE \<Rightarrow> XML_NODE option"
  and find_nodes :: "nat \<Rightarrow> XML_NODE list \<Rightarrow> XML_NODE option" where
  "find_node a (XML_NODE adr nm attr ct rl ch) =
     (if adr = a then Some (XML_NODE adr nm attr ct rl ch) else (case ch of None \<Rightarrow> None | Some (l, k) \<Rightarrow> find_nodes a l))"
| "find_nodes a [] = None"
| "find_nodes a (x # xs) = (case find_node a x of Some n \<Rightarrow> Some n | None \<Rightarrow> find_nodes a xs)"

definition XmlDocumentRoot :: "XML_DOCUMENT \<Rightarrow> XML_NODE" where
  "XmlDocumentRoot Document = Root Document"

definition XmlNodeName :: "XML_DOCUMENT \<Rightarrow> XML_NODE \<Rightarrow> byte list option" where
  "XmlNodeName Document Node = cstr (DocBuffer Document) (Name Node)"

definition XmlNodeContent :: "XML_DOCUMENT \<Rightarrow> XML_NODE \<Rightarrow> nat option option" where
  "XmlNodeContent Document Node =
     (case Real Node of None \<Rightarrow> Some (Content Node) | Some a \<Rightarrow> map_option Content (find_node a (Root Document)))"

definition XmlNodeChildren :: "XML_NODE \<Rightarrow> nat" where
  "XmlNodeChildren Node = (case Children Node of None \<Rightarrow> 0 | Some (l, k) \<Rightarrow> length l)"

definition XmlNodeChild :: "XML_NODE \<Rightarrow> nat \<Rightarrow> XML_NODE option" where
  "XmlNodeChild Node Child = (case Children Node of None \<Rightarrow> None | Some (l, k) \<Rightarrow> rd l Child)"

text \<open>The loop over the children of \<open>XmlEasyChild\<close>; \<open>Inl ()\<close> is its return of \<open>NULL\<close>.\<close>

fun EasyChild_loop :: "XML_DOCUMENT \<Rightarrow> byte list \<Rightarrow> XML_NODE list \<Rightarrow> XML_NODE option \<Rightarrow> (unit + XML_NODE option) option" where
  "EasyChild_loop Document ChildName [] Next = Some (Inr Next)"
| "EasyChild_loop Document ChildName (Child # l) Next =
     do {
       n \<leftarrow> XmlNodeName Document Child;
       if n \<noteq> ChildName
       then (case Next of None \<Rightarrow> EasyChild_loop Document ChildName l (Some Child) | Some _ \<Rightarrow> Some (Inl ()))
       else EasyChild_loop Document ChildName l Next
     }"

fun XmlEasyChild :: "XML_DOCUMENT \<Rightarrow> XML_NODE \<Rightarrow> byte list list \<Rightarrow> XML_NODE option option" where
  "XmlEasyChild Document Node [] = Some (Some Node)"
| "XmlEasyChild Document Node (ChildName # Names) =
     do {
       r \<leftarrow> EasyChild_loop Document ChildName (case Children Node of None \<Rightarrow> [] | Some (l, k) \<Rightarrow> l) None;
       (case r of Inl _ \<Rightarrow> Some None | Inr None \<Rightarrow> Some None | Inr (Some Next) \<Rightarrow> XmlEasyChild Document Next Names)
     }"

text \<open>
  \<open>XmlNodeAppend\<close>: \<open>adr\<close> is the address of the new node, if it can be allocated, \<open>Allocated\<close> whether there is room for a
  larger list.
\<close>

definition XmlNodeAppend ::
  "nat option \<Rightarrow> bool \<Rightarrow> XML_NODE \<Rightarrow> nat \<Rightarrow> nat option \<Rightarrow> nat option \<Rightarrow> XML_NODE option \<times> XML_NODE" where
  "XmlNodeAppend adr Allocated Node NewName Attr Txt =
     (case adr of
        None \<Rightarrow> (None, Node)
      | Some a \<Rightarrow>
          (let NewNode = XML_NODE a NewName Attr Txt None None;
               (Pushed, Node) = XmlNodeChildPush Allocated Node NewNode
           in if Pushed then (Some NewNode, Node) else (None, Node)))"

definition with_children :: "XML_NODE \<Rightarrow> XML_NODE list \<Rightarrow> XML_NODE" where
  "with_children Node l = XML_NODE (Address Node) (Name Node) (Attributes Node) (Content Node) (Real Node) (map_option (\<lambda>(_, k). (l, k)) (Children Node))"

definition XmlNodePrepend ::
  "nat option \<Rightarrow> bool \<Rightarrow> XML_NODE \<Rightarrow> nat \<Rightarrow> nat \<Rightarrow> nat \<Rightarrow> (XML_NODE option \<times> XML_NODE) option" where
  "XmlNodePrepend adr Allocated Node NewName Attr Txt =
     (case XmlNodeAppend adr Allocated Node NewName (Some Attr) (Some Txt) of
        (None, Node) \<Rightarrow> Some (None, Node)
      | (Some NewNode, Node) \<Rightarrow> do {
          (l, k) \<leftarrow> Children Node;
          l \<leftarrow> wr (overwrite l 1 (take (length l - 1) l)) 0 NewNode;
          Some (Some NewNode, with_children Node l)
        })"

definition XmlNodeRemoveByIndex :: "XML_NODE \<Rightarrow> nat \<Rightarrow> XML_NODE option" where
  "XmlNodeRemoveByIndex Node Index =
     do {
       (l, k) \<leftarrow> Children Node;
       if Index < length l
       then Some (with_children Node (take (length l - 1) (overwrite l Index (drop (Index + 1) l))))
       else None
     }"

text \<open>\<open>XmlUnescapeString\<close>: the loop with the rest of the string and the characters written so far, in a block of the size of the string.\<close>

function unescape_loop :: "byte list \<Rightarrow> byte list \<Rightarrow> byte list" where
  "unescape_loop String Out =
     (if String = [] then Out
      else if hd String = 0x26
      then if take 5 (tl String) = ascii ''apos;'' then unescape_loop (drop 6 String) (Out @ [0x27])
           else if take 5 (tl String) = ascii ''quot;'' then unescape_loop (drop 6 String) (Out @ [ch_quot])
           else if take 4 (tl String) = ascii ''amp;'' then unescape_loop (drop 5 String) (Out @ [0x26])
           else if take 3 (tl String) = ascii ''lt;'' then unescape_loop (drop 4 String) (Out @ [ch_lt])
           else if take 3 (tl String) = ascii ''gt;'' then unescape_loop (drop 4 String) (Out @ [ch_gt])
           else unescape_loop (tl String) (Out @ [hd String])
      else unescape_loop (tl String) (Out @ [hd String]))"
  by pat_completeness auto
termination
  by (relation "measure (\<lambda>(s, _). length s)") auto

declare unescape_loop.simps [simp del]

definition XmlUnescapeString :: "(nat \<Rightarrow> byte list option) \<Rightarrow> byte list \<Rightarrow> byte list option option" where
  "XmlUnescapeString Alloc String =
     (case Alloc (length String + 1) of
        None \<Rightarrow> Some None
      | Some Buf \<Rightarrow>
          (let Out = unescape_loop String [] @ [0]
           in if length Out \<le> length Buf then Some (Some (overwrite Buf 0 Out)) else None))"

text \<open>The five characters that the writer of a property list escapes.\<close>

fun escape_char :: "byte \<Rightarrow> byte list" where
  "escape_char c =
     (if c = 0x27 then ascii ''&apos;'' else if c = ch_quot then ascii ''&quot;'' else if c = 0x26 then ascii ''&amp;''
      else if c = ch_lt then ascii ''&lt;'' else if c = ch_gt then ascii ''&gt;'' else [c])"

definition escape_string :: "byte list \<Rightarrow> byte list" where
  "escape_string s = concat (map escape_char s)"

lemma unescape_loop_length: "length (unescape_loop s Out) \<le> length Out + length s"
proof (induction s Out rule: unescape_loop.induct)
  case (1 s Out)
  note IH = 1
  show ?case
  proof (cases s)
    case Nil
    then show ?thesis by (simp add: unescape_loop.simps)
  next
    case (Cons c w)
    then show ?thesis
      using IH by (subst unescape_loop.simps) (auto simp: ascii_def split: if_splits)
  qed
qed

lemma unescape_escape: "unescape_loop (escape_string s) Out = Out @ s"
proof (induction s arbitrary: Out)
  case Nil
  then show ?case by (simp add: escape_string_def unescape_loop.simps)
next
  case (Cons c s)
  have "unescape_loop (escape_char c @ w) Out = unescape_loop w (Out @ [c])" for w
    by (subst unescape_loop.simps) (simp add: ascii_def)
  then show ?case using Cons.IH by (simp add: escape_string_def)
qed

section \<open>Property lists\<close>

datatype PLIST_NODE_TYPE = PLIST_NODE_TYPE_ANY | PLIST_NODE_TYPE_ARRAY | PLIST_NODE_TYPE_DICT | PLIST_NODE_TYPE_KEY
  | PLIST_NODE_TYPE_STRING | PLIST_NODE_TYPE_DATA | PLIST_NODE_TYPE_DATE | PLIST_NODE_TYPE_TRUE | PLIST_NODE_TYPE_FALSE
  | PLIST_NODE_TYPE_REAL | PLIST_NODE_TYPE_INTEGER

primrec PlistNodeTypes :: "PLIST_NODE_TYPE \<Rightarrow> byte list" where
  "PlistNodeTypes PLIST_NODE_TYPE_ANY = []"
| "PlistNodeTypes PLIST_NODE_TYPE_ARRAY = ascii ''array''"
| "PlistNodeTypes PLIST_NODE_TYPE_DICT = ascii ''dict''"
| "PlistNodeTypes PLIST_NODE_TYPE_KEY = ascii ''key''"
| "PlistNodeTypes PLIST_NODE_TYPE_STRING = ascii ''string''"
| "PlistNodeTypes PLIST_NODE_TYPE_DATA = ascii ''data''"
| "PlistNodeTypes PLIST_NODE_TYPE_DATE = ascii ''date''"
| "PlistNodeTypes PLIST_NODE_TYPE_TRUE = ascii ''true''"
| "PlistNodeTypes PLIST_NODE_TYPE_FALSE = ascii ''false''"
| "PlistNodeTypes PLIST_NODE_TYPE_REAL = ascii ''real''"
| "PlistNodeTypes PLIST_NODE_TYPE_INTEGER = ascii ''integer''"

definition PlistDocumentRoot :: "XML_DOCUMENT \<Rightarrow> XML_NODE option option" where
  "PlistDocumentRoot Document =
     do {
       let Node = Root Document;
       n \<leftarrow> XmlNodeName Document Node;
       if n \<noteq> ascii ''plist'' then Some None
       else if XmlNodeChildren Node \<noteq> 1 then Some None
       else map_option Some (XmlNodeChild Node 0)
     }"

definition PlistNodeCast :: "XML_DOCUMENT \<Rightarrow> XML_NODE option \<Rightarrow> PLIST_NODE_TYPE \<Rightarrow> XML_NODE option option" where
  "PlistNodeCast Document Node Type =
     (case Node of
        None \<Rightarrow> Some None
      | Some N \<Rightarrow>
          if Type = PLIST_NODE_TYPE_ANY then Some (Some N)
          else do {
            n \<leftarrow> XmlNodeName Document N;
            if n \<noteq> PlistNodeTypes Type then Some None
            else
              (let ChildrenNum = XmlNodeChildren N
               in if Type = PLIST_NODE_TYPE_DICT then Some (if ChildrenNum mod 2 \<noteq> 0 then None else Some N)
                  else if Type = PLIST_NODE_TYPE_ARRAY then Some (Some N)
                  else do {
                    Missing \<leftarrow> (if Type = PLIST_NODE_TYPE_KEY \<or> Type = PLIST_NODE_TYPE_INTEGER \<or> Type = PLIST_NODE_TYPE_REAL
                               then map_option (\<lambda>c. c = None) (XmlNodeContent Document N) else Some False);
                    if Missing then Some None
                    else if ChildrenNum > 0 then Some None
                    else Some (Some N)
                  })
          })"

definition PlistDictChildren :: "XML_NODE \<Rightarrow> nat" where
  "PlistDictChildren Node = XmlNodeChildren Node div 2"

definition PlistDictChild :: "XML_NODE \<Rightarrow> nat \<Rightarrow> (XML_NODE \<times> XML_NODE) option" where
  "PlistDictChild Node Child =
     do {
       Val \<leftarrow> XmlNodeChild Node (Child * 2 + 1);
       Key \<leftarrow> XmlNodeChild Node (Child * 2);
       Some (Key, Val)
     }"

text \<open>The content of a node as a string.\<close>

definition content_string :: "XML_DOCUMENT \<Rightarrow> XML_NODE \<Rightarrow> byte list option option" where
  "content_string Document Node =
     do {
       c \<leftarrow> XmlNodeContent Document Node;
       (case c of None \<Rightarrow> Some None | Some off \<Rightarrow> map_option Some (cstr (DocBuffer Document) off))
     }"

definition PlistKeyValue :: "XML_DOCUMENT \<Rightarrow> XML_NODE option \<Rightarrow> byte list option option" where
  "PlistKeyValue Document Node =
     do {
       N \<leftarrow> PlistNodeCast Document Node PLIST_NODE_TYPE_KEY;
       (case N of None \<Rightarrow> Some None | Some N \<Rightarrow> content_string Document N)
     }"

text \<open>\<open>AsciiStrnCpyS\<close> of the base library: nothing is written when the string and its terminator do not fit \<open>DestMax\<close>.\<close>

definition AsciiStrnCpyS :: "byte list \<Rightarrow> nat \<Rightarrow> byte list \<Rightarrow> nat \<Rightarrow> byte list option" where
  "AsciiStrnCpyS Dest DestMax Source Len =
     (let n = min Len (length Source)
      in if n \<ge> DestMax then Some Dest
         else if n + 1 \<le> length Dest then Some (overwrite Dest 0 (take n Source @ [0]))
         else None)"

text \<open>The accessors return whether they succeed, with the new contents of the caller's buffer and of \<open>*Size\<close>.\<close>

definition PlistStringValue ::
  "XML_DOCUMENT \<Rightarrow> XML_NODE option \<Rightarrow> byte list \<Rightarrow> u32 \<Rightarrow> (bool \<times> byte list \<times> u32) option" where
  "PlistStringValue Document Node Val Size =
     do {
       N \<leftarrow> PlistNodeCast Document Node PLIST_NODE_TYPE_STRING;
       (case N of
          None \<Rightarrow> Some (False, Val, Size)
        | Some N \<Rightarrow> do {
            c \<leftarrow> content_string Document N;
            (case c of
               None \<Rightarrow> do { Val \<leftarrow> wr Val 0 0; Some (True, Val, 1) }
             | Some s \<Rightarrow> do {
                 let Size = (if length s < unat Size then of_nat (length s + 1) else Size);
                 Val \<leftarrow> AsciiStrnCpyS Val (unat Size) s (length s);
                 Some (True, Val, Size)
               })
          })
     }"

text \<open>\<open>Base64Decode\<close> of the base library: the data, or \<open>None\<close> for an error, for the text and the size of the buffer.\<close>

definition PlistDataValue ::
  "(byte list \<Rightarrow> nat \<Rightarrow> byte list option) \<Rightarrow> XML_DOCUMENT \<Rightarrow> XML_NODE option \<Rightarrow> byte list \<Rightarrow> u32 \<Rightarrow> (bool \<times> byte list \<times> u32) option" where
  "PlistDataValue Base64Decode Document Node Buf Size =
     do {
       N \<leftarrow> PlistNodeCast Document Node PLIST_NODE_TYPE_DATA;
       (case N of
          None \<Rightarrow> Some (False, Buf, Size)
        | Some N \<Rightarrow> do {
            c \<leftarrow> content_string Document N;
            (case c of
               None \<Rightarrow> Some (True, Buf, 0)
             | Some s \<Rightarrow>
                 (case Base64Decode s (unat Size) of
                    None \<Rightarrow> Some (False, Buf, 0)
                  | Some d \<Rightarrow>
                      if length d \<le> length Buf
                      then if length d < 2 ^ 32 then Some (True, overwrite Buf 0 d, of_nat (length d)) else Some (False, overwrite Buf 0 d, 0)
                      else None))
          })
     }"

definition PlistBooleanValue :: "XML_DOCUMENT \<Rightarrow> XML_NODE option \<Rightarrow> bool option option" where
  "PlistBooleanValue Document Node =
     do {
       T \<leftarrow> PlistNodeCast Document Node PLIST_NODE_TYPE_TRUE;
       if T \<noteq> None then Some (Some True)
       else do {
         F \<leftarrow> PlistNodeCast Document Node PLIST_NODE_TYPE_FALSE;
         Some (if F \<noteq> None then Some False else None)
       }
     }"

definition hex_digit :: "byte \<Rightarrow> int option" where
  "hex_digit c =
     (if 0x30 \<le> c \<and> c \<le> 0x39 then Some (uint c - 0x30)
      else if 0x41 \<le> c \<and> c \<le> 0x46 then Some (uint c - 0x41 + 10)
      else if 0x61 \<le> c \<and> c \<le> 0x66 then Some (uint c - 0x61 + 10)
      else None)"

text \<open>\<open>AsciiStrHexToUint64\<close> of the base library.\<close>

definition AsciiStrHexToUint64 :: "byte list \<Rightarrow> u64" where
  "AsciiStrHexToUint64 String =
     (let s = dropWhile (\<lambda>c. c = 0x20 \<or> c = 0x09) String;
          r = dropWhile (\<lambda>c. c = 0x30) s;
          prefixed = (r \<noteq> [] \<and> (hd r = 0x78 \<or> hd r = 0x58))
      in if prefixed \<and> length r = length s then 0
         else
           (let v = foldl (\<lambda>a d. 16 * a + the (hex_digit d)) 0 (takeWhile (\<lambda>c. hex_digit c \<noteq> None) (if prefixed then tl r else r))
            in if v < 2 ^ 64 then word_of_int v else - 1))"

text \<open>The value that \<open>PlistIntegerValue\<close> stores in \<open>Size\<close> bytes.\<close>

definition PlistIntegerValue :: "XML_DOCUMENT \<Rightarrow> XML_NODE option \<Rightarrow> nat \<Rightarrow> bool \<Rightarrow> u64 option option" where
  "PlistIntegerValue Document Node Size Hex =
     do {
       N \<leftarrow> PlistNodeCast Document Node PLIST_NODE_TYPE_INTEGER;
       (case N of
          None \<Rightarrow> Some None
        | Some N \<Rightarrow> do {
            c \<leftarrow> content_string Document N;
            s \<leftarrow> c;
            let TempStr = dropWhile (\<lambda>c. c = 0x20 \<or> c = 0x09) s;
            let Negate = (TempStr \<noteq> [] \<and> hd TempStr = ch_dash);
            let TempStr = (if Negate then tl TempStr else TempStr);
            c0 \<leftarrow> rd (TempStr @ [0]) 0;
            Hex \<leftarrow> (if Hex \<and> c0 \<noteq> 0x30 then do { c1 \<leftarrow> rd (TempStr @ [0]) 1; Some (c1 = 0x78) } else Some Hex);
            let Temp = (if Hex then AsciiStrHexToUint64 TempStr else AsciiStrDecimalToUint64 TempStr);
            let Temp = (if Negate then 0 - Temp else Temp);
            Some (if Size = 8 then Some Temp else if Size = 4 then Some (Temp AND 0xFFFFFFFF)
                  else if Size = 2 then Some (Temp AND 0xFFFF) else if Size = 1 then Some (Temp AND 0xFF) else None)
          })
     }"

definition PlistStringSize :: "XML_DOCUMENT \<Rightarrow> XML_NODE option \<Rightarrow> u32 option option" where
  "PlistStringSize Document Node =
     do {
       N \<leftarrow> PlistNodeCast Document Node PLIST_NODE_TYPE_STRING;
       (case N of
          None \<Rightarrow> Some None
        | Some N \<Rightarrow> map_option (\<lambda>c. Some (case c of Some s \<Rightarrow> of_nat (length s + 1) | None \<Rightarrow> 0)) (content_string Document N))
     }"

definition PlistDataSize :: "XML_DOCUMENT \<Rightarrow> XML_NODE option \<Rightarrow> u32 option option" where
  "PlistDataSize Document Node =
     do {
       N \<leftarrow> PlistNodeCast Document Node PLIST_NODE_TYPE_DATA;
       (case N of
          None \<Rightarrow> Some None
        | Some N \<Rightarrow> map_option (\<lambda>c. Some (case c of Some s \<Rightarrow> of_nat (length s) | None \<Rightarrow> 0)) (content_string Document N))
     }"

definition PlistMultiDataValue ::
  "(byte list \<Rightarrow> nat \<Rightarrow> byte list option) \<Rightarrow> XML_DOCUMENT \<Rightarrow> XML_NODE option \<Rightarrow> byte list \<Rightarrow> u32 \<Rightarrow> (bool \<times> byte list \<times> u32) option" where
  "PlistMultiDataValue Base64Decode Document Node Buf Size =
     do {
       D \<leftarrow> PlistNodeCast Document Node PLIST_NODE_TYPE_DATA;
       S \<leftarrow> PlistNodeCast Document Node PLIST_NODE_TYPE_STRING;
       I \<leftarrow> PlistNodeCast Document Node PLIST_NODE_TYPE_INTEGER;
       T \<leftarrow> PlistNodeCast Document Node PLIST_NODE_TYPE_TRUE;
       F \<leftarrow> PlistNodeCast Document Node PLIST_NODE_TYPE_FALSE;
       (case (D, S, I, T, F) of
          (Some N, _) \<Rightarrow> do {
            c \<leftarrow> content_string Document N;
            (case c of
               None \<Rightarrow> Some (True, Buf, 0)
             | Some s \<Rightarrow>
                 (case Base64Decode s (unat Size) of
                    None \<Rightarrow> Some (False, Buf, Size)
                  | Some d \<Rightarrow>
                      if length d \<le> length Buf
                      then if length d < 2 ^ 32 then Some (True, overwrite Buf 0 d, of_nat (length d)) else Some (False, overwrite Buf 0 d, Size)
                      else None))
          }
        | (None, Some N, _) \<Rightarrow> PlistStringValue Document Node Buf Size
        | (None, None, Some N, _) \<Rightarrow> do {
            c \<leftarrow> content_string Document N;
            s \<leftarrow> c;
            let v = AsciiStrDecimalToUint64 s;
            if 4 \<le> length Buf
            then Some (True, overwrite Buf 0 (map (\<lambda>i. ucast (drop_bit (8 * i) v)) [0..<4]), 4)
            else None
          }
        | (None, None, None, Some N, _) \<Rightarrow> map_option (\<lambda>Buf. (True, Buf, 1)) (wr Buf 0 1)
        | (None, None, None, None, Some N) \<Rightarrow> map_option (\<lambda>Buf. (True, Buf, 1)) (wr Buf 0 0)
        | _ \<Rightarrow> Some (False, Buf, Size))
     }"

definition PlistMultiDataSize :: "XML_DOCUMENT \<Rightarrow> XML_NODE option \<Rightarrow> u32 option option" where
  "PlistMultiDataSize Document Node =
     do {
       D \<leftarrow> PlistNodeCast Document Node PLIST_NODE_TYPE_DATA;
       S \<leftarrow> PlistNodeCast Document Node PLIST_NODE_TYPE_STRING;
       I \<leftarrow> PlistNodeCast Document Node PLIST_NODE_TYPE_INTEGER;
       T \<leftarrow> PlistNodeCast Document Node PLIST_NODE_TYPE_TRUE;
       F \<leftarrow> PlistNodeCast Document Node PLIST_NODE_TYPE_FALSE;
       (if D \<noteq> None then PlistDataSize Document Node
        else if S \<noteq> None then PlistStringSize Document Node
        else Some (if I \<noteq> None then Some 4 else if T \<noteq> None \<or> F \<noteq> None then Some 1 else None))
     }"

subsection \<open>Lists of children\<close>

lemma XmlNodeRemoveByIndex_children:
  assumes "Children n = Some (l, k)" "i < length l"
  shows "XmlNodeRemoveByIndex n i = Some (with_children n (take i l @ drop (Suc i) l))"
proof -
  have "length l = Suc (i + length (drop (i + 1) l))" using assms(2) by simp
  then show ?thesis
    using assms by (simp add: XmlNodeRemoveByIndex_def overwrite_def)
qed

lemma XmlNodePrepend_children:
  assumes "XmlNodeAppend (Some a) ok n nm (Some at) (Some ct) = (Some m, n')" "Children n' = Some (l @ [m], k)"
  shows "XmlNodePrepend (Some a) ok n nm at ct = Some (Some m, with_children n' (m # l))"
  using assms by (cases l) (simp_all add: XmlNodePrepend_def overwrite_def)

lemma XmlEasyChild_single:
  assumes "Children n = Some ([c], k)" "XmlNodeName D c = Some nm"
  shows "XmlEasyChild D n [nm'] = Some (if nm = nm' then None else Some c)"
  using assms by simp

subsection \<open>Values\<close>

lemma AsciiStrnCpyS_fits:
  "length s < m \<Longrightarrow> m \<le> length B \<Longrightarrow> AsciiStrnCpyS B m s (length s) = Some (overwrite B 0 (s @ [0]))"
  "m \<le> length s \<Longrightarrow> AsciiStrnCpyS B m s (length s) = Some B"
  by (simp_all add: AsciiStrnCpyS_def Let_def)

text \<open>A string node of the document with the text \<open>s\<close>.\<close>

lemma PlistStringValue_spec:
  assumes "PlistNodeCast D N PLIST_NODE_TYPE_STRING = Some (Some n)" "content_string D n = Some (Some s)" "unat Size \<le> length Val"
  shows "PlistStringValue D N Val Size =
    (if length s < unat Size then Some (True, overwrite Val 0 (s @ [0]), of_nat (length s + 1)) else Some (True, Val, Size))"
proof (cases "length s < unat Size")
  case True
  then have "unat (of_nat (length s + 1) :: u32) = length s + 1"
    using unat_less_2pow[of Size] by (simp only: unat_of_nat) simp
  then have "AsciiStrnCpyS Val (unat (of_nat (length s + 1) :: u32)) s (length s) = Some (overwrite Val 0 (s @ [0]))"
    using AsciiStrnCpyS_fits(1)[of s "length s + 1" Val] True assms(3) by simp
  then show ?thesis using assms(1,2) True by (simp add: PlistStringValue_def Let_def)
next
  case False
  then have "AsciiStrnCpyS Val (unat Size) s (length s) = Some Val" using AsciiStrnCpyS_fits(2)[of "unat Size" s Val] by simp
  then show ?thesis using assms(1,2) False by (simp add: PlistStringValue_def Let_def)
qed

text \<open>
  \<open>XmlUnescapeString\<close> stays inside the block of the size of its argument that it allocates, and it undoes the escaping of
  the five special characters.
\<close>

theorem XmlUnescapeString_correct:
  assumes "\<forall>n b. Alloc n = Some b \<longrightarrow> length b = n"
  shows "XmlUnescapeString Alloc s \<noteq> None \<and>
    (Alloc (length (escape_string s) + 1) \<noteq> None \<longrightarrow>
      (\<exists>b. XmlUnescapeString Alloc (escape_string s) = Some (Some b) \<and> take (length s + 1) b = s @ [0]))"
proof (intro conjI impI)
  show "XmlUnescapeString Alloc s \<noteq> None"
    using assms unescape_loop_length[of s "[]"] by (auto simp: XmlUnescapeString_def Let_def split: option.splits)
next
  assume "Alloc (length (escape_string s) + 1) \<noteq> None"
  moreover have "length s \<le> length (escape_string s)"
    using unescape_loop_length[of "escape_string s" "[]"] unescape_escape[of s "[]"] by simp
  ultimately show "\<exists>b. XmlUnescapeString Alloc (escape_string s) = Some (Some b) \<and> take (length s + 1) b = s @ [0]"
    using assms by (auto simp: XmlUnescapeString_def unescape_escape overwrite_def)
qed

theorem XmlUnescapeString_correct_witness:
  "\<exists>b. XmlUnescapeString (\<lambda>n. Some (replicate n 0)) (escape_string (ascii ''a<b'')) = Some (Some b) \<and> take 4 b = ascii ''a<b'' @ [0]"
  using XmlUnescapeString_correct[of "\<lambda>n. Some (replicate n 0)" "ascii ''a<b''"] by (simp add: ascii_def eval_nat_numeral)

text \<open>
  A string node is copied with its terminator when it fits the caller's buffer, and \<open>*Size\<close> becomes its size; when it does not fit, \<open>PlistStringValue\<close> still
  reports success, with the buffer and \<open>*Size\<close> as they were.
\<close>

theorem PlistStringValue_correct:
  assumes "PlistNodeCast D N PLIST_NODE_TYPE_STRING = Some (Some n)" "content_string D n = Some (Some s)" "unat Size \<le> length Val"
  shows "PlistStringValue D N Val Size =
    (if length s < unat Size then Some (True, overwrite Val 0 (s @ [0]), of_nat (length s + 1)) else Some (True, Val, Size))"
  using assms by (rule PlistStringValue_spec)

theorem PlistStringValue_correct_witness:
  "\<exists>D n. PlistNodeCast D (Some n) PLIST_NODE_TYPE_STRING = Some (Some n) \<and>
     PlistStringValue D (Some n) [9, 9, 9, 9] 3 = Some (True, [0x78, 0, 9, 9], 2) \<and> PlistStringValue D (Some n) [9] 1 = Some (True, [9], 1)"
proof -
  let ?n = "XML_NODE 0 0 None (Some 7) None None"
  let ?D = "\<lparr>DocBuffer = ascii ''string'' @ [0, 0x78, 0], Root = ?n, References = \<lparr>RefCount = 0, RefList = []\<rparr>\<rparr>"
  have 1: "PlistNodeCast ?D (Some ?n) PLIST_NODE_TYPE_STRING = Some (Some ?n)" by code_simp
  have 2: "content_string ?D ?n = Some (Some [0x78])" by code_simp
  show ?thesis
    using 1 PlistStringValue_correct[OF 1 2, of 3 "[9, 9, 9, 9]"] PlistStringValue_correct[OF 1 2, of 1 "[9]"]
    by (intro exI[of _ ?D] exI[of _ ?n]) (simp add: overwrite_def)
qed

end
