(* ===== verification/Oc_DiskImage.thy ===== *)
theory Oc_DiskImage
  imports Oc_Chunklist Oc_Plist
begin

text \<open>
  Model of \<^verbatim>\<open>Library/OcAppleDiskImageLib\<close>: the block tables of an Apple disk image, that its property list holds in base 64, and the
  reads of its sectors from the RAM disk. It composes the property list and the RAM disk components. The blocks are the
  allocations with their packed structures, in native byte order once they are swapped. \<open>None\<close> is an access outside an allocation. \<open>Base64Decode\<close> and
  \<open>DecompressZLIB\<close> are arguments, as is the pool: \<open>AllocOk k n\<close> tells whether the \<open>k\<close>-th allocation succeeds, of \<open>n\<close> bytes.
\<close>

section \<open>Packed structures\<close>

definition get :: "byte list \<Rightarrow> nat \<Rightarrow> nat \<Rightarrow> 'a::len word option" where
  "get B off n = (if off + n \<le> length B then Some (read_le B off n) else None)"

text \<open>\<open>SwapBytes32\<close> and \<open>SwapBytes64\<close> of a field in place.\<close>

definition swap_field :: "nat \<times> nat \<Rightarrow> byte list \<Rightarrow> byte list option" where
  "swap_field = (\<lambda>(off, n) B. if off + n \<le> length B then Some (overwrite B off (rev (window B off n))) else None)"

primrec swap_fields :: "(nat \<times> nat) list \<Rightarrow> byte list \<Rightarrow> byte list option" where
  "swap_fields [] B = Some B"
| "swap_fields (f # fs) B = Option.bind (swap_field f B) (swap_fields fs)"

definition APPLE_DISK_IMAGE_SECTOR_SIZE :: u64 where "APPLE_DISK_IMAGE_SECTOR_SIZE = 512"
definition APPLE_DISK_IMAGE_MAGIC :: u32 where "APPLE_DISK_IMAGE_MAGIC = 0x6B6F6C79"

definition sizeof_block :: nat where "sizeof_block = 204"
definition sizeof_dmg_chunk :: nat where "sizeof_dmg_chunk = 40"
definition sizeof_trailer :: nat where "sizeof_trailer = 512"

record APPLE_DISK_IMAGE_CHUNK =
  ChunkType :: u32
  ChunkSectorNumber :: u64
  ChunkSectorCount :: u64
  CompressedOffset :: u64
  CompressedLength :: u64

record APPLE_DISK_IMAGE_BLOCK_DATA =
  BlockSectorNumber :: u64
  BlockSectorCount :: u64
  BlockDataOffset :: u64
  BlockChecksumSize :: u32
  BlockChunkCount :: u32

definition block_header :: "byte list \<Rightarrow> APPLE_DISK_IMAGE_BLOCK_DATA option" where
  "block_header B =
     do {
       a \<leftarrow> get B 8 8;
       b \<leftarrow> get B 16 8;
       c \<leftarrow> get B 24 8;
       d \<leftarrow> get B 68 4;
       e \<leftarrow> get B 200 4;
       Some \<lparr>BlockSectorNumber = a, BlockSectorCount = b, BlockDataOffset = c, BlockChecksumSize = d, BlockChunkCount = e\<rparr>
     }"

definition block_chunk :: "byte list \<Rightarrow> nat \<Rightarrow> APPLE_DISK_IMAGE_CHUNK option" where
  "block_chunk B i =
     (let off = sizeof_block + sizeof_dmg_chunk * i
      in do {
           a \<leftarrow> get B off 4;
           b \<leftarrow> get B (off + 8) 8;
           c \<leftarrow> get B (off + 16) 8;
           d \<leftarrow> get B (off + 24) 8;
           e \<leftarrow> get B (off + 32) 8;
           Some \<lparr>ChunkType = a, ChunkSectorNumber = b, ChunkSectorCount = c, CompressedOffset = d, CompressedLength = e\<rparr>
         })"

section \<open>Blk tables\<close>

definition BaseOverflowAddU64 :: "u64 \<Rightarrow> u64 \<Rightarrow> bool \<times> u64" where
  "BaseOverflowAddU64 a b = (2 ^ 64 \<le> uint a + uint b, a + b)"

definition BaseOverflowMulU64 :: "u64 \<Rightarrow> u64 \<Rightarrow> bool \<times> u64" where
  "BaseOverflowMulU64 a b = (2 ^ 64 \<le> uint a * uint b, a * b)"

definition BaseOverflowMulU32 :: "u32 \<Rightarrow> u32 \<Rightarrow> bool \<times> u32" where
  "BaseOverflowMulU32 a b = (2 ^ 32 \<le> uint a * uint b, a * b)"

text \<open>The loop over the chunks: \<open>n\<close> chunks are left, from \<open>Index\<close> on.\<close>

primrec SwapBlockData_loop :: "nat \<Rightarrow> nat \<Rightarrow> u64 \<Rightarrow> u64 \<Rightarrow> byte list \<Rightarrow> (bool \<times> byte list) option" where
  "SwapBlockData_loop 0 Index BlockSectorTop MaxOffset B = Some (True, B)"
| "SwapBlockData_loop (Suc n) Index BlockSectorTop MaxOffset B =
     (let off = sizeof_block + sizeof_dmg_chunk * Index
      in do {
           B \<leftarrow> swap_fields [(off, 4), (off + 4, 4), (off + 8, 8), (off + 16, 8), (off + 24, 8), (off + 32, 8)] B;
           Chunk \<leftarrow> block_chunk B Index;
           (case BaseOverflowAddU64 (ChunkSectorNumber Chunk) (ChunkSectorCount Chunk) of
              (Result, ChunkSectorTop) \<Rightarrow>
                if Result \<or> ChunkSectorTop > BlockSectorTop then Some (False, B)
                else
                  (case BaseOverflowAddU64 (CompressedOffset Chunk) (CompressedLength Chunk) of
                     (Result, OffsetTop) \<Rightarrow>
                       if Result \<or> OffsetTop > MaxOffset then Some (False, B)
                       else SwapBlockData_loop n (Index + 1) BlockSectorTop MaxOffset B))
         })"

definition InternalSwapBlockData :: "byte list \<Rightarrow> u32 \<Rightarrow> u64 \<Rightarrow> u64 \<Rightarrow> u64 \<Rightarrow> (bool \<times> byte list) option" where
  "InternalSwapBlockData B MaxSize SectorCount DataForkOffset DataForkSize =
     do {
       B \<leftarrow> swap_field (200, 4) B;
       ChunkCount \<leftarrow> get B 200 4;
       (case BaseOverflowMulU32 ChunkCount 40 of
          (Result, ChunksSize) \<Rightarrow>
            if Result \<or> ucast ChunksSize > (ucast MaxSize - 204 :: u64) then Some (False, B)
            else do {
              let MaxOffset = DataForkOffset + DataForkSize;
              B \<leftarrow> swap_fields [(4, 4), (8, 8), (16, 8), (24, 8), (32, 4), (36, 4), (64, 4), (68, 4)] B;
              Blk \<leftarrow> block_header B;
              if BlockDataOffset Blk > DataForkOffset \<or> BlockChecksumSize Blk > 1024 \<or> BlockDataOffset Blk > MaxOffset
              then Some (False, B)
              else
                (case BaseOverflowAddU64 (BlockSectorNumber Blk) (BlockSectorCount Blk) of
                   (Result, BlockSectorTop) \<Rightarrow>
                     if Result \<or> BlockSectorTop > SectorCount then Some (False, B)
                     else do {
                       B \<leftarrow> swap_fields (map (\<lambda>i. (72 + 4 * i, 4)) [0..<32]) B;
                       SwapBlockData_loop (unat ChunkCount) 0 BlockSectorTop MaxOffset B
                     })
            })
     }"

subsection \<open>The property list\<close>

text \<open>The first pair of the dictionary with the given key; the loop ends at a key that is not one.\<close>

primrec FindPlistDictChild_loop :: "nat \<Rightarrow> nat \<Rightarrow> XML_DOCUMENT \<Rightarrow> XML_NODE \<Rightarrow> byte list \<Rightarrow> (XML_NODE \<times> XML_NODE) option option" where
  "FindPlistDictChild_loop 0 Index D Node KeyName = Some None"
| "FindPlistDictChild_loop (Suc n) Index D Node KeyName =
     do {
       (ChildKey, ChildValue) \<leftarrow> PlistDictChild Node Index;
       ChildKeyName \<leftarrow> PlistKeyValue D (Some ChildKey);
       (case ChildKeyName of
          None \<Rightarrow> Some None
        | Some k \<Rightarrow> if k = KeyName then Some (Some (ChildKey, ChildValue)) else FindPlistDictChild_loop n (Index + 1) D Node KeyName)
     }"

definition InternalFindPlistDictChild :: "XML_DOCUMENT \<Rightarrow> XML_NODE \<Rightarrow> byte list \<Rightarrow> (XML_NODE \<times> XML_NODE) option option" where
  "InternalFindPlistDictChild D Node KeyName = FindPlistDictChild_loop (PlistDictChildren Node) 0 D Node KeyName"

text \<open>
  The body of the loop over the block dictionaries: \<open>Inl ()\<close> is \<open>DONE_ERROR\<close>. \<open>Fresh n\<close> is what an allocation of \<open>n\<close> bytes contains.
\<close>

definition ParsePlist_block ::
  "(byte list \<Rightarrow> nat \<Rightarrow> byte list option) \<Rightarrow> (nat \<Rightarrow> byte list option) \<Rightarrow> XML_DOCUMENT \<Rightarrow> XML_NODE \<Rightarrow> u64 \<Rightarrow> u64 \<Rightarrow> u64 \<Rightarrow>
   (unit + byte list) option" where
  "ParsePlist_block Base64Decode Fresh D NodeBlockDict SectorCount DataForkOffset DataForkSize =
     do {
       r \<leftarrow> InternalFindPlistDictChild D NodeBlockDict (ascii ''Data'');
       (case r of
          None \<Rightarrow> Some (Inl ())
        | Some (_, BlockDictChildValue) \<Rightarrow> do {
            s \<leftarrow> PlistDataSize D (Some BlockDictChildValue);
            (case s of
               None \<Rightarrow> Some (Inl ())
             | Some BlockDictChildDataSize \<Rightarrow>
                 if BlockDictChildDataSize < of_nat sizeof_block then Some (Inl ())
                 else
                   (case Fresh (unat BlockDictChildDataSize) of
                      None \<Rightarrow> Some (Inl ())
                    | Some Blk \<Rightarrow> do {
                        (Result, Blk, BlockDictChildDataSize) \<leftarrow> PlistDataValue Base64Decode D (Some BlockDictChildValue) Blk BlockDictChildDataSize;
                        if \<not> Result then Some (Inl ())
                        else do {
                          (Result, Blk) \<leftarrow> InternalSwapBlockData Blk BlockDictChildDataSize SectorCount DataForkOffset DataForkSize;
                          Some (if Result then Inr Blk else Inl ())
                        }
                      }))
          })
     }"

primrec ParsePlist_loop ::
  "(byte list \<Rightarrow> nat \<Rightarrow> byte list option) \<Rightarrow> (nat \<Rightarrow> byte list option) \<Rightarrow> XML_DOCUMENT \<Rightarrow> u64 \<Rightarrow> u64 \<Rightarrow> u64 \<Rightarrow> XML_NODE list \<Rightarrow>
   byte list list \<Rightarrow> byte list list option option" where
  "ParsePlist_loop Base64Decode Fresh D SectorCount DataForkOffset DataForkSize [] Blocks = Some (Some Blocks)"
| "ParsePlist_loop Base64Decode Fresh D SectorCount DataForkOffset DataForkSize (NodeBlockDict # l) Blocks =
     do {
       r \<leftarrow> ParsePlist_block Base64Decode Fresh D NodeBlockDict SectorCount DataForkOffset DataForkSize;
       (case r of
          Inl _ \<Rightarrow> Some None
        | Inr Blk \<Rightarrow> ParsePlist_loop Base64Decode Fresh D SectorCount DataForkOffset DataForkSize l (Blocks @ [Blk]))
     }"

definition InternalParsePlist ::
  "(byte list \<Rightarrow> nat \<Rightarrow> byte list option) \<Rightarrow> (nat \<Rightarrow> byte list option) \<Rightarrow> (nat \<Rightarrow> bool) \<Rightarrow> byte list \<Rightarrow> u64 \<Rightarrow> u64 \<Rightarrow> u64 \<Rightarrow>
   byte list list option option" where
  "InternalParsePlist Base64Decode Fresh AllocOk Plist SectorCount DataForkOffset DataForkSize =
     do {
       (XmlPlistDoc, _) \<leftarrow> XmlDocumentParse AllocOk Plist False;
       (case XmlPlistDoc of
          None \<Rightarrow> Some None
        | Some D \<Rightarrow> do {
            NodeRoot \<leftarrow> PlistDocumentRoot D;
            (case NodeRoot of
               None \<Rightarrow> Some None
             | Some NodeRoot \<Rightarrow> do {
                 r \<leftarrow> InternalFindPlistDictChild D NodeRoot (ascii ''resource-fork'');
                 (case r of
                    None \<Rightarrow> Some None
                  | Some (_, NodeResourceForkValue) \<Rightarrow> do {
                      r \<leftarrow> InternalFindPlistDictChild D NodeResourceForkValue (ascii ''blkx'');
                      (case r of
                         None \<Rightarrow> Some None
                       | Some (_, NodeBlockListValue) \<Rightarrow>
                           (let NumDmgBlocks = XmlNodeChildren NodeBlockListValue
                            in if NumDmgBlocks = 0 then Some None
                               else if fst (BaseOverflowMulU32 (of_nat NumDmgBlocks) 8) then Some None
                               else if Fresh (NumDmgBlocks * 8) = None then Some None
                               else ParsePlist_loop Base64Decode Fresh D SectorCount DataForkOffset DataForkSize
                                      (case Children NodeBlockListValue of Some (l, k) \<Rightarrow> l | None \<Rightarrow> []) []))
                    })
               })
          })
     }"

section \<open>The context\<close>

record OC_APPLE_DISK_IMAGE_CONTEXT =
  ImageTable :: APPLE_RAM_DISK_EXTENT_TABLE
  SectorCount :: u64
  ImageBlocks :: "byte list list"

text \<open>The fields of the trailer that the code uses, in its big-endian byte order.\<close>

definition read_be :: "byte list \<Rightarrow> nat \<Rightarrow> nat \<Rightarrow> 'a::len word" where
  "read_be B off n = of_nat (bn_val (rev (window B off n)))"

definition OcAppleDiskImageInitializeContext ::
  "(byte list \<Rightarrow> nat \<Rightarrow> byte list option) \<Rightarrow> (nat \<Rightarrow> byte list option) \<Rightarrow> (nat \<Rightarrow> bool) \<Rightarrow> mem \<Rightarrow> APPLE_RAM_DISK_EXTENT_TABLE \<Rightarrow> u64 \<Rightarrow>
   OC_APPLE_DISK_IMAGE_CONTEXT option option" where
  "OcAppleDiskImageInitializeContext Base64Decode Fresh AllocOk m ExtentTable FileSize =
     (if FileSize \<le> of_nat sizeof_trailer then Some None
      else
        (let TrailerOffset = FileSize - of_nat sizeof_trailer;
             (Result, Trailer) = OcAppleRamDiskRead m ExtentTable TrailerOffset (of_nat sizeof_trailer)
         in if \<not> Result \<or> (read_be Trailer 0 4 :: u32) \<noteq> APPLE_DISK_IMAGE_MAGIC then Some None
            else
              (let HeaderSize = read_be Trailer 8 4 :: u32;
                   DataForkOffset = read_be Trailer 24 8 :: u64;
                   DataForkLength = read_be Trailer 32 8 :: u64;
                   SegmentCount = read_be Trailer 60 4 :: u32;
                   ChecksumSize = read_be Trailer 84 4 :: u32;
                   XmlOffset = read_be Trailer 216 8 :: u64;
                   XmlLength = read_be Trailer 224 8 :: u64;
                   Sectors = read_be Trailer 492 8 :: u64
               in if HeaderSize \<noteq> of_nat sizeof_trailer \<or> XmlLength = 0 \<or> XmlLength > 0xFFFFFFFF \<or> ChecksumSize > 1024 \<or> Sectors = 0
                  then Some None
                  else if SegmentCount \<noteq> 0 \<and> SegmentCount \<noteq> 1 then Some None
                  else if fst (BaseOverflowMulU64 Sectors APPLE_DISK_IMAGE_SECTOR_SIZE) then Some None
                  else if fst (BaseOverflowAddU64 XmlOffset XmlLength) \<or> XmlOffset + XmlLength > TrailerOffset then Some None
                  else if fst (BaseOverflowAddU64 DataForkOffset DataForkLength) \<or> DataForkOffset + DataForkLength > TrailerOffset then Some None
                  else if Fresh (unat XmlLength) = None then Some None
                  else
                    (case OcAppleRamDiskRead m ExtentTable XmlOffset XmlLength of
                       (Result, PlistData) \<Rightarrow>
                         if \<not> Result then Some None
                         else map_option (map_option (\<lambda>DmgBlocks. \<lparr>ImageTable = ExtentTable, SectorCount = Sectors, ImageBlocks = DmgBlocks\<rparr>))
                                (InternalParsePlist Base64Decode Fresh AllocOk PlistData Sectors DataForkOffset DataForkLength)))))"

section \<open>Reading sectors\<close>

definition DMG_SECTOR_START_ABS :: "APPLE_DISK_IMAGE_BLOCK_DATA \<Rightarrow> APPLE_DISK_IMAGE_CHUNK \<Rightarrow> u64" where
  "DMG_SECTOR_START_ABS b c = BlockSectorNumber b + ChunkSectorNumber c"

primrec GetBlockChunk_chunks ::
  "nat \<Rightarrow> nat \<Rightarrow> byte list \<Rightarrow> APPLE_DISK_IMAGE_BLOCK_DATA \<Rightarrow> u64 \<Rightarrow> (APPLE_DISK_IMAGE_BLOCK_DATA \<times> APPLE_DISK_IMAGE_CHUNK) option option" where
  "GetBlockChunk_chunks 0 ChunkIndex B BlockData Lba = Some None"
| "GetBlockChunk_chunks (Suc n) ChunkIndex B BlockData Lba =
     do {
       BlockChunk \<leftarrow> block_chunk B ChunkIndex;
       if Lba \<ge> DMG_SECTOR_START_ABS BlockData BlockChunk \<and> Lba < DMG_SECTOR_START_ABS BlockData BlockChunk + ChunkSectorCount BlockChunk
       then Some (Some (BlockData, BlockChunk))
       else GetBlockChunk_chunks n (ChunkIndex + 1) B BlockData Lba
     }"

primrec GetBlockChunk_blocks ::
  "byte list list \<Rightarrow> u64 \<Rightarrow> (APPLE_DISK_IMAGE_BLOCK_DATA \<times> APPLE_DISK_IMAGE_CHUNK) option option" where
  "GetBlockChunk_blocks [] Lba = Some None"
| "GetBlockChunk_blocks (B # Bs) Lba =
     do {
       BlockData \<leftarrow> block_header B;
       r \<leftarrow> (if Lba \<ge> BlockSectorNumber BlockData \<and> Lba < BlockSectorNumber BlockData + BlockSectorCount BlockData
            then GetBlockChunk_chunks (unat (BlockChunkCount BlockData)) 0 B BlockData Lba else Some None);
       (case r of Some x \<Rightarrow> Some (Some x) | None \<Rightarrow> GetBlockChunk_blocks Bs Lba)
     }"

definition InternalGetBlockChunk ::
  "OC_APPLE_DISK_IMAGE_CONTEXT \<Rightarrow> u64 \<Rightarrow> (APPLE_DISK_IMAGE_BLOCK_DATA \<times> APPLE_DISK_IMAGE_CHUNK) option option" where
  "InternalGetBlockChunk Context Lba = GetBlockChunk_blocks (ImageBlocks Context) Lba"

definition APPLE_DISK_IMAGE_CHUNK_TYPE_ZERO :: u32 where "APPLE_DISK_IMAGE_CHUNK_TYPE_ZERO = 0"
definition APPLE_DISK_IMAGE_CHUNK_TYPE_RAW :: u32 where "APPLE_DISK_IMAGE_CHUNK_TYPE_RAW = 1"
definition APPLE_DISK_IMAGE_CHUNK_TYPE_IGNORE :: u32 where "APPLE_DISK_IMAGE_CHUNK_TYPE_IGNORE = 2"
definition APPLE_DISK_IMAGE_CHUNK_TYPE_ZLIB :: u32 where "APPLE_DISK_IMAGE_CHUNK_TYPE_ZLIB = 0x80000005"

text \<open>
  The \<open>switch\<close> over the type of a chunk: the bytes for the caller, \<open>Inl ()\<close> for a failure. The compressed data is read behind the room for
  the decompressed data, in one allocation. \<open>DecompressZLIB\<close> gets the compressed data and the room.
\<close>

definition read_chunk ::
  "(byte list \<Rightarrow> nat \<Rightarrow> byte list) \<Rightarrow> (u64 \<Rightarrow> bool) \<Rightarrow> mem \<Rightarrow> APPLE_RAM_DISK_EXTENT_TABLE \<Rightarrow> APPLE_DISK_IMAGE_CHUNK \<Rightarrow> u64 \<Rightarrow> u64 \<Rightarrow> u64 \<Rightarrow>
   (unit + byte list) option" where
  "read_chunk DecompressZLIB Allocated m T Chunk Offset ChunkTotalLength BufferChunkSize =
     (if ChunkType Chunk = APPLE_DISK_IMAGE_CHUNK_TYPE_ZERO \<or> ChunkType Chunk = APPLE_DISK_IMAGE_CHUNK_TYPE_IGNORE
      then Some (Inr (replicate (unat BufferChunkSize) 0))
      else if ChunkType Chunk = APPLE_DISK_IMAGE_CHUNK_TYPE_RAW
      then (case OcAppleRamDiskRead m T (CompressedOffset Chunk + Offset) BufferChunkSize of
              (Result, Bytes) \<Rightarrow> Some (if Result then Inr Bytes else Inl ()))
      else if ChunkType Chunk = APPLE_DISK_IMAGE_CHUNK_TYPE_ZLIB
      then
        (let Size = ChunkTotalLength + CompressedLength Chunk
         in if \<not> Allocated Size then Some (Inl ())
            else
              (case OcAppleRamDiskRead m T (CompressedOffset Chunk) (CompressedLength Chunk) of
                 (Result, Compressed) \<Rightarrow>
                   if unat ChunkTotalLength + length Compressed \<le> unat Size
                   then if \<not> Result then Some (Inl ())
                        else
                          (let Bytes = DecompressZLIB Compressed (unat ChunkTotalLength)
                           in if length Bytes \<noteq> unat ChunkTotalLength then Some (Inl ())
                              else Some (Inr (window Bytes (unat Offset) (unat BufferChunkSize))))
                   else None))
      else Some (Inl ()))"

definition read_body ::
  "(byte list \<Rightarrow> nat \<Rightarrow> byte list) \<Rightarrow> (nat \<Rightarrow> u64 \<Rightarrow> bool) \<Rightarrow> mem \<Rightarrow> OC_APPLE_DISK_IMAGE_CONTEXT \<Rightarrow> nat \<times> u64 \<times> u64 \<times> byte list \<Rightarrow>
   (nat \<times> u64 \<times> u64 \<times> byte list, (bool \<times> byte list) option) ctl" where
  "read_body DecompressZLIB AllocOk m Context = (\<lambda>(k, LbaCurrent, RemainingBufferSize, Out).
     if RemainingBufferSize = 0 then Break (Some (True, Out))
     else
       (case InternalGetBlockChunk Context LbaCurrent of
          None \<Rightarrow> Break None
        | Some None \<Rightarrow> Break (Some (False, Out))
        | Some (Some (BlockData, Chunk)) \<Rightarrow>
            (let LbaOffset = LbaCurrent - DMG_SECTOR_START_ABS BlockData Chunk;
                 LbaLength = ChunkSectorCount Chunk - LbaOffset;
                 (Ov1, Offset) = BaseOverflowMulU64 LbaOffset APPLE_DISK_IMAGE_SECTOR_SIZE;
                 (Ov2, ChunkTotalLength) = BaseOverflowMulU64 (ChunkSectorCount Chunk) APPLE_DISK_IMAGE_SECTOR_SIZE
             in if Ov1 \<or> Ov2 then Break (Some (False, Out))
                else
                  (let BufferChunkSize = min RemainingBufferSize (ChunkTotalLength - Offset)
                   in case read_chunk DecompressZLIB (AllocOk k) m (ImageTable Context) Chunk Offset ChunkTotalLength BufferChunkSize of
                        None \<Rightarrow> Break None
                      | Some (Inl _) \<Rightarrow> Break (Some (False, Out))
                      | Some (Inr Bytes) \<Rightarrow> Continue (k + 1, LbaCurrent + LbaLength, RemainingBufferSize - BufferChunkSize, Out @ Bytes)))))"

text \<open>The result is whether the read succeeds, and the bytes of the chunks that were read.\<close>

definition OcAppleDiskImageRead ::
  "(byte list \<Rightarrow> nat \<Rightarrow> byte list) \<Rightarrow> (nat \<Rightarrow> u64 \<Rightarrow> bool) \<Rightarrow> mem \<Rightarrow> OC_APPLE_DISK_IMAGE_CONTEXT \<Rightarrow> u64 \<Rightarrow> u64 \<Rightarrow> (bool \<times> byte list) option" where
  "OcAppleDiskImageRead DecompressZLIB AllocOk m Context Lba BufferSize =
     Option.bind (iterate (read_body DecompressZLIB AllocOk m Context) (0, Lba, BufferSize, [])) id"

subsection \<open>Block I/O\<close>

datatype BLOCK_IO_STATUS = EFI_SUCCESS | EFI_INVALID_PARAMETER | EFI_BAD_BUFFER_SIZE | EFI_DEVICE_ERROR

definition DiskImageBlockIoReadBlocks ::
  "(byte list \<Rightarrow> nat \<Rightarrow> byte list) \<Rightarrow> (nat \<Rightarrow> u64 \<Rightarrow> bool) \<Rightarrow> mem \<Rightarrow> OC_APPLE_DISK_IMAGE_CONTEXT \<Rightarrow> u64 \<Rightarrow> u64 \<Rightarrow>
   (BLOCK_IO_STATUS \<times> byte list) option" where
  "DiskImageBlockIoReadBlocks DecompressZLIB AllocOk m Context Lba BufferSize =
     (if BufferSize mod APPLE_DISK_IMAGE_SECTOR_SIZE \<noteq> 0 then Some (EFI_BAD_BUFFER_SIZE, [])
      else if Lba \<ge> SectorCount Context then Some (EFI_INVALID_PARAMETER, [])
      else map_option (\<lambda>(Result, Out). (if Result then EFI_SUCCESS else EFI_DEVICE_ERROR, Out))
             (OcAppleDiskImageRead DecompressZLIB AllocOk m Context Lba BufferSize))"

section \<open>Swapping\<close>

definition disjoint_fields :: "nat \<times> nat \<Rightarrow> nat \<times> nat \<Rightarrow> bool" where
  "disjoint_fields = (\<lambda>(o1, n1) (o2, n2). o1 + n1 \<le> o2 \<or> o2 + n2 \<le> o1)"

lemma window_outside:
  assumes "length B' = length B" "\<And>i. i < length B \<Longrightarrow> i < lo \<or> hi \<le> i \<Longrightarrow> B' ! i = B ! i" "a + n \<le> lo \<or> hi \<le> a"
  shows "window B' a n = window B a n"
  using assms by (intro nth_equalityI) (auto simp: window_def)

lemma swap_field_spec:
  assumes "off + n \<le> length B"
  shows "\<exists>B'. swap_field (off, n) B = Some B' \<and> length B' = length B \<and> window B' off n = rev (window B off n)
     \<and> (\<forall>a k. disjoint_fields (off, n) (a, k) \<longrightarrow> window B' a k = window B a k)"
proof -
  let ?B = "overwrite B off (rev (window B off n))"
  have "swap_field (off, n) B = Some ?B" "length ?B = length B" "window ?B off n = rev (window B off n)"
    using assms by (simp_all add: swap_field_def)
  moreover have "window ?B a k = window B a k" if "disjoint_fields (off, n) (a, k)" for a k
    using that assms by (intro window_outside[where lo = off and hi = "off + n"]) (auto simp: nth_overwrite disjoint_fields_def)
  ultimately show ?thesis by blast
qed

lemma swap_fields_spec:
  assumes "\<forall>(a, k) \<in> set fs. a + k \<le> length B" "sorted_wrt disjoint_fields fs"
  shows "\<exists>B'. swap_fields fs B = Some B' \<and> length B' = length B \<and> (\<forall>a k. (a, k) \<in> set fs \<longrightarrow> window B' a k = rev (window B a k))
     \<and> (\<forall>a k. (\<forall>f \<in> set fs. disjoint_fields f (a, k)) \<longrightarrow> window B' a k = window B a k)"
  using assms
proof (induction fs arbitrary: B)
  case (Cons f fs)
  obtain a k where f: "f = (a, k)" by (cases f)
  obtain B1 where 1: "swap_field (a, k) B = Some B1" "length B1 = length B" "window B1 a k = rev (window B a k)"
    "\<And>a' k'. disjoint_fields (a, k) (a', k') \<Longrightarrow> window B1 a' k' = window B a' k'"
    using swap_field_spec[of a k B] Cons.prems(1) f by auto
  obtain B2 where 2: "swap_fields fs B1 = Some B2" "length B2 = length B1" "\<And>a' k'. (a', k') \<in> set fs \<Longrightarrow> window B2 a' k' = rev (window B1 a' k')"
    "\<And>a' k'. (\<forall>f \<in> set fs. disjoint_fields f (a', k')) \<Longrightarrow> window B2 a' k' = window B1 a' k'"
    using Cons.IH[of B1] Cons.prems 1(2) by auto
  have "window B2 a k = rev (window B a k)"
    using 2(4)[of a k] 1(3) Cons.prems(2) f by (auto simp: disjoint_fields_def)
  moreover have "window B2 a' k' = rev (window B a' k')" if "(a', k') \<in> set fs" for a' k'
    using 2(3)[OF that] 1(4)[of a' k'] that Cons.prems(2) f by auto
  moreover have "window B2 a' k' = window B a' k'" if "\<forall>f \<in> set (f # fs). disjoint_fields f (a', k')" for a' k'
    using 2(4)[of a' k'] 1(4)[of a' k'] that f by simp
  ultimately show ?case using 1(1,2) 2(1,2) f by auto
qed simp

lemma read_swapped: "window B' off n = rev (window B off n) \<Longrightarrow> read_le B' off n = read_be B off n"
  by (simp add: read_le_def read_be_def)

lemma read_same: "window B' off n = window B off n \<Longrightarrow> read_le B' off n = read_le B off n" "window B' off n = window B off n \<Longrightarrow> read_be B' off n = read_be B off n"
  by (simp_all add: read_le_def read_be_def)

text \<open>The structures as they stand in the file, big-endian.\<close>

definition file_header :: "byte list \<Rightarrow> APPLE_DISK_IMAGE_BLOCK_DATA" where
  "file_header B = \<lparr>BlockSectorNumber = read_be B 8 8, BlockSectorCount = read_be B 16 8, BlockDataOffset = read_be B 24 8,
     BlockChecksumSize = read_be B 68 4, BlockChunkCount = read_be B 200 4\<rparr>"

definition file_chunk :: "byte list \<Rightarrow> nat \<Rightarrow> APPLE_DISK_IMAGE_CHUNK" where
  "file_chunk B i = (let off = sizeof_block + sizeof_dmg_chunk * i in
     \<lparr>ChunkType = read_be B off 4, ChunkSectorNumber = read_be B (off + 8) 8, ChunkSectorCount = read_be B (off + 16) 8,
      CompressedOffset = read_be B (off + 24) 8, CompressedLength = read_be B (off + 32) 8\<rparr>)"

text \<open>
  The test of a chunk, as the code makes it: the end of the chunk, which counts from the start of its block, is compared with \<open>S\<close>, the end of the block,
  which counts from the start of the image. So a chunk that passes need not be inside its block, nor inside the image. \<open>M\<close> is the end of the data fork.
\<close>

definition chunk_ok :: "nat \<Rightarrow> nat \<Rightarrow> APPLE_DISK_IMAGE_CHUNK \<Rightarrow> bool" where
  "chunk_ok S M c \<longleftrightarrow> unat (ChunkSectorNumber c) + unat (ChunkSectorCount c) \<le> S \<and> unat (CompressedOffset c) + unat (CompressedLength c) \<le> M"

lemma pow64_int: "(2 :: int) ^ 64 \<le> int n \<longleftrightarrow> 2 ^ 64 \<le> n"
  by simp

lemma BaseOverflowAddU64_unat: "\<not> fst (BaseOverflowAddU64 a b) \<longleftrightarrow> unat a + unat b < 2 ^ 64"
proof -
  have "uint a + uint b = int (unat a + unat b)" by simp
  then show ?thesis unfolding BaseOverflowAddU64_def fst_conv by (simp only: pow64_int not_le)
qed

lemma BaseOverflowMulU64_unat: "\<not> fst (BaseOverflowMulU64 a b) \<longleftrightarrow> unat a * unat b < 2 ^ 64"
proof -
  have "uint a * uint b = int (unat a * unat b)" by simp
  then show ?thesis unfolding BaseOverflowMulU64_def fst_conv by (simp only: pow64_int not_le)
qed

lemma add_checked:
  "(case BaseOverflowAddU64 a b of (Result, s) \<Rightarrow> if Result \<or> s > c then x else y s) = (if unat a + unat b \<le> unat c then y (a + b) else x)"
proof (cases "unat a + unat b < 2 ^ 64")
  case True
  then have "unat (a + b) = unat a + unat b" using unat_plus_no_wrap[of a b] by simp
  then show ?thesis using True BaseOverflowAddU64_unat[of a b] by (auto simp: BaseOverflowAddU64_def word_less_nat_alt)
next
  case False
  then show ?thesis using BaseOverflowAddU64_unat[of a b] unat_less_2pow[of c] by (auto simp: BaseOverflowAddU64_def)
qed

lemma chunk_windows:
  assumes "length B' = length B"
    "\<And>a k. sizeof_block + sizeof_dmg_chunk * i \<le> a \<Longrightarrow> a + k \<le> sizeof_block + sizeof_dmg_chunk * Suc i \<Longrightarrow> window B' a k = window B a k"
  shows "file_chunk B' i = file_chunk B i" "block_chunk B' i = block_chunk B i"
proof -
  define off where "off = sizeof_block + sizeof_dmg_chunk * i"
  have w: "window B' (off + j) k = window B (off + j) k" if "j + k \<le> 40" for j k
    using assms(2)[of "off + j" k] that by (simp add: off_def sizeof_dmg_chunk_def)
  show "file_chunk B' i = file_chunk B i" "block_chunk B' i = block_chunk B i"
    using w[of 0 4] w[of 8 8] w[of 16 8] w[of 24 8] w[of 32 8] assms(1)
    by (simp_all add: file_chunk_def block_chunk_def get_def off_def[symmetric] read_le_def read_be_def)
qed

lemma swap_chunk:
  assumes "sizeof_block + sizeof_dmg_chunk * Suc i \<le> length B" "off = sizeof_block + sizeof_dmg_chunk * i"
  shows "\<exists>B'. swap_fields [(off, 4), (off + 4, 4), (off + 8, 8), (off + 16, 8), (off + 24, 8), (off + 32, 8)] B = Some B' \<and> length B' = length B
     \<and> (\<forall>a k. a + k \<le> off \<or> off + sizeof_dmg_chunk \<le> a \<longrightarrow> window B' a k = window B a k) \<and> block_chunk B' i = Some (file_chunk B i)"
proof -
  let ?fs = "[(off, 4), (off + 4, 4), (off + 8, 8), (off + 16, 8), (off + 24, 8), (off + 32, 8)]"
  have fits: "off + 40 \<le> length B" using assms by (simp add: sizeof_dmg_chunk_def)
  obtain B' where B': "swap_fields ?fs B = Some B'" "length B' = length B" "\<And>a k. (a, k) \<in> set ?fs \<Longrightarrow> window B' a k = rev (window B a k)"
    "\<And>a k. (\<forall>f \<in> set ?fs. disjoint_fields f (a, k)) \<Longrightarrow> window B' a k = window B a k"
    using swap_fields_spec[of ?fs B] fits by (auto simp: disjoint_fields_def)
  have "block_chunk B' i = Some (file_chunk B i)"
    using B'(2) fits B'(3)[of off 4] B'(3)[of "off + 8" 8] B'(3)[of "off + 16" 8] B'(3)[of "off + 24" 8] B'(3)[of "off + 32" 8]
    by (simp add: block_chunk_def file_chunk_def get_def Let_def assms(2)[symmetric] read_swapped)
  moreover have "window B' a k = window B a k" if "a + k \<le> off \<or> off + 40 \<le> a" for a k
    using B'(4)[of a k] that by (auto simp: disjoint_fields_def)
  ultimately show ?thesis using B'(1,2) by (auto simp: sizeof_dmg_chunk_def)
qed

lemma SwapBlockData_loop_spec:
  assumes "sizeof_block + sizeof_dmg_chunk * (Index + n) \<le> length B"
  shows "\<exists>r B'. SwapBlockData_loop n Index S M B = Some (r, B') \<and> length B' = length B
     \<and> (\<forall>a k. a + k \<le> sizeof_block + sizeof_dmg_chunk * Index \<longrightarrow> window B' a k = window B a k)
     \<and> (r \<longleftrightarrow> (\<forall>i. Index \<le> i \<and> i < Index + n \<longrightarrow> chunk_ok (unat S) (unat M) (file_chunk B i)))
     \<and> (r \<longrightarrow> (\<forall>i. Index \<le> i \<and> i < Index + n \<longrightarrow> block_chunk B' i = Some (file_chunk B i)))"
  using assms
proof (induction n arbitrary: Index B)
  case 0
  then show ?case by auto
next
  case (Suc n)
  let ?off = "sizeof_block + sizeof_dmg_chunk * Index"
  let ?c = "file_chunk B Index"
  have "sizeof_block + sizeof_dmg_chunk * Suc Index \<le> length B" using Suc.prems by (simp add: sizeof_dmg_chunk_def)
  then obtain B1 where B1: "swap_fields [(?off, 4), (?off + 4, 4), (?off + 8, 8), (?off + 16, 8), (?off + 24, 8), (?off + 32, 8)] B = Some B1"
    "length B1 = length B" "\<And>a k. a + k \<le> ?off \<or> ?off + sizeof_dmg_chunk \<le> a \<Longrightarrow> window B1 a k = window B a k" "block_chunk B1 Index = Some ?c"
    using swap_chunk[of Index B ?off] by blast
  have later: "file_chunk B1 i = file_chunk B i" if "Suc Index \<le> i" for i
  proof (rule chunk_windows(1)[OF B1(2)])
    fix a k assume "sizeof_block + sizeof_dmg_chunk * i \<le> a"
    moreover have "sizeof_dmg_chunk * Suc Index \<le> sizeof_dmg_chunk * i" using that by (rule mult_le_mono2)
    ultimately show "window B1 a k = window B a k" by (intro B1(3)) simp
  qed
  obtain r B2 where B2: "SwapBlockData_loop n (Suc Index) S M B1 = Some (r, B2)" "length B2 = length B1"
    "\<And>a k. a + k \<le> sizeof_block + sizeof_dmg_chunk * Suc Index \<Longrightarrow> window B2 a k = window B1 a k"
    "r \<longleftrightarrow> (\<forall>i. Suc Index \<le> i \<and> i < Suc Index + n \<longrightarrow> chunk_ok (unat S) (unat M) (file_chunk B i))"
    "r \<longrightarrow> (\<forall>i. Suc Index \<le> i \<and> i < Suc Index + n \<longrightarrow> block_chunk B2 i = Some (file_chunk B i))"
    using Suc.IH[of "Suc Index" B1] Suc.prems B1(2) later by fastforce
  have loop: "SwapBlockData_loop (Suc n) Index S M B = (if chunk_ok (unat S) (unat M) ?c then Some (r, B2) else Some (False, B1))"
    using B1(1,4) B2(1) by (simp add: Let_def add_checked chunk_ok_def del: swap_fields.simps)
  have keep: "block_chunk B2 Index = Some ?c" using chunk_windows(2)[OF B2(2), of Index] B2(3) B1(4) by simp
  have front: "window B2 a k = window B a k" if "a + k \<le> ?off" for a k using B2(3)[of a k] B1(3)[of a k] that by simp
  have split_first: "(\<forall>i. Index \<le> i \<and> i < Index + Suc n \<longrightarrow> Q i) \<longleftrightarrow> Q Index \<and> (\<forall>i. Suc Index \<le> i \<and> i < Suc Index + n \<longrightarrow> Q i)" for Q
    by (auto simp: Suc_le_eq) (metis le_eq_less_or_eq)
  show ?case
  proof (cases "chunk_ok (unat S) (unat M) ?c")
    case True
    then show ?thesis
      using loop B1(2) B2(2,4,5) keep front by (intro exI[of _ r] exI[of _ B2]) (simp only: split_first, simp)
  next
    case False
    then show ?thesis using loop B1(2,3) by (intro exI[of _ False] exI[of _ B1]) auto
  qed
qed

text \<open>
  What \<open>InternalSwapBlockData\<close> accepts: the chunk list fits the \<open>Size\<close> decoded bytes, the sectors of the block are inside the image, its data starts in front of
  the data fork's end, the checksum is at most 1024 bits long and every chunk passes the test \<open>chunk_ok\<close>.
\<close>

definition file_block_ok :: "byte list \<Rightarrow> nat \<Rightarrow> u64 \<Rightarrow> u64 \<Rightarrow> u64 \<Rightarrow> bool" where
  "file_block_ok B Size Sectors DataForkOffset DataForkSize \<longleftrightarrow>
     (let h = file_header B; M = unat (DataForkOffset + DataForkSize)
      in sizeof_block + sizeof_dmg_chunk * unat (BlockChunkCount h) \<le> Size
         \<and> BlockDataOffset h \<le> DataForkOffset \<and> BlockChecksumSize h \<le> 1024 \<and> unat (BlockDataOffset h) \<le> M
         \<and> unat (BlockSectorNumber h) + unat (BlockSectorCount h) \<le> unat Sectors
         \<and> (\<forall>i < unat (BlockChunkCount h). chunk_ok (unat (BlockSectorNumber h) + unat (BlockSectorCount h)) M (file_chunk B i)))"

abbreviation header_fields :: "(nat \<times> nat) list" where
  "header_fields \<equiv> [(4, 4), (8, 8), (16, 8), (24, 8), (32, 4), (36, 4), (64, 4), (68, 4)]"

lemma swap_header:
  assumes "sizeof_block \<le> length B"
  shows "\<exists>B0 B1. swap_field (200, 4) B = Some B0 \<and> length B0 = length B \<and> read_le B0 200 4 = read_be B 200 4
     \<and> swap_fields header_fields B0 = Some B1 \<and> length B1 = length B \<and> block_header B1 = Some (file_header B)
     \<and> (\<forall>a k. 204 \<le> a \<longrightarrow> window B1 a k = window B a k)"
proof -
  have len: "204 \<le> length B" using assms by (simp add: sizeof_block_def)
  obtain B0 where B0: "swap_field (200, 4) B = Some B0" "length B0 = length B" "window B0 200 4 = rev (window B 200 4)"
    "\<And>a k. disjoint_fields (200, 4) (a, k) \<Longrightarrow> window B0 a k = window B a k"
    using swap_field_spec[of 200 4 B] len by auto
  obtain B1 where B1: "swap_fields header_fields B0 = Some B1" "length B1 = length B0"
    "\<And>a k. (a, k) \<in> set header_fields \<Longrightarrow> window B1 a k = rev (window B0 a k)"
    "\<And>a k. (\<forall>f \<in> set header_fields. disjoint_fields f (a, k)) \<Longrightarrow> window B1 a k = window B0 a k"
    using swap_fields_spec[of header_fields B0] len B0(2) by (auto simp: disjoint_fields_def)
  have w: "window B1 a k = rev (window B a k)" if "(a, k) \<in> set header_fields" for a k
    using B1(3)[OF that] B0(4)[of a k] that by (auto simp: disjoint_fields_def)
  have c: "window B1 200 4 = rev (window B 200 4)" using B1(4)[of 200 4] B0(3) by (simp add: disjoint_fields_def)
  have "block_header B1 = Some (file_header B)"
    using w[of 8 8] w[of 16 8] w[of 24 8] w[of 68 4] c B1(2) B0(2) len
    by (simp add: block_header_def file_header_def get_def read_le_def read_be_def)
  moreover have "window B1 a k = window B a k" if "204 \<le> a" for a k
    using B1(4)[of a k] B0(4)[of a k] that by (simp add: disjoint_fields_def)
  moreover have "(read_le B0 200 4 :: 'a word) = read_be B 200 4" by (rule read_swapped[OF B0(3)])
  ultimately show ?thesis using B0(1,2) B1(1,2) by auto
qed

lemma swap_checksum:
  assumes "sizeof_block \<le> length B"
  shows "\<exists>B'. swap_fields (map (\<lambda>i. (72 + 4 * i, 4)) [0..<32]) B = Some B' \<and> length B' = length B
     \<and> (\<forall>a k. a + k \<le> 72 \<or> 200 \<le> a \<longrightarrow> window B' a k = window B a k)"
proof -
  let ?fs = "map (\<lambda>i. (72 + 4 * i, 4 :: nat)) [0..<32]"
  have "\<forall>(a, k) \<in> set ?fs. a + k \<le> length B" using assms by (auto simp: sizeof_block_def)
  moreover have "sorted_wrt disjoint_fields ?fs"
    unfolding sorted_wrt_map by (rule sorted_wrt_mono_rel[OF _ sorted_wrt_upt]) (auto simp: disjoint_fields_def)
  moreover have "\<forall>f \<in> set ?fs. disjoint_fields f (a, k)" if "a + k \<le> 72 \<or> 200 \<le> a" for a k
    using that by (auto simp: disjoint_fields_def)
  ultimately show ?thesis using swap_fields_spec[of ?fs B] by metis
qed

lemma header_windows:
  assumes "length B' = length B" "\<And>a k. a + k \<le> 72 \<or> a = 200 \<and> k = 4 \<Longrightarrow> window B' a k = window B a k"
  shows "block_header B' = block_header B"
  using assms(1) assms(2)[of 8 8] assms(2)[of 16 8] assms(2)[of 24 8] assms(2)[of 68 4] assms(2)[of 200 4]
  by (simp add: block_header_def get_def read_le_def)

text \<open>The check of the table size, with 32-bit and 64-bit arithmetic.\<close>

lemma chunks_size_check:
  assumes "204 \<le> unat (MaxSize :: u32)"
  shows "(fst (BaseOverflowMulU32 n 40) \<or> (ucast (snd (BaseOverflowMulU32 n 40)) :: u64) > ucast MaxSize - 204) \<longleftrightarrow>
    \<not> (sizeof_block + sizeof_dmg_chunk * unat n \<le> unat MaxSize)"
proof -
  have i: "(2 :: int) ^ 32 \<le> uint n * uint (40 :: u32) \<longleftrightarrow> 2 ^ 32 \<le> unat n * 40"
  proof -
    have "uint n * uint (40 :: u32) = int (unat n * 40)" by simp
    moreover have "(2 :: int) ^ 32 \<le> int k \<longleftrightarrow> 2 ^ 32 \<le> k" for k by simp
    ultimately show ?thesis by (simp only:)
  qed
  have s: "unat (ucast MaxSize - 204 :: u64) = unat MaxSize - 204"
  proof -
    have "unat (ucast MaxSize :: u64) = unat MaxSize" using unat_less_2pow[of MaxSize] by (simp add: unat_ucast)
    then show ?thesis using assms unat_minus_no_wrap[of 204 "ucast MaxSize :: u64"] by (simp add: word_le_nat_alt)
  qed
  show ?thesis
  proof (cases "unat n * 40 < 2 ^ 32")
    case True
    then have "unat (n * 40) = unat n * 40" using unat_mult_lem[of n 40] by simp
    then have "unat (ucast (n * 40) :: u64) = unat n * 40" using True by (simp add: unat_ucast)
    then show ?thesis using i True s assms by (auto simp: BaseOverflowMulU32_def word_less_nat_alt sizeof_block_def sizeof_dmg_chunk_def)
  next
    case False
    then show ?thesis using i unat_less_2pow[of MaxSize] by (auto simp: BaseOverflowMulU32_def sizeof_dmg_chunk_def)
  qed
qed

lemma InternalSwapBlockData_eq:
  fixes DataForkOffset DataForkSize Sectors :: u64 and MaxSize :: u32
  assumes len: "sizeof_block \<le> length B"
  defines "h \<equiv> file_header B" and "M \<equiv> DataForkOffset + DataForkSize"
  defines "size_ok \<equiv> \<not> (fst (BaseOverflowMulU32 (BlockChunkCount h) 40) \<or> (ucast (snd (BaseOverflowMulU32 (BlockChunkCount h) 40)) :: u64) > ucast MaxSize - 204)"
  defines "fields_ok \<equiv> BlockDataOffset h \<le> DataForkOffset \<and> BlockChecksumSize h \<le> 1024 \<and> BlockDataOffset h \<le> M"
  defines "sect_ok \<equiv> unat (BlockSectorNumber h) + unat (BlockSectorCount h) \<le> unat Sectors"
  obtains B0 B1 B2 where "length B0 = length B" "length B1 = length B" "length B2 = length B" "block_header B2 = Some h" "\<And>i. file_chunk B2 i = file_chunk B i"
    "InternalSwapBlockData B MaxSize Sectors DataForkOffset DataForkSize =
      (if \<not> size_ok then Some (False, B0) else if \<not> fields_ok then Some (False, B1) else if \<not> sect_ok then Some (False, B1)
       else SwapBlockData_loop (unat (BlockChunkCount h)) 0 (BlockSectorNumber h + BlockSectorCount h) M B2)"
proof -
  obtain B0 B1 where B: "swap_field (200, 4) B = Some B0" "length B0 = length B" "(read_le B0 200 4 :: u32) = read_be B 200 4"
    "swap_fields header_fields B0 = Some B1" "length B1 = length B" "block_header B1 = Some h" "\<And>a k. 204 \<le> a \<Longrightarrow> window B1 a k = window B a k"
    unfolding h_def using swap_header[OF len] by blast
  have cnt: "get B0 200 4 = Some (BlockChunkCount h)" using B(2,3) len by (simp add: h_def get_def file_header_def sizeof_block_def)
  obtain B2 where B2: "swap_fields (map (\<lambda>i. (72 + 4 * i, 4)) [0..<32]) B1 = Some B2" "length B2 = length B"
    "\<And>a k. a + k \<le> 72 \<or> 200 \<le> a \<Longrightarrow> window B2 a k = window B1 a k"
    using swap_checksum[of B1] len B(5) by auto
  have c: "(case BaseOverflowMulU32 (BlockChunkCount h) 40 of (Result, s) \<Rightarrow> if Result \<or> (ucast s :: u64) > ucast MaxSize - 204 then x else y) =
      (if size_ok then y else x)" for x y :: "(bool \<times> byte list) option"
    by (auto simp: size_ok_def split_beta)
  have eq: "InternalSwapBlockData B MaxSize Sectors DataForkOffset DataForkSize =
      (if \<not> size_ok then Some (False, B0) else if \<not> fields_ok then Some (False, B1) else if \<not> sect_ok then Some (False, B1)
       else SwapBlockData_loop (unat (BlockChunkCount h)) 0 (BlockSectorNumber h + BlockSectorCount h) M B2)"
    using B(1,4,6) cnt B2(1) unfolding InternalSwapBlockData_def
    by (auto simp: c add_checked fields_ok_def sect_ok_def M_def Let_def not_less not_le simp del: swap_fields.simps upt_rec_numeral)
  have fc: "file_chunk B2 i = file_chunk B i" for i
    by (rule chunk_windows(1)) (use B2 B(5,7) in \<open>auto simp: sizeof_block_def\<close>)
  have "block_header B2 = block_header B1" by (rule header_windows) (use B2(2,3) B(5) in auto)
  then have h2: "block_header B2 = Some h" using B(6) by simp
  show ?thesis using that[OF B(2) B(5) B2(2) h2 fc eq] .
qed

lemma SwapBlockData_loop_header:
  assumes "SwapBlockData_loop n 0 S M B = Some (r, B')" "sizeof_block + sizeof_dmg_chunk * n \<le> length B"
  shows "length B' = length B" "block_header B' = block_header B" "r \<longleftrightarrow> (\<forall>i < n. chunk_ok (unat S) (unat M) (file_chunk B i))"
    "r \<longrightarrow> (\<forall>i < n. block_chunk B' i = Some (file_chunk B i))"
proof -
  have sp: "length B' = length B" "\<forall>a k. a + k \<le> sizeof_block \<longrightarrow> window B' a k = window B a k"
    "r \<longleftrightarrow> (\<forall>i < n. chunk_ok (unat S) (unat M) (file_chunk B i))" "r \<longrightarrow> (\<forall>i < n. block_chunk B' i = Some (file_chunk B i))"
    using SwapBlockData_loop_spec[of 0 n B S M] assms by auto
  have "block_header B' = block_header B" by (rule header_windows) (use sp(1,2) in \<open>auto simp: sizeof_block_def\<close>)
  then show "length B' = length B" "block_header B' = block_header B" "r \<longleftrightarrow> (\<forall>i < n. chunk_ok (unat S) (unat M) (file_chunk B i))"
    "r \<longrightarrow> (\<forall>i < n. block_chunk B' i = Some (file_chunk B i))" using sp by simp_all
qed

lemma InternalSwapBlockData_spec:
  assumes "204 \<le> unat MaxSize" "unat MaxSize \<le> length B"
  shows "\<exists>B'. InternalSwapBlockData B MaxSize Sectors DataForkOffset DataForkSize =
        Some (file_block_ok B (unat MaxSize) Sectors DataForkOffset DataForkSize, B') \<and> length B' = length B
     \<and> (file_block_ok B (unat MaxSize) Sectors DataForkOffset DataForkSize \<longrightarrow>
          block_header B' = Some (file_header B) \<and> (\<forall>i < unat (BlockChunkCount (file_header B)). block_chunk B' i = Some (file_chunk B i)))"
proof -
  let ?h = "file_header B" and ?M = "DataForkOffset + DataForkSize"
  let ?n = "unat (BlockChunkCount ?h)"
  have len: "sizeof_block \<le> length B" using assms by (simp add: sizeof_block_def)
  define S where "S = BlockSectorNumber ?h + BlockSectorCount ?h"
  define size_ok where "size_ok = (sizeof_block + sizeof_dmg_chunk * ?n \<le> unat MaxSize)"
  define fields_ok where "fields_ok = (BlockDataOffset ?h \<le> DataForkOffset \<and> BlockChecksumSize ?h \<le> 1024 \<and> BlockDataOffset ?h \<le> ?M)"
  define sect_ok where "sect_ok = (unat (BlockSectorNumber ?h) + unat (BlockSectorCount ?h) \<le> unat Sectors)"
  obtain B0 B1 B2 where B: "length B0 = length B" "length B1 = length B" "length B2 = length B" "block_header B2 = Some ?h"
    "\<And>i. file_chunk B2 i = file_chunk B i"
    "InternalSwapBlockData B MaxSize Sectors DataForkOffset DataForkSize =
      (if \<not> size_ok then Some (False, B0) else if \<not> fields_ok then Some (False, B1) else if \<not> sect_ok then Some (False, B1)
       else SwapBlockData_loop ?n 0 S ?M B2)"
    using InternalSwapBlockData_eq[OF len, where MaxSize = MaxSize and DataForkOffset = DataForkOffset and Sectors = Sectors and DataForkSize = DataForkSize]
    unfolding chunks_size_check[OF assms(1)] not_not size_ok_def fields_ok_def sect_ok_def S_def by blast
  show ?thesis
  proof (cases "size_ok \<and> fields_ok \<and> sect_ok")
    case False
    then have "\<not> file_block_ok B (unat MaxSize) Sectors DataForkOffset DataForkSize"
      by (auto simp: file_block_ok_def Let_def size_ok_def fields_ok_def sect_ok_def word_le_nat_alt)
    then show ?thesis using False B(1,2,6) by auto
  next
    case True
    have "unat S = unat (BlockSectorNumber ?h) + unat (BlockSectorCount ?h)"
      using True unat_less_2pow[of Sectors] unfolding S_def sect_ok_def by (intro unat_plus_no_wrap) simp
    then have f: "file_block_ok B (unat MaxSize) Sectors DataForkOffset DataForkSize \<longleftrightarrow> (\<forall>i < ?n. chunk_ok (unat S) (unat ?M) (file_chunk B i))"
      using True by (auto simp: file_block_ok_def Let_def size_ok_def fields_ok_def sect_ok_def word_le_nat_alt)
    have room: "sizeof_block + sizeof_dmg_chunk * ?n \<le> length B2" using True B(3) assms(2) by (simp add: size_ok_def)
    obtain r B3 where B3: "SwapBlockData_loop ?n 0 S ?M B2 = Some (r, B3)"
      using SwapBlockData_loop_spec[of 0 ?n B2 S ?M] room by auto
    show ?thesis using B True f B3 SwapBlockData_loop_header[OF B3 room] by auto
  qed
qed

text \<open>
  A table that decoded to fewer bytes than its header passes the test of the chunk count, because \<open>MaxSize - sizeof (*BlockData)\<close> wraps. When the swap
  still returns with success, it has stayed inside the allocation, so that every chunk of the list is there.
\<close>

lemma swap_field_inside: "swap_field (off, n) B = Some B' \<Longrightarrow> off + n \<le> length B \<and> length B' = length B"
  by (auto simp: swap_field_def split: if_splits)

lemma swap_fields_inside: "swap_fields fs B = Some B' \<Longrightarrow> length B' = length B \<and> (\<forall>(a, k) \<in> set fs. a + k \<le> length B)"
proof (induction fs arbitrary: B)
  case (Cons f fs)
  then obtain B1 where "swap_field f B = Some B1" "swap_fields fs B1 = Some B'" by (auto simp: bind_eq_Some_conv)
  then show ?case using Cons.IH[of B1] swap_field_inside[of "fst f" "snd f" B B1] by (cases f) auto
qed simp

lemma SwapBlockData_loop_inside:
  assumes "SwapBlockData_loop n Index S M B = Some (True, B')" "sizeof_block + sizeof_dmg_chunk * Index \<le> length B"
  shows "sizeof_block + sizeof_dmg_chunk * (Index + n) \<le> length B"
  using assms
proof (induction n arbitrary: Index B)
  case (Suc n)
  let ?off = "sizeof_block + sizeof_dmg_chunk * Index"
  let ?fs = "[(?off, 4), (?off + 4, 4), (?off + 8, 8), (?off + 16, 8), (?off + 24, 8), (?off + 32, 8)]"
  obtain B1 where B1: "swap_fields ?fs B = Some B1" "SwapBlockData_loop n (Suc Index) S M B1 = Some (True, B')"
    using Suc.prems(1) by (auto simp: Let_def bind_eq_Some_conv add_checked simp del: swap_fields.simps split: if_split_asm)
  have "length B1 = length B" "?off + 40 \<le> length B" using swap_fields_inside[OF B1(1)] by auto
  then show ?case using Suc.IH[OF B1(2)] by (simp add: sizeof_dmg_chunk_def)
qed simp

section \<open>The contents of an image\<close>

definition native_block_ok :: "u64 \<Rightarrow> nat \<Rightarrow> byte list \<Rightarrow> bool" where
  "native_block_ok Sectors M B \<longleftrightarrow> (\<exists>h. block_header B = Some h \<and> unat (BlockSectorNumber h) + unat (BlockSectorCount h) \<le> unat Sectors
     \<and> (\<forall>i < unat (BlockChunkCount h). \<exists>c. block_chunk B i = Some c \<and> chunk_ok (unat (BlockSectorNumber h) + unat (BlockSectorCount h)) M c))"

text \<open>\<open>M\<close> is the end of the data fork.\<close>

definition context_ok :: "OC_APPLE_DISK_IMAGE_CONTEXT \<Rightarrow> nat \<Rightarrow> bool" where
  "context_ok ctx M \<longleftrightarrow> 512 * unat (SectorCount ctx) + M < 2 ^ 64 \<and> (\<forall>B \<in> set (ImageBlocks ctx). native_block_ok (SectorCount ctx) M B)"

definition chunk_start :: "APPLE_DISK_IMAGE_BLOCK_DATA \<Rightarrow> APPLE_DISK_IMAGE_CHUNK \<Rightarrow> nat" where
  "chunk_start b c = unat (BlockSectorNumber b) + unat (ChunkSectorNumber c)"

text \<open>What a lookup returns.\<close>

definition located :: "u64 \<Rightarrow> nat \<Rightarrow> u64 \<Rightarrow> APPLE_DISK_IMAGE_BLOCK_DATA \<Rightarrow> APPLE_DISK_IMAGE_CHUNK \<Rightarrow> bool" where
  "located Sectors M Lba b c \<longleftrightarrow> chunk_start b c \<le> unat Lba \<and> unat Lba < chunk_start b c + unat (ChunkSectorCount c)
     \<and> unat (ChunkSectorCount c) \<le> unat Sectors \<and> chunk_start b c + unat (ChunkSectorCount c) < 2 ^ 63
     \<and> unat (CompressedOffset c) + unat (CompressedLength c) \<le> M \<and> unat (DMG_SECTOR_START_ABS b c) = chunk_start b c"

lemma GetBlockChunk_chunks_ok:
  assumes S: "512 * unat Sectors < 2 ^ 64" and h: "unat (BlockSectorNumber h) + unat (BlockSectorCount h) \<le> unat Sectors"
    and c: "\<And>i. i < Index + n \<Longrightarrow> \<exists>c. block_chunk B i = Some c \<and> chunk_ok (unat (BlockSectorNumber h) + unat (BlockSectorCount h)) M c"
  shows "\<exists>r. GetBlockChunk_chunks n Index B h Lba = Some r \<and> (\<forall>b c. r = Some (b, c) \<longrightarrow> located Sectors M Lba b c)"
  using c
proof (induction n arbitrary: Index)
  case (Suc n)
  obtain c where c: "block_chunk B Index = Some c" "chunk_ok (unat (BlockSectorNumber h) + unat (BlockSectorCount h)) M c"
    using Suc.prems[of Index] by auto
  have small: "chunk_start h c + unat (ChunkSectorCount c) < 2 ^ 63" "unat (ChunkSectorCount c) \<le> unat Sectors"
    using c(2) h S by (simp_all add: chunk_ok_def chunk_start_def)
  have start: "unat (DMG_SECTOR_START_ABS h c) = chunk_start h c"
    using small unfolding DMG_SECTOR_START_ABS_def chunk_start_def by (intro unat_plus_no_wrap) simp
  have stop: "unat (DMG_SECTOR_START_ABS h c + ChunkSectorCount c) = chunk_start h c + unat (ChunkSectorCount c)"
    using small start unat_plus_no_wrap[of "DMG_SECTOR_START_ABS h c" "ChunkSectorCount c"] by simp
  obtain r where r: "GetBlockChunk_chunks n (Suc Index) B h Lba = Some r" "\<forall>b c. r = Some (b, c) \<longrightarrow> located Sectors M Lba b c"
    using Suc.IH[of "Suc Index"] Suc.prems by auto
  show ?case
  proof (cases "chunk_start h c \<le> unat Lba \<and> unat Lba < chunk_start h c + unat (ChunkSectorCount c)")
    case True
    then show ?thesis
      using c small start stop by (auto simp: located_def chunk_ok_def word_le_nat_alt word_less_nat_alt)
  next
    case False
    then show ?thesis using c(1) r start stop by (auto simp: word_le_nat_alt word_less_nat_alt)
  qed
qed simp

lemma InternalGetBlockChunk_ok:
  assumes "context_ok ctx M"
  shows "\<exists>r. InternalGetBlockChunk ctx Lba = Some r \<and> (\<forall>b c. r = Some (b, c) \<longrightarrow> located (SectorCount ctx) M Lba b c)"
proof -
  have "\<exists>r. GetBlockChunk_blocks Bs Lba = Some r \<and> (\<forall>b c. r = Some (b, c) \<longrightarrow> located (SectorCount ctx) M Lba b c)"
    if "set Bs \<subseteq> set (ImageBlocks ctx)" for Bs
    using that
  proof (induction Bs)
    case (Cons B Bs)
    then obtain h where h: "block_header B = Some h" "unat (BlockSectorNumber h) + unat (BlockSectorCount h) \<le> unat (SectorCount ctx)"
      "\<And>i. i < unat (BlockChunkCount h) \<Longrightarrow> \<exists>c. block_chunk B i = Some c \<and> chunk_ok (unat (BlockSectorNumber h) + unat (BlockSectorCount h)) M c"
      using assms by (auto simp: context_ok_def native_block_ok_def)
    have "512 * unat (SectorCount ctx) < 2 ^ 64" using assms by (simp add: context_ok_def)
    then obtain r where r: "GetBlockChunk_chunks (unat (BlockChunkCount h)) 0 B h Lba = Some r"
      "\<forall>b c. r = Some (b, c) \<longrightarrow> located (SectorCount ctx) M Lba b c"
      using GetBlockChunk_chunks_ok[OF _ h(2), of 0 "unat (BlockChunkCount h)" B M Lba] h(3) by auto
    obtain r' where r': "GetBlockChunk_blocks Bs Lba = Some r'" "\<forall>b c. r' = Some (b, c) \<longrightarrow> located (SectorCount ctx) M Lba b c"
      using Cons by auto
    show ?case
      using h(1) r r' by (cases r) auto
  qed simp
  then show ?thesis by (simp add: InternalGetBlockChunk_def)
qed

text \<open>The bytes of a chunk and of the image, from the bytes \<open>D\<close> of the RAM disk.\<close>

definition chunk_byte :: "(byte list \<Rightarrow> nat \<Rightarrow> byte list) \<Rightarrow> byte list \<Rightarrow> APPLE_DISK_IMAGE_CHUNK \<Rightarrow> nat \<Rightarrow> byte option" where
  "chunk_byte Z D c off =
     (if ChunkType c = APPLE_DISK_IMAGE_CHUNK_TYPE_ZERO \<or> ChunkType c = APPLE_DISK_IMAGE_CHUNK_TYPE_IGNORE then Some 0
      else if ChunkType c = APPLE_DISK_IMAGE_CHUNK_TYPE_RAW then rd D (unat (CompressedOffset c) + off)
      else if ChunkType c = APPLE_DISK_IMAGE_CHUNK_TYPE_ZLIB
      then
        (let Out = Z (window D (unat (CompressedOffset c)) (unat (CompressedLength c))) (512 * unat (ChunkSectorCount c))
         in if unat (CompressedOffset c) + unat (CompressedLength c) \<le> length D \<and> (CompressedLength c = 0 \<longrightarrow> unat (CompressedOffset c) < length D)
              \<and> length Out = 512 * unat (ChunkSectorCount c)
            then Some (Out ! off) else None)
      else None)"

definition image_byte :: "(byte list \<Rightarrow> nat \<Rightarrow> byte list) \<Rightarrow> byte list \<Rightarrow> OC_APPLE_DISK_IMAGE_CONTEXT \<Rightarrow> nat \<Rightarrow> byte option" where
  "image_byte Z D ctx p =
     (case InternalGetBlockChunk ctx (of_nat (p div 512)) of
        Some (Some (b, c)) \<Rightarrow> chunk_byte Z D c (p - 512 * chunk_start b c)
      | _ \<Rightarrow> None)"

text \<open>
  The chunk that serves the sector \<open>L + j\<close> in a read that starts at sector \<open>L\<close>: the first sector is looked up, the chunk found serves the following sectors up
  to its own end, and there the next one is looked up. Where no sector is in two chunks, this is the chunk of the sector itself.
\<close>

definition lookup :: "OC_APPLE_DISK_IMAGE_CONTEXT \<Rightarrow> nat \<Rightarrow> (APPLE_DISK_IMAGE_BLOCK_DATA \<times> APPLE_DISK_IMAGE_CHUNK) option" where
  "lookup ctx L = (case InternalGetBlockChunk ctx (of_nat L) of Some x \<Rightarrow> x | None \<Rightarrow> None)"

primrec serving :: "OC_APPLE_DISK_IMAGE_CONTEXT \<Rightarrow> nat \<Rightarrow> nat \<Rightarrow> (APPLE_DISK_IMAGE_BLOCK_DATA \<times> APPLE_DISK_IMAGE_CHUNK) option" where
  "serving ctx L 0 = lookup ctx L"
| "serving ctx L (Suc j) =
     (case serving ctx L j of
        None \<Rightarrow> lookup ctx (L + Suc j)
      | Some (b, c) \<Rightarrow> if L + Suc j < chunk_start b c + unat (ChunkSectorCount c) then Some (b, c) else lookup ctx (L + Suc j))"

definition served_byte :: "(byte list \<Rightarrow> nat \<Rightarrow> byte list) \<Rightarrow> byte list \<Rightarrow> OC_APPLE_DISK_IMAGE_CONTEXT \<Rightarrow> nat \<Rightarrow> nat \<Rightarrow> byte option" where
  "served_byte Z D ctx L i =
     (case serving ctx L (i div 512) of
        None \<Rightarrow> None
      | Some (b, c) \<Rightarrow> chunk_byte Z D c (512 * L + i - 512 * chunk_start b c))"

text \<open>The chunks do not overlap: a sector of the chunk that a lookup finds is looked up to the same chunk.\<close>

definition no_overlap :: "OC_APPLE_DISK_IMAGE_CONTEXT \<Rightarrow> bool" where
  "no_overlap ctx \<longleftrightarrow> (\<forall>L L' b c. InternalGetBlockChunk ctx L = Some (Some (b, c)) \<and> L \<le> L' \<and> unat L' < chunk_start b c + unat (ChunkSectorCount c) \<longrightarrow>
     InternalGetBlockChunk ctx L' = Some (Some (b, c)))"

definition available :: "(nat \<Rightarrow> byte option) \<Rightarrow> nat \<Rightarrow> nat \<Rightarrow> bool" where
  "available f p n \<longleftrightarrow> (\<forall>i < n. f (p + i) \<noteq> None)"

definition bytes_of :: "(nat \<Rightarrow> byte option) \<Rightarrow> nat \<Rightarrow> nat \<Rightarrow> byte list" where
  "bytes_of f p n = map (\<lambda>i. the (f (p + i))) [0..<n]"

lemma available_add: "available f p (m + n) \<longleftrightarrow> available f p m \<and> available f (p + m) n"
proof -
  have "(\<forall>i < m + n. Q i) \<longleftrightarrow> (\<forall>i < m. Q i) \<and> (\<forall>i < n. Q (m + i))" for Q :: "nat \<Rightarrow> bool"
    by (metis add_less_cancel_left add_diff_inverse_nat less_diff_conv2 not_less trans_less_add1 le_add1 add.commute)
  then show ?thesis by (simp add: available_def add.assoc)
qed

lemma bytes_of_add: "bytes_of f p (m + n) = bytes_of f p m @ bytes_of f (p + m) n"
  by (intro nth_equalityI) (auto simp: bytes_of_def nth_append)

lemma bytes_of_cong: "(\<And>i. i < n \<Longrightarrow> f (p + i) = g (q + i)) \<Longrightarrow> bytes_of f p n = bytes_of g q n \<and> (available f p n \<longleftrightarrow> available g q n)"
  by (auto simp: bytes_of_def available_def)

lemma read_chunk_spec:
  assumes D_def: "D = disk_bytes m T" and T: "length (table_addrs T) < 2 ^ 64" and total_len: "unat Tot = 512 * unat (ChunkSectorCount c)"
    and N: "0 < unat N" "unat Off + unat N \<le> unat Tot" and fits: "unat (CompressedOffset c) + unat (CompressedLength c) + unat Tot < 2 ^ 64"
  shows "\<exists>x. read_chunk Z ok m T c Off Tot N = Some x \<and>
    (\<forall>d. x = Inr d \<longrightarrow> available (chunk_byte Z D c) (unat Off) (unat N) \<and> d = bytes_of (chunk_byte Z D c) (unat Off) (unat N)) \<and>
    ((\<forall>n. ok n) \<and> available (chunk_byte Z D c) (unat Off) (unat N) \<longrightarrow> x \<noteq> Inl ())"
proof -
  let ?f = "chunk_byte Z D c"
  have N0: "N \<noteq> 0" using N(1) by auto
  note read = RamDiskRead_eq[OF T, of m, folded D_def]
  consider "ChunkType c = APPLE_DISK_IMAGE_CHUNK_TYPE_ZERO \<or> ChunkType c = APPLE_DISK_IMAGE_CHUNK_TYPE_IGNORE"
    | (raw) "ChunkType c = APPLE_DISK_IMAGE_CHUNK_TYPE_RAW" | (zlib) "ChunkType c = APPLE_DISK_IMAGE_CHUNK_TYPE_ZLIB"
    | (other) "ChunkType c \<notin> {APPLE_DISK_IMAGE_CHUNK_TYPE_ZERO, APPLE_DISK_IMAGE_CHUNK_TYPE_IGNORE, APPLE_DISK_IMAGE_CHUNK_TYPE_RAW, APPLE_DISK_IMAGE_CHUNK_TYPE_ZLIB}"
    by auto
  then show ?thesis
  proof cases
    case 1
    then have "?f = (\<lambda>_. Some 0)" by (auto simp: chunk_byte_def)
    then show ?thesis using 1 by (auto simp: read_chunk_def available_def bytes_of_def map_replicate_const)
  next
    case raw
    have a: "unat (CompressedOffset c + Off) = unat (CompressedOffset c) + unat Off"
      using fits N by (intro unat_plus_no_wrap) simp
    have f: "?f = (\<lambda>i. rd D (unat (CompressedOffset c) + i))"
      using raw by (auto simp: chunk_byte_def APPLE_DISK_IMAGE_CHUNK_TYPE_ZERO_def APPLE_DISK_IMAGE_CHUNK_TYPE_RAW_def APPLE_DISK_IMAGE_CHUNK_TYPE_IGNORE_def)
    have av: "available ?f (unat Off) (unat N) \<longleftrightarrow> unat (CompressedOffset c) + unat Off + unat N \<le> length D"
    proof
      assume "available ?f (unat Off) (unat N)"
      moreover have "unat N - 1 < unat N" using N(1) by simp
      ultimately have "rd D (unat (CompressedOffset c) + (unat Off + (unat N - 1))) \<noteq> None" unfolding available_def f by blast
      then show "unat (CompressedOffset c) + unat Off + unat N \<le> length D" using N(1) by (auto simp: rd_def split: if_splits)
    qed (auto simp: available_def f)
    have bo: "bytes_of ?f (unat Off) (unat N) = window D (unat (CompressedOffset c) + unat Off) (unat N)" if "available ?f (unat Off) (unat N)"
      using that unfolding av by (intro nth_equalityI) (auto simp: bytes_of_def f add.assoc)
    show ?thesis
      using raw av bo N0 read[of "CompressedOffset c + Off" N] a
      by (auto simp: read_chunk_def APPLE_DISK_IMAGE_CHUNK_TYPE_ZERO_def APPLE_DISK_IMAGE_CHUNK_TYPE_RAW_def APPLE_DISK_IMAGE_CHUNK_TYPE_IGNORE_def)
  next
    case zlib
    let ?Z = "Z (window D (unat (CompressedOffset c)) (unat (CompressedLength c))) (unat Tot)"
    define good where "good \<longleftrightarrow> unat (CompressedOffset c) + unat (CompressedLength c) \<le> length D
       \<and> (CompressedLength c = 0 \<longrightarrow> unat (CompressedOffset c) < length D) \<and> length ?Z = unat Tot"
    have f: "?f = (\<lambda>i. if good then Some (?Z ! i) else None)"
      using zlib total_len by (auto simp: chunk_byte_def good_def Let_def APPLE_DISK_IMAGE_CHUNK_TYPE_ZERO_def APPLE_DISK_IMAGE_CHUNK_TYPE_RAW_def
        APPLE_DISK_IMAGE_CHUNK_TYPE_IGNORE_def APPLE_DISK_IMAGE_CHUNK_TYPE_ZLIB_def)
    have av: "available ?f (unat Off) (unat N) \<longleftrightarrow> good" using N(1) by (auto simp: available_def f)
    have bo: "bytes_of ?f (unat Off) (unat N) = window ?Z (unat Off) (unat N)" if good
      using that N(2) by (intro nth_equalityI) (auto simp: bytes_of_def f good_def)
    have size: "unat (Tot + CompressedLength c) = unat Tot + unat (CompressedLength c)" using fits by (intro unat_plus_no_wrap) simp
    have len: "length (window D (unat (CompressedOffset c)) (unat (CompressedLength c))) \<le> unat (CompressedLength c)" by (simp add: window_def)
    have "read_chunk Z ok m T c Off Tot N = (if ok (Tot + CompressedLength c) \<and> good then Some (Inr (window ?Z (unat Off) (unat N))) else Some (Inl ()))"
      using zlib read[of "CompressedOffset c" "CompressedLength c"] size len
      by (auto simp: read_chunk_def good_def Let_def APPLE_DISK_IMAGE_CHUNK_TYPE_ZERO_def APPLE_DISK_IMAGE_CHUNK_TYPE_RAW_def
        APPLE_DISK_IMAGE_CHUNK_TYPE_IGNORE_def APPLE_DISK_IMAGE_CHUNK_TYPE_ZLIB_def)
    then show ?thesis using av bo by auto
  next
    case other
    then have "?f = (\<lambda>_. None)" by (auto simp: chunk_byte_def)
    then show ?thesis using other N(1) by (auto simp: read_chunk_def available_def)
  qed
qed

text \<open>The arithmetic of one pass of the loop, for the sector \<open>L\<close> of a chunk.\<close>

lemma read_arith:
  assumes loc: "located S M L b c" and S: "512 * unat S + M < 2 ^ 64" and R: "R \<noteq> 0"
  defines "off \<equiv> L - DMG_SECTOR_START_ABS b c"
  defines "left \<equiv> unat (ChunkSectorCount c) - (unat L - chunk_start b c)"
  shows "unat off = unat L - chunk_start b c" "unat (off * 512) = 512 * (unat L - chunk_start b c)" "unat (ChunkSectorCount c * 512) = 512 * unat (ChunkSectorCount c)"
    "\<not> fst (BaseOverflowMulU64 off 512)" "\<not> fst (BaseOverflowMulU64 (ChunkSectorCount c) 512)"
    "unat (min R (ChunkSectorCount c * 512 - off * 512)) = min (unat R) (512 * left)" "0 < left"
    "unat (L + (ChunkSectorCount c - off)) = unat L + left"
    "unat (CompressedOffset c) + unat (CompressedLength c) + unat (ChunkSectorCount c * 512) < 2 ^ 64"
proof -
  have l: "chunk_start b c \<le> unat L" "unat L < chunk_start b c + unat (ChunkSectorCount c)" "unat (ChunkSectorCount c) \<le> unat S"
    "chunk_start b c + unat (ChunkSectorCount c) < 2 ^ 63" "unat (CompressedOffset c) + unat (CompressedLength c) \<le> M"
    "unat (DMG_SECTOR_START_ABS b c) = chunk_start b c"
    using loc by (auto simp: located_def)
  show o: "unat off = unat L - chunk_start b c"
    using unat_minus_no_wrap[of "DMG_SECTOR_START_ABS b c" L] l by (simp add: off_def word_le_nat_alt)
  have cs: "512 * unat (ChunkSectorCount c) < 2 ^ 64" using l(3) S by simp
  have lt: "unat off < unat (ChunkSectorCount c)" using o l by simp
  show m1: "unat (off * 512) = 512 * (unat L - chunk_start b c)"
    using unat_mult_lem[of off 512] lt cs o by simp
  show m2: "unat (ChunkSectorCount c * 512) = 512 * unat (ChunkSectorCount c)"
    using unat_mult_lem[of "ChunkSectorCount c" 512] cs by simp
  show "\<not> fst (BaseOverflowMulU64 off 512)" "\<not> fst (BaseOverflowMulU64 (ChunkSectorCount c) 512)"
    unfolding BaseOverflowMulU64_unat using lt cs by simp_all
  have "unat (ChunkSectorCount c * 512 - off * 512) = 512 * left"
    using unat_minus_no_wrap[of "off * 512" "ChunkSectorCount c * 512"] m1 m2 lt o
    by (simp add: left_def word_le_nat_alt diff_mult_distrib2)
  then show "unat (min R (ChunkSectorCount c * 512 - off * 512)) = min (unat R) (512 * left)" by (simp add: unat_min)
  show left0: "0 < left" using lt o by (simp add: left_def)
  have "unat (ChunkSectorCount c - off) = left"
    using unat_minus_no_wrap[of off "ChunkSectorCount c"] lt o by (simp add: left_def word_le_nat_alt)
  moreover have "unat L + left < 2 ^ 63" using l by (simp add: left_def)
  ultimately show "unat (L + (ChunkSectorCount c - off)) = unat L + left"
    using unat_plus_no_wrap[of L "ChunkSectorCount c - off"] by simp
  show "unat (CompressedOffset c) + unat (CompressedLength c) + unat (ChunkSectorCount c * 512) < 2 ^ 64" using m2 l S by simp
qed

lemma serving_inside:
  assumes "serving ctx L 0 = Some (b, c)" "L + j < chunk_start b c + unat (ChunkSectorCount c)"
  shows "serving ctx L j = Some (b, c)"
  using assms by (induction j) auto

lemma serving_later:
  assumes "serving ctx L 0 = Some (b, c)" "L + n = chunk_start b c + unat (ChunkSectorCount c)" "0 < n"
  shows "serving ctx L (n + j) = serving ctx (L + n) j"
proof (induction j)
  case 0
  obtain k where k: "n = Suc k" using assms(3) by (cases n) auto
  have "serving ctx L k = Some (b, c)" using serving_inside[OF assms(1), of k] assms(2) k by simp
  then show ?case using assms(2) k by simp
next
  case (Suc j)
  have e: "L + Suc (n + j) = L + n + Suc j" by simp
  show ?case unfolding add_Suc_right[of n] serving.simps(2) Suc.IH e ..
qed

lemma served_byte_inside:
  assumes "serving ctx L 0 = Some (b, c)" "chunk_start b c \<le> L" "i < 512 * (unat (ChunkSectorCount c) - (L - chunk_start b c))"
  shows "served_byte Z D ctx L i = chunk_byte Z D c (512 * (L - chunk_start b c) + i)"
proof -
  have "i div 512 < unat (ChunkSectorCount c) - (L - chunk_start b c)" using assms(3) by (simp add: less_mult_imp_div_less mult.commute)
  then have "serving ctx L (i div 512) = Some (b, c)" using serving_inside[OF assms(1)] assms(2) by simp
  moreover have "512 * L + i - 512 * chunk_start b c = 512 * (L - chunk_start b c) + i" using assms(2) by (simp add: diff_mult_distrib2)
  ultimately show ?thesis by (simp add: served_byte_def)
qed

lemma served_byte_later:
  assumes "serving ctx L 0 = Some (b, c)" "L + n = chunk_start b c + unat (ChunkSectorCount c)" "0 < n"
  shows "served_byte Z D ctx L (512 * n + i) = served_byte Z D ctx (L + n) i"
proof -
  have "(512 * n + i) div 512 = n + i div 512" by simp
  moreover have "512 * L + (512 * n + i) = 512 * (L + n) + i" by simp
  ultimately show ?thesis unfolding served_byte_def by (simp only: serving_later[OF assms])
qed

text \<open>Without overlaps the bytes served are those of the image.\<close>

lemma lookup_no_overlap:
  assumes "context_ok ctx M" "no_overlap ctx" "lookup ctx L = Some (b, c)" "L + j < chunk_start b c + unat (ChunkSectorCount c)"
  shows "lookup ctx (L + j) = Some (b, c)"
proof -
  have g: "InternalGetBlockChunk ctx (of_nat L) = Some (Some (b, c))" using assms(3) by (auto simp: lookup_def split: option.splits)
  have "located (SectorCount ctx) M (of_nat L) b c" using InternalGetBlockChunk_ok[OF assms(1), of "of_nat L"] g by auto
  then have "L + j < 2 ^ 63" using assms(4) by (simp add: located_def)
  then have u: "unat (of_nat L :: u64) = L" "unat (of_nat (L + j) :: u64) = L + j" by (simp_all only: unat_of_nat) simp_all
  then have "InternalGetBlockChunk ctx (of_nat (L + j)) = Some (Some (b, c))"
    using assms(2,4) g unfolding no_overlap_def word_le_nat_alt by (metis le_add1)
  then show ?thesis by (simp add: lookup_def)
qed

lemma serving_no_overlap:
  assumes "context_ok ctx M" "no_overlap ctx"
  shows "serving ctx L j = lookup ctx (L + j)"
proof (induction j)
  case (Suc j)
  then show ?case using lookup_no_overlap[OF assms, of "L + j" _ _ 1] by (auto split: option.splits)
qed simp

lemma served_byte_no_overlap:
  assumes "context_ok ctx M" "no_overlap ctx"
  shows "served_byte Z D ctx L i = image_byte Z D ctx (512 * L + i)"
  unfolding served_byte_def image_byte_def serving_no_overlap[OF assms] by (auto simp: lookup_def split: option.splits)

lemma read_body_step:
  assumes "R \<noteq> 0" "InternalGetBlockChunk ctx L = Some (Some (b, c))"
    and "BaseOverflowMulU64 (L - DMG_SECTOR_START_ABS b c) APPLE_DISK_IMAGE_SECTOR_SIZE = (False, O5)"
    and "BaseOverflowMulU64 (ChunkSectorCount c) APPLE_DISK_IMAGE_SECTOR_SIZE = (False, T5)"
    and "read_chunk Z (A k) m (ImageTable ctx) c O5 T5 (min R (T5 - O5)) = Some x"
  shows "read_body Z A m ctx (k, L, R, Out) =
    (case x of Inl _ \<Rightarrow> Break (Some (False, Out))
     | Inr d \<Rightarrow> Continue (k + 1, L + (ChunkSectorCount c - (L - DMG_SECTOR_START_ABS b c)), R - min R (T5 - O5), Out @ d))"
  unfolding read_body_def prod.case assms(2,3,4) option.case Let_def assms(5) by (simp only: assms(1) if_False disj_not1 simp_thms option.case)

lemma read_loop_spec:
  assumes ctx: "context_ok ctx M" and T: "length (table_addrs (ImageTable ctx)) < 2 ^ 64" and D: "D = disk_bytes m (ImageTable ctx)"
  shows "\<exists>r Out'. iterate (read_body Z A m ctx) (k, L, R, Out) = Some (Some (r, Out'))
    \<and> (r \<longrightarrow> available (served_byte Z D ctx (unat L)) 0 (unat R) \<and> Out' = Out @ bytes_of (served_byte Z D ctx (unat L)) 0 (unat R))
    \<and> ((\<forall>k n. A k n) \<and> available (served_byte Z D ctx (unat L)) 0 (unat R) \<longrightarrow> r)"
proof (induction "unat R" arbitrary: k L R Out rule: less_induct)
  case less
  let ?f = "served_byte Z D ctx (unat L)"
  show ?case
  proof (cases "R = 0")
    case True
    then have "read_body Z A m ctx (k, L, R, Out) = Break (Some (True, Out))" by (simp add: read_body_def)
    then show ?thesis using True by (auto simp: iterate_Break available_def bytes_of_def)
  next
    case R: False
    obtain q where q: "InternalGetBlockChunk ctx L = Some q" "\<And>b c. q = Some (b, c) \<Longrightarrow> located (SectorCount ctx) M L b c"
      using InternalGetBlockChunk_ok[OF ctx] by blast
    show ?thesis
    proof (cases q)
      case None
      then have "read_body Z A m ctx (k, L, R, Out) = Break (Some (False, Out))" using R q(1) by (simp add: read_body_def)
      moreover have "?f (0 + 0) = None" using q(1) None by (simp add: served_byte_def lookup_def)
      then have "\<not> available ?f 0 (unat R)" using R unfolding available_def by (metis unat_gt_0)
      ultimately show ?thesis by (auto simp: iterate_Break)
    next
      case (Some bc)
      obtain b c where bc: "q = Some (b, c)" using Some by (cases bc) auto
      have loc: "located (SectorCount ctx) M L b c" using q(2) bc by blast
      have S: "512 * unat (SectorCount ctx) + M < 2 ^ 64" using ctx by (simp add: context_ok_def)
      let ?left = "unat (ChunkSectorCount c) - (unat L - chunk_start b c)"
      define off where "off = L - DMG_SECTOR_START_ABS b c"
      define O5 where "O5 = off * 512"
      define T5 where "T5 = ChunkSectorCount c * 512"
      define N where "N = min R (T5 - O5)"
      define L' where "L' = L + (ChunkSectorCount c - off)"
      note ar = read_arith[OF loc S R, folded off_def, folded O5_def T5_def, folded N_def L'_def]
      have N0: "0 < unat N" using ar(6,7) R by (simp add: unat_gt_0)
      have fit: "unat O5 + unat N \<le> unat T5" unfolding ar(2,3,6) using ar(7) by (simp add: min_le_iff_disj)
      obtain x where x: "read_chunk Z (A k) m (ImageTable ctx) c O5 T5 N = Some x"
        "\<And>d. x = Inr d \<Longrightarrow> available (chunk_byte Z D c) (unat O5) (unat N) \<and> d = bytes_of (chunk_byte Z D c) (unat O5) (unat N)"
        "(\<forall>n. A k n) \<and> available (chunk_byte Z D c) (unat O5) (unat N) \<Longrightarrow> x \<noteq> Inl ()"
        using read_chunk_spec[OF D T ar(3) N0 fit ar(9), of Z "A k"] by blast
      have mul: "BaseOverflowMulU64 off APPLE_DISK_IMAGE_SECTOR_SIZE = (False, O5)"
        "BaseOverflowMulU64 (ChunkSectorCount c) APPLE_DISK_IMAGE_SECTOR_SIZE = (False, T5)"
        using ar(4,5) unfolding O5_def T5_def by (auto simp: BaseOverflowMulU64_def APPLE_DISK_IMAGE_SECTOR_SIZE_def)
      have body: "read_body Z A m ctx (k, L, R, Out) =
          (case x of Inl _ \<Rightarrow> Break (Some (False, Out)) | Inr d \<Rightarrow> Continue (k + 1, L', R - N, Out @ d))"
        using read_body_step[OF R q(1)[unfolded bc] mul[unfolded off_def], folded N_def off_def, folded L'_def, of Z A k m x Out, OF x(1)] .
      let ?g = "served_byte Z D ctx (unat L')"
      have first: "serving ctx (unat L) 0 = Some (b, c)" using q(1) bc by (simp add: lookup_def)
      have cl: "chunk_start b c \<le> unat L" "unat L + ?left = chunk_start b c + unat (ChunkSectorCount c)"
        using loc by (simp_all add: located_def)
      have same: "bytes_of ?f 0 (unat N) = bytes_of (chunk_byte Z D c) (unat O5) (unat N)
          \<and> (available ?f 0 (unat N) \<longleftrightarrow> available (chunk_byte Z D c) (unat O5) (unat N))"
        unfolding ar(2) using served_byte_inside[OF first cl(1)] by (intro bytes_of_cong) (simp add: ar(6))
      have sum: "unat R = unat N + unat (R - N)"
        using unat_minus_no_wrap[of N R] ar(6) by (simp add: word_le_nat_alt)
      have rest: "bytes_of ?f (0 + unat N) (unat (R - N)) = bytes_of ?g 0 (unat (R - N))
          \<and> (available ?f (0 + unat N) (unat (R - N)) \<longleftrightarrow> available ?g 0 (unat (R - N)))"
      proof (cases "unat (R - N) = 0")
        case False
        then have "unat N = 512 * ?left" using sum ar(6) by (cases "unat R \<le> 512 * ?left") (simp_all add: min_def)
        then show ?thesis using served_byte_later[OF first cl(2) ar(7)] unfolding ar(8) by (intro bytes_of_cong) simp
      qed (simp add: available_def bytes_of_def)
      have whole: "available ?f 0 (unat R) \<longleftrightarrow> available ?f 0 (unat N) \<and> available ?g 0 (unat (R - N))"
        "bytes_of ?f 0 (unat R) = bytes_of ?f 0 (unat N) @ bytes_of ?g 0 (unat (R - N))"
        unfolding conjunct2[OF rest, symmetric] conjunct1[OF rest, symmetric] unfolding sum available_add bytes_of_add by simp_all
      show ?thesis
      proof (cases x)
        case (Inl u)
        then have "iterate (read_body Z A m ctx) (k, L, R, Out) = Some (Some (False, Out))" using body by (simp add: iterate_Break)
        moreover have "\<not> ((\<forall>k n. A k n) \<and> available ?f 0 (unat R))" using x(3) Inl same unfolding whole(1) by auto
        ultimately show ?thesis by blast
      next
        case (Inr d)
        have "unat (R - N) < unat R" using sum N0 by simp
        from less[OF this, of "k + 1" L' "Out @ d"]
        obtain r Out' where IH: "iterate (read_body Z A m ctx) (k + 1, L', R - N, Out @ d) = Some (Some (r, Out'))"
          "r \<longrightarrow> available ?g 0 (unat (R - N)) \<and> Out' = (Out @ d) @ bytes_of ?g 0 (unat (R - N))"
          "(\<forall>k n. A k n) \<and> available ?g 0 (unat (R - N)) \<longrightarrow> r" by (elim exE conjE)
        have "iterate (read_body Z A m ctx) (k, L, R, Out) = Some (Some (r, Out'))" using body Inr IH(1) by (simp add: iterate_Continue)
        moreover have "r \<longrightarrow> available ?f 0 (unat R) \<and> Out' = Out @ bytes_of ?f 0 (unat R)"
          using IH(2) x(2)[OF Inr] same unfolding whole by simp
        moreover have "(\<forall>k n. A k n) \<and> available ?f 0 (unat R) \<longrightarrow> r" using IH(3) unfolding whole(1) by blast
        ultimately show ?thesis by (intro exI conjI)
      qed
    qed
  qed
qed

text \<open>A table that was swapped with the checks passed is a native one.\<close>

lemma swapped_native:
  assumes len: "sizeof_block \<le> length B" and ok: "InternalSwapBlockData B MaxSize Sectors Off Size = Some (True, B')"
  shows "native_block_ok Sectors (unat (Off + Size)) B'"
proof -
  let ?h = "file_header B"
  let ?n = "unat (BlockChunkCount ?h)" and ?S = "BlockSectorNumber ?h + BlockSectorCount ?h"
  obtain size_ok fields_ok B0 B1 B2 where B: "length B2 = length B" "block_header B2 = Some ?h"
    "InternalSwapBlockData B MaxSize Sectors Off Size =
      (if \<not> size_ok then Some (False, B0) else if \<not> fields_ok then Some (False, B1)
       else if \<not> unat (BlockSectorNumber ?h) + unat (BlockSectorCount ?h) \<le> unat Sectors then Some (False, B1)
       else SwapBlockData_loop ?n 0 ?S (Off + Size) B2)"
    by (rule InternalSwapBlockData_eq[OF len, where MaxSize = MaxSize and DataForkOffset = Off and Sectors = Sectors and DataForkSize = Size]) blast
  have sect: "unat (BlockSectorNumber ?h) + unat (BlockSectorCount ?h) \<le> unat Sectors"
    and loop: "SwapBlockData_loop ?n 0 ?S (Off + Size) B2 = Some (True, B')"
    using ok unfolding B(3) by (simp_all split: if_split_asm)
  have "unat ?S = unat (BlockSectorNumber ?h) + unat (BlockSectorCount ?h)"
    using sect unat_less_2pow[of Sectors] by (intro unat_plus_no_wrap) simp
  moreover have "sizeof_block + sizeof_dmg_chunk * ?n \<le> length B2" using SwapBlockData_loop_inside[OF loop] B(1) len by simp
  note SwapBlockData_loop_header[OF loop this]
  ultimately show ?thesis using B(2) sect by (auto simp: native_block_ok_def)
qed

lemma ParsePlist_block_native:
  assumes "\<And>n B. Fresh n = Some B \<Longrightarrow> length B = n"
    and "ParsePlist_block Base64Decode Fresh D Node Sectors Off Size = Some (Inr B)"
  shows "native_block_ok Sectors (unat (Off + Size)) B"
proof -
  obtain V where V: "InternalFindPlistDictChild D Node (ascii ''Data'') = Some (Some V)"
    using assms(2) by (auto simp: ParsePlist_block_def bind_eq_Some_conv split: option.splits)
  obtain n where n: "PlistDataSize D (Some (snd V)) = Some (Some n)" "\<not> n < of_nat sizeof_block"
    using assms(2) V by (auto simp: ParsePlist_block_def bind_eq_Some_conv split: option.splits if_splits prod.splits)
  obtain B0 where B0: "Fresh (unat n) = Some B0"
    using assms(2) V n by (auto simp: ParsePlist_block_def bind_eq_Some_conv split: option.splits if_splits prod.splits)
  obtain B1 k where B1: "PlistDataValue Base64Decode D (Some (snd V)) B0 n = Some (True, B1, k)" "InternalSwapBlockData B1 k Sectors Off Size = Some (True, B)"
    using assms(2) V n B0 by (auto simp: ParsePlist_block_def bind_eq_Some_conv split: option.splits if_splits prod.splits)
  obtain N where N: "PlistNodeCast D (Some (snd V)) PLIST_NODE_TYPE_DATA = Some (Some N)"
    using n(1) by (auto simp: PlistDataSize_def bind_eq_Some_conv split: option.splits)
  obtain s where s: "content_string D N = Some (Some s)"
    using n N by (auto simp: PlistDataSize_def bind_eq_Some_conv sizeof_block_def split: option.splits)
  obtain d where d: "Base64Decode s (unat n) = Some d" "length d \<le> length B0" "length d < 2 ^ 32" "B1 = overwrite B0 0 d" "k = of_nat (length d)"
    using B1(1) N s by (auto simp: PlistDataValue_def split: option.splits if_splits)
  have "length B1 = unat n" using d(2,4) assms(1)[OF B0] by simp
  then have "sizeof_block \<le> length B1" using n(2) by (simp add: word_less_nat_alt sizeof_block_def)
  then show ?thesis by (rule swapped_native[OF _ B1(2)])
qed

lemma block_cases:
  fixes x :: "(unit + 'a) option"
  obtains "x = None" | "x = Some (Inl ())" | y where "x = Some (Inr y)"
proof (cases x)
  case (Some y)
  then show ?thesis using that by (cases y) auto
qed (use that in auto)

lemma ParsePlist_loop_native:
  assumes "\<And>n B. Fresh n = Some B \<Longrightarrow> length B = n"
    and "ParsePlist_loop Base64Decode Fresh D Sectors Off Size l Bs = Some (Some Bs')" "\<forall>B \<in> set Bs. native_block_ok Sectors (unat (Off + Size)) B"
  shows "\<forall>B \<in> set Bs'. native_block_ok Sectors (unat (Off + Size)) B"
  using assms(2,3)
proof (induction l arbitrary: Bs)
  case (Cons N l)
  obtain B where B: "ParsePlist_block Base64Decode Fresh D N Sectors Off Size = Some (Inr B)"
    "ParsePlist_loop Base64Decode Fresh D Sectors Off Size l (Bs @ [B]) = Some (Some Bs')"
    using Cons.prems(1) by (cases "ParsePlist_block Base64Decode Fresh D N Sectors Off Size" rule: block_cases) auto
  have "native_block_ok Sectors (unat (Off + Size)) B" by (rule ParsePlist_block_native[OF assms(1) B(1)])
  then have "\<forall>B \<in> set (Bs @ [B]). native_block_ok Sectors (unat (Off + Size)) B" using Cons.prems(2) by simp
  then show ?case by (rule Cons.IH[OF B(2)])
qed simp

lemma InternalParsePlist_native:
  assumes "\<And>n B. Fresh n = Some B \<Longrightarrow> length B = n"
    and "InternalParsePlist Base64Decode Fresh AllocOk Plist Sectors Off Size = Some (Some Bs)"
  shows "\<forall>B \<in> set Bs. native_block_ok Sectors (unat (Off + Size)) B"
proof -
  define dicts where "dicts = (\<lambda>N. case Children N of Some (l, k) \<Rightarrow> l | None \<Rightarrow> [])"
  have dicts: "(case Children N of Some (l, k) \<Rightarrow> l | None \<Rightarrow> []) = dicts N" for N by (simp add: dicts_def)
  note unf = assms(2)[unfolded InternalParsePlist_def dicts]
  obtain D u where D: "XmlDocumentParse AllocOk Plist False = Some (Some D, u)" using unf by (auto simp: bind_eq_Some_conv split: option.split_asm)
  obtain R where R: "PlistDocumentRoot D = Some (Some R)" using unf D by (auto simp: bind_eq_Some_conv split: option.split_asm)
  obtain K V where V: "InternalFindPlistDictChild D R (ascii ''resource-fork'') = Some (Some (K, V))"
    using unf D R by (auto simp: bind_eq_Some_conv split: option.split_asm)
  obtain K' L where L: "InternalFindPlistDictChild D V (ascii ''blkx'') = Some (Some (K', L))"
    using unf D R V by (auto simp: bind_eq_Some_conv split: option.split_asm)
  have "ParsePlist_loop Base64Decode Fresh D Sectors Off Size (dicts L) [] = Some (Some Bs)"
    using unf by (auto simp: D R V L Let_def split: if_split_asm)
  then show ?thesis using ParsePlist_loop_native[OF assms(1)] by force
qed

lemma InitializeContext_native:
  assumes "\<And>n B. Fresh n = Some B \<Longrightarrow> length B = n"
    and "OcAppleDiskImageInitializeContext Base64Decode Fresh AllocOk m T FileSize = Some (Some ctx)"
  shows "\<exists>M. M < unat FileSize \<and> 512 * unat (SectorCount ctx) < 2 ^ 64 \<and> ImageTable ctx = T \<and> (\<forall>B \<in> set (ImageBlocks ctx). native_block_ok (SectorCount ctx) M B)"
proof -
  define Size where "Size = (of_nat sizeof_trailer :: u64)"
  define Off where "Off = FileSize - Size"
  note unf = assms(2)[unfolded OcAppleDiskImageInitializeContext_def Let_def, folded Size_def, folded Off_def]
  obtain Tr where Tr: "OcAppleRamDiskRead m T Off Size = (True, Tr)"
    using unf by (auto split: if_split_asm prod.split_asm)
  define S P Q where "S = (read_be Tr 492 8 :: u64)" and "P = (read_be Tr 24 8 :: u64)" and "Q = (read_be Tr 32 8 :: u64)"
  have r: "\<not> FileSize \<le> Size" "\<not> fst (BaseOverflowMulU64 S APPLE_DISK_IMAGE_SECTOR_SIZE)" "\<not> fst (BaseOverflowAddU64 P Q)" "\<not> P + Q > Off"
    "\<exists>Pl Bs. InternalParsePlist Base64Decode Fresh AllocOk Pl S P Q = Some (Some Bs) \<and> ctx = \<lparr>ImageTable = T, SectorCount = S, ImageBlocks = Bs\<rparr>"
    using unf[unfolded Tr prod.case, folded S_def P_def Q_def] by (auto split: if_split_asm prod.split_asm)
  then obtain Pl Bs where B: "InternalParsePlist Base64Decode Fresh AllocOk Pl S P Q = Some (Some Bs)" "ctx = \<lparr>ImageTable = T, SectorCount = S, ImageBlocks = Bs\<rparr>"
    by blast
  have "unat Off < unat FileSize"
    using r(1) unat_minus_no_wrap[of Size FileSize] by (auto simp: Off_def Size_def sizeof_trailer_def word_le_nat_alt)
  then have "unat (P + Q) < unat FileSize" using r(4) by (simp add: word_less_nat_alt)
  moreover have "512 * unat S < 2 ^ 64" using r(2) unfolding BaseOverflowMulU64_unat by (simp add: APPLE_DISK_IMAGE_SECTOR_SIZE_def)
  ultimately show ?thesis
    using InternalParsePlist_native[OF assms(1) B(1)] by (intro exI[of _ "unat (P + Q)"]) (simp add: B(2))
qed

lemma OcAppleDiskImageRead_spec:
  assumes "context_ok ctx M" "length (table_addrs (ImageTable ctx)) < 2 ^ 64"
  shows "\<exists>r Out. OcAppleDiskImageRead Z A m ctx Lba BufferSize = Some (r, Out)
    \<and> (r \<longrightarrow> available (served_byte Z (disk_bytes m (ImageTable ctx)) ctx (unat Lba)) 0 (unat BufferSize)
        \<and> Out = bytes_of (served_byte Z (disk_bytes m (ImageTable ctx)) ctx (unat Lba)) 0 (unat BufferSize))
    \<and> ((\<forall>k n. A k n) \<and> available (served_byte Z (disk_bytes m (ImageTable ctx)) ctx (unat Lba)) 0 (unat BufferSize) \<longrightarrow> r)"
proof -
  obtain r Out where "iterate (read_body Z A m ctx) (0, Lba, BufferSize, []) = Some (Some (r, Out))"
    "r \<longrightarrow> available (served_byte Z (disk_bytes m (ImageTable ctx)) ctx (unat Lba)) 0 (unat BufferSize)
       \<and> Out = [] @ bytes_of (served_byte Z (disk_bytes m (ImageTable ctx)) ctx (unat Lba)) 0 (unat BufferSize)"
    "(\<forall>k n. A k n) \<and> available (served_byte Z (disk_bytes m (ImageTable ctx)) ctx (unat Lba)) 0 (unat BufferSize) \<longrightarrow> r"
    using read_loop_spec[OF assms refl, of Z A m 0 Lba BufferSize "[]"] by (elim exE conjE)
  then show ?thesis by (auto simp: OcAppleDiskImageRead_def)
qed

section \<open>A small image\<close>

text \<open>A property list with one table, for a base-64 decoder that returns the table, and a disk of the list and the trailer.\<close>

definition sample_plist :: "byte list" where
  "sample_plist = ascii ''<plist><dict><key>resource-fork</key><dict><key>blkx</key><array><dict><key>Data</key><data>'' @ replicate 244 65 @
     ascii ''</data></dict></array></dict></dict></plist>''"

definition sample_file_block :: "byte list" where
  "sample_file_block = replicate 23 0 @ [1] @ replicate 176 0 @ [0,0,0,1] @ [0,0,0,1] @ replicate 19 0 @ [1] @ replicate 16 0"

definition sample_trailer :: "byte list" where
  "sample_trailer = [0x6B, 0x6F, 0x6C, 0x79] @ replicate 6 0 @ [2] @ replicate 219 0 @ [1, 0x7c] @ replicate 267 0 @ [1] @ replicate 12 0"

definition sample_native_block :: "byte list" where
  "sample_native_block = replicate 16 0 @ [1] @ replicate 183 0 @ [1,0,0,0] @ [1,0,0,0] @ replicate 12 0 @ [1] @ replicate 23 0"

lemma sample_swap: "InternalSwapBlockData sample_file_block 244 1 0 0 = Some (True, sample_native_block)"
  by code_simp

lemma sample_lengths: "length sample_plist = 380" "length sample_trailer = 512"
  by code_simp+

lemma PlistDataValue_code [code]:
  "PlistDataValue Base64Decode Document Node Buf Size =
     do {
       N \<leftarrow> PlistNodeCast Document Node PLIST_NODE_TYPE_DATA;
       (case N of
          None \<Rightarrow> Some (False, Buf, Size)
        | Some N \<Rightarrow> do {
            c \<leftarrow> content_string Document N;
            (case c of
               None \<Rightarrow> Some (True, Buf, 0)
             | Some s \<Rightarrow>
                 (case Base64Decode s (unat Size) of
                    None \<Rightarrow> Some (False, Buf, 0)
                  | Some d \<Rightarrow>
                      if length d \<le> length Buf
                      then if int (length d) < 4294967296 then Some (True, overwrite Buf 0 d, of_nat (length d)) else Some (False, overwrite Buf 0 d, 0)
                      else None))
          })
     }"
proof -
  have "length d < 2 ^ 32 \<longleftrightarrow> int (length d) < 4294967296" for d :: "byte list" by simp
  then show ?thesis unfolding PlistDataValue_def by (simp only:)
qed

lemma sample_parse:
  "InternalParsePlist (\<lambda>_ _. Some sample_file_block) (\<lambda>n. Some (replicate n 0)) (\<lambda>_. True) sample_plist 1 0 0 = Some (Some [sample_native_block])"
  by code_simp

definition sample_disk :: "byte list" where "sample_disk = sample_plist @ sample_trailer"

definition sample_mem :: mem where "sample_mem a = sample_disk ! unat a"

definition disk_table :: APPLE_RAM_DISK_EXTENT_TABLE where
  "disk_table = \<lparr>Signature = 0, Version = 0, ExtentCount = 1, Extents = [\<lparr>Start = 0, Length = 892\<rparr>], Reserved = 0, Signature2 = 0\<rparr>"

definition sample_image :: OC_APPLE_DISK_IMAGE_CONTEXT where
  "sample_image = \<lparr>ImageTable = disk_table, SectorCount = 1, ImageBlocks = [sample_native_block]\<rparr>"

lemma disk_table_addrs: "table_addrs disk_table = map of_nat [0..<892]"
  by (simp add: table_addrs_def disk_table_def extent_addrs_def del: upt_rec_numeral)

lemma sample_disk_bytes: "disk_bytes sample_mem disk_table = sample_disk"
proof (intro nth_equalityI)
  show len: "length (disk_bytes sample_mem disk_table) = length sample_disk"
    by (simp add: disk_bytes_def disk_table_addrs sample_disk_def sample_lengths)
  fix i assume "i < length (disk_bytes sample_mem disk_table)"
  then have i: "i < 892" by (simp add: disk_bytes_def disk_table_addrs)
  have "unat (of_nat i :: u64) = i" by (simp only: unat_of_nat) (use i in simp)
  then show "disk_bytes sample_mem disk_table ! i = sample_disk ! i"
    using i by (simp add: disk_bytes_def disk_table_addrs sample_mem_def del: upt_rec_numeral)
qed

lemma sample_trailer_windows:
  "window sample_trailer 0 4 = [0x6B, 0x6F, 0x6C, 0x79]" "window sample_trailer 8 4 = [0, 0, 2, 0]" "window sample_trailer 24 8 = [0, 0, 0, 0, 0, 0, 0, 0]"
  "window sample_trailer 32 8 = [0, 0, 0, 0, 0, 0, 0, 0]" "window sample_trailer 60 4 = [0, 0, 0, 0]" "window sample_trailer 84 4 = [0, 0, 0, 0]"
  "window sample_trailer 216 8 = [0, 0, 0, 0, 0, 0, 0, 0]" "window sample_trailer 224 8 = [0, 0, 0, 0, 0, 0, 1, 0x7C]"
  "window sample_trailer 492 8 = [0, 0, 0, 0, 0, 0, 0, 1]"
  by code_simp+

lemma sample_trailer_fields:
  "(read_be sample_trailer 0 4 :: u32) = APPLE_DISK_IMAGE_MAGIC" "(read_be sample_trailer 8 4 :: u32) = 512" "(read_be sample_trailer 24 8 :: u64) = 0"
  "(read_be sample_trailer 32 8 :: u64) = 0" "(read_be sample_trailer 60 4 :: u32) = 0" "(read_be sample_trailer 84 4 :: u32) = 0"
  "(read_be sample_trailer 216 8 :: u64) = 0" "(read_be sample_trailer 224 8 :: u64) = 380" "(read_be sample_trailer 492 8 :: u64) = 1"
  by (simp_all add: read_be_def sample_trailer_windows APPLE_DISK_IMAGE_MAGIC_def)

lemma sample_initialize:
  "OcAppleDiskImageInitializeContext (\<lambda>_ _. Some sample_file_block) (\<lambda>n. Some (replicate n 0)) (\<lambda>_. True) sample_mem disk_table 892 = Some (Some sample_image)"
proof -
  have T: "length (table_addrs disk_table) < 2 ^ 64" by (simp add: disk_table_addrs)
  have r: "OcAppleRamDiskRead sample_mem disk_table 380 512 = (True, sample_trailer)" "OcAppleRamDiskRead sample_mem disk_table 0 380 = (True, sample_plist)"
    by (simp_all add: RamDiskRead_eq[OF T] sample_disk_bytes sample_disk_def window_def sample_lengths)
  show ?thesis
    using r sample_parse
    by (simp add: OcAppleDiskImageInitializeContext_def sizeof_trailer_def sample_trailer_fields sample_image_def BaseOverflowAddU64_def BaseOverflowMulU64_def
        APPLE_DISK_IMAGE_SECTOR_SIZE_def)
qed

definition sample_header :: APPLE_DISK_IMAGE_BLOCK_DATA where
  "sample_header = \<lparr>BlockSectorNumber = 0, BlockSectorCount = 1, BlockDataOffset = 0, BlockChecksumSize = 0, BlockChunkCount = 1\<rparr>"

definition sample_chunk :: APPLE_DISK_IMAGE_CHUNK where
  "sample_chunk = \<lparr>ChunkType = 1, ChunkSectorNumber = 0, ChunkSectorCount = 1, CompressedOffset = 0, CompressedLength = 0\<rparr>"

lemma sample_block_fields: "block_header sample_native_block = Some sample_header" "block_chunk sample_native_block 0 = Some sample_chunk"
  by code_simp+

lemma sample_lookup: "InternalGetBlockChunk sample_image L = Some (if L = 0 then Some (sample_header, sample_chunk) else None)"
  using word_less_1[of L] by (simp add: InternalGetBlockChunk_def sample_image_def sample_block_fields) (simp add: sample_block_fields sample_header_def sample_chunk_def DMG_SECTOR_START_ABS_def)

lemma sample_no_overlap: "no_overlap sample_image"
  by (auto simp: no_overlap_def sample_lookup chunk_start_def sample_header_def sample_chunk_def unat_eq_0 split: if_splits)

text \<open>
  C29: \<open>InternalSwapBlockData\<close> never leaves a table of at least the size of its header and accepts exactly the tables that pass the tests of the code: the chunk list
  fits the decoded data, the sectors of the block are inside the image, its data starts inside the data fork, the checksum is not too long, and for every chunk the
  end counted from the block's first sector is at most the end of the block counted from the image's, and the data ends inside the data fork. It then leaves the
  big-endian table in native byte order.
\<close>

theorem InternalSwapBlockData_correct:
  assumes "204 \<le> unat MaxSize" "unat MaxSize \<le> length B"
  shows "\<exists>B'. InternalSwapBlockData B MaxSize Sectors DataForkOffset DataForkSize =
        Some (file_block_ok B (unat MaxSize) Sectors DataForkOffset DataForkSize, B') \<and> length B' = length B
     \<and> (file_block_ok B (unat MaxSize) Sectors DataForkOffset DataForkSize \<longrightarrow>
          block_header B' = Some (file_header B) \<and> (\<forall>i < unat (BlockChunkCount (file_header B)). block_chunk B' i = Some (file_chunk B i)))"
  by (rule InternalSwapBlockData_spec[OF assms])

theorem InternalSwapBlockData_correct_witness:
  "\<exists>B'. InternalSwapBlockData sample_file_block 244 1 0 0 = Some (file_block_ok sample_file_block 244 1 0 0, B') \<and> length B' = 244"
proof -
  have "length sample_file_block = 244" by (simp add: sample_file_block_def)
  then show ?thesis using InternalSwapBlockData_correct[of 244 sample_file_block 1 0 0] by auto
qed

text \<open>
  A table that decodes to fewer bytes than its header is not rejected: the room for the chunks, \<open>MaxSize - sizeof (*BlockData)\<close>, wraps, and the
  loop over the chunks leaves the allocation. The caller compares only the length of the encoded text with the size of the header.
\<close>

theorem InternalSwapBlockData_short_table:
  "InternalSwapBlockData (replicate 200 0 @ [0, 0, 0, 1]) 153 1 0 0 = None"
  by code_simp



section \<open>The size of the work buffer wraps\<close>

definition huge_file_block :: "byte list" where
  "huge_file_block = replicate 16 0 @ [0, 0x7F, 255, 255, 255, 255, 255, 255] @ replicate 176 0 @ [0, 0, 0, 1] @
     [0x80, 0, 0, 5, 0, 0, 0, 0, 0, 0, 0, 0, 0, 0, 0, 0, 0, 0x7F, 255, 255, 255, 255, 255, 255, 0, 0, 0, 0, 0, 0, 0, 0, 0, 0, 0, 0, 0, 0, 4, 0]"

definition huge_table :: APPLE_RAM_DISK_EXTENT_TABLE where
  "huge_table = \<lparr>Signature = 0, Version = 0, ExtentCount = 1, Extents = [\<lparr>Start = 0, Length = 0x1000\<rparr>], Reserved = 0, Signature2 = 0\<rparr>"

definition huge_header :: APPLE_DISK_IMAGE_BLOCK_DATA where
  "huge_header = \<lparr>BlockSectorNumber = 0, BlockSectorCount = 0x7FFFFFFFFFFFFF, BlockDataOffset = 0, BlockChecksumSize = 0, BlockChunkCount = 1\<rparr>"

definition huge_chunk :: APPLE_DISK_IMAGE_CHUNK where
  "huge_chunk = \<lparr>ChunkType = APPLE_DISK_IMAGE_CHUNK_TYPE_ZLIB, ChunkSectorNumber = 0, ChunkSectorCount = 0x7FFFFFFFFFFFFF, CompressedOffset = 0, CompressedLength = 1024\<rparr>"

lemma huge_windows:
  "window huge_file_block 8 8 = [0, 0, 0, 0, 0, 0, 0, 0]" "window huge_file_block 16 8 = [0, 0x7F, 255, 255, 255, 255, 255, 255]"
  "window huge_file_block 24 8 = [0, 0, 0, 0, 0, 0, 0, 0]" "window huge_file_block 68 4 = [0, 0, 0, 0]" "window huge_file_block 200 4 = [0, 0, 0, 1]"
  "window huge_file_block 204 4 = [0x80, 0, 0, 5]" "window huge_file_block 212 8 = [0, 0, 0, 0, 0, 0, 0, 0]"
  "window huge_file_block 220 8 = [0, 0x7F, 255, 255, 255, 255, 255, 255]" "window huge_file_block 228 8 = [0, 0, 0, 0, 0, 0, 0, 0]"
  "window huge_file_block 236 8 = [0, 0, 0, 0, 0, 0, 4, 0]" "length huge_file_block = 244"
  by code_simp+

lemma huge_fields: "file_header huge_file_block = huge_header" "file_chunk huge_file_block 0 = huge_chunk"
  by (simp_all add: file_header_def file_chunk_def read_be_def huge_windows sizeof_block_def huge_header_def huge_chunk_def APPLE_DISK_IMAGE_CHUNK_TYPE_ZLIB_def)

text \<open>
  A compressed chunk of an image of just under \<open>2 ^ 64\<close> bytes passes every check, but the size of the buffer for its compressed and decompressed data
  wraps to a few hundred bytes, and the read writes outside of it.
\<close>

theorem OcAppleDiskImageRead_wraps:
  "\<exists>B. InternalSwapBlockData huge_file_block 244 0x7FFFFFFFFFFFFF 0 1024 = Some (True, B) \<and>
    fst (BaseOverflowMulU64 0x7FFFFFFFFFFFFF APPLE_DISK_IMAGE_SECTOR_SIZE) = False \<and>
    OcAppleDiskImageRead DecompressZLIB (\<lambda>_ n. n \<le> 512) m \<lparr>ImageTable = huge_table, SectorCount = 0x7FFFFFFFFFFFFF, ImageBlocks = [B]\<rparr> 0 512 = None"
proof -
  let ?S = "0x7FFFFFFFFFFFFF :: u64"
  have one: "unat (BlockChunkCount huge_header) = 1" by (simp add: huge_header_def)
  have "file_block_ok huge_file_block (unat (244 :: u32)) ?S 0 1024"
    unfolding file_block_ok_def Let_def huge_fields one
    by (simp add: huge_fields sizeof_block_def sizeof_dmg_chunk_def) (simp add: huge_header_def huge_chunk_def chunk_ok_def)
  then obtain B where B: "InternalSwapBlockData huge_file_block 244 ?S 0 1024 = Some (True, B)" "block_header B = Some huge_header" "block_chunk B 0 = Some huge_chunk"
    using InternalSwapBlockData_spec[of 244 huge_file_block ?S 0 1024] by (auto simp: huge_windows huge_fields one)
  let ?ctx = "\<lparr>ImageTable = huge_table, SectorCount = ?S, ImageBlocks = [B]\<rparr>"
  have L: "InternalGetBlockChunk ?ctx 0 = Some (Some (huge_header, huge_chunk))"
    by (simp add: InternalGetBlockChunk_def B(2,3) one) (simp add: B(3) huge_header_def huge_chunk_def DMG_SECTOR_START_ABS_def)
  have T: "length (table_addrs huge_table) = 4096" by (simp add: table_addrs_def huge_table_def extent_addrs_def)
  have R: "OcAppleRamDiskRead m huge_table 0 1024 = (True, window (disk_bytes m huge_table) 0 1024)" "length (window (disk_bytes m huge_table) 0 1024) = 1024"
    using RamDiskRead_eq[of huge_table m 0 1024] T by (simp_all add: disk_bytes_def window_def)
  have "read_chunk DecompressZLIB (\<lambda>n. n \<le> 512) m huge_table huge_chunk 0 (?S * 512) N = None" for N
    using R by (simp add: read_chunk_def huge_chunk_def APPLE_DISK_IMAGE_CHUNK_TYPE_ZERO_def APPLE_DISK_IMAGE_CHUNK_TYPE_RAW_def
        APPLE_DISK_IMAGE_CHUNK_TYPE_IGNORE_def APPLE_DISK_IMAGE_CHUNK_TYPE_ZLIB_def)
  then have "read_body DecompressZLIB (\<lambda>_ n. n \<le> 512) m ?ctx (0, 0, 512, []) = Break None"
    using L by (simp add: read_body_def) (simp add: BaseOverflowMulU64_def APPLE_DISK_IMAGE_SECTOR_SIZE_def huge_chunk_def huge_header_def DMG_SECTOR_START_ABS_def)
  then have "OcAppleDiskImageRead DecompressZLIB (\<lambda>_ n. n \<le> 512) m ?ctx 0 512 = None" by (simp add: OcAppleDiskImageRead_def iterate_Break)
  moreover have "fst (BaseOverflowMulU64 ?S APPLE_DISK_IMAGE_SECTOR_SIZE) = False" by (simp add: BaseOverflowMulU64_def APPLE_DISK_IMAGE_SECTOR_SIZE_def)
  ultimately show ?thesis using B(1) by blast
qed

end
