(* ===== verification/Oc_Umm.thy ===== *)
theory Oc_Umm
  imports Oc_Prelude
begin

unbundle bit_operations_syntax

text \<open>
  Model of \<^verbatim>\<open>Library/OcMemoryLib/UmmMalloc.c\<close>, the allocator for runtime memory: an array of blocks of 16 bytes, with a doubly linked
  list of block runs in their headers and a ring of the free runs in the bodies of the free ones, from block 0. The memory of a caller is the body of the first block of
  a run and all of the following ones. \<open>None\<close> is an access outside the heap, or a search that does not end.
\<close>

section \<open>The code\<close>

record umm_block =
  used_next :: u32
  used_prev :: u32
  free_next :: u32
  free_prev :: u32

definition UMM_FREELIST_MASK :: u32 where "UMM_FREELIST_MASK = 0x80000000"
definition UMM_BLOCKNO_MASK :: u32 where "UMM_BLOCKNO_MASK = 0x7FFFFFFF"

record umm_state =
  default_umm_heap :: u64
  default_umm_heap_size :: u32
  umm_heap :: "umm_block list"
  umm_numblocks :: u32

definition UMM_NBLOCK :: "umm_block list \<Rightarrow> u32 \<Rightarrow> u32 option" where
  "UMM_NBLOCK h b = map_option used_next (rd h (unat b))"

definition UMM_PBLOCK :: "umm_block list \<Rightarrow> u32 \<Rightarrow> u32 option" where
  "UMM_PBLOCK h b = map_option used_prev (rd h (unat b))"

definition UMM_NFREE :: "umm_block list \<Rightarrow> u32 \<Rightarrow> u32 option" where
  "UMM_NFREE h b = map_option free_next (rd h (unat b))"

definition UMM_PFREE :: "umm_block list \<Rightarrow> u32 \<Rightarrow> u32 option" where
  "UMM_PFREE h b = map_option free_prev (rd h (unat b))"

text \<open>The assignments to the same fields.\<close>

definition set_NBLOCK :: "u32 \<Rightarrow> u32 \<Rightarrow> umm_block list \<Rightarrow> umm_block list option" where
  "set_NBLOCK b v h = Option.bind (rd h (unat b)) (\<lambda>x. wr h (unat b) (x\<lparr>used_next := v\<rparr>))"

definition set_PBLOCK :: "u32 \<Rightarrow> u32 \<Rightarrow> umm_block list \<Rightarrow> umm_block list option" where
  "set_PBLOCK b v h = Option.bind (rd h (unat b)) (\<lambda>x. wr h (unat b) (x\<lparr>used_prev := v\<rparr>))"

definition set_NFREE :: "u32 \<Rightarrow> u32 \<Rightarrow> umm_block list \<Rightarrow> umm_block list option" where
  "set_NFREE b v h = Option.bind (rd h (unat b)) (\<lambda>x. wr h (unat b) (x\<lparr>free_next := v\<rparr>))"

definition set_PFREE :: "u32 \<Rightarrow> u32 \<Rightarrow> umm_block list \<Rightarrow> umm_block list option" where
  "set_PFREE b v h = Option.bind (rd h (unat b)) (\<lambda>x. wr h (unat b) (x\<lparr>free_prev := v\<rparr>))"

definition umm_blocks :: "u32 \<Rightarrow> u32" where
  "umm_blocks Size = (if Size \<le> 8 then 1 else 2 + (Size - (1 + 8)) div 16)"

definition umm_split_block :: "u32 \<Rightarrow> u32 \<Rightarrow> u32 \<Rightarrow> umm_block list \<Rightarrow> umm_block list option" where
  "umm_split_block c blocks new_freemask h =
     do {
       n \<leftarrow> UMM_NBLOCK h c;
       h \<leftarrow> set_NBLOCK (c + blocks) ((n AND UMM_BLOCKNO_MASK) OR new_freemask) h;
       h \<leftarrow> set_PBLOCK (c + blocks) c h;
       n \<leftarrow> UMM_NBLOCK h c;
       h \<leftarrow> set_PBLOCK (n AND UMM_BLOCKNO_MASK) (c + blocks) h;
       set_NBLOCK c (c + blocks) h
     }"

definition umm_disconnect_from_free_list :: "u32 \<Rightarrow> umm_block list \<Rightarrow> umm_block list option" where
  "umm_disconnect_from_free_list c h =
     do {
       p \<leftarrow> UMM_PFREE h c;
       n \<leftarrow> UMM_NFREE h c;
       h \<leftarrow> set_NFREE p n h;
       p \<leftarrow> UMM_PFREE h c;
       n \<leftarrow> UMM_NFREE h c;
       h \<leftarrow> set_PFREE n p h;
       n \<leftarrow> UMM_NBLOCK h c;
       set_NBLOCK c (n AND NOT UMM_FREELIST_MASK) h
     }"

definition umm_assimilate_up :: "u32 \<Rightarrow> umm_block list \<Rightarrow> umm_block list option" where
  "umm_assimilate_up c h =
     do {
       n \<leftarrow> UMM_NBLOCK h c;
       m \<leftarrow> UMM_NBLOCK h n;
       if m AND UMM_FREELIST_MASK \<noteq> 0
       then do {
         h \<leftarrow> umm_disconnect_from_free_list n h;
         n \<leftarrow> UMM_NBLOCK h c;
         m \<leftarrow> UMM_NBLOCK h n;
         h \<leftarrow> set_PBLOCK (m AND UMM_BLOCKNO_MASK) c h;
         n \<leftarrow> UMM_NBLOCK h c;
         m \<leftarrow> UMM_NBLOCK h n;
         set_NBLOCK c (m AND UMM_BLOCKNO_MASK) h
       }
       else Some h
     }"

definition umm_assimilate_down :: "u32 \<Rightarrow> u32 \<Rightarrow> umm_block list \<Rightarrow> (u32 \<times> umm_block list) option" where
  "umm_assimilate_down c freemask h =
     do {
       p \<leftarrow> UMM_PBLOCK h c;
       n \<leftarrow> UMM_NBLOCK h c;
       h \<leftarrow> set_NBLOCK p (n OR freemask) h;
       p \<leftarrow> UMM_PBLOCK h c;
       n \<leftarrow> UMM_NBLOCK h c;
       h \<leftarrow> set_PBLOCK n p h;
       p \<leftarrow> UMM_PBLOCK h c;
       Some (p, h)
     }"

definition umm_init :: "umm_block list \<Rightarrow> umm_state \<Rightarrow> umm_state option" where
  "umm_init memory s =
     (let numblocks = default_umm_heap_size s div 16;
          block_last = numblocks - 1
      in do {
           h \<leftarrow> set_NBLOCK 0 1 memory;
           h \<leftarrow> set_NFREE 0 1 h;
           h \<leftarrow> set_PFREE 0 1 h;
           h \<leftarrow> set_NBLOCK 1 (block_last OR UMM_FREELIST_MASK) h;
           h \<leftarrow> set_NFREE 1 0 h;
           h \<leftarrow> set_PBLOCK 1 0 h;
           h \<leftarrow> set_PFREE 1 0 h;
           h \<leftarrow> set_NBLOCK block_last 0 h;
           h \<leftarrow> set_PBLOCK block_last 1 h;
           Some (s\<lparr>umm_heap := h, umm_numblocks := numblocks\<rparr>)
         })"

definition UmmInitialized :: "umm_state \<Rightarrow> bool" where
  "UmmInitialized s \<longleftrightarrow> default_umm_heap s \<noteq> 0"

text \<open>\<open>memory\<close> is what the blocks of the new heap contain.\<close>

definition UmmSetHeap :: "u64 \<Rightarrow> u32 \<Rightarrow> umm_block list \<Rightarrow> umm_state \<Rightarrow> umm_state option" where
  "UmmSetHeap heap Size memory s = umm_init memory (s\<lparr>default_umm_heap := heap, default_umm_heap_size := Size\<rparr>)"

definition UmmFree :: "u64 \<Rightarrow> umm_state \<Rightarrow> (bool \<times> umm_state) option" where
  "UmmFree ptr s =
     (if \<not> UmmInitialized s then Some (False, s)
      else if ptr = 0 then Some (False, s)
      else if ptr < default_umm_heap s \<or> ptr \<ge> default_umm_heap s + ucast (default_umm_heap_size s) then Some (False, s)
      else
        (let c = ucast ((ptr - default_umm_heap s) div 16) :: u32
         in do {
              h \<leftarrow> umm_assimilate_up c (umm_heap s);
              p \<leftarrow> UMM_PBLOCK h c;
              m \<leftarrow> UMM_NBLOCK h p;
              h \<leftarrow> (if m AND UMM_FREELIST_MASK \<noteq> 0
                   then map_option snd (umm_assimilate_down c UMM_FREELIST_MASK h)
                   else do {
                     n \<leftarrow> UMM_NFREE h 0;
                     h \<leftarrow> set_PFREE n c h;
                     n \<leftarrow> UMM_NFREE h 0;
                     h \<leftarrow> set_NFREE c n h;
                     h \<leftarrow> set_PFREE c 0 h;
                     h \<leftarrow> set_NFREE 0 c h;
                     m \<leftarrow> UMM_NBLOCK h c;
                     set_NBLOCK c (m OR UMM_FREELIST_MASK) h
                   });
              Some (True, s\<lparr>umm_heap := h\<rparr>)
            }))"

text \<open>The search: the state is \<open>cf\<close>, \<open>bestBlock\<close>, \<open>bestSize\<close> and \<open>blockSize\<close>.\<close>

definition malloc_body :: "u32 \<Rightarrow> umm_block list \<Rightarrow> u32 \<times> u32 \<times> u32 \<times> u32 \<Rightarrow> (u32 \<times> u32 \<times> u32 \<times> u32, (u32 \<times> u32 \<times> u32 \<times> u32) option) ctl" where
  "malloc_body blocks h = (\<lambda>(cf, bestBlock, bestSize, blockSize).
     if cf = 0 then Break (Some (cf, bestBlock, bestSize, blockSize))
     else
       (case (UMM_NBLOCK h cf, UMM_NFREE h cf) of
          (Some n, Some f) \<Rightarrow>
            (let blockSize = (n AND UMM_BLOCKNO_MASK) - cf;
                 better = blockSize \<ge> blocks \<and> blockSize < bestSize
             in Continue (f, if better then cf else bestBlock, if better then blockSize else bestSize, blockSize))
        | _ \<Rightarrow> Break None))"

definition UmmMalloc :: "u32 \<Rightarrow> umm_state \<Rightarrow> (u64 \<times> umm_state) option" where
  "UmmMalloc Size s =
     (if \<not> UmmInitialized s then Some (0, s)
      else if Size = 0 then Some (0, s)
      else do {
        let blocks = umm_blocks Size;
        let h = umm_heap s;
        f \<leftarrow> UMM_NFREE h 0;
        r \<leftarrow> iterate (malloc_body blocks h) (f, f, 0x7FFFFFFF, 0);
        (cf, bestBlock, bestSize, blockSize) \<leftarrow> r;
        let (cf, blockSize) = (if bestSize \<noteq> 0x7FFFFFFF then (bestBlock, bestSize) else (cf, blockSize));
        n \<leftarrow> UMM_NBLOCK h cf;
        if n AND UMM_BLOCKNO_MASK \<noteq> 0 \<and> blockSize \<ge> blocks
        then do {
          h \<leftarrow> (if blockSize = blocks then umm_disconnect_from_free_list cf h
               else do {
                 h \<leftarrow> umm_split_block cf blocks UMM_FREELIST_MASK h;
                 p \<leftarrow> UMM_PFREE h cf;
                 h \<leftarrow> set_NFREE p (cf + blocks) h;
                 p \<leftarrow> UMM_PFREE h cf;
                 h \<leftarrow> set_PFREE (cf + blocks) p h;
                 n \<leftarrow> UMM_NFREE h cf;
                 h \<leftarrow> set_PFREE n (cf + blocks) h;
                 n \<leftarrow> UMM_NFREE h cf;
                 set_NFREE (cf + blocks) n h
               });
          Some (default_umm_heap s + 16 * ucast cf + 8, s\<lparr>umm_heap := h\<rparr>)
        }
        else Some (0, s)
      })"

section \<open>Blocks as words\<close>

text \<open>The number of a block as the code stores it, with the mark of a free run.\<close>

definition ref :: "nat \<Rightarrow> bool \<Rightarrow> u32" where
  "ref b f = of_nat b OR (if f then UMM_FREELIST_MASK else 0)"

lemma small_word: "b < 2 ^ 31 \<Longrightarrow> unat (of_nat b :: u32) = b"
  by (simp only: unat_of_nat) simp

lemma not_bit_31: "b < 2 ^ 31 \<Longrightarrow> \<not> bit (of_nat b :: u32) 31"
proof -
  assume b: "b < 2 ^ 31"
  have "unat (drop_bit 31 (of_nat b :: u32)) = 0" unfolding unat_drop_bit_eq small_word[OF b] using b by (simp add: drop_bit_eq_div)
  then have "drop_bit 31 (of_nat b :: u32) = 0" by (simp only: unat_eq_0)
  then show ?thesis unfolding bit_iff_odd_drop_bit by simp
qed

lemma mask_bit: "bit UMM_FREELIST_MASK n \<longleftrightarrow> n = 31" "bit UMM_BLOCKNO_MASK n \<longleftrightarrow> n < 31"
proof -
  have f: "UMM_FREELIST_MASK = push_bit 31 1" by (simp add: UMM_FREELIST_MASK_def)
  show "bit UMM_FREELIST_MASK n \<longleftrightarrow> n = 31" unfolding f by (auto simp only: bit_push_bit_iff bit_1_iff) auto
  have b: "UMM_BLOCKNO_MASK = mask 31" by (simp add: UMM_BLOCKNO_MASK_def mask_eq_exp_minus_1)
  show "bit UMM_BLOCKNO_MASK n \<longleftrightarrow> n < 31" unfolding b by (auto simp only: bit_mask_iff) auto
qed

lemma ref_masks:
  assumes "b < 2 ^ 31"
  shows "ref b f AND UMM_BLOCKNO_MASK = of_nat b" "ref b f AND UMM_FREELIST_MASK \<noteq> 0 \<longleftrightarrow> f" "ref b f OR UMM_FREELIST_MASK = ref b True"
    "ref b f AND NOT UMM_FREELIST_MASK = ref b False" "of_nat b OR UMM_FREELIST_MASK = ref b True" "ref b False = of_nat b"
    "of_nat b AND UMM_BLOCKNO_MASK = (of_nat b :: u32)"
proof -
  have b: "\<not> bit (of_nat b :: u32) 31" using assms by (rule not_bit_31)
  have hi: "\<not> bit (of_nat b :: u32) n" if "\<not> n < 31" "n < 32" for n using b that by (cases "n = 31") auto
  have bits: "bit (ref b f) n \<longleftrightarrow> (bit (of_nat b :: u32) n \<or> f \<and> n = 31)" for f n by (simp add: ref_def bit_or_iff mask_bit)
  show "ref b f AND UMM_BLOCKNO_MASK = of_nat b" "of_nat b AND UMM_BLOCKNO_MASK = (of_nat b :: u32)"
    using hi by (auto intro!: bit_word_eqI simp: bit_and_iff bits mask_bit intro: ccontr)
  show "ref b f OR UMM_FREELIST_MASK = ref b True" "of_nat b OR UMM_FREELIST_MASK = ref b True"
    by (auto intro!: bit_word_eqI simp: bit_or_iff bits mask_bit)
  show "ref b f AND NOT UMM_FREELIST_MASK = ref b False"
    using b by (auto intro!: bit_word_eqI simp: bit_and_iff bit_not_iff bits mask_bit)
  show "ref b False = of_nat b" by (simp add: ref_def)
  show "ref b f AND UMM_FREELIST_MASK \<noteq> 0 \<longleftrightarrow> f"
  proof
    assume "ref b f AND UMM_FREELIST_MASK \<noteq> 0"
    then obtain n where "bit (ref b f AND UMM_FREELIST_MASK) n" by (metis bit_eqI bit_0_eq bot_apply bot_bool_def)
    then show f using b by (auto simp: bit_and_iff bits mask_bit)
  next
    assume f
    then have "bit (ref b f AND UMM_FREELIST_MASK) 31" by (simp add: bit_and_iff bits mask_bit)
    then show "ref b f AND UMM_FREELIST_MASK \<noteq> 0" by auto
  qed
qed

lemma sizes:
  fixes n :: nat
  assumes "9 \<le> n" "n < 4294967296"
  shows "(n - 9) div 16 < 536870910" "n \<le> 24 + 16 * ((n - 9) div 16)" "8 + 16 * ((n - 9) div 16) < n"
proof -
  have "16 * ((n - 9) div 16) \<le> n - 9" "n - 9 < 16 * ((n - 9) div 16) + 16" by simp_all
  then show "(n - 9) div 16 < 536870910" "n \<le> 24 + 16 * ((n - 9) div 16)" "8 + 16 * ((n - 9) div 16) < n" using assms by linarith+
qed

lemma umm_blocks_enough: "Size \<noteq> 0 \<Longrightarrow> 0 < unat (umm_blocks Size) \<and> unat (umm_blocks Size) < 2 ^ 29 \<and> unat Size \<le> 16 * unat (umm_blocks Size) - 8
    \<and> (8 < Size \<longrightarrow> 16 * (unat (umm_blocks Size) - 1) - 8 < unat Size)"
proof (cases "Size \<le> 8")
  case False
  then have m: "unat (Size - 9) = unat Size - 9" using unat_minus_no_wrap[of 9 Size] by (simp add: word_le_nat_alt)
  have d: "unat ((Size - 9) div 16) = (unat Size - 9) div 16" by (simp add: unat_div m)
  have lt: "unat Size < 2 ^ 32" using unsigned_less[of Size] by simp
  have "(unat Size - 9) div 16 < 2 ^ 28" using lt by (simp add: less_mult_imp_div_less)
  then have "unat (2 + (Size - 9) div 16) = 2 + (unat Size - 9) div 16" using d unat_plus_no_wrap[of 2 "(Size - 9) div 16"] by simp
  moreover have "9 \<le> unat Size" using False by (simp add: word_le_nat_alt)
  ultimately show ?thesis using False lt sizes[of "unat Size"] by (simp add: umm_blocks_def)
qed (simp add: umm_blocks_def word_le_nat_alt unat_gt_0)

section \<open>The two lists\<close>

text \<open>The heap after an assignment to one field.\<close>

definition updN :: "umm_block list \<Rightarrow> nat \<Rightarrow> u32 \<Rightarrow> umm_block list" where "updN h i v = h[i := (h ! i)\<lparr>used_next := v\<rparr>]"
definition updP :: "umm_block list \<Rightarrow> nat \<Rightarrow> u32 \<Rightarrow> umm_block list" where "updP h i v = h[i := (h ! i)\<lparr>used_prev := v\<rparr>]"
definition updNF :: "umm_block list \<Rightarrow> nat \<Rightarrow> u32 \<Rightarrow> umm_block list" where "updNF h i v = h[i := (h ! i)\<lparr>free_next := v\<rparr>]"
definition updPF :: "umm_block list \<Rightarrow> nat \<Rightarrow> u32 \<Rightarrow> umm_block list" where "updPF h i v = h[i := (h ! i)\<lparr>free_prev := v\<rparr>]"

lemmas upd_defs = updN_def updP_def updNF_def updPF_def

lemma upd_length [simp]: "length (updN h i v) = length h" "length (updP h i v) = length h" "length (updNF h i v) = length h" "length (updPF h i v) = length h"
  by (simp_all add: upd_defs)

lemma upd_Nil [simp]: "updN h i v = [] \<longleftrightarrow> h = []" "updP h i v = [] \<longleftrightarrow> h = []" "updNF h i v = [] \<longleftrightarrow> h = []" "updPF h i v = [] \<longleftrightarrow> h = []"
  by (simp_all add: upd_defs)

lemma upd_other [simp]: "i \<noteq> j \<Longrightarrow> updN h i v ! j = h ! j" "i \<noteq> j \<Longrightarrow> updP h i v ! j = h ! j" "i \<noteq> j \<Longrightarrow> updNF h i v ! j = h ! j"
  "i \<noteq> j \<Longrightarrow> updPF h i v ! j = h ! j"
  by (simp_all add: upd_defs)

lemma upd_fields [simp]:
  "used_prev (updN h i v ! j) = used_prev (h ! j)" "free_next (updN h i v ! j) = free_next (h ! j)" "free_prev (updN h i v ! j) = free_prev (h ! j)"
  "used_next (updP h i v ! j) = used_next (h ! j)" "free_next (updP h i v ! j) = free_next (h ! j)" "free_prev (updP h i v ! j) = free_prev (h ! j)"
  "used_next (updNF h i v ! j) = used_next (h ! j)" "used_prev (updNF h i v ! j) = used_prev (h ! j)" "free_prev (updNF h i v ! j) = free_prev (h ! j)"
  "used_next (updPF h i v ! j) = used_next (h ! j)" "used_prev (updPF h i v ! j) = used_prev (h ! j)" "free_next (updPF h i v ! j) = free_next (h ! j)"
  by (cases "i < length h \<and> i = j"; force simp: upd_defs nth_list_update list_update_beyond)+

lemma upd_field [simp]:
  "i < length h \<Longrightarrow> used_next (updN h i v ! j) = (if j = i then v else used_next (h ! j))"
  "i < length h \<Longrightarrow> used_prev (updP h i v ! j) = (if j = i then v else used_prev (h ! j))"
  "i < length h \<Longrightarrow> free_next (updNF h i v ! j) = (if j = i then v else free_next (h ! j))"
  "i < length h \<Longrightarrow> free_prev (updPF h i v ! j) = (if j = i then v else free_prev (h ! j))"
  by (simp_all add: upd_defs)

lemma access [simp]:
  assumes "b < length h" "length h < 2 ^ 28"
  shows "UMM_NBLOCK h (of_nat b) = Some (used_next (h ! b))" "UMM_PBLOCK h (of_nat b) = Some (used_prev (h ! b))"
    "UMM_NFREE h (of_nat b) = Some (free_next (h ! b))" "UMM_PFREE h (of_nat b) = Some (free_prev (h ! b))"
    "set_NBLOCK (of_nat b) v h = Some (updN h b v)" "set_PBLOCK (of_nat b) v h = Some (updP h b v)"
    "set_NFREE (of_nat b) v h = Some (updNF h b v)" "set_PFREE (of_nat b) v h = Some (updPF h b v)"
proof -
  have "unat (of_nat b :: u32) = b" using assms by (intro small_word) simp
  then show "UMM_NBLOCK h (of_nat b) = Some (used_next (h ! b))" "UMM_PBLOCK h (of_nat b) = Some (used_prev (h ! b))"
    "UMM_NFREE h (of_nat b) = Some (free_next (h ! b))" "UMM_PFREE h (of_nat b) = Some (free_prev (h ! b))"
    "set_NBLOCK (of_nat b) v h = Some (updN h b v)" "set_PBLOCK (of_nat b) v h = Some (updP h b v)"
    "set_NFREE (of_nat b) v h = Some (updNF h b v)" "set_PFREE (of_nat b) v h = Some (updPF h b v)"
    using assms(1) by (simp_all add: UMM_NBLOCK_def UMM_PBLOCK_def UMM_NFREE_def UMM_PFREE_def set_NBLOCK_def set_PBLOCK_def set_NFREE_def set_PFREE_def upd_defs)
qed

lemmas access_0 [simp] = access[of 0, simplified]

lemma in_set_tlD: "x \<in> set (tl xs) \<Longrightarrow> x \<in> set xs"
  by (cases xs) auto

text \<open>
  A run of blocks is its first block with whether it is free. Consecutive runs point to each other; consecutive free runs do in the ring.
\<close>

type_synonym runs = "(nat \<times> bool) list"

definition link :: "umm_block list \<Rightarrow> nat \<times> bool \<Rightarrow> nat \<times> bool \<Rightarrow> bool" where
  "link h x y \<longleftrightarrow> used_next (h ! fst x) = ref (fst y) (snd x) \<and> used_prev (h ! fst y) = of_nat (fst x)"

definition flink :: "umm_block list \<Rightarrow> nat \<Rightarrow> nat \<Rightarrow> bool" where
  "flink h a b \<longleftrightarrow> free_next (h ! a) = of_nat b \<and> free_prev (h ! b) = of_nat a"

lemma link_frame:
  assumes "successively (link h) xs" "\<And>x. x \<in> set (butlast xs) \<Longrightarrow> used_next (h' ! fst x) = used_next (h ! fst x)"
    "\<And>x. x \<in> set (tl xs) \<Longrightarrow> used_prev (h' ! fst x) = used_prev (h ! fst x)"
  shows "successively (link h') xs"
  using assms by (induction xs rule: induct_list012) (auto simp: link_def)

lemma link_frame_left:
  assumes "successively (link h) (xs @ [x])" "\<And>i. i \<in> fst ` set xs \<Longrightarrow> used_next (h' ! i) = used_next (h ! i)"
    "\<And>i. i \<in> fst ` set (xs @ [x]) \<Longrightarrow> used_prev (h' ! i) = used_prev (h ! i)"
  shows "successively (link h') (xs @ [x])"
proof (rule link_frame[OF assms(1)])
  show "used_next (h' ! fst y) = used_next (h ! fst y)" if "y \<in> set (butlast (xs @ [x]))" for y using that by (intro assms(2)) simp
  show "used_prev (h' ! fst y) = used_prev (h ! fst y)" if "y \<in> set (tl (xs @ [x]))" for y using in_set_tlD[OF that] by (intro assms(3) imageI)
qed

lemma link_frame_right:
  assumes "successively (link h) (x # xs)" "\<And>i. i \<in> fst ` set (x # xs) \<Longrightarrow> used_next (h' ! i) = used_next (h ! i)"
    "\<And>i. i \<in> fst ` set xs \<Longrightarrow> used_prev (h' ! i) = used_prev (h ! i)"
  shows "successively (link h') (x # xs)"
proof (rule link_frame[OF assms(1)])
  show "used_next (h' ! fst y) = used_next (h ! fst y)" if "y \<in> set (butlast (x # xs))" for y using in_set_butlastD[OF that] by (intro assms(2) imageI)
  show "used_prev (h' ! fst y) = used_prev (h ! fst y)" if "y \<in> set (tl (x # xs))" for y using that by (intro assms(3)) simp
qed

lemma flink_frame:
  assumes "successively (flink h) xs" "\<And>x. x \<in> set (butlast xs) \<Longrightarrow> free_next (h' ! x) = free_next (h ! x)"
    "\<And>x. x \<in> set (tl xs) \<Longrightarrow> free_prev (h' ! x) = free_prev (h ! x)"
  shows "successively (flink h') xs"
  using assms by (induction xs rule: induct_list012) (auto simp: flink_def)

text \<open>
  The invariant: the runs cover the heap between the first and the last block, no two free runs are adjacent, and the ring holds exactly the free runs.
\<close>

definition heap_inv :: "umm_block list \<Rightarrow> runs \<Rightarrow> nat list \<Rightarrow> bool" where
  "heap_inv h bs fl \<longleftrightarrow> 2 < length h \<and> length h < 2 ^ 28 \<and> sorted_wrt (<) (map fst bs) \<and>
     bs \<noteq> [] \<and> hd bs = (0, False) \<and> last bs = (length h - 1, False) \<and> 1 \<in> fst ` set bs \<and>
     successively (link h) bs \<and> used_next (h ! (length h - 1)) = 0 \<and> successively (\<lambda>x y. \<not> (snd x \<and> snd y)) bs \<and>
     successively (flink h) (0 # fl @ [0]) \<and> distinct fl \<and> set fl = {a. (a, True) \<in> set bs}"

lemma heap_invD:
  assumes "heap_inv h bs fl"
  shows "2 < length h" "length h < 2 ^ 28" "sorted_wrt (<) (map fst bs)" "bs \<noteq> []" "hd bs = (0, False)" "last bs = (length h - 1, False)" "1 \<in> fst ` set bs"
    "successively (link h) bs" "used_next (h ! (length h - 1)) = 0" "successively (\<lambda>x y. \<not> (snd x \<and> snd y)) bs"
    "successively (flink h) (0 # fl @ [0])" "distinct fl" "set fl = {a. (a, True) \<in> set bs}"
  using assms unfolding heap_inv_def by blast+

lemma sorted_last:
  fixes xs :: "nat list"
  shows "sorted_wrt (<) xs \<Longrightarrow> x \<in> set xs \<Longrightarrow> x \<le> last xs"
  by (induction xs) (auto intro: less_imp_le)

lemma heap_inv_range:
  assumes "heap_inv h bs fl"
  shows "x \<in> set bs \<Longrightarrow> fst x < length h" "(a, True) \<in> set bs \<Longrightarrow> 0 < a" "a \<in> set fl \<Longrightarrow> 0 < a \<and> a < length h" "distinct (map fst bs)"
    "(a, f) \<in> set bs \<Longrightarrow> (a, g) \<in> set bs \<Longrightarrow> f = g"
proof -
  have s: "sorted_wrt (<) (map fst bs)" using assms by (simp add: heap_inv_def)
  then show d: "distinct (map fst bs)" by (simp add: strict_sorted_iff)
  then show e: "(a, f) \<in> set bs \<Longrightarrow> (a, g) \<in> set bs \<Longrightarrow> f = g" for a f g by (metis eq_key_imp_eq_value)
  show r: "fst x < length h" if "x \<in> set bs" for x
  proof -
    have "fst x \<le> last (map fst bs)" using sorted_last[OF s] that by simp
    also have "\<dots> = length h - 1" using assms by (simp add: heap_inv_def last_map)
    also have "\<dots> < length h" using assms by (auto simp: heap_inv_def)
    finally show ?thesis .
  qed
  show p: "0 < a" if "(a, True) \<in> set bs" for a
  proof (rule ccontr)
    assume "\<not> 0 < a"
    then have "(0, True) \<in> set bs" "(0, False) \<in> set bs" using that assms by (auto simp: heap_inv_def dest: hd_in_set)
    then show False using e by blast
  qed
  show "a \<in> set fl \<Longrightarrow> 0 < a \<and> a < length h" using p r assms by (auto simp: heap_inv_def)
qed

text \<open>What an operation may change: the headers of \<open>H\<close> and the bodies of \<open>B\<close>.\<close>

definition keeps :: "nat set \<Rightarrow> nat set \<Rightarrow> umm_block list \<Rightarrow> umm_block list \<Rightarrow> bool" where
  "keeps H B h h' \<longleftrightarrow> length h' = length h \<and> (\<forall>i. i \<notin> H \<longrightarrow> used_next (h' ! i) = used_next (h ! i) \<and> used_prev (h' ! i) = used_prev (h ! i)) \<and>
     (\<forall>i. i \<notin> B \<longrightarrow> free_next (h' ! i) = free_next (h ! i) \<and> free_prev (h' ! i) = free_prev (h ! i))"

lemma keeps_refl [simp]: "keeps H B h h"
  by (simp add: keeps_def)

lemma keeps_trans: "keeps H B h h1 \<Longrightarrow> keeps H B h1 h2 \<Longrightarrow> keeps H B h h2"
  by (simp add: keeps_def)

lemma keeps_mono: "keeps H B h h' \<Longrightarrow> H \<subseteq> H' \<Longrightarrow> B \<subseteq> B' \<Longrightarrow> keeps H' B' h h'"
  by (auto simp: keeps_def)

lemma keeps_upd:
  "i \<in> H \<Longrightarrow> keeps H B h h' \<Longrightarrow> keeps H B h (updN h' i v)" "i \<in> H \<Longrightarrow> keeps H B h h' \<Longrightarrow> keeps H B h (updP h' i v)"
  "i \<in> B \<Longrightarrow> keeps H B h h' \<Longrightarrow> keeps H B h (updNF h' i v)" "i \<in> B \<Longrightarrow> keeps H B h h' \<Longrightarrow> keeps H B h (updPF h' i v)"
  by (auto simp: keeps_def) (metis upd_other)+

definition set_free :: "nat \<Rightarrow> bool \<Rightarrow> runs \<Rightarrow> runs" where
  "set_free c f bs = map (\<lambda>x. (fst x, if fst x = c then f else snd x)) bs"

lemma map_fst_set_free [simp]: "map fst (set_free c f bs) = map fst bs"
  by (induction bs) (auto simp: set_free_def)

lemma fst_set_free [simp]: "fst ` set (set_free c f bs) = fst ` set bs"
  by (force simp: set_free_def)

lemma set_free_Nil [simp]: "set_free c f bs = [] \<longleftrightarrow> bs = []"
  by (simp add: set_free_def)

text \<open>The neighbours of a run in the ring.\<close>

lemma ring_split:
  assumes "successively (flink h) (0 # (l1 @ c # l2) @ [0])"
  shows "successively (flink h) (0 # l1)" "successively (flink h) (l2 @ [0])" "flink h (last (0 # l1)) c" "flink h c (hd (l2 @ [0]))"
proof -
  have "successively (flink h) ((0 # l1) @ c # (l2 @ [0]))" using assms by simp
  then show "successively (flink h) (0 # l1)" "successively (flink h) (l2 @ [0])" "flink h (last (0 # l1)) c" "flink h c (hd (l2 @ [0]))"
    unfolding successively_append_iff[of _ "0 # l1"] successively_Cons[of _ c] by auto
qed

lemma ring_join:
  "successively (flink h) (0 # l1) \<Longrightarrow> successively (flink h) (l2 @ [0]) \<Longrightarrow> flink h (last (0 # l1)) (hd (l2 @ [0])) \<Longrightarrow>
   successively (flink h) (0 # (l1 @ l2) @ [0])"
  using successively_append_iff[of "flink h" "0 # l1" "l2 @ [0]"] by simp

lemma set_free_links:
  assumes inv: "heap_inv h bs fl" and c: "(c, \<not> f) \<in> set bs"
    and n: "\<And>b. b < 2 ^ 31 \<Longrightarrow> used_next (h ! c) = ref b (\<not> f) \<Longrightarrow> used_next (h' ! c) = ref b f"
    and o: "\<And>i. i \<noteq> c \<Longrightarrow> used_next (h' ! i) = used_next (h ! i)" "\<And>i. used_prev (h' ! i) = used_prev (h ! i)"
  shows "successively (link h') (set_free c f bs)"
  unfolding set_free_def successively_map
proof (rule successively_mono)
  show "successively (link h) bs" using inv by (simp add: heap_inv_def)
  fix x y assume x: "x \<in> set bs" and y: "y \<in> set bs" and l: "link h x y"
  have "fst y < 2 ^ 31" using heap_inv_range(1)[OF inv y] inv by (simp add: heap_inv_def)
  moreover have "snd x = (\<not> f)" if "fst x = c" using heap_inv_range(5)[OF inv c, of "snd x"] x that by (metis prod.collapse)
  ultimately show "link h' (fst x, if fst x = c then f else snd x) (fst y, if fst y = c then f else snd y)"
    using l n[of "fst y"] o by (auto simp: link_def)
qed

lemma last_block:
  assumes inv: "heap_inv h bs fl"
  shows "(0, False) \<in> set bs" "(length h - 1, False) \<in> set bs"
  using inv hd_in_set[of bs] last_in_set[of bs] by (auto simp: heap_inv_def)

text \<open>Taking a run out of the ring.\<close>

lemma disconnect_inv:
  assumes inv: "heap_inv h bs fl" and c: "(c, True) \<in> set bs"
  shows "\<exists>h'. umm_disconnect_from_free_list (of_nat c) h = Some h' \<and> heap_inv h' (set_free c False bs) (remove1 c fl) \<and> keeps {c} ({0} \<union> set fl) h h'
    \<and> used_next (h' ! c) = used_next (h ! c) AND NOT UMM_FREELIST_MASK"
proof -
  have len: "length h < 2 ^ 28" and ring: "successively (flink h) (0 # fl @ [0])" and d: "distinct fl" and "c \<in> set fl"
    using inv c by (auto simp: heap_inv_def)
  then obtain l1 l2 where fl: "fl = l1 @ c # l2" by (meson split_list)
  have rem: "remove1 c fl = l1 @ l2" using d by (simp add: fl remove1_append)
  define p n where "p = last (0 # l1)" and "n = hd (l2 @ [0])"
  note rs = ring_split[OF ring[unfolded fl], folded p_def n_def]
  have in_ring: "p = 0 \<or> p \<in> set l1" "n = 0 \<or> n \<in> set l2" by (auto simp: p_def n_def hd_append)
  have c0: "0 < c" "c < length h" using heap_inv_range(3)[OF inv] \<open>c \<in> set fl\<close> by auto
  have ne: "p \<noteq> c" "n \<noteq> c" using in_ring d c0 by (auto simp: fl)
  have lt: "p < length h" "n < length h" using in_ring heap_inv_range(3)[OF inv, of p] heap_inv_range(3)[OF inv, of n] c0(2) by (auto simp: fl)
  have fields: "free_prev (h ! c) = of_nat p" "free_next (h ! c) = of_nat n" using rs(3,4) by (simp_all add: flink_def)
  define h' where "h' = updN (updPF (updNF h p (of_nat n)) n (of_nat p)) c (used_next (h ! c) AND NOT UMM_FREELIST_MASK)"
  have run: "umm_disconnect_from_free_list (of_nat c) h = Some h'"
    using len lt ne c0 by (simp add: umm_disconnect_from_free_list_def fields h'_def)
  have keep: "keeps {c} ({0} \<union> set fl) h h'" unfolding h'_def using in_ring by (intro keeps_upd keeps_refl) (auto simp: fl)
  have nl: "used_next (h' ! i) = (if i = c then used_next (h ! c) AND NOT UMM_FREELIST_MASK else used_next (h ! i))" "used_prev (h' ! i) = used_prev (h ! i)"
    "free_next (h' ! i) = (if i = p then of_nat n else free_next (h ! i))" "free_prev (h' ! i) = (if i = n then of_nat p else free_prev (h ! i))" for i
    using lt c0 by (simp_all add: h'_def)
  have "successively (link h') (set_free c False bs)"
    using set_free_links[OF inv, of c False h'] c nl by (simp add: ref_masks)
  moreover have "successively (flink h') (0 # (l1 @ l2) @ [0])"
  proof (rule ring_join)
    have p': "p \<notin> set (butlast (0 # l1))"
      using d inv heap_inv_range(3)[OF inv, of 0] by (cases l1 rule: rev_cases) (auto simp: p_def fl butlast_append)
    show "successively (flink h') (0 # l1)"
      using rs(1) p' d heap_inv_range(3)[OF inv, unfolded fl] in_ring by (intro flink_frame[OF rs(1)]) (auto simp: nl fl)
    have n': "n \<notin> set (tl (l2 @ [0]))"
      using d heap_inv_range(3)[OF inv, of 0] by (cases l2) (auto simp: n_def fl)
    show "successively (flink h') (l2 @ [0])"
      using n' d heap_inv_range(3)[OF inv, unfolded fl] in_ring by (intro flink_frame[OF rs(2)]) (auto simp: nl fl)
    show "flink h' (last (0 # l1)) (hd (l2 @ [0]))" unfolding p_def[symmetric] n_def[symmetric] flink_def nl by simp
  qed
  moreover have "hd (set_free c False bs) = (0, False)" "last (set_free c False bs) = (length h - 1, False)"
    using inv by (auto simp: heap_inv_def set_free_def hd_map last_map)
  moreover have "successively (\<lambda>x y. \<not> (snd x \<and> snd y)) (set_free c False bs)"
    unfolding set_free_def successively_map by (rule successively_mono[of "\<lambda>x y. \<not> (snd x \<and> snd y)"]) (use inv in \<open>auto simp: heap_inv_def\<close>)
  moreover have "set (l1 @ l2) = {a. (a, True) \<in> set (set_free c False bs)}"
  proof -
    have "{a. (a, True) \<in> set (set_free c False bs)} = {a. (a, True) \<in> set bs} - {c}" by (auto simp: set_free_def image_iff split: if_splits) (metis fst_conv snd_conv)+
    moreover have "set fl = {a. (a, True) \<in> set bs}" using inv by (simp add: heap_inv_def)
    ultimately show ?thesis using d by (auto simp: fl)
  qed
  moreover have "used_next (h' ! (length h - 1)) = 0"
  proof -
    have "length h - 1 \<noteq> c" using last_block(2)[OF inv] c heap_inv_range(5)[OF inv] by blast
    then show ?thesis using inv by (simp add: nl heap_inv_def)
  qed
  moreover have "length h' = length h" by (simp add: h'_def)
  ultimately have "heap_inv h' (set_free c False bs) (remove1 c fl)"
    using inv d unfolding rem heap_inv_def by (simp add: fl)
  then show ?thesis using run keep nl(1)[of c] by auto
qed

text \<open>Putting a run at the head of the ring.\<close>

lemma connect_inv:
  assumes inv: "heap_inv h bs fl" and c: "(c, False) \<in> set bs" "c \<noteq> 0" "c \<noteq> length h - 1"
    and adj: "successively (\<lambda>x y. \<not> (snd x \<and> snd y)) (set_free c True bs)"
  defines "n \<equiv> hd (fl @ [0])"
  defines "h' \<equiv> updN (updNF (updPF (updNF (updPF h n (of_nat c)) c (of_nat n)) c 0) 0 (of_nat c)) c (used_next (h ! c) OR UMM_FREELIST_MASK)"
  shows "heap_inv h' (set_free c True bs) (c # fl)" "keeps {c} ({0, c} \<union> set fl) h h'" "free_next (h ! 0) = of_nat n" "n < length h" "n \<noteq> c"
proof -
  have ring: "successively (flink h) (0 # fl @ [0])" and d: "distinct fl" and fl: "set fl = {a. (a, True) \<in> set bs}"
    using inv by (auto simp: heap_inv_def)
  have cfl: "c \<notin> set fl" using c(1) heap_inv_range(5)[OF inv] by (auto simp: fl)
  have n: "n = 0 \<or> n \<in> set fl" by (auto simp: n_def hd_append)
  have clt: "c < length h" "0 < length h" using heap_inv_range(1)[OF inv c(1)] by auto
  show nlt: "n < length h" using n heap_inv_range(3)[OF inv, of n] clt by auto
  show nc: "n \<noteq> c" using n c(2) cfl by auto
  show f0: "free_next (h ! 0) = of_nat n" using ring by (simp add: successively_Cons flink_def n_def)
  show "keeps {c} ({0, c} \<union> set fl) h h'" unfolding h'_def using n by (intro keeps_upd keeps_refl) auto
  have nl: "used_next (h' ! i) = (if i = c then used_next (h ! c) OR UMM_FREELIST_MASK else used_next (h ! i))" "used_prev (h' ! i) = used_prev (h ! i)"
    "free_next (h' ! i) = (if i = 0 then of_nat c else if i = c then of_nat n else free_next (h ! i))"
    "free_prev (h' ! i) = (if i = c then 0 else if i = n then of_nat c else free_prev (h ! i))" for i
    using nlt clt by (simp_all add: h'_def)
  have "successively (link h') (set_free c True bs)"
    using set_free_links[OF inv, of c True h'] c(1) nl by (simp add: ref_masks)
  moreover have "successively (flink h') (0 # (c # fl) @ [0])"
  proof -
    have "0 \<notin> set fl" using heap_inv_range(3)[OF inv, of 0] by auto
    then have n': "n \<notin> set (tl (fl @ [0]))" using d by (cases fl) (auto simp: n_def)
    have "successively (flink h) (fl @ [0])" using ring by (simp add: successively_Cons)
    then have "successively (flink h') (fl @ [0])"
    proof (rule flink_frame)
      fix x assume "x \<in> set (butlast (fl @ [0]))"
      then show "free_next (h' ! x) = free_next (h ! x)" using heap_inv_range(3)[OF inv, of x] cfl by (auto simp: nl butlast_append)
    next
      fix x assume x: "x \<in> set (tl (fl @ [0]))"
      then have "x \<in> set fl \<or> x = 0" by (cases fl) auto
      then show "free_prev (h' ! x) = free_prev (h ! x)" using x n' cfl c(2) by (auto simp: nl)
    qed
    moreover have "flink h' 0 c" "flink h' c n" using c(2) nc by (auto simp: flink_def nl)
    ultimately show ?thesis by (simp add: successively_Cons n_def hd_append)
  qed
  moreover have "hd (set_free c True bs) = (0, False)" "last (set_free c True bs) = (length h - 1, False)"
    using inv c(2,3) by (auto simp: heap_inv_def set_free_def hd_map last_map)
  moreover have "set (c # fl) = {a. (a, True) \<in> set (set_free c True bs)}"
    using c(1) unfolding list.set fl by (force simp: set_free_def)
  moreover have "used_next (h' ! (length h - 1)) = 0" using inv c(3) by (simp add: nl heap_inv_def)
  moreover have "length h' = length h" by (simp add: h'_def)
  ultimately show "heap_inv h' (set_free c True bs) (c # fl)"
    using inv d cfl adj unfolding heap_inv_def by simp
qed

text \<open>Removing a used run, which its left neighbour takes over.\<close>

lemma merge_inv:
  assumes inv: "heap_inv h (xs @ (a, f) # (b, False) # (e, g) # ys) fl" and a: "a \<noteq> 0" "\<not> (f \<and> g)"
    and h': "keeps {a, e} {} h h'" "used_next (h' ! a) = ref e f" "used_prev (h' ! e) = of_nat a" "used_prev (h' ! a) = used_prev (h ! a)" "used_next (h' ! e) = used_next (h ! e)"
  shows "heap_inv h' (xs @ (a, f) # (e, g) # ys) fl"
proof -
  let ?bs = "xs @ (a, f) # (b, False) # (e, g) # ys"
  have d: "distinct (map fst ?bs)" and s: "sorted_wrt (<) (map fst ?bs)" using inv heap_inv_range(4)[OF inv] by (simp_all add: heap_inv_def)
  have "successively (link h) ((xs @ [(a, f)]) @ [(b, False)] @ (e, g) # ys)" using inv by (simp add: heap_inv_def)
  then have L: "successively (link h) (xs @ [(a, f)])" "successively (link h) ((e, g) # ys)"
    unfolding successively_append_iff by simp_all
  have other: "used_next (h' ! i) = used_next (h ! i)" if "i \<noteq> a" for i using h' that by (cases "i = e") (auto simp: keeps_def)
  have other': "used_prev (h' ! i) = used_prev (h ! i)" if "i \<noteq> e" for i using h' that by (cases "i = a") (auto simp: keeps_def)
  have "successively (link h') (xs @ [(a, f)])"
    using d by (intro link_frame_left[OF L(1)] other other') auto
  moreover have "successively (link h') ((e, g) # ys)"
    using d by (intro link_frame_right[OF L(2)] other other') auto
  moreover have "link h' (a, f) (e, g)" using h' by (simp add: link_def)
  ultimately have "successively (link h') ((xs @ [(a, f)]) @ (e, g) # ys)"
    unfolding successively_append_iff[of _ "xs @ [(a, f)]"] by simp
  then have 8: "successively (link h') (xs @ (a, f) # (e, g) # ys)" by simp
  have 10: "successively (\<lambda>x y. \<not> (snd x \<and> snd y)) (xs @ (a, f) # (e, g) # ys)"
    using heap_invD(10)[OF inv] a(2) by (simp add: successively_append_iff)
  have x: "xs \<noteq> []" "hd xs = (0, False)" using heap_invD(5)[OF inv] a(1) by (cases xs; simp)+
  have "1 < b" using s a(1) by (simp add: sorted_wrt_append)
  then have 7: "1 \<in> fst ` set (xs @ (a, f) # (e, g) # ys)" using heap_invD(7)[OF inv] by auto
  have 6: "last (xs @ (a, f) # (e, g) # ys) = (length h' - 1, False)" using heap_invD(6)[OF inv] h'(1) by (simp add: keeps_def)
  have "length h - 1 \<noteq> a"
  proof -
    have "last (map fst ?bs) = length h - 1" using heap_invD(6)[OF inv] last_map[of ?bs fst] by simp
    moreover have "e \<le> last (map fst ?bs)" using sorted_last[OF s, of e] by simp
    moreover have "a < e" using s by (simp add: sorted_wrt_append)
    ultimately show ?thesis by simp
  qed
  then have 9: "used_next (h' ! (length h' - 1)) = 0" using heap_invD(9)[OF inv] h'(1) by (simp add: other keeps_def)
  have 11: "successively (flink h') (0 # fl @ [0])" using h'(1) by (intro flink_frame[OF heap_invD(11)[OF inv]]) (simp_all add: keeps_def)
  have 3: "sorted_wrt (<) (map fst (xs @ (a, f) # (e, g) # ys))" using s by (auto simp: sorted_wrt_append)
  have 13: "set fl = {x. (x, True) \<in> set (xs @ (a, f) # (e, g) # ys)}" unfolding heap_invD(13)[OF inv] by auto
  show ?thesis
    unfolding heap_inv_def using 3 6 7 8 9 10 11 13 x heap_invD(1,2,12)[OF inv] h'(1) by (intro conjI) (simp_all add: keeps_def)
qed

text \<open>Two neighbours in the list of runs.\<close>

lemma runs_between:
  assumes inv: "heap_inv h (xs @ (c, f) # (d, g) # ys) fl"
  shows "c < d" "d < length h" "i \<in> fst ` set (xs @ (c, f) # (d, g) # ys) \<Longrightarrow> \<not> (c < i \<and> i < d)" "link h (c, f) (d, g)" "\<not> (f \<and> g)"
    "used_next (h ! c) = ref d f" "used_prev (h ! d) = of_nat c"
proof -
  have s: "sorted_wrt (<) (map fst (xs @ (c, f) # (d, g) # ys))" by (rule heap_invD(3)[OF inv])
  then show "c < d" by (simp add: sorted_wrt_append)
  show "d < length h" using heap_inv_range(1)[OF inv, of "(d, g)"] by simp
  show "\<not> (c < i \<and> i < d)" if "i \<in> fst ` set (xs @ (c, f) # (d, g) # ys)" using s that by (fastforce simp: sorted_wrt_append)
  show l: "link h (c, f) (d, g)" using heap_invD(8)[OF inv] by (simp add: successively_append_iff)
  show "\<not> (f \<and> g)" using heap_invD(10)[OF inv] by (simp add: successively_append_iff)
  show "used_next (h ! c) = ref d f" "used_prev (h ! d) = of_nat c" using l by (simp_all add: link_def)
qed

definition split_free :: "u32 \<Rightarrow> u32 \<Rightarrow> umm_block list \<Rightarrow> umm_block list option" where
  "split_free cf blocks h =
     do {
       h \<leftarrow> umm_split_block cf blocks UMM_FREELIST_MASK h;
       p \<leftarrow> UMM_PFREE h cf;
       h \<leftarrow> set_NFREE p (cf + blocks) h;
       p \<leftarrow> UMM_PFREE h cf;
       h \<leftarrow> set_PFREE (cf + blocks) p h;
       n \<leftarrow> UMM_NFREE h cf;
       h \<leftarrow> set_PFREE n (cf + blocks) h;
       n \<leftarrow> UMM_NFREE h cf;
       set_NFREE (cf + blocks) n h
     }"

lemma split_inv:
  assumes inv: "heap_inv h (xs @ (c, True) # (d, g) # ys) fl" and k: "c < e" "e < d" and w: "(of_nat c :: u32) + blocks = of_nat e"
  shows "\<exists>h'. split_free (of_nat c) blocks h = Some h' \<and>
    heap_inv h' (xs @ (c, False) # (e, True) # (d, g) # ys) (map (\<lambda>a. if a = c then e else a) fl) \<and> keeps {c, e, d} ({0, e} \<union> set fl) h h'"
proof -
  let ?bs = "xs @ (c, True) # (d, g) # ys"
  note bt = runs_between[OF inv]
  have len: "length h < 2 ^ 28" by (rule heap_invD(2)[OF inv])
  have "c \<in> set fl" using heap_invD(13)[OF inv] by simp
  then obtain l1 l2 where fl: "fl = l1 @ c # l2" by (meson split_list)
  have d: "distinct fl" by (rule heap_invD(12)[OF inv])
  have fl': "map (\<lambda>a. if a = c then e else a) fl = l1 @ e # l2" using d by (auto simp: fl intro!: map_idI)
  define p n where "p = last (0 # l1)" and "n = hd (l2 @ [0])"
  note rs = ring_split[OF heap_invD(11)[OF inv, unfolded fl], folded p_def n_def]
  have in_ring: "p = 0 \<or> p \<in> set l1" "n = 0 \<or> n \<in> set l2" by (auto simp: p_def n_def hd_append)
  have c0: "0 < c" "c < length h" using heap_inv_range(3)[OF inv] \<open>c \<in> set fl\<close> by auto
  have en: "e \<notin> fst ` set ?bs" using bt(3)[of e] k by auto
  have efl: "e \<notin> set fl" using en heap_invD(13)[OF inv] by force
  have e0: "0 < e" "e < length h" "e \<noteq> c" "e \<noteq> d" using k bt(2) by auto
  have ne: "p \<noteq> c" "n \<noteq> c" "p \<noteq> e" "n \<noteq> e" using in_ring d c0 efl e0(1) by (auto simp: fl)
  have lt: "p < length h" "n < length h" using in_ring heap_inv_range(3)[OF inv, of p] heap_inv_range(3)[OF inv, of n] c0(2) by (auto simp: fl)
  have fields: "free_prev (h ! c) = of_nat p" "free_next (h ! c) = of_nat n" using rs(3,4) by (simp_all add: flink_def)
  have d31: "d < 2 ^ 31" using bt(2) len by simp
  define hs where "hs = updN (updP (updP (updN h e (ref d True)) e (of_nat c)) d (of_nat e)) c (of_nat e)"
  define h' where "h' = updNF (updPF (updPF (updNF hs p (of_nat e)) e (of_nat p)) n (of_nat e)) e (of_nat n)"
  have "umm_split_block (of_nat c) blocks UMM_FREELIST_MASK h = Some hs"
    unfolding umm_split_block_def w using len c0(2) e0 bt(2) by (simp add: bt(6) ref_masks[OF d31] hs_def)
  moreover have hs: "length hs = length h" "free_prev (hs ! i) = free_prev (h ! i)" "free_next (hs ! i) = free_next (h ! i)" for i by (simp_all add: hs_def)
  ultimately have run: "split_free (of_nat c) blocks h = Some h'"
    unfolding split_free_def w using len lt ne c0(2) e0 by (simp add: fields h'_def)
  have keep: "keeps {c, e, d} ({0, e} \<union> set fl) h h'" unfolding h'_def hs_def using in_ring by (intro keeps_upd keeps_refl) (auto simp: fl)
  have nl: "used_next (h' ! i) = (if i = c then of_nat e else if i = e then ref d True else used_next (h ! i))"
    "used_prev (h' ! i) = (if i = d then of_nat e else if i = e then of_nat c else used_prev (h ! i))"
    "free_next (h' ! i) = (if i = e then of_nat n else if i = p then of_nat e else free_next (h ! i))"
    "free_prev (h' ! i) = (if i = n then of_nat e else if i = e then of_nat p else free_prev (h ! i))" for i
    using lt c0(2) e0 bt(2) by (simp_all add: h'_def hs_def)
  have dist: "distinct (map fst ?bs)" by (rule heap_inv_range(4)[OF inv])
  have L: "successively (link h) (xs @ [(c, True)])" "successively (link h) ((d, g) # ys)"
    using heap_invD(8)[OF inv] by (simp_all add: successively_append_iff)
  have 1: "successively (link h') (xs @ [(c, True)])" using dist en by (intro link_frame_left[OF L(1)]) (auto simp: nl)
  then have 1: "successively (link h') (xs @ [(c, False)])" by (auto simp: successively_append_iff link_def)
  have 2: "successively (link h') ((d, g) # ys)" using dist en by (intro link_frame_right[OF L(2)]) (auto simp: nl)
  have "link h' (c, False) (e, True)" "link h' (e, True) (d, g)" using e0 ref_masks(6)[of e] len by (auto simp: link_def nl)
  then have 8: "successively (link h') (xs @ (c, False) # (e, True) # (d, g) # ys)"
    using 1 2 by (simp add: successively_append_iff)
  have 10: "successively (\<lambda>x y. \<not> (snd x \<and> snd y)) (xs @ (c, False) # (e, True) # (d, g) # ys)"
    using heap_invD(10)[OF inv] by (auto simp: successively_append_iff)
  have "successively (flink h') (0 # (l1 @ [e] @ l2) @ [0])"
  proof -
    have 0: "0 \<notin> set fl" using heap_inv_range(3)[OF inv, of 0] by auto
    have p': "p \<notin> set (butlast (0 # l1))" using d 0 by (cases l1 rule: rev_cases) (auto simp: p_def fl butlast_append)
    have n': "n \<notin> set (tl (l2 @ [0]))" using d 0 by (cases l2) (auto simp: n_def fl)
    have "successively (flink h') (0 # l1)"
      using p' d 0 efl e0(1) in_ring by (intro flink_frame[OF rs(1)]) (auto simp: nl fl dest: in_set_butlastD split: if_splits)
    moreover have "successively (flink h') (l2 @ [0])"
      using n' d 0 efl e0(1) in_ring by (intro flink_frame[OF rs(2)]) (auto simp: nl fl dest: in_set_tlD)
    moreover have "flink h' (last (0 # l1)) e" "flink h' e (hd (l2 @ [0]))"
      unfolding p_def[symmetric] n_def[symmetric] flink_def nl using ne by auto
    ultimately have "successively (flink h') ((0 # l1) @ e # l2 @ [0])"
      unfolding successively_append_iff[of _ "0 # l1"] successively_Cons[of _ e] by simp
    then show ?thesis by simp
  qed
  then have 11: "successively (flink h') (0 # (l1 @ e # l2) @ [0])" by simp
  have 12: "distinct (l1 @ e # l2)" using d efl by (auto simp: fl)
  have 13: "set (l1 @ e # l2) = {x. (x, True) \<in> set (xs @ (c, False) # (e, True) # (d, g) # ys)}"
  proof -
    have "set (l1 @ e # l2) = insert e (set fl - {c})" using d by (auto simp: fl)
    moreover have "(c, True) \<notin> set xs" "(c, True) \<notin> set ys" "c \<noteq> d" using dist bt(1) by (auto simp: image_iff)
    ultimately show ?thesis unfolding heap_invD(13)[OF inv] by auto
  qed
  have 3: "sorted_wrt (<) (map fst (xs @ (c, False) # (e, True) # (d, g) # ys))"
    using heap_invD(3)[OF inv] k by (fastforce simp: sorted_wrt_append)
  have xs: "xs \<noteq> []" "hd xs = (0, False)" using heap_invD(5)[OF inv] by (cases xs; simp)+
  have len': "length h' = length h" by (simp add: h'_def hs)
  have "length h - 1 \<noteq> c \<and> length h - 1 \<noteq> e"
  proof -
    have "last (map fst ?bs) = length h - 1" using heap_invD(6)[OF inv] last_map[of ?bs fst] by simp
    moreover have "d \<le> last (map fst ?bs)" using sorted_last[OF heap_invD(3)[OF inv], of d] by simp
    ultimately show ?thesis using k by simp
  qed
  then have 9: "used_next (h' ! (length h' - 1)) = 0" using heap_invD(9)[OF inv] by (simp add: nl len')
  have 7: "1 \<in> fst ` set (xs @ (c, False) # (e, True) # (d, g) # ys)" using heap_invD(7)[OF inv] by auto
  have 6: "last (xs @ (c, False) # (e, True) # (d, g) # ys) = (length h' - 1, False)" using heap_invD(6)[OF inv] len' by simp
  have "heap_inv h' (xs @ (c, False) # (e, True) # (d, g) # ys) (l1 @ e # l2)"
    unfolding heap_inv_def using 3 6 7 8 9 10 11 12 13 xs heap_invD(1,2)[OF inv] len' by (intro conjI) simp_all
  then show ?thesis using run keep unfolding fl' by blast
qed

section \<open>Releasing memory\<close>

text \<open>The specification: the run becomes free and is joined with its free neighbours.\<close>

fun join_free :: "runs \<Rightarrow> runs" where
  "join_free (x # y # r) = (if snd x \<and> snd y then join_free (x # r) else x # join_free (y # r))"
| "join_free r = r"

definition release :: "nat \<Rightarrow> runs \<Rightarrow> runs" where
  "release c bs = join_free (set_free c True bs)"

lemma join_free_id: "successively (\<lambda>x y. \<not> (snd x \<and> snd y)) bs \<Longrightarrow> join_free bs = bs"
  by (induction bs rule: join_free.induct) auto

lemma join_free_append: "successively (\<lambda>x y. \<not> (snd x \<and> snd y)) (xs @ [x]) \<Longrightarrow> join_free (xs @ x # r) = xs @ join_free (x # r)"
  by (induction xs rule: induct_list012) (auto simp: successively_Cons neq_Nil_conv)

lemma release_eq:
  assumes inv: "heap_inv h (xs @ (p, f) # (c, False) # (d, g) # ys) fl" and n: "if g then ys = (e, False) # zs else e = d \<and> zs = ys"
  shows "release c (xs @ (p, f) # (c, False) # (d, g) # ys) = (if f then xs @ (p, True) # (e, False) # zs else xs @ (p, False) # (c, True) # (e, False) # zs)"
proof -
  have dist: "distinct (map fst (xs @ (p, f) # (c, False) # (d, g) # ys))" by (rule heap_inv_range(4)[OF inv])
  have id: "set_free c True zs = zs" if "c \<notin> fst ` set zs" for zs using that by (intro map_idI[where f = "\<lambda>x. (fst x, if fst x = c then True else snd x)", folded set_free_def]) auto
  have sf: "set_free c True (xs @ (p, f) # (c, False) # (d, g) # ys) = xs @ (p, f) # (c, True) # (d, g) # ys"
    using dist id[of xs] id[of ys] by (auto simp: set_free_def)
  have adj: "successively (\<lambda>x y. \<not> (snd x \<and> snd y)) (xs @ [(p, f)])" "successively (\<lambda>x y. \<not> (snd x \<and> snd y)) ((d, g) # ys)"
    using heap_invD(10)[OF inv] by (simp_all add: successively_append_iff)
  then have "join_free ((d, g) # ys) = (d, g) # ys" "join_free ys = ys" by (auto intro!: join_free_id simp: successively_Cons)
  then show ?thesis using n adj(2) unfolding release_def sf join_free_append[OF adj(1)] by (cases g) (auto simp: successively_Cons join_free_id)
qed

lemma assimilate_up_inv:
  assumes inv: "heap_inv h (xs @ (p, f) # (c, False) # (d, g) # ys) fl" and c: "c \<noteq> 0"
  shows "\<exists>h' e zs fl'. umm_assimilate_up (of_nat c) h = Some h' \<and> heap_inv h' (xs @ (p, f) # (c, False) # (e, False) # zs) fl' \<and>
    (if g then ys = (e, False) # zs else e = d \<and> zs = ys) \<and> set fl' \<subseteq> set fl \<and>
    keeps (fst ` set (xs @ (p, f) # (c, False) # (d, g) # ys)) ({0} \<union> set fl) h h'"
proof -
  let ?bs = "xs @ (p, f) # (c, False) # (d, g) # ys"
  have inv': "heap_inv h ((xs @ [(p, f)]) @ (c, False) # (d, g) # ys) fl" using inv by simp
  note cd = runs_between[OF inv']
  have len: "length h < 2 ^ 28" by (rule heap_invD(2)[OF inv])
  have small: "i < 2 ^ 31" if "i < length h" for i using that len by simp
  have clt: "c < length h" using heap_inv_range(1)[OF inv, of "(c, False)"] by simp
  have nc: "used_next (h ! c) = of_nat d" using cd(6) ref_masks(6)[OF small[OF cd(2)]] by simp
  show ?thesis
  proof (cases g)
    case False
    have "used_next (h ! d) AND UMM_FREELIST_MASK = 0"
    proof (cases ys)
      case Nil
      then have "d = length h - 1" using heap_invD(6)[OF inv] by simp
      then show ?thesis using heap_invD(9)[OF inv] by simp
    next
      case (Cons y zs)
      have "heap_inv h ((xs @ [(p, f), (c, False)]) @ (d, g) # (fst y, snd y) # zs) fl" using inv by (simp add: Cons)
      from runs_between[OF this] show ?thesis using ref_masks(2)[OF small, of "fst y" g] False by simp
    qed
    then have "umm_assimilate_up (of_nat c) h = Some h" using clt cd(2) len by (simp add: umm_assimilate_up_def nc)
    then show ?thesis using inv False by (intro exI[of _ h] exI[of _ d] exI[of _ ys] exI[of _ fl]) simp
  next
    case True
    then have "ys \<noteq> []" using heap_invD(6)[OF inv] by auto
    then obtain e g' zs where ys: "ys = (e, g') # zs" by (metis neq_Nil_conv prod.collapse)
    have "heap_inv h ((xs @ [(p, f), (c, False)]) @ (d, True) # (e, g') # zs) fl" using inv True by (simp add: ys)
    note de = runs_between[OF this]
    have g': "\<not> g'" using de(5) by simp
    have dbs: "(d, True) \<in> set ?bs" using True by simp
    obtain h1 where h1: "umm_disconnect_from_free_list (of_nat d) h = Some h1" "heap_inv h1 (set_free d False ?bs) (remove1 d fl)"
      "keeps {d} ({0} \<union> set fl) h h1" "used_next (h1 ! d) = used_next (h ! d) AND NOT UMM_FREELIST_MASK"
      using disconnect_inv[OF inv dbs] by blast
    have dist: "distinct (map fst ?bs)" by (rule heap_inv_range(4)[OF inv])
    have id: "set_free d False zs = zs" if "d \<notin> fst ` set zs" for zs
      using that by (intro map_idI[where f = "\<lambda>x. (fst x, if fst x = d then False else snd x)", folded set_free_def]) auto
    have sf: "set_free d False ?bs = (xs @ [(p, f)]) @ (c, False) # (d, False) # (e, False) # zs"
      using dist id[of xs] id[of zs] g' by (auto simp: set_free_def ys)
    have len1: "length h1 = length h" using h1(3) by (simp add: keeps_def)
    have n1: "used_next (h1 ! d) = of_nat e" unfolding h1(4) de(6) using ref_masks(4,6)[OF small[OF de(2)]] by simp
    have nc1: "used_next (h1 ! c) = of_nat d" using h1(3) nc cd(1) by (simp add: keeps_def)
    define h2 where "h2 = updN (updP h1 e (of_nat c)) c (of_nat e)"
    have "used_next (h ! d) AND UMM_FREELIST_MASK \<noteq> 0" unfolding de(6) using ref_masks(2)[OF small[OF de(2)], of True] by simp
    then have run: "umm_assimilate_up (of_nat c) h = Some h2"
      using clt cd(2) de(1,2) len ref_masks(7)[OF small[OF de(2)]]
      by (simp add: umm_assimilate_up_def nc h1(1) nc1 n1 len1 h2_def)
    have "heap_inv h2 ((xs @ [(p, f)]) @ (c, False) # (e, False) # zs) (remove1 d fl)"
    proof (rule merge_inv[OF h1(2)[unfolded sf] c])
      show "keeps {c, e} {} h1 h2" unfolding h2_def by (intro keeps_upd keeps_refl) auto
      show "used_next (h2 ! c) = ref e False" "used_prev (h2 ! e) = of_nat c" "used_prev (h2 ! c) = used_prev (h1 ! c)" "used_next (h2 ! e) = used_next (h1 ! e)"
        using clt cd(1,2) de(1,2) len1 ref_masks(6)[OF small[OF de(2)]] by (auto simp: h2_def)
    qed simp
    moreover have "keeps (fst ` set ?bs) ({0} \<union> set fl) h h2"
      unfolding h2_def using keeps_mono[OF h1(3), of "fst ` set ?bs" "{0} \<union> set fl"] by (intro keeps_upd) (auto simp: ys)
    moreover have "set (remove1 d fl) \<subseteq> set fl" by (rule set_remove1_subset)
    ultimately show ?thesis using run True g' by (intro exI[of _ h2] exI[of _ e] exI[of _ zs] exI[of _ "remove1 d fl"]) (simp add: ys)
  qed
qed

text \<open>The whole state, and the address of the memory of a run.\<close>

definition umm_inv :: "umm_state \<Rightarrow> runs \<Rightarrow> nat list \<Rightarrow> bool" where
  "umm_inv s bs fl \<longleftrightarrow> heap_inv (umm_heap s) bs fl \<and> default_umm_heap s \<noteq> 0 \<and> length (umm_heap s) = unat (default_umm_heap_size s) div 16 \<and>
     unat (default_umm_heap s) + unat (default_umm_heap_size s) < 2 ^ 64"

definition run_ptr :: "umm_state \<Rightarrow> nat \<Rightarrow> u64" where
  "run_ptr s c = default_umm_heap s + 16 * of_nat c + 8"

lemma run_ptr_arith:
  assumes "umm_inv s bs fl" "c < length (umm_heap s)"
  shows "unat (run_ptr s c) = unat (default_umm_heap s) + (16 * c + 8)" "run_ptr s c \<noteq> 0" "\<not> run_ptr s c < default_umm_heap s"
    "\<not> run_ptr s c \<ge> default_umm_heap s + ucast (default_umm_heap_size s)" "(ucast ((run_ptr s c - default_umm_heap s) div 16) :: u32) = of_nat c"
    "16 * of_nat c + 8 = (of_nat (16 * c + 8) :: u64)"
proof -
  have sz: "16 * c + 16 \<le> unat (default_umm_heap_size s)" "c < 2 ^ 28" using assms by (auto simp: umm_inv_def heap_inv_def)
  have sum: "unat (default_umm_heap s) + unat (default_umm_heap_size s) < 2 ^ 64" using assms(1) by (simp add: umm_inv_def)
  have u: "unat (of_nat (16 * c + 8) :: u64) = 16 * c + 8" by (simp only: unat_of_nat) (use sz(2) in simp)
  show w: "16 * of_nat c + 8 = (of_nat (16 * c + 8) :: u64)" by simp
  have e: "run_ptr s c = default_umm_heap s + of_nat (16 * c + 8)" unfolding run_ptr_def w[symmetric] by (simp only: add.assoc)
  show p: "unat (run_ptr s c) = unat (default_umm_heap s) + (16 * c + 8)"
    unfolding e using unat_plus_no_wrap[of "default_umm_heap s" "of_nat (16 * c + 8)"] u sz sum by (simp only:) simp
  show "run_ptr s c \<noteq> 0"
  proof
    assume "run_ptr s c = 0"
    then have "unat (run_ptr s c) = 0" by (simp only: unat_0)
    then show False using p by simp
  qed
  show "\<not> run_ptr s c < default_umm_heap s" unfolding word_less_nat_alt p by simp
  have "unat (default_umm_heap_size s) < 2 ^ 32" using unsigned_less[of "default_umm_heap_size s"] by simp
  then have "unat (ucast (default_umm_heap_size s) :: u64) = unat (default_umm_heap_size s)" by (simp add: unat_ucast)
  then have "unat (default_umm_heap s + ucast (default_umm_heap_size s)) = unat (default_umm_heap s) + unat (default_umm_heap_size s)"
    using unat_plus_no_wrap[of "default_umm_heap s" "ucast (default_umm_heap_size s)"] sum by simp
  then show "\<not> run_ptr s c \<ge> default_umm_heap s + ucast (default_umm_heap_size s)" unfolding word_le_nat_alt p using sz by simp
  have "run_ptr s c - default_umm_heap s = of_nat (16 * c + 8)" unfolding e by (simp only: add_diff_cancel_left')
  then have "unat ((run_ptr s c - default_umm_heap s) div 16) = c" using u by (simp add: unat_div)
  then show "(ucast ((run_ptr s c - default_umm_heap s) div 16) :: u32) = of_nat c" by (metis of_nat_unat)
qed

text \<open>A run in use has a neighbour on both sides.\<close>

lemma run_neighbours:
  assumes inv: "heap_inv h bs fl" and c: "(c, k) \<in> set bs" "c \<noteq> 0" "c \<noteq> length h - 1"
  obtains xs p f d g ys where "bs = xs @ (p, f) # (c, k) # (d, g) # ys"
proof -
  obtain l r where bs: "bs = l @ (c, k) # r" using c(1) by (meson split_list)
  have "l \<noteq> []" using heap_invD(5)[OF inv] c(2) by (auto simp: bs)
  then obtain xs p f where l: "l = xs @ [(p, f)]" by (metis prod.collapse rev_exhaust)
  have "r \<noteq> []" using heap_invD(6)[OF inv] c(3) by (auto simp: bs)
  then obtain d g ys where r: "r = (d, g) # ys" by (metis neq_Nil_conv prod.collapse)
  show thesis using that[of xs p f d g ys] by (simp add: bs l r)
qed

lemma UmmFree_spec:
  assumes s: "umm_inv s bs fl" and c: "(c, False) \<in> set bs" "c \<noteq> 0" "c \<noteq> length (umm_heap s) - 1"
  shows "\<exists>h' fl'. UmmFree (run_ptr s c) s = Some (True, s\<lparr>umm_heap := h'\<rparr>) \<and> umm_inv (s\<lparr>umm_heap := h'\<rparr>) (release c bs) fl' \<and>
    keeps (fst ` set bs) ({0, c} \<union> set fl) (umm_heap s) h'"
proof -
  let ?h = "umm_heap s"
  have inv: "heap_inv ?h bs fl" using s by (simp add: umm_inv_def)
  obtain xs p f d g ys where bs: "bs = xs @ (p, f) # (c, False) # (d, g) # ys" using run_neighbours[OF inv c] .
  obtain h1 e zs fl1 where h1: "umm_assimilate_up (of_nat c) ?h = Some h1" "heap_inv h1 (xs @ (p, f) # (c, False) # (e, False) # zs) fl1"
    "if g then ys = (e, False) # zs else e = d \<and> zs = ys" "set fl1 \<subseteq> set fl" "keeps (fst ` set bs) ({0} \<union> set fl) ?h h1"
    using assimilate_up_inv[OF inv[unfolded bs] c(2)] unfolding bs by blast
  note rel = release_eq[OF inv[unfolded bs] h1(3), folded bs]
  have clt: "c < length ?h" using heap_inv_range(1)[OF inv c(1)] by simp
  have len: "length ?h < 2 ^ 28" "length h1 = length ?h" using heap_invD(2)[OF inv] h1(5) by (auto simp: keeps_def)
  have small: "i < 2 ^ 31" if "i < length h1" for i using that len by simp
  note ra = run_ptr_arith[OF s clt]
  have init: "UmmInitialized s" using s by (simp add: umm_inv_def UmmInitialized_def)
  note pc = runs_between[OF h1(2)]
  have "heap_inv h1 ((xs @ [(p, f)]) @ (c, False) # (e, False) # zs) fl1" using h1(2) by simp
  note ce = runs_between[OF this]
  have nc: "used_next (h1 ! c) = of_nat e" using ce(6) ref_masks(6)[OF small[OF ce(2)]] by simp
  have esub: "e \<in> fst ` set bs" using h1(3) by (cases g) (auto simp: bs)
  have plt: "p < length h1" using pc(1,2) by simp
  have test: "used_next (h1 ! p) AND UMM_FREELIST_MASK \<noteq> 0 \<longleftrightarrow> f" unfolding pc(6) by (rule ref_masks(2)[OF small[OF pc(2)]])
  let ?tail = "\<lambda>h2. UmmFree (run_ptr s c) s = Some (True, s\<lparr>umm_heap := h2\<rparr>)"
  show ?thesis
  proof (cases f)
    case True
    define h2 where "h2 = updP (updN h1 p (ref e True)) e (of_nat p)"
    have p0: "p \<noteq> 0" using heap_inv_range(2)[OF h1(2), of p] True by simp
    have "umm_assimilate_down (of_nat c) UMM_FREELIST_MASK h1 = Some (of_nat p, h2)"
      using clt pc(1) ce(1,2) plt len ref_masks(5)[OF small[OF ce(2)]] by (simp add: umm_assimilate_down_def nc pc(7) h2_def)
    then have run: "?tail h2"
      using ra init h1(1) clt plt len test True by (simp add: UmmFree_def pc(7))
    have "heap_inv h2 (xs @ (p, True) # (e, False) # zs) fl1"
    proof (rule merge_inv[OF h1(2)[unfolded eqTrueI[OF True]] p0])
      show "keeps {p, e} {} h1 h2" unfolding h2_def by (intro keeps_upd keeps_refl) auto
      show "used_next (h2 ! p) = ref e True" "used_prev (h2 ! e) = of_nat p" "used_prev (h2 ! p) = used_prev (h1 ! p)" "used_next (h2 ! e) = used_next (h1 ! e)"
        using plt pc(1) ce(1,2) by (auto simp: h2_def)
    qed simp
    moreover have "keeps (fst ` set bs) ({0, c} \<union> set fl) ?h h2"
      unfolding h2_def using keeps_mono[OF h1(5), of "fst ` set bs" "{0, c} \<union> set fl"] esub by (intro keeps_upd) (auto simp: bs)
    moreover have "release c bs = xs @ (p, True) # (e, False) # zs" using rel True by simp
    ultimately have "umm_inv (s\<lparr>umm_heap := h2\<rparr>) (release c bs) fl1" "keeps (fst ` set bs) ({0, c} \<union> set fl) ?h h2"
      using s len by (simp_all add: umm_inv_def keeps_def)
    then show ?thesis using run by blast
  next
    case False
    let ?bs1 = "xs @ (p, f) # (c, False) # (e, False) # zs"
    have dist: "distinct (map fst ?bs1)" by (rule heap_inv_range(4)[OF h1(2)])
    have id: "set_free c True zs = zs" if "c \<notin> fst ` set zs" for zs using that by (intro map_idI[where f = "\<lambda>x. (fst x, if fst x = c then True else snd x)", folded set_free_def]) auto
    have sf: "set_free c True ?bs1 = xs @ (p, False) # (c, True) # (e, False) # zs"
      using dist id[of xs] id[of zs] False by (auto simp: set_free_def)
    have adj: "successively (\<lambda>x y. \<not> (snd x \<and> snd y)) (set_free c True ?bs1)"
      unfolding sf using heap_invD(10)[OF h1(2)] by (auto simp: successively_append_iff)
    have c1: "(c, False) \<in> set ?bs1" "c \<noteq> length h1 - 1" using c(3) len by simp_all
    note con = connect_inv[OF h1(2) c1(1) c(2) c1(2) adj]
    define n where "n = hd (fl1 @ [0])"
    define h2 where "h2 = updN (updNF (updPF (updNF (updPF h1 n (of_nat c)) c (of_nat n)) c 0) 0 (of_nat c)) c (used_next (h1 ! c) OR UMM_FREELIST_MASK)"
    have h1_ne: "h1 \<noteq> []" using plt by auto
    have run: "?tail h2"
      using ra init h1(1) clt plt len test False con(3,4,5) c(2) h1_ne by (simp add: UmmFree_def Let_def pc(7) h2_def n_def[symmetric])
    have "keeps (fst ` set bs) ({0, c} \<union> set fl) ?h h2"
      using keeps_trans[OF keeps_mono[OF h1(5)] keeps_mono[OF con(2)], of "fst ` set bs" "{0, c} \<union> set fl"] h1(4) by (auto simp: h2_def n_def bs)
    moreover have "release c bs = set_free c True ?bs1" using rel False unfolding sf by simp
    ultimately show ?thesis
      using run con(1) s len unfolding n_def[symmetric] h2_def[symmetric] by (intro exI[of _ h2] exI[of _ "c # fl1"]) (simp add: umm_inv_def keeps_def)
  qed
qed

section \<open>Allocating memory\<close>

fun run_size :: "runs \<Rightarrow> nat \<Rightarrow> nat" where
  "run_size (x # y # r) a = (if a = fst x then fst y - fst x else run_size (y # r) a)"
| "run_size r a = 0"

lemma run_size_split: "c \<notin> fst ` set xs \<Longrightarrow> run_size (xs @ (c, f) # (d, g) # ys) c = d - c"
  by (induction xs rule: induct_list012) auto

text \<open>The specification: the free run is split after \<open>k\<close> blocks, unless it has just that many.\<close>

definition reserve :: "nat \<Rightarrow> nat \<Rightarrow> runs \<Rightarrow> runs" where
  "reserve c k bs = concat (map (\<lambda>x. if fst x = c then if run_size bs c = k then [(c, False)] else [(c, False), (c + k, True)] else [x]) bs)"

lemma reserve_eq:
  assumes inv: "heap_inv h (xs @ (c, True) # (d, g) # ys) fl"
  shows "reserve c k (xs @ (c, True) # (d, g) # ys) = xs @ (if d - c = k then [(c, False)] else [(c, False), (c + k, True)]) @ (d, g) # ys"
proof -
  have dist: "distinct (map fst (xs @ (c, True) # (d, g) # ys))" by (rule heap_inv_range(4)[OF inv])
  have id: "concat (map (\<lambda>x. if fst x = c then z else [x]) ys) = ys" if "c \<notin> fst ` set ys" for z and ys :: runs
    using that by (induction ys) auto
  show ?thesis using dist id[of xs] id[of ys] unfolding reserve_def by (auto simp: run_size_split)
qed

lemma free_run:
  assumes inv: "heap_inv h bs fl" and a: "a \<in> set fl"
  obtains xs d g ys where "bs = xs @ (a, True) # (d, g) # ys" "a < d" "d < length h" "used_next (h ! a) = ref d True" "run_size bs a = d - a"
    "(used_next (h ! a) AND UMM_BLOCKNO_MASK) - of_nat a = of_nat (d - a)"
proof -
  have t: "(a, True) \<in> set bs" using a heap_invD(13)[OF inv] by simp
  have a0: "a \<noteq> 0" using heap_inv_range(3)[OF inv a] by simp
  have al: "a \<noteq> length h - 1" using last_block(2)[OF inv] t heap_inv_range(5)[OF inv] by blast
  obtain xs p f d g ys where bs: "bs = (xs @ [(p, f)]) @ (a, True) # (d, g) # ys" using run_neighbours[OF inv t a0 al] by (metis append.assoc append_Cons append_Nil)
  note ad = runs_between[OF inv[unfolded bs]]
  have "run_size bs a = d - a" unfolding bs using heap_inv_range(4)[OF inv] by (intro run_size_split) (auto simp: bs)
  moreover have "d < 2 ^ 31" using ad(2) heap_invD(2)[OF inv] by simp
  then have "(used_next (h ! a) AND UMM_BLOCKNO_MASK) - of_nat a = of_nat (d - a)" unfolding ad(6) ref_masks(1)[OF \<open>d < 2 ^ 31\<close>] using ad(1) by (simp add: of_nat_diff)
  ultimately show thesis using that[of "xs @ [(p, f)]" d g ys] ad(1,2,6) bs by blast
qed

lemma small_le: "a < 2 ^ 31 \<Longrightarrow> b < 2 ^ 31 \<Longrightarrow> (of_nat a :: u32) \<le> of_nat b \<longleftrightarrow> a \<le> b" "a < 2 ^ 31 \<Longrightarrow> b < 2 ^ 31 \<Longrightarrow> (of_nat a :: u32) < of_nat b \<longleftrightarrow> a < b"
  unfolding word_le_nat_alt word_less_nat_alt by (simp_all add: small_word)

text \<open>The search for the best fit along the rest of the ring.\<close>

lemma malloc_search:
  assumes inv: "heap_inv h bs fl" and r: "successively (flink h) (r @ [0])" "set r \<subseteq> set fl" and k: "k < 2 ^ 31" "m < 2 ^ 31"
  shows "\<exists>b' m' l'. iterate (malloc_body (of_nat k) h) (of_nat (hd (r @ [0])), of_nat b, of_nat m, of_nat l) = Some (Some (0, of_nat b', of_nat m', of_nat l')) \<and>
    (if \<exists>a \<in> set r. k \<le> run_size bs a \<and> run_size bs a < m
     then b' \<in> set r \<and> m' = run_size bs b' \<and> k \<le> m' \<and> m' < m \<and> (\<forall>a \<in> set r. k \<le> run_size bs a \<longrightarrow> m' \<le> run_size bs a)
     else b' = b \<and> m' = m) \<and> l' = (if r = [] then l else run_size bs (last r))"
  using r k(2)
proof (induction r arbitrary: b m l)
  case Nil
  have "malloc_body (of_nat k) h (0, of_nat b, of_nat m, of_nat l) = Break (Some (0, of_nat b, of_nat m, of_nat l))" by (simp add: malloc_body_def)
  then show ?case by (auto simp: iterate_Break)
next
  case (Cons a r)
  have a: "a \<in> set fl" using Cons.prems(2) by simp
  obtain xs d g ys where ad: "a < d" "d < length h" "run_size bs a = d - a" "(used_next (h ! a) AND UMM_BLOCKNO_MASK) - of_nat a = of_nat (d - a)"
    using free_run[OF inv a] by metis
  have len: "length h < 2 ^ 28" by (rule heap_invD(2)[OF inv])
  have a0: "0 < a" "a < length h" using heap_inv_range(3)[OF inv a] by auto
  have anz: "(of_nat a :: u32) \<noteq> 0" using small_word[of a] a0 len by auto
  define better where "better \<longleftrightarrow> k \<le> run_size bs a \<and> run_size bs a < m"
  define b1 m1 where "b1 = (if better then a else b)" and "m1 = (if better then run_size bs a else m)"
  have s: "d - a < 2 ^ 31" using ad(2) len by simp
  have nf: "free_next (h ! a) = of_nat (hd (r @ [0]))" using Cons.prems(1) by (simp add: successively_Cons flink_def)
  have "malloc_body (of_nat k) h (of_nat a, of_nat b, of_nat m, of_nat l) = Continue (of_nat (hd (r @ [0])), of_nat b1, of_nat m1, of_nat (run_size bs a))"
    using anz a0 len ad(4) nf small_le[OF k(1) s] small_le[OF s Cons.prems(3)] by (auto simp: malloc_body_def Let_def b1_def m1_def better_def ad(3))
  then have step: "iterate (malloc_body (of_nat k) h) (of_nat (hd ((a # r) @ [0])), of_nat b, of_nat m, of_nat l) =
      iterate (malloc_body (of_nat k) h) (of_nat (hd (r @ [0])), of_nat b1, of_nat m1, of_nat (run_size bs a))"
    by (simp add: iterate_Continue)
  have r: "successively (flink h) (r @ [0])" "set r \<subseteq> set fl" "m1 < 2 ^ 31" using Cons.prems s by (auto simp: successively_Cons m1_def ad(3))
  from Cons.IH[OF r, of b1 "run_size bs a"] obtain b' m' l' where
    it: "iterate (malloc_body (of_nat k) h) (of_nat (hd (r @ [0])), of_nat b1, of_nat m1, of_nat (run_size bs a)) = Some (Some (0, of_nat b', of_nat m', of_nat l'))"
    and best: "if \<exists>a \<in> set r. k \<le> run_size bs a \<and> run_size bs a < m1
     then b' \<in> set r \<and> m' = run_size bs b' \<and> k \<le> m' \<and> m' < m1 \<and> (\<forall>a \<in> set r. k \<le> run_size bs a \<longrightarrow> m' \<le> run_size bs a)
     else b' = b1 \<and> m' = m1" and l': "l' = (if r = [] then run_size bs a else run_size bs (last r))" by blast
  have "if \<exists>a \<in> set (a # r). k \<le> run_size bs a \<and> run_size bs a < m
     then b' \<in> set (a # r) \<and> m' = run_size bs b' \<and> k \<le> m' \<and> m' < m \<and> (\<forall>a \<in> set (a # r). k \<le> run_size bs a \<longrightarrow> m' \<le> run_size bs a)
     else b' = b \<and> m' = m"
  proof (cases "\<exists>a \<in> set r. k \<le> run_size bs a \<and> run_size bs a < m1")
    case True
    then show ?thesis using best by (cases better) (auto simp: m1_def b1_def better_def)
  next
    case False
    then show ?thesis using best by (cases better) (auto simp: m1_def b1_def better_def not_less)
  qed
  moreover have "l' = (if a # r = [] then l else run_size bs (last (a # r)))" using l' by simp
  ultimately show ?case unfolding step using it by (intro exI conjI)
qed

lemma set_free_split:
  assumes "heap_inv h (xs @ (c, f) # ys) fl"
  shows "set_free c g (xs @ (c, f) # ys) = xs @ (c, g) # ys"
proof -
  have d: "distinct (map fst (xs @ (c, f) # ys))" by (rule heap_inv_range(4)[OF assms])
  have id: "set_free c g zs = zs" if "c \<notin> fst ` set zs" for zs
    using that by (intro map_idI[where f = "\<lambda>x. (fst x, if fst x = c then g else snd x)", folded set_free_def]) auto
  show ?thesis using d id[of xs] id[of ys] by (auto simp: set_free_def)
qed

lemma UmmMalloc_spec:
  assumes s: "umm_inv s bs fl" and Size: "Size \<noteq> 0" and k: "k = unat (umm_blocks Size)"
  shows "if \<exists>a. (a, True) \<in> set bs \<and> k \<le> run_size bs a
    then \<exists>c h' fl'. (c, True) \<in> set bs \<and> k \<le> run_size bs c \<and> (\<forall>a. (a, True) \<in> set bs \<and> k \<le> run_size bs a \<longrightarrow> run_size bs c \<le> run_size bs a) \<and>
      UmmMalloc Size s = Some (run_ptr s c, s\<lparr>umm_heap := h'\<rparr>) \<and> umm_inv (s\<lparr>umm_heap := h'\<rparr>) (reserve c k bs) fl' \<and>
      keeps (fst ` set (reserve c k bs)) ({0} \<union> set fl \<union> set fl') (umm_heap s) h'
    else UmmMalloc Size s = Some (0, s)"
proof -
  let ?h = "umm_heap s"
  have inv: "heap_inv ?h bs fl" and init: "UmmInitialized s" using s by (auto simp: umm_inv_def UmmInitialized_def)
  have fl: "a \<in> set fl \<longleftrightarrow> (a, True) \<in> set bs" for a using heap_invD(13)[OF inv] by simp
  have len: "length ?h < 2 ^ 28" "2 < length ?h" by (rule heap_invD(2)[OF inv], rule heap_invD(1)[OF inv])
  have kb: "umm_blocks Size = of_nat k" "0 < k" "k < 2 ^ 31" using umm_blocks_enough[OF Size] by (auto simp: k)
  have ring: "free_next (?h ! 0) = of_nat (hd (fl @ [0]))" "successively (flink ?h) (fl @ [0])"
    using heap_invD(11)[OF inv] by (simp_all add: successively_Cons flink_def)
  have hne: "?h \<noteq> []" using len by auto
  obtain b m l where it: "iterate (malloc_body (of_nat k) ?h) (of_nat (hd (fl @ [0])), of_nat (hd (fl @ [0])), of_nat 0x7FFFFFFF, of_nat 0) = Some (Some (0, of_nat b, of_nat m, of_nat l))"
    and best: "if \<exists>a \<in> set fl. k \<le> run_size bs a \<and> run_size bs a < 0x7FFFFFFF
     then b \<in> set fl \<and> m = run_size bs b \<and> k \<le> m \<and> m < 0x7FFFFFFF \<and> (\<forall>a \<in> set fl. k \<le> run_size bs a \<longrightarrow> m \<le> run_size bs a)
     else b = hd (fl @ [0]) \<and> m = 0x7FFFFFFF" and l: "l = (if fl = [] then 0 else run_size bs (last fl))"
    using malloc_search[OF inv ring(2) order_refl kb(3), of "0x7FFFFFFF" "hd (fl @ [0])" 0] by auto
  have size: "run_size bs a < 2 ^ 28" if "a \<in> set fl" for a using free_run[OF inv that] len by (metis less_imp_diff_less less_trans)
  then have lim: "run_size bs a < 0x7FFFFFFF" if "a \<in> set fl" for a using that by fastforce
  show ?thesis
  proof (cases "\<exists>a. (a, True) \<in> set bs \<and> k \<le> run_size bs a")
    case False
    then have m: "m = 0x7FFFFFFF" using best by (auto simp: fl)
    have lk: "l < k" using False kb(2) unfolding l by (auto simp: fl[symmetric] not_le)
    then have "\<not> (of_nat k :: u32) \<le> of_nat l" using small_le[of k l] kb(3) by simp
    then have "UmmMalloc Size s = Some (0, s)"
      using init Size it hne len ring(1) by (simp add: UmmMalloc_def kb(1) m)
    then show ?thesis unfolding if_not_P[OF False] .
  next
    case True
    then have b: "b \<in> set fl" "m = run_size bs b" "k \<le> m" "m < 0x7FFFFFFF" "\<And>a. (a, True) \<in> set bs \<Longrightarrow> k \<le> run_size bs a \<Longrightarrow> m \<le> run_size bs a"
      using best lim by (auto simp: fl split: if_splits)
    obtain xs d g ys where bs: "bs = xs @ (b, True) # (d, g) # ys" and bd: "b < d" "d < length ?h" "used_next (?h ! b) = ref d True" "run_size bs b = d - b"
      using free_run[OF inv b(1)] by metis
    have d31: "d < 2 ^ 31" "m < 2 ^ 31" using bd(2) len b(4) by simp_all
    have dnz: "(of_nat d :: u32) \<noteq> 0" using small_word[OF d31(1)] bd(1) by auto
    have mne: "(of_nat m :: u32) \<noteq> 0x7FFFFFFF"
    proof
      assume "(of_nat m :: u32) = 0x7FFFFFFF"
      then have "unat (of_nat m :: u32) = unat (0x7FFFFFFF :: u32)" by (rule arg_cong)
      then show False unfolding small_word[OF d31(2)] using b(4) by simp
    qed
    have ge: "(of_nat k :: u32) \<le> of_nat m" using small_le(1)[OF kb(3) d31(2)] b(3) by simp
    have eq: "(of_nat m :: u32) = of_nat k \<longleftrightarrow> m = k" by (metis small_word d31(2) kb(3))
    have ptr: "default_umm_heap s + 16 * ucast (of_nat b :: u32) + 8 = run_ptr s b"
    proof -
      have "(ucast (of_nat b :: u32) :: u64) = of_nat (unat (of_nat b :: u32))" by simp
      also have "\<dots> = of_nat b" using small_word[of b] bd(1) d31(1) by simp
      finally show ?thesis by (simp add: run_ptr_def)
    qed
    have bl: "b < length ?h" using bd by simp
    have run: "UmmMalloc Size s = Option.bind (if m = k then umm_disconnect_from_free_list (of_nat b) ?h else split_free (of_nat b) (of_nat k) ?h)
        (\<lambda>h. Some (run_ptr s b, s\<lparr>umm_heap := h\<rparr>))"
      using init Size it hne len ring(1) mne ge eq bl bd(3) dnz ref_masks(1)[OF d31(1)]
      by (simp add: UmmMalloc_def Let_def kb(1) ptr split_free_def)
    note rsv = reserve_eq[OF inv[unfolded bs], folded bs]
    have "\<exists>h' fl'. UmmMalloc Size s = Some (run_ptr s b, s\<lparr>umm_heap := h'\<rparr>) \<and> heap_inv h' (reserve b k bs) fl' \<and> keeps (fst ` set (reserve b k bs)) ({0} \<union> set fl \<union> set fl') ?h h'"
    proof (cases "m = k")
      case True
      have r: "reserve b k bs = set_free b False bs" using set_free_split[OF inv[unfolded bs], of False, folded bs] rsv True b(2) bd(4) by (simp add: bs)
      obtain h' where "umm_disconnect_from_free_list (of_nat b) ?h = Some h'" "heap_inv h' (set_free b False bs) (remove1 b fl)" "keeps {b} ({0} \<union> set fl) ?h h'"
        using disconnect_inv[OF inv, of b] b(1) fl by blast
      then show ?thesis using run True r keeps_mono[of "{b}" "{0} \<union> set fl" ?h h' "fst ` set (reserve b k bs)" "{0} \<union> set fl \<union> set (remove1 b fl)"]
        by (intro exI[of _ h'] exI[of _ "remove1 b fl"]) (auto simp: bs)
    next
      case False
      have e: "b < b + k" "b + k < d" "(of_nat b :: u32) + of_nat k = of_nat (b + k)" using kb(2) b(2,3) bd(1,4) False by simp_all
      obtain h' where h': "split_free (of_nat b) (of_nat k) ?h = Some h'" "heap_inv h' (xs @ (b, False) # (b + k, True) # (d, g) # ys) (map (\<lambda>a. if a = b then b + k else a) fl)"
        "keeps {b, b + k, d} ({0, b + k} \<union> set fl) ?h h'"
        using split_inv[OF inv[unfolded bs] e] by blast
      have r: "reserve b k bs = xs @ (b, False) # (b + k, True) # (d, g) # ys" using rsv False b(2) bd(4) by simp
      have "keeps (fst ` set (reserve b k bs)) ({0} \<union> set fl \<union> set (map (\<lambda>a. if a = b then b + k else a) fl)) ?h h'"
        using b(1) by (intro keeps_mono[OF h'(3)]) (auto simp: r)
      moreover have "UmmMalloc Size s = Some (run_ptr s b, s\<lparr>umm_heap := h'\<rparr>)" using run False h'(1) by simp
      ultimately show ?thesis using h'(2) unfolding r by blast
    qed
    then obtain h' fl' where h': "UmmMalloc Size s = Some (run_ptr s b, s\<lparr>umm_heap := h'\<rparr>)" "heap_inv h' (reserve b k bs) fl'"
      "keeps (fst ` set (reserve b k bs)) ({0} \<union> set fl \<union> set fl') ?h h'" by blast
    then have "umm_inv (s\<lparr>umm_heap := h'\<rparr>) (reserve b k bs) fl'" using s by (simp add: umm_inv_def keeps_def)
    then show ?thesis using True h' b fl unfolding if_P[OF True] by (intro exI[of _ b] exI[of _ h'] exI[of _ fl']) auto
  qed
qed

section \<open>The view of a client\<close>

text \<open>The runs with their sizes, and those that are in use.\<close>

fun runs_of :: "runs \<Rightarrow> (nat \<times> bool \<times> nat) list" where
  "runs_of (x # y # r) = (fst x, snd x, fst y - fst x) # runs_of (y # r)"
| "runs_of r = []"

definition used :: "runs \<Rightarrow> (nat \<times> nat) set" where
  "used bs = {(a, k). (a, False, k) \<in> set (runs_of bs) \<and> a \<noteq> 0}"

lemma runs_of_append: "runs_of (xs @ x # y # r) = runs_of (xs @ [x]) @ (fst x, snd x, fst y - fst x) # runs_of (y # r)"
  by (induction xs rule: induct_list012) auto

lemma runs_of_last: "runs_of (xs @ [(p, f)]) = runs_of (xs @ [(p, g)])"
  by (induction xs rule: induct_list012) auto

lemma runs_of_start: "(a, f, k) \<in> set (runs_of bs) \<Longrightarrow> (a, f) \<in> set bs"
  by (induction bs rule: runs_of.induct) auto

lemma runs_of_fst: "(a, f, k) \<in> set (runs_of bs) \<Longrightarrow> a \<in> fst ` set bs"
  using runs_of_start by force

lemma runs_of_bound:
  assumes "sorted_wrt (<) (map fst bs)" "(a, f, k) \<in> set (runs_of bs)" "b \<in> fst ` set bs" "a < b"
  shows "a + k \<le> b"
  using assms
proof (induction bs rule: runs_of.induct)
  case (1 x y r)
  have s: "\<forall>z \<in> fst ` set (y # r). fst x < z" "\<forall>z \<in> fst ` set r. fst y < z" using 1(2) by auto
  show ?case
  proof (cases "(a, f, k) = (fst x, snd x, fst y - fst x)")
    case True
    then show ?thesis using 1(4,5) s by auto
  next
    case False
    then have r: "(a, f, k) \<in> set (runs_of (y # r))" using 1(3) by auto
    then have "fst x < a" using s(1) runs_of_fst[OF r] by blast
    then have "b \<in> fst ` set (y # r)" using 1(4,5) by auto
    then show ?thesis using 1(1)[OF _ r] 1(2,5) by simp
  qed
qed auto

lemma runs_of_size: "distinct (map fst bs) \<Longrightarrow> (a, f, k) \<in> set (runs_of bs) \<Longrightarrow> run_size bs a = k"
proof (induction bs rule: runs_of.induct)
  case (1 x y r)
  show ?case
  proof (cases "(a, f, k) = (fst x, snd x, fst y - fst x)")
    case False
    then have r: "(a, f, k) \<in> set (runs_of (y # r))" using 1(3) by auto
    then have "a \<noteq> fst x" using runs_of_fst[OF r] 1(2) by auto
    then show ?thesis using 1(1)[OF _ r] 1(2) by simp
  qed simp
qed auto

lemma runs_of_not_last: "distinct (map fst bs) \<Longrightarrow> bs \<noteq> [] \<Longrightarrow> (a, f, k) \<in> set (runs_of bs) \<Longrightarrow> a \<noteq> fst (last bs)"
  by (induction bs rule: runs_of.induct) (auto dest: runs_of_start split: if_splits)

lemma runs_of_exists: "(a, f) \<in> set bs \<Longrightarrow> a \<noteq> fst (last bs) \<Longrightarrow> \<exists>k. (a, f, k) \<in> set (runs_of bs)"
  by (induction bs rule: runs_of.induct) (auto split: if_splits)

lemma used_reserve:
  assumes inv: "heap_inv h bs fl" and c: "(c, True) \<in> set bs" and k: "0 < k" "k \<le> run_size bs c"
  shows "used (reserve c k bs) = insert (c, k) (used bs)"
proof -
  have "c \<in> set fl" using heap_invD(13)[OF inv] c by simp
  then obtain xs d g ys where bs: "bs = xs @ (c, True) # (d, g) # ys" and d: "run_size bs c = d - c" "c < d" using free_run[OF inv] by metis
  have c0: "c \<noteq> 0" using heap_inv_range(2)[OF inv c] by simp
  have "reserve c k bs = xs @ (if d - c = k then [(c, False)] else [(c, False), (c + k, True)]) @ (d, g) # ys" unfolding bs by (rule reserve_eq[OF inv[unfolded bs]])
  then have "runs_of (reserve c k bs) = runs_of (xs @ [(c, True)]) @ (c, False, k) # (if d - c = k then [] else [(c + k, True, d - (c + k))]) @ runs_of ((d, g) # ys)"
    using runs_of_append[of xs "(c, False)" "(d, g)" ys] runs_of_append[of xs "(c, False)" "(c + k, True)" "(d, g) # ys"] runs_of_last[of xs c False True] by auto
  moreover have "runs_of bs = runs_of (xs @ [(c, True)]) @ (c, True, d - c) # runs_of ((d, g) # ys)" unfolding bs runs_of_append by simp
  ultimately show ?thesis using c0 by (auto simp: used_def split: if_splits)
qed

lemma used_release:
  assumes inv: "heap_inv h bs fl" and c: "(c, False) \<in> set bs" "c \<noteq> 0" "c \<noteq> length h - 1"
  shows "used (release c bs) = used bs - {(c, run_size bs c)}"
proof -
  obtain xs p f d g ys where bs: "bs = xs @ (p, f) # (c, False) # (d, g) # ys" using run_neighbours[OF inv c] .
  have dist: "distinct (map fst bs)" by (rule heap_inv_range(4)[OF inv])
  have "g \<Longrightarrow> ys \<noteq> []" using heap_invD(6)[OF inv] by (auto simp: bs)
  moreover have "\<not> (g \<and> ys \<noteq> [] \<and> snd (hd ys))" using heap_invD(10)[OF inv] by (auto simp: bs successively_append_iff neq_Nil_conv)
  ultimately obtain e zs where n: "if g then ys = (e, False) # zs else e = d \<and> zs = ys" by (cases g; cases ys) (auto simp: prod_eq_iff)
  have R: "runs_of bs = runs_of (xs @ [(p, f)]) @ (p, f, c - p) # (c, False, d - c) # (if g then [(d, True, e - d)] else []) @ runs_of ((e, False) # zs)"
    using n unfolding bs runs_of_append by (cases g) auto
  have R': "runs_of (release c bs) = runs_of (xs @ [(p, f)]) @ (if f then [(p, True, e - p)] else [(p, False, c - p), (c, True, e - c)]) @ runs_of ((e, False) # zs)"
    using release_eq[OF inv[unfolded bs] n, folded bs] runs_of_append[of xs "(p, True)" "(e, False)" zs]
      runs_of_append[of xs "(p, False)" "(c, True)" "(e, False) # zs"] runs_of_last[of xs p f True] runs_of_last[of xs p f False] by auto
  have "run_size bs c = d - c" using runs_of_size[OF dist, of c False "d - c"] by (simp add: R)
  moreover have "(c, i, j) \<notin> set (runs_of (xs @ [(p, f)]))" "(c, i, j) \<notin> set (runs_of ((e, False) # zs))" for i j
  proof -
    have "c \<notin> fst ` set (xs @ [(p, f)])" "c \<notin> fst ` set ((e, False) # zs)" using dist n by (auto simp: bs split: if_splits)
    then show "(c, i, j) \<notin> set (runs_of (xs @ [(p, f)]))" "(c, i, j) \<notin> set (runs_of ((e, False) # zs))" by (meson runs_of_fst)+
  qed
  moreover have "c \<noteq> p" using dist by (simp add: bs)
  ultimately show ?thesis unfolding used_def R R' by (auto split: if_splits)
qed

lemma UmmSetHeap_spec:
  assumes "heap \<noteq> 0" "48 \<le> unat Size" "unat heap + unat Size < 2 ^ 64" "length memory = unat Size div 16"
  shows "\<exists>s'. UmmSetHeap heap Size memory s = Some s' \<and> umm_inv s' [(0, False), (1, True), (length memory - 1, False)] [1] \<and>
    default_umm_heap s' = heap \<and> default_umm_heap_size s' = Size"
proof -
  define n where "n = length memory"
  have S: "unat Size < 2 ^ 32" using unsigned_less[of Size] by simp
  have n: "2 < n" "n < 2 ^ 28" using assms(2,4) S by (simp_all add: n_def)
  have "unat (Size div 16) = n" using assms(4) by (simp add: n_def unat_div)
  then have d: "Size div 16 = of_nat n" by (metis of_nat_unat unsigned_ucast_eq ucast_id)
  define w m where "w = (of_nat (n - 1) :: u32)" and "m = n - 1"
  have l: "Size div 16 - 1 = w" unfolding d w_def using n by (simp add: of_nat_diff)
  have last: "w OR UMM_FREELIST_MASK = ref m True" unfolding w_def m_def using n by (intro ref_masks) simp
  define h where "h = updP (updN (updPF (updP (updNF (updN (updPF (updNF (updN memory 0 1) 0 1) 0 1) 1 (ref m True)) 1 0) 1 0) 1 0) m 0) m 1"
  have acc: "set_NBLOCK 0 v g = Some (updN g 0 v)" "set_NFREE 0 v g = Some (updNF g 0 v)" "set_PFREE 0 v g = Some (updPF g 0 v)"
    "set_NBLOCK 1 v g = Some (updN g 1 v)" "set_PBLOCK 1 v g = Some (updP g 1 v)" "set_NFREE 1 v g = Some (updNF g 1 v)" "set_PFREE 1 v g = Some (updPF g 1 v)"
    "set_NBLOCK w v g = Some (updN g m v)" "set_PBLOCK w v g = Some (updP g m v)"
    if "length g = n" for v g using access[of 0 g] access[of 1 g] access[of "n - 1" g] that n unfolding w_def m_def by simp_all
  have lm: "length memory = n" by (simp add: n_def)
  have run: "UmmSetHeap heap Size memory s = Some (s\<lparr>default_umm_heap := heap, default_umm_heap_size := Size, umm_heap := h, umm_numblocks := of_nat n\<rparr>)"
    unfolding UmmSetHeap_def umm_init_def Let_def by (simp add: acc lm h_def l last) (simp add: d)
  have len: "length h = n" by (simp add: h_def n_def)
  have lt: "0 < length memory" "1 < length memory" "m < length memory" "m \<noteq> 0" "m \<noteq> 1" using n by (auto simp: n_def m_def)
  have f: "used_next (h ! 0) = 1" "used_next (h ! 1) = ref m True" "used_prev (h ! 1) = 0" "used_next (h ! m) = 0" "used_prev (h ! m) = 1"
    "free_next (h ! 0) = 1" "free_prev (h ! 0) = 1" "free_next (h ! 1) = 0" "free_prev (h ! 1) = 0"
    using lt by (simp_all add: h_def del: One_nat_def)
  have r1: "ref 1 False = 1" by (simp add: ref_def)
  have "heap_inv h [(0, False), (1, True), (m, False)] [1]"
    unfolding heap_inv_def len m_def[symmetric] using n f lt by (intro conjI) (auto simp: link_def flink_def r1 simp del: One_nat_def)
  then have "umm_inv (s\<lparr>default_umm_heap := heap, default_umm_heap_size := Size, umm_heap := h, umm_numblocks := of_nat n\<rparr>) [(0, False), (1, True), (length memory - 1, False)] [1]"
    using assms len unfolding n_def[symmetric] m_def[symmetric] by (simp add: umm_inv_def n_def)
  then show ?thesis using run by simp
qed

text \<open>The block of a pointer, what a client may write to, and what it sees there.\<close>

definition block_of :: "umm_state \<Rightarrow> u64 \<Rightarrow> nat" where
  "block_of s p = unat ((p - default_umm_heap s) div 16)"

definition client_write :: "nat \<Rightarrow> nat \<Rightarrow> umm_block list \<Rightarrow> umm_block list \<Rightarrow> bool" where
  "client_write c k h h' \<longleftrightarrow> length h' = length h \<and> used_next (h' ! c) = used_next (h ! c) \<and> used_prev (h' ! c) = used_prev (h ! c) \<and>
     (\<forall>i. \<not> (c \<le> i \<and> i < c + k) \<longrightarrow> h' ! i = h ! i)"

definition user_data :: "umm_block list \<Rightarrow> nat \<Rightarrow> nat \<Rightarrow> u32 \<times> u32 \<times> umm_block list" where
  "user_data h c k = (free_next (h ! c), free_prev (h ! c), map ((!) h) [c + 1..<c + k])"

text \<open>
  Runs of the allocator with clients: each keeps its pointers with the number of blocks that were requested, writes only to its own memory and frees only
  its own pointers.
\<close>

inductive umm_step :: "umm_state \<times> (u64 \<times> nat) list \<Rightarrow> umm_state \<times> (u64 \<times> nat) list \<Rightarrow> bool" where
  step_malloc: "UmmMalloc Size s = Some (p, s') \<Longrightarrow> umm_step (s, L) (s', if p = 0 then L else (p, unat (umm_blocks Size)) # L)"
| step_free: "(p, k) \<in> set L \<Longrightarrow> UmmFree p s = Some (r, s') \<Longrightarrow> umm_step (s, L) (s', remove1 (p, k) L)"
| step_write: "(p, k) \<in> set L \<Longrightarrow> client_write (block_of s p) k (umm_heap s) h' \<Longrightarrow> umm_step (s, L) (s\<lparr>umm_heap := h'\<rparr>, L)"

inductive umm_reachable :: "umm_state \<times> (u64 \<times> nat) list \<Rightarrow> bool" where
  reach_start: "heap \<noteq> 0 \<Longrightarrow> 48 \<le> unat Size \<Longrightarrow> unat heap + unat Size < 2 ^ 64 \<Longrightarrow> length memory = unat Size div 16 \<Longrightarrow>
    UmmSetHeap heap Size memory s0 = Some s \<Longrightarrow> umm_reachable (s, [])"
| reach_step: "umm_reachable x \<Longrightarrow> umm_step x y \<Longrightarrow> umm_reachable y"

definition client_inv :: "umm_state \<Rightarrow> runs \<Rightarrow> nat list \<Rightarrow> (u64 \<times> nat) list \<Rightarrow> bool" where
  "client_inv s bs fl L \<longleftrightarrow> umm_inv s bs fl \<and> distinct L \<and> set L = (\<lambda>(c, k). (run_ptr s c, k)) ` used bs"

lemma block_of_run_ptr: "umm_inv s bs fl \<Longrightarrow> c < length (umm_heap s) \<Longrightarrow> block_of s (run_ptr s c) = c"
proof -
  assume a: "umm_inv s bs fl" "c < length (umm_heap s)"
  have "run_ptr s c - default_umm_heap s = of_nat (16 * c + 8)" unfolding run_ptr_arith(6)[OF a, symmetric] run_ptr_def by simp
  moreover have "c < 2 ^ 28" using a by (auto simp: umm_inv_def heap_inv_def)
  then have "unat (of_nat (16 * c + 8) :: u64) = 16 * c + 8" by (simp only: unat_of_nat) simp
  ultimately show ?thesis by (simp add: block_of_def unat_div)
qed

lemma used_run:
  assumes inv: "heap_inv h bs fl" and u: "(c, k) \<in> used bs"
  shows "(c, False) \<in> set bs" "c \<noteq> 0" "c \<noteq> length h - 1" "run_size bs c = k" "c < length h" "c \<notin> set fl" "c + k \<le> length h - 1" "0 < k"
    "i \<in> fst ` set bs \<Longrightarrow> \<not> (c < i \<and> i < c + k)"
proof -
  have r: "(c, False, k) \<in> set (runs_of bs)" and c0: "c \<noteq> 0" using u by (auto simp: used_def)
  show c: "(c, False) \<in> set bs" "c \<noteq> 0" using runs_of_start[OF r] c0 by auto
  have d: "distinct (map fst bs)" by (rule heap_inv_range(4)[OF inv])
  show k: "run_size bs c = k" using runs_of_size[OF d r] .
  show l: "c \<noteq> length h - 1" using runs_of_not_last[OF d heap_invD(4)[OF inv] r] heap_invD(6)[OF inv] by simp
  show "c < length h" using heap_inv_range(1)[OF inv c(1)] by simp
  show "c \<notin> set fl" using heap_invD(13)[OF inv] c(1) heap_inv_range(5)[OF inv] by auto
  show "\<not> (c < i \<and> i < c + k)" if "i \<in> fst ` set bs" using runs_of_bound[OF heap_invD(3)[OF inv] r that] by auto
  have "length h - 1 \<in> fst ` set bs" using last_block(2)[OF inv] by force
  then show "c + k \<le> length h - 1" using runs_of_bound[OF heap_invD(3)[OF inv] r] l \<open>c < length h\<close> by auto
  obtain xs p f e g ys where bs: "bs = xs @ (p, f) # (c, False) # (e, g) # ys" using run_neighbours[OF inv c l] .
  have inv': "heap_inv h ((xs @ [(p, f)]) @ (c, False) # (e, g) # ys) fl" using inv by (simp add: bs)
  have "run_size bs c = e - c" unfolding bs using d run_size_split[of c "xs @ [(p, f)]" False e g ys] by (auto simp: bs)
  then show "0 < k" using k runs_between(1)[OF inv'] by simp
qed

lemma run_ptr_heap [simp]: "run_ptr (s\<lparr>umm_heap := h\<rparr>) = run_ptr s" "block_of (s\<lparr>umm_heap := h\<rparr>) = block_of s"
  by (auto simp: run_ptr_def block_of_def)

lemma user_data_keeps:
  assumes "keeps H B h h'" "c \<notin> B" "\<And>i. i \<in> H \<union> B \<Longrightarrow> \<not> (c < i \<and> i < c + k)"
  shows "user_data h' c k = user_data h c k"
proof -
  have "h' ! i = h ! i" if "c < i" "i < c + k" for i
  proof -
    have "i \<notin> H" "i \<notin> B" using assms(3) that by blast+
    then show ?thesis using assms(1) by (auto simp: keeps_def)
  qed
  then show ?thesis using assms(1,2) by (auto simp: user_data_def keeps_def)
qed

lemma run_ptr_inj:
  assumes "umm_inv s bs fl"
  shows "inj_on (\<lambda>(c, k). (run_ptr s c, k)) (used bs)"
proof (rule inj_on_inverseI)
  fix x assume x: "x \<in> used bs"
  have inv: "heap_inv (umm_heap s) bs fl" using assms by (simp add: umm_inv_def)
  have "block_of s (run_ptr s (fst x)) = fst x" using block_of_run_ptr[OF assms used_run(5)[OF inv, of "fst x" "snd x"]] x by simp
  then show "(\<lambda>(p, k). (block_of s p, k)) ((\<lambda>(c, k). (run_ptr s c, k)) x) = x" by (simp add: case_prod_beta)
qed

lemma live_run:
  assumes "client_inv s bs fl L" "(p, k) \<in> set L"
  shows "p = run_ptr s (block_of s p)" "(block_of s p, k) \<in> used bs"
proof -
  have s: "umm_inv s bs fl" and inv: "heap_inv (umm_heap s) bs fl" using assms by (auto simp: client_inv_def umm_inv_def)
  obtain c where c: "p = run_ptr s c" "(c, k) \<in> used bs" using assms by (auto simp: client_inv_def)
  have "block_of s p = c" unfolding c(1) using block_of_run_ptr[OF s used_run(5)[OF inv c(2)]] .
  then show "p = run_ptr s (block_of s p)" "(block_of s p, k) \<in> used bs" using c by simp_all
qed

lemma malloc_client:
  assumes C: "client_inv s bs fl L" and Size: "Size \<noteq> 0" and k: "k = unat (umm_blocks Size)" and fits: "\<exists>a. (a, True) \<in> set bs \<and> k \<le> run_size bs a"
  shows "\<exists>p s' bs' fl'. UmmMalloc Size s = Some (p, s') \<and> p \<noteq> 0 \<and> client_inv s' bs' fl' ((p, k) # L) \<and> block_of s' = block_of s \<and>
    default_umm_heap s' = default_umm_heap s \<and> default_umm_heap_size s' = default_umm_heap_size s \<and>
    (\<forall>(q, j) \<in> set L. user_data (umm_heap s') (block_of s q) j = user_data (umm_heap s) (block_of s q) j)"
proof -
  have s: "umm_inv s bs fl" and inv: "heap_inv (umm_heap s) bs fl" using C by (auto simp: client_inv_def umm_inv_def)
  obtain c h' fl' where c: "(c, True) \<in> set bs" "k \<le> run_size bs c" and run: "UmmMalloc Size s = Some (run_ptr s c, s\<lparr>umm_heap := h'\<rparr>)"
    and s': "umm_inv (s\<lparr>umm_heap := h'\<rparr>) (reserve c k bs) fl'" and keep: "keeps (fst ` set (reserve c k bs)) ({0} \<union> set fl \<union> set fl') (umm_heap s) h'"
    using UmmMalloc_spec[OF s Size k] unfolding if_P[OF fits] by blast
  have k0: "0 < k" using umm_blocks_enough[OF Size] by (simp add: k)
  have clt: "c < length (umm_heap s)" using heap_inv_range(1)[OF inv c(1)] by simp
  note us = used_reserve[OF inv c(1) k0 c(2)]
  have inv': "heap_inv h' (reserve c k bs) fl'" using s' by (simp add: umm_inv_def)
  have new: "(run_ptr s c, k) \<notin> set L"
  proof
    assume "(run_ptr s c, k) \<in> set L"
    then have "(c, k) \<in> used bs" using live_run[OF C] block_of_run_ptr[OF s clt] by metis
    then show False using used_run(1)[OF inv] c(1) heap_inv_range(5)[OF inv] by blast
  qed
  have "client_inv (s\<lparr>umm_heap := h'\<rparr>) (reserve c k bs) fl' ((run_ptr s c, k) # L)"
    using s' C new unfolding client_inv_def us by auto
  moreover have "user_data h' (block_of s q) j = user_data (umm_heap s) (block_of s q) j" if q: "(q, j) \<in> set L" for q j
  proof -
    define a where "a = block_of s q"
    have u: "(a, j) \<in> used bs" using live_run(2)[OF C q] by (simp add: a_def)
    then have u': "(a, j) \<in> used (reserve c k bs)" by (simp add: us)
    show ?thesis unfolding a_def[symmetric]
    proof (rule user_data_keeps[OF keep])
      show "a \<notin> {0} \<union> set fl \<union> set fl'" using used_run(2,6)[OF inv u] used_run(6)[OF inv' u'] by simp
      fix i assume "i \<in> fst ` set (reserve c k bs) \<union> ({0} \<union> set fl \<union> set fl')"
      then have "i = 0 \<or> i \<in> fst ` set (reserve c k bs) \<or> i \<in> fst ` set bs" using heap_invD(13)[OF inv] heap_invD(13)[OF inv'] by force
      then show "\<not> (a < i \<and> i < a + j)" using used_run(9)[OF inv u] used_run(9)[OF inv' u'] by auto
    qed
  qed
  ultimately show ?thesis using run run_ptr_arith(2)[OF s clt] by (intro exI[of _ "run_ptr s c"] exI[of _ "s\<lparr>umm_heap := h'\<rparr>"]) auto
qed

lemma free_client:
  assumes C: "client_inv s bs fl L" and p: "(p, k) \<in> set L"
  shows "\<exists>s' bs' fl'. UmmFree p s = Some (True, s') \<and> client_inv s' bs' fl' (remove1 (p, k) L) \<and> block_of s' = block_of s \<and>
    default_umm_heap s' = default_umm_heap s \<and> default_umm_heap_size s' = default_umm_heap_size s \<and>
    (\<forall>(q, j) \<in> set (remove1 (p, k) L). user_data (umm_heap s') (block_of s q) j = user_data (umm_heap s) (block_of s q) j)"
proof -
  have s: "umm_inv s bs fl" and inv: "heap_inv (umm_heap s) bs fl" and L: "distinct L" "set L = (\<lambda>(c, k). (run_ptr s c, k)) ` used bs"
    using C by (auto simp: client_inv_def umm_inv_def)
  define c where "c = block_of s p"
  have c: "p = run_ptr s c" "(c, k) \<in> used bs" using live_run[OF C p] by (simp_all add: c_def)
  note ur = used_run[OF inv c(2)]
  obtain h' fl' where run: "UmmFree p s = Some (True, s\<lparr>umm_heap := h'\<rparr>)" and s': "umm_inv (s\<lparr>umm_heap := h'\<rparr>) (release c bs) fl'"
    and keep: "keeps (fst ` set bs) ({0, c} \<union> set fl) (umm_heap s) h'"
    using UmmFree_spec[OF s ur(1,2,3)] c(1) by blast
  have us: "used (release c bs) = used bs - {(c, k)}" using used_release[OF inv ur(1,2,3)] ur(4) by simp
  have "(\<lambda>(c, k). (run_ptr s c, k)) ` (used bs - {(c, k)}) = set L - {(p, k)}"
    using inj_on_image_set_diff[OF run_ptr_inj[OF s], of "used bs" "{(c, k)}"] c L(2) by auto
  then have "client_inv (s\<lparr>umm_heap := h'\<rparr>) (release c bs) fl' (remove1 (p, k) L)"
    using s' L(1) unfolding client_inv_def us by simp
  moreover have "user_data h' (block_of s q) j = user_data (umm_heap s) (block_of s q) j" if q: "(q, j) \<in> set (remove1 (p, k) L)" for q j
  proof -
    define a where "a = block_of s q"
    have qL: "(q, j) \<in> set L" "(q, j) \<noteq> (p, k)" using q L(1) by auto
    have u: "(a, j) \<in> used bs" and qa: "q = run_ptr s a" using live_run[OF C qL(1)] by (simp_all add: a_def)
    have "a \<noteq> c" using qL(2) qa c u used_run(4)[OF inv] by metis
    show ?thesis unfolding a_def[symmetric]
    proof (rule user_data_keeps[OF keep])
      show "a \<notin> {0, c} \<union> set fl" using used_run(2,6)[OF inv u] \<open>a \<noteq> c\<close> by simp
      fix i assume "i \<in> fst ` set bs \<union> ({0, c} \<union> set fl)"
      then have "i = 0 \<or> i \<in> fst ` set bs" using heap_invD(13)[OF inv] ur(1) by force
      then show "\<not> (a < i \<and> i < a + j)" using used_run(9)[OF inv u] by auto
    qed
  qed
  ultimately show ?thesis using run by (intro exI[of _ "s\<lparr>umm_heap := h'\<rparr>"]) auto
qed

lemma heap_inv_frame:
  assumes inv: "heap_inv h bs fl" and l: "length h' = length h"
    and n: "\<And>i. i \<in> fst ` set bs \<Longrightarrow> used_next (h' ! i) = used_next (h ! i) \<and> used_prev (h' ! i) = used_prev (h ! i)"
    and f: "\<And>i. i \<in> {0} \<union> set fl \<Longrightarrow> free_next (h' ! i) = free_next (h ! i) \<and> free_prev (h' ! i) = free_prev (h ! i)"
  shows "heap_inv h' bs fl"
proof -
  have "successively (link h') bs" by (rule successively_mono[OF heap_invD(8)[OF inv]]) (use n in \<open>auto simp: link_def\<close>)
  moreover have "successively (flink h') (0 # fl @ [0])" by (rule successively_mono[OF heap_invD(11)[OF inv]]) (use f in \<open>auto simp: flink_def\<close>)
  moreover have "used_next (h' ! (length h - 1)) = 0" using heap_invD(9)[OF inv] n[of "length h - 1"] last_block(2)[OF inv] by force
  ultimately show ?thesis using inv l unfolding heap_inv_def by simp
qed

lemma write_client:
  assumes C: "client_inv s bs fl L" and p: "(p, k) \<in> set L" and w: "client_write (block_of s p) k (umm_heap s) h'"
  shows "client_inv (s\<lparr>umm_heap := h'\<rparr>) bs fl L"
proof -
  define c where "c = block_of s p"
  have s: "umm_inv s bs fl" and inv: "heap_inv (umm_heap s) bs fl" using C by (auto simp: client_inv_def umm_inv_def)
  note ur = used_run[OF inv live_run(2)[OF C p, folded c_def]]
  note w' = w[folded c_def, unfolded client_write_def]
  have "heap_inv h' bs fl"
  proof (rule heap_inv_frame[OF inv])
    show "length h' = length (umm_heap s)" using w' by simp
    show "used_next (h' ! i) = used_next (umm_heap s ! i) \<and> used_prev (h' ! i) = used_prev (umm_heap s ! i)" if "i \<in> fst ` set bs" for i
      using w' ur(9)[OF that] by (cases "i = c") auto
    show "free_next (h' ! i) = free_next (umm_heap s ! i) \<and> free_prev (h' ! i) = free_prev (umm_heap s ! i)" if "i \<in> {0} \<union> set fl" for i
    proof -
      have "i = 0 \<or> i \<in> fst ` set bs" using that heap_invD(13)[OF inv] by force
      then have "\<not> (c \<le> i \<and> i < c + k)" using that ur(2,6) ur(9)[of i] by (cases "i = c"; cases "i = 0") auto
      then show ?thesis using w' by simp
    qed
  qed
  then show ?thesis using C w' by (simp add: client_inv_def umm_inv_def)
qed

section \<open>Every run of the allocator\<close>

lemma malloc_fails:
  assumes "client_inv s bs fl L" "Size = 0 \<or> \<not> (\<exists>a. (a, True) \<in> set bs \<and> unat (umm_blocks Size) \<le> run_size bs a)"
  shows "UmmMalloc Size s = Some (0, s)"
proof (cases "Size = 0")
  case True
  then show ?thesis by (simp add: UmmMalloc_def)
next
  case False
  then have n: "\<not> (\<exists>a. (a, True) \<in> set bs \<and> unat (umm_blocks Size) \<le> run_size bs a)" using assms(2) by simp
  have "umm_inv s bs fl" using assms(1) by (simp add: client_inv_def)
  from UmmMalloc_spec[OF this False refl] show ?thesis unfolding if_not_P[OF n] .
qed

lemma malloc_cases:
  assumes "client_inv s bs fl L" "UmmMalloc Size s = Some (p, s')"
  obtains (fail) "p = 0" "s' = s"
  | (ok) bs' fl' where "p \<noteq> 0" "Size \<noteq> 0" "client_inv s' bs' fl' ((p, unat (umm_blocks Size)) # L)" "block_of s' = block_of s"
    "\<forall>(q, j) \<in> set L. user_data (umm_heap s') (block_of s q) j = user_data (umm_heap s) (block_of s q) j"
proof (cases "Size = 0 \<or> \<not> (\<exists>a. (a, True) \<in> set bs \<and> unat (umm_blocks Size) \<le> run_size bs a)")
  case True
  then show thesis using malloc_fails[OF assms(1) True] assms(2) fail by simp
next
  case False
  then have "Size \<noteq> 0" "\<exists>a. (a, True) \<in> set bs \<and> unat (umm_blocks Size) \<le> run_size bs a" by auto
  from malloc_client[OF assms(1) this(1) refl this(2)] show thesis using assms(2) ok \<open>Size \<noteq> 0\<close> by auto
qed

lemma reachable_inv: "umm_reachable x \<Longrightarrow> \<exists>bs fl. client_inv (fst x) bs fl (snd x)"
proof (induction rule: umm_reachable.induct)
  case (reach_start heap Size memory s0 s)
  from UmmSetHeap_spec[OF reach_start(1-4), of s0] have "umm_inv s [(0, False), (1, True), (length memory - 1, False)] [1]" using reach_start(5) by auto
  then have "client_inv s [(0, False), (1, True), (length memory - 1, False)] [1] []" by (auto simp: client_inv_def used_def)
  then show ?case by auto
next
  case (reach_step x y)
  then obtain bs fl where C: "client_inv (fst x) bs fl (snd x)" by blast
  from reach_step(2) show ?case
  proof cases
    case (step_malloc Size s p s' L)
    have Cs: "client_inv s bs fl L" using C step_malloc by simp
    show ?thesis using step_malloc(1,2) Cs by (cases rule: malloc_cases[OF Cs step_malloc(3)]) auto
  next
    case (step_free p k L s r s')
    have "client_inv s bs fl L" using C step_free by simp
    from free_client[OF this step_free(3)] show ?thesis using step_free by auto
  next
    case (step_write p k L s h')
    have "client_inv s bs fl L" using C step_write by simp
    from write_client[OF this step_write(3,4)] show ?thesis using step_write by auto
  qed
qed

lemma live_bounds:
  assumes C: "client_inv s bs fl L" and p: "(p, k) \<in> set L"
  shows "unat p = unat (default_umm_heap s) + (16 * block_of s p + 8)" "0 < block_of s p" "block_of s p + k < unat (default_umm_heap_size s) div 16" "0 < k"
proof -
  have s: "umm_inv s bs fl" and inv: "heap_inv (umm_heap s) bs fl" and len: "length (umm_heap s) = unat (default_umm_heap_size s) div 16"
    using C by (auto simp: client_inv_def umm_inv_def)
  note ur = used_run[OF inv live_run(2)[OF C p]]
  show "unat p = unat (default_umm_heap s) + (16 * block_of s p + 8)" using run_ptr_arith(1)[OF s ur(5)] live_run(1)[OF C p] by simp
  show "0 < block_of s p" "block_of s p + k < unat (default_umm_heap_size s) div 16" "0 < k" using ur len by auto
qed

definition apart :: "u64 \<times> nat \<Rightarrow> u64 \<times> nat \<Rightarrow> bool" where
  "apart x y \<longleftrightarrow> unat (fst x) + (16 * snd x - 8) \<le> unat (fst y) \<or> unat (fst y) + (16 * snd y - 8) \<le> unat (fst x)"

lemma live_apart:
  assumes C: "client_inv s bs fl L" and x: "x \<in> set L" and y: "y \<in> set L" and ne: "x \<noteq> y"
  shows "apart x y"
proof -
  obtain p j q k where xy: "x = (p, j)" "y = (q, k)" by (cases x, cases y)
  have inv: "heap_inv (umm_heap s) bs fl" using C by (auto simp: client_inv_def umm_inv_def)
  define a b where "a = block_of s p" and "b = block_of s q"
  have u: "(a, j) \<in> used bs" "(b, k) \<in> used bs" using live_run(2)[OF C] x y by (auto simp: a_def b_def xy)
  have "a \<noteq> b"
  proof
    assume "a = b"
    then have "p = q" using live_run(1)[OF C] x y by (metis a_def b_def xy)
    moreover have "j = k" using used_run(4)[OF inv u(1)] used_run(4)[OF inv u(2)] \<open>a = b\<close> by simp
    ultimately show False using ne by (simp add: xy)
  qed
  moreover have "a \<in> fst ` set bs" "b \<in> fst ` set bs" using used_run(1)[OF inv u(1)] used_run(1)[OF inv u(2)] by force+
  ultimately have "a + j \<le> b \<or> b + k \<le> a" using used_run(9)[OF inv u(1), of b] used_run(9)[OF inv u(2), of a] by linarith
  then show ?thesis
    using live_bounds(1)[OF C, of p j] live_bounds(1)[OF C, of q k] x y by (auto simp: apart_def xy a_def b_def)
qed

lemma all_free:
  assumes inv: "heap_inv h bs fl" and u: "used bs = {}"
  shows "(1, True) \<in> set bs" "run_size bs 1 = length h - 2"
proof -
  have free: "f" if a: "(a, f) \<in> set bs" "a \<noteq> 0" "a \<noteq> length h - 1" for a f
  proof (rule ccontr)
    assume "\<not> f"
    moreover obtain k where "(a, f, k) \<in> set (runs_of bs)" using runs_of_exists[OF a(1)] a(3) heap_invD(6)[OF inv] by auto
    ultimately have "(a, k) \<in> used bs" using a(2) by (simp add: used_def)
    then show False using u by simp
  qed
  obtain f where "(1, f) \<in> set bs" using heap_invD(7)[OF inv] by auto
  moreover have n: "1 \<noteq> length h - 1" using heap_invD(1)[OF inv] by auto
  ultimately show one: "(1, True) \<in> set bs" using free[of 1 f] by auto
  then have "1 \<in> set fl" using heap_invD(13)[OF inv] by simp
  then obtain xs d g ys where bs: "bs = xs @ (1, True) # (d, g) # ys" "1 < d" "run_size bs 1 = d - 1" using free_run[OF inv] by metis
  have "\<not> g" using runs_between(5)[OF inv[unfolded bs(1)]] by simp
  then have "d = length h - 1" using free[of d g] bs(1,2) by auto
  then show "run_size bs 1 = length h - 2" using bs(3) by simp
qed

primrec free_all :: "u64 list \<Rightarrow> umm_state \<Rightarrow> umm_state option" where
  "free_all [] s = Some s"
| "free_all (p # ps) s = Option.bind (UmmFree p s) (\<lambda>(r, s). free_all ps s)"

lemma free_all_client:
  assumes "client_inv s bs fl L" "distinct ps" "set ps = fst ` set L"
  shows "\<exists>s' bs' fl'. free_all ps s = Some s' \<and> client_inv s' bs' fl' [] \<and> default_umm_heap_size s' = default_umm_heap_size s"
  using assms
proof (induction ps arbitrary: s bs fl L)
  case Nil
  then show ?case by auto
next
  case (Cons p ps)
  have "p \<in> fst ` set L" using Cons.prems(3) by (metis list.set_intros(1))
  then obtain k where k: "(p, k) \<in> set L" by auto
  from free_client[OF Cons.prems(1) k] obtain s' bs' fl' where s': "UmmFree p s = Some (True, s')" "client_inv s' bs' fl' (remove1 (p, k) L)"
    "default_umm_heap_size s' = default_umm_heap_size s" by blast
  have inv: "heap_inv (umm_heap s) bs fl" and d: "distinct L" using Cons.prems(1) by (auto simp: client_inv_def umm_inv_def)
  have "j = k" if "(p, j) \<in> set L" for j
    using used_run(4)[OF inv live_run(2)[OF Cons.prems(1) that]] used_run(4)[OF inv live_run(2)[OF Cons.prems(1) k]] by simp
  then have "set ps = fst ` set (remove1 (p, k) L)" using Cons.prems(2,3) d by force
  from Cons.IH[OF s'(2) _ this] show ?case using Cons.prems(2) s'(1,3) by auto
qed

definition umm_zero :: umm_block where "umm_zero = \<lparr>used_next = 0, used_prev = 0, free_next = 0, free_prev = 0\<rparr>"

definition umm_sample :: umm_state where
  "umm_sample = the (UmmSetHeap 0x1000 160 (replicate 10 umm_zero) \<lparr>default_umm_heap = 0, default_umm_heap_size = 0, umm_heap = [], umm_numblocks = 0\<rparr>)"

definition umm_sample1 :: umm_state where "umm_sample1 = snd (the (UmmMalloc 20 umm_sample))"
definition umm_sample2 :: umm_state where "umm_sample2 = snd (the (UmmMalloc 8 umm_sample1))"

lemma umm_sample_steps: "UmmMalloc 20 umm_sample = Some (0x1018, umm_sample1)" "UmmMalloc 8 umm_sample1 = Some (0x1038, umm_sample2)"
  by code_simp+

lemma umm_sample_start: "UmmSetHeap 0x1000 160 (replicate 10 umm_zero) \<lparr>default_umm_heap = 0, default_umm_heap_size = 0, umm_heap = [], umm_numblocks = 0\<rparr> = Some umm_sample"
  by code_simp

lemma umm_sample_reachable: "umm_reachable (umm_sample, [])" "umm_reachable (umm_sample1, [(0x1018, 2)])" "umm_reachable (umm_sample2, [(0x1038, 1), (0x1018, 2)])"
proof -
  show 0: "umm_reachable (umm_sample, [])" by (rule reach_start[OF _ _ _ _ umm_sample_start]) simp_all
  show 1: "umm_reachable (umm_sample1, [(0x1018, 2)])" using reach_step[OF 0 step_malloc[OF umm_sample_steps(1)]] by (simp add: umm_blocks_def)
  show "umm_reachable (umm_sample2, [(0x1038, 1), (0x1018, 2)])" using reach_step[OF 1 step_malloc[OF umm_sample_steps(2)]] by (simp add: umm_blocks_def)
qed

text \<open>
  C3: however the allocator is used by clients that stay inside their memory and free only what they own, every operation returns, the memory of each allocation
  lies inside the heap behind the head of the free list, and the memories of different allocations do not overlap.
\<close>

theorem UmmHeap_safe:
  assumes "umm_reachable (s, L)"
  shows "(\<forall>Size. \<exists>r. UmmMalloc Size s = Some r) \<and> (\<forall>(p, k) \<in> set L. \<exists>s'. UmmFree p s = Some (True, s')) \<and>
    (\<forall>(p, k) \<in> set L. unat (default_umm_heap s) + 24 \<le> unat p \<and> unat p + (16 * k - 8) \<le> unat (default_umm_heap s) + unat (default_umm_heap_size s)) \<and>
    (\<forall>x \<in> set L. \<forall>y \<in> set L. x \<noteq> y \<longrightarrow> apart x y)"
proof -
  obtain bs fl where C: "client_inv s bs fl L" using reachable_inv[OF assms] by auto
  have "\<exists>r. UmmMalloc Size s = Some r" for Size
    using malloc_fails[OF C, of Size] malloc_client[OF C, of Size "unat (umm_blocks Size)"] by blast
  moreover have "\<exists>s'. UmmFree p s = Some (True, s')" if "(p, k) \<in> set L" for p k using free_client[OF C that] by blast
  moreover have "unat (default_umm_heap s) + 24 \<le> unat p \<and> unat p + (16 * k - 8) \<le> unat (default_umm_heap s) + unat (default_umm_heap_size s)"
    if "(p, k) \<in> set L" for p k using live_bounds[OF C that] by auto
  ultimately show ?thesis using live_apart[OF C] by auto
qed

theorem UmmHeap_safe_witness:
  "(\<forall>Size. \<exists>r. UmmMalloc Size umm_sample2 = Some r) \<and> apart (0x1038, 1) (0x1018, 2)"
  using UmmHeap_safe[OF umm_sample_reachable(3)] by auto

text \<open>
  C30: \<open>UmmMalloc\<close> returns memory of the requested size that overlaps no other allocation, and neither it nor \<open>UmmFree\<close> changes the contents
  of the other allocations.
\<close>

theorem UmmMalloc_UmmFree_correct:
  assumes "umm_reachable (s, L)"
  shows "(UmmMalloc Size s = Some (p, s') \<and> p \<noteq> 0 \<longrightarrow> unat Size \<le> 16 * unat (umm_blocks Size) - 8 \<and>
      (\<forall>(q, j) \<in> set L. apart (p, unat (umm_blocks Size)) (q, j) \<and> user_data (umm_heap s') (block_of s q) j = user_data (umm_heap s) (block_of s q) j)) \<and>
    ((p, k) \<in> set L \<and> UmmFree p s = Some (r, s') \<longrightarrow> r \<and>
      (\<forall>(q, j) \<in> set L. (q, j) \<noteq> (p, k) \<longrightarrow> user_data (umm_heap s') (block_of s q) j = user_data (umm_heap s) (block_of s q) j))"
proof -
  obtain bs fl where C: "client_inv s bs fl L" using reachable_inv[OF assms] by auto
  have M: "unat Size \<le> 16 * unat (umm_blocks Size) - 8 \<and>
      (\<forall>(q, j) \<in> set L. apart (p, unat (umm_blocks Size)) (q, j) \<and> user_data (umm_heap s') (block_of s q) j = user_data (umm_heap s) (block_of s q) j)"
    if m: "UmmMalloc Size s = Some (p, s')" "p \<noteq> 0"
  proof (rule malloc_cases[OF C m(1)])
    assume "p = 0"
    then show ?thesis using m(2) by simp
  next
    fix bs' fl'
    assume ok: "p \<noteq> 0" "Size \<noteq> 0" "client_inv s' bs' fl' ((p, unat (umm_blocks Size)) # L)" "block_of s' = block_of s"
      "\<forall>(q, j) \<in> set L. user_data (umm_heap s') (block_of s q) j = user_data (umm_heap s) (block_of s q) j"
    have "distinct ((p, unat (umm_blocks Size)) # L)" using ok(3) by (simp add: client_inv_def)
    then have "apart (p, unat (umm_blocks Size)) x" if "x \<in> set L" for x using live_apart[OF ok(3), of "(p, unat (umm_blocks Size))" x] that by auto
    then show ?thesis using ok(5) umm_blocks_enough[OF ok(2)] by auto
  qed
  have F: "r \<and> (\<forall>(q, j) \<in> set L. (q, j) \<noteq> (p, k) \<longrightarrow> user_data (umm_heap s') (block_of s q) j = user_data (umm_heap s) (block_of s q) j)"
    if f: "(p, k) \<in> set L" "UmmFree p s = Some (r, s')"
  proof -
    obtain s1 where F: "UmmFree p s = Some (True, s1)"
      "\<forall>(q, j) \<in> set (remove1 (p, k) L). user_data (umm_heap s1) (block_of s q) j = user_data (umm_heap s) (block_of s q) j"
      using free_client[OF C f(1)] by blast
    have r: "r" "s1 = s'" using F(1) f(2) by simp_all
    have "set (remove1 (p, k) L) = set L - {(p, k)}" using C by (intro set_remove1_eq) (simp add: client_inv_def)
    then have "case x of (q, j) \<Rightarrow> user_data (umm_heap s') (block_of s q) j = user_data (umm_heap s) (block_of s q) j" if "x \<in> set L" "x \<noteq> (p, k)" for x
      using bspec[OF F(2), of x] that by (simp add: r(2))
    then show ?thesis using r(1) by fastforce
  qed
  show ?thesis by (rule conjI; rule impI; elim conjE; (rule M | rule F); assumption)
qed

theorem UmmMalloc_UmmFree_correct_witness:
  "apart (0x1038, 1) (0x1018, 2) \<and> user_data (umm_heap umm_sample2) 1 2 = user_data (umm_heap umm_sample1) 1 2"
proof -
  have "block_of umm_sample1 0x1018 = 1" by code_simp
  then show ?thesis
    using UmmMalloc_UmmFree_correct[OF umm_sample_reachable(2), of 8 "0x1038" umm_sample2, THEN conjunct1] umm_sample_steps(2) by (simp add: umm_blocks_def)
qed

text \<open>
  C31: memory is never lost: whatever happened before, once all allocations are freed, in any order, the whole heap is available again, up to the three blocks that
  the allocator keeps for itself.
\<close>

theorem UmmHeap_liveness:
  assumes "umm_reachable (s, L)" "distinct ps" "set ps = fst ` set L" "Size \<noteq> 0" "unat Size + 40 \<le> 16 * (unat (default_umm_heap_size s) div 16)"
  shows "\<exists>s' p s''. free_all ps s = Some s' \<and> UmmMalloc Size s' = Some (p, s'') \<and> p \<noteq> 0"
proof -
  obtain bs fl where C: "client_inv s bs fl L" using reachable_inv[OF assms(1)] by auto
  obtain s' bs' fl' where s': "free_all ps s = Some s'" "client_inv s' bs' fl' []" "default_umm_heap_size s' = default_umm_heap_size s"
    using free_all_client[OF C assms(2,3)] by blast
  have inv: "heap_inv (umm_heap s') bs' fl'" and len: "length (umm_heap s') = unat (default_umm_heap_size s) div 16" and u: "used bs' = {}"
    using s'(2,3) by (auto simp: client_inv_def umm_inv_def)
  have "unat (umm_blocks Size) \<le> length (umm_heap s') - 2"
    using umm_blocks_enough[OF assms(4)] assms(5) heap_invD(1)[OF inv] unfolding len by (cases "8 < Size") (auto simp: umm_blocks_def)
  then have "\<exists>a. (a, True) \<in> set bs' \<and> unat (umm_blocks Size) \<le> run_size bs' a" using all_free[OF inv u] by metis
  from malloc_client[OF s'(2) assms(4) refl this] show ?thesis using s'(1) by blast
qed

theorem UmmHeap_liveness_witness:
  "\<exists>s' p s''. free_all [0x1018, 0x1038] umm_sample2 = Some s' \<and> UmmMalloc 120 s' = Some (p, s'') \<and> p \<noteq> 0"
proof -
  have "default_umm_heap_size umm_sample2 = 160" by code_simp
  then show ?thesis by (intro UmmHeap_liveness[OF umm_sample_reachable(3)]) auto
qed

end
