(* ===== verification/Oc_MemoryMap.thy ===== *)
theory Oc_MemoryMap
  imports Oc_Memory "HOL-Library.Multiset"
begin

unbundle bit_operations_syntax

text \<open>
  Model of \<^verbatim>\<open>Library/OcMemoryLib\<close> (\<^verbatim>\<open>MemoryMap.c\<close>, \<^verbatim>\<open>MemoryAlloc.c\<close>): the memory map as a list of descriptors. The code steps
  through it with a stride \<open>DescriptorSize\<close>; an index counts such steps, and sizes are in entries. Services of the firmware are arguments.
\<close>

section \<open>Status and addresses\<close>

datatype MEMORY_STATUS = MM_SUCCESS | MM_NOT_FOUND | MM_OUT_OF_RESOURCES | MM_UNSUPPORTED | MM_INVALID_PARAMETER | MM_OTHER

definition LAST_DESCRIPTOR_ADDR :: "EFI_MEMORY_DESCRIPTOR \<Rightarrow> u64" where
  "LAST_DESCRIPTOR_ADDR d = PhysicalStart d + (EFI_PAGES_TO_SIZE (NumberOfPages d) - 1)"

definition AREA_WITHIN_DESCRIPTOR :: "EFI_MEMORY_DESCRIPTOR \<Rightarrow> u64 \<Rightarrow> u64 \<Rightarrow> bool" where
  "AREA_WITHIN_DESCRIPTOR d Area AreaSize \<longleftrightarrow> Area \<ge> PhysicalStart d \<and> Area + (AreaSize - 1) \<le> LAST_DESCRIPTOR_ADDR d"

section \<open>The memory map\<close>

subsection \<open>Sorting\<close>

definition swap_if_greater :: "nat \<Rightarrow> nat \<Rightarrow> EFI_MEMORY_DESCRIPTOR list \<Rightarrow> EFI_MEMORY_DESCRIPTOR list" where
  "swap_if_greater i j m = (if PhysicalStart (m ! i) > PhysicalStart (m ! j) then m[i := m ! j, j := m ! i] else m)"

definition OcSortMemoryMap :: "EFI_MEMORY_DESCRIPTOR list \<Rightarrow> EFI_MEMORY_DESCRIPTOR list" where
  "OcSortMemoryMap m = fold (\<lambda>i. fold (swap_if_greater i) [i + 1..<length m]) [0..<length m] m"

subsection \<open>Joining entries\<close>

text \<open>
  The loop that \<open>OcShrinkMemoryMap\<close> and \<open>OcDeduplicateDescriptors\<close> share: \<open>n\<close> entries are left from \<open>Desc\<close> on, \<open>Count\<close> is the number of finished entries with the one at
  \<open>PrevDesc\<close>, and \<open>Found\<close> is whether \<open>Status\<close> was set to success. \<open>Join\<close> tells whether the entry is taken into the previous one, and what that becomes.
\<close>

primrec join_loop ::
  "(EFI_MEMORY_DESCRIPTOR \<Rightarrow> EFI_MEMORY_DESCRIPTOR \<Rightarrow> EFI_MEMORY_DESCRIPTOR option) \<Rightarrow> nat \<Rightarrow> nat \<Rightarrow> nat \<Rightarrow> nat \<Rightarrow> bool \<Rightarrow> bool \<Rightarrow> EFI_MEMORY_DESCRIPTOR list \<Rightarrow>
   nat \<times> bool \<times> bool \<times> EFI_MEMORY_DESCRIPTOR list" where
  "join_loop Join 0 PrevDesc Desc Count HasEntriesToRemove Found m = (Count, HasEntriesToRemove, Found, m)"
| "join_loop Join (Suc n) PrevDesc Desc Count HasEntriesToRemove Found m =
     (case Join (m ! PrevDesc) (m ! Desc) of
        Some d \<Rightarrow> join_loop Join n PrevDesc (Desc + 1) Count True True (m[PrevDesc := d])
      | None \<Rightarrow>
          if HasEntriesToRemove
          then join_loop Join n (PrevDesc + 1) (PrevDesc + 1 + 1) (Count + 1) False Found (overwrite m (PrevDesc + 1) (window m Desc (Suc n)))
          else join_loop Join n (PrevDesc + 1) (Desc + 1) (Count + 1) False Found m)"

definition joined_map ::
  "(EFI_MEMORY_DESCRIPTOR \<Rightarrow> EFI_MEMORY_DESCRIPTOR \<Rightarrow> EFI_MEMORY_DESCRIPTOR option) \<Rightarrow> EFI_MEMORY_DESCRIPTOR list \<Rightarrow> bool \<times> EFI_MEMORY_DESCRIPTOR list" where
  "joined_map Join m =
     (case join_loop Join (length m - 1) 0 1 1 False False m of
        (Count, HasEntriesToRemove, Found, m') \<Rightarrow> (Found, take (if HasEntriesToRemove then Count + 1 else Count) m'))"

definition free_type :: "u32 \<Rightarrow> bool" where
  "free_type t \<longleftrightarrow> t = EfiBootServicesCode \<or> t = EfiBootServicesData \<or> t = EfiConventionalMemory \<or> t = EfiLoaderCode \<or> t = EfiLoaderData"

definition shrink_join :: "EFI_MEMORY_DESCRIPTOR \<Rightarrow> EFI_MEMORY_DESCRIPTOR \<Rightarrow> EFI_MEMORY_DESCRIPTOR option" where
  "shrink_join Prev Desc =
     (let Bytes = EFI_PAGES_TO_SIZE (NumberOfPages Prev);
          Adjacent = Attribute Desc = Attribute Prev \<and> PhysicalStart Prev + Bytes = PhysicalStart Desc;
          CanBeJoinedFree = Adjacent \<and> free_type (MemType Desc) \<and> free_type (MemType Prev);
          CanBeJoinedRt = Adjacent \<and> (MemType Desc = EfiRuntimeServicesCode \<and> MemType Prev = EfiRuntimeServicesCode \<or>
            MemType Desc = EfiRuntimeServicesData \<and> MemType Prev = EfiRuntimeServicesData)
      in if CanBeJoinedFree then Some (Prev\<lparr>MemType := EfiConventionalMemory, NumberOfPages := NumberOfPages Prev + NumberOfPages Desc\<rparr>)
         else if CanBeJoinedRt then Some (Prev\<lparr>NumberOfPages := NumberOfPages Prev + NumberOfPages Desc\<rparr>)
         else None)"

definition OcShrinkMemoryMap :: "EFI_MEMORY_DESCRIPTOR list \<Rightarrow> MEMORY_STATUS \<times> EFI_MEMORY_DESCRIPTOR list" where
  "OcShrinkMemoryMap m = (if length m \<le> 1 then (MM_NOT_FOUND, m) else (MM_SUCCESS, snd (joined_map shrink_join m)))"

definition duplicate_join :: "EFI_MEMORY_DESCRIPTOR \<Rightarrow> EFI_MEMORY_DESCRIPTOR \<Rightarrow> EFI_MEMORY_DESCRIPTOR option" where
  "duplicate_join Prev Desc = (if PhysicalStart Desc = PhysicalStart Prev \<and> NumberOfPages Desc = NumberOfPages Prev then Some Prev else None)"

definition OcDeduplicateDescriptors :: "EFI_MEMORY_DESCRIPTOR list \<Rightarrow> MEMORY_STATUS \<times> EFI_MEMORY_DESCRIPTOR list" where
  "OcDeduplicateDescriptors m =
     (if length m \<le> 1 then (MM_NOT_FOUND, m)
      else (case joined_map duplicate_join m of (Found, m') \<Rightarrow> (if Found then MM_SUCCESS else MM_NOT_FOUND, m')))"

subsection \<open>Updating and counting\<close>

fun OcUpdateDescriptors :: "EFI_MEMORY_DESCRIPTOR list \<Rightarrow> u64 \<Rightarrow> u32 \<Rightarrow> u64 \<Rightarrow> u64 \<Rightarrow> MEMORY_STATUS \<times> EFI_MEMORY_DESCRIPTOR list" where
  "OcUpdateDescriptors [] Address Ty SetAttributes DropAttributes = (MM_NOT_FOUND, [])"
| "OcUpdateDescriptors (d # ds) Address Ty SetAttributes DropAttributes =
     (if AREA_WITHIN_DESCRIPTOR d Address 1
      then (MM_SUCCESS, d\<lparr>MemType := Ty, Attribute := (Attribute d OR SetAttributes) AND NOT DropAttributes\<rparr> # ds)
      else (case OcUpdateDescriptors ds Address Ty SetAttributes DropAttributes of (Status, ds') \<Rightarrow> (Status, d # ds')))"

definition OcCountRuntimePages :: "EFI_MEMORY_DESCRIPTOR list \<Rightarrow> u64 \<times> u64" where
  "OcCountRuntimePages m =
     fold (\<lambda>Desc (PageNum, DescNum).
       if MemType Desc \<noteq> EfiReservedMemoryType \<and> Attribute Desc AND EFI_MEMORY_RUNTIME \<noteq> 0 then (PageNum + NumberOfPages Desc, DescNum + 1)
       else (PageNum, DescNum)) m (0, 0)"

text \<open>\<open>Map\<close> is the result of \<open>OcGetCurrentMemoryMap\<close>; the second component of the result is \<open>LowerMemory\<close>.\<close>

definition OcCountFreePages :: "EFI_MEMORY_DESCRIPTOR list option \<Rightarrow> u64 \<times> u64" where
  "OcCountFreePages Map =
     (case Map of
        None \<Rightarrow> (0, 0)
      | Some m \<Rightarrow>
          fold (\<lambda>EntryWalker (FreePages, LowerMemory).
            if MemType EntryWalker \<noteq> EfiConventionalMemory then (FreePages, LowerMemory)
            else
              (FreePages + NumberOfPages EntryWalker,
               if PhysicalStart EntryWalker \<ge> BASE_4GB then LowerMemory
               else if PhysicalStart EntryWalker + EFI_PAGES_TO_SIZE (NumberOfPages EntryWalker) > BASE_4GB
               then LowerMemory + EFI_SIZE_TO_PAGES (BASE_4GB - PhysicalStart EntryWalker)
               else LowerMemory + NumberOfPages EntryWalker)) m (0, 0))"

subsection \<open>Allocation from the top\<close>

text \<open>The loop of \<open>OcAllocatePagesFromTop\<close> over the entries from the last one on: the address to allocate at, and \<open>Memory\<close> after the loop. A range that
  \<open>CheckRange\<close> refuses lowers \<open>Memory\<close> for the rest of the search.\<close>

fun AllocatePagesFromTop_loop :: "(u64 \<Rightarrow> u64 \<Rightarrow> bool) option \<Rightarrow> u64 \<Rightarrow> EFI_MEMORY_DESCRIPTOR list \<Rightarrow> u64 \<Rightarrow> u64 option \<times> u64" where
  "AllocatePagesFromTop_loop CheckRange Pages [] Memory = (None, Memory)"
| "AllocatePagesFromTop_loop CheckRange Pages (Desc # Ds) Memory =
     (if MemType Desc = EfiConventionalMemory \<and> Pages \<le> NumberOfPages Desc \<and> PhysicalStart Desc + EFI_PAGES_TO_SIZE Pages \<le> Memory
      then
        (let Memory =
               (if PhysicalStart Desc + EFI_PAGES_TO_SIZE (NumberOfPages Desc) \<le> Memory
                then PhysicalStart Desc + EFI_PAGES_TO_SIZE (NumberOfPages Desc - Pages)
                else Memory - EFI_PAGES_TO_SIZE Pages)
         in if (case CheckRange of None \<Rightarrow> False | Some f \<Rightarrow> f Memory (EFI_PAGES_TO_SIZE Pages))
            then AllocatePagesFromTop_loop CheckRange Pages Ds Memory
            else (Some Memory, Memory))
      else AllocatePagesFromTop_loop CheckRange Pages Ds Memory)"

text \<open>\<open>Map\<close> is the result of \<open>OcGetCurrentMemoryMapAlloc\<close>: an error or the memory map. \<open>AllocatePages\<close> is the status of the allocation at an address, and
  the second component of the result is \<open>Memory\<close>.\<close>

definition OcAllocatePagesFromTop ::
  "MEMORY_STATUS + EFI_MEMORY_DESCRIPTOR list \<Rightarrow> (u64 \<Rightarrow> u64 \<Rightarrow> MEMORY_STATUS) \<Rightarrow> (u64 \<Rightarrow> u64 \<Rightarrow> bool) option \<Rightarrow> u64 \<Rightarrow> u64 \<Rightarrow> MEMORY_STATUS \<times> u64" where
  "OcAllocatePagesFromTop Map AllocatePages CheckRange Pages Memory =
     (case Map of
        Inl Status \<Rightarrow> (Status, Memory)
      | Inr m \<Rightarrow>
          (case AllocatePagesFromTop_loop CheckRange Pages (rev m) Memory of
             (None, Memory) \<Rightarrow> (MM_NOT_FOUND, Memory)
           | (Some a, Memory) \<Rightarrow> (AllocatePages Pages a, Memory)))"

subsection \<open>Names of memory types\<close>

text \<open>The table has \<open>OC_MEMORY_TYPE_DESC_COUNT\<close> slots, but fifteen initialisers: the name of the last one is a null pointer.\<close>

definition OC_MEMORY_TYPE_DESC_COUNT :: nat where "OC_MEMORY_TYPE_DESC_COUNT = 16"

definition OcMemoryTypeString :: "(string option \<times> u32) list" where
  "OcMemoryTypeString =
     [(Some ''Reserved'', 0), (Some ''LoaderCode'', 1), (Some ''LoaderData'', 2), (Some ''BootServiceCode'', 3), (Some ''BootServiceData'', 4), (Some ''RuntimeCode'', 5),
      (Some ''RuntimeData'', 6), (Some ''Available'', 7), (Some ''Persistent'', 14), (Some ''UnusableMemory'', 8), (Some ''ACPIReclaimMemory'', 9), (Some ''ACPIMemoryNVS'', 10),
      (Some ''MemoryMappedIO'', 11), (Some ''MemoryMappedIOPortSpace'', 12), (Some ''PalCode'', 13), (None, 0)]"

text \<open>\<open>None\<close> is the comparison with a null pointer; the type is written on success only.\<close>

fun DescToMemoryType_loop :: "string \<Rightarrow> (string option \<times> u32) list \<Rightarrow> (MEMORY_STATUS \<times> u32 option) option" where
  "DescToMemoryType_loop MemoryTypeDesc [] = Some (MM_NOT_FOUND, None)"
| "DescToMemoryType_loop MemoryTypeDesc ((None, Ty) # ts) = None"
| "DescToMemoryType_loop MemoryTypeDesc ((Some Name, Ty) # ts) = (if MemoryTypeDesc = Name then Some (MM_SUCCESS, Some Ty) else DescToMemoryType_loop MemoryTypeDesc ts)"

definition OcDescToMemoryType :: "string option \<Rightarrow> (MEMORY_STATUS \<times> u32 option) option" where
  "OcDescToMemoryType MemoryTypeDesc =
     (case MemoryTypeDesc of
        None \<Rightarrow> Some (MM_INVALID_PARAMETER, None)
      | Some s \<Rightarrow> DescToMemoryType_loop s (take OC_MEMORY_TYPE_DESC_COUNT OcMemoryTypeString))"

section \<open>Sorting is correct\<close>

definition selection_sorted :: "nat \<Rightarrow> EFI_MEMORY_DESCRIPTOR list \<Rightarrow> bool" where
  "selection_sorted i m \<longleftrightarrow> (\<forall>a b. a < i \<longrightarrow> a < b \<longrightarrow> b < length m \<longrightarrow> PhysicalStart (m ! a) \<le> PhysicalStart (m ! b))"

definition select_inv :: "EFI_MEMORY_DESCRIPTOR list \<Rightarrow> nat \<Rightarrow> nat \<Rightarrow> EFI_MEMORY_DESCRIPTOR list \<Rightarrow> bool" where
  "select_inv m i j s \<longleftrightarrow> length s = length m \<and> mset s = mset m \<and> (\<forall>a < i. s ! a = m ! a) \<and>
     (\<forall>k. i < k \<longrightarrow> k < j \<longrightarrow> PhysicalStart (s ! i) \<le> PhysicalStart (s ! k)) \<and>
     (\<forall>b. i \<le> b \<longrightarrow> b < length m \<longrightarrow> (\<exists>c. i \<le> c \<and> c < length m \<and> s ! b = m ! c))"

lemma swap_if_greater_inv:
  assumes "select_inv m i j s" "i < j" "j < length m"
  shows "select_inv m i (Suc j) (swap_if_greater i j s)"
proof (cases "PhysicalStart (s ! i) > PhysicalStart (s ! j)")
  case False
  then show ?thesis using assms by (auto simp: select_inv_def swap_if_greater_def less_Suc_eq)
next
  case True
  let ?t = "s[i := s ! j, j := s ! i]"
  have s: "length s = length m" "mset s = mset m" "\<And>a. a < i \<Longrightarrow> s ! a = m ! a" "\<And>k. i < k \<Longrightarrow> k < j \<Longrightarrow> PhysicalStart (s ! i) \<le> PhysicalStart (s ! k)"
    "\<And>b. i \<le> b \<Longrightarrow> b < length m \<Longrightarrow> \<exists>c. i \<le> c \<and> c < length m \<and> s ! b = m ! c" using assms(1) by (auto simp: select_inv_def)
  have t: "?t ! k = (if k = j then s ! i else if k = i then s ! j else s ! k)" if "k < length m" for k using that assms(2,3) s(1) by (auto simp: nth_list_update)
  have "mset ?t = mset s" using assms(2,3) s(1) by (intro mset_swap) auto
  moreover have "PhysicalStart (?t ! i) \<le> PhysicalStart (?t ! k)" if "i < k" "k < Suc j" for k
    using that assms(2,3) True s(4)[of k] t[of i] t[of k] by (auto simp del: nth_list_update_eq nth_list_update_neq simp: less_Suc_eq intro: order.trans[OF less_imp_le])
  moreover have "\<exists>c. i \<le> c \<and> c < length m \<and> ?t ! b = m ! c" if "i \<le> b" "b < length m" for b
    using that(1) assms(2,3) s(5)[of i] s(5)[of j] s(5)[OF that] by (simp add: t[OF that(2)])
  moreover have "?t ! a = m ! a" if "a < i" for a using that assms(2,3) s(3) t[of a] by simp
  ultimately show ?thesis using True s(1,2) by (simp add: select_inv_def swap_if_greater_def)
qed

lemma select_pass:
  assumes "selection_sorted i m" "i < length m"
  defines "s \<equiv> fold (swap_if_greater i) [i + 1..<length m] m"
  shows "selection_sorted (Suc i) s \<and> length s = length m \<and> mset s = mset m"
proof -
  have "select_inv m i (length m) s" unfolding s_def
  proof (rule fold_upt_inv)
    show "i + 1 \<le> length m" using assms(2) by simp
    show "select_inv m i (i + 1) m" by (auto simp: select_inv_def)
    show "select_inv m i (Suc j) (swap_if_greater i j t)" if "i + 1 \<le> j" "j < length m" "select_inv m i j t" for j t
      using swap_if_greater_inv[OF that(3) _ that(2)] that(1) by simp
  qed
  then have s: "length s = length m" "mset s = mset m" "\<And>a. a < i \<Longrightarrow> s ! a = m ! a" "\<And>k. i < k \<Longrightarrow> k < length m \<Longrightarrow> PhysicalStart (s ! i) \<le> PhysicalStart (s ! k)"
    "\<And>b. i \<le> b \<Longrightarrow> b < length m \<Longrightarrow> \<exists>c. i \<le> c \<and> c < length m \<and> s ! b = m ! c" by (auto simp: select_inv_def)
  have "PhysicalStart (s ! a) \<le> PhysicalStart (s ! b)" if ab: "a < Suc i" "a < b" "b < length m" for a b
  proof (cases "a = i")
    case True
    then show ?thesis using s(4) that by simp
  next
    case False
    then have a: "a < i" using that(1) by simp
    show ?thesis
    proof (cases "b < i")
      case True
      then show ?thesis using assms(1) that a s(3) by (simp add: selection_sorted_def)
    next
      case False
      then obtain c where "i \<le> c" "c < length m" "s ! b = m ! c" using s(5)[of b] ab by auto
      then show ?thesis using assms(1) a s(3) by (simp add: selection_sorted_def)
    qed
  qed
  then show ?thesis using s(1,2) by (simp add: selection_sorted_def)
qed

lemma OcSortMemoryMap_spec: "sorted (map PhysicalStart (OcSortMemoryMap m)) \<and> mset (OcSortMemoryMap m) = mset m"
proof -
  let ?f = "\<lambda>i. fold (swap_if_greater i) [i + 1..<length m]"
  have "selection_sorted (length m) (OcSortMemoryMap m) \<and> length (OcSortMemoryMap m) = length m \<and> mset (OcSortMemoryMap m) = mset m"
    unfolding OcSortMemoryMap_def
  proof (rule fold_upt_inv[where P = "\<lambda>i s. selection_sorted i s \<and> length s = length m \<and> mset s = mset m"])
    fix i s
    assume "i < length m" "selection_sorted i s \<and> length s = length m \<and> mset s = mset m"
    then show "selection_sorted (Suc i) (?f i s) \<and> length (?f i s) = length m \<and> mset (?f i s) = mset m" using select_pass[of i s] by simp
  qed (auto simp: selection_sorted_def)
  then have "selection_sorted (length m) (OcSortMemoryMap m)" "length (OcSortMemoryMap m) = length m" "mset (OcSortMemoryMap m) = mset m" by simp_all
  then show ?thesis by (simp add: selection_sorted_def sorted_iff_nth_mono_less)
qed

lemma length_OcSortMemoryMap [simp]: "length (OcSortMemoryMap m) = length m"
  using OcSortMemoryMap_spec[of m] by (metis size_mset)

section \<open>Joining: what the loop computes\<close>

type_synonym joiner = "EFI_MEMORY_DESCRIPTOR \<Rightarrow> EFI_MEMORY_DESCRIPTOR \<Rightarrow> EFI_MEMORY_DESCRIPTOR option"

text \<open>The list of joined entries, and the entry behind it that the code keeps when the last entries were joined: the first one that was joined to the last group.\<close>

fun joined :: "joiner \<Rightarrow> EFI_MEMORY_DESCRIPTOR \<Rightarrow> EFI_MEMORY_DESCRIPTOR list \<Rightarrow> EFI_MEMORY_DESCRIPTOR list" where
  "joined Join p [] = [p]"
| "joined Join p (d # ds) = (case Join p d of Some q \<Rightarrow> joined Join q ds | None \<Rightarrow> p # joined Join d ds)"

fun leftover :: "joiner \<Rightarrow> EFI_MEMORY_DESCRIPTOR \<Rightarrow> EFI_MEMORY_DESCRIPTOR list \<Rightarrow> EFI_MEMORY_DESCRIPTOR option \<Rightarrow> EFI_MEMORY_DESCRIPTOR list" where
  "leftover Join p [] x = (case x of None \<Rightarrow> [] | Some d \<Rightarrow> [d])"
| "leftover Join p (d # ds) x =
     (case Join p d of Some q \<Rightarrow> leftover Join q ds (case x of None \<Rightarrow> Some d | Some e \<Rightarrow> Some e) | None \<Rightarrow> leftover Join d ds None)"

definition join_result :: "nat \<times> bool \<times> bool \<times> EFI_MEMORY_DESCRIPTOR list \<Rightarrow> EFI_MEMORY_DESCRIPTOR list" where
  "join_result r = (case r of (Count, HasEntriesToRemove, Found, m) \<Rightarrow> take (if HasEntriesToRemove then Count + 1 else Count) m)"

lemma window_Suc: "i < length m \<Longrightarrow> window m i (Suc n) = m ! i # window m (Suc i) n"
  by (simp add: window_def Cons_nth_drop_Suc[symmetric])

lemma length_joined: "length (joined Join p ds) \<le> Suc (length ds)"
proof (induction ds arbitrary: p)
  case (Cons d ds)
  then show ?case by (auto split: option.split intro: le_SucI)
qed simp

lemma join_loop_correct:
  assumes "i < j" "j + length ds \<le> length m" "window m j (length ds) = ds" "m ! i = p" "x = None \<Longrightarrow> j = Suc i" "\<And>e. x = Some e \<Longrightarrow> Suc i < j \<and> m ! Suc i = e"
  shows "join_result (join_loop Join (length ds) i j (Suc i) (x \<noteq> None) Found m) = take i m @ joined Join p ds @ leftover Join p ds x \<and>
    fst (snd (snd (join_loop Join (length ds) i j (Suc i) (x \<noteq> None) Found m))) = (Found \<or> length (joined Join p ds) < Suc (length ds))"
  using assms
proof (induction ds arbitrary: i j p x m Found)
  case Nil
  then show ?case
    by (cases x) (auto simp: join_result_def take_Suc_conv_app_nth)
next
  case (Cons d ds)
  have j: "j < length m" "m ! j = d" "window m (Suc j) (length ds) = ds" using Cons.prems(2,3) by (auto simp: window_Suc)
  show ?case
  proof (cases "Join p d")
    case (Some q)
    let ?m = "m[i := q]" and ?x = "case x of None \<Rightarrow> Some d | Some e \<Rightarrow> Some e"
    have n: "?x \<noteq> None" by (cases x) auto
    have "join_result (join_loop Join (length ds) i (Suc j) (Suc i) (?x \<noteq> None) True ?m) = take i ?m @ joined Join q ds @ leftover Join q ds ?x \<and>
      fst (snd (snd (join_loop Join (length ds) i (Suc j) (Suc i) (?x \<noteq> None) True ?m))) = (True \<or> length (joined Join q ds) < Suc (length ds))"
    proof (rule Cons.IH)
      show "Suc i < Suc j \<and> ?m ! Suc i = e" if "?x = Some e" for e using that Cons.prems(1,5,6) j(2) by (cases x) auto
      show "i < Suc j" "Suc j + length ds \<le> length ?m" "window ?m (Suc j) (length ds) = ds" "?m ! i = q" using Cons.prems(1,2) j by (auto simp: window_def drop_update_cancel)
    qed (use n in simp)
    then show ?thesis using Cons.prems(4) Some n j(2) le_imp_less_Suc[OF length_joined, of Join q ds] by simp
  next
    case None
    have step: "join_result (join_loop Join (length ds) (Suc i) (Suc (Suc i)) (Suc (Suc i)) False Found m') = take (Suc i) m' @ joined Join d ds @ leftover Join d ds None \<and>
      fst (snd (snd (join_loop Join (length ds) (Suc i) (Suc (Suc i)) (Suc (Suc i)) False Found m'))) = (Found \<or> length (joined Join d ds) < Suc (length ds))"
      if "Suc (Suc i) + length ds \<le> length m'" "window m' (Suc (Suc i)) (length ds) = ds" "m' ! Suc i = d" for m'
      using Cons.IH[of "Suc i" "Suc (Suc i)" m' d None Found] that by simp
    show ?thesis
    proof (cases x)
      case x: None
      then have "j = Suc i" using Cons.prems(5) by simp
      then show ?thesis using step[of m] Cons.prems(1,2,4) j None x by (simp add: take_Suc_conv_app_nth)
    next
      case (Some e)
      let ?m = "overwrite m (Suc i) (window m j (Suc (length ds)))"
      have e: "Suc i < j" using Cons.prems(6) Some by simp
      have w: "window m j (Suc (length ds)) = d # ds" using Cons.prems(3) by simp
      have l: "Suc i + length (d # ds) \<le> length m" using e Cons.prems(2) by simp
      have o: "overwrite m (Suc i) (d # ds) = take i m @ p # d # ds @ drop (Suc (Suc i) + length ds) m"
        using l Cons.prems(4) by (simp add: overwrite_def take_Suc_conv_app_nth)
      have "?m ! Suc i = d" "Suc (Suc i) + length ds \<le> length ?m" using l by (simp_all add: w nth_overwrite)
      moreover have "window ?m (Suc (Suc i)) (length ds) = ds" "take (Suc i) ?m = take i m @ [p]"
        using l unfolding w o by (simp_all add: window_def Suc_diff_le)
      ultimately show ?thesis using step[of ?m] None Some Cons.prems(4) j(2) by simp
    qed
  qed
qed

lemma joined_map_correct:
  "joined_map Join (p # ds) = (length (joined Join p ds) < Suc (length ds), joined Join p ds @ leftover Join p ds None)"
proof -
  let ?r = "join_loop Join (length ds) 0 1 1 False False (p # ds)"
  have "join_result (join_loop Join (length ds) 0 1 (Suc 0) ((None :: EFI_MEMORY_DESCRIPTOR option) \<noteq> None) False (p # ds)) = take 0 (p # ds) @ joined Join p ds @ leftover Join p ds None \<and>
    fst (snd (snd (join_loop Join (length ds) 0 1 (Suc 0) ((None :: EFI_MEMORY_DESCRIPTOR option) \<noteq> None) False (p # ds)))) = (False \<or> length (joined Join p ds) < Suc (length ds))"
    by (rule join_loop_correct) (simp_all add: window_def)
  then have "join_result ?r = joined Join p ds @ leftover Join p ds None" "fst (snd (snd ?r)) = (length (joined Join p ds) < Suc (length ds))" by simp_all
  moreover have "joined_map Join (p # ds) = (fst (snd (snd ?r)), join_result ?r)" by (simp add: joined_map_def join_result_def split: prod.split)
  ultimately show ?thesis by simp
qed

lemma leftover_cases:
  "leftover Join p ds x = [] \<or> (\<exists>d \<in> set ds \<union> set_option x. leftover Join p ds x = [d])"
proof (induction ds arbitrary: p x)
  case Nil
  then show ?case by (cases x) auto
next
  case (Cons d ds)
  show ?case
  proof (cases "Join p d")
    case None
    then show ?thesis using Cons.IH[of d None] by auto
  next
    case (Some q)
    then show ?thesis using Cons.IH[of q "case x of None \<Rightarrow> Some d | Some e \<Rightarrow> Some e"] by (cases x) auto
  qed
qed

section \<open>Pages of a map\<close>

text \<open>The pages that a list of entries describes, in order: address, attributes and type. Types that the kernel may reuse count as free.\<close>

definition page_type :: "u32 \<Rightarrow> u32" where
  "page_type t = (if free_type t then EfiConventionalMemory else t)"

definition pages :: "EFI_MEMORY_DESCRIPTOR \<Rightarrow> (u64 \<times> u64 \<times> u32) list" where
  "pages d = map (\<lambda>i. (PhysicalStart d + 4096 * of_nat i, Attribute d, page_type (MemType d))) [0..<unat (NumberOfPages d)]"

definition map_pages :: "EFI_MEMORY_DESCRIPTOR list \<Rightarrow> (u64 \<times> u64 \<times> u32) list" where
  "map_pages m = concat (map pages m)"

definition page_count :: "EFI_MEMORY_DESCRIPTOR list \<Rightarrow> nat" where
  "page_count m = sum_list (map (\<lambda>d. unat (NumberOfPages d)) m)"

lemma map_pages_simps [simp]: "map_pages [] = []" "map_pages (d # ds) = pages d @ map_pages ds" "map_pages (xs @ ys) = map_pages xs @ map_pages ys"
  by (simp_all add: map_pages_def)

lemma page_count_simps [simp]: "page_count [] = 0" "page_count (d # ds) = unat (NumberOfPages d) + page_count ds"
  by (simp_all add: page_count_def)

lemma EFI_PAGES_TO_SIZE_mult: "EFI_PAGES_TO_SIZE n = 4096 * n"
  by (simp add: EFI_PAGES_TO_SIZE_def push_bit_eq_mult mult.commute)

lemma shrink_join_cases:
  assumes "shrink_join p d = Some q"
  obtains "Attribute d = Attribute p" "PhysicalStart p + 4096 * NumberOfPages p = PhysicalStart d" "page_type (MemType d) = page_type (MemType p)"
    "PhysicalStart q = PhysicalStart p" "Attribute q = Attribute p" "page_type (MemType q) = page_type (MemType p)" "NumberOfPages q = NumberOfPages p + NumberOfPages d"
    "free_type (MemType q) = free_type (MemType p)" "\<not> free_type (MemType p) \<Longrightarrow> MemType q = MemType p"
  using assms by (auto simp: shrink_join_def Let_def page_type_def EFI_PAGES_TO_SIZE_mult free_type_def split: if_splits)

lemma pages_append:
  assumes "PhysicalStart q = PhysicalStart p" "PhysicalStart d = PhysicalStart p + 4096 * NumberOfPages p" "Attribute p = Attribute q" "Attribute d = Attribute q"
    "page_type (MemType p) = page_type (MemType q)" "page_type (MemType d) = page_type (MemType q)"
    and n: "unat (NumberOfPages q) = unat (NumberOfPages p) + unat (NumberOfPages d)"
  shows "pages q = pages p @ pages d"
proof -
  let ?n = "unat (NumberOfPages p)"
  have "[0..<?n + unat (NumberOfPages d)] = [0..<?n] @ map (\<lambda>i. ?n + i) [0..<unat (NumberOfPages d)]"
    using upt_add_eq_append[of 0 ?n "unat (NumberOfPages d)"] map_add_upt[of ?n "unat (NumberOfPages d)"] by (simp add: add.commute)
  then show ?thesis unfolding pages_def n using assms(1-6) by (simp add: comp_def algebra_simps)
qed

lemma pages_join:
  assumes "shrink_join p d = Some q" "unat (NumberOfPages p) + unat (NumberOfPages d) < 2 ^ 64"
  shows "pages q = pages p @ pages d" "unat (NumberOfPages q) = unat (NumberOfPages p) + unat (NumberOfPages d)"
proof -
  show n: "unat (NumberOfPages q) = unat (NumberOfPages p) + unat (NumberOfPages d)"
    using assms(1) by (rule shrink_join_cases) (use assms(2) in \<open>simp add: unat_plus_no_wrap\<close>)
  show "pages q = pages p @ pages d" using assms(1) by (rule shrink_join_cases) (rule pages_append[OF _ _ _ _ _ _ n], simp_all)
qed

lemma joined_pages:
  "page_count (p # ds) < 2 ^ 64 \<Longrightarrow> map_pages (joined shrink_join p ds) = map_pages (p # ds)"
proof (induction ds arbitrary: p)
  case (Cons d ds)
  show ?case
  proof (cases "shrink_join p d")
    case None
    then show ?thesis using Cons by simp
  next
    case (Some q)
    have "unat (NumberOfPages p) + unat (NumberOfPages d) < 2 ^ 64" using Cons.prems by simp
    from pages_join[OF Some this] show ?thesis using Cons.IH[of q] Cons.prems Some by simp
  qed
qed simp

lemma free_type_not_runtime: "free_type t \<Longrightarrow> t \<noteq> EfiRuntimeServicesCode \<and> t \<noteq> EfiRuntimeServicesData"
  by (auto simp: free_type_def EfiRuntimeServicesCode_def EfiRuntimeServicesData_def EfiBootServicesCode_def EfiBootServicesData_def
      EfiConventionalMemory_def EfiLoaderCode_def EfiLoaderData_def)

lemma shrink_join_None_iff:
  "shrink_join p d = None \<longleftrightarrow> \<not> (Attribute d = Attribute p \<and> PhysicalStart p + 4096 * NumberOfPages p = PhysicalStart d \<and>
     (free_type (MemType d) \<and> free_type (MemType p) \<or> MemType d = MemType p \<and> (MemType d = EfiRuntimeServicesCode \<or> MemType d = EfiRuntimeServicesData)))"
  by (simp add: shrink_join_def Let_def EFI_PAGES_TO_SIZE_mult) metis

lemma shrink_join_head: "shrink_join p d = None \<Longrightarrow> shrink_join d e = Some q \<Longrightarrow> shrink_join p q = None"
  by (erule shrink_join_cases, cases "free_type (MemType d)") (auto simp: shrink_join_None_iff dest: free_type_not_runtime)

lemma joined_head: "\<exists>q qs. joined shrink_join d ds = q # qs \<and> (\<forall>p. shrink_join p d = None \<longrightarrow> shrink_join p q = None)"
proof (induction ds arbitrary: d)
  case (Cons e ds)
  show ?case
  proof (cases "shrink_join d e")
    case (Some q)
    then show ?thesis using Cons.IH[of q] shrink_join_head[of _ d e q] by fastforce
  qed simp
qed simp

lemma joined_complete: "successively (\<lambda>p d. shrink_join p d = None) (joined shrink_join p ds)"
proof (induction ds arbitrary: p)
  case (Cons d ds)
  show ?case
  proof (cases "shrink_join p d")
    case None
    obtain q qs where "joined shrink_join d ds = q # qs" "shrink_join p q = None" using joined_head[of d ds] None by blast
    then show ?thesis using Cons.IH[of d] None by simp
  qed (simp add: Cons.IH)
qed simp

lemma length_joined_leftover:
  "length (joined Join p ds) + length (leftover Join p ds x) \<le> Suc (length ds) + (case x of None \<Rightarrow> 0 | Some e \<Rightarrow> 1)"
proof (induction ds arbitrary: p x)
  case Nil
  then show ?case by (cases x) auto
next
  case (Cons d ds)
  show ?case
  proof (cases "Join p d")
    case None
    then show ?thesis using Cons.IH[of d None] by simp
  next
    case (Some q)
    then show ?thesis using Cons.IH[of q "case x of None \<Rightarrow> Some d | Some e \<Rightarrow> Some e"] by (cases x) auto
  qed
qed

lemma OcShrinkMemoryMap_spec:
  assumes "page_count m < 2 ^ 64"
  shows "\<exists>m' rest. snd (OcShrinkMemoryMap m) = m' @ rest \<and> map_pages m' = map_pages m \<and> successively (\<lambda>p d. shrink_join p d = None) m' \<and>
    length rest \<le> 1 \<and> set rest \<subseteq> set (tl m) \<and> length (m' @ rest) \<le> length m"
proof (cases "length m > 1")
  case False
  then have "successively (\<lambda>p d. shrink_join p d = None) m" by (cases m) (auto simp: Suc_le_eq)
  then show ?thesis using False by (intro exI[of _ m] exI[of _ "[]"]) (simp add: OcShrinkMemoryMap_def)
next
  case True
  then obtain p ds where m: "m = p # ds" by (cases m) auto
  have "length (joined shrink_join p ds @ leftover shrink_join p ds None) \<le> length (p # ds)"
    using length_joined_leftover[of shrink_join p ds None] by simp
  then show ?thesis
    using assms True leftover_cases[of shrink_join p ds None] joined_pages[of p ds] joined_complete[of p ds]
    by (intro exI[of _ "joined shrink_join p ds"] exI[of _ "leftover shrink_join p ds None"]) (auto simp: m OcShrinkMemoryMap_def joined_map_correct)
qed

lemma OcShrinkMemoryMap_status: "length m > 1 \<Longrightarrow> fst (OcShrinkMemoryMap m) = MM_SUCCESS"
  by (simp add: OcShrinkMemoryMap_def)

section \<open>Allocation from the top\<close>

definition desc_end :: "EFI_MEMORY_DESCRIPTOR \<Rightarrow> nat" where
  "desc_end d = unat (PhysicalStart d) + 4096 * unat (NumberOfPages d)"

text \<open>A sorted map of ranges that do not overlap and end below the top of the address space.\<close>

definition good_map :: "EFI_MEMORY_DESCRIPTOR list \<Rightarrow> bool" where
  "good_map m \<longleftrightarrow> sorted_wrt (\<lambda>d e. desc_end d \<le> unat (PhysicalStart e)) m \<and> list_all (\<lambda>d. desc_end d < 2 ^ 64) m"

text \<open>Free memory of \<open>Pages\<close> pages at \<open>b\<close>, below \<open>Memory\<close>.\<close>

definition fits :: "EFI_MEMORY_DESCRIPTOR \<Rightarrow> nat \<Rightarrow> nat \<Rightarrow> nat \<Rightarrow> bool" where
  "fits d Pages Memory b \<longleftrightarrow> MemType d = EfiConventionalMemory \<and> unat (PhysicalStart d) \<le> b \<and> b + 4096 * Pages \<le> desc_end d \<and> b + 4096 * Pages \<le> Memory"

lemma unat_pages_to_size:
  "4096 * unat n < 2 ^ 64 \<Longrightarrow> unat (EFI_PAGES_TO_SIZE n) = 4096 * unat n"
  by (simp add: EFI_PAGES_TO_SIZE_def unat_push_bit mult.commute)

definition top_range :: "u64 \<Rightarrow> EFI_MEMORY_DESCRIPTOR \<Rightarrow> u64 \<Rightarrow> u64 option" where
  "top_range Pages d Memory =
     (if MemType d = EfiConventionalMemory \<and> Pages \<le> NumberOfPages d \<and> PhysicalStart d + EFI_PAGES_TO_SIZE Pages \<le> Memory
      then Some (if PhysicalStart d + EFI_PAGES_TO_SIZE (NumberOfPages d) \<le> Memory then PhysicalStart d + EFI_PAGES_TO_SIZE (NumberOfPages d - Pages)
                 else Memory - EFI_PAGES_TO_SIZE Pages)
      else None)"

lemma top_loop_step:
  "AllocatePagesFromTop_loop CheckRange Pages (d # ds) Memory =
     (case top_range Pages d Memory of
        None \<Rightarrow> AllocatePagesFromTop_loop CheckRange Pages ds Memory
      | Some a \<Rightarrow> if (case CheckRange of None \<Rightarrow> False | Some f \<Rightarrow> f a (EFI_PAGES_TO_SIZE Pages)) then AllocatePagesFromTop_loop CheckRange Pages ds a else (Some a, a))"
  by (simp add: top_range_def Let_def)

lemma top_range_spec:
  assumes "desc_end d < 2 ^ 64"
  shows "case top_range Pages d Memory of
      None \<Rightarrow> \<not> (\<exists>b. fits d (unat Pages) (unat Memory) b)
    | Some a \<Rightarrow> fits d (unat Pages) (unat Memory) (unat a) \<and> (\<forall>b. fits d (unat Pages) (unat Memory) b \<longrightarrow> b \<le> unat a)"
proof (cases "MemType d = EfiConventionalMemory \<and> Pages \<le> NumberOfPages d")
  case False
  then have "top_range Pages d Memory = None" by (auto simp: top_range_def)
  moreover have "\<not> (MemType d = EfiConventionalMemory \<and> unat Pages \<le> unat (NumberOfPages d))" using False by (simp add: word_le_nat_alt)
  ultimately show ?thesis by (auto simp: fits_def desc_end_def)
next
  case True
  let ?s = "unat (PhysicalStart d)" and ?n = "unat (NumberOfPages d)" and ?p = "unat Pages"
  have le: "?p \<le> ?n" using True by (simp add: word_le_nat_alt)
  have e: "?s + 4096 * ?n < 2 ^ 64" using assms by (simp add: desc_end_def)
  have u: "unat (EFI_PAGES_TO_SIZE Pages) = 4096 * ?p" "unat (EFI_PAGES_TO_SIZE (NumberOfPages d)) = 4096 * ?n"
    using le e by (auto intro!: unat_pages_to_size)
  have un: "unat (NumberOfPages d - Pages) = ?n - ?p" using True by (simp add: unat_minus_no_wrap)
  have u': "unat (EFI_PAGES_TO_SIZE (NumberOfPages d - Pages)) = 4096 * (?n - ?p)" using un e unat_pages_to_size[of "NumberOfPages d - Pages"] by simp
  have a: "unat (PhysicalStart d + EFI_PAGES_TO_SIZE Pages) = ?s + 4096 * ?p" "unat (PhysicalStart d + EFI_PAGES_TO_SIZE (NumberOfPages d)) = ?s + 4096 * ?n"
    "unat (PhysicalStart d + EFI_PAGES_TO_SIZE (NumberOfPages d - Pages)) = ?s + 4096 * (?n - ?p)"
    using le e by (simp_all add: unat_plus_no_wrap u u')
  have m: "unat (Memory - EFI_PAGES_TO_SIZE Pages) = unat Memory - 4096 * ?p" if "?s + 4096 * ?p \<le> unat Memory"
    using that by (subst unat_minus_no_wrap) (simp_all add: word_le_nat_alt u)
  show ?thesis using True le m by (auto simp: top_range_def fits_def desc_end_def word_le_nat_alt a)
qed

lemma top_loop_safe:
  assumes "list_all (\<lambda>d. desc_end d < 2 ^ 64) ds" "AllocatePagesFromTop_loop CheckRange Pages ds Memory = (Some a, Memory')"
  shows "Memory' = a \<and> (\<exists>d \<in> set ds. fits d (unat Pages) (unat Memory) (unat a)) \<and> (\<forall>f. CheckRange = Some f \<longrightarrow> \<not> f a (EFI_PAGES_TO_SIZE Pages))"
  using assms
proof (induction ds arbitrary: Memory)
  case (Cons d ds)
  show ?case
  proof (cases "top_range Pages d Memory")
    case None
    then show ?thesis using Cons.IH[of Memory] Cons.prems by (auto simp: top_loop_step simp del: AllocatePagesFromTop_loop.simps(2))
  next
    case (Some b)
    have b: "fits d (unat Pages) (unat Memory) (unat b)" using top_range_spec[of d Pages Memory] Cons.prems(1) Some by simp
    show ?thesis
    proof (cases "case CheckRange of None \<Rightarrow> False | Some f \<Rightarrow> f b (EFI_PAGES_TO_SIZE Pages)")
      case True
      have "Memory' = a \<and> (\<exists>d \<in> set ds. fits d (unat Pages) (unat b) (unat a)) \<and> (\<forall>f. CheckRange = Some f \<longrightarrow> \<not> f a (EFI_PAGES_TO_SIZE Pages))"
      proof (rule Cons.IH)
        show "AllocatePagesFromTop_loop CheckRange Pages ds b = (Some a, Memory')"
          using Cons.prems(2) True Some by (simp add: top_loop_step del: AllocatePagesFromTop_loop.simps(2))
      qed (use Cons.prems(1) in simp)
      moreover have "fits e (unat Pages) (unat Memory) (unat a)" if "fits e (unat Pages) (unat b) (unat a)" for e using that b by (auto simp: fits_def)
      ultimately show ?thesis by auto
    next
      case False
      then show ?thesis using Cons.prems(2) Some b by (cases CheckRange) (auto simp: top_loop_step simp del: AllocatePagesFromTop_loop.simps(2))
    qed
  qed
qed simp

text \<open>The highest place in one entry, and whether a place is refused.\<close>

definition best :: "nat \<Rightarrow> nat \<Rightarrow> EFI_MEMORY_DESCRIPTOR \<Rightarrow> nat \<Rightarrow> bool" where
  "best Pages Memory d a \<longleftrightarrow> fits d Pages Memory a \<and> (\<forall>b. fits d Pages Memory b \<longrightarrow> b \<le> a)"

definition refused :: "(u64 \<Rightarrow> u64 \<Rightarrow> bool) option \<Rightarrow> u64 \<Rightarrow> u64 \<Rightarrow> bool" where
  "refused CheckRange Pages a \<longleftrightarrow> (case CheckRange of None \<Rightarrow> False | Some f \<Rightarrow> f a (EFI_PAGES_TO_SIZE Pages))"

lemma best_unique: "best P M d a \<Longrightarrow> best P M d b \<Longrightarrow> a = b"
  by (auto simp: best_def intro: antisym)

lemma top_range_best:
  assumes "desc_end d < 2 ^ 64"
  shows "top_range Pages d Memory = Some a \<longleftrightarrow> best (unat Pages) (unat Memory) d (unat a)"
proof (cases "top_range Pages d Memory")
  case None
  then show ?thesis using top_range_spec[OF assms, of Pages Memory] by (auto simp: best_def)
next
  case (Some c)
  then have "best (unat Pages) (unat Memory) d (unat c)" using top_range_spec[OF assms, of Pages Memory] by (simp add: best_def)
  then show ?thesis using Some best_unique[of "unat Pages" "unat Memory" d "unat a" "unat c"] by (auto simp: word_unat_eq_iff)
qed

text \<open>A refused range of a higher entry does not change what a lower entry offers.\<close>

lemma top_range_below:
  assumes e: "desc_end d < 2 ^ 64" "desc_end c < 2 ^ 64" and below: "desc_end c \<le> unat (PhysicalStart d)" and a: "top_range Pages d Memory = Some a"
  shows "top_range Pages c a = top_range Pages c Memory"
proof -
  have "fits d (unat Pages) (unat Memory) (unat a)" using a top_range_best[OF e(1)] by (simp add: best_def)
  then have "desc_end c \<le> unat a" "unat a \<le> unat Memory" using below by (auto simp: fits_def)
  then have "fits c (unat Pages) (unat a) b \<longleftrightarrow> fits c (unat Pages) (unat Memory) b" for b by (auto simp: fits_def)
  then have "best (unat Pages) (unat a) c = best (unat Pages) (unat Memory) c" by (simp add: best_def fun_eq_iff)
  then have "top_range Pages c a = Some b \<longleftrightarrow> top_range Pages c Memory = Some b" for b using top_range_best[OF e(2)] by simp
  then show ?thesis by (metis not_None_eq)
qed

lemma top_loop_best:
  assumes "sorted_wrt (\<lambda>d e. desc_end e \<le> unat (PhysicalStart d)) ds" "list_all (\<lambda>d. desc_end d < 2 ^ 64) ds"
    and "\<forall>d \<in> set ds. top_range Pages d M = top_range Pages d Memory"
  shows "case fst (AllocatePagesFromTop_loop CheckRange Pages ds M) of
      None \<Rightarrow> \<forall>d \<in> set ds. \<forall>b. top_range Pages d Memory = Some b \<longrightarrow> refused CheckRange Pages b
    | Some a \<Rightarrow> \<not> refused CheckRange Pages a \<and> (\<exists>d \<in> set ds. top_range Pages d Memory = Some a) \<and>
        (\<forall>d \<in> set ds. \<forall>b. top_range Pages d Memory = Some b \<and> \<not> refused CheckRange Pages b \<longrightarrow> b \<le> a)"
  using assms
proof (induction ds arbitrary: M)
  case (Cons d ds)
  have e: "desc_end d < 2 ^ 64" "\<And>c. c \<in> set ds \<Longrightarrow> desc_end c < 2 ^ 64 \<and> desc_end c \<le> unat (PhysicalStart d)"
    using Cons.prems(1,2) by (auto simp: list.pred_set)
  note step = top_loop_step[of CheckRange Pages d ds M, folded refused_def]
  have same: "top_range Pages d M = top_range Pages d Memory" using Cons.prems(3) by simp
  consider (none) "top_range Pages d Memory = None" | (no) a where "top_range Pages d Memory = Some a" "refused CheckRange Pages a"
    | (yes) a where "top_range Pages d Memory = Some a" "\<not> refused CheckRange Pages a" by (cases "top_range Pages d Memory") auto
  then show ?case
  proof cases
    case none
    then show ?thesis using Cons.IH[of M] Cons.prems by (simp only: step same) (auto split: option.splits)
  next
    case (no a)
    have "\<forall>c \<in> set ds. top_range Pages c a = top_range Pages c Memory" using top_range_below[OF e(1) _ _ no(1)] e(2) by blast
    then show ?thesis using Cons.IH[of a] Cons.prems no by (simp only: step same) (auto split: option.splits)
  next
    case (yes a)
    have "b \<le> a" if "c \<in> set ds" "top_range Pages c Memory = Some b" for b c
    proof -
      have "fits d (unat Pages) (unat Memory) (unat a)" "fits c (unat Pages) (unat Memory) (unat b)"
        using yes(1) that e top_range_best by (auto simp: best_def)
      then show ?thesis using e(2)[OF that(1)] by (simp add: fits_def word_le_nat_alt)
    qed
    then show ?thesis using yes by (simp only: step same) auto
  qed
qed simp

lemma top_loop_None: "AllocatePagesFromTop_loop None Pages ds Memory = (None, M) \<Longrightarrow> M = Memory"
  by (induction ds arbitrary: Memory) (auto simp: Let_def split: if_splits)

lemma fits_best:
  fixes Pages Memory :: u64
  assumes "desc_end d < 2 ^ 64" "fits d (unat Pages) (unat Memory) b"
  shows "\<exists>c. best (unat Pages) (unat Memory) d (unat (c :: u64)) \<and> b \<le> unat c"
  using top_range_spec[OF assms(1), of Pages Memory] assms(2) by (cases "top_range Pages d Memory") (auto simp: best_def)

lemma OcAllocatePagesFromTop_safe:
  assumes "list_all (\<lambda>d. desc_end d < 2 ^ 64) m"
  shows "(\<exists>a. (\<exists>d \<in> set m. fits d (unat Pages) (unat Memory) (unat a)) \<and> \<not> refused CheckRange Pages a \<and>
      OcAllocatePagesFromTop (Inr m) AllocatePages CheckRange Pages Memory = (AllocatePages Pages a, a)) \<or>
    (\<exists>M. OcAllocatePagesFromTop (Inr m) AllocatePages CheckRange Pages Memory = (MM_NOT_FOUND, M) \<and> (CheckRange = None \<longrightarrow> M = Memory))"
proof -
  have l: "list_all (\<lambda>d. desc_end d < 2 ^ 64) (rev m)" using assms by (simp add: list.pred_set)
  obtain r M where r: "AllocatePagesFromTop_loop CheckRange Pages (rev m) Memory = (r, M)" by fastforce
  show ?thesis
  proof (cases r)
    case None
    then show ?thesis using r top_loop_None[of Pages "rev m" Memory M] by (auto simp: OcAllocatePagesFromTop_def)
  next
    case (Some a)
    then show ?thesis using r top_loop_safe[OF l, of CheckRange Pages Memory a M]
      by (auto simp: OcAllocatePagesFromTop_def refused_def split: option.splits)
  qed
qed

lemma OcAllocatePagesFromTop_best:
  assumes "good_map m"
  shows "(\<exists>a. (\<exists>d \<in> set m. best (unat Pages) (unat Memory) d (unat a)) \<and> \<not> refused CheckRange Pages a \<and>
        (\<forall>d \<in> set m. \<forall>b. best (unat Pages) (unat Memory) d (unat b) \<and> \<not> refused CheckRange Pages b \<longrightarrow> b \<le> a) \<and>
        (CheckRange = None \<longrightarrow> (\<forall>d \<in> set m. \<forall>b. fits d (unat Pages) (unat Memory) b \<longrightarrow> b \<le> unat a)) \<and>
        OcAllocatePagesFromTop (Inr m) AllocatePages CheckRange Pages Memory = (AllocatePages Pages a, a)) \<or>
      (\<forall>d \<in> set m. \<forall>b. best (unat Pages) (unat Memory) d (unat b) \<longrightarrow> refused CheckRange Pages b) \<and>
        fst (OcAllocatePagesFromTop (Inr m) AllocatePages CheckRange Pages Memory) = MM_NOT_FOUND"
proof -
  have g: "sorted_wrt (\<lambda>d e. desc_end e \<le> unat (PhysicalStart d)) (rev m)" "list_all (\<lambda>d. desc_end d < 2 ^ 64) (rev m)"
    using assms by (simp_all add: good_map_def sorted_wrt_rev list.pred_set)
  have tb: "top_range Pages d Memory = Some a \<longleftrightarrow> best (unat Pages) (unat Memory) d (unat a)" if "d \<in> set m" for d a
    using assms that by (intro top_range_best) (simp add: good_map_def list.pred_set)
  obtain r M where r: "AllocatePagesFromTop_loop CheckRange Pages (rev m) Memory = (r, M)" by fastforce
  have b: "case r of
      None \<Rightarrow> \<forall>d \<in> set m. \<forall>b. best (unat Pages) (unat Memory) d (unat b) \<longrightarrow> refused CheckRange Pages b
    | Some a \<Rightarrow> \<not> refused CheckRange Pages a \<and> (\<exists>d \<in> set m. best (unat Pages) (unat Memory) d (unat a)) \<and>
        (\<forall>d \<in> set m. \<forall>b. best (unat Pages) (unat Memory) d (unat b) \<and> \<not> refused CheckRange Pages b \<longrightarrow> b \<le> a)"
    using top_loop_best[OF g, of Pages Memory Memory CheckRange] r tb by (auto split: option.splits)
  show ?thesis
  proof (cases r)
    case None
    then show ?thesis using r b by (simp add: OcAllocatePagesFromTop_def)
  next
    case (Some a)
    then have M: "M = a" using r top_loop_safe[OF g(2)] by blast
    have "c \<le> unat a" if c: "CheckRange = None" "d \<in> set m" "fits d (unat Pages) (unat Memory) c" for d c
    proof -
      have "desc_end d < 2 ^ 64" using assms c(2) by (simp add: good_map_def list.pred_set)
      then obtain x :: u64 where "best (unat Pages) (unat Memory) d (unat x)" "c \<le> unat x" using fits_best c(3) by blast
      moreover have "\<not> refused CheckRange Pages x" using c(1) by (simp add: refused_def)
      ultimately show ?thesis using b Some c(2) by (auto simp: word_le_nat_alt intro: order_trans)
    qed
    then show ?thesis using r b Some M by (auto simp: OcAllocatePagesFromTop_def)
  qed
qed

section \<open>Properties of the memory map\<close>

text \<open>A small map: firmware code, two free ranges next to each other, a hole and a free range.\<close>

definition entry :: "u32 \<Rightarrow> u64 \<Rightarrow> u64 \<Rightarrow> EFI_MEMORY_DESCRIPTOR" where
  "entry t s n = \<lparr>MemType = t, PhysicalStart = s, VirtualStart = 0, NumberOfPages = n, Attribute = 0xF\<rparr>"

definition sample_memory_map :: "EFI_MEMORY_DESCRIPTOR list" where
  "sample_memory_map = [entry EfiRuntimeServicesCode 0x1000 4, entry EfiBootServicesData 0x5000 2, entry EfiConventionalMemory 0x7000 3, entry EfiConventionalMemory 0x10000 16]"

text \<open>
  \<open>OcSortMemoryMap\<close> orders the entries by their address, and the map has the same entries as before.
\<close>

theorem OcSortMemoryMap_correct:
  "sorted (map PhysicalStart (OcSortMemoryMap m)) \<and> mset (OcSortMemoryMap m) = mset m"
  by (rule OcSortMemoryMap_spec)

text \<open>
  C32: \<open>OcShrinkMemoryMap\<close> joins entries without changing what the map says: the joined entries describe the same pages, in the same order, with the same attributes and with the
  same type up to the types that are free for the kernel; no two neighbours can be joined further, at most one of the old entries is left behind them, and when two neighbours of the
  map could be joined it reports success. All entries together have less than \<open>2^64\<close> pages.
\<close>

theorem OcShrinkMemoryMap_correct:
  assumes "page_count m < 2 ^ 64"
  shows "\<exists>m' rest. snd (OcShrinkMemoryMap m) = m' @ rest \<and> map_pages m' = map_pages m \<and> successively (\<lambda>p d. shrink_join p d = None) m' \<and>
    length rest \<le> 1 \<and> set rest \<subseteq> set (tl m) \<and> length (m' @ rest) \<le> length m \<and>
    (\<not> successively (\<lambda>p d. shrink_join p d = None) m \<longrightarrow> fst (OcShrinkMemoryMap m) = MM_SUCCESS)"
proof -
  have "\<not> successively (\<lambda>p d. shrink_join p d = None) m \<longrightarrow> fst (OcShrinkMemoryMap m) = MM_SUCCESS"
    using OcShrinkMemoryMap_status[of m] by (cases m rule: remdups_adj.cases) auto
  then show ?thesis using OcShrinkMemoryMap_spec[OF assms] by blast
qed

theorem OcShrinkMemoryMap_correct_witness:
  "\<exists>m' rest. snd (OcShrinkMemoryMap sample_memory_map) = m' @ rest \<and> map_pages m' = map_pages sample_memory_map \<and> successively (\<lambda>p d. shrink_join p d = None) m' \<and>
    length rest \<le> 1 \<and> set rest \<subseteq> set (tl sample_memory_map) \<and> length (m' @ rest) \<le> length sample_memory_map"
proof -
  have "page_count sample_memory_map < 2 ^ 64" by (simp add: sample_memory_map_def entry_def)
  from OcShrinkMemoryMap_correct[OF this] show ?thesis by blast
qed

text \<open>
  Where nothing can be joined the function succeeds, too, although its header documents \<^verbatim>\<open>EFI_NOT_FOUND\<close>.
\<close>

lemma OcShrinkMemoryMap_nothing_joined:
  assumes "successively (\<lambda>p d. shrink_join p d = None) [d, e]"
  shows "OcShrinkMemoryMap [d, e] = (MM_SUCCESS, [d, e])"
  using assms by (simp add: OcShrinkMemoryMap_def joined_map_correct)

text \<open>
  When the last entries of a list are joined, the entry that was joined stays behind the result: shrinking two adjacent free ranges gives the whole range and the
  second one again, and deduplicating two equal entries gives both.
\<close>

lemma OcShrinkMemoryMap_stale_entry:
  "OcShrinkMemoryMap [entry EfiConventionalMemory s n, entry EfiConventionalMemory (s + 4096 * n) k] =
     (MM_SUCCESS, [entry EfiConventionalMemory s (n + k), entry EfiConventionalMemory (s + 4096 * n) k]) \<and>
   OcDeduplicateDescriptors [d, d] = (MM_SUCCESS, [d, d])"
  by (simp add: OcShrinkMemoryMap_def OcDeduplicateDescriptors_def joined_map_correct duplicate_join_def shrink_join_def Let_def entry_def free_type_def EFI_PAGES_TO_SIZE_mult)

text \<open>
  C33: \<open>OcAllocatePagesFromTop\<close> asks only for an address at which enough free pages are in one entry, below \<open>Memory\<close>, and which the check of the range does not refuse. On a map that is
  sorted and without overlaps (the code does not sort the map it gets) this is the highest one that entries offer at their top and that is not refused, and it reports that there is none
  exactly when all of these are refused; without a check it is the highest free address of all.
\<close>

theorem OcAllocatePagesFromTop_correct:
  assumes "list_all (\<lambda>d. desc_end d < 2 ^ 64) m"
  shows "((\<exists>a. (\<exists>d \<in> set m. fits d (unat Pages) (unat Memory) (unat a)) \<and> \<not> refused CheckRange Pages a \<and>
        OcAllocatePagesFromTop (Inr m) AllocatePages CheckRange Pages Memory = (AllocatePages Pages a, a)) \<or>
      (\<exists>M. OcAllocatePagesFromTop (Inr m) AllocatePages CheckRange Pages Memory = (MM_NOT_FOUND, M) \<and> (CheckRange = None \<longrightarrow> M = Memory))) \<and>
    (good_map m \<longrightarrow>
      (\<exists>a. (\<exists>d \<in> set m. best (unat Pages) (unat Memory) d (unat a)) \<and> \<not> refused CheckRange Pages a \<and>
        (\<forall>d \<in> set m. \<forall>b. best (unat Pages) (unat Memory) d (unat b) \<and> \<not> refused CheckRange Pages b \<longrightarrow> b \<le> a) \<and>
        (CheckRange = None \<longrightarrow> (\<forall>d \<in> set m. \<forall>b. fits d (unat Pages) (unat Memory) b \<longrightarrow> b \<le> unat a)) \<and>
        OcAllocatePagesFromTop (Inr m) AllocatePages CheckRange Pages Memory = (AllocatePages Pages a, a)) \<or>
      (\<forall>d \<in> set m. \<forall>b. best (unat Pages) (unat Memory) d (unat b) \<longrightarrow> refused CheckRange Pages b) \<and>
        fst (OcAllocatePagesFromTop (Inr m) AllocatePages CheckRange Pages Memory) = MM_NOT_FOUND)"
  using OcAllocatePagesFromTop_safe[OF assms] OcAllocatePagesFromTop_best by blast

theorem OcAllocatePagesFromTop_correct_witness:
  "OcAllocatePagesFromTop (Inr sample_memory_map) (\<lambda>_ _. MM_SUCCESS) (Some (\<lambda>a _. a = 0x18000)) 2 0x1A000 = (MM_SUCCESS, 0x8000) \<and>
   \<not> (\<exists>d \<in> set sample_memory_map. \<exists>b :: u64. best 2 0x1A000 d (unat b) \<and> b \<noteq> 0x18000 \<and> 0x8000 < b)"
proof -
  have l: "list_all (\<lambda>d. desc_end d < 2 ^ 64) sample_memory_map" by (simp add: sample_memory_map_def entry_def desc_end_def)
  have g: "good_map sample_memory_map" by (simp add: good_map_def sample_memory_map_def entry_def desc_end_def)
  have e: "OcAllocatePagesFromTop (Inr sample_memory_map) (\<lambda>_ _. MM_SUCCESS) (Some (\<lambda>a _. a = 0x18000)) 2 0x1A000 = (MM_SUCCESS, 0x8000)" by code_simp
  show ?thesis
    using OcAllocatePagesFromTop_correct[OF l, of 2 "0x1A000" "Some (\<lambda>a _. a = 0x18000)" "\<lambda>_ _. MM_SUCCESS", THEN conjunct2] g
    unfolding e by (fastforce simp: refused_def)
qed

text \<open>On a map that is not sorted the search may end at a lower address, although the header guarantees the top most one.\<close>

lemma OcAllocatePagesFromTop_unsorted:
  "OcAllocatePagesFromTop (Inr [entry EfiConventionalMemory 0x100000 16, entry EfiConventionalMemory 0x10000 16]) (\<lambda>_ _. MM_SUCCESS) None 2 0x200000 = (MM_SUCCESS, 0x1E000)"
  by code_simp

end
