(* ===== verification/Oc_MemoryAttributes.thy ===== *)
theory Oc_MemoryAttributes
  imports Oc_MemoryMap
begin

unbundle bit_operations_syntax

text \<open>
  Model of \<^verbatim>\<open>Library/OcMemoryLib/MemoryAttributes.c\<close>: the memory attributes table as a list of descriptors, the splitting of the memory map by it, and its completion from the memory map.
  A map is read as a function from addresses to attributes and types; both operations are specified on that function.
\<close>

section \<open>Memory attributes\<close>

definition runtime_type :: "u32 \<Rightarrow> bool" where
  "runtime_type t \<longleftrightarrow> t = EfiRuntimeServicesCode \<or> t = EfiRuntimeServicesData"

definition OcRealMemoryType :: "EFI_MEMORY_DESCRIPTOR \<Rightarrow> u32" where
  "OcRealMemoryType d =
     (if Attribute d AND EFI_MEMORY_RO \<noteq> 0 then EfiRuntimeServicesCode
      else if Attribute d AND EFI_MEMORY_XP \<noteq> 0 then EfiRuntimeServicesData
      else MemType d)"

definition OcCountSplitDescriptors :: "EFI_MEMORY_DESCRIPTOR list option \<Rightarrow> nat" where
  "OcCountSplitDescriptors Mat = (case Mat of None \<Rightarrow> 0 | Some A \<Rightarrow> length (filter (\<lambda>d. runtime_type (MemType d)) A))"

subsection \<open>Splitting\<close>

text \<open>\<open>CopyMem\<close> of the entries from \<open>i\<close> on by one place.\<close>

definition insert_copy :: "nat \<Rightarrow> EFI_MEMORY_DESCRIPTOR list \<Rightarrow> EFI_MEMORY_DESCRIPTOR list" where
  "insert_copy i m = take (i + 1) m @ drop i m"

text \<open>The result is the new index and the map, whose length is \<open>CurrentEntryCount\<close>; with a failure the map may already have been split in front of the attribute.\<close>

definition OcSplitMemoryEntryByAttribute ::
  "nat \<Rightarrow> EFI_MEMORY_DESCRIPTOR \<Rightarrow> nat \<Rightarrow> EFI_MEMORY_DESCRIPTOR list \<Rightarrow> MEMORY_STATUS \<times> nat \<times> EFI_MEMORY_DESCRIPTOR list" where
  "OcSplitMemoryEntryByAttribute TotalEntryCount MemoryAttribute Index m =
     (if PhysicalStart MemoryAttribute > PhysicalStart (m ! Index) \<and> length m = TotalEntryCount then (MM_OUT_OF_RESOURCES, Index, m)
      else
        (let (Index, m) =
               (if PhysicalStart MemoryAttribute > PhysicalStart (m ! Index)
                then
                  (let DiffPages = EFI_SIZE_TO_PAGES (PhysicalStart MemoryAttribute - PhysicalStart (m ! Index));
                       m = insert_copy Index m;
                       m = m[Index := (m ! Index)\<lparr>NumberOfPages := DiffPages\<rparr>];
                       m = m[Index + 1 := (m ! (Index + 1))\<lparr>PhysicalStart := PhysicalStart MemoryAttribute,
                              NumberOfPages := NumberOfPages (m ! (Index + 1)) - DiffPages\<rparr>]
                   in (Index + 1, m))
                else (Index, m))
         in if NumberOfPages (m ! Index) = NumberOfPages MemoryAttribute
            then (MM_SUCCESS, Index, m[Index := (m ! Index)\<lparr>MemType := OcRealMemoryType MemoryAttribute\<rparr>])
            else if length m = TotalEntryCount then (MM_OUT_OF_RESOURCES, Index, m)
            else
              (let m = insert_copy Index m;
                   m = m[Index := (m ! Index)\<lparr>MemType := OcRealMemoryType MemoryAttribute, NumberOfPages := NumberOfPages MemoryAttribute\<rparr>];
                   m = m[Index + 1 := (m ! (Index + 1))\<lparr>PhysicalStart := PhysicalStart (m ! (Index + 1)) + EFI_PAGES_TO_SIZE (NumberOfPages MemoryAttribute),
                          NumberOfPages := NumberOfPages (m ! (Index + 1)) - NumberOfPages MemoryAttribute\<rparr>]
               in (MM_SUCCESS, Index + 1, m))))"

text \<open>The search for the next attribute entry of another type inside the map entry \<open>d\<close>: \<open>Index2\<close> is the number of the first entry of the list.\<close>

fun find_attribute :: "EFI_MEMORY_DESCRIPTOR \<Rightarrow> EFI_MEMORY_DESCRIPTOR list \<Rightarrow> nat \<Rightarrow> bool \<Rightarrow> (nat \<times> EFI_MEMORY_DESCRIPTOR) option" where
  "find_attribute d [] Index2 InDescAttrs = None"
| "find_attribute d (a # As) Index2 InDescAttrs =
     (if runtime_type (MemType a)
      then
        if AREA_WITHIN_DESCRIPTOR d (PhysicalStart a) (EFI_PAGES_TO_SIZE (NumberOfPages a))
        then if OcRealMemoryType a \<noteq> MemType d then Some (Index2, a) else find_attribute d As (Index2 + 1) True
        else if InDescAttrs then None else find_attribute d As (Index2 + 1) InDescAttrs
      else find_attribute d As (Index2 + 1) InDescAttrs)"

text \<open>One pass of the two nested loops: the inner one continues with the entry that is left, the outer one moves to the next entry.\<close>

definition split_body ::
  "nat \<Rightarrow> EFI_MEMORY_DESCRIPTOR list \<Rightarrow> nat \<times> nat \<times> EFI_MEMORY_DESCRIPTOR list \<Rightarrow>
   (nat \<times> nat \<times> EFI_MEMORY_DESCRIPTOR list, MEMORY_STATUS \<times> EFI_MEMORY_DESCRIPTOR list) ctl" where
  "split_body TotalEntryCount A = (\<lambda>(Index, LastAttributeIndex, m).
     if \<not> Index < length m then Break (MM_SUCCESS, m)
     else if \<not> runtime_type (MemType (m ! Index)) then Continue (Index + 1, LastAttributeIndex, m)
     else
       (case find_attribute (m ! Index) (drop LastAttributeIndex A) LastAttributeIndex False of
          None \<Rightarrow> Continue (Index + 1, LastAttributeIndex, m)
        | Some (Index2, a) \<Rightarrow>
            (case OcSplitMemoryEntryByAttribute TotalEntryCount a Index m of
               (Status, Index', m') \<Rightarrow> if Status \<noteq> MM_SUCCESS then Break (Status, m') else Continue (Index', Index2 + 1, m'))))"

text \<open>\<open>Mat\<close> is the result of \<open>OcGetMemoryAttributes\<close>.\<close>

definition OcSplitMemoryMapByAttributes ::
  "EFI_MEMORY_DESCRIPTOR list option \<Rightarrow> nat \<Rightarrow> EFI_MEMORY_DESCRIPTOR list \<Rightarrow> (MEMORY_STATUS \<times> EFI_MEMORY_DESCRIPTOR list) option" where
  "OcSplitMemoryMapByAttributes Mat TotalEntryCount m =
     (case Mat of None \<Rightarrow> Some (MM_UNSUPPORTED, m) | Some A \<Rightarrow> iterate (split_body TotalEntryCount A) (0, 0, m))"

subsection \<open>Expanding the table\<close>

text \<open>\<open>Entry\<close> is \<open>None\<close> for the null pointer, otherwise the position of \<open>MemoryAttributesEntry\<close>; the result has the position of the new entry.\<close>

definition OcExpandAttributeWrite ::
  "nat \<Rightarrow> EFI_MEMORY_DESCRIPTOR list \<Rightarrow> nat option \<Rightarrow> EFI_MEMORY_DESCRIPTOR \<Rightarrow> u64 \<Rightarrow> MEMORY_STATUS \<times> EFI_MEMORY_DESCRIPTOR list" where
  "OcExpandAttributeWrite MaxDescriptors Mat Entry MapEntry CurrentMapAddress =
     (if length Mat \<ge> MaxDescriptors then (MM_OUT_OF_RESOURCES, Mat)
      else
        (let Next = LAST_DESCRIPTOR_ADDR MapEntry + 1;
             NextMatAddress = (case Entry of None \<Rightarrow> Next | Some i \<Rightarrow> if PhysicalStart (Mat ! i) < Next then PhysicalStart (Mat ! i) else Next);
             i = (case Entry of None \<Rightarrow> length Mat | Some i \<Rightarrow> i);
             Ty = OcRealMemoryType MapEntry;
             new = \<lparr>MemType = Ty, PhysicalStart = CurrentMapAddress, VirtualStart = 0, NumberOfPages = EFI_SIZE_TO_PAGES (NextMatAddress - CurrentMapAddress),
                    Attribute = EFI_MEMORY_RUNTIME OR (if Ty = EfiRuntimeServicesCode then EFI_MEMORY_RO else EFI_MEMORY_XP)\<rparr>
         in (MM_SUCCESS, take i Mat @ [new] @ drop i Mat)))"

text \<open>The state of the walk: the status, \<open>MatIndex\<close>, the position of \<open>MemoryAttributesEntry\<close>, and the table. The inner loop also has \<open>CurrentMapAddress\<close>; it
  leaves with \<open>False\<close> when the table is full.\<close>

definition expand_body ::
  "nat \<Rightarrow> EFI_MEMORY_DESCRIPTOR \<Rightarrow> MEMORY_STATUS \<times> nat \<times> nat \<times> EFI_MEMORY_DESCRIPTOR list \<times> u64 \<Rightarrow>
   (MEMORY_STATUS \<times> nat \<times> nat \<times> EFI_MEMORY_DESCRIPTOR list \<times> u64, bool \<times> MEMORY_STATUS \<times> nat \<times> nat \<times> EFI_MEMORY_DESCRIPTOR list \<times> u64) ctl" where
  "expand_body MaxDescriptors d = (\<lambda>(Status, MatIndex, Entry, Mat, CurrentMapAddress).
     if \<not> (MatIndex < length Mat \<and> CurrentMapAddress < LAST_DESCRIPTOR_ADDR d + 1) then Break (True, Status, MatIndex, Entry, Mat, CurrentMapAddress)
     else
       (let a = Mat ! Entry
        in if \<not> runtime_type (MemType a) then Continue (Status, MatIndex + 1, Entry + 1, Mat, CurrentMapAddress)
           else if LAST_DESCRIPTOR_ADDR a < PhysicalStart d then Continue (Status, MatIndex + 1, Entry + 1, Mat, CurrentMapAddress)
           else if CurrentMapAddress = PhysicalStart a then Continue (Status, MatIndex + 1, Entry + 1, Mat, LAST_DESCRIPTOR_ADDR a + 1)
           else
             (case OcExpandAttributeWrite MaxDescriptors Mat (Some Entry) d CurrentMapAddress of
                (Status, Mat) \<Rightarrow>
                  if Status \<noteq> MM_SUCCESS then Break (False, Status, MatIndex, Entry, Mat, CurrentMapAddress)
                  else Continue (Status, MatIndex + 1, Entry + 1, Mat, LAST_DESCRIPTOR_ADDR (Mat ! Entry) + 1))))"

primrec ExpandAttributes_loop ::
  "nat \<Rightarrow> EFI_MEMORY_DESCRIPTOR list \<Rightarrow> MEMORY_STATUS \<times> nat \<times> nat \<times> EFI_MEMORY_DESCRIPTOR list \<Rightarrow> (MEMORY_STATUS \<times> EFI_MEMORY_DESCRIPTOR list) option" where
  "ExpandAttributes_loop MaxDescriptors [] s = (case s of (Status, MatIndex, Entry, Mat) \<Rightarrow> Some (Status, Mat))"
| "ExpandAttributes_loop MaxDescriptors (d # ds) s =
     (if \<not> runtime_type (MemType d) then ExpandAttributes_loop MaxDescriptors ds s
      else
        (case s of (Status, MatIndex, Entry, Mat) \<Rightarrow>
           do {
             (ok, Status, MatIndex, Entry, Mat, CurrentMapAddress) \<leftarrow> iterate (expand_body MaxDescriptors d) (Status, MatIndex, Entry, Mat, PhysicalStart d);
             if \<not> ok then Some (Status, Mat)
             else if CurrentMapAddress = LAST_DESCRIPTOR_ADDR d + 1 then ExpandAttributes_loop MaxDescriptors ds (Status, MatIndex, Entry, Mat)
             else
               (case OcExpandAttributeWrite MaxDescriptors Mat None d CurrentMapAddress of
                  (Status, Mat) \<Rightarrow>
                    if Status \<noteq> MM_SUCCESS then Some (Status, Mat) else ExpandAttributes_loop MaxDescriptors ds (Status, MatIndex + 1, Entry, Mat))
           }))"

definition OcExpandAttributesByMap :: "EFI_MEMORY_DESCRIPTOR list \<Rightarrow> nat \<Rightarrow> EFI_MEMORY_DESCRIPTOR list \<Rightarrow> (MEMORY_STATUS \<times> EFI_MEMORY_DESCRIPTOR list) option" where
  "OcExpandAttributesByMap Mat MaxDescriptors m = ExpandAttributes_loop MaxDescriptors m (MM_NOT_FOUND, 0, 0, Mat)"

text \<open>\<open>Mat\<close> is the result of \<open>OcGetMemoryAttributes\<close>, and \<open>Map\<close> that of \<open>GetMemoryMap\<close>.\<close>

definition OcRebuildAttributes ::
  "EFI_MEMORY_DESCRIPTOR list option \<Rightarrow> u64 \<Rightarrow> MEMORY_STATUS + EFI_MEMORY_DESCRIPTOR list \<Rightarrow> (MEMORY_STATUS \<times> EFI_MEMORY_DESCRIPTOR list) option" where
  "OcRebuildAttributes Table Address Map =
     (case Table of
        None \<Rightarrow> Some (MM_UNSUPPORTED, [])
      | Some Mat \<Rightarrow>
          if length Mat = 0 then Some (MM_UNSUPPORTED, Mat)
          else
            (let Mat = OcSortMemoryMap Mat;
                 MaxDescriptors = length Mat;
                 (Status, Mat) = OcDeduplicateDescriptors Mat
             in do {
                  (Status, Mat) \<leftarrow>
                    (if Status = MM_SUCCESS
                     then
                       (case Map of
                          Inl Status \<Rightarrow> Some (Status, Mat)
                        | Inr m \<Rightarrow> do {
                            (_, Mat) \<leftarrow> OcExpandAttributesByMap Mat MaxDescriptors (OcSortMemoryMap m);
                            Some (MM_SUCCESS, Mat)
                          })
                     else Some (Status, Mat));
                  Some (if Address \<noteq> 0 then OcUpdateDescriptors Mat Address EfiRuntimeServicesCode EFI_MEMORY_RO EFI_MEMORY_XP else (Status, Mat))
                }))"

section \<open>Splitting the map by attributes\<close>

subsection \<open>What a map says about an address\<close>

definition covers :: "EFI_MEMORY_DESCRIPTOR \<Rightarrow> nat \<Rightarrow> bool" where
  "covers d x \<longleftrightarrow> unat (PhysicalStart d) \<le> x \<and> x < desc_end d"

definition at :: "EFI_MEMORY_DESCRIPTOR list \<Rightarrow> nat \<Rightarrow> (u64 \<times> u32) option" where
  "at m x = map_option (\<lambda>d. (Attribute d, MemType d)) (find (\<lambda>d. covers d x) m)"

text \<open>The type that the attributes table gives to runtime memory at an address.\<close>

definition attribute_type :: "EFI_MEMORY_DESCRIPTOR list \<Rightarrow> nat \<Rightarrow> u32 \<Rightarrow> u32" where
  "attribute_type A x t =
     (if runtime_type t then (case find (\<lambda>a. runtime_type (MemType a) \<and> covers a x) A of None \<Rightarrow> t | Some a \<Rightarrow> OcRealMemoryType a) else t)"

definition retyped :: "EFI_MEMORY_DESCRIPTOR list \<Rightarrow> EFI_MEMORY_DESCRIPTOR list \<Rightarrow> nat \<Rightarrow> (u64 \<times> u32) option" where
  "retyped A m x = map_option (\<lambda>(attr, t). (attr, attribute_type A x t)) (at m x)"

definition aligned_map :: "EFI_MEMORY_DESCRIPTOR list \<Rightarrow> bool" where
  "aligned_map m \<longleftrightarrow> good_map m \<and> list_all (\<lambda>d. NumberOfPages d \<noteq> 0 \<and> 4096 dvd unat (PhysicalStart d)) m"

definition within :: "EFI_MEMORY_DESCRIPTOR \<Rightarrow> EFI_MEMORY_DESCRIPTOR \<Rightarrow> bool" where
  "within a d \<longleftrightarrow> unat (PhysicalStart d) \<le> unat (PhysicalStart a) \<and> desc_end a \<le> desc_end d"

definition apart_from :: "EFI_MEMORY_DESCRIPTOR \<Rightarrow> EFI_MEMORY_DESCRIPTOR \<Rightarrow> bool" where
  "apart_from a d \<longleftrightarrow> desc_end a \<le> unat (PhysicalStart d) \<or> desc_end d \<le> unat (PhysicalStart a)"

text \<open>What the UEFI specification demands of the attributes table: sorted, and each runtime entry inside one runtime entry of the map.\<close>

definition mat_ok :: "EFI_MEMORY_DESCRIPTOR list \<Rightarrow> EFI_MEMORY_DESCRIPTOR list \<Rightarrow> bool" where
  "mat_ok A m \<longleftrightarrow> aligned_map A \<and>
     list_all (\<lambda>a. runtime_type (MemType a) \<longrightarrow> list_all (\<lambda>d. runtime_type (MemType d) \<longrightarrow> within a d \<or> apart_from a d) m) A"

lemma at_None_iff: "at m x = None \<longleftrightarrow> (\<forall>d \<in> set m. \<not> covers d x)"
  by (auto simp: at_def find_None_iff)

lemma good_map_order:
  assumes "good_map m" "i < j" "j < length m"
  shows "desc_end (m ! i) \<le> unat (PhysicalStart (m ! j))"
  using assms sorted_wrt_nth_less[where P = "\<lambda>d e. desc_end d \<le> unat (PhysicalStart e)"] by (simp add: good_map_def)

lemma good_map_unique:
  assumes "good_map m" "d \<in> set m" "e \<in> set m" "covers d x" "covers e x"
  shows "d = e"
proof -
  obtain i j where "i < length m" "j < length m" "d = m ! i" "e = m ! j" using assms(2,3) by (metis in_set_conv_nth)
  moreover have "\<not> i < j" "\<not> j < i" using assms(4,5) calculation good_map_order[OF assms(1), of i j] good_map_order[OF assms(1), of j i] by (auto simp: covers_def)
  ultimately show ?thesis by auto
qed

lemma at_unique:
  assumes "good_map m" "d \<in> set m" "covers d x"
  shows "at m x = Some (Attribute d, MemType d)"
proof -
  obtain e where "find (\<lambda>d. covers d x) m = Some e" using assms(2,3) by (cases "find (\<lambda>d. covers d x) m") (auto simp: find_None_iff)
  moreover have "e \<in> set m \<and> covers e x" using calculation by (auto simp: find_Some_iff)
  ultimately show ?thesis using good_map_unique[OF assms(1,2)] assms(3) by (auto simp: at_def)
qed

lemma attribute_type_unique:
  assumes "good_map A" "a \<in> set A" "covers a x" "runtime_type (MemType a)" "runtime_type t"
  shows "attribute_type A x t = OcRealMemoryType a"
proof -
  obtain b where "find (\<lambda>a. runtime_type (MemType a) \<and> covers a x) A = Some b"
    using assms(2,3,4) by (cases "find (\<lambda>a. runtime_type (MemType a) \<and> covers a x) A") (auto simp: find_None_iff)
  moreover have "b \<in> set A \<and> covers b x" using calculation by (auto simp: find_Some_iff)
  ultimately show ?thesis using good_map_unique[OF assms(1,2)] assms(3,5) by (auto simp: attribute_type_def)
qed

lemma attribute_type_same:
  assumes "\<And>a. a \<in> set A \<Longrightarrow> runtime_type (MemType a) \<Longrightarrow> covers a x \<Longrightarrow> OcRealMemoryType a = t"
  shows "attribute_type A x t = t"
  using assms by (auto simp: attribute_type_def split: option.split dest!: find_Some_iff[THEN iffD1])

subsection \<open>Cutting an entry\<close>

definition cut_left :: "u64 \<Rightarrow> EFI_MEMORY_DESCRIPTOR \<Rightarrow> EFI_MEMORY_DESCRIPTOR" where
  "cut_left n d = d\<lparr>NumberOfPages := n\<rparr>"

definition cut_right :: "u64 \<Rightarrow> EFI_MEMORY_DESCRIPTOR \<Rightarrow> EFI_MEMORY_DESCRIPTOR" where
  "cut_right n d = d\<lparr>PhysicalStart := PhysicalStart d + 4096 * n, NumberOfPages := NumberOfPages d - n\<rparr>"

lemma cut_fields [simp]:
  "PhysicalStart (cut_left n d) = PhysicalStart d" "NumberOfPages (cut_left n d) = n" "MemType (cut_left n d) = MemType d" "Attribute (cut_left n d) = Attribute d"
  "NumberOfPages (cut_right n d) = NumberOfPages d - n" "MemType (cut_right n d) = MemType d" "Attribute (cut_right n d) = Attribute d"
  by (simp_all add: cut_left_def cut_right_def)

lemma desc_end_retype [simp]: "desc_end (d\<lparr>MemType := t\<rparr>) = desc_end d"
  by (simp add: desc_end_def)

lemma covers_retype [simp]: "covers (d\<lparr>MemType := t\<rparr>) x = covers d x"
  by (simp add: covers_def)

lemma cut_bounds:
  assumes "desc_end d < 2 ^ 64" "n < NumberOfPages d"
  shows "unat (PhysicalStart (cut_right n d)) = unat (PhysicalStart d) + 4096 * unat n" "desc_end (cut_left n d) = unat (PhysicalStart d) + 4096 * unat n"
    "desc_end (cut_right n d) = desc_end d"
proof -
  have n: "unat n < unat (NumberOfPages d)" using assms(2) by (simp add: word_less_nat_alt)
  have e: "unat (PhysicalStart d) + 4096 * unat (NumberOfPages d) < 2 ^ 64" using assms(1) by (simp add: desc_end_def)
  have "unat (4096 * n) = 4096 * unat n" using n e unat_pages_to_size[of n] by (simp add: EFI_PAGES_TO_SIZE_mult)
  then show s: "unat (PhysicalStart (cut_right n d)) = unat (PhysicalStart d) + 4096 * unat n"
    using n e by (simp add: cut_right_def unat_plus_no_wrap)
  show "desc_end (cut_left n d) = unat (PhysicalStart d) + 4096 * unat n" by (simp add: desc_end_def)
  show "desc_end (cut_right n d) = desc_end d" using assms(2) n unfolding desc_end_def s by (simp add: unat_minus_no_wrap)
qed

lemma cut_covers:
  assumes "desc_end d < 2 ^ 64" "n < NumberOfPages d"
  shows "covers (cut_left n d) x \<or> covers (cut_right n d) x \<longleftrightarrow> covers d x" "covers (cut_left n d) x \<Longrightarrow> covers d x" "covers (cut_right n d) x \<Longrightarrow> covers d x"
proof -
  have "unat n < unat (NumberOfPages d)" using assms(2) by (simp add: word_less_nat_alt)
  then have le: "4096 * unat n \<le> 4096 * unat (NumberOfPages d)" by simp
  note b = cut_bounds[OF assms]
  show "covers (cut_left n d) x \<or> covers (cut_right n d) x \<longleftrightarrow> covers d x" using le unfolding covers_def b cut_fields by (auto simp: desc_end_def)
  then show "covers (cut_left n d) x \<Longrightarrow> covers d x" "covers (cut_right n d) x \<Longrightarrow> covers d x" by auto
qed

lemma cut_aligned:
  assumes "aligned_map (xs @ d # ys)" "0 < n" "n < NumberOfPages d"
  shows "aligned_map (xs @ cut_left n d # cut_right n d # ys)"
proof -
  have e: "desc_end d < 2 ^ 64" using assms(1) by (simp add: aligned_map_def good_map_def)
  have n: "unat n < unat (NumberOfPages d)" using assms(3) by (simp add: word_less_nat_alt)
  then have le: "unat (PhysicalStart d) + 4096 * unat n \<le> desc_end d" by (simp add: desc_end_def)
  show ?thesis using assms le e
    by (auto simp: aligned_map_def good_map_def sorted_wrt_append cut_bounds[OF e assms(3)])
qed

lemma aligned_retype: "aligned_map (xs @ d\<lparr>MemType := t\<rparr> # ys) = aligned_map (xs @ d # ys)"
  by (simp add: aligned_map_def good_map_def sorted_wrt_append)

subsection \<open>Splitting one entry\<close>

lemma insert_copy_append [simp]: "insert_copy (length xs) (xs @ d # ys) = xs @ d # d # ys"
  by (simp add: insert_copy_def)

text \<open>The second half of the function: the attribute starts where the entry does.\<close>

definition split_back :: "nat \<Rightarrow> EFI_MEMORY_DESCRIPTOR \<Rightarrow> EFI_MEMORY_DESCRIPTOR list \<Rightarrow> EFI_MEMORY_DESCRIPTOR \<Rightarrow> EFI_MEMORY_DESCRIPTOR list \<Rightarrow>
    MEMORY_STATUS \<times> nat \<times> EFI_MEMORY_DESCRIPTOR list" where
  "split_back Limit a xs d ys =
     (if NumberOfPages d = NumberOfPages a then (MM_SUCCESS, length xs, xs @ d\<lparr>MemType := OcRealMemoryType a\<rparr> # ys)
      else if Suc (length xs + length ys) = Limit then (MM_OUT_OF_RESOURCES, length xs, xs @ d # ys)
      else (MM_SUCCESS, Suc (length xs), xs @ (cut_left (NumberOfPages a) d)\<lparr>MemType := OcRealMemoryType a\<rparr> # cut_right (NumberOfPages a) d # ys))"

lemma split_eq:
  "OcSplitMemoryEntryByAttribute Limit a (length xs) (xs @ d # ys) =
     (let n = EFI_SIZE_TO_PAGES (PhysicalStart a - PhysicalStart d)
      in if PhysicalStart a > PhysicalStart d
         then if Suc (length xs + length ys) = Limit then (MM_OUT_OF_RESOURCES, length xs, xs @ d # ys)
              else split_back Limit a (xs @ [cut_left n d]) (d\<lparr>PhysicalStart := PhysicalStart a, NumberOfPages := NumberOfPages d - n\<rparr>) ys
         else split_back Limit a xs d ys)"
proof -
  have nth: "(xs @ e # ys) ! length xs = e" "(xs @ e # f # ys) ! Suc (length xs) = f" for e f :: EFI_MEMORY_DESCRIPTOR and ys by (simp_all add: nth_append)
  have upd: "(xs @ e # ys)[length xs := v] = xs @ v # ys" "(xs @ e # f # ys)[Suc (length xs) := v] = xs @ e # v # ys" for e f v :: EFI_MEMORY_DESCRIPTOR and ys
    by (simp_all add: list_update_append)
  have two: "insert_copy (Suc (length xs)) (xs @ e # f # ys) = xs @ e # f # f # ys" "(xs @ e # f # g # ys) ! Suc (Suc (length xs)) = g"
    "(xs @ e # f # g # ys)[Suc (Suc (length xs)) := v] = xs @ e # f # v # ys" for e f g v :: EFI_MEMORY_DESCRIPTOR and ys
    using insert_copy_append[of "xs @ [e]" f ys] by (simp_all add: nth_append list_update_append)
  show ?thesis
    by (auto simp: OcSplitMemoryEntryByAttribute_def split_back_def Let_def nth upd two cut_left_def cut_right_def EFI_PAGES_TO_SIZE_mult)
qed

definition proper :: "EFI_MEMORY_DESCRIPTOR \<Rightarrow> bool" where
  "proper d \<longleftrightarrow> desc_end d < 2 ^ 64 \<and> NumberOfPages d \<noteq> 0 \<and> 4096 dvd unat (PhysicalStart d)"

lemma aligned_proper: "aligned_map m \<Longrightarrow> d \<in> set m \<Longrightarrow> proper d"
  by (simp add: aligned_map_def good_map_def proper_def list.pred_set)

lemma LAST_DESCRIPTOR_ADDR_proper:
  assumes "desc_end d < 2 ^ 64" "NumberOfPages d \<noteq> 0"
  shows "unat (LAST_DESCRIPTOR_ADDR d) = desc_end d - 1"
proof -
  have n: "0 < unat (NumberOfPages d)" using assms(2) by (simp add: unat_gt_0)
  have e: "unat (PhysicalStart d) + 4096 * unat (NumberOfPages d) < 2 ^ 64" using assms(1) by (simp add: desc_end_def)
  have s: "unat (EFI_PAGES_TO_SIZE (NumberOfPages d)) = 4096 * unat (NumberOfPages d)" using e by (intro unat_pages_to_size) simp
  have "unat (EFI_PAGES_TO_SIZE (NumberOfPages d) - 1) = 4096 * unat (NumberOfPages d) - 1"
    using n s by (subst unat_minus_no_wrap) (simp_all add: word_le_nat_alt)
  then show ?thesis using n e by (simp add: LAST_DESCRIPTOR_ADDR_def unat_plus_no_wrap desc_end_def)
qed

lemma desc_end_gt: "NumberOfPages d \<noteq> 0 \<Longrightarrow> unat (PhysicalStart d) < desc_end d"
  by (simp add: desc_end_def unat_gt_0)

lemma AREA_WITHIN_iff:
  assumes "proper d" "proper a"
  shows "AREA_WITHIN_DESCRIPTOR d (PhysicalStart a) (EFI_PAGES_TO_SIZE (NumberOfPages a)) \<longleftrightarrow> within a d"
proof -
  have "PhysicalStart a + (EFI_PAGES_TO_SIZE (NumberOfPages a) - 1) = LAST_DESCRIPTOR_ADDR a" by (simp add: LAST_DESCRIPTOR_ADDR_def)
  then show ?thesis
    using assms desc_end_gt[of a] desc_end_gt[of d] by (auto simp: AREA_WITHIN_DESCRIPTOR_def word_le_nat_alt LAST_DESCRIPTOR_ADDR_proper proper_def within_def)
qed

lemma size_to_pages:
  assumes "4096 dvd unat c" "4096 dvd unat e" "c < e"
  shows "unat c + 4096 * unat (EFI_SIZE_TO_PAGES (e - c)) = unat e"
proof -
  have lt: "unat c < unat e" using assms(3) by (simp add: word_less_nat_alt)
  have "4096 dvd unat e - unat c" using assms(1,2) by (intro dvd_diff_nat)
  then obtain k where k: "unat e - unat c = 4096 * k" by (elim dvdE)
  have u: "unat (e - c) = 4096 * k" using assms(3) k by (simp add: unat_minus_no_wrap less_imp_le)
  have "take_bit 12 (e - c) = (0 :: u64)"
    by (rule word_unat_eq_iff[THEN iffD2]) (simp add: take_bit_eq_mod unat_mod_distrib u)
  then have "(e - c) AND 0xFFF = (0 :: u64)" by (simp add: take_bit_eq_mask mask_eq_exp_minus_1)
  then have "unat (EFI_SIZE_TO_PAGES (e - c)) = k" using u by (simp add: EFI_SIZE_TO_PAGES_def unat_drop_bit)
  then show ?thesis using k lt by linarith
qed

text \<open>The cut in front of an attribute.\<close>

lemma front_cut:
  assumes "proper d" "proper a" "within a d" "PhysicalStart a > PhysicalStart d"
  defines "n \<equiv> EFI_SIZE_TO_PAGES (PhysicalStart a - PhysicalStart d)"
  shows "0 < n" "n < NumberOfPages d" "d\<lparr>PhysicalStart := PhysicalStart a, NumberOfPages := NumberOfPages d - n\<rparr> = cut_right n d"
    "unat (PhysicalStart a) = unat (PhysicalStart d) + 4096 * unat n"
proof -
  show s: "unat (PhysicalStart a) = unat (PhysicalStart d) + 4096 * unat n"
    using size_to_pages[OF _ _ assms(4)] assms(1,2) by (simp add: n_def proper_def)
  then show "0 < n" using assms(4) by (auto simp: word_less_nat_alt)
  have "4096 * unat n < 4096 * unat (NumberOfPages d)" using assms(3) s desc_end_gt[of a] assms(2) by (simp add: within_def desc_end_def proper_def)
  then show lt: "n < NumberOfPages d" by (simp add: word_less_nat_alt)
  have "PhysicalStart a = PhysicalStart d + 4096 * n"
    using cut_bounds(1)[of d n] assms(1) lt s by (simp add: cut_right_def proper_def word_unat_eq_iff)
  then show "d\<lparr>PhysicalStart := PhysicalStart a, NumberOfPages := NumberOfPages d - n\<rparr> = cut_right n d" by (simp add: cut_right_def)
qed

subsection \<open>The search for an attribute\<close>

lemma find_attribute_None:
  assumes "aligned_map As" "proper d" "find_attribute d As k b = None" "b \<Longrightarrow> \<forall>a \<in> set As. unat (PhysicalStart d) \<le> unat (PhysicalStart a)"
  shows "\<forall>a \<in> set As. runtime_type (MemType a) \<longrightarrow> within a d \<longrightarrow> OcRealMemoryType a = MemType d"
  using assms
proof (induction As arbitrary: k b)
  case (Cons a As)
  have a: "proper a" "\<forall>c \<in> set As. desc_end a \<le> unat (PhysicalStart c)" "aligned_map As"
    using Cons.prems(1) aligned_proper[OF Cons.prems(1), of a] by (auto simp: aligned_map_def good_map_def)
  note w = AREA_WITHIN_iff[OF Cons.prems(2) a(1)]
  have gt: "unat (PhysicalStart a) < desc_end a" using a(1) by (auto intro: desc_end_gt simp: proper_def)
  show ?case
  proof (cases "runtime_type (MemType a)")
    case False
    then have "\<forall>c \<in> set As. runtime_type (MemType c) \<longrightarrow> within c d \<longrightarrow> OcRealMemoryType c = MemType d"
      using Cons.IH[OF a(3) Cons.prems(2), of "k + 1" b] Cons.prems(3,4) by simp
    then show ?thesis using False by simp
  next
    case True
    show ?thesis
    proof (cases "within a d")
      case wa: True
      then have "OcRealMemoryType a = MemType d" "find_attribute d As (k + 1) True = None" using Cons.prems(3) True w by (auto split: if_splits)
      moreover have "\<forall>c \<in> set As. unat (PhysicalStart d) \<le> unat (PhysicalStart c)" using a(2) wa gt by (fastforce simp: within_def)
      ultimately show ?thesis using Cons.IH[OF a(3) Cons.prems(2), of "k + 1" True] by simp
    next
      case wa: False
      show ?thesis
      proof (cases b)
        case False
        then have "\<forall>c \<in> set As. runtime_type (MemType c) \<longrightarrow> within c d \<longrightarrow> OcRealMemoryType c = MemType d"
          using Cons.IH[OF a(3) Cons.prems(2), of "k + 1" False] Cons.prems(3) True w wa by simp
        then show ?thesis using wa by simp
      next
        case True
        then have "desc_end d < desc_end a" using Cons.prems(4) wa by (auto simp: within_def)
        moreover have "unat (PhysicalStart c) < desc_end c" if "c \<in> set As" for c using aligned_proper[OF a(3) that] by (auto intro: desc_end_gt simp: proper_def)
        ultimately show ?thesis using a(2) wa by (fastforce simp: within_def)
      qed
    qed
  qed
qed simp

lemma find_attribute_Some:
  assumes "aligned_map As" "proper d" "find_attribute d As k b = Some (j, a)"
  shows "k \<le> j \<and> j - k < length As \<and> As ! (j - k) = a \<and> runtime_type (MemType a) \<and> within a d \<and>
    (\<forall>c \<in> set (take (j - k) As). runtime_type (MemType c) \<longrightarrow> within c d \<longrightarrow> OcRealMemoryType c = MemType d)"
  using assms
proof (induction As arbitrary: k b)
  case (Cons c As)
  have c: "proper c" "aligned_map As"
    using Cons.prems(1) aligned_proper[OF Cons.prems(1), of c] by (auto simp: aligned_map_def good_map_def)
  note w = AREA_WITHIN_iff[OF Cons.prems(2) c(1)]
  show ?case
  proof (cases "runtime_type (MemType c) \<and> within c d \<and> OcRealMemoryType c \<noteq> MemType d")
    case True
    then show ?thesis using Cons.prems(3) w by simp
  next
    case False
    then obtain b' where "find_attribute d As (k + 1) b' = Some (j, a)" using Cons.prems(3) w by (auto split: if_splits)
    from Cons.IH[OF c(2) Cons.prems(2) this] have IH: "k + 1 \<le> j \<and> j - (k + 1) < length As \<and> As ! (j - (k + 1)) = a \<and> runtime_type (MemType a) \<and> within a d \<and>
      (\<forall>c \<in> set (take (j - (k + 1)) As). runtime_type (MemType c) \<longrightarrow> within c d \<longrightarrow> OcRealMemoryType c = MemType d)" .
    then have "j - k = Suc (j - (k + 1))" by linarith
    then show ?thesis using IH False by simp
  qed
qed simp

subsection \<open>The invariant of the two loops\<close>

text \<open>\<open>fresh\<close>: an entry that still says what the map said before; \<open>finished\<close>: an entry with the type of the table. The attributes before \<open>L\<close> end before a fresh entry, and
  those from \<open>L\<close> on are inside it or apart from it.\<close>

definition fresh :: "EFI_MEMORY_DESCRIPTOR list \<Rightarrow> EFI_MEMORY_DESCRIPTOR list \<Rightarrow> nat \<Rightarrow> EFI_MEMORY_DESCRIPTOR \<Rightarrow> bool" where
  "fresh A m0 L d \<longleftrightarrow> (\<forall>x. covers d x \<longrightarrow> at m0 x = Some (Attribute d, MemType d)) \<and>
     (\<forall>j < length A. runtime_type (MemType (A ! j)) \<longrightarrow>
        (j < L \<longrightarrow> desc_end (A ! j) \<le> unat (PhysicalStart d)) \<and> (runtime_type (MemType d) \<longrightarrow> within (A ! j) d \<or> apart_from (A ! j) d))"

definition finished :: "EFI_MEMORY_DESCRIPTOR list \<Rightarrow> EFI_MEMORY_DESCRIPTOR list \<Rightarrow> EFI_MEMORY_DESCRIPTOR \<Rightarrow> bool" where
  "finished A m0 d \<longleftrightarrow> (\<forall>x. covers d x \<longrightarrow> retyped A m0 x = Some (Attribute d, MemType d))"

definition passed :: "EFI_MEMORY_DESCRIPTOR list \<Rightarrow> nat \<Rightarrow> EFI_MEMORY_DESCRIPTOR \<Rightarrow> bool" where
  "passed A L d \<longleftrightarrow> (\<forall>j < length A. L \<le> j \<longrightarrow> desc_end d \<le> unat (PhysicalStart (A ! j)))"

definition same_cover :: "EFI_MEMORY_DESCRIPTOR list \<Rightarrow> EFI_MEMORY_DESCRIPTOR list \<Rightarrow> bool" where
  "same_cover m m0 \<longleftrightarrow> (\<forall>x. (\<exists>d \<in> set m. covers d x) \<longleftrightarrow> (\<exists>d \<in> set m0. covers d x))"

lemma runtime_real: "runtime_type (MemType a) \<Longrightarrow> runtime_type (OcRealMemoryType a)"
  by (simp add: OcRealMemoryType_def runtime_type_def)

lemma not_apart: "covers a x \<Longrightarrow> covers d x \<Longrightarrow> \<not> apart_from a d"
  by (auto simp: covers_def apart_from_def)

text \<open>An entry, or its front part, for which the search found no attribute of another type is finished.\<close>

lemma finish_fresh:
  assumes "fresh A m0 L d"
    and "\<And>j x. L \<le> j \<Longrightarrow> j < length A \<Longrightarrow> runtime_type (MemType (A ! j)) \<Longrightarrow> runtime_type (MemType d) \<Longrightarrow> within (A ! j) d \<Longrightarrow> covers (A ! j) x \<Longrightarrow> covers e x \<Longrightarrow>
      OcRealMemoryType (A ! j) = MemType d"
    and "\<And>x. covers e x \<Longrightarrow> covers d x" "Attribute e = Attribute d" "MemType e = MemType d"
  shows "finished A m0 e"
  unfolding finished_def
proof (intro allI impI)
  fix x
  assume x: "covers e x"
  have at: "at m0 x = Some (Attribute d, MemType d)" using assms(1) assms(3)[OF x] by (simp add: fresh_def)
  have "attribute_type A x (MemType d) = MemType d"
  proof (cases "runtime_type (MemType d)")
    case True
    show ?thesis
    proof (rule attribute_type_same)
      fix a
      assume a: "a \<in> set A" "runtime_type (MemType a)" "covers a x"
      then obtain j where j: "j < length A" "A ! j = a" by (meson in_set_conv_nth)
      have "\<not> desc_end a \<le> unat (PhysicalStart d)" using a(3) assms(3)[OF x] by (auto simp: covers_def)
      then have "L \<le> j" "within a d" using assms(1) j a(2) True not_apart[OF a(3) assms(3)[OF x]] by (auto simp: fresh_def not_less[symmetric])
      then show "OcRealMemoryType a = MemType d" using assms(2)[of j x] j a True x by simp
    qed
  qed (simp add: attribute_type_def)
  then show "retyped A m0 x = Some (Attribute e, MemType e)" using at assms(4,5) by (simp add: retyped_def)
qed

definition split_map_inv :: "EFI_MEMORY_DESCRIPTOR list \<Rightarrow> EFI_MEMORY_DESCRIPTOR list \<Rightarrow> nat \<Rightarrow> nat \<times> nat \<times> EFI_MEMORY_DESCRIPTOR list \<Rightarrow> bool" where
  "split_map_inv A m0 Limit s \<longleftrightarrow> (case s of (i, L, m) \<Rightarrow>
     aligned_map m \<and> same_cover m m0 \<and> length m \<le> Limit \<and> i \<le> length m \<and> L \<le> length A \<and> list_all (finished A m0) (take i m) \<and>
     list_all (fresh A m0 L) (drop (Suc i) m) \<and> (i < length m \<longrightarrow> fresh A m0 L (m ! i) \<or> finished A m0 (m ! i) \<and> passed A L (m ! i)))"

lemma split_map_invI:
  assumes "aligned_map (xs @ d # ys)" "same_cover (xs @ d # ys) m0" "Suc (length xs + length ys) \<le> Limit" "L \<le> length A" "list_all (finished A m0) xs"
    "list_all (fresh A m0 L) ys" "fresh A m0 L d \<or> finished A m0 d \<and> passed A L d"
  shows "split_map_inv A m0 Limit (length xs, L, xs @ d # ys)"
  using assms by (simp add: split_map_inv_def)

lemma split_map_invE:
  assumes "split_map_inv A m0 Limit (i, L, m)" "i < length m"
  obtains xs d ys where "m = xs @ d # ys" "i = length xs" "aligned_map (xs @ d # ys)" "same_cover (xs @ d # ys) m0" "Suc (length xs + length ys) \<le> Limit" "L \<le> length A"
    "list_all (finished A m0) xs" "list_all (fresh A m0 L) ys" "fresh A m0 L d \<or> finished A m0 d \<and> passed A L d"
proof -
  have m: "m = take i m @ m ! i # drop (Suc i) m" using assms(2) by (rule id_take_nth_drop)
  show thesis
    by (rule that[of "take i m" "m ! i" "drop (Suc i) m"]) (use assms m in \<open>auto simp: split_map_inv_def\<close>)
qed

lemma split_map_inv_advance:
  assumes "split_map_inv A m0 Limit (i, L, m)" "i < length m" "finished A m0 (m ! i)"
  shows "split_map_inv A m0 Limit (Suc i, L, m)"
proof -
  have "list_all (finished A m0) (take (Suc i) m)" using assms take_Suc_conv_app_nth[OF assms(2)] by (simp add: split_map_inv_def)
  moreover have "Suc i < length m \<Longrightarrow> drop (Suc i) m = m ! Suc i # drop (Suc (Suc i)) m" by (simp add: Cons_nth_drop_Suc)
  ultimately show ?thesis using assms by (cases "Suc i < length m") (auto simp: split_map_inv_def)
qed

definition unchanged :: "EFI_MEMORY_DESCRIPTOR list \<Rightarrow> EFI_MEMORY_DESCRIPTOR \<Rightarrow> bool" where
  "unchanged m0 d \<longleftrightarrow> (\<forall>x. covers d x \<longrightarrow> at m0 x = Some (Attribute d, MemType d))"

definition split_partial :: "EFI_MEMORY_DESCRIPTOR list \<Rightarrow> EFI_MEMORY_DESCRIPTOR list \<Rightarrow> nat \<Rightarrow> EFI_MEMORY_DESCRIPTOR list \<Rightarrow> bool" where
  "split_partial A m0 Limit m \<longleftrightarrow> aligned_map m \<and> same_cover m m0 \<and> length m = Limit \<and> list_all (\<lambda>d. unchanged m0 d \<or> finished A m0 d) m"

lemma fresh_later:
  assumes "fresh A m0 L d" "good_map A" "j < length A" "desc_end (A ! j) \<le> unat (PhysicalStart d)"
  shows "fresh A m0 (Suc j) d"
proof -
  have "desc_end (A ! k) \<le> unat (PhysicalStart d)" if "k < Suc j" for k
    using good_map_order[OF assms(2) _ assms(3), of k] that assms(4) by (cases "k = j") (auto simp: desc_end_def)
  then show ?thesis using assms(1) by (simp add: fresh_def)
qed

lemma fresh_tail:
  assumes "fresh A m0 L d" "desc_end d < 2 ^ 64" "n < NumberOfPages d" "good_map A" "j \<le> length A"
    and lo: "\<And>k. k < j \<Longrightarrow> desc_end (A ! k) \<le> unat (PhysicalStart (cut_right n d))"
    and hi: "\<And>k. j \<le> k \<Longrightarrow> k < length A \<Longrightarrow> unat (PhysicalStart (cut_right n d)) \<le> unat (PhysicalStart (A ! k))"
  shows "fresh A m0 j (cut_right n d)"
  unfolding fresh_def cut_fields
proof (intro conjI allI impI)
  show "at m0 x = Some (Attribute d, MemType d)" if "covers (cut_right n d) x" for x
    using assms(1) cut_covers(3)[OF assms(2,3) that] by (simp add: fresh_def)
  show "desc_end (A ! k) \<le> unat (PhysicalStart (cut_right n d))" if "k < j" for k using lo[OF that] .
  show "within (A ! k) (cut_right n d) \<or> apart_from (A ! k) (cut_right n d)"
    if k: "k < length A" "runtime_type (MemType (A ! k))" "runtime_type (MemType d)" for k
  proof (cases "k < j")
    case True
    then show ?thesis using lo by (simp add: apart_from_def)
  next
    case False
    have "within (A ! k) d \<or> apart_from (A ! k) d" using assms(1) k by (simp add: fresh_def)
    moreover have "unat (PhysicalStart d) \<le> unat (PhysicalStart (cut_right n d))" by (simp only: cut_bounds[OF assms(2,3)])
    ultimately show ?thesis using hi[of k] False k(1) by (auto simp: within_def apart_from_def cut_bounds(3)[OF assms(2,3)])
  qed
qed

lemma attribute_finishes:
  assumes "fresh A m0 L d" "good_map A" "a \<in> set A" "runtime_type (MemType a)" "runtime_type (MemType d)" "\<And>x. covers e x \<Longrightarrow> covers d x \<and> covers a x" "Attribute e = Attribute d"
  shows "finished A m0 (e\<lparr>MemType := OcRealMemoryType a\<rparr>)"
proof -
  have "retyped A m0 x = Some (Attribute d, OcRealMemoryType a)" if "covers e x" for x
  proof -
    have "at m0 x = Some (Attribute d, MemType d)" using assms(1,6) that by (simp add: fresh_def)
    then show ?thesis using attribute_type_unique[OF assms(2,3) _ assms(4,5), of x] assms(6)[OF that] by (simp add: retyped_def)
  qed
  then show ?thesis using assms(7) by (simp add: finished_def)
qed

lemma same_cover_cut:
  assumes "same_cover (xs @ d # ys) m0" "desc_end d < 2 ^ 64" "n < NumberOfPages d"
  shows "same_cover (xs @ (cut_left n d)\<lparr>MemType := t\<rparr> # cut_right n d # ys) m0"
proof -
  have "(\<exists>e \<in> set (xs @ (cut_left n d)\<lparr>MemType := t\<rparr> # cut_right n d # ys). covers e x) \<longleftrightarrow> (\<exists>e \<in> set (xs @ d # ys). covers e x)" for x
    using cut_covers(1)[OF assms(2,3), of x] by auto
  then show ?thesis using assms(1) unfolding same_cover_def by blast
qed

lemma split_back_inv:
  assumes al: "aligned_map (xs @ d # ys)" and sc: "same_cover (xs @ d # ys) m0" and len: "Suc (length xs + length ys) \<le> Limit"
    and xs: "list_all (finished A m0) xs" and ys: "list_all (fresh A m0 L) ys" and d: "fresh A m0 j d" "runtime_type (MemType d)"
    and A: "aligned_map A" "j < length A" and a: "A ! j = a" "runtime_type (MemType a)" "within a d" "PhysicalStart a = PhysicalStart d"
    and r: "split_back Limit a xs d ys = (st, i, m)"
  shows "st = MM_SUCCESS \<and> split_map_inv A m0 Limit (i, Suc j, m) \<and> i < length m \<and> length m - i = Suc (length ys) \<or> st = MM_OUT_OF_RESOURCES \<and> split_partial A m0 Limit m"
proof -
  have g: "good_map A" "a \<in> set A" using A a(1) by (auto simp: aligned_map_def)
  have e: "desc_end d < 2 ^ 64" using al by (simp add: aligned_map_def good_map_def)
  have ad: "desc_end a \<le> desc_end d" using a(3) by (simp add: within_def)
  have ys': "list_all (fresh A m0 (Suc j)) ys"
  proof -
    have "desc_end a \<le> unat (PhysicalStart y)" if "y \<in> set ys" for y using al that ad by (fastforce simp: aligned_map_def good_map_def sorted_wrt_append)
    then show ?thesis using ys fresh_later[OF _ g(1) A(2)] a(1) by (auto simp: list.pred_set)
  qed
  consider (exact) "NumberOfPages d = NumberOfPages a" | (full) "NumberOfPages d \<noteq> NumberOfPages a" "Suc (length xs + length ys) = Limit"
    | (cut) "NumberOfPages d \<noteq> NumberOfPages a" "Suc (length xs + length ys) \<noteq> Limit" by blast
  then show ?thesis
  proof cases
    case exact
    let ?d = "d\<lparr>MemType := OcRealMemoryType a\<rparr>"
    have same: "desc_end a = desc_end d" "\<And>x. covers d x \<Longrightarrow> covers a x" using exact a(4) by (auto simp: desc_end_def covers_def)
    have "finished A m0 ?d" by (rule attribute_finishes[OF d(1) g a(2) d(2)]) (use same in auto)
    moreover have "passed A (Suc j) ?d" using good_map_order[OF g(1), of j] a(1) same(1) by (simp add: passed_def Suc_le_eq)
    moreover have "same_cover (xs @ ?d # ys) m0" using sc by (simp add: same_cover_def)
    ultimately have "split_map_inv A m0 Limit (length xs, Suc j, xs @ ?d # ys)" using al len A(2) xs ys' by (intro split_map_invI) (simp_all add: aligned_retype)
    then show ?thesis using r exact by (auto simp: split_back_def)
  next
    case full
    have "list_all (\<lambda>d. unchanged m0 d \<or> finished A m0 d) (xs @ d # ys)" using xs ys d(1) by (auto simp: list.pred_set fresh_def unchanged_def)
    then show ?thesis using r full al sc by (auto simp: split_back_def split_partial_def)
  next
    case cut
    let ?n = "NumberOfPages a"
    let ?l = "(cut_left ?n d)\<lparr>MemType := OcRealMemoryType a\<rparr>" and ?r = "cut_right ?n d"
    have n: "0 < ?n" "?n < NumberOfPages d"
    proof -
      have "unat ?n \<le> unat (NumberOfPages d)" using ad a(4) by (simp add: desc_end_def)
      then show "?n < NumberOfPages d" using cut(1) by (simp add: word_le_nat_alt order_less_le)
      show "0 < ?n" using aligned_proper[OF A(1) g(2)] by (simp add: proper_def word_neq_0_conv)
    qed
    note b = cut_bounds[OF e n(2)]
    have ea: "desc_end a = unat (PhysicalStart ?r)" unfolding b(1) by (simp add: desc_end_def a(4))
    have "finished A m0 ?l"
      by (rule attribute_finishes[OF d(1) g a(2) d(2)]) (use cut_covers(2)[OF e n(2)] a(4) in \<open>auto simp: covers_def desc_end_def\<close>)
    moreover have "fresh A m0 (Suc j) ?r"
    proof (rule fresh_tail[OF d(1) e n(2) g(1)])
      show "desc_end (A ! k) \<le> unat (PhysicalStart ?r)" if "k < Suc j" for k
        using good_map_order[OF g(1) _ A(2), of k] that ea a(1) by (cases "k = j") (auto simp: desc_end_def)
      show "unat (PhysicalStart ?r) \<le> unat (PhysicalStart (A ! k))" if "Suc j \<le> k" "k < length A" for k using good_map_order[OF g(1), of j k] that ea a(1) by simp
    qed (use A(2) in simp)
    moreover have "aligned_map ((xs @ [?l]) @ ?r # ys)" using cut_aligned[OF al n] aligned_retype[of xs _ "cut_left ?n d" "?r # ys"] by simp
    moreover have "same_cover ((xs @ [?l]) @ ?r # ys) m0" using same_cover_cut[OF sc e n(2)] by simp
    ultimately have "split_map_inv A m0 Limit (length (xs @ [?l]), Suc j, (xs @ [?l]) @ ?r # ys)" using len cut(2) A(2) xs ys' by (intro split_map_invI) simp_all
    then show ?thesis using r cut by (auto simp: split_back_def)
  qed
qed

lemma aligned_drop: "aligned_map A \<Longrightarrow> aligned_map (drop L A)"
  by (auto simp: aligned_map_def good_map_def sorted_wrt_drop list.pred_set dest: in_set_dropD)

text \<open>The attribute that the search finds, by its number.\<close>

lemma find_attribute_at:
  assumes "aligned_map A" "proper d" "find_attribute d (drop L A) L False = Some (j, a)"
  shows "L \<le> j" "j < length A" "A ! j = a" "runtime_type (MemType a)" "within a d"
    "\<And>k. L \<le> k \<Longrightarrow> k < j \<Longrightarrow> runtime_type (MemType (A ! k)) \<Longrightarrow> within (A ! k) d \<Longrightarrow> OcRealMemoryType (A ! k) = MemType d"
proof -
  note f = find_attribute_Some[OF aligned_drop[OF assms(1)] assms(2,3)]
  show j: "L \<le> j" "j < length A" "A ! j = a" "runtime_type (MemType a)" "within a d" using f by auto
  fix k
  assume k: "L \<le> k" "k < j" "runtime_type (MemType (A ! k))" "within (A ! k) d"
  have "A ! k = take (j - L) (drop L A) ! (k - L)" using k(1,2) j(2) by simp
  moreover have "k - L < length (take (j - L) (drop L A))" using k(1,2) j(2) by simp
  ultimately have "A ! k \<in> set (take (j - L) (drop L A))" by (metis nth_mem)
  then show "OcRealMemoryType (A ! k) = MemType d" using f k(3,4) by blast
qed

lemma split_entry_inv:
  assumes inv: "split_map_inv A m0 Limit (i, L, m)" "i < length m" and A: "aligned_map A" and rt: "runtime_type (MemType (m ! i))"
    and find: "find_attribute (m ! i) (drop L A) L False = Some (j, a)" and r: "OcSplitMemoryEntryByAttribute Limit a i m = (st, i', m')"
  shows "st = MM_SUCCESS \<and> split_map_inv A m0 Limit (i', Suc j, m') \<and> length m' - i' = length m - i \<or> st = MM_OUT_OF_RESOURCES \<and> split_partial A m0 Limit m'"
proof -
  obtain xs d ys where m: "m = xs @ d # ys" "i = length xs" and al: "aligned_map (xs @ d # ys)" and sc: "same_cover (xs @ d # ys) m0"
    and len: "Suc (length xs + length ys) \<le> Limit" and xs: "list_all (finished A m0) xs" and ys: "list_all (fresh A m0 L) ys"
    and d: "fresh A m0 L d \<or> finished A m0 d \<and> passed A L d"
    using split_map_invE[OF inv] by metis
  have md: "m ! i = d" by (simp add: m)
  have pd: "proper d" using aligned_proper[OF al] by simp
  note f = find_attribute_at[OF A pd find[unfolded md]]
  have pa: "proper a" using aligned_proper[OF A] f(2,3) by auto
  have g: "good_map A" using A by (simp add: aligned_map_def)
  have lo: "desc_end (A ! k) \<le> unat (PhysicalStart a)" if "k < j" for k using good_map_order[OF g that f(2)] f(3) by simp
  have hi: "unat (PhysicalStart a) \<le> unat (PhysicalStart (A ! k))" if "j \<le> k" "k < length A" for k
    using good_map_order[OF g, of j k] that f(3) by (cases "k = j") (auto simp: desc_end_def)
  have gt: "unat (PhysicalStart a) < desc_end a" using pa by (auto intro: desc_end_gt simp: proper_def)
  have "\<not> passed A L d" using f(1,2,3,5) gt by (auto simp: passed_def within_def)
  then have d: "fresh A m0 L d" using d by simp
  have rd: "runtime_type (MemType d)" using rt md by simp
  have e: "desc_end d < 2 ^ 64" using pd by (simp add: proper_def)
  show ?thesis
  proof (cases "PhysicalStart a > PhysicalStart d")
    case False
    then have s: "PhysicalStart a = PhysicalStart d" using f(5) by (auto simp: within_def word_le_nat_alt[symmetric])
    have "fresh A m0 j d" using d lo s by (simp add: fresh_def)
    moreover have "split_back Limit a xs d ys = (st, i', m')" using r False m by (simp add: split_eq Let_def)
    ultimately show ?thesis using split_back_inv[OF al sc len xs ys _ rd A f(2-5) s] m by auto
  next
    case True
    let ?n = "EFI_SIZE_TO_PAGES (PhysicalStart a - PhysicalStart d)"
    note n = front_cut[OF pd pa f(5) True]
    let ?l = "cut_left ?n d" and ?r = "cut_right ?n d"
    note b = cut_bounds[OF e n(2)]
    have s: "PhysicalStart a = PhysicalStart ?r" using b(1) n(4) by (simp add: word_unat_eq_iff)
    show ?thesis
    proof (cases "Suc (length xs + length ys) = Limit")
      case full: True
      have "list_all (\<lambda>d. unchanged m0 d \<or> finished A m0 d) (xs @ d # ys)" using xs ys d by (auto simp: list.pred_set fresh_def unchanged_def)
      then show ?thesis using r full True al sc m by (auto simp: split_eq split_partial_def)
    next
      case False
      have r': "split_back Limit a (xs @ [?l]) ?r ys = (st, i', m')" using r True False m n(3) by (simp add: split_eq Let_def)
      have fl: "finished A m0 ?l"
      proof (rule finish_fresh[OF d])
        fix k x
        assume k: "L \<le> k" "k < length A" "runtime_type (MemType (A ! k))" "within (A ! k) d" "covers (A ! k) x" "covers ?l x"
        have "x < unat (PhysicalStart a)" using k(6) n(4) by (simp add: covers_def b(2))
        then have "k < j" using hi[OF _ k(2)] k(5) by (force simp: covers_def not_less)
        then show "OcRealMemoryType (A ! k) = MemType d" using f(6) k by simp
      qed (use cut_covers(2)[OF e n(2)] in auto)
      have fr: "fresh A m0 j ?r" using fresh_tail[OF d e n(2) g, of j] lo hi f(2) s by simp
      have al': "aligned_map ((xs @ [?l]) @ ?r # ys)" using cut_aligned[OF al n(1,2)] by simp
      have l: "?l\<lparr>MemType := MemType d\<rparr> = ?l" by (simp add: cut_left_def)
      have sc': "same_cover ((xs @ [?l]) @ ?r # ys) m0" using same_cover_cut[OF sc e n(2), of "MemType d"] l by simp
      have w: "within a ?r" using f(5) s b(3) by (simp add: within_def)
      have "st = MM_SUCCESS \<and> split_map_inv A m0 Limit (i', Suc j, m') \<and> i' < length m' \<and> length m' - i' = Suc (length ys) \<or> st = MM_OUT_OF_RESOURCES \<and> split_partial A m0 Limit m'"
        by (rule split_back_inv[OF al' sc' _ _ ys fr _ A f(2-4) w s r']) (use len False xs fl rd in auto)
      then show ?thesis using m by auto
    qed
  qed
qed

lemma split_map_inv_init:
  assumes "aligned_map m" "mat_ok A m" "length m \<le> Limit"
  shows "split_map_inv A m Limit (0, 0, m)"
proof -
  have g: "good_map m" using assms(1) by (simp add: aligned_map_def)
  have "fresh A m 0 d" if "d \<in> set m" for d
    using assms(2) at_unique[OF g that] that by (auto simp: fresh_def mat_ok_def list.pred_set)
  then show ?thesis using assms(1,3) by (auto simp: split_map_inv_def same_cover_def list.pred_set dest: in_set_dropD)
qed

lemma split_body_inv:
  assumes inv: "split_map_inv A m0 Limit (i, L, m)" and A: "aligned_map A"
  shows "split_body Limit A (i, L, m) = Continue (i', L', m') \<Longrightarrow> split_map_inv A m0 Limit (i', L', m') \<and> (length A - L') + (length m' - i') < (length A - L) + (length m - i)"
    and "split_body Limit A (i, L, m) = Break (st, m') \<Longrightarrow>
      st = MM_SUCCESS \<and> aligned_map m' \<and> same_cover m' m0 \<and> length m' \<le> Limit \<and> list_all (finished A m0) m' \<or> st = MM_OUT_OF_RESOURCES \<and> split_partial A m0 Limit m'"
proof -
  have pd: "proper (m ! i)" if "i < length m" using inv aligned_proper[of m "m ! i"] that by (simp add: split_map_inv_def)
  have skip: "finished A m0 (m ! i)"
    if i: "i < length m" "\<And>j. L \<le> j \<Longrightarrow> j < length A \<Longrightarrow> runtime_type (MemType (A ! j)) \<Longrightarrow> runtime_type (MemType (m ! i)) \<Longrightarrow> within (A ! j) (m ! i) \<Longrightarrow> OcRealMemoryType (A ! j) = MemType (m ! i)"
    using inv i(1) by (auto simp: split_map_inv_def intro: finish_fresh[OF _ i(2)])
  have none: "OcRealMemoryType (A ! j) = MemType (m ! i)"
    if "i < length m" "find_attribute (m ! i) (drop L A) L False = None" "L \<le> j" "j < length A" "runtime_type (MemType (A ! j))" "within (A ! j) (m ! i)" for j
  proof -
    have "drop L A ! (j - L) \<in> set (drop L A)" using that(3,4) by (intro nth_mem) simp
    then have "A ! j \<in> set (drop L A)" using that(3,4) by simp
    then show ?thesis using find_attribute_None[OF aligned_drop[OF A] pd[OF that(1)] that(2)] that(5,6) by simp
  qed
  show "split_map_inv A m0 Limit (i', L', m') \<and> (length A - L') + (length m' - i') < (length A - L) + (length m - i)" if b: "split_body Limit A (i, L, m) = Continue (i', L', m')"
  proof -
    have i: "i < length m" using b by (auto simp: split_body_def split: if_splits)
    consider (next_entry) "finished A m0 (m ! i)" "(i', L', m') = (Suc i, L, m)"
      | (entry_split) j a where "runtime_type (MemType (m ! i))" "find_attribute (m ! i) (drop L A) L False = Some (j, a)"
        "OcSplitMemoryEntryByAttribute Limit a i m = (MM_SUCCESS, i', m')" "L' = Suc j"
      using b i skip[OF i] none[OF i] by (auto simp: split_body_def split: if_split_asm option.split_asm prod.split_asm)
    then show ?thesis
    proof cases
      case next_entry
      then show ?thesis using split_map_inv_advance[OF inv i next_entry(1)] i by auto
    next
      case entry_split
      have "L \<le> j" "j < length A" using find_attribute_at(1,2)[OF A pd[OF i] entry_split(2)] .
      then show ?thesis using split_entry_inv[OF inv i A entry_split(1,2,3)] entry_split(4) by auto
    qed
  qed
  show "st = MM_SUCCESS \<and> aligned_map m' \<and> same_cover m' m0 \<and> length m' \<le> Limit \<and> list_all (finished A m0) m' \<or> st = MM_OUT_OF_RESOURCES \<and> split_partial A m0 Limit m'"
    if b: "split_body Limit A (i, L, m) = Break (st, m')"
  proof (cases "i < length m")
    case False
    then show ?thesis using b inv by (auto simp: split_body_def split_map_inv_def)
  next
    case True
    then obtain j a i' where "runtime_type (MemType (m ! i))" "find_attribute (m ! i) (drop L A) L False = Some (j, a)"
      "OcSplitMemoryEntryByAttribute Limit a i m = (st, i', m')" "st \<noteq> MM_SUCCESS"
      using b by (auto simp: split_body_def split: if_split_asm option.split_asm prod.split_asm)
    then show ?thesis using split_entry_inv[OF inv True A] by blast
  qed
qed

text \<open>Two free places per attribute are enough.\<close>

lemma split_room:
  assumes "i < length m" "length m + 2 \<le> Limit" "OcSplitMemoryEntryByAttribute Limit a i m = (st, i', m')"
  shows "st = MM_SUCCESS \<and> length m' \<le> length m + 2"
proof -
  have m: "m = take i m @ m ! i # drop (Suc i) m" "i = length (take i m)" using assms(1) by (simp_all add: id_take_nth_drop)
  have "length m = Suc (length (take i m) + length (drop (Suc i) m))" using assms(1) by simp
  then show ?thesis
    using assms(2,3) split_eq[of Limit a "take i m" "m ! i" "drop (Suc i) m"] m by (auto simp: split_back_def Let_def split: if_split_asm)
qed

definition attributes_left :: "EFI_MEMORY_DESCRIPTOR list \<Rightarrow> nat \<Rightarrow> nat" where
  "attributes_left A L = length (filter (\<lambda>d. runtime_type (MemType d)) (drop L A))"

lemma attributes_left_Suc:
  assumes "L \<le> j" "j < length A" "runtime_type (MemType (A ! j))"
  shows "Suc (attributes_left A (Suc j)) \<le> attributes_left A L"
proof -
  have "drop L A = take (j - L) (drop L A) @ A ! j # drop (Suc j) A"
    using assms(1,2) id_take_nth_drop[of "j - L" "drop L A"] by simp
  then have "attributes_left A L = length (filter (\<lambda>d. runtime_type (MemType d)) (take (j - L) (drop L A) @ A ! j # drop (Suc j) A))"
    by (metis attributes_left_def)
  then show ?thesis using assms(3) by (simp add: attributes_left_def)
qed

lemma split_body_room:
  assumes inv: "split_map_inv A m0 Limit (i, L, m)" and A: "aligned_map A" and room: "length m + 2 * attributes_left A L \<le> Limit"
  shows "split_body Limit A (i, L, m) = Continue (i', L', m') \<Longrightarrow> length m' + 2 * attributes_left A L' \<le> Limit"
    and "split_body Limit A (i, L, m) = Break (st, m') \<Longrightarrow> st = MM_SUCCESS"
proof -
  have split: "st = MM_SUCCESS \<and> length m' + 2 * attributes_left A (Suc j) \<le> Limit"
    if "i < length m" "find_attribute (m ! i) (drop L A) L False = Some (j, a)" "OcSplitMemoryEntryByAttribute Limit a i m = (st, i', m')" for j a st i' m'
  proof -
    have "proper (m ! i)" using inv aligned_proper[of m "m ! i"] that(1) by (simp add: split_map_inv_def)
    note f = find_attribute_at(1-4)[OF A this that(2)]
    have "Suc (attributes_left A (Suc j)) \<le> attributes_left A L" using attributes_left_Suc[OF f(1,2)] f(3,4) by simp
    then show ?thesis using split_room[OF that(1) _ that(3)] room by fastforce
  qed
  show "length m' + 2 * attributes_left A L' \<le> Limit" if "split_body Limit A (i, L, m) = Continue (i', L', m')"
    using that room split by (auto simp: split_body_def split: if_split_asm option.split_asm prod.split_asm)
  show "st = MM_SUCCESS" if "split_body Limit A (i, L, m) = Break (st, m')"
    using that split by (fastforce simp: split_body_def split: if_split_asm option.split_asm prod.split_asm)
qed

lemma finished_at:
  assumes "aligned_map m'" "same_cover m' m" "list_all (finished A m) m'"
  shows "at m' x = retyped A m x"
proof (cases "\<exists>d \<in> set m'. covers d x")
  case True
  then obtain d where d: "d \<in> set m'" "covers d x" by auto
  then have "at m' x = Some (Attribute d, MemType d)" using at_unique assms(1) by (simp add: aligned_map_def)
  then show ?thesis using d assms(3) by (simp add: finished_def list.pred_set)
next
  case False
  then have "at m' x = None" "at m x = None" using assms(2) by (auto simp: at_None_iff same_cover_def)
  then show ?thesis by (simp add: retyped_def)
qed

lemma partial_at:
  assumes "split_partial A m Limit m'"
  shows "at m' x = at m x \<or> at m' x = retyped A m x"
proof (cases "\<exists>d \<in> set m'. covers d x")
  case True
  then obtain d where d: "d \<in> set m'" "covers d x" by auto
  then have "at m' x = Some (Attribute d, MemType d)" using at_unique assms by (simp add: aligned_map_def split_partial_def)
  then show ?thesis using d assms by (auto simp: finished_def unchanged_def split_partial_def list.pred_set)
next
  case False
  then have "at m' x = None" "at m x = None" using assms by (auto simp: at_None_iff same_cover_def split_partial_def)
  then show ?thesis by simp
qed

lemma OcSplitMemoryMapByAttributes_spec:
  assumes "aligned_map m" "mat_ok A m" "length m \<le> Limit"
  shows "\<exists>Status m'. OcSplitMemoryMapByAttributes (Some A) Limit m = Some (Status, m') \<and> aligned_map m' \<and> length m' \<le> Limit \<and>
    (Status = MM_SUCCESS \<and> (\<forall>x. at m' x = retyped A m x) \<or>
     Status = MM_OUT_OF_RESOURCES \<and> Limit < length m + 2 * OcCountSplitDescriptors (Some A) \<and> (\<forall>x. at m' x = at m x \<or> at m' x = retyped A m x))"
proof -
  have A: "aligned_map A" using assms(2) by (simp add: mat_ok_def)
  let ?room = "\<lambda>m L. length m + 2 * attributes_left A L \<le> Limit"
  let ?I = "\<lambda>(i, L, n). split_map_inv A m Limit (i, L, n) \<and> (?room m 0 \<longrightarrow> ?room n L)"
  let ?Q = "\<lambda>(st, n). (st = MM_SUCCESS \<and> aligned_map n \<and> same_cover n m \<and> length n \<le> Limit \<and> list_all (finished A m) n \<or> st = MM_OUT_OF_RESOURCES \<and> split_partial A m Limit n) \<and>
    (?room m 0 \<longrightarrow> st = MM_SUCCESS)"
  have "\<exists>r. iterate (split_body Limit A) (0, 0, m) = Some r \<and> ?Q r"
  proof (rule iterate_total[where I = ?I and m = "\<lambda>(i, L, n). (length A - L) + (length n - i)"])
    show "?I (0, 0, m)" using split_map_inv_init[OF assms] by simp
    show "?I s' \<and> (case s' of (i, L, n) \<Rightarrow> (length A - L) + (length n - i)) < (case s of (i, L, n) \<Rightarrow> (length A - L) + (length n - i))"
      if "?I s" "split_body Limit A s = Continue s'" for s s'
      using that split_body_inv(1)[OF _ A] split_body_room(1)[OF _ A] by (cases s; cases s') (simp, blast)
    show "?Q r" if "?I s" "split_body Limit A s = Break r" for s r
      using that split_body_inv(2)[OF _ A] split_body_room(2)[OF _ A] by (cases s; cases r) (simp, blast)
  qed
  then obtain st n where r: "iterate (split_body Limit A) (0, 0, m) = Some (st, n)" "?Q (st, n)" by auto
  have c: "OcCountSplitDescriptors (Some A) = attributes_left A 0" by (simp add: OcCountSplitDescriptors_def attributes_left_def)
  show ?thesis
  proof (cases "st = MM_SUCCESS")
    case True
    then have "aligned_map n" "same_cover n m" "length n \<le> Limit" "list_all (finished A m) n" using r(2) by auto
    then show ?thesis using True r(1) finished_at by (auto simp: OcSplitMemoryMapByAttributes_def)
  next
    case False
    then have "st = MM_OUT_OF_RESOURCES" "split_partial A m Limit n" "\<not> ?room m 0" using r(2) by auto
    then show ?thesis using r(1) partial_at c by (auto simp: OcSplitMemoryMapByAttributes_def split_partial_def not_le)
  qed
qed

section \<open>Properties of the attributes\<close>

definition sample_attributes :: "EFI_MEMORY_DESCRIPTOR list" where
  "sample_attributes = [(entry EfiRuntimeServicesCode 0x2000 1)\<lparr>Attribute := EFI_MEMORY_RUNTIME OR EFI_MEMORY_XP\<rparr>]"

text \<open>
  C4: \<open>OcSplitMemoryMapByAttributes\<close> ends and gives each address of the map the type that the attributes table has for it, and nothing else changes: the same addresses are
  described, with the same attributes, by a sorted map within the limit. Two free places for each attribute entry are enough; with fewer, a failure leaves every address
  with its old or its new type.
\<close>

theorem OcSplitMemoryMapByAttributes_correct:
  assumes "aligned_map m" "mat_ok A m" "length m \<le> Limit"
  shows "\<exists>Status m'. OcSplitMemoryMapByAttributes (Some A) Limit m = Some (Status, m') \<and> aligned_map m' \<and> length m' \<le> Limit \<and>
    (Status = MM_SUCCESS \<and> (\<forall>x. at m' x = retyped A m x) \<or>
     Status = MM_OUT_OF_RESOURCES \<and> Limit < length m + 2 * OcCountSplitDescriptors (Some A) \<and> (\<forall>x. at m' x = at m x \<or> at m' x = retyped A m x))"
  by (rule OcSplitMemoryMapByAttributes_spec[OF assms])

theorem OcSplitMemoryMapByAttributes_correct_witness:
  "\<exists>m'. OcSplitMemoryMapByAttributes (Some sample_attributes) 6 sample_memory_map = Some (MM_SUCCESS, m') \<and> (\<forall>x. at m' x = retyped sample_attributes sample_memory_map x) \<and>
    map MemType (take 3 m') = [EfiRuntimeServicesCode, EfiRuntimeServicesData, EfiRuntimeServicesCode]"
proof -
  have a: "aligned_map sample_memory_map" by (simp add: aligned_map_def good_map_def sample_memory_map_def entry_def desc_end_def)
  have b: "mat_ok sample_attributes sample_memory_map"
    by (auto simp: mat_ok_def aligned_map_def good_map_def sample_memory_map_def sample_attributes_def entry_def desc_end_def within_def apart_from_def)
  have c: "OcCountSplitDescriptors (Some sample_attributes) = 1" "length sample_memory_map = 4" by code_simp+
  obtain st m' where m': "OcSplitMemoryMapByAttributes (Some sample_attributes) 6 sample_memory_map = Some (st, m')" "st = MM_SUCCESS" "\<forall>x. at m' x = retyped sample_attributes sample_memory_map x"
    using OcSplitMemoryMapByAttributes_correct[OF a b, of 6] c by auto
  have "map_option (\<lambda>(st, m'). map MemType (take 3 m')) (OcSplitMemoryMapByAttributes (Some sample_attributes) 6 sample_memory_map) =
    Some [EfiRuntimeServicesCode, EfiRuntimeServicesData, EfiRuntimeServicesCode]" by code_simp
  then show ?thesis using m' by auto
qed

text \<open>
  The number of places that \<open>OcCountSplitDescriptors\<close> asks for is not enough: an attribute in the middle of an entry splits it in three.
\<close>

theorem OcCountSplitDescriptors_not_enough:
  "mat_ok sample_attributes sample_memory_map \<and> map_option fst (OcSplitMemoryMapByAttributes (Some sample_attributes)
     (length sample_memory_map + OcCountSplitDescriptors (Some sample_attributes)) sample_memory_map) = Some MM_OUT_OF_RESOURCES"
proof
  show "mat_ok sample_attributes sample_memory_map"
    by (auto simp: mat_ok_def aligned_map_def good_map_def sample_memory_map_def sample_attributes_def entry_def desc_end_def within_def apart_from_def)
  show "map_option fst (OcSplitMemoryMapByAttributes (Some sample_attributes) (length sample_memory_map + OcCountSplitDescriptors (Some sample_attributes)) sample_memory_map) =
    Some MM_OUT_OF_RESOURCES" by code_simp
qed

section \<open>Expanding the attributes table\<close>

definition new_attribute :: "EFI_MEMORY_DESCRIPTOR \<Rightarrow> u64 \<Rightarrow> u64 \<Rightarrow> EFI_MEMORY_DESCRIPTOR" where
  "new_attribute d c e =
     \<lparr>MemType = OcRealMemoryType d, PhysicalStart = c, VirtualStart = 0, NumberOfPages = EFI_SIZE_TO_PAGES (e - c),
      Attribute = EFI_MEMORY_RUNTIME OR (if OcRealMemoryType d = EfiRuntimeServicesCode then EFI_MEMORY_RO else EFI_MEMORY_XP)\<rparr>"

lemma new_attribute_spec:
  assumes "4096 dvd unat c" "4096 dvd unat e" "c < e"
  shows "desc_end (new_attribute d c e) = unat e" "proper (new_attribute d c e)"
proof -
  show en: "desc_end (new_attribute d c e) = unat e" using size_to_pages[OF assms] by (simp add: desc_end_def new_attribute_def)
  have "EFI_SIZE_TO_PAGES (e - c) \<noteq> 0" using size_to_pages[OF assms] assms(3) by (auto simp: word_less_nat_alt)
  then show "proper (new_attribute d c e)" using assms(1) unsigned_less[of e] unfolding proper_def en by (simp add: new_attribute_def)
qed

lemma new_attribute_fields [simp]: "PhysicalStart (new_attribute d c e) = c" "MemType (new_attribute d c e) = OcRealMemoryType d"
  by (simp_all add: new_attribute_def)

lemma ExpandAttributeWrite_eq:
  "OcExpandAttributeWrite Limit Mat (Some i) d c =
     (if length Mat \<ge> Limit then (MM_OUT_OF_RESOURCES, Mat)
      else (MM_SUCCESS, take i Mat @ [new_attribute d c (min (PhysicalStart (Mat ! i)) (LAST_DESCRIPTOR_ADDR d + 1))] @ drop i Mat))"
  "OcExpandAttributeWrite Limit Mat None d c =
     (if length Mat \<ge> Limit then (MM_OUT_OF_RESOURCES, Mat) else (MM_SUCCESS, Mat @ [new_attribute d c (LAST_DESCRIPTOR_ADDR d + 1)]))"
  by (simp_all add: OcExpandAttributeWrite_def Let_def new_attribute_def min_def less_imp_le)

lemma aligned_insert:
  assumes "aligned_map (xs @ ys)" "proper a" "\<And>x. x \<in> set xs \<Longrightarrow> desc_end x \<le> unat (PhysicalStart a)" "\<And>y. y \<in> set ys \<Longrightarrow> desc_end a \<le> unat (PhysicalStart y)"
  shows "aligned_map (xs @ a # ys)"
  using assms by (auto simp: aligned_map_def good_map_def sorted_wrt_append proper_def)

lemma next_address: "proper d \<Longrightarrow> unat (LAST_DESCRIPTOR_ADDR d + 1) = desc_end d"
proof -
  assume d: "proper d"
  have "unat (LAST_DESCRIPTOR_ADDR d) = desc_end d - 1" "0 < desc_end d" "desc_end d < 2 ^ 64"
    using d LAST_DESCRIPTOR_ADDR_proper[of d] desc_end_gt[of d] by (auto simp: proper_def)
  then show ?thesis by (subst unat_plus_no_wrap) simp_all
qed

lemma desc_end_aligned: "proper d \<Longrightarrow> 4096 dvd desc_end d"
  by (simp add: proper_def desc_end_def)

subsection \<open>The table while it grows\<close>

text \<open>An entry of the table is an old one or was made for a runtime entry of the map.\<close>

definition made_for :: "EFI_MEMORY_DESCRIPTOR list \<Rightarrow> EFI_MEMORY_DESCRIPTOR \<Rightarrow> bool" where
  "made_for m a \<longleftrightarrow> (\<exists>d \<in> set m. runtime_type (MemType d) \<and> within a d \<and> MemType a = OcRealMemoryType d \<and> OcRealMemoryType a = OcRealMemoryType d)"

definition mat_table_ok :: "EFI_MEMORY_DESCRIPTOR list \<Rightarrow> EFI_MEMORY_DESCRIPTOR list \<Rightarrow> nat \<Rightarrow> EFI_MEMORY_DESCRIPTOR list \<Rightarrow> bool" where
  "mat_table_ok Mat0 m Limit Mat \<longleftrightarrow> aligned_map Mat \<and> length Mat \<le> Limit \<and> set Mat0 \<subseteq> set Mat \<and> (\<forall>a \<in> set Mat. runtime_type (MemType a) \<and> (a \<in> set Mat0 \<or> made_for m a))"

lemma real_written:
  "runtime_type t \<Longrightarrow> OcRealMemoryType \<lparr>MemType = t, PhysicalStart = c, VirtualStart = v, NumberOfPages = n,
     Attribute = EFI_MEMORY_RUNTIME OR (if t = EfiRuntimeServicesCode then EFI_MEMORY_RO else EFI_MEMORY_XP)\<rparr> = t"
  by (auto simp: OcRealMemoryType_def runtime_type_def EFI_MEMORY_RUNTIME_def EFI_MEMORY_RO_def EFI_MEMORY_XP_def)

lemma made_for_new:
  assumes "d \<in> set m" "runtime_type (MemType d)" "4096 dvd unat c" "4096 dvd unat e" "c < e" "unat (PhysicalStart d) \<le> unat c" "unat e \<le> desc_end d"
  shows "made_for m (new_attribute d c e)" "runtime_type (OcRealMemoryType d)"
proof -
  show "runtime_type (OcRealMemoryType d)" using assms(2) by (rule runtime_real)
  then have "OcRealMemoryType (new_attribute d c e) = OcRealMemoryType d"
    using real_written[of "OcRealMemoryType d"] by (simp add: new_attribute_def)
  moreover have "within (new_attribute d c e) d" using assms(6,7) new_attribute_spec(1)[OF assms(3-5)] by (simp add: within_def)
  ultimately show "made_for m (new_attribute d c e)" using assms(1,2) by (auto simp: made_for_def)
qed

lemma table_insert:
  assumes "mat_table_ok Mat0 m Limit (xs @ ys)" "length (xs @ ys) < Limit" "d \<in> set m" "runtime_type (MemType d)" "4096 dvd unat c" "4096 dvd unat e" "c < e"
    "unat (PhysicalStart d) \<le> unat c" "unat e \<le> desc_end d" "\<And>x. x \<in> set xs \<Longrightarrow> desc_end x \<le> unat c" "\<And>y. y \<in> set ys \<Longrightarrow> unat e \<le> unat (PhysicalStart y)"
  shows "mat_table_ok Mat0 m Limit (xs @ new_attribute d c e # ys)"
proof -
  note n = new_attribute_spec[OF assms(5-7), of d]
  have "aligned_map (xs @ new_attribute d c e # ys)" using assms(1,10,11) n by (intro aligned_insert) (auto simp: mat_table_ok_def)
  then show ?thesis using assms(1,2) made_for_new[OF assms(3-9)] by (auto simp: mat_table_ok_def)
qed

text \<open>The walk over the table inside the map entry \<open>d\<close>: \<open>done\<close> are the map entries before it, \<open>ds\<close> those behind it; the memory up to \<open>c\<close> is described by the table.\<close>

definition described :: "EFI_MEMORY_DESCRIPTOR list \<Rightarrow> EFI_MEMORY_DESCRIPTOR list \<Rightarrow> bool" where
  "described Mat ds \<longleftrightarrow> (\<forall>d \<in> set ds. runtime_type (MemType d) \<longrightarrow> (\<forall>x. covers d x \<longrightarrow> (\<exists>a \<in> set Mat. covers a x)))"

definition expand_inv ::
  "EFI_MEMORY_DESCRIPTOR list \<Rightarrow> EFI_MEMORY_DESCRIPTOR list \<Rightarrow> nat \<Rightarrow> EFI_MEMORY_DESCRIPTOR list \<Rightarrow> EFI_MEMORY_DESCRIPTOR \<Rightarrow> EFI_MEMORY_DESCRIPTOR list \<Rightarrow>
   MEMORY_STATUS \<times> nat \<times> nat \<times> EFI_MEMORY_DESCRIPTOR list \<times> u64 \<Rightarrow> bool" where
  "expand_inv Mat0 m Limit dn d ds s \<longleftrightarrow> (case s of (Status, k, E, Mat, c) \<Rightarrow>
     mat_table_ok Mat0 m Limit Mat \<and> Status \<noteq> MM_OUT_OF_RESOURCES \<and> k \<le> length Mat \<and> (k < length Mat \<longrightarrow> E = k) \<and> 4096 dvd unat c \<and>
     unat (PhysicalStart d) \<le> unat c \<and> unat c \<le> desc_end d \<and>
     (\<forall>a \<in> set (take k Mat). desc_end a \<le> unat c) \<and>
     (\<forall>a \<in> set (drop k Mat). unat c \<le> unat (PhysicalStart a) \<and> (within a d \<or> (\<exists>e \<in> set ds. runtime_type (MemType e) \<and> within a e))) \<and>
     described Mat dn \<and> (\<forall>x. unat (PhysicalStart d) \<le> x \<longrightarrow> x < unat c \<longrightarrow> (\<exists>a \<in> set Mat. covers a x)))"

lemma described_mono: "described Mat ds \<Longrightarrow> set Mat \<subseteq> set Mat' \<Longrightarrow> described Mat' ds"
  unfolding described_def by blast

lemma good_map_drop:
  assumes "good_map m" "k < length m" "b \<in> set (drop (Suc k) m)"
  shows "desc_end (m ! k) \<le> unat (PhysicalStart b)"
proof -
  obtain j where "j < length m - Suc k" "b = m ! (Suc k + j)" using assms(3) by (auto simp: in_set_conv_nth)
  then show ?thesis using good_map_order[OF assms(1), of k "Suc k + j"] by simp
qed

lemma expand_step_same:
  assumes inv: "expand_inv Mat0 m Limit dn d ds (Status, k, E, Mat, c)" and k: "k < length Mat" and c: "unat c < desc_end d" "c = PhysicalStart (Mat ! k)"
    and ds: "\<And>e. e \<in> set ds \<Longrightarrow> desc_end d \<le> unat (PhysicalStart e)"
  shows "expand_inv Mat0 m Limit dn d ds (Status, Suc k, Suc E, Mat, LAST_DESCRIPTOR_ADDR (Mat ! k) + 1)"
proof -
  let ?a = "Mat ! k"
  note i = inv[unfolded expand_inv_def prod.case]
  have a: "proper ?a" using i k aligned_proper[of Mat ?a] by (simp add: mat_table_ok_def)
  have n: "unat (LAST_DESCRIPTOR_ADDR ?a + 1) = desc_end ?a" using next_address[OF a] .
  have dk: "drop k Mat = ?a # drop (Suc k) Mat" "take (Suc k) Mat = take k Mat @ [?a]" using k by (simp_all add: Cons_nth_drop_Suc take_Suc_conv_app_nth)
  have gt: "unat (PhysicalStart ?a) < desc_end ?a" using a by (auto intro: desc_end_gt simp: proper_def)
  have w: "within ?a d"
  proof -
    have "within ?a d \<or> (\<exists>e \<in> set ds. within ?a e)" using i dk(1) by auto
    then show ?thesis using ds c by (fastforce simp: within_def)
  qed
  have later: "desc_end ?a \<le> unat (PhysicalStart b)" if "b \<in> set (drop (Suc k) Mat)" for b
    using good_map_drop[OF _ k that] i by (simp add: mat_table_ok_def aligned_map_def)
  have "\<exists>b \<in> set Mat. covers b x" if "unat (PhysicalStart d) \<le> x" "x < desc_end ?a" for x
  proof (cases "x < unat c")
    case True
    then show ?thesis using i that(1) by blast
  next
    case False
    then show ?thesis using that(2) c(2) k by (intro bexI[of _ ?a]) (auto simp: covers_def)
  qed
  moreover have "\<forall>b \<in> set (take (Suc k) Mat). desc_end b \<le> desc_end ?a" using i gt c(2) unfolding dk by (fastforce simp: desc_end_def)
  moreover have "\<forall>b \<in> set (drop (Suc k) Mat). desc_end ?a \<le> unat (PhysicalStart b) \<and> (within b d \<or> (\<exists>e \<in> set ds. runtime_type (MemType e) \<and> within b e))"
    using i later unfolding dk(1) by auto
  ultimately show ?thesis
    using i w k desc_end_aligned[OF a] gt c(2) unfolding expand_inv_def prod.case n by (intro conjI) (simp_all add: within_def)
qed

lemma expand_step_write:
  assumes inv: "expand_inv Mat0 m Limit dn d ds (Status, k, E, Mat, c)" and k: "k < length Mat" and c: "unat c < desc_end d" "c \<noteq> PhysicalStart (Mat ! k)"
    and d: "proper d" "d \<in> set m" "runtime_type (MemType d)" and room: "length Mat < Limit"
  defines "new \<equiv> new_attribute d c (min (PhysicalStart (Mat ! k)) (LAST_DESCRIPTOR_ADDR d + 1))"
  shows "expand_inv Mat0 m Limit dn d ds (MM_SUCCESS, Suc k, Suc E, take k Mat @ [new] @ drop k Mat, LAST_DESCRIPTOR_ADDR new + 1)"
proof -
  let ?a = "Mat ! k" and ?e = "min (PhysicalStart (Mat ! k)) (LAST_DESCRIPTOR_ADDR d + 1)"
  note i = inv[unfolded expand_inv_def prod.case]
  have a: "proper ?a" using i k aligned_proper[of Mat ?a] by (simp add: mat_table_ok_def)
  have dk: "drop k Mat = ?a # drop (Suc k) Mat" using k by (simp add: Cons_nth_drop_Suc)
  have n: "unat (LAST_DESCRIPTOR_ADDR d + 1) = desc_end d" using next_address[OF d(1)] .
  have ue: "unat ?e = min (unat (PhysicalStart ?a)) (desc_end d)" using n by (simp add: min_def word_le_nat_alt)
  have al: "4096 dvd unat c" "4096 dvd unat ?e" using i a desc_end_aligned[OF d(1)] unfolding ue by (auto simp: min_def proper_def)
  have "unat c \<noteq> unat (PhysicalStart ?a)" using c(2) by (simp add: word_unat_eq_iff)
  moreover have "unat c \<le> unat (PhysicalStart ?a)" using i dk by simp
  ultimately have ce: "c < ?e" using c(1) unfolding word_less_nat_alt ue by simp
  note new = new_attribute_spec[OF al ce, of d, folded new_def]
  have e: "unat (LAST_DESCRIPTOR_ADDR new + 1) = unat ?e" using next_address[OF new(2)] new(1) by simp
  have later: "unat ?e \<le> unat (PhysicalStart b)" if "b \<in> set (drop k Mat)" for b
  proof -
    have "unat (PhysicalStart ?a) \<le> unat (PhysicalStart b)"
      using good_map_drop[OF _ k, of b] i that unfolding dk by (auto simp: mat_table_ok_def aligned_map_def desc_end_def)
    then show ?thesis unfolding ue by simp
  qed
  have "mat_table_ok Mat0 m Limit (take k Mat @ new # drop k Mat)" unfolding new_def
    by (rule table_insert[OF _ _ d(2,3) al ce]) (use i room later ue in auto)
  moreover have "\<exists>b \<in> set (take k Mat @ [new] @ drop k Mat). covers b x" if x: "unat (PhysicalStart d) \<le> x" "x < unat ?e" for x
  proof (cases "x < unat c")
    case True
    then obtain b where "b \<in> set Mat" "covers b x" using i x(1) by blast
    moreover have "set Mat = set (take k Mat) \<union> set (drop k Mat)" by (metis append_take_drop_id set_append)
    ultimately show ?thesis by auto
  next
    case False
    then show ?thesis using that(2) new(1) by (intro bexI[of _ new]) (auto simp: covers_def new_def)
  qed
  moreover have "described (take k Mat @ [new] @ drop k Mat) dn"
  proof (rule described_mono)
    show "set Mat \<subseteq> set (take k Mat @ [new] @ drop k Mat)" using append_take_drop_id[of k Mat] by (metis set_append Un_iff subsetI)
  qed (use i in simp)
  moreover have "take (Suc k) (take k Mat @ [new] @ drop k Mat) = take k Mat @ [new]" "drop (Suc k) (take k Mat @ [new] @ drop k Mat) = drop k Mat" using k by simp_all
  moreover have "\<forall>b \<in> set (take k Mat @ [new]). desc_end b \<le> unat ?e" using i ce new(1) by (fastforce simp: word_less_nat_alt)
  moreover have "unat ?e \<le> desc_end d" unfolding ue by simp
  ultimately show ?thesis
    using i k later al ce unfolding expand_inv_def prod.case e by (intro conjI) (simp_all add: word_less_nat_alt)
qed

definition expand_exit ::
  "EFI_MEMORY_DESCRIPTOR list \<Rightarrow> EFI_MEMORY_DESCRIPTOR list \<Rightarrow> nat \<Rightarrow> EFI_MEMORY_DESCRIPTOR list \<Rightarrow> EFI_MEMORY_DESCRIPTOR \<Rightarrow> EFI_MEMORY_DESCRIPTOR list \<Rightarrow>
   bool \<times> MEMORY_STATUS \<times> nat \<times> nat \<times> EFI_MEMORY_DESCRIPTOR list \<times> u64 \<Rightarrow> bool" where
  "expand_exit Mat0 m Limit dn d ds r \<longleftrightarrow> (case r of (ok, Status, k, E, Mat, c) \<Rightarrow>
     if ok then expand_inv Mat0 m Limit dn d ds (Status, k, E, Mat, c) \<and> \<not> (k < length Mat \<and> unat c < desc_end d)
     else Status = MM_OUT_OF_RESOURCES \<and> mat_table_ok Mat0 m Limit Mat \<and> length Mat = Limit)"

lemma expand_body_inv:
  assumes inv: "expand_inv Mat0 m Limit dn d ds (Status, k, E, Mat, c)" and d: "proper d" "d \<in> set m" "runtime_type (MemType d)"
    and ds: "\<And>e. e \<in> set ds \<Longrightarrow> desc_end d \<le> unat (PhysicalStart e)"
  shows "case expand_body Limit d (Status, k, E, Mat, c) of
      Continue (Status', k', E', Mat', c') \<Rightarrow> expand_inv Mat0 m Limit dn d ds (Status', k', E', Mat', c') \<and>
        (Limit - length Mat') + (length Mat' - k') < (Limit - length Mat) + (length Mat - k)
    | Break r \<Rightarrow> expand_exit Mat0 m Limit dn d ds r"
proof (cases "k < length Mat \<and> unat c < desc_end d")
  case False
  then have "\<not> (k < length Mat \<and> c < LAST_DESCRIPTOR_ADDR d + 1)" using next_address[OF d(1)] by (simp add: word_less_nat_alt)
  then show ?thesis using False inv by (simp add: expand_body_def expand_exit_def)
next
  case True
  then have b: "k < length Mat" "unat c < desc_end d" "c < LAST_DESCRIPTOR_ADDR d + 1" using next_address[OF d(1)] by (auto simp: word_less_nat_alt)
  note i = inv[unfolded expand_inv_def prod.case]
  let ?a = "Mat ! k"
  have E: "E = k" using i b(1) by simp
  have a: "proper ?a" "runtime_type (MemType ?a)" using i b(1) aligned_proper[of Mat ?a] by (auto simp: mat_table_ok_def)
  have "?a \<in> set (drop k Mat)" using b(1) by (metis Cons_nth_drop_Suc list.set_intros(1))
  then have "unat (PhysicalStart d) \<le> unat (PhysicalStart ?a)" using i by (meson order_trans)
  then have skip: "\<not> LAST_DESCRIPTOR_ADDR ?a < PhysicalStart d"
    using LAST_DESCRIPTOR_ADDR_proper[of ?a] desc_end_gt[of ?a] a(1) by (auto simp: word_less_nat_alt proper_def)
  show ?thesis
  proof (cases "c = PhysicalStart ?a")
    case True
    then have "expand_body Limit d (Status, k, E, Mat, c) = Continue (Status, Suc k, Suc k, Mat, LAST_DESCRIPTOR_ADDR ?a + 1)"
      using b a(2) skip E by (simp add: expand_body_def)
    moreover have "expand_inv Mat0 m Limit dn d ds (Status, Suc k, Suc k, Mat, LAST_DESCRIPTOR_ADDR ?a + 1)" using expand_step_same[OF inv b(1,2) True ds] E by simp
    ultimately show ?thesis using b(1) by simp
  next
    case ne: False
    show ?thesis
    proof (cases "length Mat < Limit")
      case True
      let ?new = "new_attribute d c (min (PhysicalStart ?a) (LAST_DESCRIPTOR_ADDR d + 1))"
      let ?M = "take k Mat @ [?new] @ drop k Mat"
      have "?M ! k = ?new" using b(1) by (simp add: nth_append)
      then have "expand_body Limit d (Status, k, E, Mat, c) = Continue (MM_SUCCESS, Suc k, Suc k, ?M, LAST_DESCRIPTOR_ADDR ?new + 1)"
        using b a(2) skip ne True E by (simp add: expand_body_def ExpandAttributeWrite_eq Let_def)
      moreover have "expand_inv Mat0 m Limit dn d ds (MM_SUCCESS, Suc k, Suc k, ?M, LAST_DESCRIPTOR_ADDR ?new + 1)" using expand_step_write[OF inv b(1,2) ne d True] E by simp
      ultimately show ?thesis using b(1) True by simp
    next
      case False
      have full: "mat_table_ok Mat0 m Limit Mat" "length Mat = Limit" using i False by (auto simp: mat_table_ok_def)
      have "expand_body Limit d (Status, k, E, Mat, c) = Break (False, MM_OUT_OF_RESOURCES, k, E, Mat, c)"
        using b a(2) skip ne False E by (simp add: expand_body_def ExpandAttributeWrite_eq Let_def)
      then show ?thesis using full by (simp add: expand_exit_def)
    qed
  qed
qed

lemma expand_walk:
  assumes "expand_inv Mat0 m Limit dn d ds s" and d: "proper d" "d \<in> set m" "runtime_type (MemType d)" and ds: "\<And>e. e \<in> set ds \<Longrightarrow> desc_end d \<le> unat (PhysicalStart e)"
  shows "\<exists>r. iterate (expand_body Limit d) s = Some r \<and> expand_exit Mat0 m Limit dn d ds r"
proof (rule iterate_total[where I = "expand_inv Mat0 m Limit dn d ds" and m = "\<lambda>(Status, k, E, Mat, c). (Limit - length Mat) + (length Mat - k)"])
  show "expand_inv Mat0 m Limit dn d ds s" by fact
  show "expand_inv Mat0 m Limit dn d ds t' \<and>
      (case t' of (Status, k, E, Mat, c) \<Rightarrow> (Limit - length Mat) + (length Mat - k)) < (case t of (Status, k, E, Mat, c) \<Rightarrow> (Limit - length Mat) + (length Mat - k))"
    if "expand_inv Mat0 m Limit dn d ds t" "expand_body Limit d t = Continue t'" for t t'
    using expand_body_inv[OF _ d ds, of Mat0 Limit dn _ _ _ _ _] that by (cases t; cases t') fastforce
  show "expand_exit Mat0 m Limit dn d ds r" if "expand_inv Mat0 m Limit dn d ds t" "expand_body Limit d t = Break r" for t r
    using expand_body_inv[OF _ d ds, of Mat0 Limit dn _ _ _ _ _] that by (cases t) fastforce
qed

text \<open>Between the map entries.\<close>

definition table_inv ::
  "EFI_MEMORY_DESCRIPTOR list \<Rightarrow> EFI_MEMORY_DESCRIPTOR list \<Rightarrow> nat \<Rightarrow> EFI_MEMORY_DESCRIPTOR list \<Rightarrow> EFI_MEMORY_DESCRIPTOR list \<Rightarrow>
   MEMORY_STATUS \<times> nat \<times> nat \<times> EFI_MEMORY_DESCRIPTOR list \<Rightarrow> bool" where
  "table_inv Mat0 m Limit dn ds s \<longleftrightarrow> (case s of (Status, k, E, Mat) \<Rightarrow>
     mat_table_ok Mat0 m Limit Mat \<and> Status \<noteq> MM_OUT_OF_RESOURCES \<and> k \<le> length Mat \<and> (k < length Mat \<longrightarrow> E = k) \<and> described Mat dn \<and>
     (\<forall>a \<in> set (take k Mat). \<forall>d \<in> set ds. desc_end a \<le> unat (PhysicalStart d)) \<and>
     (\<forall>a \<in> set (drop k Mat). \<exists>d \<in> set ds. runtime_type (MemType d) \<and> within a d))"

lemma table_inv_enter:
  assumes "table_inv Mat0 m Limit dn (d # ds) (Status, k, E, Mat)" "proper d" "\<And>e. e \<in> set ds \<Longrightarrow> desc_end d \<le> unat (PhysicalStart e)"
  shows "expand_inv Mat0 m Limit dn d ds (Status, k, E, Mat, PhysicalStart d)"
proof -
  note i = assms(1)[unfolded table_inv_def prod.case]
  have "unat (PhysicalStart d) < desc_end d" using assms(2) by (auto intro: desc_end_gt simp: proper_def)
  moreover have "unat (PhysicalStart d) \<le> unat (PhysicalStart a) \<and> (within a d \<or> (\<exists>e \<in> set ds. runtime_type (MemType e) \<and> within a e))" if "a \<in> set (drop k Mat)" for a
    using i that assms(3) calculation by (fastforce simp: within_def)
  ultimately show ?thesis using i assms(2) unfolding expand_inv_def prod.case by (intro conjI) (simp_all add: proper_def)
qed

lemma table_inv_leave:
  assumes "expand_inv Mat0 m Limit dn d ds (Status, k, E, Mat, c)" "unat c = desc_end d" "proper d" "\<And>e. e \<in> set ds \<Longrightarrow> desc_end d \<le> unat (PhysicalStart e)"
  shows "table_inv Mat0 m Limit (dn @ [d]) ds (Status, k, E, Mat)"
proof -
  note i = assms(1)[unfolded expand_inv_def prod.case]
  have "\<exists>e \<in> set ds. runtime_type (MemType e) \<and> within a e" if a: "a \<in> set (drop k Mat)" for a
  proof -
    have "proper a" using aligned_proper[of Mat a] i a by (auto simp: mat_table_ok_def dest: in_set_dropD)
    then have "unat (PhysicalStart a) < desc_end a" by (auto intro: desc_end_gt simp: proper_def)
    moreover have "desc_end d \<le> unat (PhysicalStart a)" "within a d \<or> (\<exists>e \<in> set ds. runtime_type (MemType e) \<and> within a e)" using i a assms(2) by auto
    ultimately show ?thesis by (auto simp: within_def)
  qed
  moreover have "described Mat (dn @ [d])" using i assms(2) by (auto simp: described_def covers_def)
  moreover have "\<forall>a \<in> set (take k Mat). \<forall>e \<in> set ds. desc_end a \<le> unat (PhysicalStart e)" using i assms(2,4) by fastforce
  ultimately show ?thesis using i unfolding table_inv_def prod.case by (intro conjI) simp_all
qed

text \<open>The rest of a map entry behind the last entry of the table.\<close>

lemma table_inv_append:
  assumes inv: "expand_inv Mat0 m Limit dn d ds (Status, k, E, Mat, c)" and k: "k = length Mat" and c: "unat c < desc_end d"
    and d: "proper d" "d \<in> set m" "runtime_type (MemType d)" and ds: "\<And>e. e \<in> set ds \<Longrightarrow> desc_end d \<le> unat (PhysicalStart e)" and room: "length Mat < Limit"
  shows "table_inv Mat0 m Limit (dn @ [d]) ds (MM_SUCCESS, Suc k, E, Mat @ [new_attribute d c (LAST_DESCRIPTOR_ADDR d + 1)])"
proof -
  let ?e = "LAST_DESCRIPTOR_ADDR d + 1"
  let ?new = "new_attribute d c ?e"
  note i = inv[unfolded expand_inv_def prod.case]
  have ue: "unat ?e = desc_end d" using next_address[OF d(1)] .
  have al: "4096 dvd unat c" "4096 dvd unat ?e" using i desc_end_aligned[OF d(1)] ue by simp_all
  have ce: "c < ?e" using c ue by (simp add: word_less_nat_alt)
  note new = new_attribute_spec[OF al ce, of d]
  have t: "mat_table_ok Mat0 m Limit (Mat @ [?new])"
    using table_insert[of Mat0 m Limit Mat "[]", OF _ _ d(2,3) al ce] i room ue k by simp
  have "\<exists>a \<in> set (Mat @ [?new]). covers a x" if x: "covers d x" for x
  proof (cases "x < unat c")
    case True
    then have "\<exists>a \<in> set Mat. covers a x" using i x by (auto simp: covers_def)
    then show ?thesis by auto
  next
    case False
    then show ?thesis using x new(1) ue by (intro bexI[of _ ?new]) (auto simp: covers_def)
  qed
  moreover have "described (Mat @ [?new]) dn"
  proof (rule described_mono)
    show "described Mat dn" using i by simp
  qed auto
  ultimately have "described (Mat @ [?new]) (dn @ [d])" unfolding described_def by auto
  moreover have "desc_end a \<le> desc_end d" if a: "a \<in> set (Mat @ [?new])" for a
  proof -
    have "\<forall>b \<in> set Mat. desc_end b \<le> unat c" using i k by simp
    then show ?thesis using a new(1) ue c by auto
  qed
  ultimately show ?thesis using t k ds unfolding table_inv_def prod.case by (intro conjI) (auto intro: order_trans)
qed

definition expand_result ::
  "EFI_MEMORY_DESCRIPTOR list \<Rightarrow> EFI_MEMORY_DESCRIPTOR list \<Rightarrow> nat \<Rightarrow> EFI_MEMORY_DESCRIPTOR list \<Rightarrow> (MEMORY_STATUS \<times> EFI_MEMORY_DESCRIPTOR list) option \<Rightarrow> bool" where
  "expand_result Mat0 m Limit ds r \<longleftrightarrow> (\<exists>Status Mat. r = Some (Status, Mat) \<and> mat_table_ok Mat0 m Limit Mat \<and>
     (if Status = MM_OUT_OF_RESOURCES then length Mat = Limit else described Mat ds))"

lemma ExpandAttributes_loop_correct:
  assumes "table_inv Mat0 m Limit dn ds s" "aligned_map (dn @ ds)" "set (dn @ ds) \<subseteq> set m"
  shows "expand_result Mat0 m Limit (dn @ ds) (ExpandAttributes_loop Limit ds s)"
  using assms
proof (induction ds arbitrary: dn s)
  case Nil
  then show ?case by (cases s) (auto simp: table_inv_def expand_result_def)
next
  case (Cons d ds)
  obtain Status k E Mat where s: "s = (Status, k, E, Mat)" by (cases s)
  note inv = Cons.prems(1)[unfolded s]
  have d: "proper d" "d \<in> set m" using aligned_proper[OF Cons.prems(2), of d] Cons.prems(3) by auto
  have ds: "desc_end d \<le> unat (PhysicalStart e)" if "e \<in> set ds" for e
    using Cons.prems(2) that by (simp add: aligned_map_def good_map_def sorted_wrt_append)
  have al: "aligned_map ((dn @ [d]) @ ds)" "set ((dn @ [d]) @ ds) \<subseteq> set m" using Cons.prems(2,3) by simp_all
  show ?case
  proof (cases "runtime_type (MemType d)")
    case False
    have "table_inv Mat0 m Limit (dn @ [d]) ds s" using inv False unfolding s table_inv_def prod.case by (auto simp: described_def)
    then show ?thesis using Cons.IH[OF _ al] False by simp
  next
    case rt: True
    obtain ok St k' E' Mat' c where w: "iterate (expand_body Limit d) (Status, k, E, Mat, PhysicalStart d) = Some (ok, St, k', E', Mat', c)"
      "expand_exit Mat0 m Limit dn d ds (ok, St, k', E', Mat', c)"
      using expand_walk[OF table_inv_enter[OF inv d(1) ds] d rt ds] by (metis prod_cases6)
    show ?thesis
    proof (cases ok)
      case False
      then show ?thesis using w rt s by (auto simp: expand_exit_def expand_result_def)
    next
      case True
      then have i: "expand_inv Mat0 m Limit dn d ds (St, k', E', Mat', c)" "\<not> (k' < length Mat' \<and> unat c < desc_end d)" using w(2) by (auto simp: expand_exit_def)
      note ii = i(1)[unfolded expand_inv_def prod.case]
      have eq: "c = LAST_DESCRIPTOR_ADDR d + 1 \<longleftrightarrow> unat c = desc_end d" using next_address[OF d(1)] by (simp add: word_unat_eq_iff)
      show ?thesis
      proof (cases "unat c = desc_end d")
        case c: True
        have "table_inv Mat0 m Limit (dn @ [d]) ds (St, k', E', Mat')" by (rule table_inv_leave[OF i(1) c d(1) ds])
        then show ?thesis using Cons.IH[OF _ al] w(1) rt s True c eq by simp
      next
        case False
        then have lt: "unat c < desc_end d" "k' = length Mat'" using ii i(2) by auto
        show ?thesis
        proof (cases "length Mat' < Limit")
          case room: True
          note t = table_inv_append[OF i(1) lt(2,1) d rt ds room]
          show ?thesis using Cons.IH[OF t al] w(1) rt s True False eq room by (simp add: ExpandAttributeWrite_eq)
        next
          case full: False
          then have "mat_table_ok Mat0 m Limit Mat'" "length Mat' = Limit" using ii by (auto simp: mat_table_ok_def)
          then show ?thesis using w(1) rt s True False eq full by (simp add: ExpandAttributeWrite_eq expand_result_def)
        qed
      qed
    qed
  qed
qed

lemma OcExpandAttributesByMap_spec:
  assumes "aligned_map m" "aligned_map Mat" "length Mat \<le> Limit" "\<forall>a \<in> set Mat. runtime_type (MemType a) \<and> (\<exists>d \<in> set m. runtime_type (MemType d) \<and> within a d)"
  shows "\<exists>Status Mat'. OcExpandAttributesByMap Mat Limit m = Some (Status, Mat') \<and> mat_table_ok Mat m Limit Mat' \<and>
    (if Status = MM_OUT_OF_RESOURCES then length Mat' = Limit else described Mat' m)"
proof -
  have "table_inv Mat m Limit [] m (MM_NOT_FOUND, 0, 0, Mat)" using assms by (auto simp: table_inv_def mat_table_ok_def described_def)
  then have "expand_result Mat m Limit ([] @ m) (ExpandAttributes_loop Limit m (MM_NOT_FOUND, 0, 0, Mat))" using assms(1) by (intro ExpandAttributes_loop_correct) simp_all
  then show ?thesis unfolding OcExpandAttributesByMap_def expand_result_def append_Nil .
qed

subsection \<open>Rebuilding the table\<close>

text \<open>A table whose entries are equal or apart, and whose highest entry is there only once.\<close>

definition tidy :: "EFI_MEMORY_DESCRIPTOR list \<Rightarrow> bool" where
  "tidy m \<longleftrightarrow> (\<forall>a \<in> set m. proper a) \<and>
     (\<forall>a \<in> set m. \<forall>b \<in> set m. a = b \<or> desc_end a \<le> unat (PhysicalStart b) \<or> desc_end b \<le> unat (PhysicalStart a))"

definition single_top :: "EFI_MEMORY_DESCRIPTOR list \<Rightarrow> bool" where
  "single_top m \<longleftrightarrow> (\<forall>a \<in> set m. (\<forall>b \<in> set m. PhysicalStart b \<le> PhysicalStart a) \<longrightarrow> count (mset m) a = 1)"

lemma tidy_same: "tidy m \<Longrightarrow> a \<in> set m \<Longrightarrow> b \<in> set m \<Longrightarrow> PhysicalStart a = PhysicalStart b \<Longrightarrow> a = b"
  using desc_end_gt[of a] desc_end_gt[of b] unfolding tidy_def proper_def by (metis not_le)

lemma tidy_join: "tidy m \<Longrightarrow> p \<in> set m \<Longrightarrow> d \<in> set m \<Longrightarrow> duplicate_join p d = (if d = p then Some p else None)"
  using tidy_same[of m p d] by (auto simp: duplicate_join_def)

lemma tidy_tail: "tidy (p # d # ds) \<Longrightarrow> tidy (p # ds)" "tidy (p # d # ds) \<Longrightarrow> tidy (d # ds)"
  by (auto simp: tidy_def)

lemma joined_tidy:
  assumes "sorted (map PhysicalStart (p # ds))" "tidy (p # ds)"
  shows "set (joined duplicate_join p ds) = set (p # ds) \<and> sorted_wrt (\<lambda>d e. desc_end d \<le> unat (PhysicalStart e)) (joined duplicate_join p ds)"
  using assms
proof (induction ds arbitrary: p)
  case (Cons d ds)
  note join = tidy_join[OF Cons.prems(2), of p d]
  show ?case
  proof (cases "d = p")
    case True
    then show ?thesis using Cons.IH[of p] Cons.prems tidy_tail(1)[OF Cons.prems(2)] join by auto
  next
    case False
    have IH: "set (joined duplicate_join d ds) = set (d # ds)" "sorted_wrt (\<lambda>d e. desc_end d \<le> unat (PhysicalStart e)) (joined duplicate_join d ds)"
      using Cons.IH[of d] Cons.prems(1) tidy_tail(2)[OF Cons.prems(2)] by simp_all
    have "PhysicalStart p \<le> PhysicalStart d" "proper p" "proper d" using Cons.prems by (auto simp: tidy_def)
    moreover have "desc_end p \<le> unat (PhysicalStart d) \<or> desc_end d \<le> unat (PhysicalStart p)" using Cons.prems(2) False by (auto simp: tidy_def)
    ultimately have pd: "desc_end p \<le> unat (PhysicalStart d)" using desc_end_gt[of d] by (auto simp: word_le_nat_alt proper_def)
    have "desc_end p \<le> unat (PhysicalStart e)" if "e \<in> set (d # ds)" for e
      using pd that Cons.prems(1) by (auto simp: word_le_nat_alt intro: order_trans)
    then show ?thesis using IH join False by auto
  qed
qed simp

lemma leftover_tidy:
  assumes "tidy (p # ds)" "ds = [] \<longrightarrow> x = None" "ds \<noteq> [] \<longrightarrow> last ds \<notin> set (butlast (p # ds))"
  shows "leftover duplicate_join p ds x = []"
  using assms
proof (induction ds arbitrary: p x)
  case (Cons d ds)
  note join = tidy_join[OF Cons.prems(1), of p d]
  show ?case
  proof (cases "d = p")
    case True
    then have "ds \<noteq> []" using Cons.prems(3) by auto
    then show ?thesis using Cons.IH[of p] tidy_tail(1)[OF Cons.prems(1)] Cons.prems(3) join True by auto
  next
    case False
    then show ?thesis using Cons.IH[of d None] tidy_tail(2)[OF Cons.prems(1)] Cons.prems(3) join by (auto split: if_splits)
  qed
qed simp

lemma OcDeduplicateDescriptors_tidy:
  assumes "sorted (map PhysicalStart m)" "tidy m" "m \<noteq> []" "last m \<notin> set (butlast m)"
  shows "\<exists>D. OcDeduplicateDescriptors m = (if distinct m then MM_NOT_FOUND else MM_SUCCESS, D) \<and> set D = set m \<and> aligned_map D \<and> length D \<le> length m"
proof -
  obtain p ds where m: "m = p # ds" using assms(3) by (cases m) auto
  let ?J = "joined duplicate_join p ds"
  have J: "set ?J = set m" "sorted_wrt (\<lambda>d e. desc_end d \<le> unat (PhysicalStart e)) ?J" using joined_tidy[of p ds] assms(1,2) by (simp_all add: m)
  have L: "leftover duplicate_join p ds None = []" using leftover_tidy[of p ds None] assms(2,4) by (simp add: m split: if_splits)
  have proper: "\<And>d. d \<in> set ?J \<Longrightarrow> proper d" using assms(2) J(1) by (auto simp: tidy_def)
  then have al: "aligned_map ?J" using J(2) by (simp add: aligned_map_def good_map_def proper_def list.pred_set)
  have "sorted_wrt (<) (map PhysicalStart ?J)"
    unfolding sorted_wrt_map using J(2) by (rule sorted_wrt_mono_rel[rotated]) (use proper desc_end_gt in \<open>force simp: word_less_nat_alt proper_def\<close>)
  then have "distinct ?J" by (simp add: strict_sorted_iff distinct_map)
  then have "length ?J = card (set m)" using J(1) distinct_card by metis
  then have d: "length ?J < length m \<longleftrightarrow> \<not> distinct m" "length ?J \<le> length m" using card_length[of m] card_distinct[of m] distinct_card[of m] by (auto simp: le_less)
  show ?thesis
  proof (cases ds)
    case Nil
    then show ?thesis using al J(1) by (intro exI[of _ m]) (simp add: OcDeduplicateDescriptors_def m)
  next
    case (Cons e es)
    have "joined_map duplicate_join m = (length ?J < length m, ?J)" using joined_map_correct[of duplicate_join p ds] L by (simp add: m)
    then show ?thesis using al J(1) d Cons by (intro exI[of _ ?J]) (auto simp: OcDeduplicateDescriptors_def m)
  qed
qed

lemma AREA_covers: "proper d \<Longrightarrow> AREA_WITHIN_DESCRIPTOR d Address 1 \<longleftrightarrow> covers d (unat Address)"
  using LAST_DESCRIPTOR_ADDR_proper[of d] desc_end_gt[of d] by (auto simp: AREA_WITHIN_DESCRIPTOR_def covers_def word_le_nat_alt proper_def)

lemma OcUpdateDescriptors_aligned:
  assumes "aligned_map T"
  shows "OcUpdateDescriptors T Address Ty S D =
    (if \<exists>d \<in> set T. covers d (unat Address) then MM_SUCCESS else MM_NOT_FOUND,
     map (\<lambda>d. if covers d (unat Address) then d\<lparr>MemType := Ty, Attribute := (Attribute d OR S) AND NOT D\<rparr> else d) T)"
  using assms
proof (induction T)
  case (Cons d T)
  have d: "proper d" using aligned_proper[OF Cons.prems] by simp
  have T: "aligned_map T" using Cons.prems by (simp add: aligned_map_def good_map_def)
  show ?case
  proof (cases "covers d (unat Address)")
    case True
    have "\<not> covers e (unat Address)" if "e \<in> set T" for e using Cons.prems that True by (auto simp: aligned_map_def good_map_def covers_def)
    then have "map (\<lambda>d. if covers d (unat Address) then d\<lparr>MemType := Ty, Attribute := (Attribute d OR S) AND NOT D\<rparr> else d) T = T" by (intro map_idI) simp
    then show ?thesis using True AREA_covers[OF d, of Address] by simp
  next
    case False
    then show ?thesis using Cons.IH[OF T] AREA_covers[OF d, of Address] by simp
  qed
qed simp

lemma sorted_single_top:
  assumes "single_top m" "m \<noteq> []" "S = OcSortMemoryMap m"
  shows "S \<noteq> [] \<and> last S \<notin> set (butlast S)"
proof -
  have S: "sorted (map PhysicalStart S)" "mset S = mset m" using OcSortMemoryMap_spec[of m] assms(3) by simp_all
  then have ne: "S \<noteq> []" "set S = set m" using assms(2) by (auto dest: mset_eq_setD)
  then have split: "S = butlast S @ [last S]" by simp
  have "PhysicalStart b \<le> PhysicalStart (last S)" if "b \<in> set m" for b
  proof -
    have "sorted (map PhysicalStart (butlast S @ [last S]))" using S(1) split by simp
    moreover have "b \<in> set (butlast S @ [last S])" using that ne(2) split by simp
    ultimately show ?thesis by (auto simp: sorted_append)
  qed
  then have "count (mset S) (last S) = 1" using assms(1) ne S(2) last_in_set[OF ne(1)] by (simp add: single_top_def)
  then have "count (mset (butlast S @ [last S])) (last S) = 1" using split by simp
  then have "count (mset (butlast S)) (last S) = 0" by simp
  then have "last S \<notin> set (butlast S)" by (metis count_eq_zero_iff set_mset_mset)
  with ne show ?thesis by simp
qed

text \<open>
  C35: \<open>OcRebuildAttributes\<close> removes the duplicates of a table, adds what is missing, and makes the entry with the given address executable. For a table whose entries are equal or apart and inside
  runtime entries of the memory map, and whose highest entry is not duplicated (otherwise the code's assertion fails), the new table has all entries of the old one, is sorted and has no overlaps; it has
  no more entries than the firmware made room for, and if there were duplicates it describes all runtime memory or is full. The function succeeds exactly when an entry contains the address, and changes
  just this one.
\<close>

theorem OcRebuildAttributes_correct:
  assumes "Mat \<noteq> []" "tidy Mat" "single_top Mat" "aligned_map (OcSortMemoryMap m)" "Address \<noteq> 0"
    and runtime: "\<forall>a \<in> set Mat. runtime_type (MemType a) \<and> (\<exists>d \<in> set m. runtime_type (MemType d) \<and> within a d)"
  shows "\<exists>T. mat_table_ok Mat m (length Mat) T \<and> (if distinct Mat then set T = set Mat else described T m \<or> length T = length Mat) \<and>
    OcRebuildAttributes (Some Mat) Address (Inr m) =
      Some (if \<exists>d \<in> set T. covers d (unat Address) then MM_SUCCESS else MM_NOT_FOUND,
        map (\<lambda>d. if covers d (unat Address) then d\<lparr>MemType := EfiRuntimeServicesCode, Attribute := (Attribute d OR EFI_MEMORY_RO) AND NOT EFI_MEMORY_XP\<rparr> else d) T)"
proof -
  define S where "S = OcSortMemoryMap Mat"
  have S: "sorted (map PhysicalStart S)" "mset S = mset Mat" using OcSortMemoryMap_spec[of Mat] by (simp_all add: S_def)
  have eq: "set S = set Mat" "length S = length Mat" "distinct S = distinct Mat" "set (OcSortMemoryMap m) = set m"
    using S(2) OcSortMemoryMap_spec[of m] by (auto dest: mset_eq_setD mset_eq_length mset_eq_imp_distinct_iff)
  have tidy: "tidy S" using assms(2) by (simp add: tidy_def eq(1))
  note top = sorted_single_top[OF assms(3,1) S_def]
  obtain D where D: "OcDeduplicateDescriptors S = (if distinct Mat then MM_NOT_FOUND else MM_SUCCESS, D)" "set D = set Mat" "aligned_map D" "length D \<le> length Mat"
    using OcDeduplicateDescriptors_tidy[OF S(1) tidy] top eq by auto
  have D0: "mat_table_ok Mat m (length Mat) D" using D(2-4) runtime by (simp add: mat_table_ok_def)
  obtain Status E where E: "OcExpandAttributesByMap D (length Mat) (OcSortMemoryMap m) = Some (Status, E)" "mat_table_ok D (OcSortMemoryMap m) (length Mat) E"
    "if Status = MM_OUT_OF_RESOURCES then length E = length Mat else described E (OcSortMemoryMap m)"
    using OcExpandAttributesByMap_spec[OF assms(4) D(3,4)] runtime unfolding D(2) eq(4) by blast
  have E': "mat_table_ok Mat m (length Mat) E" "described E m \<or> length E = length Mat"
    using E(2,3) unfolding mat_table_ok_def made_for_def described_def D(2) eq(4) by (auto split: if_splits)
  have run: "OcRebuildAttributes (Some Mat) Address (Inr m) =
      Some (OcUpdateDescriptors (if distinct Mat then D else E) Address EfiRuntimeServicesCode EFI_MEMORY_RO EFI_MEMORY_XP)"
    using assms(1,5) D(1) E(1) eq(2) by (simp add: OcRebuildAttributes_def Let_def S_def[symmetric])
  have al: "aligned_map (if distinct Mat then D else E)" using D(3) E'(1) by (simp add: mat_table_ok_def)
  show ?thesis
    using D0 E' D(2) run[unfolded OcUpdateDescriptors_aligned[OF al]] by (intro exI[of _ "if distinct Mat then D else E"]) simp
qed

definition duplicate_attributes :: "EFI_MEMORY_DESCRIPTOR list" where
  "duplicate_attributes = [entry EfiRuntimeServicesCode 0x4000 1, entry EfiRuntimeServicesCode 0x1000 1, entry EfiRuntimeServicesCode 0x1000 1]"

theorem OcRebuildAttributes_correct_witness:
  "\<exists>T. mat_table_ok duplicate_attributes sample_memory_map 3 T \<and>
    OcRebuildAttributes (Some duplicate_attributes) 0x2000 (Inr sample_memory_map) =
      Some (if \<exists>d \<in> set T. covers d 0x2000 then MM_SUCCESS else MM_NOT_FOUND,
        map (\<lambda>d. if covers d 0x2000 then d\<lparr>MemType := EfiRuntimeServicesCode, Attribute := (Attribute d OR EFI_MEMORY_RO) AND NOT EFI_MEMORY_XP\<rparr> else d) T)"
proof -
  have a: "duplicate_attributes \<noteq> []" "tidy duplicate_attributes" "single_top duplicate_attributes"
    by (auto simp: duplicate_attributes_def tidy_def single_top_def proper_def entry_def desc_end_def)
  have s: "OcSortMemoryMap sample_memory_map = sample_memory_map" by code_simp
  have m: "aligned_map (OcSortMemoryMap sample_memory_map)" unfolding s by (simp add: aligned_map_def good_map_def sample_memory_map_def entry_def desc_end_def)
  have r: "\<forall>a \<in> set duplicate_attributes. runtime_type (MemType a) \<and> (\<exists>d \<in> set sample_memory_map. runtime_type (MemType d) \<and> within a d)"
    by (simp add: sample_memory_map_def duplicate_attributes_def entry_def runtime_type_def within_def desc_end_def)
  have l: "length duplicate_attributes = 3" "unat (0x2000 :: u64) = 0x2000" by (simp_all add: duplicate_attributes_def)
  have z: "(0x2000 :: u64) \<noteq> 0" by simp
  show ?thesis using OcRebuildAttributes_correct[OF a m z r, unfolded l] by blast
qed

text \<open>
  C34: \<open>OcExpandAttributesByMap\<close> completes a table that is sorted and whose entries are each inside a runtime entry of the map: all old entries stay, the new ones lie inside runtime
  entries of the map and have their type, the table stays sorted and within its limit, and unless it is full every runtime address of the map is described by it.
\<close>

theorem OcExpandAttributesByMap_correct:
  assumes "aligned_map m" "aligned_map Mat" "length Mat \<le> Limit" "\<forall>a \<in> set Mat. runtime_type (MemType a) \<and> (\<exists>d \<in> set m. runtime_type (MemType d) \<and> within a d)"
  shows "\<exists>Status Mat'. OcExpandAttributesByMap Mat Limit m = Some (Status, Mat') \<and> mat_table_ok Mat m Limit Mat' \<and>
    (if Status = MM_OUT_OF_RESOURCES then length Mat' = Limit else described Mat' m)"
  by (rule OcExpandAttributesByMap_spec[OF assms])

theorem OcExpandAttributesByMap_correct_witness:
  "\<exists>Mat'. OcExpandAttributesByMap sample_attributes 3 sample_memory_map = Some (MM_SUCCESS, Mat') \<and> described Mat' sample_memory_map \<and> length Mat' = 3"
proof -
  have a: "aligned_map sample_memory_map" by (simp add: aligned_map_def good_map_def sample_memory_map_def entry_def desc_end_def)
  have b: "aligned_map sample_attributes" by (simp add: aligned_map_def good_map_def sample_attributes_def entry_def desc_end_def)
  have c: "\<forall>a \<in> set sample_attributes. runtime_type (MemType a) \<and> (\<exists>d \<in> set sample_memory_map. runtime_type (MemType d) \<and> within a d)"
    by (simp add: sample_memory_map_def sample_attributes_def entry_def runtime_type_def within_def desc_end_def)
  have l: "length sample_attributes \<le> 3" by (simp add: sample_attributes_def)
  have r: "map_option (\<lambda>(st, M). (st, length M)) (OcExpandAttributesByMap sample_attributes 3 sample_memory_map) = Some (MM_SUCCESS, 3)" by code_simp
  show ?thesis using OcExpandAttributesByMap_correct[OF a b l c] r by (auto split: if_split_asm)
qed

text \<open>
  The duplicate that \<open>OcDeduplicateDescriptors\<close> leaves at the end makes \<open>OcRebuildAttributes\<close> write a wrong entry: a table with three copies of one page of a runtime entry gets
  an entry of \<open>2^52 - 1\<close> pages, and the rest of the entry is not described.
\<close>

theorem OcRebuildAttributes_duplicates:
  "map_option (map (\<lambda>d. (PhysicalStart d, NumberOfPages d)) \<circ> snd)
     (OcRebuildAttributes (Some [entry EfiRuntimeServicesCode 0x1000 1, entry EfiRuntimeServicesCode 0x1000 1, entry EfiRuntimeServicesCode 0x1000 1]) 0
       (Inr [entry EfiRuntimeServicesCode 0x1000 4])) = Some [(0x1000, 1), (0x2000, 0xFFFFFFFFFFFFF), (0x1000, 1)]"
  by code_simp

text \<open>
  \<open>OcDescToMemoryType\<close> knows its fifteen names, and for any other name it compares with a null pointer, because the table has one slot more than initialisers.
\<close>

theorem OcDescToMemoryType_unknown:
  "OcDescToMemoryType (Some s) =
     (case find (\<lambda>(Name, Ty). Name = Some s) (take 15 OcMemoryTypeString) of None \<Rightarrow> None | Some (Name, Ty) \<Rightarrow> Some (MM_SUCCESS, Some Ty))"
  by (simp add: OcDescToMemoryType_def OcMemoryTypeString_def OC_MEMORY_TYPE_DESC_COUNT_def)

end
