(* ===== verification/Oc_KeyMap.thy ===== *)
theory Oc_KeyMap
  imports Oc_Prelude
begin

unbundle bit_operations_syntax

text \<open>
  Model of \<^verbatim>\<open>Library/OcAppleKeyMapLib\<close> (\<^verbatim>\<open>OcAppleKeyMapLib.c\<close>, \<^verbatim>\<open>UpDownDetection.c\<close>): the database of pressed keys, to which keyboard drivers report their key sets, the aggregator
  that combines them, and the detection of keys that go up, go down or repeat. A status is its number, because one function returns \<^verbatim>\<open>FALSE\<close> for a status. An access outside a buffer or
  through a null pointer is the value \<open>None\<close>.
\<close>

section \<open>Data\<close>

type_synonym key_code = u16

definition RETURN_SUCCESS :: u64 where "RETURN_SUCCESS = 0"
definition RETURN_UNSUPPORTED :: u64 where "RETURN_UNSUPPORTED = 0x8000000000000003"
definition RETURN_BUFFER_TOO_SMALL :: u64 where "RETURN_BUFFER_TOO_SMALL = 0x8000000000000005"
definition RETURN_OUT_OF_RESOURCES :: u64 where "RETURN_OUT_OF_RESOURCES = 0x8000000000000009"
definition RETURN_NOT_FOUND :: u64 where "RETURN_NOT_FOUND = 0x800000000000000E"
definition RETURN_FALSE :: u64 where "RETURN_FALSE = 0"

definition EFI_ERROR :: "u64 \<Rightarrow> bool" where "EFI_ERROR Status \<longleftrightarrow> bit Status 63"

record APPLE_KEY_STROKES_INFO =
  SetIndex :: nat
  SetBufferLength :: u64
  NumberOfKeyCodes :: u64
  Modifiers :: u16
  KeyCodes :: "key_code list"

record KEY_MAP_AGGREGATOR_DATA =
  NextKeyStrokeIndex :: nat
  KeyCodeBuffer :: "key_code list option"
  KeyCodeBufferLength :: u64
  KeyStrokesInfoList :: "APPLE_KEY_STROKES_INFO list"

definition SIZE_OF_APPLE_KEY_STROKES_INFO :: u64 where "SIZE_OF_APPLE_KEY_STROKES_INFO = 50"

text \<open>The data of \<open>OcAppleKeyMapInstallProtocols\<close>.\<close>

definition KeyMap_init :: KEY_MAP_AGGREGATOR_DATA where
  "KeyMap_init = \<lparr>NextKeyStrokeIndex = 3000, KeyCodeBuffer = None, KeyCodeBufferLength = 0, KeyStrokesInfoList = []\<rparr>"

section \<open>The database\<close>

text \<open>The entry with the given index is the first one in the list.\<close>

definition InternalGetKeyStrokesByIndex :: "KEY_MAP_AGGREGATOR_DATA \<Rightarrow> nat \<Rightarrow> APPLE_KEY_STROKES_INFO option" where
  "InternalGetKeyStrokesByIndex d i = find (\<lambda>e. SetIndex e = i) (KeyStrokesInfoList d)"

text \<open>\<open>Alloc1\<close> and \<open>Alloc2\<close> tell whether the allocations succeed. A buffer of \<open>n\<close> bytes holds \<open>n div 2\<close> key codes. The result has the index of the new set.\<close>

definition InternalCreateKeyStrokesBuffer :: "bool \<Rightarrow> bool \<Rightarrow> u64 \<Rightarrow> KEY_MAP_AGGREGATOR_DATA \<Rightarrow> u64 \<times> nat option \<times> KEY_MAP_AGGREGATOR_DATA" where
  "InternalCreateKeyStrokesBuffer Alloc1 Alloc2 BufferLength d =
     (let TotalBufferLength = KeyCodeBufferLength d + BufferLength;
          d = d\<lparr>KeyCodeBufferLength := TotalBufferLength,
                KeyCodeBuffer := (if Alloc1 then Some (replicate (unat (TotalBufferLength * 2) div 2) 0) else None)\<rparr>
      in if \<not> Alloc1 \<or> \<not> Alloc2 then (RETURN_OUT_OF_RESOURCES, None, d)
         else
           (let InfoSize = SIZE_OF_APPLE_KEY_STROKES_INFO + BufferLength * 2;
                KeyStrokesInfo = \<lparr>SetIndex = NextKeyStrokeIndex d, SetBufferLength = BufferLength, NumberOfKeyCodes = 0, Modifiers = 0,
                  KeyCodes = replicate ((unat InfoSize - unat SIZE_OF_APPLE_KEY_STROKES_INFO) div 2) 0\<rparr>
            in (RETURN_SUCCESS, Some (NextKeyStrokeIndex d),
                d\<lparr>NextKeyStrokeIndex := NextKeyStrokeIndex d + 1, KeyStrokesInfoList := KeyStrokesInfoList d @ [KeyStrokesInfo]\<rparr>)))"

text \<open>\<open>RemoveEntryList\<close> removes the entry that was found.\<close>

fun remove_set :: "nat \<Rightarrow> APPLE_KEY_STROKES_INFO list \<Rightarrow> APPLE_KEY_STROKES_INFO list" where
  "remove_set i [] = []"
| "remove_set i (e # es) = (if SetIndex e = i then es else e # remove_set i es)"

definition InternalRemoveKeyStrokesBuffer :: "nat \<Rightarrow> KEY_MAP_AGGREGATOR_DATA \<Rightarrow> u64 \<times> KEY_MAP_AGGREGATOR_DATA" where
  "InternalRemoveKeyStrokesBuffer i d =
     (case InternalGetKeyStrokesByIndex d i of
        None \<Rightarrow> (RETURN_NOT_FOUND, d)
      | Some e \<Rightarrow>
          (RETURN_SUCCESS, d\<lparr>KeyCodeBufferLength := KeyCodeBufferLength d - SetBufferLength e, KeyStrokesInfoList := remove_set i (KeyStrokesInfoList d)\<rparr>))"

fun update_set :: "nat \<Rightarrow> APPLE_KEY_STROKES_INFO \<Rightarrow> APPLE_KEY_STROKES_INFO list \<Rightarrow> APPLE_KEY_STROKES_INFO list" where
  "update_set i v [] = []"
| "update_set i v (e # es) = (if SetIndex e = i then v # es else e # update_set i v es)"

text \<open>\<open>Keys\<close> is the array of the caller; \<open>None\<close> is a copy that leaves it or the set.\<close>

definition InternalSetKeyStrokeBufferKeys :: "nat \<Rightarrow> u16 \<Rightarrow> u64 \<Rightarrow> key_code list \<Rightarrow> KEY_MAP_AGGREGATOR_DATA \<Rightarrow> (u64 \<times> KEY_MAP_AGGREGATOR_DATA) option" where
  "InternalSetKeyStrokeBufferKeys i Mods Number Keys d =
     (case InternalGetKeyStrokesByIndex d i of
        None \<Rightarrow> Some (RETURN_NOT_FOUND, d)
      | Some e \<Rightarrow>
          if SetBufferLength e \<ge> Number
          then
            if unat Number \<le> length Keys \<and> unat Number \<le> length (KeyCodes e)
            then Some (RETURN_SUCCESS, d\<lparr>KeyStrokesInfoList :=
              update_set i (e\<lparr>NumberOfKeyCodes := Number, Modifiers := Mods, KeyCodes := overwrite (KeyCodes e) 0 (take (unat Number) Keys)\<rparr>) (KeyStrokesInfoList d)\<rparr>)
            else None
          else Some (RETURN_OUT_OF_RESOURCES, d))"

section \<open>The aggregator\<close>

text \<open>One key of a set: it is looked up among the first \<open>n\<close> entries of the buffer and added behind them.\<close>

definition add_key :: "key_code \<Rightarrow> key_code list option \<times> nat \<Rightarrow> (key_code list option \<times> nat) option" where
  "add_key Key = (\<lambda>(Buffer, n).
     case Buffer of
       None \<Rightarrow> None
     | Some b \<Rightarrow> if Key \<in> set (take n b) then Some (Some b, n) else do { b \<leftarrow> wr b n Key; Some (Some b, n + 1) })"

definition add_set :: "APPLE_KEY_STROKES_INFO \<Rightarrow> u16 \<times> key_code list option \<times> nat \<Rightarrow> (u16 \<times> key_code list option \<times> nat) option" where
  "add_set e = (\<lambda>(DbModifiers, Buffer, n).
     do {
       (Buffer, n) \<leftarrow> fold_checked (\<lambda>i s. do { Key \<leftarrow> rd (KeyCodes e) i; add_key Key s }) [0..<unat (NumberOfKeyCodes e)] (Buffer, n);
       Some (DbModifiers OR Modifiers e, Buffer, n)
     })"

text \<open>The results are the status, \<open>Modifiers\<close>, \<open>NumberOfKeyCodes\<close> and the buffer of the caller, and the database.\<close>

definition InternalGetKeyStrokes ::
  "u16 \<Rightarrow> nat \<Rightarrow> key_code list option \<Rightarrow> KEY_MAP_AGGREGATOR_DATA \<Rightarrow> (u64 \<times> u16 \<times> nat \<times> key_code list option \<times> KEY_MAP_AGGREGATOR_DATA) option" where
  "InternalGetKeyStrokes Mods Number Keys d =
     do {
       (DbModifiers, Buffer, n) \<leftarrow> fold_checked add_set (KeyStrokesInfoList d) (0, KeyCodeBuffer d, 0);
       let d = d\<lparr>KeyCodeBuffer := Buffer\<rparr>;
       if n > Number then Some (RETURN_BUFFER_TOO_SMALL, Mods, n, Keys, d)
       else
         (case (Keys, Buffer) of
            (None, _) \<Rightarrow> Some (RETURN_SUCCESS, DbModifiers, n, None, d)
          | (Some ks, None) \<Rightarrow> if n = 0 then Some (RETURN_SUCCESS, DbModifiers, n, Keys, d) else None
          | (Some ks, Some b) \<Rightarrow>
              if n \<le> length ks then Some (RETURN_SUCCESS, DbModifiers, n, Some (overwrite ks 0 (take n b)), d) else None)
     }"

definition OcKeyMapHasKeys :: "key_code list \<Rightarrow> key_code list \<Rightarrow> bool \<Rightarrow> bool" where
  "OcKeyMapHasKeys Keys CheckKeys ExactMatch \<longleftrightarrow>
     (if ExactMatch \<and> length Keys \<noteq> length CheckKeys then False else list_all (\<lambda>c. list_ex (\<lambda>k. c = k) Keys) CheckKeys)"

definition OcKeyMapHasKey :: "key_code list \<Rightarrow> key_code \<Rightarrow> bool" where
  "OcKeyMapHasKey Keys KeyCode = OcKeyMapHasKeys Keys [KeyCode] False"

definition InternalContainsKeyStrokes :: "u16 \<Rightarrow> key_code list \<Rightarrow> bool \<Rightarrow> KEY_MAP_AGGREGATOR_DATA \<Rightarrow> (u64 \<times> KEY_MAP_AGGREGATOR_DATA) option" where
  "InternalContainsKeyStrokes Mods Keys ExactMatch d =
     do {
       (Status, DbModifiers, DbNumberOfKeyCodes, DbKeyCodes, d) \<leftarrow> InternalGetKeyStrokes 0 8 (Some (replicate 8 0)) d;
       if EFI_ERROR Status then Some (Status, d)
       else if ExactMatch \<and> DbModifiers \<noteq> Mods then Some (RETURN_FALSE, d)
       else if \<not> ExactMatch \<and> DbModifiers AND Mods \<noteq> Mods then Some (RETURN_FALSE, d)
       else if \<not> OcKeyMapHasKeys (take DbNumberOfKeyCodes (case DbKeyCodes of None \<Rightarrow> [] | Some ks \<Rightarrow> ks)) Keys ExactMatch then Some (RETURN_NOT_FOUND, d)
       else Some (RETURN_SUCCESS, d)
     }"

text \<open>The loop of \<open>OcKeyMapFlush\<close>: \<open>Poll n\<close> is what \<open>GetKeyStrokes\<close> returns at the \<open>n\<close>th call (status, modifiers, keys). The result is the number of the last call.\<close>

definition flush_body :: "(nat \<Rightarrow> u64 \<times> u16 \<times> key_code list) \<Rightarrow> key_code \<Rightarrow> nat \<Rightarrow> (nat, nat) ctl" where
  "flush_body Poll Key n =
     (case Poll n of (Status, Mods, Keys) \<Rightarrow>
        if EFI_ERROR Status then Break n
        else if Key \<noteq> 0 \<and> \<not> OcKeyMapHasKey Keys Key \<and> Mods = 0 then Break n
        else if Key = 0 \<and> Keys = [] \<and> Mods = 0 then Break n
        else Continue (n + 1))"

definition OcKeyMapFlush :: "(nat \<Rightarrow> u64 \<times> u16 \<times> key_code list) \<Rightarrow> key_code \<Rightarrow> nat option" where
  "OcKeyMapFlush Poll Key = iterate (flush_body Poll Key) 0"

section \<open>Keys going up and down\<close>

definition OC_KEY_MAP_DEFAULT_SIZE :: nat where "OC_KEY_MAP_DEFAULT_SIZE = 8"
definition OC_HELD_KEYS_DEFAULT_SIZE :: nat where "OC_HELD_KEYS_DEFAULT_SIZE = 8"

text \<open>Times are signed numbers of 64 bits; they are stored as words.\<close>

record OC_KEY_REPEAT_CONTEXT =
  InitialDelay :: u64
  SubsequentDelay :: u64
  PreviousTime :: u64
  KeysHeld :: "key_code list option"
  KeyHeldTimes :: "u64 list option"
  NumKeysHeld :: nat
  MaxKeysHeld :: nat

text \<open>A write to an array of the caller, or none when it is a null pointer.\<close>

definition put_key :: "key_code list option \<Rightarrow> nat \<Rightarrow> key_code \<Rightarrow> key_code list option option" where
  "put_key Array n Key = (case Array of None \<Rightarrow> Some None | Some a \<Rightarrow> map_option Some (wr a n Key))"

definition first_index :: "'a \<Rightarrow> 'a list \<Rightarrow> nat" where
  "first_index x xs = length (takeWhile (\<lambda>y. y \<noteq> x) xs)"

text \<open>The search of a pressed key among the held ones: the new time, the copy with the key marked, and the keys that are reported as down.\<close>

definition held_key ::
  "OC_KEY_REPEAT_CONTEXT \<Rightarrow> u64 \<Rightarrow> key_code \<Rightarrow> u64 list \<Rightarrow> key_code list \<times> nat \<times> key_code list option \<Rightarrow> (u64 \<times> key_code list \<times> nat \<times> key_code list option) option" where
  "held_key C DeltaTime Key TimesCopy = (\<lambda>(Copy, NumKeysDown, KeysDown).
     let i = first_index Key Copy
     in if i < length Copy
        then
          (let KeyTime = TimesCopy ! i + DeltaTime
           in if InitialDelay C \<noteq> 0 \<and> \<not> bit KeyTime 63
              then do { KeysDown \<leftarrow> put_key KeysDown NumKeysDown Key; Some (KeyTime - SubsequentDelay C, Copy[i := 0], NumKeysDown + 1, KeysDown) }
              else Some (KeyTime, Copy[i := 0], NumKeysDown, KeysDown))
        else do { KeysDown \<leftarrow> put_key KeysDown NumKeysDown Key; Some (- InitialDelay C, Copy, NumKeysDown + 1, KeysDown) })"

text \<open>The body of the loop over the pressed keys.\<close>

definition raw_key ::
  "u64 \<Rightarrow> u64 list \<Rightarrow> key_code \<Rightarrow> OC_KEY_REPEAT_CONTEXT \<times> key_code list \<times> nat \<times> key_code list option \<Rightarrow>
   (OC_KEY_REPEAT_CONTEXT \<times> key_code list \<times> nat \<times> key_code list option) option" where
  "raw_key DeltaTime TimesCopy Key = (\<lambda>(C, Copy, NumKeysDown, KeysDown).
     do {
       Held \<leftarrow> put_key (KeysHeld C) (NumKeysHeld C) Key;
       (KeyTime, Copy, NumKeysDown, KeysDown) \<leftarrow> held_key C DeltaTime Key TimesCopy (Copy, NumKeysDown, KeysDown);
       (case Held of
          None \<Rightarrow> Some (C, Copy, NumKeysDown, KeysDown)
        | Some h \<Rightarrow>
            do {
              t \<leftarrow> KeyHeldTimes C;
              t \<leftarrow> wr t (NumKeysHeld C) KeyTime;
              Some (C\<lparr>KeysHeld := Some h, KeyHeldTimes := Some t, NumKeysHeld := NumKeysHeld C + 1\<rparr>, Copy, NumKeysDown, KeysDown)
            })
     })"

text \<open>The body of the loop over the held keys that were not marked.\<close>

definition gone_key :: "key_code \<Rightarrow> nat \<times> key_code list option \<Rightarrow> (nat \<times> key_code list option) option" where
  "gone_key Key = (\<lambda>(NumKeysUp, KeysUp).
     if Key \<noteq> 0 then do { KeysUp \<leftarrow> put_key KeysUp NumKeysUp Key; Some (NumKeysUp + 1, KeysUp) } else Some (NumKeysUp, KeysUp))"

text \<open>\<open>Raw\<close> is the result of \<open>GetKeyStrokes\<close>: status, modifiers and pressed keys. The arrays of the caller are \<open>None\<close> for a null pointer. The result has the status, the context,
  and the new counts and arrays.\<close>

definition OcGetUpDownKeys ::
  "OC_KEY_REPEAT_CONTEXT \<Rightarrow> nat \<Rightarrow> key_code list option \<Rightarrow> nat \<Rightarrow> key_code list option \<Rightarrow> u64 \<Rightarrow> u64 \<times> u16 \<times> key_code list \<Rightarrow>
   (u64 \<times> OC_KEY_REPEAT_CONTEXT \<times> nat \<times> key_code list option \<times> nat \<times> key_code list option) option" where
  "OcGetUpDownKeys C NumKeysUp KeysUp NumKeysDown KeysDown CurrentTime Raw =
     (let DeltaTime = CurrentTime - PreviousTime C;
          C = C\<lparr>PreviousTime := CurrentTime\<rparr>;
          fail = (\<lambda>Status. Some (Status, C, NumKeysUp, KeysUp, NumKeysDown, KeysDown))
      in if KeysHeld C \<noteq> None \<and> KeysUp \<noteq> None \<and> MaxKeysHeld C > NumKeysUp then fail RETURN_UNSUPPORTED
         else if KeysHeld C \<noteq> None \<and> KeysDown \<noteq> None \<and> NumKeysDown > MaxKeysHeld C then fail RETURN_UNSUPPORTED
         else if KeysHeld C \<noteq> None \<and> MaxKeysHeld C > OC_HELD_KEYS_DEFAULT_SIZE then fail RETURN_UNSUPPORTED
         else do {
           (Copy, TimesCopy) \<leftarrow>
             (case KeysHeld C of
                None \<Rightarrow> Some ([], [])
              | Some h \<Rightarrow>
                  do {
                    t \<leftarrow> KeyHeldTimes C;
                    if NumKeysHeld C \<le> length h \<and> NumKeysHeld C \<le> length t \<and> NumKeysHeld C \<le> OC_HELD_KEYS_DEFAULT_SIZE
                    then Some (take (NumKeysHeld C) h, take (NumKeysHeld C) t) else None
                  });
           if NumKeysDown > OC_KEY_MAP_DEFAULT_SIZE then fail RETURN_UNSUPPORTED
           else
             (case Raw of (Status, Mods, RawKeys) \<Rightarrow>
                if EFI_ERROR Status then fail Status
                else if KeysDown \<noteq> None \<and> length RawKeys > NumKeysDown then fail RETURN_BUFFER_TOO_SMALL
                else do {
                  (C, Copy, NumKeysDown, KeysDown) \<leftarrow> fold_checked (raw_key DeltaTime TimesCopy) RawKeys (C\<lparr>NumKeysHeld := 0\<rparr>, Copy, 0, KeysDown);
                  (NumKeysUp, KeysUp) \<leftarrow> fold_checked gone_key Copy (0, KeysUp);
                  Some (Status, C, NumKeysUp, KeysUp, NumKeysDown, KeysDown)
                })
         })"

text \<open>\<open>Alloc0\<close> tells whether the context is allocated, \<open>Alloc1\<close> and \<open>Alloc2\<close> are the two arrays with whatever they contain, and \<open>Junk\<close> is what the field
  \<open>KeyHeldTimes\<close> of the new context contains. \<open>Raw\<close> is the result of \<open>GetKeyStrokes\<close>.\<close>

definition OcInitKeyRepeatContext ::
  "bool \<Rightarrow> key_code list option \<Rightarrow> u64 list option \<Rightarrow> u64 list option \<Rightarrow> nat \<Rightarrow> u64 \<Rightarrow> u64 \<Rightarrow> bool \<Rightarrow> u64 \<times> u16 \<times> key_code list \<Rightarrow>
   (u64 \<times> OC_KEY_REPEAT_CONTEXT option) option" where
  "OcInitKeyRepeatContext Alloc0 Alloc1 Alloc2 Junk Number Initial Subsequent PreventInitialRepeat Raw =
     (if \<not> Alloc0 then Some (RETURN_OUT_OF_RESOURCES, None)
      else if Number \<noteq> 0 \<and> (Alloc1 = None \<or> Alloc2 = None) then Some (RETURN_OUT_OF_RESOURCES, None)
      else
        (let C = \<lparr>InitialDelay = Initial, SubsequentDelay = Subsequent, PreviousTime = 0, KeysHeld = (if Number = 0 then None else Alloc1),
                  KeyHeldTimes = (if Number = 0 then Junk else Alloc2), NumKeysHeld = 0, MaxKeysHeld = Number\<rparr>
         in if Number = 0 \<or> \<not> PreventInitialRepeat then Some (RETURN_SUCCESS, Some C)
            else do {
              (Status, C, _) \<leftarrow> OcGetUpDownKeys C 0 None Number None 0x3FFFFFFFFFFFFFFF Raw;
              if EFI_ERROR Status then Some (Status, None) else Some (Status, Some C)
            }))"

section \<open>The aggregator is correct\<close>

definition keys_of :: "APPLE_KEY_STROKES_INFO \<Rightarrow> key_code list" where
  "keys_of e = take (unat (NumberOfKeyCodes e)) (KeyCodes e)"

text \<open>Keys in the order of their first occurrence.\<close>

definition add_new :: "key_code list \<Rightarrow> key_code list \<Rightarrow> key_code list" where
  "add_new = foldl (\<lambda>ks k. if k \<in> set ks then ks else ks @ [k])"

definition pressed_keys :: "KEY_MAP_AGGREGATOR_DATA \<Rightarrow> key_code list" where
  "pressed_keys d = add_new [] (concat (map keys_of (KeyStrokesInfoList d)))"

definition pressed_modifiers :: "KEY_MAP_AGGREGATOR_DATA \<Rightarrow> u16" where
  "pressed_modifiers d = foldl (OR) 0 (map Modifiers (KeyStrokesInfoList d))"

definition set_space :: "APPLE_KEY_STROKES_INFO list \<Rightarrow> nat" where
  "set_space es = sum_list (map (\<lambda>e. unat (SetBufferLength e)) es)"

lemma add_new_simps [simp]: "add_new ks [] = ks" "add_new ks (k # js) = add_new (if k \<in> set ks then ks else ks @ [k]) js" "add_new ks (js @ is) = add_new (add_new ks js) is"
  by (simp_all add: add_new_def)

lemma set_add_new [simp]: "set (add_new ks js) = set ks \<union> set js"
  by (induction js arbitrary: ks) auto

lemma distinct_add_new [simp]: "distinct ks \<Longrightarrow> distinct (add_new ks js)"
  by (induction js arbitrary: ks) auto

lemma length_add_new: "length (add_new ks js) \<le> length ks + length js"
proof (induction js arbitrary: ks)
  case (Cons j js)
  have "length (add_new (if j \<in> set ks then ks else ks @ [j]) js) \<le> length (if j \<in> set ks then ks else ks @ [j]) + length js" by (rule Cons.IH)
  then show ?case by (auto split: if_split_asm)
qed simp

lemma add_key_ok:
  assumes "n < length b"
  shows "\<exists>b' n'. add_key k (Some b, n) = Some (Some b', n') \<and> take n' b' = add_new (take n b) [k] \<and> length b' = length b \<and> n' \<le> Suc n"
proof (cases "k \<in> set (take n b)")
  case True
  then show ?thesis by (simp add: add_key_def)
next
  case False
  have "take (Suc n) (b[n := k]) = take n b @ [k]" using assms by (simp add: take_Suc_conv_app_nth)
  then show ?thesis using False assms by (auto simp: add_key_def)
qed

lemma add_keys_ok:
  assumes "n + length ks \<le> length b"
  shows "\<exists>b' n'. fold_checked add_key ks (Some b, n) = Some (Some b', n') \<and> take n' b' = add_new (take n b) ks \<and> length b' = length b \<and> n' \<le> n + length ks"
  using assms
proof (induction ks arbitrary: n b)
  case (Cons k ks)
  obtain b1 n1 where 1: "add_key k (Some b, n) = Some (Some b1, n1)" "take n1 b1 = add_new (take n b) [k]" "length b1 = length b" "n1 \<le> Suc n"
    using add_key_ok[of n b k] Cons.prems by auto
  obtain b2 n2 where "fold_checked add_key ks (Some b1, n1) = Some (Some b2, n2)" "take n2 b2 = add_new (take n1 b1) ks" "length b2 = length b1" "n2 \<le> n1 + length ks"
    using Cons.IH[of n1 b1] 1(3,4) Cons.prems by auto
  then show ?case using 1 by (auto simp: order_trans)
qed simp

definition set_ok :: "APPLE_KEY_STROKES_INFO \<Rightarrow> bool" where
  "set_ok e \<longleftrightarrow> NumberOfKeyCodes e \<le> SetBufferLength e \<and> length (KeyCodes e) = unat (SetBufferLength e)"

lemma set_ok_length: "set_ok e \<Longrightarrow> unat (NumberOfKeyCodes e) \<le> length (KeyCodes e) \<and> length (keys_of e) \<le> unat (SetBufferLength e)"
  by (simp add: set_ok_def keys_of_def word_le_nat_alt)

lemma add_set_ok:
  assumes "set_ok e" "n + unat (SetBufferLength e) \<le> length b"
  shows "\<exists>b' n'. add_set e (m, Some b, n) = Some (m OR Modifiers e, Some b', n') \<and> take n' b' = add_new (take n b) (keys_of e) \<and> length b' = length b \<and> n' \<le> n + unat (SetBufferLength e)"
proof -
  have l: "unat (NumberOfKeyCodes e) \<le> length (KeyCodes e)" "length (keys_of e) \<le> unat (SetBufferLength e)" using set_ok_length[OF assms(1)] by auto
  obtain b' n' where "fold_checked add_key (keys_of e) (Some b, n) = Some (Some b', n')" "take n' b' = add_new (take n b) (keys_of e)" "length b' = length b" "n' \<le> n + length (keys_of e)"
    using add_keys_ok[of n "keys_of e" b] l(2) assms(2) by auto
  then show ?thesis using l fold_checked_index[of "unat (NumberOfKeyCodes e)" "KeyCodes e" add_key "(Some b, n)"]
    by (auto simp: add_set_def keys_of_def)
qed

lemma add_sets_ok:
  assumes "list_all set_ok es" "n + set_space es \<le> length b"
  shows "\<exists>b' n'. fold_checked add_set es (m, Some b, n) = Some (foldl (OR) m (map Modifiers es), Some b', n') \<and> take n' b' = add_new (take n b) (concat (map keys_of es)) \<and>
    length b' = length b \<and> n' \<le> n + set_space es"
  using assms
proof (induction es arbitrary: m n b)
  case (Cons e es)
  have s: "n + unat (SetBufferLength e) + set_space es \<le> length b" using Cons.prems(2) by (simp add: set_space_def)
  obtain b1 n1 where 1: "add_set e (m, Some b, n) = Some (m OR Modifiers e, Some b1, n1)" "take n1 b1 = add_new (take n b) (keys_of e)" "length b1 = length b" "n1 \<le> n + unat (SetBufferLength e)"
    using add_set_ok[of e n b m] Cons.prems(1) s by auto
  obtain b2 n2 where "fold_checked add_set es (m OR Modifiers e, Some b1, n1) = Some (foldl (OR) (m OR Modifiers e) (map Modifiers es), Some b2, n2)"
    "take n2 b2 = add_new (take n1 b1) (concat (map keys_of es))" "length b2 = length b1" "n2 \<le> n1 + set_space es"
    using Cons.IH[of n1 b1 "m OR Modifiers e"] Cons.prems(1) 1(3,4) s by auto
  then show ?case using 1 s by (auto simp: set_space_def)
qed (simp add: set_space_def)

definition km_inv :: "KEY_MAP_AGGREGATOR_DATA \<Rightarrow> bool" where
  "km_inv d \<longleftrightarrow> distinct (map SetIndex (KeyStrokesInfoList d)) \<and> list_all (\<lambda>e. SetIndex e < NextKeyStrokeIndex d) (KeyStrokesInfoList d) \<and> list_all set_ok (KeyStrokesInfoList d) \<and>
     set_space (KeyStrokesInfoList d) \<le> unat (KeyCodeBufferLength d) \<and> unat (KeyCodeBufferLength d) < 2 ^ 62 \<and>
     (case KeyCodeBuffer d of None \<Rightarrow> KeyStrokesInfoList d = [] | Some b \<Rightarrow> set_space (KeyStrokesInfoList d) \<le> length b)"

text \<open>The database as a list of sets: index, modifiers and keys.\<close>

definition key_sets :: "KEY_MAP_AGGREGATOR_DATA \<Rightarrow> (nat \<times> u16 \<times> key_code list) list" where
  "key_sets d = map (\<lambda>e. (SetIndex e, Modifiers e, keys_of e)) (KeyStrokesInfoList d)"

lemma km_invD:
  assumes "km_inv d"
  shows "distinct (map SetIndex (KeyStrokesInfoList d))" "list_all (\<lambda>e. SetIndex e < NextKeyStrokeIndex d) (KeyStrokesInfoList d)" "list_all set_ok (KeyStrokesInfoList d)"
    "set_space (KeyStrokesInfoList d) \<le> unat (KeyCodeBufferLength d)" "unat (KeyCodeBufferLength d) < 2 ^ 62"
    "case KeyCodeBuffer d of None \<Rightarrow> KeyStrokesInfoList d = [] | Some b \<Rightarrow> set_space (KeyStrokesInfoList d) \<le> length b"
  using assms by (simp_all add: km_inv_def)

lemma GetKeyStrokes_collect:
  assumes "km_inv d"
  shows "\<exists>B n. fold_checked add_set (KeyStrokesInfoList d) (0, KeyCodeBuffer d, 0) = Some (pressed_modifiers d, B, n) \<and> n = length (pressed_keys d) \<and>
    (case B of None \<Rightarrow> n = 0 | Some b \<Rightarrow> take n b = pressed_keys d \<and> n \<le> length b) \<and> km_inv (d\<lparr>KeyCodeBuffer := B\<rparr>)"
proof (cases "KeyCodeBuffer d")
  case None
  then have "KeyStrokesInfoList d = []" using km_invD(6)[OF assms] by simp
  then show ?thesis using None assms by (auto simp: pressed_modifiers_def pressed_keys_def km_inv_def set_space_def)
next
  case (Some b)
  have s: "0 + set_space (KeyStrokesInfoList d) \<le> length b" using km_invD(6)[OF assms] Some by simp
  obtain b' n where b: "fold_checked add_set (KeyStrokesInfoList d) (0, Some b, 0) = Some (foldl (OR) 0 (map Modifiers (KeyStrokesInfoList d)), Some b', n)"
    "take n b' = add_new (take 0 b) (concat (map keys_of (KeyStrokesInfoList d)))" "length b' = length b" "n \<le> 0 + set_space (KeyStrokesInfoList d)"
    using add_sets_ok[OF km_invD(3)[OF assms] s, of 0] by blast
  then have t: "take n b' = pressed_keys d" "n \<le> length b'" using s by (simp_all add: pressed_keys_def)
  then have "n = length (pressed_keys d)" by (metis length_take min.absorb2)
  moreover have "km_inv (d\<lparr>KeyCodeBuffer := Some b'\<rparr>)" using assms Some b(3) by (simp add: km_inv_def)
  ultimately show ?thesis using b(1) t Some by (auto simp: pressed_modifiers_def)
qed

lemma InternalGetKeyStrokes_spec:
  assumes "km_inv d" "case Keys of None \<Rightarrow> True | Some ks \<Rightarrow> Number \<le> length ks"
  shows "\<exists>d'. InternalGetKeyStrokes Mods Number Keys d =
      Some (if length (pressed_keys d) \<le> Number
        then (RETURN_SUCCESS, pressed_modifiers d, length (pressed_keys d), map_option (\<lambda>ks. overwrite ks 0 (pressed_keys d)) Keys, d')
        else (RETURN_BUFFER_TOO_SMALL, Mods, length (pressed_keys d), Keys, d')) \<and>
    km_inv d' \<and> key_sets d' = key_sets d"
proof -
  obtain B n where c: "fold_checked add_set (KeyStrokesInfoList d) (0, KeyCodeBuffer d, 0) = Some (pressed_modifiers d, B, n)" "n = length (pressed_keys d)"
    "case B of None \<Rightarrow> n = 0 | Some b \<Rightarrow> take n b = pressed_keys d \<and> n \<le> length b" "km_inv (d\<lparr>KeyCodeBuffer := B\<rparr>)"
    using GetKeyStrokes_collect[OF assms(1)] by blast
  have k: "key_sets (d\<lparr>KeyCodeBuffer := B\<rparr>) = key_sets d" by (simp add: key_sets_def)
  show ?thesis
  proof (intro exI[of _ "d\<lparr>KeyCodeBuffer := B\<rparr>"] conjI)
    show "InternalGetKeyStrokes Mods Number Keys d =
      Some (if length (pressed_keys d) \<le> Number
        then (RETURN_SUCCESS, pressed_modifiers d, length (pressed_keys d), map_option (\<lambda>ks. overwrite ks 0 (pressed_keys d)) Keys, d\<lparr>KeyCodeBuffer := B\<rparr>)
        else (RETURN_BUFFER_TOO_SMALL, Mods, length (pressed_keys d), Keys, d\<lparr>KeyCodeBuffer := B\<rparr>))"
      using c(1-3) assms(2) by (cases B; cases Keys) (auto simp: InternalGetKeyStrokes_def)
  qed (use c(4) k in auto)
qed

subsection \<open>The operations of the database\<close>

lemma find_set:
  assumes "distinct (map SetIndex es)"
  shows "find (\<lambda>e. SetIndex e = i) es = Some e \<longleftrightarrow> e \<in> set es \<and> SetIndex e = i"
  using assms by (induction es) (auto simp: image_iff)

lemma remove_set_eq: "distinct (map SetIndex es) \<Longrightarrow> remove_set i es = filter (\<lambda>e. SetIndex e \<noteq> i) es"
  by (induction es) (auto simp: image_iff intro!: filter_True[symmetric])

lemma update_set_eq: "distinct (map SetIndex es) \<Longrightarrow> update_set i v es = map (\<lambda>e. if SetIndex e = i then v else e) es"
  by (induction es) (auto simp: image_iff intro!: map_idI[symmetric])

lemma set_space_remove:
  "distinct (map SetIndex es) \<Longrightarrow> e \<in> set es \<Longrightarrow> SetIndex e = i \<Longrightarrow> set_space (filter (\<lambda>e. SetIndex e \<noteq> i) es) + unat (SetBufferLength e) = set_space es"
proof (induction es)
  case (Cons a es)
  show ?case
  proof (cases "SetIndex a = i")
    case True
    have "filter (\<lambda>e. SetIndex e \<noteq> i) es = es" using Cons.prems(1) True by (auto simp: filter_id_conv image_iff)
    moreover have "a = e" using Cons.prems True by (auto simp: image_iff)
    ultimately show ?thesis using True by (simp add: set_space_def)
  next
    case False
    then show ?thesis using Cons by (auto simp: set_space_def)
  qed
qed simp

lemma create_spec:
  assumes "km_inv d" "unat (KeyCodeBufferLength d) + unat n < 2 ^ 62" "InternalCreateKeyStrokesBuffer True Alloc2 n d = (Status, i, d')"
  shows "km_inv d' \<and> (if Alloc2 then Status = RETURN_SUCCESS \<and> i = Some (NextKeyStrokeIndex d) \<and> key_sets d' = key_sets d @ [(NextKeyStrokeIndex d, 0, [])] \<and>
      NextKeyStrokeIndex d \<notin> fst ` set (key_sets d)
    else Status = RETURN_OUT_OF_RESOURCES \<and> key_sets d' = key_sets d)"
proof -
  note I = km_invD[OF assms(1)]
  let ?t = "KeyCodeBufferLength d + n"
  have n: "unat n < 2 ^ 62" using assms(2) by linarith
  have t: "unat ?t = unat (KeyCodeBufferLength d) + unat n" using assms(2) by (intro unat_plus_no_wrap) simp
  have t2: "unat (?t * 2) = 2 * unat ?t" using assms(2) t by (simp add: unat_word_ariths)
  have n2: "unat (SIZE_OF_APPLE_KEY_STROKES_INFO + n * 2) = 50 + 2 * unat n" using n by (simp add: unat_word_ariths SIZE_OF_APPLE_KEY_STROKES_INFO_def)
  have fresh: "NextKeyStrokeIndex d \<notin> SetIndex ` set (KeyStrokesInfoList d)" using I(2) by (auto simp: list.pred_set)
  have u50: "unat SIZE_OF_APPLE_KEY_STROKES_INFO = 50" by (simp add: SIZE_OF_APPLE_KEY_STROKES_INFO_def)
  show ?thesis
  proof (cases Alloc2)
    case True
    have e: "Status = RETURN_SUCCESS" "i = Some (NextKeyStrokeIndex d)"
      "d' = d\<lparr>KeyCodeBufferLength := ?t, KeyCodeBuffer := Some (replicate (unat (?t * 2) div 2) 0), NextKeyStrokeIndex := NextKeyStrokeIndex d + 1,
         KeyStrokesInfoList := KeyStrokesInfoList d @ [\<lparr>SetIndex = NextKeyStrokeIndex d, SetBufferLength = n, NumberOfKeyCodes = 0, Modifiers = 0,
           KeyCodes = replicate (unat n) 0\<rparr>]\<rparr>"
      using assms(3) True n2 u50 by (auto simp: InternalCreateKeyStrokesBuffer_def Let_def)
    have "km_inv d'" using I fresh assms(2) t t2
      by (auto simp: e(3) km_inv_def set_ok_def set_space_def list.pred_set less_Suc_eq)
    then show ?thesis using True e(1,2) fresh by (auto simp: e(3) key_sets_def keys_of_def)
  next
    case False
    have e: "Status = RETURN_OUT_OF_RESOURCES" "d' = d\<lparr>KeyCodeBufferLength := ?t, KeyCodeBuffer := Some (replicate (unat (?t * 2) div 2) 0)\<rparr>"
      using assms(3) False by (auto simp: InternalCreateKeyStrokesBuffer_def Let_def)
    have "km_inv d'" using I assms(2) t t2 by (auto simp: e(2) km_inv_def)
    then show ?thesis using False e(1) by (auto simp: e(2) key_sets_def)
  qed
qed

lemma remove_spec:
  assumes "km_inv d" "InternalRemoveKeyStrokesBuffer i d = (Status, d')"
  shows "km_inv d' \<and> key_sets d' = filter (\<lambda>(j, _). j \<noteq> i) (key_sets d) \<and> Status = (if i \<in> fst ` set (key_sets d) then RETURN_SUCCESS else RETURN_NOT_FOUND)"
proof -
  note I = km_invD[OF assms(1)]
  show ?thesis
  proof (cases "InternalGetKeyStrokesByIndex d i")
    case None
    then have n: "i \<notin> SetIndex ` set (KeyStrokesInfoList d)" by (auto simp: InternalGetKeyStrokesByIndex_def find_None_iff)
    then have "filter (\<lambda>(j, _). j \<noteq> i) (key_sets d) = key_sets d" by (auto simp: key_sets_def filter_id_conv)
    then show ?thesis using assms None n by (auto simp: InternalRemoveKeyStrokesBuffer_def key_sets_def)
  next
    case (Some e)
    then have e: "e \<in> set (KeyStrokesInfoList d)" "SetIndex e = i" using find_set[OF I(1)] by (auto simp: InternalGetKeyStrokesByIndex_def)
    let ?l = "filter (\<lambda>e. SetIndex e \<noteq> i) (KeyStrokesInfoList d)"
    have d': "Status = RETURN_SUCCESS" "d' = d\<lparr>KeyCodeBufferLength := KeyCodeBufferLength d - SetBufferLength e, KeyStrokesInfoList := ?l\<rparr>"
      using assms(2) Some remove_set_eq[OF I(1)] by (auto simp: InternalRemoveKeyStrokesBuffer_def)
    have sp: "set_space ?l + unat (SetBufferLength e) = set_space (KeyStrokesInfoList d)" using set_space_remove[OF I(1) e] .
    have le: "SetBufferLength e \<le> KeyCodeBufferLength d" using sp I(4) by (simp add: word_le_nat_alt)
    have "unat (KeyCodeBufferLength d - SetBufferLength e) = unat (KeyCodeBufferLength d) - unat (SetBufferLength e)" using le by (rule unat_minus_no_wrap)
    then have "km_inv d'" using I sp unfolding km_inv_def d'(2)
      by (intro conjI) (auto simp: list.pred_set distinct_map_filter split: option.splits)
    moreover have "key_sets d' = filter (\<lambda>(j, _). j \<noteq> i) (key_sets d)" by (simp add: d'(2) key_sets_def filter_map comp_def)
    moreover have "i \<in> fst ` set (key_sets d)" using e by (force simp: key_sets_def)
    ultimately show ?thesis using d'(1) by simp
  qed
qed

lemma km_inv_sets:
  assumes "km_inv d" "distinct (map SetIndex l)" "set_space l = set_space (KeyStrokesInfoList d)" "list_all (\<lambda>e. SetIndex e < NextKeyStrokeIndex d) l" "list_all set_ok l"
    "l = map f (KeyStrokesInfoList d)"
  shows "km_inv (d\<lparr>KeyStrokesInfoList := l\<rparr>)"
  using assms by (auto simp: km_inv_def split: option.splits)

lemma set_spec:
  assumes "km_inv d" "unat Number \<le> length Keys"
  shows "\<exists>Status d'. InternalSetKeyStrokeBufferKeys i Mods Number Keys d = Some (Status, d') \<and> km_inv d' \<and>
    (Status = RETURN_SUCCESS \<and> i \<in> fst ` set (key_sets d) \<and>
       key_sets d' = map (\<lambda>(j, m, ks). if j = i then (i, Mods, take (unat Number) Keys) else (j, m, ks)) (key_sets d) \<or>
     Status = RETURN_NOT_FOUND \<and> i \<notin> fst ` set (key_sets d) \<and> d' = d \<or>
     Status = RETURN_OUT_OF_RESOURCES \<and> (\<exists>e \<in> set (KeyStrokesInfoList d). SetIndex e = i \<and> SetBufferLength e < Number) \<and> d' = d)"
proof -
  note I = km_invD[OF assms(1)]
  show ?thesis
  proof (cases "InternalGetKeyStrokesByIndex d i")
    case None
    then have "i \<notin> fst ` set (key_sets d)" by (auto simp: InternalGetKeyStrokesByIndex_def find_None_iff key_sets_def)
    then show ?thesis using None assms(1) by (simp add: InternalSetKeyStrokeBufferKeys_def)
  next
    case (Some e)
    then have e: "e \<in> set (KeyStrokesInfoList d)" "SetIndex e = i" using find_set[OF I(1)] by (auto simp: InternalGetKeyStrokesByIndex_def)
    have ok: "set_ok e" using I(3) e(1) by (simp add: list.pred_set)
    show ?thesis
    proof (cases "SetBufferLength e \<ge> Number")
      case False
      then show ?thesis using Some e assms(1) by (auto simp: InternalSetKeyStrokeBufferKeys_def not_le)
    next
      case True
      then have l: "unat Number \<le> length (KeyCodes e)" using ok by (simp add: set_ok_def word_le_nat_alt)
      let ?v = "e\<lparr>NumberOfKeyCodes := Number, Modifiers := Mods, KeyCodes := overwrite (KeyCodes e) 0 (take (unat Number) Keys)\<rparr>"
      let ?l = "map (\<lambda>e. if SetIndex e = i then ?v else e) (KeyStrokesInfoList d)"
      have r: "InternalSetKeyStrokeBufferKeys i Mods Number Keys d = Some (RETURN_SUCCESS, d\<lparr>KeyStrokesInfoList := ?l\<rparr>)"
        using Some True l assms(2) update_set_eq[OF I(1)] by (simp add: InternalSetKeyStrokeBufferKeys_def)
      have v: "set_ok ?v" "keys_of ?v = take (unat Number) Keys" using ok True l assms(2) by (simp_all add: set_ok_def keys_of_def overwrite_def)
      have same: "f = e" if "f \<in> set (KeyStrokesInfoList d)" "SetIndex f = i" for f using I(1) e that by (metis distinct_map inj_onD)
      have idx: "map SetIndex ?l = map SetIndex (KeyStrokesInfoList d)" "map (\<lambda>e. unat (SetBufferLength e)) ?l = map (\<lambda>e. unat (SetBufferLength e)) (KeyStrokesInfoList d)"
        using same e(2) by auto
      have dist: "distinct (map SetIndex ?l)" unfolding idx(1) by (rule I(1))
      have "set_space ?l = set_space (KeyStrokesInfoList d)" unfolding set_space_def idx(2) ..
      moreover have "list_all (\<lambda>f. SetIndex f < NextKeyStrokeIndex d) ?l" "list_all set_ok ?l" using I(2,3) v(1) e by (auto simp: list.pred_set)
      ultimately have "km_inv (d\<lparr>KeyStrokesInfoList := ?l\<rparr>)" using km_inv_sets[OF assms(1)] dist by blast
      moreover have "key_sets (d\<lparr>KeyStrokesInfoList := ?l\<rparr>) = map (\<lambda>(j, m, ks). if j = i then (i, Mods, take (unat Number) Keys) else (j, m, ks)) (key_sets d)"
        using v(2) e(2) by (auto simp: key_sets_def)
      moreover have "i \<in> fst ` set (key_sets d)" using e by (force simp: key_sets_def)
      ultimately show ?thesis using r by blast
    qed
  qed
qed

subsection \<open>Reachable databases\<close>

text \<open>Drivers create, fill and remove sets, and readers collect the keys. All sets together have less than \<open>2^62\<close> places, and the allocation of the shared buffer succeeds.\<close>

inductive km_step :: "KEY_MAP_AGGREGATOR_DATA \<Rightarrow> KEY_MAP_AGGREGATOR_DATA \<Rightarrow> bool" where
  create: "unat (KeyCodeBufferLength d) + unat n < 2 ^ 62 \<Longrightarrow> InternalCreateKeyStrokesBuffer True Alloc2 n d = (Status, i, d') \<Longrightarrow> km_step d d'"
| remove: "InternalRemoveKeyStrokesBuffer i d = (Status, d') \<Longrightarrow> km_step d d'"
| fill: "unat Number \<le> length Keys \<Longrightarrow> InternalSetKeyStrokeBufferKeys i Mods Number Keys d = Some (Status, d') \<Longrightarrow> km_step d d'"
| get: "(case Keys of None \<Rightarrow> True | Some ks \<Rightarrow> Number \<le> length ks) \<Longrightarrow> InternalGetKeyStrokes Mods Number Keys d = Some (Status, m, n, ks', d') \<Longrightarrow> km_step d d'"

inductive km_reachable :: "KEY_MAP_AGGREGATOR_DATA \<Rightarrow> bool" where
  init: "km_reachable KeyMap_init"
| step: "km_reachable d \<Longrightarrow> km_step d d' \<Longrightarrow> km_reachable d'"

lemma km_step_inv: "km_step d d' \<Longrightarrow> km_inv d \<Longrightarrow> km_inv d'"
proof (induction rule: km_step.induct)
  case (create d n Alloc2 Status i d')
  then show ?case using create_spec by blast
next
  case (remove i d Status d')
  then show ?case using remove_spec by blast
next
  case (fill Number Keys i Mods d Status d')
  then show ?case using set_spec[OF fill.prems fill.hyps(1), of i Mods] by auto
next
  case (get Keys Number Mods d Status m n ks' d')
  then show ?case using InternalGetKeyStrokes_spec[OF get.prems get.hyps(1), of Mods] by (auto split: if_split_asm)
qed

lemma km_reachable_inv: "km_reachable d \<Longrightarrow> km_inv d"
proof (induction rule: km_reachable.induct)
  case init
  then show ?case by (simp add: KeyMap_init_def km_inv_def set_space_def)
qed (rule km_step_inv)

lemma set_pressed_keys: "set (pressed_keys d) = (\<Union>(i, m, ks) \<in> set (key_sets d). set ks)"
  by (auto simp: pressed_keys_def key_sets_def)

lemma distinct_pressed_keys: "distinct (pressed_keys d)"
  by (simp add: pressed_keys_def)

section \<open>Properties of the key map\<close>

definition key_sample1 :: KEY_MAP_AGGREGATOR_DATA where "key_sample1 = snd (snd (InternalCreateKeyStrokesBuffer True True 3 KeyMap_init))"
definition key_sample2 :: KEY_MAP_AGGREGATOR_DATA where "key_sample2 = snd (the (InternalSetKeyStrokeBufferKeys 3000 2 2 [0x704, 0x705] key_sample1))"

lemma key_sample_reachable: "km_reachable key_sample1" "km_reachable key_sample2"
proof -
  have "km_step KeyMap_init key_sample1"
    by (rule km_step.create[of KeyMap_init 3 True "fst (InternalCreateKeyStrokesBuffer True True 3 KeyMap_init)" "fst (snd (InternalCreateKeyStrokesBuffer True True 3 KeyMap_init))"])
      (simp_all add: KeyMap_init_def key_sample1_def)
  then show 1: "km_reachable key_sample1" by (rule km_reachable.step[OF km_reachable.init])
  have "InternalSetKeyStrokeBufferKeys 3000 2 2 [0x704, 0x705] key_sample1 = Some (RETURN_SUCCESS, key_sample2)" by code_simp
  then have "km_step key_sample1 key_sample2" by (rule km_step.fill[rotated]) simp
  then show "km_reachable key_sample2" by (rule km_reachable.step[OF 1])
qed

text \<open>
  C36: the aggregator returns each key of the registered sets once, in the order of first occurrence, and the union of their modifiers, as long as they fit into the buffer of the caller; otherwise it reports the
  number of keys and writes nothing. It never leaves its buffers.
\<close>

theorem InternalGetKeyStrokes_correct:
  assumes "km_reachable d" "case Keys of None \<Rightarrow> True | Some ks \<Rightarrow> Number \<le> length ks"
  shows "(\<exists>d'. InternalGetKeyStrokes Mods Number Keys d =
      Some (if length (pressed_keys d) \<le> Number
        then (RETURN_SUCCESS, pressed_modifiers d, length (pressed_keys d), map_option (\<lambda>ks. overwrite ks 0 (pressed_keys d)) Keys, d')
        else (RETURN_BUFFER_TOO_SMALL, Mods, length (pressed_keys d), Keys, d')) \<and> key_sets d' = key_sets d) \<and>
    distinct (pressed_keys d) \<and> set (pressed_keys d) = (\<Union>(i, m, ks) \<in> set (key_sets d). set ks)"
  using InternalGetKeyStrokes_spec[OF km_reachable_inv[OF assms(1)] assms(2)] set_pressed_keys distinct_pressed_keys by blast

theorem InternalGetKeyStrokes_correct_witness:
  "\<exists>d'. InternalGetKeyStrokes 0 3 (Some [0, 0, 0]) key_sample2 = Some (RETURN_SUCCESS, 2, 2, Some [0x704, 0x705, 0], d') \<and> key_sets d' = key_sets key_sample2"
proof -
  have p: "pressed_keys key_sample2 = [0x704, 0x705]" "pressed_modifiers key_sample2 = 2" by code_simp+
  have "case Some [0, 0, 0 :: key_code] of None \<Rightarrow> True | Some ks \<Rightarrow> 3 \<le> length ks" by simp
  from InternalGetKeyStrokes_correct[OF key_sample_reachable(2) this, of 0] show ?thesis by (simp add: p overwrite_def numeral_2_eq_2)
qed

text \<open>
  The same steps without a condition on the allocations: when the shared buffer cannot be allocated, the sets stay without one. What holds of such a database is the
  invariant up to the buffer.
\<close>

inductive db_step :: "KEY_MAP_AGGREGATOR_DATA \<Rightarrow> KEY_MAP_AGGREGATOR_DATA \<Rightarrow> bool" where
  create: "unat (KeyCodeBufferLength d) + unat n < 2 ^ 62 \<Longrightarrow> InternalCreateKeyStrokesBuffer Alloc1 Alloc2 n d = (Status, i, d') \<Longrightarrow> db_step d d'"
| remove: "InternalRemoveKeyStrokesBuffer i d = (Status, d') \<Longrightarrow> db_step d d'"
| fill: "unat Number \<le> length Keys \<Longrightarrow> InternalSetKeyStrokeBufferKeys i Mods Number Keys d = Some (Status, d') \<Longrightarrow> db_step d d'"
| get: "InternalGetKeyStrokes Mods Number Keys d = Some (Status, m, n, ks', d') \<Longrightarrow> db_step d d'"

inductive db_reachable :: "KEY_MAP_AGGREGATOR_DATA \<Rightarrow> bool" where
  init: "db_reachable KeyMap_init"
| step: "db_reachable d \<Longrightarrow> db_step d d' \<Longrightarrow> db_reachable d'"

definition db_inv :: "KEY_MAP_AGGREGATOR_DATA \<Rightarrow> bool" where
  "db_inv d \<longleftrightarrow> distinct (map SetIndex (KeyStrokesInfoList d)) \<and> list_all (\<lambda>e. SetIndex e < NextKeyStrokeIndex d) (KeyStrokesInfoList d) \<and> list_all set_ok (KeyStrokesInfoList d) \<and>
     set_space (KeyStrokesInfoList d) \<le> unat (KeyCodeBufferLength d) \<and> unat (KeyCodeBufferLength d) < 2 ^ 62"

text \<open>A database with a buffer put in behaves like the one without; only the collection of keys reads the buffer.\<close>

definition with_buffer :: "KEY_MAP_AGGREGATOR_DATA \<Rightarrow> KEY_MAP_AGGREGATOR_DATA" where
  "with_buffer d = d\<lparr>KeyCodeBuffer := Some (replicate (unat (KeyCodeBufferLength d)) 0)\<rparr>"

lemma db_inv_with_buffer: "db_inv d \<longleftrightarrow> km_inv (with_buffer d)"
  by (auto simp: db_inv_def km_inv_def with_buffer_def)

lemma km_inv_db_inv: "km_inv (d\<lparr>KeyCodeBuffer := B\<rparr>) \<Longrightarrow> db_inv d"
  by (simp add: db_inv_def km_inv_def)

lemma db_inv_buffer: "db_inv (d\<lparr>KeyCodeBuffer := B\<rparr>) \<longleftrightarrow> db_inv d"
  by (simp add: db_inv_def)

lemma key_sets_buffer [simp]: "key_sets (d\<lparr>KeyCodeBuffer := B\<rparr>) = key_sets d" "key_sets (with_buffer d) = key_sets d"
  by (simp_all add: key_sets_def with_buffer_def)

lemma create_db:
  assumes "db_inv d" "unat (KeyCodeBufferLength d) + unat n < 2 ^ 62"
  shows "\<exists>d'. InternalCreateKeyStrokesBuffer Alloc1 Alloc2 n d =
      (if Alloc1 \<and> Alloc2 then (RETURN_SUCCESS, Some (NextKeyStrokeIndex d), d') else (RETURN_OUT_OF_RESOURCES, None, d')) \<and> db_inv d' \<and>
    NextKeyStrokeIndex d \<notin> fst ` set (key_sets d) \<and> key_sets d' = key_sets d @ (if Alloc1 \<and> Alloc2 then [(NextKeyStrokeIndex d, 0, [])] else [])"
proof -
  have km: "km_inv (with_buffer d)" using assms(1) by (simp add: db_inv_with_buffer)
  have fields: "KeyCodeBufferLength (with_buffer d) = KeyCodeBufferLength d" "NextKeyStrokeIndex (with_buffer d) = NextKeyStrokeIndex d" by (simp_all add: with_buffer_def)
  have same: "InternalCreateKeyStrokesBuffer True Alloc2 n (with_buffer d) = InternalCreateKeyStrokesBuffer True Alloc2 n d"
    by (simp add: InternalCreateKeyStrokesBuffer_def with_buffer_def)
  obtain Status i d' where c: "InternalCreateKeyStrokesBuffer True Alloc2 n d = (Status, i, d')" by (metis prod_cases3)
  have sp: "km_inv d' \<and> (if Alloc2 then Status = RETURN_SUCCESS \<and> i = Some (NextKeyStrokeIndex d) \<and> key_sets d' = key_sets d @ [(NextKeyStrokeIndex d, 0, [])] \<and>
      NextKeyStrokeIndex d \<notin> fst ` set (key_sets d) else Status = RETURN_OUT_OF_RESOURCES \<and> key_sets d' = key_sets d)"
    using create_spec[OF km, of n Alloc2 Status i d', unfolded fields key_sets_buffer same] assms(2) c by blast
  have fresh: "NextKeyStrokeIndex d \<notin> fst ` set (key_sets d)" using assms(1) by (auto simp: db_inv_def key_sets_def list.pred_set)
  have noidx: "i = None" if "\<not> Alloc2" using c that by (simp add: InternalCreateKeyStrokesBuffer_def Let_def)
  show ?thesis
  proof (cases Alloc1)
    case True
    have "db_inv d'" using sp km_inv_db_inv[of "KeyCodeBuffer d'" d'] by simp
    then show ?thesis using True c sp fresh noidx by (intro exI[of _ d']) (auto split: if_splits)
  next
    case False
    have "unat (KeyCodeBufferLength d + n) = unat (KeyCodeBufferLength d) + unat n" using assms(2) by (intro unat_plus_no_wrap) simp
    then show ?thesis using False assms fresh by (auto simp: InternalCreateKeyStrokesBuffer_def Let_def db_inv_def key_sets_def)
  qed
qed

lemma remove_db:
  assumes "db_inv d" "InternalRemoveKeyStrokesBuffer i d = (Status, d')"
  shows "db_inv d' \<and> key_sets d' = filter (\<lambda>(j, _). j \<noteq> i) (key_sets d) \<and> Status = (if i \<in> fst ` set (key_sets d) then RETURN_SUCCESS else RETURN_NOT_FOUND)"
proof -
  obtain B where B: "with_buffer d = d\<lparr>KeyCodeBuffer := B\<rparr>" by (simp add: with_buffer_def)
  have "InternalRemoveKeyStrokesBuffer i (with_buffer d) = (Status, d'\<lparr>KeyCodeBuffer := B\<rparr>)"
    using assms(2) unfolding B by (auto simp: InternalRemoveKeyStrokesBuffer_def InternalGetKeyStrokesByIndex_def split: option.splits)
  from remove_spec[OF assms(1)[unfolded db_inv_with_buffer] this, unfolded key_sets_buffer] show ?thesis using km_inv_db_inv by blast
qed

lemma set_db:
  assumes "db_inv d" "unat Number \<le> length Keys"
  shows "\<exists>Status d'. InternalSetKeyStrokeBufferKeys i Mods Number Keys d = Some (Status, d') \<and> db_inv d' \<and>
    (Status = RETURN_SUCCESS \<and> i \<in> fst ` set (key_sets d) \<and>
       key_sets d' = map (\<lambda>(j, m, ks). if j = i then (i, Mods, take (unat Number) Keys) else (j, m, ks)) (key_sets d) \<or>
     Status = RETURN_NOT_FOUND \<and> i \<notin> fst ` set (key_sets d) \<and> d' = d \<or>
     Status = RETURN_OUT_OF_RESOURCES \<and> (\<exists>e \<in> set (KeyStrokesInfoList d). SetIndex e = i \<and> SetBufferLength e < Number) \<and> d' = d)"
proof -
  obtain B where B: "with_buffer d = d\<lparr>KeyCodeBuffer := B\<rparr>" by (simp add: with_buffer_def)
  have wl: "KeyStrokesInfoList (with_buffer d) = KeyStrokesInfoList d" by (simp add: B)
  obtain Status e where e: "InternalSetKeyStrokeBufferKeys i Mods Number Keys (with_buffer d) = Some (Status, e)" "km_inv e"
    "Status = RETURN_SUCCESS \<and> i \<in> fst ` set (key_sets d) \<and>
       key_sets e = map (\<lambda>(j, m, ks). if j = i then (i, Mods, take (unat Number) Keys) else (j, m, ks)) (key_sets d) \<or>
     Status = RETURN_NOT_FOUND \<and> i \<notin> fst ` set (key_sets d) \<and> e = with_buffer d \<or>
     Status = RETURN_OUT_OF_RESOURCES \<and> (\<exists>e \<in> set (KeyStrokesInfoList d). SetIndex e = i \<and> SetBufferLength e < Number) \<and> e = with_buffer d"
    using set_spec[OF assms(1)[unfolded db_inv_with_buffer] assms(2), of i Mods, unfolded key_sets_buffer wl] by blast
  let ?d = "e\<lparr>KeyCodeBuffer := KeyCodeBuffer d\<rparr>"
  have restored: "with_buffer d\<lparr>KeyCodeBuffer := KeyCodeBuffer d\<rparr> = d" by (simp add: B)
  have "InternalSetKeyStrokeBufferKeys i Mods Number Keys d = Some (Status, ?d)"
    using e(1) unfolding B by (auto simp: InternalSetKeyStrokeBufferKeys_def InternalGetKeyStrokesByIndex_def split: option.splits if_splits)
  moreover have "db_inv ?d" using e(2) km_inv_db_inv[of "KeyCodeBuffer e" e] by (simp add: db_inv_buffer)
  ultimately show ?thesis using e(3) restored by (intro exI[of _ Status] exI[of _ ?d]) (elim disjE, simp_all)
qed

lemma get_db: "InternalGetKeyStrokes Mods Number Keys d = Some (Status, m, n, ks, d') \<Longrightarrow> \<exists>B. d' = d\<lparr>KeyCodeBuffer := B\<rparr>"
  by (auto simp: InternalGetKeyStrokes_def bind_eq_Some_conv Let_def split: if_splits option.splits)

lemma db_reachable_inv: "db_reachable d \<Longrightarrow> db_inv d"
proof (induction rule: db_reachable.induct)
  case init
  show ?case by (simp add: KeyMap_init_def db_inv_def set_space_def)
next
  case (step d d')
  from step.hyps(2) step.IH show ?case
  proof (induction rule: db_step.induct)
    case (create d n Alloc1 Alloc2 Status i d')
    then show ?case using create_db[OF create.prems create.hyps(1), of Alloc1 Alloc2] by (auto split: if_splits)
  next
    case (fill Number Keys i Mods d Status d')
    then show ?case using set_db[OF fill.prems fill.hyps(1), of i Mods] by auto
  next
    case (get Mods Number Keys d Status m n ks' d')
    then show ?case using get_db[OF get.hyps] db_inv_buffer by auto
  qed (use remove_db in blast)
qed

lemma km_reachable_db_reachable: "km_reachable d \<Longrightarrow> db_reachable d"
proof (induction rule: km_reachable.induct)
  case (step d d')
  from step.hyps(2) have "db_step d d'" by (induction rule: km_step.induct) (blast intro: db_step.intros)+
  with step.IH show ?case by (rule db_reachable.step)
qed (rule db_reachable.init)

text \<open>
  C14: the database behaves like a list of key sets, in every state that sequences of operations with any failing allocations lead to (with less than \<open>2^62\<close> places in all sets): creating adds an empty
  set under a new index, or, when one of its two allocations fails, reports that memory is exhausted, returns no index and adds no set; removing drops exactly the set of the index or reports that there is
  none; and setting the keys replaces those of one set, or reports that there is no such set or no room in it.
\<close>

theorem KeyMap_database_refines:
  assumes "db_reachable d"
  shows "(unat (KeyCodeBufferLength d) + unat n < 2 ^ 62 \<longrightarrow> (\<exists>k d'. InternalCreateKeyStrokesBuffer Alloc1 Alloc2 n d =
        (if Alloc1 \<and> Alloc2 then (RETURN_SUCCESS, Some k, d') else (RETURN_OUT_OF_RESOURCES, None, d')) \<and>
      k \<notin> fst ` set (key_sets d) \<and> key_sets d' = key_sets d @ (if Alloc1 \<and> Alloc2 then [(k, 0, [])] else []))) \<and>
    (\<exists>d'. InternalRemoveKeyStrokesBuffer i d = (if i \<in> fst ` set (key_sets d) then RETURN_SUCCESS else RETURN_NOT_FOUND, d') \<and>
      key_sets d' = filter (\<lambda>(j, _). j \<noteq> i) (key_sets d)) \<and>
    (unat Number \<le> length Keys \<longrightarrow> (\<exists>Status d'. InternalSetKeyStrokeBufferKeys i Mods Number Keys d = Some (Status, d') \<and>
      (Status = RETURN_SUCCESS \<and> i \<in> fst ` set (key_sets d) \<and>
         key_sets d' = map (\<lambda>(j, m, ks). if j = i then (i, Mods, take (unat Number) Keys) else (j, m, ks)) (key_sets d) \<or>
       Status = RETURN_NOT_FOUND \<and> i \<notin> fst ` set (key_sets d) \<and> d' = d \<or>
       Status = RETURN_OUT_OF_RESOURCES \<and> (\<exists>e \<in> set (KeyStrokesInfoList d). SetIndex e = i \<and> SetBufferLength e < Number) \<and> d' = d)))"
proof (intro conjI impI)
  note inv = db_reachable_inv[OF assms]
  show "\<exists>k d'. InternalCreateKeyStrokesBuffer Alloc1 Alloc2 n d =
        (if Alloc1 \<and> Alloc2 then (RETURN_SUCCESS, Some k, d') else (RETURN_OUT_OF_RESOURCES, None, d')) \<and>
      k \<notin> fst ` set (key_sets d) \<and> key_sets d' = key_sets d @ (if Alloc1 \<and> Alloc2 then [(k, 0, [])] else [])"
    if "unat (KeyCodeBufferLength d) + unat n < 2 ^ 62"
    using create_db[OF inv that, of Alloc1 Alloc2] by blast
  show "\<exists>d'. InternalRemoveKeyStrokesBuffer i d = (if i \<in> fst ` set (key_sets d) then RETURN_SUCCESS else RETURN_NOT_FOUND, d') \<and>
      key_sets d' = filter (\<lambda>(j, _). j \<noteq> i) (key_sets d)"
    using remove_db[OF inv, of i] by (cases "InternalRemoveKeyStrokesBuffer i d") auto
  show "\<exists>Status d'. InternalSetKeyStrokeBufferKeys i Mods Number Keys d = Some (Status, d') \<and>
      (Status = RETURN_SUCCESS \<and> i \<in> fst ` set (key_sets d) \<and>
         key_sets d' = map (\<lambda>(j, m, ks). if j = i then (i, Mods, take (unat Number) Keys) else (j, m, ks)) (key_sets d) \<or>
       Status = RETURN_NOT_FOUND \<and> i \<notin> fst ` set (key_sets d) \<and> d' = d \<or>
       Status = RETURN_OUT_OF_RESOURCES \<and> (\<exists>e \<in> set (KeyStrokesInfoList d). SetIndex e = i \<and> SetBufferLength e < Number) \<and> d' = d)"
    if "unat Number \<le> length Keys" using set_db[OF inv that, of i Mods] by blast
qed

theorem KeyMap_database_refines_witness:
  "(\<exists>i d'. InternalCreateKeyStrokesBuffer True True 4 key_sample2 = (RETURN_SUCCESS, Some i, d') \<and> key_sets d' = key_sets key_sample2 @ [(i, 0, [])]) \<and>
   (\<exists>d'. InternalCreateKeyStrokesBuffer True False 4 key_sample2 = (RETURN_OUT_OF_RESOURCES, None, d') \<and> key_sets d' = key_sets key_sample2) \<and>
   (\<exists>d'. InternalRemoveKeyStrokesBuffer 3000 key_sample2 = (RETURN_SUCCESS, d') \<and> key_sets d' = [])"
proof -
  have f: "KeyCodeBufferLength key_sample2 = 3" "key_sets key_sample2 = [(3000, 2, [0x704, 0x705])]" by code_simp+
  note w = KeyMap_database_refines[OF km_reachable_db_reachable[OF key_sample_reachable(2)], of 4]
  show ?thesis using w[of True True 3000 0 "[]" 0] w[of True False 3000 0 "[]" 0] f by auto
qed

text \<open>
  When the shared buffer cannot be allocated, the database keeps its sets without a buffer, and the next collection of keys writes through a null pointer.
\<close>

theorem InternalCreateKeyStrokesBuffer_failure:
  "InternalGetKeyStrokes Mods Number Keys (snd (snd (InternalCreateKeyStrokesBuffer False Alloc2 n key_sample2))) = None"
proof -
  have "KeyStrokesInfoList key_sample2 = [\<lparr>SetIndex = 3000, SetBufferLength = 3, NumberOfKeyCodes = 2, Modifiers = 2, KeyCodes = [0x704, 0x705, 0]\<rparr>]" by code_simp
  then show ?thesis by (simp add: InternalCreateKeyStrokesBuffer_def Let_def InternalGetKeyStrokes_def add_set_def add_key_def upt_rec)
qed

lemma EFI_ERROR_simps [simp]: "\<not> EFI_ERROR RETURN_SUCCESS" "EFI_ERROR RETURN_BUFFER_TOO_SMALL" "EFI_ERROR RETURN_UNSUPPORTED" "EFI_ERROR RETURN_OUT_OF_RESOURCES"
  by (simp_all add: EFI_ERROR_def RETURN_SUCCESS_def RETURN_BUFFER_TOO_SMALL_def RETURN_UNSUPPORTED_def RETURN_OUT_OF_RESOURCES_def bit_simps)

lemma OcKeyMapHasKeys_iff: "OcKeyMapHasKeys Keys CheckKeys ExactMatch \<longleftrightarrow> (ExactMatch \<longrightarrow> length Keys = length CheckKeys) \<and> set CheckKeys \<subseteq> set Keys"
  by (auto simp: OcKeyMapHasKeys_def list_all_iff list_ex_iff)

lemma InternalContainsKeyStrokes_spec:
  assumes "km_reachable d"
  shows "\<exists>d'. key_sets d' = key_sets d \<and> InternalContainsKeyStrokes Mods Keys ExactMatch d =
    Some (if length (pressed_keys d) > 8 then RETURN_BUFFER_TOO_SMALL
      else if (if ExactMatch then pressed_modifiers d \<noteq> Mods else pressed_modifiers d AND Mods \<noteq> Mods) then RETURN_SUCCESS
      else if (ExactMatch \<longrightarrow> length (pressed_keys d) = length Keys) \<and> set Keys \<subseteq> set (pressed_keys d) then RETURN_SUCCESS
      else RETURN_NOT_FOUND, d')"
proof -
  have "case Some (replicate 8 (0 :: key_code)) of None \<Rightarrow> True | Some ks \<Rightarrow> 8 \<le> length ks" by simp
  from InternalGetKeyStrokes_spec[OF km_reachable_inv[OF assms] this, of 0]
  obtain d' where d': "InternalGetKeyStrokes 0 8 (Some (replicate 8 0)) d =
      Some (if length (pressed_keys d) \<le> 8
        then (RETURN_SUCCESS, pressed_modifiers d, length (pressed_keys d), map_option (\<lambda>ks. overwrite ks 0 (pressed_keys d)) (Some (replicate 8 0)), d')
        else (RETURN_BUFFER_TOO_SMALL, 0, length (pressed_keys d), Some (replicate 8 0), d'))" "key_sets d' = key_sets d" by blast
  have t: "take (length ks) (overwrite bs 0 ks) = ks" for ks bs :: "key_code list" by (simp add: overwrite_def)
  have "RETURN_FALSE = RETURN_SUCCESS" by (simp add: RETURN_FALSE_def RETURN_SUCCESS_def)
  then show ?thesis using d' by (intro exI[of _ d']) (auto simp: InternalContainsKeyStrokes_def OcKeyMapHasKeys_iff t split del: if_split split: if_split)
qed

text \<open>
  C38: when the modifiers match, \<open>InternalContainsKeyStrokes\<close> succeeds exactly if the keys are among the pressed ones (and are as many, for an exact match), and reports otherwise that they were not found;
  with more than eight pressed keys it fails.
\<close>

theorem InternalContainsKeyStrokes_result:
  assumes "km_reachable d" "if ExactMatch then pressed_modifiers d = Mods else pressed_modifiers d AND Mods = Mods"
  shows "\<exists>d'. key_sets d' = key_sets d \<and> InternalContainsKeyStrokes Mods Keys ExactMatch d =
    Some (if length (pressed_keys d) > 8 then RETURN_BUFFER_TOO_SMALL
      else if (ExactMatch \<longrightarrow> length (pressed_keys d) = length Keys) \<and> set Keys \<subseteq> set (pressed_keys d) then RETURN_SUCCESS
      else RETURN_NOT_FOUND, d')"
  using InternalContainsKeyStrokes_spec[OF assms(1), of Mods Keys ExactMatch] assms(2) by (auto split: if_split_asm)

theorem InternalContainsKeyStrokes_result_witness:
  "\<exists>d'. InternalContainsKeyStrokes 2 [0x799, 0x704] True key_sample2 = Some (RETURN_NOT_FOUND, d')"
proof -
  have p: "pressed_keys key_sample2 = [0x704, 0x705]" "pressed_modifiers key_sample2 = 2" by code_simp+
  have m: "if True then pressed_modifiers key_sample2 = 2 else pressed_modifiers key_sample2 AND 2 = 2" using p(2) by simp
  from InternalContainsKeyStrokes_result[OF key_sample_reachable(2) m, of "[0x799, 0x704]"] show ?thesis by (auto simp: p(1))
qed

text \<open>
  When the modifiers differ, the function returns \<^verbatim>\<open>FALSE\<close>, which is the status for success, although its comment promises \<^verbatim>\<open>EFI_NOT_FOUND\<close>: the caller is told that the keys
  are pressed.
\<close>

lemma InternalContainsKeyStrokes_mismatch:
  assumes "km_reachable d" "length (pressed_keys d) \<le> 8" "if ExactMatch then pressed_modifiers d \<noteq> Mods else pressed_modifiers d AND Mods \<noteq> Mods"
  shows "\<exists>d'. InternalContainsKeyStrokes Mods Keys ExactMatch d = Some (RETURN_SUCCESS, d')"
  using InternalContainsKeyStrokes_spec[OF assms(1), of Mods Keys ExactMatch] assms(2,3) by auto

definition flushed :: "(nat \<Rightarrow> u64 \<times> u16 \<times> key_code list) \<Rightarrow> key_code \<Rightarrow> nat \<Rightarrow> bool" where
  "flushed Poll Key n \<longleftrightarrow> (case Poll n of (Status, Mods, Keys) \<Rightarrow> EFI_ERROR Status \<or> Mods = 0 \<and> (if Key = 0 then Keys = [] else Key \<notin> set Keys))"

lemma flush_body_eq: "flush_body Poll Key n = (if flushed Poll Key n then Break n else Continue (n + 1))"
  by (auto simp: flush_body_def flushed_def OcKeyMapHasKey_def OcKeyMapHasKeys_iff split: prod.split)

lemma flush_reaches:
  assumes "flushed Poll Key n" "k \<le> n" "\<forall>j. k \<le> j \<longrightarrow> j < n \<longrightarrow> \<not> flushed Poll Key j"
  shows "iterate (flush_body Poll Key) k = Some n"
  using assms
proof (induction "n - k" arbitrary: k)
  case 0
  then show ?case by (simp add: iterate_Break flush_body_eq)
next
  case (Suc j)
  then have "iterate (flush_body Poll Key) k = iterate (flush_body Poll Key) (k + 1)" by (intro iterate_Continue) (simp add: flush_body_eq)
  then show ?case using Suc by simp
qed

text \<open>
  C39: \<open>OcKeyMapFlush\<close> returns exactly when at some call an error is reported, or the key (any key, when none is given) and all modifiers are up, and it stops at the first such call.
\<close>

theorem OcKeyMapFlush_correct:
  "OcKeyMapFlush Poll Key = (if \<exists>n. flushed Poll Key n then Some (LEAST n. flushed Poll Key n) else None)"
proof (cases "\<exists>n. flushed Poll Key n")
  case True
  then have "flushed Poll Key (LEAST n. flushed Poll Key n)" by (rule LeastI_ex)
  then have "iterate (flush_body Poll Key) 0 = Some (LEAST n. flushed Poll Key n)" by (rule flush_reaches) (auto dest: not_less_Least)
  then show ?thesis using True by (simp add: OcKeyMapFlush_def)
next
  case False
  then have "iterate (flush_body Poll Key) 0 = None" by (intro iterate_never[where I = "\<lambda>_. True"]) (auto simp: flush_body_eq)
  then show ?thesis using False by (simp add: OcKeyMapFlush_def)
qed

section \<open>Up and down detection is correct\<close>

text \<open>An array of the caller that starts with the given keys.\<close>

definition holds :: "key_code list option \<Rightarrow> key_code list option \<Rightarrow> key_code list \<Rightarrow> bool" where
  "holds A0 A ks \<longleftrightarrow> (case A0 of None \<Rightarrow> A = None | Some a0 \<Rightarrow> (\<exists>a. A = Some a \<and> length a = length a0 \<and> take (length ks) a = ks))"

definition room :: "key_code list option \<Rightarrow> nat \<Rightarrow> bool" where
  "room A n \<longleftrightarrow> (case A of None \<Rightarrow> True | Some a \<Rightarrow> n \<le> length a)"

lemma put_holds:
  assumes "holds A0 A ks" "room A0 (Suc (length ks))"
  shows "\<exists>A'. put_key A (length ks) k = Some A' \<and> holds A0 A' (ks @ [k])"
proof (cases A0)
  case None
  then show ?thesis using assms by (simp add: holds_def put_key_def)
next
  case (Some a0)
  then obtain a where a: "A = Some a" "length a = length a0" "take (length ks) a = ks" using assms(1) by (auto simp: holds_def)
  moreover have "length ks < length a" using assms(2) Some a(2) by (simp add: room_def)
  ultimately show ?thesis using Some by (auto simp: put_key_def holds_def take_Suc_conv_app_nth)
qed

lemma holds_Nil: "holds A A []"
  by (simp add: holds_def split: option.split)

definition repeat_due :: "OC_KEY_REPEAT_CONTEXT \<Rightarrow> u64 \<Rightarrow> bool" where
  "repeat_due C KeyTime \<longleftrightarrow> InitialDelay C \<noteq> 0 \<and> \<not> bit KeyTime 63"

text \<open>With the held keys \<open>H\<close> and their times \<open>T\<close>: the time that has passed for a key, its new time, and whether it is reported as down.\<close>

definition passed_time :: "u64 \<Rightarrow> key_code list \<Rightarrow> u64 list \<Rightarrow> key_code \<Rightarrow> u64" where
  "passed_time DeltaTime H T k = T ! first_index k H + DeltaTime"

definition new_time :: "OC_KEY_REPEAT_CONTEXT \<Rightarrow> u64 \<Rightarrow> key_code list \<Rightarrow> u64 list \<Rightarrow> key_code \<Rightarrow> u64" where
  "new_time C DeltaTime H T k =
     (if k \<in> set H then passed_time DeltaTime H T k - (if repeat_due C (passed_time DeltaTime H T k) then SubsequentDelay C else 0) else - InitialDelay C)"

definition goes_down :: "OC_KEY_REPEAT_CONTEXT \<Rightarrow> u64 \<Rightarrow> key_code list \<Rightarrow> u64 list \<Rightarrow> key_code \<Rightarrow> bool" where
  "goes_down C DeltaTime H T k \<longleftrightarrow> k \<notin> set H \<or> repeat_due C (passed_time DeltaTime H T k)"

lemma first_index_less: "first_index k xs < length xs \<longleftrightarrow> k \<in> set xs"
  by (induction xs) (auto simp: first_index_def)

lemma first_index_map: "(\<And>y. y \<in> set xs \<Longrightarrow> f y = k \<longleftrightarrow> y = k) \<Longrightarrow> first_index k (map f xs) = first_index k xs"
  by (induction xs) (auto simp: first_index_def)

lemma first_index_update: "k \<in> set xs \<Longrightarrow> distinct xs \<Longrightarrow> (map f xs)[first_index k xs := v] = map (\<lambda>y. if y = k then v else f y) xs"
  by (induction xs) (auto simp: first_index_def)

definition marked :: "key_code list \<Rightarrow> key_code list \<Rightarrow> key_code list" where
  "marked ps H = map (\<lambda>y. if y \<in> set ps then 0 else y) H"

lemma held_key_spec:
  assumes "distinct H" "k \<noteq> 0" "k \<notin> set ps" "holds A0 A (filter (goes_down C Delta H T) ps)" "room A0 (Suc (length (filter (goes_down C Delta H T) ps)))"
  shows "\<exists>A'. held_key C Delta k T (marked ps H, length (filter (goes_down C Delta H T) ps), A) =
      Some (new_time C Delta H T k, marked (ps @ [k]) H, length (filter (goes_down C Delta H T) (ps @ [k])), A') \<and> holds A0 A' (filter (goes_down C Delta H T) (ps @ [k]))"
proof -
  have i: "first_index k (marked ps H) = first_index k H" unfolding marked_def using assms(2,3) by (intro first_index_map) auto
  have l: "length (marked ps H) = length H" by (simp add: marked_def)
  obtain A' where A': "put_key A (length (filter (goes_down C Delta H T) ps)) k = Some A'" "holds A0 A' (filter (goes_down C Delta H T) ps @ [k])"
    using put_holds[OF assms(4,5)] by blast
  show ?thesis
  proof (cases "k \<in> set H")
    case True
    have "(marked ps H)[first_index k H := 0] = marked (ps @ [k]) H" unfolding marked_def by (subst first_index_update[OF True assms(1)]) auto
    then show ?thesis using True A' assms(4) i l first_index_less[of k H]
      by (auto simp: held_key_def goes_down_def new_time_def passed_time_def repeat_due_def Let_def)
  next
    case False
    have "marked (ps @ [k]) H = marked ps H" using False by (auto simp: marked_def)
    then show ?thesis using False A' i l first_index_less[of k H] by (auto simp: held_key_def goes_down_def new_time_def Let_def)
  qed
qed

definition held_state :: "OC_KEY_REPEAT_CONTEXT \<Rightarrow> u64 \<Rightarrow> key_code list \<Rightarrow> u64 list \<Rightarrow> key_code list \<Rightarrow> OC_KEY_REPEAT_CONTEXT \<Rightarrow> bool" where
  "held_state C Delta H T ps C' \<longleftrightarrow> (\<exists>h t. C' = C\<lparr>KeysHeld := Some h, KeyHeldTimes := Some t, NumKeysHeld := length ps\<rparr> \<and> length h = MaxKeysHeld C \<and> length t = MaxKeysHeld C \<and>
     take (length ps) h = ps \<and> take (length ps) t = map (new_time C Delta H T) ps)"

lemma raw_key_spec:
  assumes "held_state C Delta H T ps C'" "length ps < MaxKeysHeld C" "distinct H" "k \<noteq> 0" "k \<notin> set ps"
    "holds A0 A (filter (goes_down C Delta H T) ps)" "room A0 (Suc (length (filter (goes_down C Delta H T) ps)))"
  shows "\<exists>C'' A'. raw_key Delta T k (C', marked ps H, length (filter (goes_down C Delta H T) ps), A) =
      Some (C'', marked (ps @ [k]) H, length (filter (goes_down C Delta H T) (ps @ [k])), A') \<and>
    held_state C Delta H T (ps @ [k]) C'' \<and> holds A0 A' (filter (goes_down C Delta H T) (ps @ [k]))"
proof -
  obtain h t where C': "C' = C\<lparr>KeysHeld := Some h, KeyHeldTimes := Some t, NumKeysHeld := length ps\<rparr>" "length h = MaxKeysHeld C" "length t = MaxKeysHeld C"
    "take (length ps) h = ps" "take (length ps) t = map (new_time C Delta H T) ps" using assms(1) by (auto simp: held_state_def)
  have "InitialDelay C' = InitialDelay C" "SubsequentDelay C' = SubsequentDelay C" by (simp_all add: C'(1))
  then have g: "held_key C' = held_key C" unfolding held_key_def by (simp only:)
  obtain A' where A': "held_key C Delta k T (marked ps H, length (filter (goes_down C Delta H T) ps), A) =
      Some (new_time C Delta H T k, marked (ps @ [k]) H, length (filter (goes_down C Delta H T) (ps @ [k])), A')" "holds A0 A' (filter (goes_down C Delta H T) (ps @ [k]))"
    using held_key_spec[OF assms(3-7)] by blast
  let ?C = "C\<lparr>KeysHeld := Some (h[length ps := k]), KeyHeldTimes := Some (t[length ps := new_time C Delta H T k]), NumKeysHeld := Suc (length ps)\<rparr>"
  have "held_state C Delta H T (ps @ [k]) ?C"
    unfolding held_state_def using C'(2-5) assms(2) by (intro exI[of _ "h[length ps := k]"] exI[of _ "t[length ps := new_time C Delta H T k]"]) (simp add: take_Suc_conv_app_nth)
  moreover have "raw_key Delta T k (C', marked ps H, length (filter (goes_down C Delta H T) ps), A) = Some (?C, marked (ps @ [k]) H, length (filter (goes_down C Delta H T) (ps @ [k])), A')"
    using A'(1) C'(2,3) assms(2) g[unfolded C'(1)] by (simp add: raw_key_def put_key_def C'(1) del: filter_append)
  ultimately show ?thesis using A'(2) by blast
qed

definition held :: "OC_KEY_REPEAT_CONTEXT \<Rightarrow> key_code list" where
  "held C = (case KeysHeld C of None \<Rightarrow> [] | Some h \<Rightarrow> take (NumKeysHeld C) h)"

definition held_times :: "OC_KEY_REPEAT_CONTEXT \<Rightarrow> u64 list" where
  "held_times C = (case KeyHeldTimes C of None \<Rightarrow> [] | Some t \<Rightarrow> take (NumKeysHeld C) t)"

text \<open>A context with its arrays: different keys are held, and none of them is 0.\<close>

definition repeat_ok :: "OC_KEY_REPEAT_CONTEXT \<Rightarrow> bool" where
  "repeat_ok C \<longleftrightarrow> (case (KeysHeld C, KeyHeldTimes C) of (Some h, Some t) \<Rightarrow> length h = MaxKeysHeld C \<and> length t = MaxKeysHeld C | _ \<Rightarrow> False) \<and>
     MaxKeysHeld C \<le> 8 \<and> NumKeysHeld C \<le> MaxKeysHeld C \<and> distinct (held C) \<and> 0 \<notin> set (held C)"

lemma room_mono: "room A n \<Longrightarrow> m \<le> n \<Longrightarrow> room A m"
  by (simp add: room_def split: option.splits)

lemma raw_loop:
  assumes "held_state C Delta H T ps C'" "distinct (ps @ ks)" "0 \<notin> set ks" "length (ps @ ks) \<le> MaxKeysHeld C" "distinct H"
    "holds A0 A (filter (goes_down C Delta H T) ps)" "room A0 (length (ps @ ks))"
  shows "\<exists>C'' A'. fold_checked (raw_key Delta T) ks (C', marked ps H, length (filter (goes_down C Delta H T) ps), A) =
      Some (C'', marked (ps @ ks) H, length (filter (goes_down C Delta H T) (ps @ ks)), A') \<and>
    held_state C Delta H T (ps @ ks) C'' \<and> holds A0 A' (filter (goes_down C Delta H T) (ps @ ks))"
  using assms
proof (induction ks arbitrary: ps C' A)
  case (Cons k ks)
  have r: "room A0 (Suc (length (filter (goes_down C Delta H T) ps)))"
    by (rule room_mono[OF Cons.prems(7)]) (simp add: trans_le_add1)
  obtain C1 A1 where s: "raw_key Delta T k (C', marked ps H, length (filter (goes_down C Delta H T) ps), A) =
      Some (C1, marked (ps @ [k]) H, length (filter (goes_down C Delta H T) (ps @ [k])), A1)"
    "held_state C Delta H T (ps @ [k]) C1" "holds A0 A1 (filter (goes_down C Delta H T) (ps @ [k]))"
    using raw_key_spec[OF Cons.prems(1) _ Cons.prems(5) _ _ Cons.prems(6) r, of k] Cons.prems(2-4) by auto
  show ?case using Cons.IH[OF s(2) _ _ _ Cons.prems(5) s(3)] Cons.prems(2-4,7) s(1) by (simp del: filter_append)
qed simp

lemma gone_loop:
  assumes "holds A0 A us" "room A0 (length us + length ks)"
  shows "\<exists>A'. fold_checked gone_key ks (length us, A) = Some (length (us @ filter (\<lambda>k. k \<noteq> 0) ks), A') \<and> holds A0 A' (us @ filter (\<lambda>k. k \<noteq> 0) ks)"
  using assms
proof (induction ks arbitrary: us A)
  case (Cons k ks)
  show ?case
  proof (cases "k = 0")
    case True
    have "room A0 (length us + length ks)" using Cons.prems(2) by (auto simp: room_def split: option.splits)
    then show ?thesis using Cons.IH[OF Cons.prems(1)] True by (simp add: gone_key_def)
  next
    case False
    have "room A0 (Suc (length us))" using Cons.prems(2) by (auto simp: room_def split: option.splits)
    then obtain A1 where A1: "put_key A (length us) k = Some A1" "holds A0 A1 (us @ [k])" using put_holds[OF Cons.prems(1)] by blast
    have "room A0 (length (us @ [k]) + length ks)" using Cons.prems(2) by (simp add: room_def)
    from Cons.IH[OF A1(2) this] show ?thesis using A1(1) False by (simp add: gone_key_def)
  qed
qed simp

lemma marked_left: "0 \<notin> set H \<Longrightarrow> filter (\<lambda>k. k \<noteq> 0) (marked ps H) = filter (\<lambda>k. k \<notin> set ps) H"
  by (induction H) (auto simp: marked_def)

lemma OcGetUpDownKeys_spec:
  fixes Now :: u64
  assumes ok: "repeat_ok C" and raw: "\<not> EFI_ERROR Status" "distinct Raw" "0 \<notin> set Raw" "length Raw \<le> MaxKeysHeld C"
    and up: "room Up NumUp" "Up \<noteq> None \<Longrightarrow> MaxKeysHeld C \<le> NumUp"
    and down: "room Down NumDown" "Down \<noteq> None \<Longrightarrow> length Raw \<le> NumDown \<and> NumDown \<le> MaxKeysHeld C" "NumDown \<le> 8"
  defines "Delta \<equiv> Now - PreviousTime C"
  defines "ups \<equiv> filter (\<lambda>k. k \<notin> set Raw) (held C)" and "downs \<equiv> filter (goes_down C Delta (held C) (held_times C)) Raw"
  shows "\<exists>C' Up' Down'. OcGetUpDownKeys C NumUp Up NumDown Down Now (Status, Mods, Raw) = Some (Status, C', length ups, Up', length downs, Down') \<and>
    holds Up Up' ups \<and> holds Down Down' downs \<and> repeat_ok C' \<and> held C' = Raw \<and> held_times C' = map (new_time C Delta (held C) (held_times C)) Raw \<and>
    PreviousTime C' = Now \<and> InitialDelay C' = InitialDelay C \<and> SubsequentDelay C' = SubsequentDelay C \<and> MaxKeysHeld C' = MaxKeysHeld C"
proof -
  obtain h t where ht: "KeysHeld C = Some h" "KeyHeldTimes C = Some t" "length h = MaxKeysHeld C" "length t = MaxKeysHeld C" using ok by (auto simp: repeat_ok_def split: option.splits)
  have lim: "MaxKeysHeld C \<le> 8" "NumKeysHeld C \<le> MaxKeysHeld C" "distinct (held C)" "0 \<notin> set (held C)" using ok by (simp_all add: repeat_ok_def)
  let ?C = "C\<lparr>PreviousTime := Now\<rparr>" and ?H = "held C" and ?T = "held_times C"
  have g: "goes_down ?C Delta ?H ?T = goes_down C Delta ?H ?T" "new_time ?C Delta ?H ?T = new_time C Delta ?H ?T" by (intro ext; simp add: goes_down_def new_time_def repeat_due_def)+
  have h0: "held_state ?C Delta ?H ?T [] (?C\<lparr>NumKeysHeld := 0\<rparr>)" using ht unfolding held_state_def by (intro exI[of _ h] exI[of _ t]) simp
  have r: "room Down (length ([] @ Raw))" using down(1,2) by (cases Down) (auto simp: room_def)
  have m0: "marked [] ?H = ?H" by (simp add: marked_def)
  obtain C' Down' where c: "fold_checked (raw_key Delta ?T) Raw (?C\<lparr>NumKeysHeld := 0\<rparr>, ?H, 0, Down) = Some (C', marked Raw ?H, length downs, Down')"
    "held_state ?C Delta ?H ?T Raw C'" "holds Down Down' downs"
    using raw_loop[OF h0 _ _ _ lim(3) _ r, of Down] raw(2-4) holds_Nil[of Down] m0 g(1) by (auto simp: downs_def)
  have "length ?H \<le> MaxKeysHeld C" using lim(2) ht by (simp add: held_def)
  then have "room Up (length ([] :: key_code list) + length (marked Raw ?H))" using up by (cases Up) (auto simp: room_def marked_def)
  then obtain Up' where u: "fold_checked gone_key (marked Raw ?H) (0, Up) = Some (length ups, Up')" "holds Up Up' ups"
    using gone_loop[OF holds_Nil, of Up "marked Raw ?H"] marked_left[OF lim(4)] by (auto simp: ups_def)
  have guards: "\<not> (KeysHeld ?C \<noteq> None \<and> Up \<noteq> None \<and> MaxKeysHeld ?C > NumUp)" "\<not> (KeysHeld ?C \<noteq> None \<and> Down \<noteq> None \<and> NumDown > MaxKeysHeld ?C)"
    "\<not> (KeysHeld ?C \<noteq> None \<and> MaxKeysHeld ?C > OC_HELD_KEYS_DEFAULT_SIZE)" "\<not> NumDown > OC_KEY_MAP_DEFAULT_SIZE" "\<not> (Down \<noteq> None \<and> length Raw > NumDown)"
    using up(2) down(2,3) lim(1) by (auto simp: OC_HELD_KEYS_DEFAULT_SIZE_def OC_KEY_MAP_DEFAULT_SIZE_def)
  have HT: "take (NumKeysHeld C) h = ?H" "take (NumKeysHeld C) t = ?T" using ht by (simp_all add: held_def held_times_def)
  have "OcGetUpDownKeys C NumUp Up NumDown Down Now (Status, Mods, Raw) = Some (Status, C', length ups, Up', length downs, Down')"
    using guards c(1) u(1) ht lim raw(1) HT unfolding OcGetUpDownKeys_def Delta_def[symmetric] Let_def
    by (simp add: OC_HELD_KEYS_DEFAULT_SIZE_def) auto
  moreover obtain h' t' where c': "C' = ?C\<lparr>KeysHeld := Some h', KeyHeldTimes := Some t', NumKeysHeld := length Raw\<rparr>" "length h' = MaxKeysHeld C" "length t' = MaxKeysHeld C"
    "take (length Raw) h' = Raw" "take (length Raw) t' = map (new_time C Delta ?H ?T) Raw" using c(2) g(2) by (auto simp: held_state_def)
  moreover have "held C' = Raw" "held_times C' = map (new_time C Delta ?H ?T) Raw" using c' by (simp_all add: held_def held_times_def)
  moreover have "repeat_ok C'" using calculation raw lim(1) by (simp add: repeat_ok_def)
  ultimately show ?thesis using u(2) c(3) by (intro exI[of _ C'] exI[of _ Up'] exI[of _ Down']) simp
qed

definition repeat_sample :: OC_KEY_REPEAT_CONTEXT where
  "repeat_sample = \<lparr>InitialDelay = 350, SubsequentDelay = 80, PreviousTime = 1000, KeysHeld = Some [0x704, 0x706, 0], KeyHeldTimes = Some [- 10, - 350, 0], NumKeysHeld = 2, MaxKeysHeld = 3\<rparr>"

text \<open>A key that was pressed when the context was made: its time is far in the past.\<close>

definition quiet :: "OC_KEY_REPEAT_CONTEXT \<Rightarrow> key_code \<Rightarrow> bool" where
  "quiet C k \<longleftrightarrow> k \<in> set (held C) \<and> held_times C ! first_index k (held C) = PreviousTime C - 0x3FFFFFFFFFFFFFFF - InitialDelay C"

lemma first_index_nth: "k \<in> set ks \<Longrightarrow> map f ks ! first_index k ks = f k"
  by (induction ks) (auto simp: first_index_def)

lemma bit_63_high: "2 ^ 63 \<le> unat (w :: u64) \<Longrightarrow> bit w 63"
proof -
  assume h: "2 ^ 63 \<le> unat w"
  have "unat w div 2 ^ 63 = 1" using h unsigned_less[of w, where ?'a = nat] by (simp add: div_nat_eqI)
  then have "bit (unat w) 63" by (simp add: bit_iff_odd)
  then show ?thesis by (simp add: bit_unsigned_iff)
qed

lemma far_past:
  assumes "(Now :: u64) < 0x3FFFFFFFFFFFFFFF" "D < 0x4000000000000000"
  shows "bit (Now - 0x3FFFFFFFFFFFFFFF - D) 63"
proof (rule bit_63_high)
  define x where "x = unat Now + (2 ^ 64 - 0x3FFFFFFFFFFFFFFF - unat D)"
  have n: "unat Now < 0x3FFFFFFFFFFFFFFF" "unat D < 0x4000000000000000" using assms by (simp_all add: word_less_nat_alt)
  have w: "(word_of_nat (2 ^ 64) :: u64) = 0" by simp
  have "(word_of_nat x :: u64) = word_of_nat (unat Now) + (word_of_nat (2 ^ 64) - word_of_nat 0x3FFFFFFFFFFFFFFF - word_of_nat (unat D))"
    unfolding x_def using n by (simp add: of_nat_diff)
  then have "Now - 0x3FFFFFFFFFFFFFFF - D = (word_of_nat x :: u64)" unfolding w by simp
  moreover have "x < 2 ^ 64" "2 ^ 63 \<le> x" using n by (simp_all add: x_def)
  ultimately show "2 ^ 63 \<le> unat (Now - 0x3FFFFFFFFFFFFFFF - D)" by (simp add: unat_of_nat)
qed

lemma quiet_step:
  assumes "quiet C k" "k \<in> set Raw" "Now < 0x3FFFFFFFFFFFFFFF" "InitialDelay C < 0x4000000000000000"
    and C': "held C' = Raw" "held_times C' = map (new_time C (Now - PreviousTime C) (held C) (held_times C)) Raw" "PreviousTime C' = Now" "InitialDelay C' = InitialDelay C"
  shows "\<not> goes_down C (Now - PreviousTime C) (held C) (held_times C) k" "quiet C' k"
proof -
  have p: "passed_time (Now - PreviousTime C) (held C) (held_times C) k = Now - 0x3FFFFFFFFFFFFFFF - InitialDelay C" and h: "k \<in> set (held C)"
    using assms(1) by (simp_all add: quiet_def passed_time_def)
  have d: "\<not> repeat_due C (passed_time (Now - PreviousTime C) (held C) (held_times C) k)" using far_past[OF assms(3,4)] by (simp add: p repeat_due_def)
  then show "\<not> goes_down C (Now - PreviousTime C) (held C) (held_times C) k" using h by (simp add: goes_down_def)
  have "new_time C (Now - PreviousTime C) (held C) (held_times C) k = Now - 0x3FFFFFFFFFFFFFFF - InitialDelay C" using d h p by (simp add: new_time_def)
  then show "quiet C' k" using assms(2) C' by (simp add: quiet_def first_index_nth)
qed

text \<open>A menu that polls with room for all keys: the times and pressed keys of the polls, and the keys that each poll reports as down.\<close>

fun poll_downs :: "OC_KEY_REPEAT_CONTEXT \<Rightarrow> (u64 \<times> key_code list) list \<Rightarrow> key_code list list option" where
  "poll_downs C [] = Some []"
| "poll_downs C ((Now, Raw) # ps) =
     do {
       let room = replicate (MaxKeysHeld C) 0;
       (_, C, _, _, n, Downs) \<leftarrow> OcGetUpDownKeys C (MaxKeysHeld C) (Some room) (MaxKeysHeld C) (Some room) Now (RETURN_SUCCESS, 0, Raw);
       Downs \<leftarrow> Downs;
       rest \<leftarrow> poll_downs C ps;
       Some (take n Downs # rest)
     }"

definition poll_ok :: "nat \<Rightarrow> u64 \<times> key_code list \<Rightarrow> bool" where
  "poll_ok n = (\<lambda>(Now, Raw). Now < 0x3FFFFFFFFFFFFFFF \<and> distinct Raw \<and> 0 \<notin> set Raw \<and> length Raw \<le> n)"

lemma quiet_polls:
  assumes "repeat_ok C" "quiet C k" "InitialDelay C < 0x4000000000000000" "list_all (\<lambda>p. poll_ok (MaxKeysHeld C) p \<and> k \<in> set (snd p)) ps"
  shows "\<exists>ds. poll_downs C ps = Some ds \<and> list_all (\<lambda>d. k \<notin> set d) ds"
  using assms
proof (induction ps arbitrary: C)
  case (Cons p ps)
  obtain Now Raw where p: "p = (Now, Raw)" by (cases p)
  have raw: "Now < 0x3FFFFFFFFFFFFFFF" "distinct Raw" "0 \<notin> set Raw" "length Raw \<le> MaxKeysHeld C" "k \<in> set Raw" using Cons.prems(4) by (simp_all add: p poll_ok_def)
  have m: "MaxKeysHeld C \<le> 8" using Cons.prems(1) by (simp add: repeat_ok_def)
  let ?r = "replicate (MaxKeysHeld C) (0 :: key_code)" and ?g = "goes_down C (Now - PreviousTime C) (held C) (held_times C)"
  obtain C' U D n where s: "OcGetUpDownKeys C (MaxKeysHeld C) (Some ?r) (MaxKeysHeld C) (Some ?r) Now (RETURN_SUCCESS, 0, Raw) = Some (RETURN_SUCCESS, C', n, U, length (filter ?g Raw), D)"
    "holds (Some ?r) D (filter ?g Raw)" "repeat_ok C'" "held C' = Raw" "held_times C' = map (new_time C (Now - PreviousTime C) (held C) (held_times C)) Raw"
    "PreviousTime C' = Now" "InitialDelay C' = InitialDelay C" "MaxKeysHeld C' = MaxKeysHeld C"
    using OcGetUpDownKeys_spec[OF Cons.prems(1) EFI_ERROR_simps(1) raw(2-4), of "Some ?r" "MaxKeysHeld C" "Some ?r" "MaxKeysHeld C" Now 0] raw(4) m by (auto simp: room_def)
  obtain b where b: "D = Some b" "take (length (filter ?g Raw)) b = filter ?g Raw" using s(2) by (auto simp: holds_def)
  note q = quiet_step[OF Cons.prems(2) raw(5,1) Cons.prems(3) s(4-7)]
  obtain ds where "poll_downs C' ps = Some ds" "list_all (\<lambda>d. k \<notin> set d) ds"
    using Cons.IH[OF s(3) q(2)] Cons.prems(3,4) s(7,8) by auto
  then show ?case using s(1) b q(1) by (simp add: p Let_def)
qed simp

text \<open>
  C37: a context made with \<open>PreventInitialRepeat\<close> keeps the keys that were pressed at that time quiet: as long as such a key stays pressed, no poll at a time
  below \<^verbatim>\<open>MAX_INT64 >> 1\<close> reports it as going down, neither at once nor as a repetition.
\<close>

theorem OcInitKeyRepeatContext_quiet:
  assumes "0 < N" "N \<le> 8" "length Keys = N" "length Times = N" "Initial < 0x4000000000000000"
    "distinct Raw" "0 \<notin> set Raw" "length Raw \<le> N" "k \<in> set Raw" "list_all (\<lambda>p. poll_ok N p \<and> k \<in> set (snd p)) ps"
  shows "\<exists>C ds. OcInitKeyRepeatContext True (Some Keys) (Some Times) Junk N Initial Subsequent True (RETURN_SUCCESS, Mods, Raw) = Some (RETURN_SUCCESS, Some C) \<and>
    poll_downs C ps = Some ds \<and> list_all (\<lambda>d. k \<notin> set d) ds"
proof -
  define C0 where "C0 = \<lparr>InitialDelay = Initial, SubsequentDelay = Subsequent, PreviousTime = 0, KeysHeld = Some Keys, KeyHeldTimes = Some Times, NumKeysHeld = 0, MaxKeysHeld = N\<rparr>"
  have c: "held C0 = []" "MaxKeysHeld C0 = N" "InitialDelay C0 = Initial" by (simp_all add: C0_def held_def)
  have ok: "repeat_ok C0" using assms(2-4) by (simp add: repeat_ok_def held_def C0_def)
  have pre: "length Raw \<le> MaxKeysHeld C0" "room None 0" "room None N" using assms(8) c by (simp_all add: room_def)
  obtain C U D n m where s: "OcGetUpDownKeys C0 0 None N None 0x3FFFFFFFFFFFFFFF (RETURN_SUCCESS, Mods, Raw) = Some (RETURN_SUCCESS, C, n, U, m, D)"
    "repeat_ok C" "held C = Raw" "held_times C = map (new_time C0 (0x3FFFFFFFFFFFFFFF - PreviousTime C0) (held C0) (held_times C0)) Raw" "PreviousTime C = 0x3FFFFFFFFFFFFFFF"
    "InitialDelay C = InitialDelay C0" "MaxKeysHeld C = MaxKeysHeld C0"
    using OcGetUpDownKeys_spec[OF ok EFI_ERROR_simps(1) assms(6,7) pre(1,2) _ pre(3) _ assms(2), of "0x3FFFFFFFFFFFFFFF" Mods] by blast
  have "quiet C k" using s(3-6) assms(9) by (simp add: quiet_def first_index_nth new_time_def c)
  then obtain ds where "poll_downs C ps = Some ds" "list_all (\<lambda>d. k \<notin> set d) ds" using quiet_polls[OF s(2)] s(6,7) assms(5,10) c by auto
  then show ?thesis using s(1) assms(1) unfolding C0_def by (intro exI[of _ C] exI[of _ ds]) (simp add: OcInitKeyRepeatContext_def Let_def)
qed

theorem OcInitKeyRepeatContext_quiet_witness:
  "\<exists>C ds. OcInitKeyRepeatContext True (Some [0, 0]) (Some [0, 0]) None 2 350 80 True (RETURN_SUCCESS, 0, [0x704]) = Some (RETURN_SUCCESS, Some C) \<and>
    poll_downs C [(10, [0x704]), (1000, [0x705, 0x704]), (5000, [0x704])] = Some ds \<and> list_all (\<lambda>d. 0x704 \<notin> set d) ds"
proof -
  have "distinct [0x704 :: key_code]" "(0 :: key_code) \<notin> set [0x704]" "(0x704 :: key_code) \<in> set [0x704]" "length [0, 0 :: key_code] = 2" "length [0, 0 :: u64] = 2"
    "length [0x704 :: key_code] \<le> 2" "(350 :: u64) < 0x4000000000000000"
    "list_all (\<lambda>p. poll_ok 2 p \<and> 0x704 \<in> set (snd p)) [(10, [0x704]), (1000, [0x705, 0x704]), (5000, [0x704])]" by code_simp+
  then show ?thesis by (intro OcInitKeyRepeatContext_quiet) simp_all
qed

text \<open>When more keys are pressed than the context holds, the call in \<open>OcInitKeyRepeatContext\<close>, which gives no array for the keys, writes past the end of \<open>KeysHeld\<close>.\<close>

lemma OcInitKeyRepeatContext_overruns:
  "OcInitKeyRepeatContext True (Some [0]) (Some [0]) None 1 350 80 True (RETURN_SUCCESS, 0, [0x704, 0x705]) = None"
  by code_simp

section \<open>Polling the key map\<close>

text \<open>\<open>GetKeyStrokes\<close> of the protocol as \<open>OcGetUpDownKeys\<close> calls it: an array of \<open>n\<close> places, of which the reported number is read.\<close>

definition KeyMapGetKeyStrokes :: "KEY_MAP_AGGREGATOR_DATA \<Rightarrow> nat \<Rightarrow> (u64 \<times> u16 \<times> key_code list \<times> KEY_MAP_AGGREGATOR_DATA) option" where
  "KeyMapGetKeyStrokes d n =
     do {
       (Status, Mods, k, ks, d) \<leftarrow> InternalGetKeyStrokes 0 n (Some (replicate n 0)) d;
       ks \<leftarrow> ks;
       Some (Status, Mods, take k ks, d)
     }"

definition poll_keys ::
  "('s \<Rightarrow> nat \<Rightarrow> (u64 \<times> u16 \<times> key_code list \<times> 's) option) \<Rightarrow> OC_KEY_REPEAT_CONTEXT \<Rightarrow> 's \<Rightarrow> nat \<Rightarrow> key_code list option \<Rightarrow> nat \<Rightarrow> key_code list option \<Rightarrow> u64 \<Rightarrow>
   ((u64 \<times> OC_KEY_REPEAT_CONTEXT \<times> nat \<times> key_code list option \<times> nat \<times> key_code list option) \<times> 's) option" where
  "poll_keys Get C s NumUp Up NumDown Down Now =
     do {
       (Status, Mods, Raw, s) \<leftarrow> Get s OC_KEY_MAP_DEFAULT_SIZE;
       r \<leftarrow> OcGetUpDownKeys C NumUp Up NumDown Down Now (Status, Mods, Raw);
       Some (r, s)
     }"

text \<open>What the detection needs of a key map.\<close>

locale key_map_protocol =
  fixes GetKeyStrokes :: "'s \<Rightarrow> nat \<Rightarrow> (u64 \<times> u16 \<times> key_code list \<times> 's) option"
    and key_map_ok :: "'s \<Rightarrow> bool"
    and pressed :: "'s \<Rightarrow> key_code list"
  assumes get_fits: "key_map_ok s \<Longrightarrow> length (pressed s) \<le> n \<Longrightarrow> \<exists>m s'. GetKeyStrokes s n = Some (RETURN_SUCCESS, m, pressed s, s') \<and> key_map_ok s' \<and> pressed s' = pressed s"
    and get_short: "key_map_ok s \<Longrightarrow> n < length (pressed s) \<Longrightarrow> \<exists>m ks s'. GetKeyStrokes s n = Some (RETURN_BUFFER_TOO_SMALL, m, ks, s') \<and> key_map_ok s' \<and> pressed s' = pressed s"
    and pressed_distinct: "key_map_ok s \<Longrightarrow> distinct (pressed s)"
begin

lemma poll_fits:
  fixes Now :: u64
  assumes s: "key_map_ok s" "0 \<notin> set (pressed s)" "length (pressed s) \<le> MaxKeysHeld C" and C: "repeat_ok C"
    and arrays: "length Ups = MaxKeysHeld C" "length Downs = MaxKeysHeld C"
  defines "Delta \<equiv> Now - PreviousTime C"
  defines "ups \<equiv> filter (\<lambda>k. k \<notin> set (pressed s)) (held C)" and "downs \<equiv> filter (goes_down C Delta (held C) (held_times C)) (pressed s)"
  shows "\<exists>C' Ups' Downs' s'. poll_keys GetKeyStrokes C s (MaxKeysHeld C) (Some Ups) (MaxKeysHeld C) (Some Downs) Now =
      Some ((RETURN_SUCCESS, C', length ups, Some Ups', length downs, Some Downs'), s') \<and>
    take (length ups) Ups' = ups \<and> take (length downs) Downs' = downs \<and> repeat_ok C' \<and> held C' = pressed s \<and>
    held_times C' = map (new_time C Delta (held C) (held_times C)) (pressed s) \<and> PreviousTime C' = Now \<and> key_map_ok s' \<and> pressed s' = pressed s"
proof -
  have m: "MaxKeysHeld C \<le> 8" using C by (simp add: repeat_ok_def)
  then have "length (pressed s) \<le> OC_KEY_MAP_DEFAULT_SIZE" using s(3) by (simp add: OC_KEY_MAP_DEFAULT_SIZE_def)
  then obtain md s' where g: "GetKeyStrokes s OC_KEY_MAP_DEFAULT_SIZE = Some (RETURN_SUCCESS, md, pressed s, s')" "key_map_ok s'" "pressed s' = pressed s"
    using get_fits[OF s(1)] by blast
  have r: "room (Some Ups) (MaxKeysHeld C)" "room (Some Downs) (MaxKeysHeld C)" using arrays by (simp_all add: room_def)
  obtain C' Up' Down' where u: "OcGetUpDownKeys C (MaxKeysHeld C) (Some Ups) (MaxKeysHeld C) (Some Downs) Now (RETURN_SUCCESS, md, pressed s) =
      Some (RETURN_SUCCESS, C', length ups, Up', length downs, Down')" "holds (Some Ups) Up' ups" "holds (Some Downs) Down' downs" "repeat_ok C'" "held C' = pressed s"
    "held_times C' = map (new_time C Delta (held C) (held_times C)) (pressed s)" "PreviousTime C' = Now"
    using OcGetUpDownKeys_spec[OF C EFI_ERROR_simps(1) pressed_distinct[OF s(1)] s(2,3) r(1) _ r(2) _ m, of Now md] s(3) unfolding Delta_def ups_def downs_def by auto
  then show ?thesis using g by (auto simp: holds_def poll_keys_def)
qed

lemma poll_short:
  assumes "key_map_ok s" "MaxKeysHeld C < length (pressed s)" "repeat_ok C"
  shows "\<exists>s'. poll_keys GetKeyStrokes C s (MaxKeysHeld C) (Some Ups) (MaxKeysHeld C) (Some Downs) Now =
    Some ((RETURN_BUFFER_TOO_SMALL, C\<lparr>PreviousTime := Now\<rparr>, MaxKeysHeld C, Some Ups, MaxKeysHeld C, Some Downs), s') \<and> key_map_ok s' \<and> pressed s' = pressed s"
proof -
  have "\<exists>St m ks s'. GetKeyStrokes s 8 = Some (St, m, ks, s') \<and> (St = RETURN_BUFFER_TOO_SMALL \<or> St = RETURN_SUCCESS \<and> MaxKeysHeld C < length ks) \<and> key_map_ok s' \<and> pressed s' = pressed s"
    using get_fits[OF assms(1), of 8] get_short[OF assms(1), of 8] assms(2) by (cases "length (pressed s) \<le> 8") force+
  then show ?thesis using assms(3)
    by (auto simp: poll_keys_def OC_KEY_MAP_DEFAULT_SIZE_def OC_HELD_KEYS_DEFAULT_SIZE_def OcGetUpDownKeys_def repeat_ok_def split: option.splits)
qed

end

lemma pressed_keys_sets: "key_sets d' = key_sets d \<Longrightarrow> pressed_keys d' = pressed_keys d"
proof -
  have "pressed_keys d = add_new [] (concat (map (\<lambda>(i, m, ks). ks) (key_sets d)))" for d by (simp add: pressed_keys_def key_sets_def comp_def)
  then show "key_sets d' = key_sets d \<Longrightarrow> pressed_keys d' = pressed_keys d" by simp
qed

interpretation key_map: key_map_protocol KeyMapGetKeyStrokes km_inv pressed_keys
proof
  fix d :: KEY_MAP_AGGREGATOR_DATA and n
  assume d: "km_inv d"
  have "case Some (replicate n 0) of None \<Rightarrow> True | Some ks \<Rightarrow> n \<le> length (ks :: key_code list)" by simp
  from InternalGetKeyStrokes_spec[OF d this, of 0] obtain d' where g: "InternalGetKeyStrokes 0 n (Some (replicate n 0)) d =
      Some (if length (pressed_keys d) \<le> n
        then (RETURN_SUCCESS, pressed_modifiers d, length (pressed_keys d), map_option (\<lambda>ks. overwrite ks 0 (pressed_keys d)) (Some (replicate n 0)), d')
        else (RETURN_BUFFER_TOO_SMALL, 0, length (pressed_keys d), Some (replicate n 0), d'))" "km_inv d'" "pressed_keys d' = pressed_keys d"
    using pressed_keys_sets by blast
  show "\<exists>m s'. KeyMapGetKeyStrokes d n = Some (RETURN_SUCCESS, m, pressed_keys d, s') \<and> km_inv s' \<and> pressed_keys s' = pressed_keys d" if "length (pressed_keys d) \<le> n"
    using g that by (simp add: KeyMapGetKeyStrokes_def overwrite_def)
  show "\<exists>m ks s'. KeyMapGetKeyStrokes d n = Some (RETURN_BUFFER_TOO_SMALL, m, ks, s') \<and> km_inv s' \<and> pressed_keys s' = pressed_keys d" if "n < length (pressed_keys d)"
    using g that by (simp add: KeyMapGetKeyStrokes_def)
qed (rule distinct_pressed_keys)

text \<open>
  C13: for a key map in any reachable state whose pressed keys fit into the context, \<open>OcGetUpDownKeys\<close> returns as going up the held keys that are no longer pressed, and as going down the pressed
  keys that were not held or whose repeat time has come. It stays inside all arrays, and afterwards the pressed keys are the held ones, a new key with the initial delay to run and a repeated
  one with the subsequent delay. When more keys are pressed than the context and the arrays hold, it reports that the buffer is too small, writes no array and keeps the held keys.
\<close>

theorem OcGetUpDownKeys_correct:
  fixes Now :: u64
  assumes "km_reachable d" "repeat_ok C" "length Ups = MaxKeysHeld C" "length Downs = MaxKeysHeld C"
  defines "Delta \<equiv> Now - PreviousTime C"
  defines "ups \<equiv> filter (\<lambda>k. k \<notin> set (pressed_keys d)) (held C)" and "downs \<equiv> filter (goes_down C Delta (held C) (held_times C)) (pressed_keys d)"
  shows "(0 \<notin> set (pressed_keys d) \<and> length (pressed_keys d) \<le> MaxKeysHeld C \<longrightarrow>
      (\<exists>C' Ups' Downs' d'. poll_keys KeyMapGetKeyStrokes C d (MaxKeysHeld C) (Some Ups) (MaxKeysHeld C) (Some Downs) Now =
         Some ((RETURN_SUCCESS, C', length ups, Some Ups', length downs, Some Downs'), d') \<and>
       take (length ups) Ups' = ups \<and> take (length downs) Downs' = downs \<and> repeat_ok C' \<and> held C' = pressed_keys d \<and>
       held_times C' = map (new_time C Delta (held C) (held_times C)) (pressed_keys d) \<and> PreviousTime C' = Now)) \<and>
    (MaxKeysHeld C < length (pressed_keys d) \<longrightarrow>
      (\<exists>d'. poll_keys KeyMapGetKeyStrokes C d (MaxKeysHeld C) (Some Ups) (MaxKeysHeld C) (Some Downs) Now =
         Some ((RETURN_BUFFER_TOO_SMALL, C\<lparr>PreviousTime := Now\<rparr>, MaxKeysHeld C, Some Ups, MaxKeysHeld C, Some Downs), d')))"
  using key_map.poll_fits[OF km_reachable_inv[OF assms(1)] _ _ assms(2-4), of Now] key_map.poll_short[OF km_reachable_inv[OF assms(1)] _ assms(2), of Ups Downs Now]
  unfolding Delta_def ups_def downs_def by blast

theorem OcGetUpDownKeys_correct_witness:
  "\<exists>C' Ups' Downs' d'. poll_keys KeyMapGetKeyStrokes repeat_sample key_sample2 3 (Some [0, 0, 0]) 3 (Some [0, 0, 0]) 1020 = Some ((RETURN_SUCCESS, C', 1, Some Ups', 2, Some Downs'), d') \<and>
    take 1 Ups' = [0x706] \<and> take 2 Downs' = [0x704, 0x705] \<and> held_times C' = [- 70, - 350]"
proof -
  have ok: "repeat_ok repeat_sample" by code_simp
  have p: "pressed_keys key_sample2 = [0x704, 0x705]" "MaxKeysHeld repeat_sample = 3" by code_simp+
  have s: "filter (\<lambda>k. k \<notin> set [0x704, 0x705]) (held repeat_sample) = [0x706]"
    "filter (goes_down repeat_sample (1020 - PreviousTime repeat_sample) (held repeat_sample) (held_times repeat_sample)) [0x704, 0x705] = [0x704, 0x705]"
    "map (new_time repeat_sample (1020 - PreviousTime repeat_sample) (held repeat_sample) (held_times repeat_sample)) [0x704, 0x705] = [- 70, - 350]" by code_simp+
  have l: "length [0x704, 0x705 :: key_code] = 2" "length [0x706 :: key_code] = 1" "length [0, 0, 0 :: key_code] = 3" by simp_all
  have z: "(0 :: key_code) \<notin> set [0x704, 0x705] \<and> (2 :: nat) \<le> 3" by code_simp
  show ?thesis using OcGetUpDownKeys_correct[OF key_sample_reachable(2) ok, unfolded p, OF l(3) l(3), of 1020, unfolded s l] z by blast
qed

end
