(* ===== verification/Spec2Isabelle.thy ===== *)
theory Spec2Isabelle
  imports Oc_DataPatcher Oc_Rsa Oc_Md5Sha1 Oc_Aes Oc_ChaCha Oc_Password Oc_Chunklist Oc_Flex Oc_DiskImage Oc_Umm Oc_MemoryAttributes Oc_KeyMap
begin

text \<open>
  \<^bold>\<open>Verification of the core libraries of the OpenCore boot loader\<close>

  OpenCore is a UEFI boot loader for macOS. Its C sources under \<^verbatim>\<open>src/Library\<close> hold, beside glue to firmware
  protocols, libraries with logic of their own: cryptography that decides which images are trusted, a RAM
  disk that holds a recovery image, the signed chunk list that authenticates it, the reader of that image, the property list
  parser that reads the configuration, the memory map and the heap for runtime services, the map of pressed keys, and a patch engine for the kernel and the ACPI tables. This development models those libraries function by function and
  proves them correct. A definition has the name of the C function or type it models; helper definitions
  (\<open>..._step\<close>, \<open>..._loop\<close>, \<open>..._body\<close>) are loop bodies and parts of a function.

  \<^bold>\<open>Conventions.\<close>
  \<^item> A C array is a list together with the size that the code passes; machine integers are words of their C width, so
    additions and comparisons wrap as in C. \<open>UINTN\<close> is 64 bits wide. A counter that cannot reach its
    width is a natural number.
  \<^item> Accesses outside a buffer are values where the property depends on them: \<open>rd\<close>, \<open>wr\<close> and their block forms return \<open>None\<close> (data
    patcher, \<open>BigNumMod\<close>, flex arrays, property lists, disk images, runtime heap, key maps); elsewhere the size hypotheses of a theorem exclude them.
  \<^item> A function that writes through a pointer returns the new contents. Arguments that may alias in the code (\<open>BigNumSub\<close>,
    \<open>BigNumMontMul\<close>, \<open>ChaChaCryptBuffer\<close>) have a model for the aliased call, too.
  \<^item> \<^verbatim>\<open>for\<close> loops without exit are folds over an interval (\<open>fold_upt_inv\<close> is their invariant rule). \<^verbatim>\<open>while\<close> loops are
    \<open>function\<close>s with a termination proof, or \<open>iterate\<close> (a least fixed point: \<open>None\<close> is a loop that does not
    end; \<open>iterate_total\<close> proves that one ends, \<open>iterate_never\<close> that one does not). No fuel is used.
  \<^item> Firmware services, allocations and assembly are arguments. \<open>ASSERT\<close>s and debug output are left out. Where an assertion matters a theorem
    has it as a hypothesis (extent tables, attribute tables, non-empty chunks); \<open>BigNumMod\<close> shifts in place by whole words, which two assertions of its right shift forbid although
    the shift is right.
  \<^item> The EDK II base library is modelled by its documented behaviour: \<open>CopyMem\<close> and \<open>ZeroMem\<close> are \<open>overwrite\<close>, \<open>CompareMem\<close>
    is the function of that name, and the \<open>BaseOverflow\<close> functions compute whether the exact result fits.

  \<^bold>\<open>Theories.\<close>
  \<^descr> \<open>Oc_Prelude\<close>: checked accesses, windows of lists, loops, word lemmas, overflow-checked arithmetic.
  \<^descr> \<open>Oc_DataPatcher\<close> (\<^verbatim>\<open>OcMiscLib/DataPatcher.c\<close>): masked search and replace. \<open>ApplyPatch\<close> equals a reference
    patch over the greedy occurrences and stays in its buffers.
  \<^descr> \<open>Oc_BigNumVal\<close>, \<open>Oc_BigNum\<close>, \<open>Oc_BigNumMod\<close> (\<^verbatim>\<open>OcCryptoLib/BigNumPrimitives.c\<close>, \<^verbatim>\<open>Cpu32\<close>, \<^verbatim>\<open>Cpu64\<close>): numbers as lists of words, with
    their value; the primitives compute on the values, and the shift-and-subtract reduction ends and computes the remainder.
    The locale \<open>bn_word_mul\<close> is what the callers need of the word product; both processor variants are interpretations.
  \<^descr> \<open>Oc_Montgomery\<close> (\<^verbatim>\<open>OcCryptoLib/BigNumMontgomery.c\<close>): Montgomery parameters, product and power.
  \<^descr> \<open>Oc_MerkleDamgard\<close>, \<open>Oc_Sha256\<close>, \<open>Oc_Sha512\<close>, \<open>Oc_Md5Sha1\<close> (\<^verbatim>\<open>Sha2.c\<close>, \<^verbatim>\<open>Md5.c\<close>, \<^verbatim>\<open>Sha1.c\<close>): the buffering code is verified
    once over the locale \<open>md_transform\<close> and instantiated per hash; streaming equals the padded construction.
  \<^descr> \<open>Oc_Rsa\<close> (\<^verbatim>\<open>RsaDigitalSign.c\<close>): every entry point refines PKCS#1 v1.5 verification of the residue of the signature modulo the modulus
    (the code leaves out the range check of the signature).
  \<^descr> \<open>Oc_Aes\<close> (\<^verbatim>\<open>Aes.c\<close>): the locale \<open>block_cipher\<close> carries the CBC mode; key schedule, inverse cipher, counter mode.
  \<^descr> \<open>Oc_ChaCha\<close> (\<^verbatim>\<open>ChaCha.c\<close>), \<open>Oc_Password\<close> (\<^verbatim>\<open>SecureMem.c\<close>, \<^verbatim>\<open>PasswordHash.c\<close>).
  \<^descr> \<open>Oc_RamDisk\<close> (\<^verbatim>\<open>OcAppleRamDiskLib.c\<close>): allocation keeps a table invariant; reads and writes across extents refine one
    byte array.
  \<^descr> \<open>Oc_AppleKeys\<close> (\<^verbatim>\<open>OcAppleKeysLib.c\<close>): the two stored keys with their Montgomery constants, checked by evaluation.
  \<^descr> \<open>Oc_Chunklist\<close> (\<^verbatim>\<open>OcAppleChunklistLib.c\<close>, the trust decision of \<^verbatim>\<open>OcBootManagementLib/DmgBootSupport.c\<close>): composes the hash,
    the signature, the keys and the RAM disk: an image is trusted exactly when a stored key accepts the signature and the disk matches the
    chunks; the code does not make sure that the table of chunks is inside the signed part, and the theorem says what holds when it is.
  \<^descr> \<open>Oc_Flex\<close> (\<^verbatim>\<open>OcFlexArrayLib\<close>): growable arrays and string buffers refine lists, also when allocations fail.
  \<^descr> \<open>Oc_Xml\<close>, \<open>Oc_XmlExport\<close>, \<open>Oc_Plist\<close> (\<^verbatim>\<open>OcXmlLib.c\<close>): the parser works in place on a buffer and never leaves it; export and parsing are
    inverse on well-formed trees; the accessors of property lists.
  \<^descr> \<open>Oc_DiskImage\<close> (\<^verbatim>\<open>OcAppleDiskImageLib\<close>): the block tables of the property list of an image are checked and swapped, and reads of sectors deliver
    the bytes that the chunks serve, which are those of the image where the chunks do not overlap, on top of the property list and RAM disk components.
  \<^descr> \<open>Oc_Umm\<close> (\<^verbatim>\<open>OcMemoryLib/UmmMalloc.c\<close>): the best-fit allocator of the runtime heap, as a step relation of the allocator and clients that write to what
    they own: allocations are disjoint and keep their contents, no operation leaves the heap, and memory is never lost (liveness).
  \<^descr> \<open>Oc_Memory\<close>, \<open>Oc_MemoryMap\<close>, \<open>Oc_MemoryAttributes\<close> (\<^verbatim>\<open>OcMemoryLib/MemoryMap.c\<close>, \<^verbatim>\<open>MemoryAlloc.c\<close>, \<^verbatim>\<open>MemoryAttributes.c\<close>): descriptors as the RAM disk uses
    them, too; sorting, joining and allocation from the top (highest address on sorted maps); a map is read as a function from addresses to attributes and types, and splitting by and completing the attributes table are
    specified on it.
  \<^descr> \<open>Oc_KeyMap\<close> (\<^verbatim>\<open>OcAppleKeyMapLib\<close>): the database of pressed keys refines a list of key sets in all reachable states, also when allocations fail (\<open>db_reachable\<close>); in the states whose shared buffer is allocated
    (\<open>km_reachable\<close>) the aggregator collects the pressed keys; the detection of keys that go up, go down and
    repeat is verified over the locale \<open>key_map_protocol\<close>, of which the database is an interpretation.

  \<^bold>\<open>Not modelled.\<close> Vendored code (zlib, lodepng, libDER, helix), copies of EDK II drivers, generated tables, and code that
  mostly calls UEFI protocols. Of the loader's own logic strings, the schema-driven serialiser, Mach-O,
  device trees and the page tables remain to be modelled; the manifest lists every part with its reason.
\<close>

end
